(* ===== verification/Aex_Prelude.thy ===== *)
theory Aex_Prelude
  imports Main "HOL-Library.Word" "HOL-Library.Signed_Division"
begin

unbundle bit_operations_syntax

text \<open>
  Shared vocabulary of the development: machine integers, the ways in which the kernel can stop
  (a failing pointer access, \<open>kpanic\<close>, a wait that is never satisfied), the result type
  \<open>'a res\<close> with its sequencing operator, the return codes of
  \<^verbatim>\<open>include/aex/vals/rcode_names.h\<close>, C strings as byte lists, and the list and word lemmas
  the component theories share.
\<close>

section \<open>Collections\<close>

named_theorems aex_defs \<open>unfolding equations of the small wrappers of the model\<close>
named_theorems aex_inv \<open>preservation of the component invariants\<close>

section \<open>Machine types\<close>

type_synonym u8 = "8 word"
type_synonym u16 = "16 word"
type_synonym u32 = "32 word"
type_synonym u64 = "64 word"
type_synonym bytes = "u8 list"

text \<open>
  A C \<open>int\<close> used where the callee declares \<open>size_t\<close>: the implicit conversion reduces the
  value modulo \<open>2 ^ 64\<close>, so that a negative number becomes a very large one.
\<close>

definition to_size_t :: "int \<Rightarrow> nat" where
  "to_size_t i = nat (i mod 2 ^ 64)"

lemma to_size_t_nonneg [simp]: "0 \<le> i \<Longrightarrow> i < 2 ^ 64 \<Longrightarrow> to_size_t i = nat i"
  by (simp add: to_size_t_def)

lemma to_size_t_of_nat [simp]: "n < 2 ^ 64 \<Longrightarrow> to_size_t (int n) = n"
  by (simp add: to_size_t_def nat_mod_as_int)

lemma to_size_t_neg:
  assumes "i < 0" and "- (2 ^ 31) \<le> i"
  shows "2 ^ 63 \<le> to_size_t i"
proof -
  have "i mod 2 ^ 64 = (i + 2 ^ 64) mod 2 ^ 64" by simp
  also have "\<dots> = i + 2 ^ 64" using assms by (intro mod_pos_pos_trivial) auto
  finally show ?thesis using assms by (simp add: to_size_t_def)
qed

text \<open>An unsigned number of 64 bits where an \<open>int\<close> is expected.\<close>

definition to_int :: "nat \<Rightarrow> int" where
  "to_int n = sint (of_nat n :: u32)"

lemma to_int_small [simp]: "n < 2 ^ 31 \<Longrightarrow> to_int n = int n"
  by (simp add: to_int_def sint_uint signed_take_bit_int_eq_self uint_nat unat_of_nat)

lemma unat_u8_less: "unat (x :: u8) < 256"
  using unsigned_less [of x, where 'a = nat] by simp

lemma ucast_of_nat_u32: "n < 2 ^ 32 \<Longrightarrow> ucast (of_nat n :: u32) = (of_nat n :: u64)"
  by (simp add: unsigned_of_nat take_bit_nat_eq_self)

section \<open>Faults and results\<close>

text \<open>
  \<open>Panic\<close> is a call of \<open>kpanic\<close>; \<open>NullDeref\<close> and \<open>OutOfBounds\<close> are accesses through
  a null pointer and outside an object; \<open>Hang\<close> is a loop that waits for something that nothing
  in the modelled step provides.
\<close>

datatype fault = Panic string | NullDeref | OutOfBounds | Hang

type_synonym 'a res = "fault + 'a"

definition bindR :: "'a res \<Rightarrow> ('a \<Rightarrow> 'b res) \<Rightarrow> 'b res" where
  "bindR m f = (case m of Inl e \<Rightarrow> Inl e | Inr x \<Rightarrow> f x)"

lemma bindR_simps [simp]:
  "bindR (Inl e) f = Inl e"
  "bindR (Inr x) f = f x"
  by (simp_all add: bindR_def)

lemma bindR_eq_Inr_iff: "bindR m f = Inr y \<longleftrightarrow> (\<exists>x. m = Inr x \<and> f x = Inr y)"
  by (cases m) auto

lemma bindR_assoc: "bindR (bindR m f) g = bindR m (\<lambda>x. bindR (f x) g)"
  by (cases m) simp_all

lemma bindR_cong [fundef_cong]:
  "m = m' \<Longrightarrow> (\<And>x. m' = Inr x \<Longrightarrow> f x = f' x) \<Longrightarrow> bindR m f = bindR m' f'"
  by (cases m') auto

definition mapR :: "('a \<Rightarrow> 'b) \<Rightarrow> 'a res \<Rightarrow> 'b res" where
  "mapR f m = bindR m (\<lambda>x. Inr (f x))"

lemma mapR_simps [simp]:
  "mapR f (Inl e) = Inl e"
  "mapR f (Inr x) = Inr (f x)"
  by (simp_all add: mapR_def)

lemma mapR_eq_Inr_iff: "mapR f m = Inr y \<longleftrightarrow> (\<exists>x. m = Inr x \<and> f x = y)"
  by (cases m) auto

text \<open>Reading an array element: outside the array it is a fault.\<close>

definition nthR :: "'a list \<Rightarrow> nat \<Rightarrow> 'a res" where
  "nthR xs i = (if i < length xs then Inr (xs ! i) else Inl OutOfBounds)"

definition updR :: "'a list \<Rightarrow> nat \<Rightarrow> 'a \<Rightarrow> 'a list res" where
  "updR xs i x = (if i < length xs then Inr (xs[i := x]) else Inl OutOfBounds)"

lemma nthR_in [simp]: "i < length xs \<Longrightarrow> nthR xs i = Inr (xs ! i)"
  by (simp add: nthR_def)

lemma updR_in [simp]: "i < length xs \<Longrightarrow> updR xs i x = Inr (xs[i := x])"
  by (simp add: updR_def)

section \<open>Return codes\<close>

text \<open>The enumeration \<open>aex_return_code\<close>; functions return the negated code.\<close>

definition EPERM :: int where "EPERM = 1"
definition ENOENT :: int where "ENOENT = 2"
definition ENOPS :: int where "ENOPS = 3"
definition EINTR :: int where "EINTR = 4"
definition EIO :: int where "EIO = 5"
definition EINVAL :: int where "EINVAL = 6"
definition EBADF :: int where "EBADF = 7"
definition EBADEXE :: int where "EBADEXE = 8"
definition ENOSYS :: int where "ENOSYS = 9"
definition ENODEV :: int where "ENODEV = 10"
definition ENOTDIR :: int where "ENOTDIR = 11"
definition EISDIR :: int where "EISDIR = 12"
definition EROFS :: int where "EROFS = 13"
definition ERANGE :: int where "ERANGE = 14"
definition EBUSY :: int where "EBUSY = 15"
definition ENAMETOOLONG :: int where "ENAMETOOLONG = 16"

text \<open>\<^verbatim>\<open>include/aex/vals/ioctl_names.h\<close>, for files and for terminals.\<close>

definition IOCTL_BYTES_AVAILABLE :: int where "IOCTL_BYTES_AVAILABLE = 0x71"

lemmas rcode_defs =
  EPERM_def ENOENT_def ENOPS_def EINTR_def EIO_def EINVAL_def EBADF_def EBADEXE_def ENOSYS_def
  ENODEV_def ENOTDIR_def EISDIR_def EROFS_def ERANGE_def EBUSY_def ENAMETOOLONG_def

section \<open>C strings\<close>

text \<open>
  A \<open>char*\<close> is the byte list from the pointer to the end of the object it points into;
  \<open>bytes_of s\<close> are the bytes of a literal without its terminator, \<open>cstr s\<close> with it.
\<close>

definition bytes_of :: "string \<Rightarrow> bytes" where
  "bytes_of s = map of_char s"

definition cstr :: "string \<Rightarrow> bytes" where
  "cstr s = bytes_of s @ [0]"

lemma length_bytes_of [simp]: "length (bytes_of s) = length s"
  by (simp add: bytes_of_def)

section \<open>List lemmas\<close>

lemma list_update_append_drop:
  "i < length xs \<Longrightarrow> xs[i := x] = take i xs @ x # drop (Suc i) xs"
  by (rule upd_conv_take_nth_drop)

text \<open>Overwriting the window of \<open>xs\<close> that starts at \<open>i\<close> with \<open>ys\<close>.\<close>

definition blit :: "'a list \<Rightarrow> nat \<Rightarrow> 'a list \<Rightarrow> 'a list" where
  "blit xs i ys = take i xs @ ys @ drop (i + length ys) xs"

lemma length_blit [simp]: "i + length ys \<le> length xs \<Longrightarrow> length (blit xs i ys) = length xs"
  by (simp add: blit_def)

lemma blit_nil [simp]: "i \<le> length xs \<Longrightarrow> blit xs i [] = xs"
  by (simp add: blit_def)

lemma nth_blit:
  assumes "i + length ys \<le> length xs" and "k < length xs"
  shows "blit xs i ys ! k = (if i \<le> k \<and> k < i + length ys then ys ! (k - i) else xs ! k)"
  using assms by (auto simp: blit_def nth_append min_def)

lemma blit_snoc:
  assumes "i + length ys < length xs"
  shows "(blit xs i ys)[i + length ys := y] = blit xs i (ys @ [y])"
  using assms by (intro nth_equalityI) (auto simp: nth_blit nth_list_update nth_append)

lemma blit_Cons:
  assumes "i + length ys < length xs"
  shows "(blit xs (Suc i) ys)[i := y] = blit xs i (y # ys)"
  using assms
  by (intro nth_equalityI) (auto simp: nth_blit nth_list_update nth_Cons' not_less less_Suc_eq_le)

lemma blit_blit:
  assumes "i + length ys + length zs \<le> length xs"
  shows "blit (blit xs i ys) (i + length ys) zs = blit xs i (ys @ zs)"
  using assms by (cases ys) (auto simp: blit_def min_def add.commute add.left_commute)

section \<open>Blocks of the kernel heap\<close>

text \<open>
  What \<open>kmalloc\<close> hands out, where the addresses do not matter: a zeroed block whose size is
  rounded up to pieces of 16 bytes (\<open>Pool.kmalloc_correct\<close>). A store behind it is a fault.
\<close>

definition kblock :: "nat \<Rightarrow> bytes" where
  "kblock n = replicate (16 * ((n + 15) div 16)) 0"

lemma length_kblock: "n \<le> length (kblock n)"
  by (simp add: kblock_def)

section \<open>Little-endian numbers\<close>

definition le32 :: "nat \<Rightarrow> bytes" where
  "le32 n = map (\<lambda>k. word_of_nat (n div 256 ^ k)) [0..<4]"

definition un32 :: "bytes \<Rightarrow> nat" where
  "un32 bs = unat (bs ! 0) + 256 * unat (bs ! 1) + 65536 * unat (bs ! 2) + 16777216 * unat (bs ! 3)"

lemma un32_le32: "n < 2 ^ 32 \<Longrightarrow> un32 (le32 n) = n"
proof -
  assume n: "n < 2 ^ 32"
  have u: "unat (word_of_nat m :: u8) = m mod 256" for m :: nat
    by (simp add: unsigned_of_nat take_bit_eq_mod)
  have "un32 (le32 n) = n mod 256 + 256 * (n div 256 mod 256) + 65536 * (n div 65536 mod 256) +
      16777216 * (n div 16777216 mod 256)"
    by (simp add: un32_def le32_def u power2_eq_square power3_eq_cube)
  also have "\<dots> = n"
  proof -
    define x y z where "x = n div 256" and "y = n div 65536" and "z = n div 16777216"
    have "y = x div 256" "z = y div 256"
      using div_mult2_eq [of n 256 256] div_mult2_eq [of n 65536 256] by (simp_all add: x_def y_def z_def)
    then have "n mod 256 + 256 * x = n" "x mod 256 + 256 * y = x" "y mod 256 + 256 * z = y"
      by (simp_all add: x_def)
    moreover have "z mod 256 = z" using n by (simp add: z_def less_mult_imp_div_less)
    ultimately show ?thesis unfolding x_def [symmetric] y_def [symmetric] z_def [symmetric] by linarith
  qed
  finally show ?thesis .
qed

section \<open>Arithmetic modulo the size of a ring\<close>

lemma mod_add_lcancel:
  assumes "(r + a) mod s = (r + b) mod (s::nat)"
  shows "a mod s = b mod s"
proof -
  have "(int r + int a - int r) mod int s = (int r + int b - int r) mod int s"
    using assms by (intro mod_diff_cong) (simp_all add: zmod_int [symmetric] of_nat_add [symmetric] del: of_nat_add)
  then show ?thesis by (simp add: zmod_int [symmetric])
qed

end
