(* ===== verification/CString.thy ===== *)
theory CString
  imports Aex_Prelude
begin

unbundle bit_operations_syntax

text \<open>
  \<^verbatim>\<open>kernel/string.c\<close>: the memory and string primitives every other component calls, and the
  number formatting and parsing routines. A pointer into an object is the byte list from that
  place to the object's end; \<open>memcpy\<close>, \<open>memmove\<close> and \<open>memset\<close>, whose arguments may
  overlap, work on one byte array with two offsets. \<open>char\<close> is signed (the target is x86-64).
\<close>

section \<open>Memory\<close>

fun memcmp :: "bytes \<Rightarrow> bytes \<Rightarrow> nat \<Rightarrow> int res" where
  "memcmp a b 0 = Inr 0"
| "memcmp (x # a) (y # b) (Suc n) =
     (if x < y then Inr (- 1) else if y < x then Inr 1 else memcmp a b n)"
| "memcmp [] b (Suc n) = Inl OutOfBounds"
| "memcmp (x # a) [] (Suc n) = Inl OutOfBounds"

text \<open>The loop \<open>for (i = i0; i < size; i++) dst[i] = src[i]\<close>.\<close>

function copy_up :: "nat \<Rightarrow> nat \<Rightarrow> nat \<Rightarrow> nat \<Rightarrow> bytes \<Rightarrow> bytes res" where
  "copy_up dst src sz i m =
     (if i < sz
      then bindR (nthR m (src + i)) (\<lambda>b. bindR (updR m (dst + i) b)
             (\<lambda>m'. copy_up dst src sz (Suc i) m'))
      else Inr m)"
  by pat_completeness auto
termination
  by (relation "measure (\<lambda>(dst, src, sz, i, m). sz - i)") auto

declare copy_up.simps [simp del]

text \<open>The loop \<open>for (i = size; i != 0; i--) dst[i-1] = src[i-1]\<close>.\<close>

fun copy_down :: "nat \<Rightarrow> nat \<Rightarrow> nat \<Rightarrow> bytes \<Rightarrow> bytes res" where
  "copy_down dst src 0 m = Inr m"
| "copy_down dst src (Suc i) m =
     bindR (nthR m (src + i)) (\<lambda>b. bindR (updR m (dst + i) b) (\<lambda>m'. copy_down dst src i m'))"

definition memcpy :: "nat \<Rightarrow> nat \<Rightarrow> nat \<Rightarrow> bytes \<Rightarrow> bytes res" where
  "memcpy dst src sz m = copy_up dst src sz 0 m"

definition memmove :: "nat \<Rightarrow> nat \<Rightarrow> nat \<Rightarrow> bytes \<Rightarrow> bytes res" where
  "memmove dst src sz m =
     (if dst < src then copy_up dst src sz 0 m else copy_down dst src sz m)"

function memset_loop :: "nat \<Rightarrow> u8 \<Rightarrow> nat \<Rightarrow> nat \<Rightarrow> bytes \<Rightarrow> bytes res" where
  "memset_loop buf v sz i m =
     (if i < sz then bindR (updR m (buf + i) v) (\<lambda>m'. memset_loop buf v sz (Suc i) m')
      else Inr m)"
  by pat_completeness auto
termination
  by (relation "measure (\<lambda>(buf, v, sz, i, m). sz - i)") auto

declare memset_loop.simps [simp del]

definition memset :: "nat \<Rightarrow> int \<Rightarrow> nat \<Rightarrow> bytes \<Rightarrow> bytes res" where
  "memset buf value sz m = memset_loop buf (word_of_int value) sz 0 m"

section \<open>Strings\<close>

fun strlen :: "bytes \<Rightarrow> nat res" where
  "strlen [] = Inl OutOfBounds"
| "strlen (c # s) = (if c = 0 then Inr 0 else mapR Suc (strlen s))"

fun strcmp :: "bytes \<Rightarrow> bytes \<Rightarrow> int res" where
  "strcmp (l # ls) (r # rs) =
     (if l = r then (if l = 0 then Inr 0 else strcmp ls rs)
      else Inr (if sint l < sint r then - 1 else 1))"
| "strcmp _ _ = Inl OutOfBounds"

text \<open>\<open>strcpy\<close> returns the destination object; it faults when the object is too small.\<close>

fun strcpy :: "bytes \<Rightarrow> bytes \<Rightarrow> bytes res" where
  "strcpy (d # ds) (c # s) =
     (if c = 0 then Inr (0 # ds) else mapR (\<lambda>ds'. c # ds') (strcpy ds s))"
| "strcpy _ _ = Inl OutOfBounds"

text \<open>\<open>strchrnul\<close> returns the distance from \<open>str\<close> to the character it found.\<close>

fun strchrnul :: "bytes \<Rightarrow> int \<Rightarrow> nat res" where
  "strchrnul [] c = Inl OutOfBounds"
| "strchrnul (x # s) c = (if sint x = c \<or> x = 0 then Inr 0 else mapR Suc (strchrnul s c))"

definition toupper :: "int \<Rightarrow> int" where
  "toupper c = (if 97 \<le> c \<and> c \<le> 122 then c - 32 else c)"

definition tolower :: "int \<Rightarrow> int" where
  "tolower c = (if 65 \<le> c \<and> c \<le> 90 then c + 32 else c)"

section \<open>Numbers\<close>

definition NTOA_DICTIONARY :: bytes where
  "NTOA_DICTIONARY =
     bytes_of ''zyxwvutsrqponmlkjihgfedcba9876543210123456789abcdefghijklmnopqrstuvwxyz''"

text \<open>
  The \<open>do ... while (value)\<close> loop: the remainder has the sign of the dividend, which is why the
  dictionary is mirrored around index 35. The test of the base, made once before the loop by the
  callers, is repeated here for termination only.
\<close>

function ntoa_loop :: "int \<Rightarrow> int \<Rightarrow> bytes" where
  "ntoa_loop value base =
     NTOA_DICTIONARY ! nat (35 + value smod base) #
     (if 2 \<le> base \<and> value sdiv base \<noteq> 0 then ntoa_loop (value sdiv base) base else [])"
  by pat_completeness auto
termination
proof (relation "measure (\<lambda>(value, base). nat \<bar>value\<bar>)", goal_cases)
  case (2 v base)
  then have "\<bar>v\<bar> div base < \<bar>v\<bar>"
    by (intro int_div_less_self) (auto simp: signed_divide_int_def)
  with 2 show ?case
    by (auto simp: signed_divide_int_def abs_mult sgn_if pos_imp_zdiv_nonneg_iff)
qed simp

declare ntoa_loop.simps [simp del]

text \<open>The loop that swaps \<open>*low++\<close> and \<open>*ptr--\<close> while \<open>low < ptr\<close>.\<close>

function swap_loop :: "nat \<Rightarrow> nat \<Rightarrow> 'a list \<Rightarrow> 'a list" where
  "swap_loop low ptr s =
     (if low < ptr then swap_loop (Suc low) (ptr - 1) (s[low := s ! ptr, ptr := s ! low]) else s)"
  by pat_completeness auto
termination
  by (relation "measure (\<lambda>(low, ptr, s). ptr - low)") auto

declare swap_loop.simps [simp del]

definition NTOA_COMMON :: "int \<Rightarrow> int \<Rightarrow> bytes" where
  "NTOA_COMMON value base =
     (if base < 2 \<or> 36 < base then [0]
      else let pre = (if value < 0 \<and> base = 10 then bytes_of ''-'' else []);
               s = pre @ ntoa_loop value base
           in swap_loop (length pre) (length s - 1) s @ [0])"

definition UNTOA_COMMON :: "int \<Rightarrow> int \<Rightarrow> bytes" where
  "UNTOA_COMMON value base =
     (if base < 2 \<or> 36 < base then [0]
      else let s = ntoa_loop value base in swap_loop 0 (length s - 1) s @ [0])"

definition itoa :: "32 word \<Rightarrow> int \<Rightarrow> bytes" where "itoa value base = NTOA_COMMON (sint value) base"
definition ltoa :: "64 word \<Rightarrow> int \<Rightarrow> bytes" where "ltoa value base = NTOA_COMMON (sint value) base"
definition htoa :: "16 word \<Rightarrow> int \<Rightarrow> bytes" where "htoa value base = NTOA_COMMON (sint value) base"
definition uitoa :: "32 word \<Rightarrow> int \<Rightarrow> bytes" where "uitoa value base = UNTOA_COMMON (uint value) base"
definition ultoa :: "64 word \<Rightarrow> int \<Rightarrow> bytes" where "ultoa value base = UNTOA_COMMON (uint value) base"
definition uhtoa :: "16 word \<Rightarrow> int \<Rightarrow> bytes" where "uhtoa value base = UNTOA_COMMON (uint value) base"

text \<open>The parsers: the accumulator has the width of the result and wraps around.\<close>

fun aton_loop :: "'a::len word \<Rightarrow> bytes \<Rightarrow> 'a word res" where
  "aton_loop res [] = Inl OutOfBounds"
| "aton_loop res (c # s) =
     (if c = 0 then Inr res else aton_loop (res * 10 + word_of_int (sint c) - 48) s)"

definition ATON_COMMON :: "bytes \<Rightarrow> 'a::len word res" where
  "ATON_COMMON str =
     (case str of [] \<Rightarrow> Inl OutOfBounds
      | c # s \<Rightarrow> if c = 45 then mapR (\<lambda>res. (- 1) * res) (aton_loop 0 s) else aton_loop 0 str)"

definition UATON_COMMON :: "bytes \<Rightarrow> 'a::len word res" where
  "UATON_COMMON str = aton_loop 0 str"

definition atoi :: "bytes \<Rightarrow> 32 word res" where "atoi str = ATON_COMMON str"
definition atol :: "bytes \<Rightarrow> 64 word res" where "atol str = ATON_COMMON str"
definition atoh :: "bytes \<Rightarrow> 16 word res" where "atoh str = ATON_COMMON str"
definition atoui :: "bytes \<Rightarrow> 32 word res" where "atoui str = UATON_COMMON str"
definition atoul :: "bytes \<Rightarrow> 64 word res" where "atoul str = UATON_COMMON str"
definition atouh :: "bytes \<Rightarrow> 16 word res" where "atouh str = UATON_COMMON str"


section \<open>Memory: the loops overwrite one window\<close>

lemma copy_up_blit:
  assumes "dst + sz \<le> length m" and "src + sz \<le> length m" and "dst \<le> src \<or> src + sz \<le> dst"
    and "i \<le> sz"
  shows "copy_up dst src sz i (blit m dst (take i (drop src m))) =
    Inr (blit m dst (take sz (drop src m)))"
  using \<open>i \<le> sz\<close>
proof (induction "sz - i" arbitrary: i)
  case 0
  then show ?case by (simp add: copy_up.simps)
next
  case (Suc d)
  let ?m = "blit m dst (take i (drop src m))"
  have i: "i < sz" using Suc.hyps(2) by simp
  have len: "length (take i (drop src m)) = i" "length ?m = length m"
    using assms i by auto
  have rd: "?m ! (src + i) = m ! (src + i)"
    using assms i len by (subst nth_blit) auto
  have "?m[dst + i := m ! (src + i)] = blit m dst (take i (drop src m) @ [m ! (src + i)])"
    using blit_snoc [of dst "take i (drop src m)" m "m ! (src + i)"] assms i len by simp
  also have "take i (drop src m) @ [m ! (src + i)] = take (Suc i) (drop src m)"
    using assms i by (simp add: take_Suc_conv_app_nth)
  finally have upd: "?m[dst + i := m ! (src + i)] = blit m dst (take (Suc i) (drop src m))" .
  show ?case
    using Suc.hyps(1) [of "Suc i"] Suc.hyps(2) i assms len
    by (simp add: copy_up.simps [of dst src sz i] rd upd)
qed

lemma copy_down_blit:
  assumes "dst + sz \<le> length m" and "src + sz \<le> length m" and "src \<le> dst" and "i \<le> sz"
  shows "copy_down dst src i (blit m (dst + i) (drop i (take sz (drop src m)))) =
    Inr (blit m dst (take sz (drop src m)))"
  using \<open>i \<le> sz\<close>
proof (induction i)
  case 0
  then show ?case by simp
next
  case (Suc i)
  let ?w = "take sz (drop src m)"
  let ?m = "blit m (Suc (dst + i)) (drop (Suc i) ?w)"
  have i: "i < sz" using Suc.prems by simp
  have len: "length ?w = sz" "length ?m = length m"
    using assms i by auto
  have rd: "?m ! (src + i) = m ! (src + i)"
    using assms i len by (subst nth_blit) auto
  have "?m[dst + i := m ! (src + i)] = blit m (dst + i) (m ! (src + i) # drop (Suc i) ?w)"
    using blit_Cons [of "dst + i" "drop (Suc i) ?w" m "m ! (src + i)"] assms i len by simp
  also have "m ! (src + i) # drop (Suc i) ?w = drop i ?w"
    using assms i len by (subst Cons_nth_drop_Suc [symmetric]) auto
  finally have upd: "?m[dst + i := m ! (src + i)] = blit m (dst + i) (drop i ?w)" .
  show ?case
    using Suc.IH i assms len by (simp add: rd upd)
qed

lemma memmove_blit:
  assumes "dst + sz \<le> length m" and "src + sz \<le> length m"
  shows "memmove dst src sz m = Inr (blit m dst (take sz (drop src m)))"
  using copy_up_blit [OF assms, of 0] copy_down_blit [OF assms, of sz] assms
  by (auto simp: memmove_def)

lemma memcpy_blit:
  assumes "dst + sz \<le> length m" and "src + sz \<le> length m" and "dst \<le> src \<or> src + sz \<le> dst"
  shows "memcpy dst src sz m = Inr (blit m dst (take sz (drop src m)))"
  using copy_up_blit [OF assms, of 0] assms by (simp add: memcpy_def)

lemma memset_loop_blit:
  assumes "buf + sz \<le> length m" and "i \<le> sz"
  shows "memset_loop buf v sz i (blit m buf (replicate i v)) = Inr (blit m buf (replicate sz v))"
  using \<open>i \<le> sz\<close>
proof (induction "sz - i" arbitrary: i)
  case 0
  then show ?case by (simp add: memset_loop.simps)
next
  case (Suc d)
  then have i: "i < sz" by simp
  have "(blit m buf (replicate i v))[buf + i := v] = blit m buf (replicate (Suc i) v)"
    using blit_snoc [of buf "replicate i v" m v] assms i by (simp add: replicate_append_same)
  then show ?case
    using Suc.hyps(1) [of "Suc i"] Suc.hyps(2) i assms
    by (simp add: memset_loop.simps [of buf v sz i])
qed

lemma memset_blit:
  "buf + sz \<le> length m \<Longrightarrow> memset buf c sz m = Inr (blit m buf (replicate sz (word_of_int c)))"
  using memset_loop_blit [of buf sz m 0] by (simp add: memset_def)

lemma memcmp_zero_iff:
  assumes "n \<le> length a" and "n \<le> length b"
  shows "memcmp a b n = Inr 0 \<longleftrightarrow> take n a = take n b"
  using assms by (induction a b n rule: memcmp.induct) auto

section \<open>Terminated strings\<close>

text \<open>The contents of a C string: no byte is the terminator.\<close>

definition cstring :: "bytes \<Rightarrow> bool" where "cstring s \<longleftrightarrow> 0 \<notin> set s"

lemma strlen_terminated [simp]: "cstring s \<Longrightarrow> strlen (s @ 0 # rest) = Inr (length s)"
  by (induction s) (auto simp: cstring_def)

lemma strcmp_terminated:
  assumes "cstring s" and "cstring t"
  shows "strcmp (s @ 0 # x) (t @ 0 # y) = Inr 0 \<longleftrightarrow> s = t"
  using assms
proof (induction s arbitrary: t)
  case Nil
  then show ?case by (cases t) (auto simp: cstring_def)
next
  case (Cons c s)
  then show ?case by (cases t) (auto simp: cstring_def)
qed

lemma strcmp_ex:
  assumes "cstring s" and "cstring t"
  shows "\<exists>r. strcmp (s @ 0 # x) (t @ 0 # y) = Inr r"
  using assms
proof (induction s arbitrary: t)
  case Nil
  then show ?case by (cases t) (auto simp: cstring_def)
next
  case (Cons c s)
  then show ?case by (cases t) (auto simp: cstring_def)
qed

lemma sint_u8_eq: "sint (x :: u8) = sint y \<longleftrightarrow> x = y"
  by (metis signed_word_eqI)

lemma strchrnul_terminated:
  "cstring l \<Longrightarrow> strchrnul (l @ 0 # rest) (sint c) = Inr (length (takeWhile (\<lambda>x. x \<noteq> c) l))"
  by (induction l) (auto simp: cstring_def sint_u8_eq)

lemma strcpy_terminated [simp]:
  "cstring s \<Longrightarrow> length s < length d \<Longrightarrow>
   strcpy d (s @ 0 # rest) = Inr (s @ 0 # drop (Suc (length s)) d)"
proof (induction s arbitrary: d)
  case Nil
  then show ?case by (cases d) auto
next
  case (Cons c s)
  then show ?case by (cases d) (auto simp: cstring_def)
qed

section \<open>Printing and parsing numbers\<close>

lemma length_swap_loop [simp]: "length (swap_loop low ptr s) = length s"
proof (induction low ptr s rule: swap_loop.induct)
  case (1 low ptr s)
  then show ?case by (simp add: swap_loop.simps [of low ptr s])
qed

lemma nth_swap_loop:
  assumes "ptr < length s" and "k < length s"
  shows "swap_loop low ptr s ! k = (if low \<le> k \<and> k \<le> ptr then s ! (low + ptr - k) else s ! k)"
  using assms
proof (induction low ptr s rule: swap_loop.induct)
  case (1 low ptr s)
  show ?case
  proof (cases "low < ptr")
    case True
    with 1 show ?thesis
      by (subst swap_loop.simps) (auto simp: nth_list_update not_le intro!: arg_cong [where f = "(!) s"])
  next
    case False
    with 1 show ?thesis
      by (subst swap_loop.simps) (auto simp: not_less dest: antisym)
  qed
qed

lemma swap_loop_rev: "ys \<noteq> [] \<Longrightarrow> swap_loop (length xs) (length (xs @ ys) - 1) (xs @ ys) = xs @ rev ys"
  by (intro nth_equalityI) (auto simp: nth_swap_loop nth_append rev_nth not_less intro!: arg_cong [where f = "(!) ys"])

lemma length_dictionary: "length NTOA_DICTIONARY = 71" by (simp add: NTOA_DICTIONARY_def)
lemma dictionary_mirror: "rev (take 36 NTOA_DICTIONARY) = drop 35 NTOA_DICTIONARY" by (simp add: NTOA_DICTIONARY_def bytes_of_def)
lemma dictionary_digits: "\<forall>k<10. NTOA_DICTIONARY ! (35+k) = of_nat (48+k)" 
  by (simp add: NTOA_DICTIONARY_def bytes_of_def numeral_nat All_less_Suc)
lemma dict_sym: "k \<le> 35 \<Longrightarrow> NTOA_DICTIONARY ! (35 - k) = NTOA_DICTIONARY ! (35 + k)"
proof -
  assume "k \<le> 35"
  then have "rev (take 36 NTOA_DICTIONARY) ! k = NTOA_DICTIONARY ! (35 - k)"
    by (simp add: rev_nth length_dictionary)
  with dictionary_mirror show ?thesis by (simp add: length_dictionary)
qed

lemma smod_bound:
  assumes "2 \<le> base" and "base \<le> 36"
  shows "\<bar>v smod base\<bar> \<le> (35::int)"
proof -
  have "\<bar>v smod base\<bar> \<le> \<bar>v\<bar> mod base" 
    using assms by (simp add: signed_modulo_int_def abs_mult sgn_if)
  also have "\<dots> < base" using assms by simp
  finally show ?thesis using assms by simp
qed

lemma sdiv_smod_minus:
  "(- v) sdiv base = - (v sdiv (base::int))" "(- v) smod base = - (v smod (base::int))"
  by (simp_all add: signed_divide_int_def signed_modulo_int_def sgn_if)

lemma dict_sym_int:
  assumes "\<bar>r\<bar> \<le> (35::int)"
  shows "NTOA_DICTIONARY ! nat (35 - r) = NTOA_DICTIONARY ! nat (35 + r)"
proof (cases "0 \<le> r")
  case True
  then show ?thesis using dict_sym [of "nat r"] assms by (simp add: nat_diff_distrib nat_add_distrib)
next
  case False
  then have "nat (35 - r) = 35 + nat (- r)" "nat (35 + r) = 35 - nat (- r)" "nat (- r) \<le> 35"
    using assms by auto
  then show ?thesis using dict_sym [of "nat (- r)"] by simp
qed

lemma ntoa_loop_minus:
  assumes "2 \<le> base" and "base \<le> 36"
  shows "ntoa_loop (- v) base = ntoa_loop v base"
  using assms
proof (induction v base rule: ntoa_loop.induct)
  case (1 v base)
  have hd: "NTOA_DICTIONARY ! nat (35 + - (v smod base)) = NTOA_DICTIONARY ! nat (35 + v smod base)"
    using dict_sym_int [OF smod_bound [OF 1(2,3)], of v] by simp
  show ?case
  proof (cases "v sdiv base = 0")
    case True
    then show ?thesis
      by (subst (1 2) ntoa_loop.simps) (simp add: sdiv_smod_minus hd [simplified])
  next
    case False
    with 1 have "ntoa_loop (- (v sdiv base)) base = ntoa_loop (v sdiv base) base" by simp
    with False 1(2) show ?thesis
      by (subst (1 2) ntoa_loop.simps) (simp add: sdiv_smod_minus hd [simplified])
  qed
qed

lemma ntoa_loop_abs: "ntoa_loop \<bar>v\<bar> 10 = ntoa_loop v 10"
  by (simp add: abs_if ntoa_loop_minus)

lemma ntoa_loop_dec:
  assumes "0 \<le> v"
  shows "ntoa_loop v 10 =
    word_of_int (48 + v mod 10) # (if v div 10 \<noteq> 0 then ntoa_loop (v div 10) 10 else [])"
proof -
  have sd: "v smod 10 = v mod 10" "v sdiv 10 = v div 10"
    using assms by (simp_all add: signed_divide_int_def signed_modulo_int_def sgn_if)
  obtain k where k: "v mod 10 = int k" "k < 10"
    by (metis nonneg_int_cases of_nat_less_iff of_nat_numeral pos_mod_bound pos_mod_sign zero_less_numeral)
  have "NTOA_DICTIONARY ! nat (35 + v mod 10) = word_of_int (48 + v mod 10)"
    using dictionary_digits [rule_format, OF k(2)] unfolding k(1) by (simp add: nat_add_distrib)
  then show ?thesis
    by (subst ntoa_loop.simps) (simp add: sd del: of_int_add)
qed

definition aton_step :: "'a::len word \<Rightarrow> u8 \<Rightarrow> 'a word" where
  "aton_step r c = r * 10 + word_of_int (sint c) - 48"

lemma aton_loop_append:
  "0 \<notin> set xs \<Longrightarrow> aton_loop r (xs @ ys) = aton_loop (foldl aton_step r xs) ys"
  by (induction xs arbitrary: r) (auto simp: aton_step_def)

lemma sint_digit: "0 \<le> d \<Longrightarrow> d < 10 \<Longrightarrow> sint (word_of_int (48 + d) :: u8) = 48 + d"
  by (subst int_word_sint) simp

lemma set_ntoa_loop_dec:
  "0 \<le> v \<Longrightarrow> c \<in> set (ntoa_loop v 10) \<Longrightarrow> \<exists>d. 0 \<le> d \<and> d < 10 \<and> c = word_of_int (48 + d)"
proof (induction v "10::int" rule: ntoa_loop.induct)
  case (1 v)
  have "v sdiv 10 = v div 10"
    using 1 by (simp add: signed_divide_int_def sgn_if)
  then show ?case
    using 1 by (subst (asm) (2) ntoa_loop_dec)
      (auto split: if_splits simp: pos_imp_zdiv_nonneg_iff intro: exI [of _ "v mod 10"])
qed

lemma digit_nonzero: "0 \<le> v \<Longrightarrow> 0 \<notin> set (ntoa_loop v 10)" and digit_nominus: "0 \<le> v \<Longrightarrow> 45 \<notin> set (ntoa_loop v 10)"
proof -
  assume v: "0 \<le> v"
  have "sint c \<ge> 48" if "c \<in> set (ntoa_loop v 10)" for c
    using set_ntoa_loop_dec [OF v that] sint_digit by force
  then show "0 \<notin> set (ntoa_loop v 10)" "45 \<notin> set (ntoa_loop v 10)"
    by force+
qed

lemma foldl_aton_digits:
  "0 \<le> v \<Longrightarrow> foldl aton_step (0::'a::len word) (rev (ntoa_loop v 10)) = word_of_int v"
proof (induction v "10::int" rule: ntoa_loop.induct)
  case (1 v)
  have sd: "v sdiv 10 = v div 10"
    using 1 by (simp add: signed_divide_int_def sgn_if)
  have last: "aton_step (word_of_int q) (word_of_int (48 + v mod 10)) = (word_of_int (10 * q + v mod 10) :: 'a word)" for q
    unfolding aton_step_def by (subst sint_digit) simp_all
  show ?case
  proof (cases "v div 10 = 0")
    case True
    then have "v mod 10 = v" using 1(2) by (metis mult_zero_right add.left_neutral mult_div_mod_eq)
    with True show ?thesis
      using last [of 0] 1(2) unfolding ntoa_loop_dec [OF 1(2)] by (simp del: of_int_add)
  next
    case False
    have "foldl aton_step (0::'a word) (rev (ntoa_loop (v div 10) 10)) = word_of_int (v div 10)"
      using 1(1) sd False 1(2) by (simp add: pos_imp_zdiv_nonneg_iff)
    with False show ?thesis
      using last [of "v div 10"] unfolding ntoa_loop_dec [OF 1(2)] by (simp del: of_int_add)
  qed
qed

lemma ntoa_loop_nonempty [simp]: "ntoa_loop v b \<noteq> []"
  by (simp add: ntoa_loop.simps)

lemma NTOA_COMMON_dec:
  "NTOA_COMMON v 10 = (if v < 0 then [45] else []) @ rev (ntoa_loop \<bar>v\<bar> 10) @ [0]"
  using swap_loop_rev [of "ntoa_loop v 10" "[45]"] swap_loop_rev [of "ntoa_loop v 10" "[]"]
  by (simp add: NTOA_COMMON_def ntoa_loop_abs bytes_of_def)

lemma UNTOA_COMMON_dec: "UNTOA_COMMON v 10 = rev (ntoa_loop v 10) @ [0]"
  using swap_loop_rev [of "ntoa_loop v 10" "[]"] by (simp add: UNTOA_COMMON_def)

lemma aton_loop_rev_digits:
  "0 \<le> v \<Longrightarrow> aton_loop 0 (rev (ntoa_loop v 10) @ [0]) = Inr (word_of_int v)"
  by (simp add: aton_loop_append digit_nonzero foldl_aton_digits)

text \<open>
  Printing a signed number of any width in decimal and parsing the text gives the number back,
  the most negative value included (\<open>itoa\<close>/\<open>atoi\<close>, \<open>ltoa\<close>/\<open>atol\<close>,
  \<open>htoa\<close>/\<open>atoh\<close>); the parser's overflow is the wrap-around of its register.
\<close>

theorem aton_ntoa: "ATON_COMMON (NTOA_COMMON (sint w) 10) = Inr (w :: 'a::len word)"
proof (cases "sint w < 0")
  case True
  then show ?thesis
    using aton_loop_rev_digits [of "\<bar>sint w\<bar>", where 'a = 'a] by (simp add: ATON_COMMON_def NTOA_COMMON_dec)
next
  case False
  obtain c s where cs: "rev (ntoa_loop (sint w) 10) = c # s"
    by (cases "rev (ntoa_loop (sint w) 10)") auto
  moreover have "c \<noteq> 45"
    using digit_nominus [of "sint w"] False cs by (metis list.set_intros(1) not_less set_rev)
  ultimately show ?thesis
    using aton_loop_rev_digits [of "sint w", where 'a = 'a] False by (simp add: ATON_COMMON_def NTOA_COMMON_dec)
qed

lemma uaton_untoa: "UATON_COMMON (UNTOA_COMMON (uint w) 10) = Inr (w :: 'a::len word)"
  using aton_loop_rev_digits [of "uint w", where 'a = 'a] by (simp add: UATON_COMMON_def UNTOA_COMMON_dec)


text \<open>
  C22: \<open>memmove\<close> never leaves its two windows, and afterwards the destination window holds what
  the source window held before, overlapping or not, every byte outside the destination window
  being unchanged.
\<close>

theorem memmove_correct:
  assumes "dst + sz \<le> length m" and "src + sz \<le> length m"
  shows "\<exists>m'. memmove dst src sz m = Inr m' \<and> length m' = length m \<and>
    (\<forall>i < sz. m' ! (dst + i) = m ! (src + i)) \<and>
    (\<forall>i < length m. i < dst \<or> dst + sz \<le> i \<longrightarrow> m' ! i = m ! i)"
  using assms
  by (intro exI [of _ "blit m dst (take sz (drop src m))"]) (auto simp: memmove_blit nth_blit)

theorem memmove_correct_witness:
  "\<exists>m'. memmove 1 0 3 [10, 20, 30, 40, 50] = Inr m' \<and> length m' = 5 \<and>
    m' ! 1 = 10 \<and> m' ! 2 = 20 \<and> m' ! 3 = 30 \<and> m' ! 4 = 50"
  using memmove_correct [of 1 3 "[10, 20, 30, 40, 50]" 0]
  by (auto simp: numeral_nat All_less_Suc)

end
