(* ===== verification/KList.thy ===== *)
theory KList
  imports Aex_Prelude
begin

text \<open>
  \<^verbatim>\<open>kernel/klist.c\<close>: the singly linked list that maps an index to a pointer. The chain that
  starts at \<open>first\<close> is the list of its entries in order, a null pointer is \<open>None\<close>, an entry
  cursor is the position of the entry in the chain. The contract a client relies on is the locale
  \<open>kmap\<close>: storing a pointer overrides, storing the null pointer deletes.
\<close>

section \<open>State\<close>

record 'a klist_entry =
  index :: nat
  data :: 'a

record 'a klist =
  count :: nat
  chain :: "'a klist_entry list"

section \<open>Operations\<close>

definition klist_init :: "'a klist" where
  "klist_init = \<lparr>count = 0, chain = []\<rparr>"

definition klist_init_raw :: "'a klist_entry \<Rightarrow> 'a klist" where
  "klist_init_raw first_entry = \<lparr>count = 1, chain = [first_entry]\<rparr>"

text \<open>
  The loop of \<open>klist_set\<close> over the chain: the entry with the index is unlinked or overwritten,
  and the loop breaks at the last entry otherwise, behind which the new entry is linked. The
  result is the flag the function returns, the change of \<open>count\<close> and the chain.
\<close>

fun klist_set_loop :: "'a klist_entry list \<Rightarrow> nat \<Rightarrow> 'a option \<Rightarrow> bool \<times> int \<times> 'a klist_entry list"
  where
  "klist_set_loop [] idx ptr =
     (case ptr of None \<Rightarrow> (False, 0, [])
      | Some p \<Rightarrow> (False, 1, [\<lparr>index = idx, data = p\<rparr>]))"
| "klist_set_loop (entry # rest) idx ptr =
     (if index entry = idx
      then (case ptr of None \<Rightarrow> (True, - 1, rest)
            | Some p \<Rightarrow> (True, 0, entry\<lparr>data := p\<rparr> # rest))
      else (case klist_set_loop rest idx ptr of (b, d, rest') \<Rightarrow> (b, d, entry # rest')))"

definition klist_set :: "'a klist \<Rightarrow> nat \<Rightarrow> 'a option \<Rightarrow> bool \<times> 'a klist" where
  "klist_set l idx ptr =
     (case klist_set_loop (chain l) idx ptr of
        (b, d, es) \<Rightarrow> (b, \<lparr>count = nat (int (count l) + d), chain = es\<rparr>))"

fun klist_get_loop :: "'a klist_entry list \<Rightarrow> nat \<Rightarrow> 'a option" where
  "klist_get_loop [] idx = None"
| "klist_get_loop (entry # rest) idx =
     (if index entry = idx then Some (data entry) else klist_get_loop rest idx)"

definition klist_get :: "'a klist \<Rightarrow> nat \<Rightarrow> 'a option" where
  "klist_get l idx = klist_get_loop (chain l) idx"

definition klist_first :: "'a klist \<Rightarrow> int" where
  "klist_first l = (case chain l of [] \<Rightarrow> - 1 | e # _ \<Rightarrow> int (index e))"

definition klist_iter :: "'a klist \<Rightarrow> nat option \<Rightarrow> nat option \<times> 'a option" where
  "klist_iter l entry =
     (let pos = (case entry of None \<Rightarrow> 0 | Some k \<Rightarrow> Suc k)
      in if pos < length (chain l) then (Some pos, Some (data (chain l ! pos))) else (None, None))"

text \<open>The loop \<open>klist_foreach\<close> makes of \<open>klist_iter\<close>: the indices and values it visits.\<close>

function klist_foreach_from :: "'a klist \<Rightarrow> nat option \<Rightarrow> (nat \<times> 'a) list" where
  "klist_foreach_from l entry =
     (case klist_iter l entry of
        (Some pos, Some x) \<Rightarrow> (index (chain l ! pos), x) # klist_foreach_from l (Some pos)
      | _ \<Rightarrow> [])"
  by pat_completeness auto
termination
  by (relation "measure (\<lambda>(l, e). Suc (length (chain l)) - (case e of None \<Rightarrow> 0 | Some k \<Rightarrow> Suc k))")
    (auto simp: klist_iter_def Let_def split: if_splits option.splits)

declare klist_foreach_from.simps [simp del]

definition klist_foreach :: "'a klist \<Rightarrow> (nat \<times> 'a) list" where
  "klist_foreach l = klist_foreach_from l None"

section \<open>Invariant\<close>

definition klist_ok :: "'a klist \<Rightarrow> bool" where
  "klist_ok l \<longleftrightarrow> count l = length (chain l) \<and> distinct (map index (chain l))"

lemma klist_set_loop_spec:
  assumes "klist_set_loop es idx ptr = (b, d, es')" and "distinct (map index es)"
  shows "b \<longleftrightarrow> idx \<in> index ` set es"
    and "int (length es') = int (length es) + d"
    and "distinct (map index es')"
    and "index ` set es' \<subseteq> insert idx (index ` set es)"
    and "klist_get_loop es' = (klist_get_loop es)(idx := ptr)"
proof -
  have "(b \<longleftrightarrow> idx \<in> index ` set es) \<and> int (length es') = int (length es) + d \<and>
      distinct (map index es') \<and> index ` set es' \<subseteq> insert idx (index ` set es) \<and>
      klist_get_loop es' = (klist_get_loop es)(idx := ptr)"
    using assms
  proof (induction es idx ptr arbitrary: b d es' rule: klist_set_loop.induct)
    case (1 idx ptr)
    then show ?case by (auto split: option.splits)
  next
    case (2 entry rest idx ptr)
    have none: "klist_get_loop rest k = None" if "k \<notin> index ` set rest" for k
      using that by (induction rest) auto
    show ?case
    proof (cases "index entry = idx")
      case True
      then show ?thesis
        using 2(2,3) none [of idx] by (auto split: option.splits)
    next
      case False
      obtain b' d' r where r: "klist_set_loop rest idx ptr = (b', d', r)"
        by (metis prod.collapse)
      with 2(2) False have es: "b = b'" "d = d'" "es' = entry # r" by simp_all
      show ?thesis
        using 2(1) [OF False r] 2(3) False unfolding es by auto
    qed
  qed
  then show "b \<longleftrightarrow> idx \<in> index ` set es" "int (length es') = int (length es) + d"
    "distinct (map index es')" "index ` set es' \<subseteq> insert idx (index ` set es)"
    "klist_get_loop es' = (klist_get_loop es)(idx := ptr)" by auto
qed

lemma klist_get_loop_Some_iff: "klist_get_loop es k \<noteq> None \<longleftrightarrow> k \<in> index ` set es"
  by (induction es) auto

lemma klist_ok_init [simp]: "klist_ok klist_init"
  by (simp add: klist_ok_def klist_init_def)

lemma klist_ok_init_raw [simp]: "klist_ok (klist_init_raw e)"
  by (simp add: klist_ok_def klist_init_raw_def)

lemma klist_ok_set [aex_inv]: "klist_ok l \<Longrightarrow> klist_ok (snd (klist_set l idx ptr))"
  using klist_set_loop_spec(2,3) [of "chain l" idx ptr]
  by (auto simp: klist_ok_def klist_set_def split: prod.splits)

lemma klist_get_set: "klist_ok l \<Longrightarrow> klist_get (snd (klist_set l idx ptr)) = (klist_get l)(idx := ptr)"
  using klist_set_loop_spec(5) [of "chain l" idx ptr]
  by (auto simp: klist_ok_def klist_set_def klist_get_def split: prod.splits)

lemma klist_set_found: "klist_ok l \<Longrightarrow> fst (klist_set l idx ptr) \<longleftrightarrow> klist_get l idx \<noteq> None"
  using klist_set_loop_spec(1) [of "chain l" idx ptr]
  by (auto simp: klist_ok_def klist_set_def klist_get_def klist_get_loop_Some_iff
      simp del: not_None_eq split: prod.splits)

lemma klist_foreach_from_drop:
  "klist_foreach_from l e =
     map (\<lambda>x. (index x, data x)) (drop (case e of None \<Rightarrow> 0 | Some k \<Rightarrow> Suc k) (chain l))"
proof (induction l e rule: klist_foreach_from.induct)
  case (1 l e)
  define p where "p = (case e of None \<Rightarrow> 0 | Some k \<Rightarrow> Suc k)"
  show ?case
  proof (cases "p < length (chain l)")
    case True
    then have it: "klist_iter l e = (Some p, Some (data (chain l ! p)))"
      by (auto simp: klist_iter_def p_def Let_def split: option.splits)
    from True have "drop p (chain l) = chain l ! p # drop (Suc p) (chain l)"
      by (rule Cons_nth_drop_Suc [symmetric])
    with 1 [OF it [symmetric] refl refl] it show ?thesis
      by (simp add: klist_foreach_from.simps [of l e] p_def [symmetric])
  next
    case False
    then have "klist_iter l e = (None, None)"
      by (auto simp: klist_iter_def p_def Let_def split: option.splits)
    with False show ?thesis
      by (simp add: klist_foreach_from.simps [of l e] p_def [symmetric])
  qed
qed

lemma klist_foreach_chain: "klist_foreach l = map (\<lambda>x. (index x, data x)) (chain l)"
  by (simp add: klist_foreach_def klist_foreach_from_drop)

lemma map_of_foreach: "map_of (klist_foreach l) = klist_get l"
proof -
  have "map_of (map (\<lambda>x. (index x, data x)) es) = klist_get_loop es" for es :: "'a klist_entry list"
    by (induction es) auto
  then show ?thesis by (simp add: klist_foreach_chain klist_get_def fun_eq_iff)
qed

section \<open>The contract\<close>

text \<open>
  What the clients of an index-to-pointer list rely on. \<open>store\<close> returns whether the index was
  mapped before; \<open>number\<close> is the stored entry count and \<open>visit\<close> the iteration.
\<close>

locale kmap =
  fixes ok :: "'s \<Rightarrow> bool"
    and empty :: 's
    and lookup :: "'s \<Rightarrow> nat \<Rightarrow> 'a option"
    and store :: "'s \<Rightarrow> nat \<Rightarrow> 'a option \<Rightarrow> bool \<times> 's"
    and number :: "'s \<Rightarrow> nat"
    and visit :: "'s \<Rightarrow> (nat \<times> 'a) list"
  assumes ok_empty: "ok empty"
    and lookup_empty: "lookup empty i = None"
    and ok_store: "ok s \<Longrightarrow> ok (snd (store s i p))"
    and lookup_store: "ok s \<Longrightarrow> lookup (snd (store s i p)) = (lookup s)(i := p)"
    and store_found: "ok s \<Longrightarrow> fst (store s i p) \<longleftrightarrow> lookup s i \<noteq> None"
    and number_card: "ok s \<Longrightarrow> number s = card (dom (lookup s))"
    and finite_lookup: "ok s \<Longrightarrow> finite (dom (lookup s))"
    and visit_lookup: "ok s \<Longrightarrow> map_of (visit s) = lookup s"
    and visit_once: "ok s \<Longrightarrow> distinct (map fst (visit s))"
begin

text \<open>A sequence of stores behaves as the same sequence of map updates.\<close>

abbreviation stores :: "(nat \<times> 'a option) list \<Rightarrow> 's \<Rightarrow> 's" where
  "stores us s \<equiv> foldl (\<lambda>s (i, p). snd (store s i p)) s us"

lemma ok_stores: "ok s \<Longrightarrow> ok (stores us s)"
  by (induction us arbitrary: s) (auto simp: ok_store)

lemma lookup_stores:
  "ok s \<Longrightarrow> lookup (stores us s) = foldl (\<lambda>m (i, p). m(i := p)) (lookup s) us"
  by (induction us arbitrary: s) (auto simp: ok_store lookup_store)

lemma visit_iff: "ok s \<Longrightarrow> (i, x) \<in> set (visit s) \<longleftrightarrow> lookup s i = Some x"
  using map_of_eq_Some_iff [of "visit s" i x] visit_once visit_lookup by metis

text \<open>
  The append idiom of \<open>pci_init\<close> and \<open>dev_name_inc\<close>: storing under the entry count (or one
  more) never meets a used index as long as nothing has been deleted.
\<close>

lemma append_fresh:
  assumes "ok s" and "dom (lookup s) = {k ..< k + number s}"
  shows "lookup s (k + number s) = None"
    and "dom (lookup (snd (store s (k + number s) (Some x)))) = {k ..< k + Suc (number s)}"
    and "number (snd (store s (k + number s) (Some x))) = Suc (number s)"
proof -
  show fresh: "lookup s (k + number s) = None"
    using assms(2) by (metis atLeastLessThan_iff domIff less_irrefl)
  show dom': "dom (lookup (snd (store s (k + number s) (Some x)))) = {k ..< k + Suc (number s)}"
    using assms by (auto simp: lookup_store dom_fun_upd)
  show "number (snd (store s (k + number s) (Some x))) = Suc (number s)"
    using number_card [OF ok_store [OF assms(1)]] dom' by simp
qed

end

lemma klist_number:
  assumes "klist_ok l"
  shows "count l = card (dom (klist_get l))" and "finite (dom (klist_get l))"
proof -
  have "dom (klist_get l) = index ` set (chain l)"
    using klist_get_loop_Some_iff [of "chain l"] by (auto simp: klist_get_def dom_def)
  then show "count l = card (dom (klist_get l))" "finite (dom (klist_get l))"
    using assms distinct_card [of "map index (chain l)"] by (auto simp: klist_ok_def)
qed

lemma klist_get_init [simp]: "klist_get klist_init i = None"
  by (simp add: klist_get_def klist_init_def)

lemma klist_visit_once: "klist_ok l \<Longrightarrow> distinct (map fst (klist_foreach l))"
  by (simp add: klist_ok_def klist_foreach_chain comp_def)

interpretation kl: kmap klist_ok klist_init klist_get klist_set count klist_foreach
  by unfold_locales
    (simp_all add: klist_ok_set klist_get_set klist_set_found klist_number map_of_foreach
      klist_visit_once)

section \<open>Properties\<close>

text \<open>
  C25: A sequence of \<open>klist_set\<close> calls on a fresh list, deletions (null pointers) included, leaves
  exactly the bindings the same sequence of map updates leaves; \<open>count\<close> is the number of
  bindings and \<open>klist_foreach\<close> visits each of them exactly once.
\<close>

theorem klist_refines_map:
  fixes us :: "(nat \<times> 'a option) list"
  shows "let l = foldl (\<lambda>l (i, p). snd (klist_set l i p)) klist_init us
   in klist_get l = foldl (\<lambda>m (i, p). m(i := p)) Map.empty us \<and>
      count l = card (dom (klist_get l)) \<and>
      map_of (klist_foreach l) = klist_get l \<and> distinct (map fst (klist_foreach l))"
proof -
  define l :: "'a klist" where "l = foldl (\<lambda>l (i, p). snd (klist_set l i p)) klist_init us"
  have ok: "klist_ok l" unfolding l_def by (rule kl.ok_stores) simp
  have "klist_get l = foldl (\<lambda>m (i, p). m(i := p)) (klist_get klist_init) us"
    unfolding l_def by (rule kl.lookup_stores) simp
  moreover have "klist_get klist_init = (Map.empty :: nat \<Rightarrow> 'a option)"
    by (simp add: fun_eq_iff)
  ultimately show ?thesis
    using kl.number_card [OF ok] kl.visit_lookup [OF ok] kl.visit_once [OF ok]
    by (simp add: l_def Let_def)
qed

end
