(* ===== verification/RefCount.thy ===== *)
theory RefCount
  imports Aex_Prelude
begin

text \<open>
  The reference counting contract shared by \<^verbatim>\<open>include/aex/rcparray.h\<close> and
  \<^verbatim>\<open>include/aex/rcptable.h\<close>. A slot is created with one reference, the one of the
  structure itself; \<open>get\<close> takes another, \<open>unref\<close> gives one back, \<open>remove\<close> hides the slot
  and gives the structure's own reference back; the slot is freed by the call that makes the
  count zero. The locale \<open>refstore\<close> states what both implementations promise over the partial
  map from identifiers to slots, and derives the ownership discipline from it: as long as every
  holder gives back only what it took, nothing in use is freed and everything removed is freed by
  its last holder.
\<close>

record 'a slot =
  refs :: int
  present :: bool
  val :: 'a

definition fresh_slot :: "'a \<Rightarrow> 'a slot" where
  "fresh_slot v = \<lparr>refs = 1, present = True, val = v\<rparr>"

lemma fresh_slot_simps [simp]:
  "refs (fresh_slot v) = 1" "present (fresh_slot v)" "val (fresh_slot v) = v"
  by (simp_all add: fresh_slot_def)

text \<open>The decrement of the count, with the free at zero.\<close>

definition drop_ref :: "'a slot \<Rightarrow> 'a slot option" where
  "drop_ref sl = (if refs sl - 1 = 0 then None else Some (sl\<lparr>refs := refs sl - 1\<rparr>))"

text \<open>A count is the number of references that are out plus one while the slot is present.\<close>

definition slot_counted :: "'a slot option \<Rightarrow> nat \<Rightarrow> bool" where
  "slot_counted x n \<longleftrightarrow>
     (case x of None \<Rightarrow> n = 0 | Some sl \<Rightarrow> refs sl = of_bool (present sl) + int n \<and> 0 < refs sl)"

lemma slot_counted_simps [simp]:
  "slot_counted None n \<longleftrightarrow> n = 0"
  "slot_counted (Some sl) n \<longleftrightarrow> refs sl = of_bool (present sl) + int n \<and> 0 < refs sl"
  by (auto simp: slot_counted_def)

lemma slot_counted_drop:
  "slot_counted (Some sl) n \<Longrightarrow> 0 < n \<Longrightarrow> slot_counted (drop_ref sl) (n - 1)"
  by (auto simp: drop_ref_def of_nat_diff)

lemma slot_counted_hide:
  "slot_counted (Some sl) n \<Longrightarrow> present sl \<Longrightarrow> slot_counted (drop_ref (sl\<lparr>present := False\<rparr>)) n"
  by (auto simp: drop_ref_def)

section \<open>The operations on the map of slots\<close>

type_synonym ('k, 'a) slots = "'k \<Rightarrow> 'a slot option"

definition rc_get :: "('k, 'a) slots \<Rightarrow> 'k \<Rightarrow> 'a option \<times> ('k, 'a) slots" where
  "rc_get m i =
     (case m i of
        Some sl \<Rightarrow> if present sl then (Some (val sl), m(i \<mapsto> sl\<lparr>refs := refs sl + 1\<rparr>)) else (None, m)
      | None \<Rightarrow> (None, m))"

definition rc_unref :: "('k, 'a) slots \<Rightarrow> 'k \<Rightarrow> ('k, 'a) slots" where
  "rc_unref m i = (case m i of Some sl \<Rightarrow> m(i := drop_ref sl) | None \<Rightarrow> m)"

definition rc_remove :: "('k, 'a) slots \<Rightarrow> 'k \<Rightarrow> ('k, 'a) slots" where
  "rc_remove m i = (case m i of Some sl \<Rightarrow> m(i := drop_ref (sl\<lparr>present := False\<rparr>)) | None \<Rightarrow> m)"

section \<open>The contract\<close>

locale refstore =
  fixes ok :: "'s \<Rightarrow> bool"
    and view :: "'s \<Rightarrow> ('k, 'a) slots"
    and get :: "'s \<Rightarrow> 'k \<Rightarrow> 'a option \<times> 's"
    and unref :: "'s \<Rightarrow> 'k \<Rightarrow> 's"
    and remove :: "'s \<Rightarrow> 'k \<Rightarrow> 's"
  assumes ok_get: "ok s \<Longrightarrow> ok (snd (get s i))"
    and ok_unref: "ok s \<Longrightarrow> ok (unref s i)"
    and ok_remove: "ok s \<Longrightarrow> ok (remove s i)"
    and get_result: "ok s \<Longrightarrow> fst (get s i) = fst (rc_get (view s) i)"
    and view_get: "ok s \<Longrightarrow> view (snd (get s i)) = snd (rc_get (view s) i)"
    and view_unref: "ok s \<Longrightarrow> view (unref s i) = rc_unref (view s) i"
    and view_remove: "ok s \<Longrightarrow> view (remove s i) = rc_remove (view s) i"
begin

text \<open>
  \<open>counted s h\<close>: \<open>h i\<close> references to \<open>i\<close> are out, and each count is their number plus
  the structure's own reference while the slot is present.
\<close>

definition counted :: "'s \<Rightarrow> ('k \<Rightarrow> nat) \<Rightarrow> bool" where
  "counted s h \<longleftrightarrow> ok s \<and> (\<forall>i. slot_counted (view s i) (h i))"

lemma counted_upd:
  assumes "counted s h" and "ok s'" and "view s' = (view s)(i := x)" and "slot_counted x n"
  shows "counted s' (h(i := n))"
  using assms by (simp add: counted_def)

text \<open>One action of a holder that respects the discipline.\<close>

inductive use :: "'s \<times> ('k \<Rightarrow> nat) \<Rightarrow> 's \<times> ('k \<Rightarrow> nat) \<Rightarrow> bool" where
  take: "get s i = (Some v, s') \<Longrightarrow> use (s, h) (s', h(i := h i + 1))"
| miss: "get s i = (None, s') \<Longrightarrow> use (s, h) (s', h)"
| give: "0 < h i \<Longrightarrow> use (s, h) (unref s i, h(i := h i - 1))"
| kill: "view s i = Some sl \<Longrightarrow> present sl \<Longrightarrow> use (s, h) (remove s i, h)"

lemma counted_at: "counted s h \<Longrightarrow> slot_counted (view s i) (h i)"
  by (simp add: counted_def)

lemma counted_ok: "counted s h \<Longrightarrow> ok s"
  by (simp add: counted_def)

lemma get_take:
  assumes "counted s h" and "get s i = (Some v, s')"
  shows "\<exists>sl. view s i = Some sl \<and> present sl \<and> val sl = v \<and>
    view s' = (view s)(i \<mapsto> sl\<lparr>refs := refs sl + 1\<rparr>)"
  using get_result [OF counted_ok, OF assms(1), of i] view_get [OF counted_ok, OF assms(1), of i] assms(2)
  by (auto simp: rc_get_def split: option.splits if_splits)

lemma get_miss:
  assumes "counted s h" and "get s i = (None, s')"
  shows "view s' = view s" and "view s i = None \<or> (\<exists>sl. view s i = Some sl \<and> \<not> present sl)"
  using get_result [OF counted_ok, OF assms(1), of i] view_get [OF counted_ok, OF assms(1), of i] assms(2)
  by (auto simp: rc_get_def split: option.splits if_splits)

lemma counted_take:
  assumes c: "counted s h" and g: "get s i = (Some v, s')"
  shows "counted s' (h(i := h i + 1))"
proof -
  from get_take [OF c g] obtain sl where sl: "view s i = Some sl" "present sl"
    "view s' = (view s)(i \<mapsto> sl\<lparr>refs := refs sl + 1\<rparr>)" by blast
  have "ok s'" using ok_get [OF counted_ok [OF c], of i] g by simp
  then show ?thesis
    using counted_at [OF c, of i] sl by (intro counted_upd [OF c _ sl(3)]) auto
qed

lemma counted_miss: "counted s h \<Longrightarrow> get s i = (None, s') \<Longrightarrow> counted s' h"
  using get_miss(1) [of s h i s'] ok_get [of s i] by (auto simp: counted_def)

lemma counted_give:
  assumes c: "counted s h" and "0 < h i"
  shows "counted (unref s i) (h(i := h i - 1))"
proof -
  obtain sl where sl: "view s i = Some sl"
    using counted_at [OF c, of i] assms(2) by (cases "view s i") auto
  have v: "view (unref s i) = (view s)(i := drop_ref sl)"
    using view_unref [OF counted_ok [OF c], of i] by (simp add: rc_unref_def sl)
  show ?thesis
    using counted_at [OF c, of i] sl assms(2)
    by (intro counted_upd [OF c ok_unref [OF counted_ok [OF c]] v] slot_counted_drop) auto
qed

lemma counted_kill:
  assumes c: "counted s h" and sl: "view s i = Some sl" and "present sl"
  shows "counted (remove s i) h"
proof -
  have v: "view (remove s i) = (view s)(i := drop_ref (sl\<lparr>present := False\<rparr>))"
    using view_remove [OF counted_ok [OF c], of i] by (simp add: rc_remove_def sl)
  have "slot_counted (drop_ref (sl\<lparr>present := False\<rparr>)) (h i)"
    using counted_at [OF c, of i] sl assms(3) by (intro slot_counted_hide) auto
  from counted_upd [OF c ok_remove [OF counted_ok [OF c]] v this] show ?thesis by simp
qed

lemma counted_use: "use x y \<Longrightarrow> counted (fst x) (snd x) \<Longrightarrow> counted (fst y) (snd y)"
  by (erule use.cases)
    (simp_all only: fst_conv snd_conv counted_take counted_miss counted_give counted_kill)

lemma counted_uses: "use\<^sup>*\<^sup>* x y \<Longrightarrow> counted (fst x) (snd x) \<Longrightarrow> counted (fst y) (snd y)"
  by (induction rule: rtranclp_induct) (auto dest: counted_use)

text \<open>What a holder relies on: its slot is there, whatever the others did.\<close>

lemma held_alive: "counted s h \<Longrightarrow> 0 < h i \<Longrightarrow> view s i \<noteq> None"
  using counted_at [of s h i] by (cases "view s i") auto

text \<open>A reference is freed by the last holder of a removed slot and by nobody else.\<close>

lemma freed_by_last:
  assumes c: "counted s h" and "0 < h i" and sl: "view s i = Some sl"
  shows "view (unref s i) i = None \<longleftrightarrow> \<not> present sl \<and> h i = 1"
  using counted_at [OF c, of i] sl view_unref [OF counted_ok [OF c], of i] assms(2)
  by (auto simp: rc_unref_def sl drop_ref_def)

lemma others_untouched:
  assumes "ok s" and "j \<noteq> i"
  shows "view (snd (get s i)) j = view s j" and "view (unref s i) j = view s j"
    and "view (remove s i) j = view s j"
  using assms
  by (auto simp: view_get view_unref view_remove rc_get_def rc_unref_def rc_remove_def
      split: option.splits if_splits)

lemma get_unref_id:
  assumes "counted s h" and "get s i = (Some v, s')"
  shows "view (unref s' i) = view s"
proof -
  from get_take [OF assms] obtain sl where sl: "view s i = Some sl" "present sl"
    "view s' = (view s)(i \<mapsto> sl\<lparr>refs := refs sl + 1\<rparr>)" by blast
  have "ok s'" using ok_get [OF counted_ok [OF assms(1)], of i] assms(2) by simp
  then show ?thesis
    using counted_at [OF assms(1), of i] sl
    by (simp add: view_unref rc_unref_def drop_ref_def fun_upd_idem)
qed

end

text \<open>The array picks the identifier of a new slot; the table is told it.\<close>

locale refstore_alloc = refstore ok view get unref remove
  for ok :: "'s \<Rightarrow> bool" and view :: "'s \<Rightarrow> ('k, 'a) slots"
    and get :: "'s \<Rightarrow> 'k \<Rightarrow> 'a option \<times> 's" and unref :: "'s \<Rightarrow> 'k \<Rightarrow> 's"
    and remove :: "'s \<Rightarrow> 'k \<Rightarrow> 's" +
  fixes add :: "'s \<Rightarrow> 'a \<Rightarrow> 'k \<times> 's"
  assumes ok_add: "ok s \<Longrightarrow> ok (snd (add s v))"
    and add_fresh: "ok s \<Longrightarrow> view s (fst (add s v)) = None"
    and view_add: "ok s \<Longrightarrow> view (snd (add s v)) = (view s)(fst (add s v) \<mapsto> fresh_slot v)"
begin

lemma counted_add: "counted s h \<Longrightarrow> counted (snd (add s v)) h"
  using counted_at [of s h "fst (add s v)"] add_fresh [of s v]
  by (auto simp: counted_def ok_add view_add)

lemma get_after_add: "ok s \<Longrightarrow> fst (get (snd (add s v)) (fst (add s v))) = Some v"
  by (simp add: get_result ok_add view_add rc_get_def fresh_slot_def)

end

locale refstore_keyed = refstore ok view get unref remove
  for ok :: "'s \<Rightarrow> bool" and view :: "'s \<Rightarrow> ('k, 'a) slots"
    and get :: "'s \<Rightarrow> 'k \<Rightarrow> 'a option \<times> 's" and unref :: "'s \<Rightarrow> 'k \<Rightarrow> 's"
    and remove :: "'s \<Rightarrow> 'k \<Rightarrow> 's" +
  fixes put :: "'s \<Rightarrow> 'k \<Rightarrow> 'a \<Rightarrow> 's"
  assumes ok_put: "ok s \<Longrightarrow> view s i = None \<Longrightarrow> ok (put s i v)"
    and view_put: "ok s \<Longrightarrow> view s i = None \<Longrightarrow> view (put s i v) = (view s)(i \<mapsto> fresh_slot v)"
begin

lemma counted_put: "counted s h \<Longrightarrow> view s i = None \<Longrightarrow> counted (put s i v) h"
  using counted_at [of s h i] by (auto simp: counted_def ok_put view_put)

end

end
