(* ===== verification/RCPArray.thy ===== *)
theory RCPArray
  imports RefCount
begin

text \<open>
  \<^verbatim>\<open>include/aex/rcparray.h\<close>: the reference counted pointer array. The array of slot pointers
  is a list of optional slots, its \<open>size\<close> the length of the list; an identifier argument, a
  C \<open>int\<close> converted to \<open>size_t\<close>, is already converted (\<open>to_size_t\<close>). Each macro holds
  the array's spinlock from its first to its last access, so that one call is one step.
\<close>

type_synonym 'a rcparray = "'a slot option list"

section \<open>Operations\<close>

text \<open>The position of the first null pointer, or the length when there is none.\<close>

fun first_null :: "'b option list \<Rightarrow> nat" where
  "first_null [] = 0"
| "first_null (None # xs) = 0"
| "first_null (Some x # xs) = Suc (first_null xs)"

definition rcparray_add :: "'a rcparray \<Rightarrow> 'a \<Rightarrow> nat \<times> 'a rcparray" where
  "rcparray_add a v =
     (let i = first_null a
      in if i < length a then (i, a[i := Some (fresh_slot v)])
         else (i, a @ [Some (fresh_slot v)]))"

text \<open>
  \<open>rcparray_get\<close> returns a pointer to the stored value; the model returns the value and
  \<open>rcparray_poke\<close> is a store through the pointer.
\<close>

definition rcparray_get :: "'a rcparray \<Rightarrow> nat \<Rightarrow> 'a option \<times> 'a rcparray" where
  "rcparray_get a idx =
     (if length a \<le> idx then (None, a)
      else case a ! idx of
             None \<Rightarrow> (None, a)
           | Some sl \<Rightarrow> if \<not> present sl then (None, a)
                        else (Some (val sl), a[idx := Some (sl\<lparr>refs := refs sl + 1\<rparr>)]))"

definition rcparray_poke :: "'a rcparray \<Rightarrow> nat \<Rightarrow> 'a \<Rightarrow> 'a rcparray" where
  "rcparray_poke a idx v =
     (if length a \<le> idx then a
      else case a ! idx of None \<Rightarrow> a | Some sl \<Rightarrow> a[idx := Some (sl\<lparr>val := v\<rparr>)])"

definition rcparray_unref :: "'a rcparray \<Rightarrow> nat \<Rightarrow> 'a rcparray" where
  "rcparray_unref a idx =
     (if length a \<le> idx then a
      else case a ! idx of
             None \<Rightarrow> a
           | Some sl \<Rightarrow> let sl' = sl\<lparr>refs := refs sl - 1\<rparr>
                        in if refs sl' = 0 then a[idx := None] else a[idx := Some sl'])"

definition rcparray_remove :: "'a rcparray \<Rightarrow> nat \<Rightarrow> int \<times> 'a rcparray" where
  "rcparray_remove a idx =
     (if length a \<le> idx then (- 1, a)
      else case a ! idx of
             None \<Rightarrow> (- 1, a)
           | Some sl \<Rightarrow> let sl' = sl\<lparr>present := False, refs := refs sl - 1\<rparr>
                        in (refs sl', if refs sl' = 0 then a[idx := None] else a[idx := Some sl']))"

fun slot_present :: "'a slot option \<Rightarrow> bool" where
  "slot_present None = False"
| "slot_present (Some sl) = present sl"

text \<open>
  The condition of \<open>rcparray_foreach\<close> looks for a present slot at or behind \<open>id\<close>, but does not
  move \<open>id\<close> to it: \<open>rcparray_foreach\<close> lists the identifiers the loop body runs with (for a body
  that leaves the array's presence bits alone).
\<close>

definition rcparray_foreach_cond :: "'a rcparray \<Rightarrow> nat \<Rightarrow> bool" where
  "rcparray_foreach_cond a idx = list_ex slot_present (drop idx a)"

function rcparray_foreach_from :: "'a rcparray \<Rightarrow> nat \<Rightarrow> nat list" where
  "rcparray_foreach_from a idx =
     (if rcparray_foreach_cond a idx then idx # rcparray_foreach_from a (Suc idx) else [])"
  by pat_completeness auto
termination
proof (relation "measure (\<lambda>(a, idx). length a - idx)", goal_cases)
  case (2 a idx)
  then have "drop idx a \<noteq> []" by (auto simp: rcparray_foreach_cond_def)
  then show ?case by simp
qed simp

declare rcparray_foreach_from.simps [simp del]

definition rcparray_foreach :: "'a rcparray \<Rightarrow> nat list" where
  "rcparray_foreach a = rcparray_foreach_from a 0"

fun rcparray_find_loop :: "'a rcparray \<Rightarrow> ('a \<Rightarrow> bool) \<Rightarrow> nat option" where
  "rcparray_find_loop [] cond = None"
| "rcparray_find_loop (None # a) cond = map_option Suc (rcparray_find_loop a cond)"
| "rcparray_find_loop (Some sl # a) cond =
     (if present sl \<and> cond (val sl) then Some 0 else map_option Suc (rcparray_find_loop a cond))"

definition rcparray_find ::
    "'a rcparray \<Rightarrow> ('a \<Rightarrow> bool) \<Rightarrow> (nat \<times> 'a) option \<times> 'a rcparray" where
  "rcparray_find a cond =
     (case rcparray_find_loop a cond of
        None \<Rightarrow> (None, a)
      | Some idx \<Rightarrow> (case rcparray_get a idx of (r, a') \<Rightarrow> (map_option (Pair idx) r, a')))"

text \<open>\<open>rcparray_dispose\<close>: the slots it frees, each once, before the array itself.\<close>

definition rcparray_dispose :: "'a rcparray \<Rightarrow> nat list" where
  "rcparray_dispose a = filter (\<lambda>idx. a ! idx \<noteq> None) [0..<length a]"

section \<open>The array as a map of slots\<close>

definition rcp_view :: "'a rcparray \<Rightarrow> (nat, 'a) slots" where
  "rcp_view a i = (if i < length a then a ! i else None)"

abbreviation rcp_ok :: "'a rcparray \<Rightarrow> bool" where
  "rcp_ok a \<equiv> True"

lemma rcp_view_simps [simp]:
  "i < length a \<Longrightarrow> rcp_view a i = a ! i"
  "length a \<le> i \<Longrightarrow> rcp_view a i = None"
  by (simp_all add: rcp_view_def)

lemma rcp_view_update: "i < length a \<Longrightarrow> rcp_view (a[i := x]) = (rcp_view a)(i := x)"
  by (auto simp: rcp_view_def fun_eq_iff nth_list_update)

lemma rcp_view_snoc: "rcp_view (a @ [x]) = (rcp_view a)(length a := x)"
  by (auto simp: rcp_view_def fun_eq_iff nth_append)

lemma first_null_le: "first_null xs \<le> length xs"
  by (induction xs rule: first_null.induct) auto

lemma first_null_None: "first_null xs < length xs \<Longrightarrow> xs ! first_null xs = None"
  by (induction xs rule: first_null.induct) auto

lemma first_null_used: "k < first_null xs \<Longrightarrow> xs ! k \<noteq> None"
  by (induction xs arbitrary: k rule: first_null.induct) (auto simp: nth_Cons' less_Suc_eq_0_disj)

lemma view_rcparray_get:
  "fst (rcparray_get a i) = fst (rc_get (rcp_view a) i)"
  "rcp_view (snd (rcparray_get a i)) = snd (rc_get (rcp_view a) i)"
  by (auto simp: rcparray_get_def rc_get_def rcp_view_update rcp_view_def split: option.split)

lemma view_rcparray_unref: "rcp_view (rcparray_unref a i) = rc_unref (rcp_view a) i"
  by (auto simp: rcparray_unref_def rc_unref_def drop_ref_def rcp_view_update Let_def rcp_view_def
      split: option.split)

lemma view_rcparray_remove: "rcp_view (snd (rcparray_remove a i)) = rc_remove (rcp_view a) i"
  by (auto simp: rcparray_remove_def rc_remove_def drop_ref_def rcp_view_update Let_def rcp_view_def
      split: option.split)

lemma rcparray_add_fst: "fst (rcparray_add a v) = first_null a"
  by (simp add: rcparray_add_def Let_def)

lemma view_rcparray_add:
  "rcp_view (snd (rcparray_add a v)) = (rcp_view a)(fst (rcparray_add a v) \<mapsto> fresh_slot v)"
  using first_null_le [of a]
  by (auto simp: rcparray_add_def rcp_view_update rcp_view_snoc Let_def not_less)

lemma rcparray_add_unused: "rcp_view a (fst (rcparray_add a v)) = None"
  using first_null_None [of a] first_null_le [of a]
  by (auto simp: rcparray_add_fst rcp_view_def)

interpretation ra: refstore_alloc rcp_ok rcp_view rcparray_get rcparray_unref
    "\<lambda>a i. snd (rcparray_remove a i)" rcparray_add
  by unfold_locales
    (simp_all add: view_rcparray_get view_rcparray_unref view_rcparray_remove view_rcparray_add
      rcparray_add_unused)

section \<open>Clients that respect the discipline\<close>

datatype 'a rc_op = Add 'a | Get nat | Unref nat | Remove nat

text \<open>
  A sequence of calls, with the number of references each identifier has out. The run is
  undefined (\<open>None\<close>) when a caller gives back a reference it does not hold or removes a slot
  that is not present.
\<close>

fun rcparray_run ::
    "'a rc_op list \<Rightarrow> 'a rcparray \<times> (nat \<Rightarrow> nat) \<Rightarrow> ('a rcparray \<times> (nat \<Rightarrow> nat)) option" where
  "rcparray_run [] (a, h) = Some (a, h)"
| "rcparray_run (Add v # ops) (a, h) = rcparray_run ops (snd (rcparray_add a v), h)"
| "rcparray_run (Get i # ops) (a, h) =
     (case rcparray_get a i of
        (None, a') \<Rightarrow> rcparray_run ops (a', h)
      | (Some v, a') \<Rightarrow> rcparray_run ops (a', h(i := h i + 1)))"
| "rcparray_run (Unref i # ops) (a, h) =
     (if h i = 0 then None else rcparray_run ops (rcparray_unref a i, h(i := h i - 1)))"
| "rcparray_run (Remove i # ops) (a, h) =
     (if slot_present (rcp_view a i) then rcparray_run ops (snd (rcparray_remove a i), h) else None)"

lemma slot_present_Some: "slot_present x \<longleftrightarrow> (\<exists>sl. x = Some sl \<and> present sl)"
  by (cases x) auto

lemma rcparray_run_counted:
  "rcparray_run ops (a, h) = Some (a', h') \<Longrightarrow> ra.counted a h \<Longrightarrow> ra.counted a' h'"
proof (induction ops "(a, h)" arbitrary: a h rule: rcparray_run.induct)
  case (2 v ops a h)
  then show ?case using ra.counted_add [of a h v] by simp
next
  case (3 i ops a h)
  then show ?case
    using ra.counted_take [of a h i] ra.counted_miss [of a h i]
    by (auto split: prod.splits option.splits)
next
  case (4 i ops a h)
  then show ?case using ra.counted_give [of a h i] by (auto split: if_splits)
next
  case (5 i ops a h)
  then show ?case using ra.counted_kill [of a h i] by (auto simp: slot_present_Some split: if_splits)
qed simp

lemma ra_counted_empty: "ra.counted [] (\<lambda>_. 0)"
  by (simp add: ra.counted_def rcp_view_def)

text \<open>The last present slot bounds the loop, and every identifier below it is visited.\<close>

lemma rcparray_foreach_cond_iff:
  "rcparray_foreach_cond a i \<longleftrightarrow> (\<exists>k \<ge> i. slot_present (rcp_view a k))"
proof
  assume "rcparray_foreach_cond a i"
  then obtain j where "j < length a - i" "slot_present (a ! (i + j))"
    by (auto simp: rcparray_foreach_cond_def list_ex_iff in_set_conv_nth)
  then show "\<exists>k \<ge> i. slot_present (rcp_view a k)" by (intro exI [of _ "i + j"]) simp
next
  assume "\<exists>k \<ge> i. slot_present (rcp_view a k)"
  then obtain k where "i \<le> k" "k < length a" "slot_present (a ! k)"
    by (auto simp: rcp_view_def split: if_splits)
  then have "drop i a ! (k - i) = a ! k" "k - i < length (drop i a)" by auto
  with \<open>slot_present (a ! k)\<close> show "rcparray_foreach_cond a i"
    by (metis list_ex_iff nth_mem rcparray_foreach_cond_def)
qed

lemma rcparray_foreach_from_upt:
  "\<exists>n \<ge> i. rcparray_foreach_from a i = [i..<n] \<and> (\<forall>k \<ge> n. \<not> slot_present (rcp_view a k)) \<and>
     (n = i \<or> slot_present (rcp_view a (n - 1)))"
proof (induction a i rule: rcparray_foreach_from.induct)
  case (1 a i)
  show ?case
  proof (cases "rcparray_foreach_cond a i")
    case True
    from 1 [OF True] obtain n where n: "n \<ge> Suc i" "rcparray_foreach_from a (Suc i) = [Suc i..<n]"
      "\<forall>k \<ge> n. \<not> slot_present (rcp_view a k)" "n = Suc i \<or> slot_present (rcp_view a (n - 1))"
      by blast
    have "slot_present (rcp_view a (n - 1))"
    proof (cases "n = Suc i")
      case n': True
      obtain k where "k \<ge> i" "slot_present (rcp_view a k)"
        using True by (auto simp: rcparray_foreach_cond_iff)
      moreover have "\<not> k \<ge> n" using n(3) calculation(2) by blast
      ultimately show ?thesis using n' by (simp add: not_le le_antisym less_Suc_eq_le)
    qed (use n(4) in simp)
    with n True show ?thesis
      by (intro exI [of _ n]) (auto simp: rcparray_foreach_from.simps [of a i] upt_rec [of i n])
  next
    case False
    then show ?thesis
      by (intro exI [of _ i])
        (auto simp: rcparray_foreach_from.simps [of a i] rcparray_foreach_cond_iff)
  qed
qed

section \<open>What all stored values satisfy\<close>

definition slots_ok :: "('a \<Rightarrow> bool) \<Rightarrow> 'a rcparray \<Rightarrow> bool" where
  "slots_ok P a \<longleftrightarrow> (\<forall>i < length a. \<forall>sl. a ! i = Some sl \<longrightarrow> P (val sl))"

lemma slots_ok_get:
  "slots_ok P a \<Longrightarrow> rcparray_get a i = (r, a') \<Longrightarrow> slots_ok P a' \<and> (\<forall>v. r = Some v \<longrightarrow> P v)"
  by (auto simp: slots_ok_def rcparray_get_def nth_list_update not_le split: if_splits option.splits)

lemma slots_ok_poke: "slots_ok P a \<Longrightarrow> P v \<Longrightarrow> slots_ok P (rcparray_poke a i v)"
  by (auto simp: slots_ok_def rcparray_poke_def nth_list_update split: if_splits option.splits)

lemma slots_ok_unref: "slots_ok P a \<Longrightarrow> slots_ok P (rcparray_unref a i)"
  by (auto simp: slots_ok_def rcparray_unref_def Let_def nth_list_update not_le split: if_splits option.splits)

lemma slots_ok_remove: "slots_ok P a \<Longrightarrow> slots_ok P (snd (rcparray_remove a i))"
  by (auto simp: slots_ok_def rcparray_remove_def Let_def nth_list_update not_le split: if_splits option.splits)

lemma slots_ok_add: "slots_ok P a \<Longrightarrow> P v \<Longrightarrow> rcparray_add a v = (i, a') \<Longrightarrow> slots_ok P a'"
  by (auto simp: slots_ok_def rcparray_add_def Let_def nth_list_update nth_append fresh_slot_def split: if_splits)

section \<open>Properties\<close>

text \<open>
  C1: Whatever sequence of adds, gets, unrefs and removes well-behaved callers make on an array that
  starts empty, every count is the number of references that are out plus one while the slot is
  present; so a slot somebody holds is never freed, and a removed slot is freed by its last holder.
\<close>

theorem rcparray_ownership:
  assumes "rcparray_run ops ([], \<lambda>_. 0) = Some (a, h)"
  shows "(0 < h i \<longrightarrow> rcp_view a i \<noteq> None) \<and>
    (\<forall>sl. rcp_view a i = Some sl \<longrightarrow>
       refs sl = of_bool (present sl) + int (h i) \<and>
       (rcp_view (rcparray_unref a i) i = None \<longleftrightarrow> \<not> present sl \<and> h i = 1 \<or> present sl \<and> h i = 0))"
proof -
  have c: "ra.counted a h" using rcparray_run_counted [OF assms ra_counted_empty] .
  then show ?thesis
    using ra.held_alive [OF c, of i] ra.counted_at [OF c, of i]
    by (auto simp: view_rcparray_unref rc_unref_def drop_ref_def)
qed

theorem rcparray_ownership_witness:
  "case rcparray_run [Add ''a'', Add ''b'', Get 0, Remove 0, Add ''c''] ([], \<lambda>_. 0) of
     Some (a, h) \<Rightarrow> (0 < h 0 \<longrightarrow> rcp_view a 0 \<noteq> None) \<and> h 0 = 1 \<and> rcp_view (rcparray_unref a 0) 0 = None
   | None \<Rightarrow> False"
  using rcparray_ownership [of "[Add ''a'', Add ''b'', Get 0, Remove 0, Add ''c'']" _ _ 0]
  by (simp add: rcparray_add_def rcparray_get_def rcparray_remove_def rcparray_unref_def
      fresh_slot_def rcp_view_def)

text \<open>
  \<open>rcparray_foreach\<close> runs its body with every identifier from 0 up to the last present one,
  the empty and removed slots between them included: the scan in its condition finds the next
  present slot but never moves the loop variable to it.
\<close>

theorem rcparray_foreach_visits:
  "\<exists>n. rcparray_foreach a = [0..<n] \<and> (\<forall>k \<ge> n. \<not> slot_present (rcp_view a k)) \<and>
     (0 < n \<longrightarrow> slot_present (rcp_view a (n - 1)))"
  using rcparray_foreach_from_upt [of 0 a] by (auto simp: rcparray_foreach_def)

theorem rcparray_foreach_visits_witness:
  "\<exists>n. rcparray_foreach [None, Some (fresh_slot ''x'')] = [0..<n] \<and> n = 2 \<and>
     \<not> slot_present (rcp_view [None, Some (fresh_slot ''x'')] 0)"
  using rcparray_foreach_visits [of "[None, Some (fresh_slot ''x'')]"]
  by (auto simp: rcp_view_def rcparray_foreach_def rcparray_foreach_from.simps
      rcparray_foreach_cond_def numeral_nat split: if_splits)

end
