(* ===== verification/RCPTable.thy ===== *)
theory RCPTable
  imports RCPArray
begin

text \<open>
  \<^verbatim>\<open>include/aex/rcptable.h\<close>: the reference counted hash table. A segment is a list of optional
  entries, \<open>sizes[h]\<close> the length of segment \<open>h\<close>. \<open>has_cleanup\<close> is the test of the pointer
  \<open>cleanup\<close> against \<open>NULL\<close>: \<open>rcptable_init\<close>, which the process table uses, leaves it null,
  \<open>rcptable_cinit\<close> sets it. An operation that frees an entry hands its value to \<open>cleanup\<close> first
  when there is one; the model returns whether the entry was freed and with which value \<open>cleanup\<close>
  was called. Every macro runs under the table's spinlock, so that one call is one step. \<open>rcptable_set\<close> does not look for an
  older entry of the same identifier; the contract below is for a fresh one.
\<close>

section \<open>State\<close>

record 'a tentry =
  ident :: nat
  slot :: "'a slot"

record 'a rcptable =
  seg_count :: nat
  counter :: nat
  table :: "'a tentry option list list"
  has_cleanup :: bool

text \<open>What became of the entry: still there, or freed, after \<open>cleanup\<close> of its value or without.\<close>

datatype 'a freed = Kept | Freed "'a option"

section \<open>Operations\<close>

definition rcptable_init :: "nat \<Rightarrow> nat \<Rightarrow> 'a rcptable" where
  "rcptable_init hashsegs counter0 =
     \<lparr>seg_count = hashsegs, counter = counter0, table = replicate hashsegs [], has_cleanup = False\<rparr>"

definition rcptable_cinit :: "nat \<Rightarrow> nat \<Rightarrow> 'a rcptable" where
  "rcptable_cinit hashsegs counter0 =
     \<lparr>seg_count = hashsegs, counter = counter0, table = replicate hashsegs [], has_cleanup = True\<rparr>"

definition rcptable_hash :: "nat \<Rightarrow> nat \<Rightarrow> nat" where
  "rcptable_hash i sz = i mod sz"

definition segment :: "'a rcptable \<Rightarrow> nat \<Rightarrow> 'a tentry option list" where
  "segment t i = table t ! rcptable_hash i (seg_count t)"

definition set_segment :: "'a rcptable \<Rightarrow> nat \<Rightarrow> 'a tentry option list \<Rightarrow> 'a rcptable" where
  "set_segment t i seg = t\<lparr>table := (table t)[rcptable_hash i (seg_count t) := seg]\<rparr>"

definition rcptable_set :: "'a rcptable \<Rightarrow> nat \<Rightarrow> 'a \<Rightarrow> 'a rcptable" where
  "rcptable_set t i v =
     (let seg = segment t i;
          k = first_null seg;
          seg' = (if length seg \<le> k then seg @ replicate (k - length seg + 1) None else seg)
      in set_segment t i (seg'[k := Some \<lparr>ident = i, slot = fresh_slot v\<rparr>]))"

text \<open>The search loop: the first non-null pointer whose entry has the identifier.\<close>

fun rcptable_scan :: "'a tentry option list \<Rightarrow> nat \<Rightarrow> nat option" where
  "rcptable_scan [] i = None"
| "rcptable_scan (None # es) i = map_option Suc (rcptable_scan es i)"
| "rcptable_scan (Some e # es) i =
     (if ident e = i then Some 0 else map_option Suc (rcptable_scan es i))"

definition rcptable_get :: "'a rcptable \<Rightarrow> nat \<Rightarrow> 'a option \<times> 'a rcptable" where
  "rcptable_get t i =
     (case rcptable_scan (segment t i) i of
        None \<Rightarrow> (None, t)
      | Some k \<Rightarrow>
          (case segment t i ! k of
             None \<Rightarrow> (None, t)
           | Some e \<Rightarrow>
               if \<not> present (slot e) then (None, t)
               else (Some (val (slot e)),
                     set_segment t i ((segment t i)[k :=
                       Some (e\<lparr>slot := (slot e)\<lparr>refs := refs (slot e) + 1\<rparr>\<rparr>)]))))"

definition rcptable_poke :: "'a rcptable \<Rightarrow> nat \<Rightarrow> 'a \<Rightarrow> 'a rcptable" where
  "rcptable_poke t i v =
     (case rcptable_scan (segment t i) i of
        None \<Rightarrow> t
      | Some k \<Rightarrow>
          (case segment t i ! k of
             None \<Rightarrow> t
           | Some e \<Rightarrow> set_segment t i ((segment t i)[k := Some (e\<lparr>slot := (slot e)\<lparr>val := v\<rparr>\<rparr>)])))"

text \<open>The decrement and the free at zero that \<open>rcptable_unref\<close> and \<open>rcptable_remove\<close> share.\<close>

definition rcptable_release ::
    "'a rcptable \<Rightarrow> nat \<Rightarrow> nat \<Rightarrow> 'a tentry \<Rightarrow> 'a freed \<times> 'a rcptable" where
  "rcptable_release t i k e =
     (let sl = (slot e)\<lparr>refs := refs (slot e) - 1\<rparr>
      in if refs sl = 0
         then (Freed (if has_cleanup t then Some (val sl) else None), set_segment t i ((segment t i)[k := None]))
         else (Kept, set_segment t i ((segment t i)[k := Some (e\<lparr>slot := sl\<rparr>)])))"

definition rcptable_unref :: "'a rcptable \<Rightarrow> nat \<Rightarrow> 'a freed \<times> 'a rcptable" where
  "rcptable_unref t i =
     (case rcptable_scan (segment t i) i of
        None \<Rightarrow> (Kept, t)
      | Some k \<Rightarrow>
          (case segment t i ! k of None \<Rightarrow> (Kept, t) | Some e \<Rightarrow> rcptable_release t i k e))"

definition rcptable_remove :: "'a rcptable \<Rightarrow> nat \<Rightarrow> 'a freed \<times> 'a rcptable" where
  "rcptable_remove t i =
     (case rcptable_scan (segment t i) i of
        None \<Rightarrow> (Kept, t)
      | Some k \<Rightarrow>
          (case segment t i ! k of
             None \<Rightarrow> (Kept, t)
           | Some e \<Rightarrow> rcptable_release t i k (e\<lparr>slot := (slot e)\<lparr>present := False\<rparr>\<rparr>)))"

definition rcptable_refcount :: "'a rcptable \<Rightarrow> nat \<Rightarrow> int" where
  "rcptable_refcount t i =
     (case rcptable_scan (segment t i) i of
        None \<Rightarrow> - 1
      | Some k \<Rightarrow> (case segment t i ! k of None \<Rightarrow> - 1 | Some e \<Rightarrow> refs (slot e)))"

text \<open>\<open>rcptable_dispose\<close>: the entries it frees.\<close>

definition rcptable_dispose :: "'a rcptable \<Rightarrow> 'a tentry list" where
  "rcptable_dispose t = concat (map (\<lambda>seg. map the (filter (\<lambda>x. x \<noteq> None) seg)) (table t))"

section \<open>Invariant\<close>

text \<open>Every entry is in the segment its identifier hashes to, and at most once.\<close>

fun idents :: "'a tentry option list \<Rightarrow> nat list" where
  "idents [] = []"
| "idents (None # seg) = idents seg"
| "idents (Some e # seg) = ident e # idents seg"

definition seg_ok :: "nat \<Rightarrow> nat \<Rightarrow> 'a tentry option list \<Rightarrow> bool" where
  "seg_ok n h seg \<longleftrightarrow> distinct (idents seg) \<and> (\<forall>i \<in> set (idents seg). i mod n = h)"

definition rcpt_ok :: "'a rcptable \<Rightarrow> bool" where
  "rcpt_ok t \<longleftrightarrow> 0 < seg_count t \<and> length (table t) = seg_count t \<and>
     (\<forall>h < seg_count t. seg_ok (seg_count t) h (table t ! h))"

definition rcpt_view :: "'a rcptable \<Rightarrow> (nat, 'a) slots" where
  "rcpt_view t i =
     (case rcptable_scan (segment t i) i of
        None \<Rightarrow> None | Some k \<Rightarrow> map_option slot (segment t i ! k))"

lemma rcptable_scan_Some:
  "rcptable_scan seg i = Some k \<Longrightarrow> k < length seg \<and> (\<exists>e. seg ! k = Some e \<and> ident e = i)"
  by (induction seg i arbitrary: k rule: rcptable_scan.induct) (auto split: if_splits)

lemma rcptable_scan_None:
  "rcptable_scan seg i = None \<longleftrightarrow> (\<forall>e. Some e \<in> set seg \<longrightarrow> ident e \<noteq> i)"
  by (induction seg i rule: rcptable_scan.induct) (auto split: if_splits)

lemma in_idents: "i \<in> set (idents seg) \<longleftrightarrow> (\<exists>e. Some e \<in> set seg \<and> ident e = i)"
  by (induction seg rule: idents.induct) auto

lemma nth_idents: "k < length seg \<Longrightarrow> seg ! k = Some e \<Longrightarrow> ident e \<in> set (idents seg)"
  using in_idents nth_mem by fastforce

lemma scan_None_idents: "rcptable_scan seg i = None \<longleftrightarrow> i \<notin> set (idents seg)"
  by (induction seg rule: idents.induct) auto

lemma seg_ok_Nil [simp]: "seg_ok n h []"
  by (simp add: seg_ok_def)

lemma seg_ok_Cons [simp]:
  "seg_ok n h (None # seg) = seg_ok n h seg"
  "seg_ok n h (Some e # seg) \<longleftrightarrow>
     seg_ok n h seg \<and> ident e mod n = h \<and> rcptable_scan seg (ident e) = None"
  by (auto simp: seg_ok_def scan_None_idents)

lemma rcptable_scan_eq:
  "seg_ok n h seg \<Longrightarrow> k < length seg \<Longrightarrow> seg ! k = Some e \<Longrightarrow> rcptable_scan seg (ident e) = Some k"
  by (induction seg arbitrary: k rule: idents.induct)
    (auto simp: nth_Cons nth_idents scan_None_idents split: nat.splits)

lemma segment_ok: "rcpt_ok t \<Longrightarrow> seg_ok (seg_count t) (i mod seg_count t) (segment t i)"
  by (simp add: rcpt_ok_def segment_def rcptable_hash_def)

lemma rcpt_ok_set_segment:
  "rcpt_ok t \<Longrightarrow> seg_ok (seg_count t) (i mod seg_count t) seg \<Longrightarrow> rcpt_ok (set_segment t i seg)"
  by (auto simp: rcpt_ok_def set_segment_def rcptable_hash_def nth_list_update)

lemma segment_set_segment:
  "rcpt_ok t \<Longrightarrow> segment (set_segment t i seg) j =
     (if j mod seg_count t = i mod seg_count t then seg else segment t j)"
  by (auto simp: segment_def set_segment_def rcptable_hash_def rcpt_ok_def nth_list_update)

text \<open>Replacing or clearing the entry at a position that held identifier \<open>i\<close>.\<close>

lemma idents_replace: "k < length seg \<Longrightarrow> seg ! k = Some e \<Longrightarrow> ident e' = ident e \<Longrightarrow> idents (seg[k := Some e']) = idents seg"
  by (induction seg arbitrary: k rule: idents.induct) (auto simp: nth_Cons split: nat.splits)

lemma idents_clear:
  "set (idents (seg[k := None])) \<subseteq> set (idents seg)"
  "distinct (idents seg) \<Longrightarrow> distinct (idents (seg[k := None]))"
proof -
  show "set (idents (seg[k := None])) \<subseteq> set (idents seg)" for seg :: "'a tentry option list" and k
    by (induction seg arbitrary: k rule: idents.induct) (fastforce split: nat.splits)+
  then show "distinct (idents seg) \<Longrightarrow> distinct (idents (seg[k := None]))"
    by (induction seg arbitrary: k rule: idents.induct) (auto split: nat.splits)
qed

lemma seg_ok_replace:
  assumes "seg_ok n h seg" and "k < length seg" and "seg ! k = Some e"
    and "x = None \<or> (\<exists>e'. x = Some e' \<and> ident e' = ident e)"
  shows "seg_ok n h (seg[k := x])"
  using assms idents_clear [of seg k] idents_replace [OF assms(2,3)] by (auto simp: seg_ok_def)

lemma scan_replace_other:
  assumes "k < length seg" and "seg ! k = Some e" and "j \<noteq> ident e"
    and "x = None \<or> (\<exists>e'. x = Some e' \<and> ident e' = ident e)"
  shows "rcptable_scan (seg[k := x]) j = rcptable_scan seg j"
  using assms
  by (induction seg j arbitrary: k rule: rcptable_scan.induct)
    (auto simp: nth_Cons' split: if_splits nat.splits)

lemma scan_clear:
  "seg_ok n h seg \<Longrightarrow> k < length seg \<Longrightarrow> seg ! k = Some e \<Longrightarrow> rcptable_scan (seg[k := None]) (ident e) = None"
  by (induction seg arbitrary: k rule: idents.induct)
    (auto simp: nth_Cons scan_None_idents split: nat.splits dest: nth_idents)

lemma scan_replace_same:
  assumes "seg_ok n h seg" and "k < length seg" and "seg ! k = Some e"
    and "x = None \<or> (\<exists>e'. x = Some e' \<and> ident e' = ident e)"
  shows "rcptable_scan (seg[k := x]) (ident e) = map_option (\<lambda>_. k) x"
  using scan_clear [OF assms(1-3)] rcptable_scan_eq [OF seg_ok_replace [OF assms], of k] assms(2,4)
  by auto

lemma rcpt_replace:
  assumes ok: "rcpt_ok t" and sc: "rcptable_scan (segment t i) i = Some k"
    and x: "x = None \<or> (\<exists>e'. x = Some e' \<and> ident e' = i)"
  shows "rcpt_ok (set_segment t i ((segment t i)[k := x]))"
    and "rcpt_view (set_segment t i ((segment t i)[k := x])) = (rcpt_view t)(i := map_option slot x)"
proof -
  let ?seg = "segment t i" and ?t = "set_segment t i ((segment t i)[k := x])"
  obtain e where e: "k < length ?seg" "?seg ! k = Some e" "ident e = i"
    using rcptable_scan_Some [OF sc] by blast
  have x': "x = None \<or> (\<exists>e'. x = Some e' \<and> ident e' = ident e)" using x e(3) by simp
  note so = segment_ok [OF ok, of i]
  show "rcpt_ok ?t"
    by (rule rcpt_ok_set_segment [OF ok seg_ok_replace [OF so e(1,2) x']])
  have at_i: "rcpt_view ?t i = map_option slot x"
    using scan_replace_same [OF so e(1,2) x'] e(1,3)
    by (cases x) (simp_all add: rcpt_view_def segment_set_segment [OF ok])
  have "rcpt_view ?t j = rcpt_view t j" if "j \<noteq> i" for j
  proof (cases "j mod seg_count t = i mod seg_count t")
    case True
    then have seg: "segment t j = ?seg" by (simp add: segment_def rcptable_hash_def)
    have "?seg[k := x] ! l = ?seg ! l" if "rcptable_scan ?seg j = Some l" for l
      using rcptable_scan_Some [OF that] e \<open>j \<noteq> i\<close> by (cases "l = k") auto
    with scan_replace_other [OF e(1,2) _ x', of j] that e(3) seg True show ?thesis
      by (auto simp: rcpt_view_def segment_set_segment [OF ok] split: option.split)
  next
    case False
    then show ?thesis by (simp add: rcpt_view_def segment_set_segment [OF ok] cong: option.case_cong)
  qed
  with at_i show "rcpt_view ?t = (rcpt_view t)(i := map_option slot x)" by auto
qed

lemma rcpt_view_scan:
  "rcptable_scan (segment t i) i = Some k \<Longrightarrow> segment t i ! k = Some e \<Longrightarrow> rcpt_view t i = Some (slot e)"
  by (simp add: rcpt_view_def)

text \<open>Case analysis on the search: nothing there, or the entry at the position found.\<close>

lemma rcptable_scan_cases:
  obtains (absent) "rcptable_scan (segment t i) i = None" "rcpt_view t i = None"
  | (found) k e where "rcptable_scan (segment t i) i = Some k" "segment t i ! k = Some e"
      "ident e = i" "rcpt_view t i = Some (slot e)"
  using rcptable_scan_Some by (cases "rcptable_scan (segment t i) i") (force simp: rcpt_view_def)+

lemma rcptable_get_ok:
  assumes ok: "rcpt_ok t"
  shows "rcpt_ok (snd (rcptable_get t i))"
    and "fst (rcptable_get t i) = fst (rc_get (rcpt_view t) i)"
    and "rcpt_view (snd (rcptable_get t i)) = snd (rc_get (rcpt_view t) i)"
proof -
  have "rcpt_ok (snd (rcptable_get t i)) \<and> fst (rcptable_get t i) = fst (rc_get (rcpt_view t) i) \<and>
    rcpt_view (snd (rcptable_get t i)) = snd (rc_get (rcpt_view t) i)"
  proof (cases t i rule: rcptable_scan_cases)
    case absent
    with ok show ?thesis by (simp add: rcptable_get_def rc_get_def)
  next
    case (found k e)
    with ok show ?thesis
      by (simp add: rcptable_get_def rc_get_def rcpt_replace [OF ok found(1)])
  qed
  then show "rcpt_ok (snd (rcptable_get t i))"
    "fst (rcptable_get t i) = fst (rc_get (rcpt_view t) i)"
    "rcpt_view (snd (rcptable_get t i)) = snd (rc_get (rcpt_view t) i)" by auto
qed

lemma rcptable_release_ok:
  assumes ok: "rcpt_ok t" and sc: "rcptable_scan (segment t i) i = Some k" and e: "ident e = i"
  shows "rcpt_ok (snd (rcptable_release t i k e))"
    and "rcpt_view (snd (rcptable_release t i k e)) = (rcpt_view t)(i := drop_ref (slot e))"
    and "fst (rcptable_release t i k e) = 
      (if drop_ref (slot e) = None then Freed (if has_cleanup t then Some (val (slot e)) else None) else Kept)"
  using e by (auto simp: rcptable_release_def Let_def drop_ref_def rcpt_replace [OF ok sc])

lemma rcptable_unref_ok:
  assumes ok: "rcpt_ok t"
  shows "rcpt_ok (snd (rcptable_unref t i))"
    and "rcpt_view (snd (rcptable_unref t i)) = rc_unref (rcpt_view t) i"
  using ok by (cases t i rule: rcptable_scan_cases;
    simp add: rcptable_unref_def rc_unref_def rcptable_release_ok)+

lemma rcptable_remove_ok:
  assumes ok: "rcpt_ok t"
  shows "rcpt_ok (snd (rcptable_remove t i))"
    and "rcpt_view (snd (rcptable_remove t i)) = rc_remove (rcpt_view t) i"
  using ok by (cases t i rule: rcptable_scan_cases;
    simp add: rcptable_remove_def rc_remove_def rcptable_release_ok)+

lemma rcptable_refcount_view:
  "rcptable_refcount t i = (case rcpt_view t i of None \<Rightarrow> - 1 | Some sl \<Rightarrow> refs sl)"
  by (cases t i rule: rcptable_scan_cases) (simp_all add: rcptable_refcount_def)

lemma rcptable_poke_ok:
  assumes ok: "rcpt_ok t" and "rcpt_view t i = Some sl"
  shows "rcpt_ok (rcptable_poke t i v)" and "rcpt_view (rcptable_poke t i v) = (rcpt_view t)(i \<mapsto> sl\<lparr>val := v\<rparr>)"
  using assms by (cases t i rule: rcptable_scan_cases; simp add: rcptable_poke_def rcpt_replace)+

text \<open>Taking a reference, storing through the pointer and giving the reference back.\<close>

lemma rcptable_get_poke_unref:
  assumes ok: "rcpt_ok t" and sl: "rcpt_view t i = Some sl" "present sl" "1 \<le> refs sl" and g: "rcptable_get t i = (r, t')"
  shows "r = Some (val sl)" and "rcpt_ok t'" and "rcpt_ok (snd (rcptable_unref (rcptable_poke t' i v) i))"
    and "rcpt_view (snd (rcptable_unref (rcptable_poke t' i v) i)) = (rcpt_view t)(i \<mapsto> sl\<lparr>val := v\<rparr>)"
proof -
  have v: "rcpt_view t' = (rcpt_view t)(i \<mapsto> sl\<lparr>refs := refs sl + 1\<rparr>)" and "r = Some (val sl)" and ok': "rcpt_ok t'"
    using rcptable_get_ok [OF ok, of i] sl g by (simp_all add: rc_get_def)
  then show "r = Some (val sl)" "rcpt_ok t'" by simp_all
  have "rcpt_view t' i = Some (sl\<lparr>refs := refs sl + 1\<rparr>)" by (simp add: v)
  note p = rcptable_poke_ok [OF ok' this, of v]
  show "rcpt_ok (snd (rcptable_unref (rcptable_poke t' i v) i))" using rcptable_unref_ok(1) [OF p(1)] by simp
  have e: "sl\<lparr>refs := refs sl, val := v\<rparr> = sl\<lparr>val := v\<rparr>" by (cases sl) simp
  show "rcpt_view (snd (rcptable_unref (rcptable_poke t' i v) i)) = (rcpt_view t)(i \<mapsto> sl\<lparr>val := v\<rparr>)"
    using sl(3) e by (simp add: rcptable_unref_ok(2) [OF p(1)] p(2) rc_unref_def drop_ref_def v)
qed

text \<open>The entry a call frees and the value \<open>cleanup\<close> is called with, if the table has one.\<close>

definition freed_slot :: "bool \<Rightarrow> 'a slot option \<Rightarrow> 'a freed" where
  "freed_slot cl x =
     (case x of None \<Rightarrow> Kept
      | Some sl \<Rightarrow> if refs sl = 1 then Freed (if cl then Some (val sl) else None) else Kept)"

lemma rcptable_freed:
  assumes "rcpt_ok t"
  shows "fst (rcptable_unref t i) = freed_slot (has_cleanup t) (rcpt_view t i)"
    and "fst (rcptable_remove t i) = freed_slot (has_cleanup t) (rcpt_view t i)"
  using assms
  by (cases t i rule: rcptable_scan_cases;
      force simp: rcptable_unref_def rcptable_remove_def rcptable_release_ok drop_ref_def freed_slot_def)+

lemma has_cleanup_kept [simp]:
  "has_cleanup (set_segment t i seg) = has_cleanup t"
  "has_cleanup (rcptable_set t i v) = has_cleanup t"
  "has_cleanup (snd (rcptable_get t i)) = has_cleanup t"
  "has_cleanup (snd (rcptable_unref t i)) = has_cleanup t"
  "has_cleanup (snd (rcptable_remove t i)) = has_cleanup t"
  by (auto simp: set_segment_def rcptable_set_def rcptable_get_def rcptable_unref_def rcptable_remove_def
      rcptable_release_def Let_def split: option.splits)

section \<open>A new identifier\<close>

text \<open>Both ways \<open>rcptable_set\<close> extends a segment: into the first null pointer, or at the end.\<close>

definition place :: "'a tentry option list \<Rightarrow> 'a tentry \<Rightarrow> 'a tentry option list" where
  "place seg e = (if first_null seg < length seg then seg[first_null seg := Some e] else seg @ [Some e])"

lemma rcptable_set_place:
  "rcptable_set t i v = set_segment t i (place (segment t i) \<lparr>ident = i, slot = fresh_slot v\<rparr>)"
  using first_null_le [of "segment t i"]
  by (auto simp: rcptable_set_def place_def Let_def not_less list_update_append)

lemma place_Cons [simp]:
  "place [] e = [Some e]" "place (None # seg) e = Some e # seg"
  "place (Some x # seg) e = Some x # place seg e"
  by (simp_all add: place_def)

lemma set_place: "set (place seg e) \<subseteq> insert (Some e) (set seg)"
  by (induction seg rule: first_null.induct) auto

lemma scan_place_new:
  "rcptable_scan seg (ident e) = None \<Longrightarrow> \<exists>k. rcptable_scan (place seg e) (ident e) = Some k \<and> place seg e ! k = Some e"
  by (induction seg rule: first_null.induct) (auto split: if_splits)

lemma scan_place_other:
  "j \<noteq> ident e \<Longrightarrow> rcptable_scan (place seg e) j = rcptable_scan seg j"
  by (induction seg rule: first_null.induct) auto

lemma place_nth_other: "k < length seg \<Longrightarrow> seg ! k = Some x \<Longrightarrow> place seg e ! k = Some x"
  by (induction seg arbitrary: k rule: first_null.induct) (auto simp: nth_Cons split: nat.splits)

lemma seg_ok_place:
  "seg_ok n h seg \<Longrightarrow> rcptable_scan seg (ident e) = None \<Longrightarrow> ident e mod n = h \<Longrightarrow> seg_ok n h (place seg e)"
  by (induction seg rule: first_null.induct)
    (auto simp: scan_place_other split: if_splits)

lemma rcpt_view_None: "rcpt_view t i = None \<longleftrightarrow> rcptable_scan (segment t i) i = None"
  by (cases t i rule: rcptable_scan_cases) auto

lemma rcptable_set_ok:
  assumes ok: "rcpt_ok t" and new: "rcpt_view t i = None"
  shows "rcpt_ok (rcptable_set t i v)"
    and "rcpt_view (rcptable_set t i v) = (rcpt_view t)(i \<mapsto> fresh_slot v)"
proof -
  let ?e = "\<lparr>ident = i, slot = fresh_slot v\<rparr>" and ?seg = "segment t i"
  have sc: "rcptable_scan ?seg (ident ?e) = None" using new by (simp add: rcpt_view_None)
  show "rcpt_ok (rcptable_set t i v)"
    unfolding rcptable_set_place
    by (intro rcpt_ok_set_segment [OF ok] seg_ok_place segment_ok [OF ok] sc) simp
  have "rcpt_view (rcptable_set t i v) j = ((rcpt_view t)(i \<mapsto> fresh_slot v)) j" for j
  proof (cases "j = i")
    case True
    obtain k where "rcptable_scan (place ?seg ?e) i = Some k" "place ?seg ?e ! k = Some ?e"
      using scan_place_new [OF sc] by auto
    with True show ?thesis
      by (simp add: rcpt_view_def rcptable_set_place segment_set_segment [OF ok])
  next
    case False
    show ?thesis
    proof (cases "j mod seg_count t = i mod seg_count t")
      case True
      then have seg: "segment t j = ?seg" by (simp add: segment_def rcptable_hash_def)
      have "place ?seg ?e ! l = ?seg ! l" if "rcptable_scan ?seg j = Some l" for l
        using rcptable_scan_Some [OF that] place_nth_other by fastforce
      with False True seg scan_place_other [of j ?e ?seg] show ?thesis
        by (auto simp: rcpt_view_def rcptable_set_place segment_set_segment [OF ok] split: option.split)
    next
      case False
      with \<open>j \<noteq> i\<close> show ?thesis
        by (simp add: rcpt_view_def rcptable_set_place segment_set_segment [OF ok] cong: option.case_cong)
    qed
  qed
  then show "rcpt_view (rcptable_set t i v) = (rcpt_view t)(i \<mapsto> fresh_slot v)" by auto
qed

lemma rcptable_init_ok:
  assumes "0 < n"
  shows "rcpt_ok (rcptable_init n c)" and "rcpt_view (rcptable_init n c) i = None"
    and "rcpt_ok (rcptable_cinit n c)" and "rcpt_view (rcptable_cinit n c) i = None"
    and "\<not> has_cleanup (rcptable_init n c)" and "has_cleanup (rcptable_cinit n c)"
  using assms
  by (simp_all add: rcpt_ok_def rcptable_init_def rcptable_cinit_def rcpt_view_def segment_def rcptable_hash_def)

interpretation rt: refstore_keyed rcpt_ok rcpt_view rcptable_get
    "\<lambda>t i. snd (rcptable_unref t i)" "\<lambda>t i. snd (rcptable_remove t i)" rcptable_set
  by unfold_locales
    (simp_all add: rcptable_get_ok rcptable_unref_ok rcptable_remove_ok rcptable_set_ok)

section \<open>Properties\<close>

text \<open>
  One call on the table and on the ghost number \<open>h\<close> of references out, with the entries freed so
  far and what \<open>cleanup\<close> was called with. A call that breaks the discipline is undefined.
\<close>

datatype 'a rt_op = TSet nat 'a | TGet nat | TUnref nat | TRemove nat

type_synonym 'a rt_state = "'a rcptable \<times> (nat \<Rightarrow> nat) \<times> (nat \<times> 'a option) list"

definition log_freed :: "nat \<Rightarrow> 'a freed \<Rightarrow> (nat \<times> 'a option) list \<Rightarrow> (nat \<times> 'a option) list" where
  "log_freed i f c = (case f of Kept \<Rightarrow> c | Freed x \<Rightarrow> (i, x) # c)"

fun rcptable_run :: "'a rt_op list \<Rightarrow> 'a rt_state \<Rightarrow> 'a rt_state option" where
  "rcptable_run [] s = Some s"
| "rcptable_run (TSet i v # ops) (t, h, c) =
     (if rcpt_view t i = None then rcptable_run ops (rcptable_set t i v, h, c) else None)"
| "rcptable_run (TGet i # ops) (t, h, c) =
     (case rcptable_get t i of
        (None, t') \<Rightarrow> rcptable_run ops (t', h, c)
      | (Some v, t') \<Rightarrow> rcptable_run ops (t', h(i := h i + 1), c))"
| "rcptable_run (TUnref i # ops) (t, h, c) =
     (if h i = 0 then None
      else case rcptable_unref t i of
             (freed, t') \<Rightarrow> rcptable_run ops (t', h(i := h i - 1), log_freed i freed c))"
| "rcptable_run (TRemove i # ops) (t, h, c) =
     (if slot_present (rcpt_view t i)
      then case rcptable_remove t i of
             (freed, t') \<Rightarrow> rcptable_run ops (t', h, log_freed i freed c)
      else None)"

text \<open>The identifiers a sequence sets, in order, and those the table still has.\<close>

fun set_ids :: "'a rt_op list \<Rightarrow> nat list" where
  "set_ids [] = []"
| "set_ids (TSet i v # ops) = i # set_ids ops"
| "set_ids (_ # ops) = set_ids ops"

lemma rcptable_run_counted:
  "rcptable_run ops (t, h, c) = Some (t', h', c') \<Longrightarrow> rt.counted t h \<Longrightarrow> rt.counted t' h'"
proof (induction ops "(t, h, c)" arbitrary: t h c rule: rcptable_run.induct)
  case (2 i v ops t h c)
  then show ?case using rt.counted_put [of t h i v] by (auto split: if_splits)
next
  case (3 i ops t h c)
  then show ?case
    using rt.counted_take [of t h i] rt.counted_miss [of t h i]
    by (auto split: prod.splits option.splits)
next
  case (4 i ops t h c)
  then show ?case using rt.counted_give [of t h i] by (auto split: if_splits prod.splits)
next
  case (5 i ops t h c)
  then show ?case
    using rt.counted_kill [of t h i] by (auto simp: slot_present_Some split: if_splits prod.splits)
qed simp

text \<open>
  The life cycle of an identifier: set and then freed, so that the frees for it and the live entry for
  it together are as many as its creations.
\<close>

definition frees :: "nat \<Rightarrow> (nat \<times> 'a option) list \<Rightarrow> nat" where
  "frees i c = length (filter (\<lambda>x. fst x = i) c)"

definition live :: "'a rcptable \<Rightarrow> nat \<Rightarrow> nat" where
  "live t i = (if rcpt_view t i = None then 0 else 1)"

lemma frees_log: "frees j (log_freed i f c) = frees j c + of_bool (i = j \<and> f \<noteq> Kept)"
  by (auto simp: frees_def log_freed_def split: freed.splits)

lemma live_get: "rcpt_ok t \<Longrightarrow> live (snd (rcptable_get t i)) j = live t j"
  by (auto simp: live_def rcptable_get_ok rc_get_def split: option.splits)

lemma live_unref:
  "rcpt_ok t \<Longrightarrow> live (snd (rcptable_unref t i)) j + of_bool (i = j \<and> fst (rcptable_unref t i) \<noteq> Kept) = live t j"
  by (auto simp: live_def rcptable_unref_ok rcptable_freed freed_slot_def rc_unref_def drop_ref_def split: option.splits)

lemma live_remove:
  "rcpt_ok t \<Longrightarrow> live (snd (rcptable_remove t i)) j + of_bool (i = j \<and> fst (rcptable_remove t i) \<noteq> Kept) = live t j"
  by (auto simp: live_def rcptable_remove_ok rcptable_freed freed_slot_def rc_remove_def drop_ref_def
      split: option.splits)

lemma live_set: "rcpt_ok t \<Longrightarrow> rcpt_view t i = None \<Longrightarrow> live (rcptable_set t i v) j = live t j + of_bool (i = j)"
  by (auto simp: live_def rcptable_set_ok)

lemma rcptable_run_lifecycle:
  "rcptable_run ops (t, h, c) = Some (t', h', c') \<Longrightarrow> rcpt_ok t \<Longrightarrow>
   frees j c' + live t' j = frees j c + live t j + count_list (set_ids ops) j"
proof (induction ops "(t, h, c)" arbitrary: t h c rule: rcptable_run.induct)
  case (2 i v ops t h c)
  then show ?case by (auto simp: rcptable_set_ok live_set split: if_splits)
next
  case (3 i ops t h c)
  have "rcpt_ok (snd (rcptable_get t i))" "live (snd (rcptable_get t i)) j = live t j"
    using 3(4) by (simp_all add: rcptable_get_ok live_get)
  then show ?case using 3(1-3) by (auto split: prod.splits option.splits)
next
  case (4 i ops t h c)
  have "rcpt_ok (snd (rcptable_unref t i))"
    using 4(3) by (simp add: rcptable_unref_ok)
  then show ?case
    using 4(1,2) live_unref [OF 4(3), of i j]
    by (auto simp: frees_log split: if_splits prod.splits)
next
  case (5 i ops t h c)
  have "rcpt_ok (snd (rcptable_remove t i))"
    using 5(3) by (simp add: rcptable_remove_ok)
  then show ?case
    using 5(1,2) live_remove [OF 5(3), of i j]
    by (auto simp: frees_log split: if_splits prod.splits)
qed simp

text \<open>
  The values: an entry holds one that was set for its identifier, and it is this one that
  \<open>cleanup\<close> gets.
\<close>

definition vals_from :: "(nat \<Rightarrow> 'a \<Rightarrow> bool) \<Rightarrow> 'a rcptable \<Rightarrow> bool" where
  "vals_from P t \<longleftrightarrow> (\<forall>i sl. rcpt_view t i = Some sl \<longrightarrow> P i (val sl))"

definition cleaned :: "(nat \<Rightarrow> 'a \<Rightarrow> bool) \<Rightarrow> bool \<Rightarrow> (nat \<times> 'a option) list \<Rightarrow> bool" where
  "cleaned P cl c \<longleftrightarrow> (\<forall>(i, x) \<in> set c. if cl then \<exists>v. x = Some v \<and> P i v else x = None)"

lemma vals_from_step:
  assumes "rcpt_ok t" and "vals_from P t"
  shows "vals_from P (snd (rcptable_get t i))" and "vals_from P (snd (rcptable_unref t i))"
    and "vals_from P (snd (rcptable_remove t i))"
    and "rcpt_view t i = None \<Longrightarrow> P i v \<Longrightarrow> vals_from P (rcptable_set t i v)"
  using assms
  by (auto simp: vals_from_def rcptable_get_ok rcptable_unref_ok rcptable_remove_ok rcptable_set_ok
      rc_get_def rc_unref_def rc_remove_def drop_ref_def fresh_slot_def split: option.splits if_splits)

lemma cleaned_log:
  assumes "vals_from P t" and "cleaned P (has_cleanup t) c"
  shows "cleaned P (has_cleanup t) (log_freed i (freed_slot (has_cleanup t) (rcpt_view t i)) c)"
  using assms by (auto simp: cleaned_def log_freed_def freed_slot_def vals_from_def split: option.splits)

lemma rcptable_run_cleaned:
  "rcptable_run ops (t, h, c) = Some (t', h', c') \<Longrightarrow> rcpt_ok t \<Longrightarrow> vals_from P t \<Longrightarrow>
   cleaned P (has_cleanup t) c \<Longrightarrow> (\<And>i v. TSet i v \<in> set ops \<Longrightarrow> P i v) \<Longrightarrow> cleaned P (has_cleanup t) c'"
proof (induction ops "(t, h, c)" arbitrary: t h c rule: rcptable_run.induct)
  case (2 i v ops t h c)
  then show ?case by (auto simp: rcptable_set_ok vals_from_step split: if_splits)
next
  case (3 i ops t h c)
  have "rcpt_ok (snd (rcptable_get t i))" "vals_from P (snd (rcptable_get t i))"
    "has_cleanup (snd (rcptable_get t i)) = has_cleanup t"
    using 3(4,5) by (simp_all add: rcptable_get_ok vals_from_step)
  then show ?case using 3(1-3,6,7) by (auto simp del: has_cleanup_kept split: prod.splits option.splits)
next
  case (4 i ops t h c)
  have "rcpt_ok (snd (rcptable_unref t i))" "vals_from P (snd (rcptable_unref t i))"
    "has_cleanup (snd (rcptable_unref t i)) = has_cleanup t"
    "fst (rcptable_unref t i) = freed_slot (has_cleanup t) (rcpt_view t i)"
    using 4(3,4) by (simp_all add: rcptable_unref_ok vals_from_step rcptable_freed)
  then show ?case using 4(1,2,6) cleaned_log [OF 4(4,5), of i] by (auto simp del: has_cleanup_kept split: if_splits prod.splits)
next
  case (5 i ops t h c)
  have "rcpt_ok (snd (rcptable_remove t i))" "vals_from P (snd (rcptable_remove t i))"
    "has_cleanup (snd (rcptable_remove t i)) = has_cleanup t"
    "fst (rcptable_remove t i) = freed_slot (has_cleanup t) (rcpt_view t i)"
    using 5(3,4) by (simp_all add: rcptable_remove_ok vals_from_step rcptable_freed)
  then show ?case using 5(1,2,6) cleaned_log [OF 5(4,5), of i] by (auto simp del: has_cleanup_kept split: if_splits prod.splits)
qed simp

text \<open>
  C16: On a table of \<open>n\<close> segments, made by \<open>rcptable_cinit\<close> with a cleanup function or by
  \<open>rcptable_init\<close> without one, callers that set only identifiers the table does not have, give back
  only references they hold and remove only entries that are present never lose an entry they hold, a
  removed entry without holders is gone, and every entry that was set is either still in the table or
  was freed, each exactly once. With a cleanup function each free is preceded by a call of it with a
  value that was set for the identifier; without one there is no such call.
\<close>

theorem rcptable_lifecycle:
  assumes "0 < n" and "t0 = (if cl then rcptable_cinit n c0 else rcptable_init n c0)"
    and "rcptable_run ops (t0, \<lambda>_. 0, []) = Some (t, h, c)"
  shows "(0 < h i \<longrightarrow> rcpt_view t i \<noteq> None) \<and>
    (h i = 0 \<and> \<not> slot_present (rcpt_view t i) \<longrightarrow> rcpt_view t i = None) \<and>
    length (filter (\<lambda>x. fst x = i) c) + (if rcpt_view t i = None then 0 else 1) =
      count_list (set_ids ops) i \<and>
    (\<forall>x. (i, x) \<in> set c \<longrightarrow> (if cl then \<exists>v. x = Some v \<and> TSet i v \<in> set ops else x = None))"
proof -
  have t0: "rcpt_ok t0" "\<And>j. rcpt_view t0 j = None" "has_cleanup t0 = cl"
    using assms(1) unfolding assms(2) by (simp_all add: rcptable_init_ok)
  then have "rt.counted t0 (\<lambda>_. 0)" by (simp add: rt.counted_def)
  with assms(3) have c: "rt.counted t h" by (rule rcptable_run_counted)
  have l: "frees i c + live t i = count_list (set_ids ops) i"
    using rcptable_run_lifecycle [OF assms(3) t0(1), of i] by (simp add: frees_def live_def t0(2))
  have "cleaned (\<lambda>i v. TSet i v \<in> set ops) cl c"
    using rcptable_run_cleaned [OF assms(3) t0(1), of "\<lambda>i v. TSet i v \<in> set ops"] t0
    by (simp add: vals_from_def cleaned_def)
  then have "\<forall>x. (i, x) \<in> set c \<longrightarrow> (if cl then \<exists>v. x = Some v \<and> TSet i v \<in> set ops else x = None)"
    by (auto simp: cleaned_def)
  then show ?thesis
    using rt.held_alive [OF c, of i] rt.counted_at [OF c, of i] l
    by (cases "rcpt_view t i") (auto simp: frees_def live_def)
qed

lemma rcptable_run_example:
  "map_option (\<lambda>(t, h, c). (rcpt_view t 5 = None, h 5, c))
     (rcptable_run [TSet 1 ''a'', TSet 5 ''b'', TGet 5, TRemove 5, TUnref 5]
       (rcptable_cinit 4 0, \<lambda>_. 0, [])) = Some (True, 0, [(5, Some ''b'')])"
  by code_simp

theorem rcptable_lifecycle_witness:
  "\<exists>t h c. rcptable_run [TSet 1 ''a'', TSet 5 ''b'', TGet 5, TRemove 5, TUnref 5]
     (rcptable_cinit 4 0, \<lambda>_. 0, []) = Some (t, h, c) \<and> rcpt_view t 5 = None \<and>
     length (filter (\<lambda>x. fst x = 5) c) = 1 \<and> (\<forall>x. (5, x) \<in> set c \<longrightarrow> x = Some ''b'')"
proof -
  obtain t h c where r: "rcptable_run [TSet 1 ''a'', TSet 5 ''b'', TGet 5, TRemove 5, TUnref 5]
     (rcptable_cinit 4 0, \<lambda>_. 0, []) = Some (t, h, c)" and v: "rcpt_view t 5 = None"
    using rcptable_run_example by (auto simp: map_option_case split: option.splits)
  from rcptable_lifecycle [OF _ _ r, of 4 True 0 5] r v show ?thesis by auto
qed

end
