(* ===== verification/CBuf.thy ===== *)
theory CBuf
  imports Aex_Prelude
begin

text \<open>
  \<^verbatim>\<open>kernel/cbuf.c\<close>: the blocking ring buffer. One iteration of the loops of \<open>cbuf_read\<close>
  and \<open>cbuf_write\<close> runs under the buffer's spinlock and is one atomic step
  (\<open>cbuf_read_iter\<close>, \<open>cbuf_write_iter\<close>); an iteration that finds nothing to do waits for the
  buffer's event and is retried, so that in between other threads take their own steps. The pointers
  stay below \<open>size\<close>, therefore the \<open>size_t\<close> arithmetic never wraps around and is modelled by
  natural numbers. The locale \<open>byte_stream\<close> is the contract: a bounded channel that keeps order.
\<close>

section \<open>State and operations\<close>

record cbuf =
  write_ptr :: nat
  read_ptr :: nat
  bsize :: nat
  buffer :: bytes

text \<open>The memory of \<open>kmalloc(size)\<close> is an argument: its contents are arbitrary.\<close>

definition cbuf_create :: "nat \<Rightarrow> bytes \<Rightarrow> cbuf" where
  "cbuf_create sz mem = \<lparr>write_ptr = 0, read_ptr = 0, bsize = sz, buffer = mem\<rparr>"

definition advance :: "nat \<Rightarrow> nat \<Rightarrow> nat \<Rightarrow> nat" where
  "advance p n sz = (if p + n = sz then 0 else p + n)"

definition read_possible :: "cbuf \<Rightarrow> nat \<Rightarrow> nat" where
  "read_possible c len =
     (let w_off = (if write_ptr c < read_ptr c then write_ptr c + bsize c else write_ptr c)
      in min (min (bsize c - read_ptr c) (w_off - read_ptr c)) len)"

text \<open>One iteration: the bytes moved to the caller's buffer; none means that it waits.\<close>

definition cbuf_read_iter :: "cbuf \<Rightarrow> nat \<Rightarrow> bytes \<times> cbuf" where
  "cbuf_read_iter c len =
     (let possible = read_possible c len
      in if possible = 0 then ([], c)
         else (take possible (drop (read_ptr c) (buffer c)),
               c\<lparr>read_ptr := advance (read_ptr c) possible (bsize c)\<rparr>))"

definition write_possible :: "cbuf \<Rightarrow> nat \<Rightarrow> nat" where
  "write_possible c len =
     (let r_off = (if read_ptr c \<le> write_ptr c then read_ptr c + bsize c else read_ptr c)
      in min (min (bsize c - write_ptr c) (r_off - 1 - write_ptr c)) len)"

definition cbuf_write_iter :: "cbuf \<Rightarrow> bytes \<Rightarrow> nat \<times> cbuf" where
  "cbuf_write_iter c src =
     (let possible = write_possible c (length src)
      in if possible = 0 then (0, c)
         else (possible,
               c\<lparr>buffer := blit (buffer c) (write_ptr c) (take possible src),
                 write_ptr := advance (write_ptr c) possible (bsize c)\<rparr>))"

text \<open>
  The loops, run without interruption: they stop when everything is transferred, or at an iteration
  that waits (the third component, what is left to transfer, is then positive).
\<close>

function cbuf_read :: "cbuf \<Rightarrow> nat \<Rightarrow> bytes \<times> cbuf \<times> nat" where
  "cbuf_read c len =
     (if len = 0 then ([], c, 0)
      else case cbuf_read_iter c len of
             (out, c') \<Rightarrow>
               if out = [] then ([], c', len)
               else (case cbuf_read c' (len - length out) of (out', c'', rem) \<Rightarrow> (out @ out', c'', rem)))"
  by pat_completeness auto
termination
  by (relation "measure (\<lambda>(c, len). len)") auto

function cbuf_write :: "cbuf \<Rightarrow> bytes \<Rightarrow> cbuf \<times> bytes" where
  "cbuf_write c src =
     (if src = [] then (c, [])
      else case cbuf_write_iter c src of
             (n, c') \<Rightarrow> if n = 0 then (c', src) else cbuf_write c' (drop n src))"
  by pat_completeness auto
termination
  by (relation "measure (\<lambda>(c, src). length src)") auto

declare cbuf_read.simps [simp del] cbuf_write.simps [simp del]

definition cbuf_available :: "cbuf \<Rightarrow> nat" where
  "cbuf_available c =
     (let rp = read_ptr c; wp = write_ptr c; sz = bsize c
      in if rp = wp then 0 else if wp < rp then (sz - rp) + wp else wp - rp)"

section \<open>Invariant and contents\<close>

definition cbuf_ok :: "cbuf \<Rightarrow> bool" where
  "cbuf_ok c \<longleftrightarrow> 1 < bsize c \<and> read_ptr c < bsize c \<and> write_ptr c < bsize c \<and> length (buffer c) = bsize c"

text \<open>The bytes from the read pointer on, wrapping around at the end of the buffer.\<close>

definition contents :: "cbuf \<Rightarrow> bytes" where
  "contents c = map (\<lambda>i. buffer c ! ((read_ptr c + i) mod bsize c)) [0..<cbuf_available c]"

lemma length_contents [simp]: "length (contents c) = cbuf_available c"
  by (simp add: contents_def)

lemma cbuf_create_ok:
  "1 < sz \<Longrightarrow> length mem = sz \<Longrightarrow> cbuf_ok (cbuf_create sz mem)"
  "contents (cbuf_create sz mem) = []"
  by (simp_all add: cbuf_create_def cbuf_ok_def contents_def cbuf_available_def)

lemma advance_mod: "0 < sz \<Longrightarrow> p + n \<le> sz \<Longrightarrow> advance p n sz = (p + n) mod sz"
  by (auto simp: advance_def)

lemma cbuf_available_mod:
  assumes "cbuf_ok c"
  shows "cbuf_available c < bsize c" and "(read_ptr c + cbuf_available c) mod bsize c = write_ptr c"
  using assms by (auto simp: cbuf_available_def cbuf_ok_def Let_def)

lemma cbuf_available_eqI:
  assumes "cbuf_ok c" and "a < bsize c" and "(read_ptr c + a) mod bsize c = write_ptr c"
  shows "cbuf_available c = a"
proof -
  have "(read_ptr c + a) mod bsize c = (read_ptr c + cbuf_available c) mod bsize c"
    using cbuf_available_mod [OF assms(1)] assms(3) by simp
  then show ?thesis
    using assms(2) cbuf_available_mod(1) [OF assms(1)] by (auto dest: mod_add_lcancel)
qed

lemma read_possible_bounds:
  assumes "cbuf_ok c"
  shows "read_possible c len \<le> cbuf_available c" and "read_ptr c + read_possible c len \<le> bsize c"
    and "read_possible c len \<le> len"
    and "0 < len \<Longrightarrow> 0 < cbuf_available c \<Longrightarrow> 0 < read_possible c len"
  using assms by (auto simp: read_possible_def cbuf_available_def cbuf_ok_def Let_def split: if_splits)

lemma write_possible_bounds:
  assumes "cbuf_ok c"
  shows "cbuf_available c + write_possible c len < bsize c"
    and "write_ptr c + write_possible c len \<le> bsize c" and "write_possible c len \<le> len"
    and "0 < len \<Longrightarrow> cbuf_available c + 1 < bsize c \<Longrightarrow> 0 < write_possible c len"
  using assms by (auto simp: write_possible_def cbuf_available_def cbuf_ok_def Let_def split: if_splits)

lemma cbuf_read_iter_ok:
  assumes ok: "cbuf_ok c" and it: "cbuf_read_iter c len = (out, c')"
  shows "cbuf_ok c'" and "contents c = out @ contents c'" and "length out \<le> len"
    and "0 < len \<Longrightarrow> contents c \<noteq> [] \<Longrightarrow> out \<noteq> []"
proof -
  define n a r sz where "n = read_possible c len" and "a = cbuf_available c"
    and "r = read_ptr c" and "sz = bsize c"
  note defs = n_def a_def r_def sz_def
  note b = read_possible_bounds [OF ok, of len, folded defs]
  note av = cbuf_available_mod [OF ok, folded defs]
  have sz: "0 < sz" "r < sz" "length (buffer c) = sz" using ok by (auto simp: cbuf_ok_def defs)
  have c': "c' = c\<lparr>read_ptr := (r + n) mod sz\<rparr>" and out: "out = take n (drop r (buffer c))"
    using it b advance_mod [of sz r n] sz
    by (auto simp: cbuf_read_iter_def Let_def defs [symmetric] split: if_splits) (simp_all add: r_def)
  show ok': "cbuf_ok c'" using ok sz by (simp add: c' cbuf_ok_def sz_def)
  have "((r + n) mod sz + (a - n)) mod sz = (r + n + (a - n)) mod sz"
    by (rule mod_add_left_eq)
  also have "r + n + (a - n) = r + a" using b(1) by simp
  finally have "((r + n) mod sz + (a - n)) mod sz = write_ptr c" using av(2) by simp
  then have a': "cbuf_available c' = a - n"
    using av sz b by (intro cbuf_available_eqI [OF ok']) (auto simp: c' sz_def)
  have out': "out = map (\<lambda>i. buffer c ! ((r + i) mod sz)) [0..<n]"
    using b sz by (intro nth_equalityI) (auto simp: out)
  have "contents c' = map (\<lambda>i. buffer c ! ((r + i) mod sz)) [n..<a]"
    unfolding contents_def a' using b
    by (intro nth_equalityI) (auto simp: c' sz_def mod_simps add.assoc)
  moreover have "[0..<a] = [0..<n] @ [n..<a]"
    using b by (metis bot_nat_0.extremum le_add_diff_inverse upt_add_eq_append)
  ultimately show "contents c = out @ contents c'"
    by (simp add: contents_def out' defs)
  show "length out \<le> len" using b(3) sz by (simp add: out)
  show "out \<noteq> []" if "0 < len" "contents c \<noteq> []"
    using b(4) that sz by (auto simp: contents_def out' a_def)
qed

lemma cbuf_write_iter_ok:
  assumes ok: "cbuf_ok c" and it: "cbuf_write_iter c src = (n, c')"
  shows "cbuf_ok c'" and "contents c' = contents c @ take n src" and "n \<le> length src"
    and "src \<noteq> [] \<Longrightarrow> length (contents c) + 1 < bsize c \<Longrightarrow> 0 < n" and "bsize c' = bsize c"
proof -
  define a r w sz where "a = cbuf_available c" and "r = read_ptr c" and "w = write_ptr c"
    and "sz = bsize c"
  note defs = a_def r_def w_def sz_def
  have n: "n = write_possible c (length src)"
    using it by (auto simp: cbuf_write_iter_def Let_def split: if_splits)
  note b = write_possible_bounds [OF ok, of "length src", folded n defs]
  note av = cbuf_available_mod [OF ok, folded defs]
  have sz: "0 < sz" "w < sz" "length (buffer c) = sz" using ok by (auto simp: cbuf_ok_def defs)
  have len: "length (take n src) = n" using b by simp
  have c': "c' = c\<lparr>buffer := blit (buffer c) w (take n src), write_ptr := (w + n) mod sz\<rparr>"
    using it b advance_mod [of sz w n] sz
    by (auto simp: cbuf_write_iter_def Let_def n [symmetric] defs [symmetric] split: if_splits)
      (simp_all add: w_def)
  show ok': "cbuf_ok c'" and "bsize c' = bsize c"
    using ok sz len b by (auto simp: c' cbuf_ok_def sz_def)
  have "(r + (a + n)) mod sz = (w + n) mod sz"
    using av by (metis add.assoc mod_add_left_eq)
  then have a': "cbuf_available c' = a + n"
    using b by (intro cbuf_available_eqI [OF ok']) (auto simp: c' defs)
  have old: "blit (buffer c) w (take n src) ! ((r + i) mod sz) = buffer c ! ((r + i) mod sz)"
    if "i < a" for i
  proof -
    have "\<not> (w \<le> (r + i) mod sz \<and> (r + i) mod sz < w + n)"
    proof
      assume in_win: "w \<le> (r + i) mod sz \<and> (r + i) mod sz < w + n"
      define k where "k = (r + i) mod sz - w"
      have k: "k < n" "(r + i) mod sz = w + k" using in_win by (auto simp: k_def)
      have "(r + (a + k)) mod sz = (w + k) mod sz"
        using av(2) by (metis add.assoc mod_add_left_eq)
      also have "\<dots> = (r + i) mod sz" using k(2) by (metis mod_mod_trivial)
      finally have "(a + k) mod sz = i mod sz" by (rule mod_add_lcancel)
      then show False using that av(1) b(1) k(1) by simp
    qed
    then show ?thesis using b sz len by (subst nth_blit) auto
  qed
  have new: "blit (buffer c) w (take n src) ! ((r + (a + j)) mod sz) = src ! j" if "j < n" for j
  proof -
    have "(r + (a + j)) mod sz = (w + j) mod sz"
      using av(2) by (metis add.assoc mod_add_left_eq)
    also have "\<dots> = w + j" using that b(2) by simp
    finally have "(r + (a + j)) mod sz = w + j" .
    then show ?thesis using b(2,3) sz len that by (simp add: nth_blit)
  qed
  show "contents c' = contents c @ take n src"
  proof (rule nth_equalityI)
    fix i assume "i < length (contents c')"
    then have "i < a + n" by (simp add: a')
    then show "contents c' ! i = (contents c @ take n src) ! i"
      using old [of i] new [of "i - a"] a'
      by (auto simp: contents_def nth_append c' defs [symmetric])
  qed (simp add: a' len a_def b)
  show "n \<le> length src" by (rule b(3))
  show "src \<noteq> [] \<Longrightarrow> length (contents c) + 1 < bsize c \<Longrightarrow> 0 < n"
    using b(4) by (simp add: defs)
qed

section \<open>The contract: a bounded channel\<close>

text \<open>
  \<open>send s xs\<close> accepts a prefix of \<open>xs\<close> and \<open>recv s n\<close> delivers up to \<open>n\<close> elements;
  either makes progress whenever it can. A configuration \<open>(s, src, want, dst)\<close> has one writer
  with \<open>src\<close> left to send and one reader that still wants \<open>want\<close> elements and has \<open>dst\<close>.
\<close>

type_synonym ('s, 'a) stream_conf = "'s \<times> 'a list \<times> nat \<times> 'a list"

definition stream_writer ::
    "('s \<Rightarrow> 'a list \<Rightarrow> nat \<times> 's) \<Rightarrow> ('s, 'a) stream_conf \<Rightarrow> ('s, 'a) stream_conf" where
  "stream_writer send = (\<lambda>(s, src, want, dst).
     if src = [] then (s, src, want, dst)
     else case send s src of (n, s') \<Rightarrow> (s', drop n src, want, dst))"

definition stream_reader ::
    "('s \<Rightarrow> nat \<Rightarrow> 'a list \<times> 's) \<Rightarrow> ('s, 'a) stream_conf \<Rightarrow> ('s, 'a) stream_conf" where
  "stream_reader recv = (\<lambda>(s, src, want, dst).
     if want = 0 then (s, src, want, dst)
     else case recv s want of (ys, s') \<Rightarrow> (s', src, want - length ys, dst @ ys))"

text \<open>A schedule: \<open>True\<close> lets the reader do one iteration, \<open>False\<close> the writer.\<close>

fun stream_sched ::
    "('s \<Rightarrow> 'a list \<Rightarrow> nat \<times> 's) \<Rightarrow> ('s \<Rightarrow> nat \<Rightarrow> 'a list \<times> 's) \<Rightarrow> bool list \<Rightarrow>
     ('s, 'a) stream_conf \<Rightarrow> ('s, 'a) stream_conf" where
  "stream_sched send recv [] c = c"
| "stream_sched send recv (b # bs) c =
     stream_sched send recv bs (if b then stream_reader recv c else stream_writer send c)"

locale byte_stream =
  fixes ok :: "'s \<Rightarrow> bool"
    and queued :: "'s \<Rightarrow> 'a list"
    and send :: "'s \<Rightarrow> 'a list \<Rightarrow> nat \<times> 's"
    and recv :: "'s \<Rightarrow> nat \<Rightarrow> 'a list \<times> 's"
  assumes send_ok: "ok s \<Longrightarrow> send s xs = (n, s') \<Longrightarrow> ok s' \<and> queued s' = queued s @ take n xs"
    and send_progress: "ok s \<Longrightarrow> queued s = [] \<Longrightarrow> xs \<noteq> [] \<Longrightarrow> 0 < fst (send s xs)"
    and recv_ok: "ok s \<Longrightarrow> recv s n = (ys, s') \<Longrightarrow> ok s' \<and> queued s = ys @ queued s' \<and> length ys \<le> n"
    and recv_progress: "ok s \<Longrightarrow> 0 < n \<Longrightarrow> queued s \<noteq> [] \<Longrightarrow> fst (recv s n) \<noteq> []"
begin

abbreviation "writer \<equiv> stream_writer send"
abbreviation "reader \<equiv> stream_reader recv"
abbreviation "sched \<equiv> stream_sched send recv"

text \<open>What is in flight, and that the reader got as much as it asked for.\<close>

definition good :: "'a list \<Rightarrow> nat \<Rightarrow> 's \<times> 'a list \<times> nat \<times> 'a list \<Rightarrow> bool" where
  "good whole n = (\<lambda>(s, src, want, dst).
     ok s \<and> dst @ queued s @ src = whole \<and> length dst + want = n)"

lemma good_writer: "good whole n c \<Longrightarrow> good whole n (writer c)"
  using send_ok by (auto simp: good_def stream_writer_def split: prod.splits)

lemma good_reader: "good whole n c \<Longrightarrow> good whole n (reader c)"
  using recv_ok by (auto simp: good_def stream_reader_def split: prod.splits)

lemma good_sched: "good whole n c \<Longrightarrow> good whole n (sched bs c)"
  by (induction bs arbitrary: c) (auto simp: good_reader good_writer)

text \<open>One round of writer and reader moves at least one element to the reader.\<close>

lemma round_progress:
  assumes g: "good whole n (s, src, want, dst)" and w: "0 < want" and avail: "queued s @ src \<noteq> []"
    and r: "reader (writer (s, src, want, dst)) = (s', src', want', dst')"
  shows "want' < want"
proof -
  obtain s1 src1 where w1: "writer (s, src, want, dst) = (s1, src1, want, dst)"
    by (cases "src = []"; cases "send s src") (auto simp: stream_writer_def)
  have g1: "good whole n (s1, src1, want, dst)" using good_writer [OF g] w1 by simp
  have "queued s1 \<noteq> []"
  proof (cases "queued s")
    case Nil
    with avail g show ?thesis
      using w1 send_progress [of s src] send_ok [of s src]
      by (auto simp: stream_writer_def good_def split: prod.splits if_splits)
  next
    case Cons
    with g w1 show ?thesis
      using send_ok [of s src] by (auto simp: stream_writer_def good_def split: prod.splits if_splits)
  qed
  then have "fst (recv s1 want) \<noteq> []" using recv_progress g1 w by (simp add: good_def)
  then show ?thesis
    using r w1 w by (auto simp: stream_reader_def split: prod.splits)
qed

lemma sched_append: "sched (as @ bs) c = sched bs (sched as c)"
  by (induction as arbitrary: c) auto

lemma rounds_deliver:
  assumes "good whole n (s, src, want, dst)" and "n \<le> length whole" and "want \<le> k"
  shows "\<exists>s' src'. sched (concat (replicate k [False, True])) (s, src, want, dst) = (s', src', 0, take n whole)"
  using assms
proof (induction k arbitrary: s src want dst)
  case 0
  then have "dst = take n whole" by (auto simp: good_def)
  with 0 show ?case by simp
next
  case (Suc k)
  obtain s' src' want' dst' where r: "reader (writer (s, src, want, dst)) = (s', src', want', dst')"
    by (metis prod_cases4)
  have g: "good whole n (s', src', want', dst')"
    using good_reader [OF good_writer [OF Suc.prems(1)]] r by simp
  have "want' \<le> k"
  proof (cases "want = 0")
    case True
    then show ?thesis using r by (auto simp: stream_reader_def stream_writer_def split: if_splits prod.splits)
  next
    case False
    moreover have "queued s @ src \<noteq> []" using False Suc.prems by (auto simp: good_def)
    ultimately show ?thesis using round_progress [OF Suc.prems(1) _ _ r] Suc.prems(3) by simp
  qed
  from Suc.IH [OF g Suc.prems(2) this] show ?case by (simp add: r)
qed

end

interpretation cs: byte_stream cbuf_ok contents cbuf_write_iter cbuf_read_iter
proof (unfold_locales, goal_cases)
  case (1 s xs n s')
  then show ?case using cbuf_write_iter_ok(1,2) by blast
next
  case (2 s xs)
  then have "length (contents s) + 1 < bsize s" by (simp add: cbuf_ok_def)
  then show ?case using cbuf_write_iter_ok(4) [OF 2(1), of xs "fst (cbuf_write_iter s xs)" "snd (cbuf_write_iter s xs)"] 2(3)
    by simp
next
  case (3 s n ys s')
  then show ?case using cbuf_read_iter_ok(1-3) by blast
next
  case (4 s n)
  then show ?case
    using cbuf_read_iter_ok(4) [OF 4(1), of n "fst (cbuf_read_iter s n)" "snd (cbuf_read_iter s n)"] by simp
qed

section \<open>The whole loops\<close>

lemma cbuf_read_0 [simp]: "cbuf_read c 0 = ([], c, 0)"
  by (subst cbuf_read.simps) simp

lemma cbuf_read_rec:
  "0 < len \<Longrightarrow> cbuf_read_iter c len = (o1, c1) \<Longrightarrow> o1 \<noteq> [] \<Longrightarrow> cbuf_read c1 (len - length o1) = (o2, c2, r2) \<Longrightarrow>
   cbuf_read c len = (o1 @ o2, c2, r2)"
  by (subst cbuf_read.simps) simp

lemma cbuf_read_block:
  "0 < len \<Longrightarrow> cbuf_read_iter c len = ([], c1) \<Longrightarrow> cbuf_read c len = ([], c1, len)"
  by (subst cbuf_read.simps) simp

lemma cbuf_read_spec:
  assumes "cbuf_ok c" and "cbuf_read c len = (out, c', rem)"
  shows "cbuf_ok c' \<and> contents c = out @ contents c' \<and> length out + rem = len \<and>
    (0 < rem \<longrightarrow> contents c' = [])"
  using assms
proof (induction len arbitrary: c out c' rem rule: less_induct)
  case (less len)
  show ?case
  proof (cases "len = 0")
    case True
    with less(2,3) show ?thesis by simp
  next
    case len: False
    obtain o1 c1 where it: "cbuf_read_iter c len = (o1, c1)" by fastforce
    note step = cbuf_read_iter_ok [OF less(2) it]
    show ?thesis
    proof (cases "o1 = []")
      case True
      then have "cbuf_read c len = ([], c1, len)"
        using cbuf_read_block len it by blast
      then have eq: "out = []" "c' = c1" "rem = len" using less(3) by simp_all
      have "contents c1 = []" using step(2,4) True len by auto
      then show ?thesis unfolding eq using step(1,2) True by simp
    next
      case False
      obtain o2 c2 r2 where rec: "cbuf_read c1 (len - length o1) = (o2, c2, r2)"
        by (rule prod_cases3)
      have eq: "out = o1 @ o2" "c' = c2" "rem = r2"
        using cbuf_read_rec [OF _ it False rec] len less(3) by simp_all
      have "len - length o1 < len" using False len by simp
      from less(1) [OF this step(1) rec] step(2,3) show ?thesis unfolding eq by auto
    qed
  qed
qed

lemma cbuf_write_spec:
  assumes "cbuf_ok c" and "cbuf_write c src = (c', rest)"
  shows "cbuf_ok c' \<and> contents c' @ rest = contents c @ src \<and> bsize c' = bsize c \<and>
    (rest \<noteq> [] \<longrightarrow> Suc (length (contents c')) = bsize c)"
  using assms
proof (induction c src arbitrary: c' rest rule: cbuf_write.induct)
  case (1 c src)
  show ?case
  proof (cases "src = []")
    case True
    with 1(2,3) show ?thesis by (simp add: cbuf_write.simps [of c "[]"])
  next
    case src: False
    obtain n c1 where it: "cbuf_write_iter c src = (n, c1)" by fastforce
    note step = cbuf_write_iter_ok [OF 1(2) it]
    show ?thesis
    proof (cases "n = 0")
      case True
      then have "Suc (length (contents c)) = bsize c"
        using step(4) [OF src] cbuf_available_mod(1) [OF 1(2)] by (cases "length (contents c) + 1 < bsize c") auto
      moreover have "c' = c1" "rest = src"
        using 1(3) src it True by (simp_all add: cbuf_write.simps [of c src])
      ultimately show ?thesis using step True by simp
    next
      case False
      then have "cbuf_write c1 (drop n src) = (c', rest)"
        using 1(3) src it by (simp add: cbuf_write.simps [of c src])
      from 1(1) [OF src it [symmetric] False step(1) this] step show ?thesis by auto
    qed
  qed
qed

section \<open>Properties\<close>

text \<open>
  C19: Whatever interleaving of single locked iterations of a writer and a reader the scheduler
  chooses, the bytes the reader has, the bytes in the ring and the bytes still to be written are, in
  this order, the bytes that were to be written: nothing is lost, duplicated or reordered, and the
  ring never holds more than \<open>size - 1\<close> bytes.
\<close>

theorem cbuf_interleaving_fifo:
  assumes "1 < sz" and "length mem = sz"
    and "stream_sched cbuf_write_iter cbuf_read_iter bs (cbuf_create sz mem, src, want, []) = (c, src', want', dst)"
  shows "dst @ contents c @ src' = src \<and> length dst + want' = want \<and> cbuf_available c < sz"
proof -
  have "cs.good src want (cbuf_create sz mem, src, want, [])"
    using assms(1,2) by (simp add: cs.good_def cbuf_create_ok)
  from cs.good_sched [OF this, of bs] have g: "cs.good src want (c, src', want', dst)"
    using assms(3) by simp
  have "bsize (fst (stream_sched cbuf_write_iter cbuf_read_iter bs x)) = bsize (fst x)" for x
  proof (induction bs arbitrary: x)
    case (Cons b bs)
    have "bsize (fst (stream_reader cbuf_read_iter x)) = bsize (fst x)" "bsize (fst (stream_writer cbuf_write_iter x)) = bsize (fst x)"
      by (auto simp: stream_reader_def stream_writer_def cbuf_read_iter_def cbuf_write_iter_def Let_def
          split: prod.splits if_splits)
    with Cons show ?case by simp
  qed simp
  from this [of "(cbuf_create sz mem, src, want, [])"] have "bsize c = sz"
    unfolding assms(3) by (simp add: cbuf_create_def)
  with g show ?thesis using cbuf_available_mod(1) [of c] by (auto simp: cs.good_def)
qed

theorem cbuf_interleaving_fifo_witness:
  "\<exists>c src' want' dst.
     stream_sched cbuf_write_iter cbuf_read_iter [False, True, False, False, True]
       (cbuf_create 3 [0, 0, 0], [1, 2, 3, 4, 5], 4, []) = (c, src', want', dst) \<and>
     dst @ contents c @ src' = [1, 2, 3, 4, 5] \<and> cbuf_available c < 3"
proof -
  obtain c src' want' dst where r:
    "stream_sched cbuf_write_iter cbuf_read_iter [False, True, False, False, True]
       (cbuf_create 3 [0, 0, 0], [1, 2, 3, 4, 5], 4, []) = (c, src', want', dst)"
    by (rule prod_cases4)
  from cbuf_interleaving_fifo [OF _ _ r] r show ?thesis by auto
qed

text \<open>
  Neither side starves the other: when at least as many bytes are written as the reader wants,
  \<open>want\<close> alternations of one writer and one reader iteration are enough for the reader to return,
  with exactly the first \<open>want\<close> bytes.
\<close>

theorem cbuf_alternation_delivers:
  assumes "1 < sz" and "length mem = sz" and "want \<le> length src"
  shows "\<exists>c src'. stream_sched cbuf_write_iter cbuf_read_iter (concat (replicate want [False, True])) (cbuf_create sz mem, src, want, []) =
    (c, src', 0, take want src)"
  using assms by (intro cs.rounds_deliver) (simp_all add: cs.good_def cbuf_create_ok)

theorem cbuf_alternation_delivers_witness:
  "\<exists>c src'. stream_sched cbuf_write_iter cbuf_read_iter (concat (replicate 4 [False, True]))
     (cbuf_create 3 [0, 0, 0], [1, 2, 3, 4, 5], 4, []) = (c, src', 0, [1, 2, 3, 4])"
  using cbuf_alternation_delivers [of 3 "[0, 0, 0]" 4 "[1, 2, 3, 4, 5]"]
  by (simp add: numeral_nat)

end
