(* ===== verification/CBufM.thy ===== *)
theory CBufM
  imports CBuf
begin

text \<open>
  \<^verbatim>\<open>kernel/cbufm.c\<close>: the broadcast ring buffer. There is one write pointer, and every reader
  keeps its own position \<open>start\<close>. The writer never waits; a reader that falls a whole buffer
  behind is lapped. Seen from one position the buffer is the ring of \<^verbatim>\<open>kernel/cbuf.c\<close>, which is
  how its laws are obtained.
\<close>

record cbufm =
  m_write_ptr :: nat
  m_size :: nat
  m_buffer :: bytes

definition cbufm_create :: "nat \<Rightarrow> bytes \<Rightarrow> cbufm" where
  "cbufm_create sz mem = \<lparr>m_write_ptr = 0, m_size = sz, m_buffer = mem\<rparr>"

text \<open>One iteration of \<open>cbufm_read\<close>: the bytes read and the new position; none means waiting.\<close>

definition cbufm_read_iter :: "cbufm \<Rightarrow> nat \<Rightarrow> nat \<Rightarrow> bytes \<times> nat" where
  "cbufm_read_iter m start len =
     (let w_off = (if m_write_ptr m < start then m_write_ptr m + m_size m else m_write_ptr m);
          possible = min (min (m_size m - start) (w_off - start)) len
      in if possible = 0 then ([], start)
         else (take possible (drop start (m_buffer m)),
               if start + possible = m_size m then 0 else start + possible))"

function cbufm_read :: "cbufm \<Rightarrow> nat \<Rightarrow> nat \<Rightarrow> bytes \<times> nat \<times> nat" where
  "cbufm_read m start len =
     (if len = 0 then ([], start, 0)
      else case cbufm_read_iter m start len of
             (out, start') \<Rightarrow>
               if out = [] then ([], start', len)
               else (case cbufm_read m start' (len - length out) of (out', s'', rem) \<Rightarrow> (out @ out', s'', rem)))"
  by pat_completeness auto
termination
  by (relation "measure (\<lambda>(m, start, len). len)") auto

declare cbufm_read.simps [simp del]

definition cbufm_write_iter :: "cbufm \<Rightarrow> bytes \<Rightarrow> nat \<times> cbufm" where
  "cbufm_write_iter m src =
     (let amnt = min (m_size m - m_write_ptr m) (length src);
          wp = m_write_ptr m + amnt
      in (amnt, m\<lparr>m_buffer := blit (m_buffer m) (m_write_ptr m) (take amnt src),
                  m_write_ptr := (if wp = m_size m then 0 else wp)\<rparr>))"

text \<open>
  The loop of \<open>cbufm_write\<close> is under the spinlock as a whole. With a write pointer at the size of
  the buffer it would not advance; the guard on \<open>amnt\<close> is for termination only.
\<close>

function cbufm_write :: "cbufm \<Rightarrow> bytes \<Rightarrow> cbufm" where
  "cbufm_write m src =
     (if src = [] then m
      else case cbufm_write_iter m src of
             (amnt, m') \<Rightarrow> if amnt = 0 then m' else cbufm_write m' (drop amnt src))"
  by pat_completeness auto
termination
  by (relation "measure (\<lambda>(m, src). length src)") auto

declare cbufm_write.simps [simp del]

definition cbufm_sync :: "cbufm \<Rightarrow> nat" where
  "cbufm_sync m = m_write_ptr m"

definition cbufm_available :: "cbufm \<Rightarrow> nat \<Rightarrow> nat" where
  "cbufm_available m start =
     (if start = m_write_ptr m then 0
      else if m_write_ptr m < start then (m_size m - start) + m_write_ptr m
      else m_write_ptr m - start)"

text \<open>\<open>cbufm_wait\<close> returns when something is available; \<open>False\<close> means that it waits on.\<close>

definition cbufm_wait :: "cbufm \<Rightarrow> nat \<Rightarrow> bool" where
  "cbufm_wait m start = (cbufm_available m start \<noteq> 0)"

section \<open>The buffer as one reader sees it\<close>

definition seen :: "cbufm \<Rightarrow> nat \<Rightarrow> cbuf" where
  "seen m start =
     \<lparr>write_ptr = m_write_ptr m, read_ptr = start, bsize = m_size m, buffer = m_buffer m\<rparr>"

definition cbufm_ok :: "cbufm \<Rightarrow> bool" where
  "cbufm_ok m \<longleftrightarrow> 1 < m_size m \<and> m_write_ptr m < m_size m \<and> length (m_buffer m) = m_size m"

definition unread :: "cbufm \<Rightarrow> nat \<Rightarrow> bytes" where
  "unread m start = contents (seen m start)"

lemma seen_ok: "cbufm_ok m \<Longrightarrow> start < m_size m \<Longrightarrow> cbuf_ok (seen m start)"
  by (simp add: cbufm_ok_def cbuf_ok_def seen_def)

lemma cbufm_available_seen: "cbufm_available m start = cbuf_available (seen m start)"
  by (simp add: cbufm_available_def cbuf_available_def seen_def Let_def)

lemma cbufm_read_iter_seen:
  assumes "cbufm_read_iter m start len = (out, start')"
  shows "cbuf_read_iter (seen m start) len = (out, seen m start')"
proof -
  define n where "n = read_possible (seen m start) len"
  have n: "min (min (m_size m - start)
      ((if m_write_ptr m < start then m_write_ptr m + m_size m else m_write_ptr m) - start)) len = n"
    unfolding n_def read_possible_def seen_def Let_def by simp
  have "cbufm_read_iter m start len = (if n = 0 then ([], start)
      else (take n (drop start (m_buffer m)), advance start n (m_size m)))"
    unfolding cbufm_read_iter_def Let_def n advance_def by simp
  then show ?thesis
    using assms unfolding cbuf_read_iter_def n_def [symmetric] Let_def
    by (cases "n = 0") (auto simp: seen_def)
qed

lemma cbufm_write_iter_seen:
  assumes "cbufm_ok m" and "start < m_size m" and "src \<noteq> []"
    and "cbuf_available (seen m start) + length src < m_size m"
    and "cbufm_write_iter m src = (n, m')"
  shows "cbuf_write_iter (seen m start) src = (n, seen m' start)" and "0 < n"
proof -
  define a where "a = min (m_size m - m_write_ptr m) (length src)"
  have w: "write_possible (seen m start) (length src) = a"
    using assms(1,2,4) unfolding a_def
    by (auto simp: write_possible_def cbuf_available_def seen_def cbufm_ok_def Let_def split: if_splits)
  have a: "0 < a" using assms(1,3) by (simp add: cbufm_ok_def a_def)
  have "n = a" and m': "m' = m\<lparr>m_buffer := blit (m_buffer m) (m_write_ptr m) (take a src),
      m_write_ptr := (if m_write_ptr m + a = m_size m then 0 else m_write_ptr m + a)\<rparr>"
    using assms(5) by (auto simp: cbufm_write_iter_def a_def Let_def)
  with a show "0 < n" by simp
  show "cbuf_write_iter (seen m start) src = (n, seen m' start)"
    using a unfolding cbuf_write_iter_def w m' \<open>n = a\<close> by (simp add: seen_def Let_def advance_def)
qed

lemma cbufm_write_iter_ok:
  "cbufm_ok m \<Longrightarrow> cbufm_write_iter m src = (n, m') \<Longrightarrow> cbufm_ok m' \<and> m_size m' = m_size m"
  by (auto simp: cbufm_write_iter_def cbufm_ok_def Let_def)

lemma cbufm_write_ok: "cbufm_ok m \<Longrightarrow> cbufm_ok (cbufm_write m src) \<and> m_size (cbufm_write m src) = m_size m"
proof (induction m src rule: cbufm_write.induct)
  case (1 m src)
  obtain n m' where it: "cbufm_write_iter m src = (n, m')" by fastforce
  show ?case
    using 1(2) 1(1) [OF _ it [symmetric]] cbufm_write_iter_ok [OF 1(2) it]
    by (subst (1 2) cbufm_write.simps) (simp add: it)
qed

lemma cbufm_write_unread:
  assumes "cbufm_ok m" and "start < m_size m" and "length (unread m start) + length src < m_size m"
  shows "unread (cbufm_write m src) start = unread m start @ src"
  using assms
proof (induction m src rule: cbufm_write.induct)
  case (1 m src)
  show ?case
  proof (cases "src = []")
    case True
    then show ?thesis by (simp add: cbufm_write.simps [of m "[]"])
  next
    case False
    obtain n m' where it: "cbufm_write_iter m src = (n, m')" by fastforce
    have w: "cbuf_write_iter (seen m start) src = (n, seen m' start)" and n: "0 < n"
      using cbufm_write_iter_seen [OF 1(2,3) False _ it] 1(4) by (simp_all add: unread_def)
    note step = cbuf_write_iter_ok [OF seen_ok [OF 1(2,3)] w]
    note ok' = cbufm_write_iter_ok [OF 1(2) it]
    have u: "unread m' start = unread m start @ take n src" using step(2) by (simp add: unread_def)
    then have "unread (cbufm_write m' (drop n src)) start = unread m' start @ drop n src"
      using 1(1) [OF False it [symmetric]] n ok' 1(3,4) step(3) by simp
    then show ?thesis
      using False n u by (subst cbufm_write.simps) (simp add: it)
  qed
qed

lemma cbufm_read_seen:
  "cbufm_read m start len = (out, start', rem) \<Longrightarrow> cbuf_read (seen m start) len = (out, seen m start', rem)"
proof (induction len arbitrary: start out start' rem rule: less_induct)
  case (less len)
  show ?case
  proof (cases "len = 0")
    case True
    with less(2) show ?thesis by (simp add: cbufm_read.simps [of m start 0])
  next
    case len: False
    obtain o1 s1 where it: "cbufm_read_iter m start len = (o1, s1)" by fastforce
    note it' = cbufm_read_iter_seen [OF it]
    show ?thesis
    proof (cases "o1 = []")
      case True
      with less(2) len it have "out = []" "start' = s1" "rem = len"
        by (simp_all add: cbufm_read.simps [of m start len])
      with cbuf_read_block [of len "seen m start"] it' True len show ?thesis by simp
    next
      case False
      obtain o2 s2 r2 where rec: "cbufm_read m s1 (len - length o1) = (o2, s2, r2)"
        by (rule prod_cases3)
      have eq: "out = o1 @ o2" "start' = s2" "rem = r2"
        using less(2) len it rec False by (simp_all add: cbufm_read.simps [of m start len])
      have "len - length o1 < len" using False len by simp
      from cbuf_read_rec [OF _ it' False less(1) [OF this rec]] len show ?thesis by (simp add: eq)
    qed
  qed
qed

section \<open>Properties\<close>

text \<open>Single bytes.\<close>

lemma cbufm_write_single:
  assumes "cbufm_ok m"
  shows "cbufm_write m [a] = m\<lparr>m_buffer := (m_buffer m)[m_write_ptr m := a],
    m_write_ptr := (if m_write_ptr m + 1 = m_size m then 0 else m_write_ptr m + 1)\<rparr>"
proof -
  have "1 \<le> m_size m - m_write_ptr m" using assms by (auto simp: cbufm_ok_def)
  then have "min (m_size m - m_write_ptr m) 1 = 1" by (rule min_absorb2)
  then show ?thesis using assms
    by (simp add: cbufm_write.simps [of m "[a]"] cbufm_write_iter_def Let_def cbufm_write.simps [of _ "[]"] cbufm_ok_def blit_def upd_conv_take_nth_drop)
qed

lemma read_one:
  assumes "cbufm_ok m" and "p < m_size m" and "unread m p = x # rest"
  shows "cbufm_read m p 1 = ([x], if p + 1 = m_size m then 0 else p + 1, 0)"
    and "unread m (if p + 1 = m_size m then 0 else p + 1) = rest"
proof -
  obtain out q rem where r: "cbufm_read m p 1 = (out, q, rem)" by (rule prod_cases3)
  note sp = cbuf_read_spec [OF seen_ok [OF assms(1,2)] cbufm_read_seen [OF r]]
  have out: "out = [x]" "rem = 0" "unread m q = rest"
    using sp assms(3) by (auto simp: unread_def length_Suc_conv)
  obtain o1 q1 where it: "cbufm_read_iter m p 1 = (o1, q1)" by fastforce
  have "o1 \<noteq> []" using r out it by (auto simp: cbufm_read.simps [of m p "Suc 0"])
  then have q1: "q1 = (if p + 1 = m_size m then 0 else p + 1)" "length o1 = 1"
    using it assms(1,2) by (auto simp: cbufm_read_iter_def Let_def cbufm_ok_def min_def split: if_splits)
  then have "q = q1" using r it \<open>o1 \<noteq> []\<close> by (simp add: cbufm_read.simps [of m p "Suc 0"] cbufm_read.simps [of m _ 0])
  then show "cbufm_read m p 1 = ([x], if p + 1 = m_size m then 0 else p + 1, 0)"
    and "unread m (if p + 1 = m_size m then 0 else p + 1) = rest" using r out q1(1) by simp_all
qed


text \<open>A reader can take at once what is unread for it, and then has seen everything.\<close>

lemma read_unread:
  assumes "cbufm_ok m" and "p < m_size m" and "unread m p = xs"
  shows "cbufm_available m p = length xs" and "cbufm_read m p (length xs) = (xs, cbufm_sync m, 0)"
proof -
  obtain out p' rem where r: "cbufm_read m p (length xs) = (out, p', rem)" by (rule prod_cases3)
  note sp = cbuf_read_spec [OF seen_ok [OF assms(1)] cbufm_read_seen [OF r]]
  have out: "out = xs" "rem = 0" "contents (seen m p') = []"
    using sp assms(2,3) by (auto simp: unread_def append_eq_conv_conj)
  have "cbuf_available (seen m p') = 0" "p' < m_size m"
    using out(3) sp assms(2) by (auto simp: contents_def cbuf_ok_def seen_def)
  then have "p' = cbufm_sync m"
    using assms(1) by (auto simp: cbuf_available_def seen_def cbufm_sync_def cbufm_ok_def Let_def split: if_splits)
  then show "cbufm_read m p (length xs) = (xs, cbufm_sync m, 0)" using r out by simp
  show "cbufm_available m p = length xs" using assms(3) by (metis cbufm_available_seen length_contents unread_def)
qed

lemma unread_sync: "unread m (cbufm_sync m) = []"
  by (simp add: unread_def contents_def seen_def cbufm_sync_def cbuf_available_def)

text \<open>
  A reader that takes its position with \<open>cbufm_sync\<close> sees every byte written afterwards, in
  order, as long as fewer bytes than the size of the buffer are written before it reads: reading as
  many bytes as were written returns exactly those, without waiting, and leaves it synchronised.
\<close>

theorem cbufm_broadcast:
  assumes "cbufm_ok m" and "length src < m_size m"
  shows "cbufm_available (cbufm_write m src) (cbufm_sync m) = length src \<and>
    cbufm_read (cbufm_write m src) (cbufm_sync m) (length src) =
      (src, cbufm_sync (cbufm_write m src), 0)"
proof -
  let ?m = "cbufm_write m src" and ?s = "cbufm_sync m"
  have s: "?s < m_size m" using assms(1) by (simp add: cbufm_sync_def cbufm_ok_def)
  have u: "unread ?m ?s = src" using cbufm_write_unread [OF assms(1) s] assms(2) by (simp add: unread_sync)
  have ok: "cbufm_ok ?m" "m_size ?m = m_size m" using cbufm_write_ok [OF assms(1)] by auto
  show ?thesis using read_unread [OF ok(1) _ u] s ok(2) by simp
qed

theorem cbufm_broadcast_witness:
  "cbufm_read (cbufm_write (cbufm_create 4 [0, 0, 0, 0]) [7, 8, 9]) (cbufm_sync (cbufm_create 4 [0, 0, 0, 0])) 3 =
     ([7, 8, 9], cbufm_sync (cbufm_write (cbufm_create 4 [0, 0, 0, 0]) [7, 8, 9]), 0)"
  using cbufm_broadcast [of "cbufm_create 4 [0, 0, 0, 0]" "[7, 8, 9]"]
  by (simp add: cbufm_ok_def cbufm_create_def numeral_3_eq_3)

end
