(* ===== verification/Bitmap.thy ===== *)
theory Bitmap
  imports Aex_Prelude
begin

unbundle bit_operations_syntax

text \<open>
  Bitmaps kept in arrays of 32 bit words, as the frame allocator (\<^verbatim>\<open>mem/frame.c\<close>) and the heap
  (\<^verbatim>\<open>mem/pool.c\<close>) keep them, and the search for a run of clear bits both of them make.
\<close>

section \<open>Bits\<close>

definition occ :: "u32 list \<Rightarrow> nat \<Rightarrow> bool" where
  "occ b i = bit (b ! (i div 32)) (i mod 32)"

definition set_occ :: "u32 list \<Rightarrow> nat \<Rightarrow> u32 list" where
  "set_occ b i = b[i div 32 := (b ! (i div 32)) OR push_bit (i mod 32) 1]"

definition clr_occ :: "u32 list \<Rightarrow> nat \<Rightarrow> u32 list" where
  "clr_occ b i = b[i div 32 := (b ! (i div 32)) AND NOT (push_bit (i mod 32) 1)]"

lemma length_set_occ [simp]: "length (set_occ b i) = length b"
  by (simp add: set_occ_def)

lemma length_clr_occ [simp]: "length (clr_occ b i) = length b"
  by (simp add: clr_occ_def)

lemma div_mod_32_eq: "(i::nat) div 32 = j div 32 \<Longrightarrow> i mod 32 = j mod 32 \<Longrightarrow> i = j"
  by (metis div_mult_mod_eq)

lemma bit_or_single: "n < 32 \<Longrightarrow> bit ((w::u32) OR 2 ^ k) n \<longleftrightarrow> bit w n \<or> n = k"
  by (auto simp: bit_simps)

lemma bit_and_not_single: "n < 32 \<Longrightarrow> bit ((w::u32) AND NOT (2 ^ k)) n \<longleftrightarrow> bit w n \<and> n \<noteq> k"
  by (auto simp: bit_simps)

lemma occ_set_occ: "i < 32 * length b \<Longrightarrow> occ (set_occ b i) j \<longleftrightarrow> occ b j \<or> j = i"
  by (cases "j div 32 = i div 32")
    (auto simp: occ_def set_occ_def bit_or_single dest: div_mod_32_eq)

lemma occ_clr_occ: "i < 32 * length b \<Longrightarrow> occ (clr_occ b i) j \<longleftrightarrow> occ b j \<and> j \<noteq> i"
  by (cases "j div 32 = i div 32")
    (auto simp: occ_def clr_occ_def bit_and_not_single dest: div_mod_32_eq)

lemma occ_replicate_0 [simp]: "i < 32 * n \<Longrightarrow> \<not> occ (replicate n 0) i"
  by (simp add: occ_def)

section \<open>The first run of free positions\<close>

text \<open>
  The search from position \<open>i\<close> with \<open>combo\<close> free positions just before it; the run that is
  being counted starts at \<open>i - combo\<close>.
\<close>

function run_search :: "(nat \<Rightarrow> bool) \<Rightarrow> nat \<Rightarrow> nat \<Rightarrow> nat \<Rightarrow> nat \<Rightarrow> nat option" where
  "run_search free n limit i combo =
     (if limit \<le> i then None
      else if free i
           then (if Suc combo = n then Some (i - combo) else run_search free n limit (Suc i) (Suc combo))
           else run_search free n limit (Suc i) 0)"
  by pat_completeness auto
termination
  by (relation "measure (\<lambda>(free, n, limit, i, combo). limit - i)") auto

declare run_search.simps [simp del]

definition first_run :: "(nat \<Rightarrow> bool) \<Rightarrow> nat \<Rightarrow> nat \<Rightarrow> nat option \<Rightarrow> bool" where
  "first_run free n limit r \<longleftrightarrow>
     (case r of
        Some s \<Rightarrow> s + n \<le> limit \<and> (\<forall>j. s \<le> j \<and> j < s + n \<longrightarrow> free j) \<and>
          (\<forall>s' < s. \<exists>j. s' \<le> j \<and> j < s' + n \<and> \<not> free j)
      | None \<Rightarrow> \<forall>s. s + n \<le> limit \<longrightarrow> (\<exists>j. s \<le> j \<and> j < s + n \<and> \<not> free j))"

lemma run_search_first_run:
  assumes "combo < n" and "combo \<le> i" and "i \<le> limit"
    and "\<forall>j. i - combo \<le> j \<and> j < i \<longrightarrow> free j"
    and "\<forall>s < i - combo. \<exists>j. s \<le> j \<and> j < s + n \<and> \<not> free j"
  shows "first_run free n limit (run_search free n limit i combo)"
  using assms
proof (induction free n limit i combo rule: run_search.induct)
  case (1 free n limit i combo)
  show ?case
  proof (cases "limit \<le> i")
    case True
    then have "\<exists>j. s \<le> j \<and> j < s + n \<and> \<not> free j" if "s + n \<le> limit" for s
      using that 1(3-5,7) by auto
    with True show ?thesis by (simp add: run_search.simps [of free n limit i] first_run_def)
  next
    case lim: False
    show ?thesis
    proof (cases "free i")
      case True
      have run: "free j" if "i - combo \<le> j" "j < Suc i" for j
        using that 1(6) True by (cases "j = i") auto
      show ?thesis
      proof (cases "Suc combo = n")
        case fin: True
        have "free j" if "i - combo \<le> j" "j < i - combo + n" for j
          using that fin 1(4) by (intro run) auto
        with fin True lim 1(4,7) show ?thesis
          by (auto simp: run_search.simps [of free n limit i] first_run_def)
      next
        case False
        have "first_run free n limit (run_search free n limit (Suc i) (Suc combo))"
          using False lim True 1(3,4,7) run by (intro 1(1)) auto
        with False lim True show ?thesis by (simp add: run_search.simps [of free n limit i])
      qed
    next
      case False
      have "\<exists>j. s \<le> j \<and> j < s + n \<and> \<not> free j" if "s < Suc i" for s
      proof (cases "s < i - combo")
        case True
        then show ?thesis using 1(7) by blast
      next
        case s: False
        then show ?thesis using that 1(3) False by (intro exI [of _ i]) auto
      qed
      then have "first_run free n limit (run_search free n limit (Suc i) 0)"
        using False lim 1(3) by (intro 1(2)) auto
      with False lim show ?thesis by (simp add: run_search.simps [of free n limit i])
    qed
  qed
qed

lemma run_search_0: "0 < n \<Longrightarrow> first_run free n limit (run_search free n limit 0 0)"
  by (rule run_search_first_run) auto

end
