(* ===== verification/Pool.thy ===== *)
theory Pool
  imports Bitmap
begin

unbundle bit_operations_syntax

text \<open>
  \<^verbatim>\<open>mem/pool.c\<close>: the kernel heap. A pool has a bitmap with one bit per piece of 16 bytes and
  a data area; a block is a run of pieces whose first piece holds the block header. The chain of
  pools is a list, an address is a natural number, the data area a byte list. Sizes and addresses are
  64 bit: sums on them are taken modulo \<open>2 ^ 64\<close>. The counters of a pool and of a block header
  are \<open>uint32_t\<close>: they and their products with \<open>POOL_PIECE_SIZE\<close>, an \<open>int\<close>, are taken modulo
  \<open>2 ^ 32\<close>. The pages of a new pool come from \<open>kpalloc\<close>, which is an argument. Under the
  pool's spinlock every call is one step.
\<close>

section \<open>State\<close>

record pool =
  pieces :: nat
  free_pieces :: nat
  start :: nat
  bitmap :: "u32 list"
  mem :: bytes

definition POOL_PIECE_SIZE :: nat where "POOL_PIECE_SIZE = 16"
definition DEFAULT_POOL_SIZE :: nat where "DEFAULT_POOL_SIZE = 4096 * 256"

text \<open>\<open>sizeof(mem_pool_t)\<close> and \<open>offsetof(mem_pool_t, bitmap)\<close> on the x86-64 target.\<close>

definition SIZEOF_POOL :: nat where "SIZEOF_POOL = 64"
definition BITMAP_OFFSET :: nat where "BITMAP_OFFSET = 60"

definition floor_to_alignment :: "nat \<Rightarrow> nat" where
  "floor_to_alignment n = (n div POOL_PIECE_SIZE) * POOL_PIECE_SIZE"

definition ceil_to_alignment :: "nat \<Rightarrow> nat" where
  "ceil_to_alignment n = ((n + (POOL_PIECE_SIZE - 1)) mod 2 ^ 64 div POOL_PIECE_SIZE) * POOL_PIECE_SIZE"

definition kptopg :: "nat \<Rightarrow> nat" where "kptopg n = (n + 4095) mod 2 ^ 64 div 4096"
definition kpfrompg :: "nat \<Rightarrow> nat" where "kpfrompg n = n * 4096 mod 2 ^ 64"

text \<open>\<open>size_t\<close> subtraction, and the 32 bit product of a counter and the piece size.\<close>

definition sub64 :: "nat \<Rightarrow> nat \<Rightarrow> nat" where
  "sub64 a b = (a + (2 ^ 64 - b mod 2 ^ 64)) mod 2 ^ 64"

definition bytes32 :: "nat \<Rightarrow> nat" where
  "bytes32 n = n * POOL_PIECE_SIZE mod 2 ^ 32"

lemma sub64_eq: "b \<le> a \<Longrightarrow> a < 2 ^ 64 \<Longrightarrow> sub64 a b = a - b"
proof -
  assume b: "b \<le> a" "a < 2 ^ 64"
  then have "a + (2 ^ 64 - b mod 2 ^ 64) = (a - b) + 2 ^ 64" by simp
  then have "sub64 a b = (a - b) mod 2 ^ 64" unfolding sub64_def by (metis mod_add_self2)
  with b show "sub64 a b = a - b" by simp
qed

lemma wrap_sub: "b \<le> a \<Longrightarrow> a < 2 ^ 32 \<Longrightarrow> (a + (2 ^ 32 - b mod 2 ^ 32)) mod 2 ^ 32 = a - (b::nat)"
proof -
  assume b: "b \<le> a" "a < 2 ^ 32"
  then have "a + (2 ^ 32 - b mod 2 ^ 32) = (a - b) + 2 ^ 32" by simp
  then have "(a + (2 ^ 32 - b mod 2 ^ 32)) mod 2 ^ 32 = (a - b) mod 2 ^ 32" by (metis mod_add_self2)
  with b show ?thesis by simp
qed

lemma bytes32_eq: "n * 16 < 2 ^ 32 \<Longrightarrow> bytes32 n = n * 16"
  by (simp add: bytes32_def POOL_PIECE_SIZE_def)

lemma ceil_to_alignment_eq: "n + 15 < 2 ^ 64 \<Longrightarrow> ceil_to_alignment n = ((n + 15) div 16) * 16"
  by (simp add: ceil_to_alignment_def POOL_PIECE_SIZE_def)

text \<open>
  \<open>kmpool_create\<close> for the address \<open>ptr\<close> that \<open>kpalloc\<close> returned. \<open>memset\<close> clears whole
  bytes of the bitmap only; \<open>junk\<close> is what the page held at the place of a last, partial word. The
  length of the second \<open>memset\<close> is a 32 bit product; \<open>dirty\<close> is what the pages held in the data
  area.
\<close>

definition kmpool_create :: "nat \<Rightarrow> nat \<Rightarrow> u32 \<Rightarrow> (nat \<Rightarrow> u8) \<Rightarrow> pool" where
  "kmpool_create sz0 ptr junk dirty =
     (let sz = (sz0 + sz0 mod (POOL_PIECE_SIZE * 2)) mod 2 ^ 64;
          npieces = sz div POOL_PIECE_SIZE;
          required_size = (sz + SIZEOF_POOL) mod 2 ^ 64;
          actual_size = (sub64 (kpfrompg (kptopg required_size)) SIZEOF_POOL div POOL_PIECE_SIZE) * POOL_PIECE_SIZE;
          remaining_size = floor_to_alignment (sub64 actual_size (npieces div 8));
          n = (remaining_size div POOL_PIECE_SIZE) mod 2 ^ 32
      in \<lparr>pieces = n, free_pieces = n,
          start = ceil_to_alignment ((ptr + SIZEOF_POOL + npieces div 8) mod 2 ^ 64),
          bitmap = replicate (n div 32) 0 @
            (if n mod 32 = 0 then [] else [junk AND NOT (mask (8 * ((n div 8) mod 4)))]),
          mem = replicate (bytes32 n) 0 @ map dirty [bytes32 n..<n * POOL_PIECE_SIZE]\<rparr>)"

section \<open>The bitmap loops\<close>

text \<open>\<open>find_space\<close>: \<open>w\<close> is the cached bitmap word, \<open>- 1\<close> stands for no start.\<close>

fun find_space_loop ::
    "u32 list \<Rightarrow> nat \<Rightarrow> nat \<Rightarrow> nat \<Rightarrow> nat \<Rightarrow> u32 \<Rightarrow> int \<Rightarrow> nat \<Rightarrow> int res" where
  "find_space_loop b n 0 idx bt w st combo = Inr (- 1)"
| "find_space_loop b n (Suc remaining) idx bt w st combo =
     bindR (if 32 \<le> bt then mapR (\<lambda>w'. (Suc idx, 0, w')) (nthR b (Suc idx)) else Inr (idx, bt, w))
       (\<lambda>(idx, bt, w).
          if bit w bt then find_space_loop b n remaining idx (Suc bt) w (- 1) 0
          else let st' = (if st = - 1 then int (idx * 32 + bt) else st)
               in if Suc combo = n then Inr st'
                  else find_space_loop b n remaining idx (Suc bt) w st' (Suc combo))"

definition find_space :: "pool \<Rightarrow> nat \<Rightarrow> int res" where
  "find_space p piece_amount =
     (if piece_amount = 0 then Inr (- 1)
      else bindR (nthR (bitmap p) 0)
             (\<lambda>w. find_space_loop (bitmap p) piece_amount (pieces p) 0 0 w (- 1) 0))"

text \<open>\<open>set_pieces\<close>: the cached word is written back when the index moves on and at the end.\<close>

fun set_pieces_loop :: "bool \<Rightarrow> nat \<Rightarrow> nat \<Rightarrow> nat \<Rightarrow> u32 \<Rightarrow> u32 list \<Rightarrow> u32 list res" where
  "set_pieces_loop occupied 0 idx bt w b = updR b idx w"
| "set_pieces_loop occupied (Suc amount) idx bt w b =
     bindR (if 32 \<le> bt
            then bindR (updR b idx w) (\<lambda>b'. mapR (\<lambda>w'. (Suc idx, 0, w', b')) (nthR b' (Suc idx)))
            else Inr (idx, bt, w, b))
       (\<lambda>(idx, bt, w, b).
          if occupied
          then (if bit w bt then Inl (Panic ''mempool: Attempt to occupy an already-occupied piece'')
                else set_pieces_loop occupied amount idx (Suc bt) (w OR push_bit bt 1) b)
          else (if \<not> bit w bt then Inl (Panic ''mempool: Attempt to free an already-freed piece'')
                else set_pieces_loop occupied amount idx (Suc bt) (w AND NOT (push_bit bt 1)) b))"

definition set_pieces :: "pool \<Rightarrow> nat \<Rightarrow> nat \<Rightarrow> bool \<Rightarrow> pool res" where
  "set_pieces p starting_piece amount occupied =
     (if amount = 0 then Inr p
      else bindR (nthR (bitmap p) (starting_piece div 32))
             (\<lambda>w. mapR (\<lambda>b. p\<lparr>bitmap := b\<rparr>)
                (set_pieces_loop occupied amount (starting_piece div 32) (starting_piece mod 32) w (bitmap p))))"

section \<open>Blocks\<close>

text \<open>
  The header \<open>_kmalloc\<close> stores: \<open>wasted_size = 0\<close>, \<open>uses = 1\<close>, \<open>cookie = 0xD6A4\<close>,
  \<open>start_piece\<close>, \<open>pieces\<close>.
\<close>

definition header :: "nat \<Rightarrow> nat \<Rightarrow> bytes" where
  "header start_piece n = [0, 1, 0xA4, 0xD6] @ le32 start_piece @ le32 n"

definition addr_to_piece :: "pool \<Rightarrow> nat \<Rightarrow> nat" where
  "addr_to_piece p addr = (addr - start p) div POOL_PIECE_SIZE"

fun find_parent :: "nat \<Rightarrow> pool list \<Rightarrow> nat option" where
  "find_parent addr [] = None"
| "find_parent addr (p # ps) =
     (if start p \<le> addr \<and> addr - start p \<le> bytes32 (pieces p) then Some 0
      else map_option Suc (find_parent addr ps))"

definition get_block_from_ext_addr :: "nat \<Rightarrow> nat" where
  "get_block_from_ext_addr addr = floor_to_alignment addr - POOL_PIECE_SIZE"

text \<open>
  What \<open>_kmalloc\<close> does once \<open>find_space\<close> found room: occupy the pieces, check that they are
  blank, store the header, return the address behind it.
\<close>

definition take_block :: "pool \<Rightarrow> nat \<Rightarrow> nat \<Rightarrow> (nat \<times> pool) res" where
  "take_block p sp n =
     bindR (set_pieces p sp n True) (\<lambda>p1.
       let p2 = p1\<lparr>free_pieces := (free_pieces p1 + (2 ^ 32 - n mod 2 ^ 32)) mod 2 ^ 32\<rparr>
       in if \<exists>x \<in> set (take (n * POOL_PIECE_SIZE) (drop (sp * POOL_PIECE_SIZE) (mem p2))). x \<noteq> 0
          then Inl (Panic ''not blank'')
          else Inr (start p2 + (sp + 1) * POOL_PIECE_SIZE,
                    p2\<lparr>mem := blit (mem p2) (sp * POOL_PIECE_SIZE) (header sp (n - 1))\<rparr>))"

text \<open>
  The loop of \<open>_kmalloc\<close> at pool number \<open>k\<close> of the chain. When it moves on it takes the lock
  of the successor of the pool it moves to, which is a null pointer access when that pool is the last
  one, and so also when the chain ended and \<open>kmpool_create\<close> has just appended it.
\<close>

function kmalloc_loop :: "pool list \<Rightarrow> nat \<Rightarrow> int \<Rightarrow> nat \<Rightarrow> (nat \<times> pool list) res" where
  "kmalloc_loop ps k starting n =
     (if length ps \<le> k then Inl NullDeref
      else if free_pieces (ps ! k) < n \<or> starting = - 1
      then (if Suc (Suc k) < length ps
            then bindR (find_space (ps ! Suc k) n) (\<lambda>sp.
                   if sp = - 1 then kmalloc_loop ps (Suc k) (- 1) n
                   else mapR (\<lambda>(a, p'). (a, ps[Suc k := p'])) (take_block (ps ! Suc k) (nat sp) n))
            else Inl NullDeref)
      else bindR (find_space (ps ! k) n) (\<lambda>sp.
             if sp = - 1 then kmalloc_loop ps k (- 1) n
             else mapR (\<lambda>(a, p'). (a, ps[k := p'])) (take_block (ps ! k) (nat sp) n)))"
  by pat_completeness auto
termination
  by (relation "measure (\<lambda>(ps, k, starting, n). 2 * (length ps - k) + (if starting = - 1 then 0 else 1))") auto

declare kmalloc_loop.simps [simp del]

text \<open>The null pointer is address 0.\<close>

definition kmalloc' :: "nat \<Rightarrow> pool list \<Rightarrow> (nat \<times> pool list) res" where
  "kmalloc' sz ps =
     (if sz = 0 then Inr (0, ps)
      else kmalloc_loop ps 0 0 (ceil_to_alignment sz div POOL_PIECE_SIZE + ceil_to_alignment 12 div POOL_PIECE_SIZE))"

definition kmalloc :: "nat \<Rightarrow> pool list \<Rightarrow> (nat \<times> pool list) res" where
  "kmalloc sz ps = kmalloc' sz ps"

text \<open>
  Loads and stores of bytes at an address of the heap: the pool whose data area holds the address, and
  an access outside of it is an error of its own.
\<close>

fun pool_at :: "nat \<Rightarrow> pool list \<Rightarrow> nat option" where
  "pool_at addr [] = None"
| "pool_at addr (p # ps) =
     (if start p \<le> addr \<and> addr - start p \<le> length (mem p) then Some 0
      else map_option Suc (pool_at addr ps))"

definition heap_write :: "nat \<Rightarrow> bytes \<Rightarrow> pool list \<Rightarrow> pool list res" where
  "heap_write addr bs ps =
     (case pool_at addr ps of
        None \<Rightarrow> Inl OutOfBounds
      | Some k \<Rightarrow> let p = ps ! k; off = addr - start p
                  in if off + length bs \<le> length (mem p)
                     then Inr (ps[k := p\<lparr>mem := blit (mem p) off bs\<rparr>]) else Inl OutOfBounds)"

definition heap_read :: "nat \<Rightarrow> nat \<Rightarrow> pool list \<Rightarrow> bytes res" where
  "heap_read addr n ps =
     (case pool_at addr ps of
        None \<Rightarrow> Inl OutOfBounds
      | Some k \<Rightarrow> let p = ps ! k; off = addr - start p
                  in if off + n \<le> length (mem p) then Inr (take n (drop off (mem p))) else Inl OutOfBounds)"

definition kzmalloc :: "nat \<Rightarrow> pool list \<Rightarrow> (nat \<times> pool list) res" where
  "kzmalloc sz ps =
     bindR (kmalloc' sz ps) (\<lambda>(addr, ps').
       if sz = 0 then Inr (addr, ps')
       else mapR (\<lambda>ps''. (addr, ps'')) (heap_write addr (replicate sz 0) ps'))"

definition kfree' :: "nat \<Rightarrow> pool list \<Rightarrow> pool list res" where
  "kfree' space ps =
     (if space = 0 then Inr ps
      else let block = get_block_from_ext_addr space
           in case find_parent block ps of
                None \<Rightarrow> Inl NullDeref
              | Some k \<Rightarrow>
                  let p = ps ! k; off = block - start p;
                      n = (un32 (take 4 (drop (off + 8) (mem p))) + 1) mod 2 ^ 32
                  in if length (mem p) < off + 12 then Inl OutOfBounds
                     else bindR (set_pieces p (addr_to_piece p block) n False)
                       (\<lambda>p1. if length (mem p1) < off + bytes32 n then Inl OutOfBounds
                              else Inr (ps[k := p1\<lparr>free_pieces := (free_pieces p1 + n) mod 2 ^ 32,
                                                  mem := blit (mem p1) off (replicate (bytes32 n) 0)\<rparr>])))"

definition kfree :: "nat \<Rightarrow> pool list \<Rightarrow> pool list res" where
  "kfree space ps = kfree' space ps"

definition krealloc' :: "nat \<Rightarrow> nat \<Rightarrow> pool list \<Rightarrow> (nat \<times> pool list) res" where
  "krealloc' space sz ps =
     (if space = 0 then (if sz = 0 then Inr (0, ps) else kmalloc' sz ps)
      else if sz = 0 then mapR (\<lambda>ps'. (0, ps')) (kfree' space ps)
      else bindR (heap_read (get_block_from_ext_addr space + 8) 4 ps) (\<lambda>w.
             let oldsize = bytes32 (un32 w)
             in bindR (kmalloc' sz ps) (\<lambda>(new, ps1).
                bindR (heap_read space (if sz < oldsize then sz else oldsize) ps1) (\<lambda>bs.
                bindR (heap_write new bs ps1) (\<lambda>ps2.
                mapR (\<lambda>ps3. (new, ps3)) (kfree' space ps2))))))"

definition krealloc :: "nat \<Rightarrow> nat \<Rightarrow> pool list \<Rightarrow> (nat \<times> pool list) res" where
  "krealloc space sz ps = krealloc' space sz ps"

text \<open>\<open>verify_pools\<close>: every free piece of the first pool is blank, or the kernel panics.\<close>

definition verify_pools :: "pool list \<Rightarrow> unit res" where
  "verify_pools ps =
     (case ps of [] \<Rightarrow> Inl NullDeref
      | p # _ \<Rightarrow>
          if \<forall>i < pieces p. \<not> occ (bitmap p) i \<longrightarrow>
               (\<forall>x \<in> set (take POOL_PIECE_SIZE (drop (i * POOL_PIECE_SIZE) (mem p))). x = 0)
          then Inr () else Inl (Panic ''mem corrupted''))"

section \<open>The bitmap loops refine the abstract search and marking\<close>

lemma find_space_loop_run:
  assumes "length b * 32 \<ge> limit" and "i = idx * 32 + bt" and "bt \<le> 32" and "idx < length b"
    and "w = b ! idx" and "i + remaining = limit" and "combo \<le> i" and "combo < n"
    and "st = (if combo = 0 then - 1 else int (i - combo))"
  shows "find_space_loop b n remaining idx bt w st combo =
    Inr (case run_search (\<lambda>j. \<not> occ b j) n limit i combo of None \<Rightarrow> - 1 | Some s \<Rightarrow> int s)"
  using assms
proof (induction remaining arbitrary: i idx bt w st combo)
  case 0
  then show ?case by (simp add: run_search.simps)
next
  case (Suc remaining)
  define idx' bt' where "idx' = (if 32 \<le> bt then Suc idx else idx)" and "bt' = (if 32 \<le> bt then 0 else bt)"
  have bt': "bt' < 32" "i = idx' * 32 + bt'" using Suc.prems by (auto simp: idx'_def bt'_def)
  have lim: "i < limit" using Suc.prems(6) by simp
  then have idx': "idx' < length b" using bt' Suc.prems(1) by linarith
  have step: "(if 32 \<le> bt then mapR (\<lambda>w'. (Suc idx, 0, w')) (nthR b (Suc idx)) else Inr (idx, bt, w)) =
    Inr (idx', bt', b ! idx')"
    using idx' Suc.prems(5) by (auto simp: idx'_def bt'_def)
  have o: "occ b i = bit (b ! idx') bt'" using bt' by (simp add: occ_def)
  have i1: "Suc i = idx' * 32 + Suc bt'" using bt' by simp
  show ?case
  proof (cases "occ b i")
    case True
    have "find_space_loop b n remaining idx' (Suc bt') (b ! idx') (- 1) 0 =
      Inr (case run_search (\<lambda>j. \<not> occ b j) n limit (Suc i) 0 of None \<Rightarrow> - 1 | Some s \<Rightarrow> int s)"
      using Suc.prems bt' idx' i1 by (intro Suc.IH) auto
    with True o lim step show ?thesis by (simp add: run_search.simps [of _ n limit i])
  next
    case False
    have st': "(if st = - 1 then int (idx' * 32 + bt') else st) = int (i - combo)"
      using Suc.prems(9) bt' by auto
    have "find_space_loop b n remaining idx' (Suc bt') (b ! idx') (int (i - combo)) (Suc combo) =
      Inr (case run_search (\<lambda>j. \<not> occ b j) n limit (Suc i) (Suc combo) of None \<Rightarrow> - 1 | Some s \<Rightarrow> int s)"
      if "Suc combo \<noteq> n"
      using Suc.prems bt' idx' i1 that by (intro Suc.IH) auto
    with False o lim step st' show ?thesis by (simp add: run_search.simps [of _ n limit i] Let_def)
  qed
qed

lemma find_space_run:
  assumes "0 < n" and "0 < length (bitmap p)" and "pieces p \<le> 32 * length (bitmap p)"
  shows "find_space p n =
    Inr (case run_search (\<lambda>j. \<not> occ (bitmap p) j) n (pieces p) 0 0 of None \<Rightarrow> - 1 | Some s \<Rightarrow> int s)"
  using assms
  by (simp add: find_space_def find_space_loop_run [where i = 0 and limit = "pieces p" and combo = 0])

text \<open>Marking a run, one piece after the other, on the bitmap itself.\<close>

fun mark :: "bool \<Rightarrow> u32 list \<Rightarrow> nat \<Rightarrow> nat \<Rightarrow> u32 list res" where
  "mark v b i 0 = Inr b"
| "mark v b i (Suc n) =
     (if occ b i = v
      then Inl (Panic (if v then ''mempool: Attempt to occupy an already-occupied piece''
                       else ''mempool: Attempt to free an already-freed piece''))
      else mark v (if v then set_occ b i else clr_occ b i) (Suc i) n)"

lemma set_pieces_loop_mark:
  assumes "bt \<le> 32" and "i = idx * 32 + bt" and "idx < length b" and "i + amount \<le> 32 * length b"
  shows "set_pieces_loop v amount idx bt w b = mark v (b[idx := w]) i amount"
  using assms
proof (induction amount arbitrary: i idx bt w b)
  case 0
  then show ?case by simp
next
  case (Suc amount)
  define idx' bt' where "idx' = (if 32 \<le> bt then Suc idx else idx)" and "bt' = (if 32 \<le> bt then 0 else bt)"
  define b' where "b' = (if 32 \<le> bt then b[idx := w] else b)"
  define w' where "w' = (if 32 \<le> bt then b[idx := w] ! Suc idx else w)"
  have bt': "bt' < 32" "i = idx' * 32 + bt'" using Suc.prems by (auto simp: idx'_def bt'_def)
  have idx': "idx' < length b" using bt' Suc.prems(4) by linarith
  have step: "(if 32 \<le> bt
      then bindR (updR b idx w) (\<lambda>b'. mapR (\<lambda>w'. (Suc idx, 0, w', b')) (nthR b' (Suc idx)))
      else Inr (idx, bt, w, b)) = Inr (idx', bt', w', b')"
    using idx' Suc.prems(3) by (auto simp: idx'_def bt'_def b'_def w'_def)
  have B: "b'[idx' := w'] = b[idx := w]"
    unfolding b'_def w'_def idx'_def by (cases "32 \<le> bt") (simp_all only: if_True if_False list_update_id)
  have len: "length b' = length b" by (simp add: b'_def)
  have at: "(b[idx := w]) ! idx' = w'" using B idx' len by (metis nth_list_update_eq)
  have dm: "i div 32 = idx'" "i mod 32 = bt'" using bt' by auto
  have ow: "(b[idx := w])[idx' := x] = b'[idx' := x]" for x
    unfolding B [symmetric] by (rule list_update_overwrite)
  have o: "occ (b[idx := w]) i = bit w' bt'" unfolding occ_def dm at ..
  have upd: "set_occ (b[idx := w]) i = b'[idx' := w' OR push_bit bt' 1]"
      "clr_occ (b[idx := w]) i = b'[idx' := w' AND NOT (push_bit bt' 1)]"
    unfolding set_occ_def clr_occ_def dm at by (simp_all only: ow)
  have rec: "set_pieces_loop v amount idx' (Suc bt') x b' = mark v (b'[idx' := x]) (Suc i) amount" for x
    using Suc.prems bt' idx' len by (intro Suc.IH) auto
  show ?case
    unfolding set_pieces_loop.simps step bindR_simps prod.case mark.simps o upd rec by simp
qed

lemma mark_Inr:
  assumes "i + n \<le> 32 * length b" and "\<forall>j. i \<le> j \<and> j < i + n \<longrightarrow> occ b j \<noteq> v"
  shows "\<exists>b'. mark v b i n = Inr b' \<and> length b' = length b \<and>
    (\<forall>j. occ b' j = (if i \<le> j \<and> j < i + n then v else occ b j))"
  using assms
proof (induction n arbitrary: b i)
  case 0
  then show ?case by auto
next
  case (Suc n)
  let ?b = "if v then set_occ b i else clr_occ b i"
  have i: "occ b i \<noteq> v" using Suc.prems(2) by simp
  have ob: "occ ?b j = (if j = i then v else occ b j)" for j
    using Suc.prems(1) by (auto simp: occ_set_occ occ_clr_occ)
  have "Suc i + n \<le> 32 * length ?b" using Suc.prems(1) by simp
  moreover have "\<forall>j. Suc i \<le> j \<and> j < Suc i + n \<longrightarrow> occ ?b j \<noteq> v"
    using Suc.prems(2) unfolding ob by auto
  ultimately obtain b' where b': "mark v ?b (Suc i) n = Inr b'" "length b' = length b"
    "\<forall>j. occ b' j = (if Suc i \<le> j \<and> j < Suc i + n then v else occ ?b j)"
    using Suc.IH [of "Suc i" ?b] by auto
  have "occ b' j = (if i \<le> j \<and> j < i + Suc n then v else occ b j)" for j
    unfolding b'(3) [rule_format] ob by auto
  with b' i show ?case by auto
qed

lemma mark_Inl:
  assumes "i + n \<le> 32 * length b" and "i \<le> j" and "j < i + n" and "occ b j = v"
  shows "\<exists>e. mark v b i n = Inl (Panic e)"
  using assms
proof (induction n arbitrary: b i)
  case (Suc n)
  let ?b = "if v then set_occ b i else clr_occ b i"
  have ob: "occ ?b j = (if j = i then v else occ b j)" for j
    using Suc.prems(1) by (auto simp: occ_set_occ occ_clr_occ)
  show ?case
  proof (cases "occ b i = v")
    case False
    then have "Suc i \<le> j" using Suc.prems by (metis Suc_leI le_neq_implies_less)
    then have "\<exists>e. mark v ?b (Suc i) n = Inl (Panic e)"
      using Suc.prems ob [of j] by (intro Suc.IH) auto
    with False show ?thesis by simp
  qed simp
qed simp

lemma set_pieces_mark:
  assumes "0 < n" and "sp + n \<le> 32 * length (bitmap p)"
  shows "set_pieces p sp n v = mapR (\<lambda>b. p\<lparr>bitmap := b\<rparr>) (mark v (bitmap p) sp n)"
proof -
  have "sp div 32 < length (bitmap p)" using assms by (simp add: less_mult_imp_div_less)
  then show ?thesis
    using assms set_pieces_loop_mark [of "sp mod 32" sp "sp div 32" "bitmap p" n v "bitmap p ! (sp div 32)"]
    by (simp add: set_pieces_def)
qed

section \<open>Invariant\<close>

text \<open>
  \<open>heap_ok p B\<close>: the pool holds exactly the blocks \<open>B\<close>, pairs of a first piece and a number of
  pieces; they do not overlap, the bitmap marks their pieces and no others, each begins with its
  header, and every piece outside of them is blank. The pool is smaller than 4 GiB, so that the 32 bit
  products on its counters do not wrap, and lies inside the address space.
\<close>

definition in_block :: "nat \<Rightarrow> nat \<times> nat \<Rightarrow> bool" where
  "in_block i = (\<lambda>(sp, n). sp \<le> i \<and> i < sp + n)"

definition apart :: "nat \<times> nat \<Rightarrow> nat \<times> nat \<Rightarrow> bool" where
  "apart = (\<lambda>(s, n) (s', n'). s + n \<le> s' \<or> s' + n' \<le> s)"

definition pool_shape :: "pool \<Rightarrow> bool" where
  "pool_shape p \<longleftrightarrow> 0 < length (bitmap p) \<and> pieces p \<le> 32 * length (bitmap p) \<and> pieces p * 16 < 2 ^ 32 \<and>
     length (mem p) = pieces p * 16 \<and> start p mod 16 = 0 \<and> 0 < start p \<and> start p + pieces p * 16 < 2 ^ 64"

definition heap_ok :: "pool \<Rightarrow> (nat \<times> nat) set \<Rightarrow> bool" where
  "heap_ok p B \<longleftrightarrow> pool_shape p \<and>
     (\<forall>(sp, n) \<in> B. 0 < n \<and> sp + n \<le> pieces p \<and> take 12 (drop (sp * 16) (mem p)) = header sp (n - 1)) \<and>
     (\<forall>x \<in> B. \<forall>y \<in> B. x \<noteq> y \<longrightarrow> apart x y) \<and>
     (\<forall>i < pieces p. occ (bitmap p) i \<longleftrightarrow> (\<exists>x \<in> B. in_block i x)) \<and>
     (\<forall>k < length (mem p). \<not> occ (bitmap p) (k div 16) \<longrightarrow> mem p ! k = 0) \<and>
     free_pieces p = card {i. i < pieces p \<and> \<not> occ (bitmap p) i}"

lemma heap_ok_shape: "heap_ok p B \<Longrightarrow> pool_shape p"
  by (simp add: heap_ok_def)

lemma heap_ok_block:
  "heap_ok p B \<Longrightarrow> (sp, n) \<in> B \<Longrightarrow>
   0 < n \<and> sp + n \<le> pieces p \<and> take 12 (drop (sp * 16) (mem p)) = header sp (n - 1)"
  by (auto simp: heap_ok_def)

lemma heap_ok_occ: "heap_ok p B \<Longrightarrow> i < pieces p \<Longrightarrow> occ (bitmap p) i \<longleftrightarrow> (\<exists>x \<in> B. in_block i x)"
  by (simp add: heap_ok_def)

lemma heap_ok_blank: "heap_ok p B \<Longrightarrow> k < pieces p * 16 \<Longrightarrow> \<not> occ (bitmap p) (k div 16) \<Longrightarrow> mem p ! k = 0"
  by (simp add: heap_ok_def pool_shape_def)

lemma heap_ok_apart: "heap_ok p B \<Longrightarrow> x \<in> B \<Longrightarrow> y \<in> B \<Longrightarrow> x \<noteq> y \<Longrightarrow> apart x y"
  by (simp add: heap_ok_def)

lemma heap_ok_free_le: "heap_ok p B \<Longrightarrow> free_pieces p \<le> pieces p"
  using card_mono [of "{..<pieces p}" "{i. i < pieces p \<and> \<not> occ (bitmap p) i}"] by (auto simp: heap_ok_def)

lemma length_header [simp]: "length (header sp n) = 12"
  by (simp add: header_def le32_def)

lemma header_count: "un32 (take 4 (drop 8 (header sp n))) = n" if "n < 2 ^ 32"
  using un32_le32 [OF that] by (simp add: header_def le32_def)

lemma take_drop_blit_out:
  assumes "i + length ys \<le> length xs" and "a + n \<le> i \<or> i + length ys \<le> a" and "a + n \<le> length xs"
  shows "take n (drop a (blit xs i ys)) = take n (drop a xs)"
  using assms by (intro nth_equalityI) (auto simp: nth_blit)

lemma take_drop_blit_in:
  "i + length ys \<le> length xs \<Longrightarrow> take (length ys) (drop i (blit xs i ys)) = ys"
  by (simp add: blit_def)

lemma piece_of: "s * 16 \<le> k \<longleftrightarrow> s \<le> k div 16" "k < s * 16 \<longleftrightarrow> k div 16 < (s::nat)"
  by (simp_all add: less_eq_div_iff_mult_less_eq div_less_iff_less_mult)

text \<open>Taking a free run: the block appears, nothing else changes.\<close>

lemma take_block_ok:
  assumes ok: "heap_ok p B" and n: "0 < n" "sp + n \<le> pieces p"
    and free: "\<forall>j. sp \<le> j \<and> j < sp + n \<longrightarrow> \<not> occ (bitmap p) j"
  shows "\<exists>p'. take_block p sp n = Inr (start p + (sp + 1) * 16, p') \<and> heap_ok p' (insert (sp, n) B) \<and>
    start p' = start p \<and> pieces p' = pieces p \<and> mem p' = blit (mem p) (sp * 16) (header sp (n - 1))"
proof -
  note sh = heap_ok_shape [OF ok, unfolded pool_shape_def]
  obtain b where b: "mark True (bitmap p) sp n = Inr b" "length b = length (bitmap p)"
    "\<forall>j. occ b j = (if sp \<le> j \<and> j < sp + n then True else occ (bitmap p) j)"
    using mark_Inr [of sp n "bitmap p" True] sh n(2) free by auto
  have fits: "sp * 16 + 12 \<le> length (mem p)" "sp * 16 + n * 16 \<le> pieces p * 16" using n sh by auto
  have blank: "mem p ! k = 0" if "sp * 16 \<le> k" "k < (sp + n) * 16" for k
    using that free n by (intro heap_ok_blank [OF ok]) (auto simp: piece_of)
  have nb: "\<not> (\<exists>x \<in> set (take (n * 16) (drop (sp * 16) (mem p))). x \<noteq> 0)"
    using blank fits sh by (auto simp: in_set_conv_nth)
  define p' where "p' = p\<lparr>bitmap := b, free_pieces := free_pieces p - n,
    mem := blit (mem p) (sp * 16) (header sp (n - 1))\<rparr>"
  have mem': "mem p' = blit (mem p) (sp * 16) (header sp (n - 1))" by (simp add: p'_def)
  have "{sp..<sp + n} \<subseteq> {i. i < pieces p \<and> \<not> occ (bitmap p) i}" using free n by auto
  from card_mono [OF _ this] have le: "n \<le> free_pieces p" using ok by (simp add: heap_ok_def)
  have cnt32: "(free_pieces p + (2 ^ 32 - n mod 2 ^ 32)) mod 2 ^ 32 = free_pieces p - n"
    using le heap_ok_free_le [OF ok] sh by (intro wrap_sub) auto
  have tb: "take_block p sp n = Inr (start p + (sp + 1) * 16, p')"
    using n sh nb b(1) cnt32 by (simp add: take_block_def set_pieces_mark POOL_PIECE_SIZE_def p'_def Let_def)
  have new_apart: "apart (sp, n) x" if x: "x \<in> B" for x
  proof -
    obtain s m where sm: "x = (s, m)" by fastforce
    have m: "0 < m" "s + m \<le> pieces p" using heap_ok_block [OF ok] x sm by auto
    have "\<not> (s \<le> j \<and> j < s + m)" if "sp \<le> j" "j < sp + n" for j
      using heap_ok_occ [OF ok, of j] free that n x sm by (auto simp: in_block_def)
    from this [of sp] this [of s] have "sp + n \<le> s \<or> s + m \<le> sp" using n m by linarith
    then show ?thesis by (simp add: sm apart_def)
  qed
  have hdr: "take 12 (drop (s * 16) (mem p')) = header s (m - 1)" if "(s, m) \<in> insert (sp, n) B" for s m
  proof (cases "(s, m) = (sp, n)")
    case True
    then show ?thesis
      using take_drop_blit_in [of "sp * 16" "header sp (n - 1)" "mem p"] fits by (simp add: p'_def)
  next
    case False
    with that have x: "(s, m) \<in> B" by blast
    then have "take 12 (drop (s * 16) (mem p')) = take 12 (drop (s * 16) (mem p))"
      using new_apart [OF x] heap_ok_block [OF ok x] fits n sh unfolding mem'
      by (intro take_drop_blit_out) (auto simp: apart_def)
    with heap_ok_block [OF ok x] show ?thesis by simp
  qed
  have blank': "mem p' ! k = 0" if "k < length (mem p')" "\<not> occ b (k div 16)" for k
  proof -
    have k: "k < pieces p * 16" "\<not> (sp \<le> k div 16 \<and> k div 16 < sp + n)" "\<not> occ (bitmap p) (k div 16)"
      using that fits sh b(3) by (auto simp: p'_def split: if_splits)
    then have "\<not> (sp * 16 \<le> k \<and> k < sp * 16 + 12)" using n by auto
    then show ?thesis using heap_ok_blank [OF ok k(1,3)] fits k(1) sh by (auto simp: p'_def nth_blit)
  qed
  have cnt: "card {i. i < pieces p \<and> \<not> occ b i} = free_pieces p - n"
  proof -
    have "{i. i < pieces p \<and> \<not> occ b i} = {i. i < pieces p \<and> \<not> occ (bitmap p) i} - {sp..<sp + n}"
      using b(3) by auto
    moreover have "{sp..<sp + n} \<subseteq> {i. i < pieces p \<and> \<not> occ (bitmap p) i}" using free n by auto
    ultimately show ?thesis using ok by (simp add: card_Diff_subset heap_ok_def)
  qed
  have "heap_ok p' (insert (sp, n) B)"
    unfolding heap_ok_def
  proof (intro conjI)
    show "pool_shape p'" using sh b(2) fits by (simp add: pool_shape_def p'_def)
    show "\<forall>(s, m) \<in> insert (sp, n) B. 0 < m \<and> s + m \<le> pieces p' \<and>
        take 12 (drop (s * 16) (mem p')) = header s (m - 1)"
      using hdr heap_ok_block [OF ok] n by (auto simp: p'_def)
    show "\<forall>x \<in> insert (sp, n) B. \<forall>y \<in> insert (sp, n) B. x \<noteq> y \<longrightarrow> apart x y"
      using new_apart heap_ok_apart [OF ok] by (auto simp: apart_def)
    show "\<forall>i < pieces p'. occ (bitmap p') i \<longleftrightarrow> (\<exists>x \<in> insert (sp, n) B. in_block i x)"
      using heap_ok_occ [OF ok] b(3) by (auto simp: p'_def in_block_def)
    show "\<forall>k < length (mem p'). \<not> occ (bitmap p') (k div 16) \<longrightarrow> mem p' ! k = 0"
      using blank' by (simp add: p'_def)
    show "free_pieces p' = card {i. i < pieces p' \<and> \<not> occ (bitmap p') i}"
      using cnt by (simp add: p'_def)
  qed
  with tb show ?thesis by (auto simp: p'_def)
qed

text \<open>The size of the block \<open>_kmalloc\<close> takes for a request, header included.\<close>

definition block_pieces :: "nat \<Rightarrow> nat" where
  "block_pieces sz = (sz + 15) div 16 + 1"

lemma block_pieces_eq:
  "sz + 15 < 2 ^ 64 \<Longrightarrow>
   ceil_to_alignment sz div POOL_PIECE_SIZE + ceil_to_alignment 12 div POOL_PIECE_SIZE = block_pieces sz"
  by (simp add: block_pieces_def ceil_to_alignment_eq POOL_PIECE_SIZE_def)

lemma kmalloc_loop_single:
  assumes ok: "heap_ok p B" and n: "0 < n"
  shows "(\<exists>sp p'. kmalloc_loop [p] 0 0 n = Inr (start p + (sp + 1) * 16, [p']) \<and> sp + n \<le> pieces p \<and>
      (\<forall>j. sp \<le> j \<and> j < sp + n \<longrightarrow> \<not> occ (bitmap p) j) \<and> heap_ok p' (insert (sp, n) B) \<and>
      start p' = start p \<and> pieces p' = pieces p \<and> mem p' = blit (mem p) (sp * 16) (header sp (n - 1))) \<or>
    (kmalloc_loop [p] 0 0 n = Inl NullDeref \<and>
      (\<forall>s. s + n \<le> pieces p \<longrightarrow> (\<exists>j. s \<le> j \<and> j < s + n \<and> occ (bitmap p) j)))"
proof -
  note sh = heap_ok_shape [OF ok, unfolded pool_shape_def]
  let ?r = "run_search (\<lambda>j. \<not> occ (bitmap p) j) n (pieces p) 0 0"
  have fs: "find_space p n = Inr (case ?r of None \<Rightarrow> - 1 | Some s \<Rightarrow> int s)"
    using find_space_run [OF n] sh by simp
  have fr: "first_run (\<lambda>j. \<not> occ (bitmap p) j) n (pieces p) ?r" by (rule run_search_0 [OF n])
  have stuck: "kmalloc_loop [p] 0 (- 1) n = Inl NullDeref" by (simp add: kmalloc_loop.simps)
  show ?thesis
  proof (cases ?r)
    case None
    then have "kmalloc_loop [p] 0 0 n = Inl NullDeref"
      using fs stuck by (subst kmalloc_loop.simps) simp
    then show ?thesis using fr None by (simp add: first_run_def)
  next
    case (Some sp)
    then have sp: "sp + n \<le> pieces p" "\<forall>j. sp \<le> j \<and> j < sp + n \<longrightarrow> \<not> occ (bitmap p) j"
      using fr by (simp_all add: first_run_def)
    have "{sp..<sp + n} \<subseteq> {i. i < pieces p \<and> \<not> occ (bitmap p) i}" using sp by auto
    then have "n \<le> free_pieces p" using ok card_mono [of "{i. i < pieces p \<and> \<not> occ (bitmap p) i}" "{sp..<sp + n}"]
      by (simp add: heap_ok_def)
    moreover obtain p' where "take_block p sp n = Inr (start p + (sp + 1) * 16, p')"
      "heap_ok p' (insert (sp, n) B)" "start p' = start p" "pieces p' = pieces p"
      "mem p' = blit (mem p) (sp * 16) (header sp (n - 1))"
      using take_block_ok [OF ok n sp] by blast
    ultimately show ?thesis
      using sp fs Some by (intro disjI1 exI [of _ sp] exI [of _ p']) (simp add: kmalloc_loop.simps)
  qed
qed

lemma find_parent_single:
  "pool_shape p \<Longrightarrow> find_parent addr [p] =
     (if start p \<le> addr \<and> addr - start p \<le> pieces p * 16 then Some 0 else None)"
  by (simp add: bytes32_eq pool_shape_def)

lemma get_block_addr:
  "start p mod 16 = 0 \<Longrightarrow> get_block_from_ext_addr (start p + (sp + 1) * 16) = start p + sp * 16"
  by (auto simp: get_block_from_ext_addr_def floor_to_alignment_def POOL_PIECE_SIZE_def elim!: dvdE)

text \<open>Freeing a block: the bitmap, the counter and the memory are as if it had never been there.\<close>

lemma kfree_ok:
  assumes ok: "heap_ok p B" and blk: "(sp, n) \<in> B"
  shows "\<exists>p'. kfree' (start p + (sp + 1) * 16) [p] = Inr [p'] \<and> heap_ok p' (B - {(sp, n)}) \<and>
    start p' = start p \<and> pieces p' = pieces p \<and> mem p' = blit (mem p) (sp * 16) (replicate (n * 16) 0) \<and>
    (\<forall>j. occ (bitmap p') j \<longleftrightarrow> occ (bitmap p) j \<and> \<not> (sp \<le> j \<and> j < sp + n))"
proof -
  note sh = heap_ok_shape [OF ok, unfolded pool_shape_def]
  note b0 = heap_ok_block [OF ok blk]
  have fits: "sp * 16 + n * 16 \<le> pieces p * 16" using b0 by auto
  have busy: "\<forall>j. sp \<le> j \<and> j < sp + n \<longrightarrow> occ (bitmap p) j"
  proof (intro allI impI)
    fix j assume j: "sp \<le> j \<and> j < sp + n"
    then have "j < pieces p" "in_block j (sp, n)" using b0 by (auto simp: in_block_def)
    then show "occ (bitmap p) j" using heap_ok_occ [OF ok] blk by blast
  qed
  have room: "sp + n \<le> 32 * length (bitmap p)" using sh b0 by linarith
  obtain b where b: "mark False (bitmap p) sp n = Inr b" "length b = length (bitmap p)"
    "\<forall>j. occ b j = (if sp \<le> j \<and> j < sp + n then False else occ (bitmap p) j)"
    using mark_Inr [OF room, of False] busy by blast
  have "take 4 (drop (sp * 16 + 8) (mem p)) = take 4 (drop 8 (take 12 (drop (sp * 16) (mem p))))"
    by (simp add: drop_take add.commute)
  moreover have "n - 1 < 2 ^ 32" using b0 sh by linarith
  ultimately have cnt: "un32 (take 4 (drop (sp * 16 + 8) (mem p))) = n - 1"
    using b0 header_count [of "n - 1" sp] by simp
  define p' where "p' = p\<lparr>bitmap := b, free_pieces := free_pieces p + n,
    mem := blit (mem p) (sp * 16) (replicate (n * 16) 0)\<rparr>"
  have mem': "mem p' = blit (mem p) (sp * 16) (replicate (n * 16) 0)" by (simp add: p'_def)
  have gb: "get_block_from_ext_addr (start p + (sp + 1) * 16) = start p + sp * 16"
    using sh by (intro get_block_addr) simp
  have fp: "find_parent (start p + sp * 16) [p] = Some 0"
    using fits by (simp add: find_parent_single [OF heap_ok_shape [OF ok]] del: find_parent.simps)
  have ap: "addr_to_piece p (start p + sp * 16) = sp" by (simp add: addr_to_piece_def POOL_PIECE_SIZE_def)
  have sp: "set_pieces p sp n False = Inr (p\<lparr>bitmap := b\<rparr>)"
    using set_pieces_mark [of n sp p False] b0 sh b(1) by simp
  have n32: "(n - 1 + 1) mod 2 ^ 32 = n" using b0 sh by simp
  have bs: "bytes32 n = n * 16" using fits sh by (intro bytes32_eq) linarith
  have "{i. i < pieces p \<and> \<not> occ b i} = {i. i < pieces p \<and> \<not> occ (bitmap p) i} \<union> {sp..<sp + n}"
    using b(3) b0 by auto
  moreover have "{i. i < pieces p \<and> \<not> occ (bitmap p) i} \<inter> {sp..<sp + n} = {}" using busy by auto
  ultimately have cnt': "card {i. i < pieces p \<and> \<not> occ b i} = free_pieces p + n"
    using ok by (simp add: card_Un_disjoint heap_ok_def)
  have "card {i. i < pieces p \<and> \<not> occ b i} \<le> pieces p"
    using card_mono [of "{..<pieces p}" "{i. i < pieces p \<and> \<not> occ b i}"] by auto
  then have fr32: "(free_pieces p + n) mod 2 ^ 32 = free_pieces p + n" using cnt' sh by simp
  have kf: "kfree' (start p + (sp + 1) * 16) [p] = Inr [p']"
    using sh fp sp fits b0 fr32 unfolding kfree'_def gb
    by (simp add: Let_def ap p'_def cnt n32 bs del: find_parent.simps mult_Suc)
  have other: "apart (sp, n) x" if "x \<in> B - {(sp, n)}" for x
    using heap_ok_apart [OF ok blk, of x] that by auto
  have hdr: "take 12 (drop (s * 16) (mem p')) = header s (m - 1)" if "(s, m) \<in> B - {(sp, n)}" for s m
  proof -
    have x: "(s, m) \<in> B" using that by simp
    have "take 12 (drop (s * 16) (mem p')) = take 12 (drop (s * 16) (mem p))"
      using other [OF that] heap_ok_block [OF ok x] fits b0 sh unfolding mem'
      by (intro take_drop_blit_out) (auto simp: apart_def)
    with heap_ok_block [OF ok x] show ?thesis by simp
  qed
  have blank': "mem p' ! k = 0" if "k < length (mem p')" "\<not> occ b (k div 16)" for k
  proof -
    have k: "k < pieces p * 16" using that fits sh by (simp add: p'_def)
    show ?thesis
    proof (cases "sp * 16 \<le> k \<and> k < sp * 16 + n * 16")
      case True
      then have "k - sp * 16 < n * 16" by linarith
      with True show ?thesis using fits sh k by (simp add: p'_def nth_blit)
    next
      case False
      then have "\<not> (sp \<le> k div 16 \<and> k div 16 < sp + n)"
        by (metis add_mult_distrib piece_of)
      then have "\<not> occ (bitmap p) (k div 16)" using that(2) b(3) by auto
      with heap_ok_blank [OF ok k] False fits sh k show ?thesis by (auto simp: p'_def nth_blit)
    qed
  qed
  have "heap_ok p' (B - {(sp, n)})"
    unfolding heap_ok_def
  proof (intro conjI)
    show "pool_shape p'" using sh b(2) fits by (simp add: pool_shape_def p'_def)
    show "\<forall>(s, m) \<in> B - {(sp, n)}. 0 < m \<and> s + m \<le> pieces p' \<and>
        take 12 (drop (s * 16) (mem p')) = header s (m - 1)"
      using hdr heap_ok_block [OF ok] by (auto simp: p'_def)
    show "\<forall>x \<in> B - {(sp, n)}. \<forall>y \<in> B - {(sp, n)}. x \<noteq> y \<longrightarrow> apart x y"
      using heap_ok_apart [OF ok] by auto
    show "\<forall>i < pieces p'. occ (bitmap p') i \<longleftrightarrow> (\<exists>x \<in> B - {(sp, n)}. in_block i x)"
    proof (intro allI impI)
      fix i assume "i < pieces p'"
      then have i: "i < pieces p" by (simp add: p'_def)
      have "in_block i x \<longleftrightarrow> in_block i x \<and> \<not> (sp \<le> i \<and> i < sp + n)" if "x \<in> B - {(sp, n)}" for x
        using other [OF that] by (auto simp: in_block_def apart_def split: prod.splits)
      then show "occ (bitmap p') i \<longleftrightarrow> (\<exists>x \<in> B - {(sp, n)}. in_block i x)"
        using heap_ok_occ [OF ok i] b(3) by (auto simp: p'_def in_block_def)
    qed
    show "\<forall>k < length (mem p'). \<not> occ (bitmap p') (k div 16) \<longrightarrow> mem p' ! k = 0"
      using blank' by (simp add: p'_def)
    show "free_pieces p' = card {i. i < pieces p' \<and> \<not> occ (bitmap p') i}"
      using cnt' by (simp add: p'_def)
  qed
  with kf b(3) show ?thesis by (auto simp: p'_def)
qed

text \<open>A client that writes only inside the payload of a block it owns.\<close>

lemma heap_write_ok:
  assumes ok: "heap_ok p B" and blk: "(sp, n) \<in> B"
    and inside: "start p + (sp + 1) * 16 \<le> addr" "addr + length bs \<le> start p + (sp + n) * 16"
  shows "\<exists>p'. heap_write addr bs [p] = Inr [p'] \<and> heap_ok p' B \<and> start p' = start p \<and> pieces p' = pieces p \<and>
    mem p' = blit (mem p) (addr - start p) bs"
proof -
  note sh = heap_ok_shape [OF ok, unfolded pool_shape_def]
  note b0 = heap_ok_block [OF ok blk]
  define off where "off = addr - start p"
  have off: "sp * 16 + 16 \<le> off" "off + length bs \<le> (sp + n) * 16" using inside by (auto simp: off_def)
  have top: "(sp + n) * 16 \<le> pieces p * 16" using b0 by (intro mult_le_mono1) simp
  define p' where "p' = p\<lparr>mem := blit (mem p) off bs\<rparr>"
  have mem': "mem p' = blit (mem p) off bs" by (simp add: p'_def)
  have hw: "heap_write addr bs [p] = Inr [p']"
    using inside off top sh
    by (simp add: heap_write_def off_def [symmetric] p'_def Let_def)
  have hdr: "take 12 (drop (s * 16) (mem p')) = header s (m - 1)" if x: "(s, m) \<in> B" for s m
  proof -
    have "s * 16 + 12 \<le> off \<or> off + length bs \<le> s * 16"
    proof (cases "(s, m) = (sp, n)")
      case True
      then show ?thesis using off by simp
    next
      case False
      then have "s + m \<le> sp \<or> sp + n \<le> s" using heap_ok_apart [OF ok x blk] by (auto simp: apart_def)
      then show ?thesis using off heap_ok_block [OF ok x] by auto
    qed
    then have "take 12 (drop (s * 16) (mem p')) = take 12 (drop (s * 16) (mem p))"
      using heap_ok_block [OF ok x] off top sh unfolding mem' by (intro take_drop_blit_out) auto
    with heap_ok_block [OF ok x] show ?thesis by simp
  qed
  have blank': "mem p' ! k = 0" if "k < length (mem p')" "\<not> occ (bitmap p) (k div 16)" for k
  proof -
    have k: "k < pieces p * 16" using that off top sh by (simp add: mem')
    have "\<not> in_block (k div 16) (sp, n)" using heap_ok_occ [OF ok, of "k div 16"] k blk that(2)
      by (auto simp: piece_of)
    then have "\<not> (sp * 16 \<le> k \<and> k < (sp + n) * 16)" unfolding in_block_def piece_of by simp
    then have "\<not> (off \<le> k \<and> k < off + length bs)" using off by linarith
    then show ?thesis using heap_ok_blank [OF ok k that(2)] off top sh k by (auto simp: mem' nth_blit)
  qed
  have "heap_ok p' B"
    unfolding heap_ok_def
  proof (intro conjI)
    show "pool_shape p'" using sh off top by (simp add: pool_shape_def p'_def)
    show "\<forall>(s, m) \<in> B. 0 < m \<and> s + m \<le> pieces p' \<and> take 12 (drop (s * 16) (mem p')) = header s (m - 1)"
      using hdr heap_ok_block [OF ok] by (auto simp: p'_def)
    show "\<forall>k < length (mem p'). \<not> occ (bitmap p') (k div 16) \<longrightarrow> mem p' ! k = 0"
      using blank' by (simp add: p'_def)
  qed (use ok in \<open>simp_all add: heap_ok_def p'_def\<close>)
  with hw show ?thesis by (auto simp: p'_def off_def)
qed

section \<open>A new pool\<close>

lemma default_pool_pieces:
  "(floor_to_alignment (sub64 (sub64 (kpfrompg (kptopg
      (((DEFAULT_POOL_SIZE + DEFAULT_POOL_SIZE mod (POOL_PIECE_SIZE * 2)) mod 2 ^ 64 + SIZEOF_POOL) mod 2 ^ 64)))
      SIZEOF_POOL div POOL_PIECE_SIZE * POOL_PIECE_SIZE)
    ((DEFAULT_POOL_SIZE + DEFAULT_POOL_SIZE mod (POOL_PIECE_SIZE * 2)) mod 2 ^ 64 div POOL_PIECE_SIZE div 8))
    div POOL_PIECE_SIZE) mod 2 ^ 32 = 65276"
  by (simp add: DEFAULT_POOL_SIZE_def POOL_PIECE_SIZE_def SIZEOF_POOL_def kptopg_def kpfrompg_def
      floor_to_alignment_def sub64_def)

lemma kmpool_create_default:
  fixes junk :: u32 and dirty :: "nat \<Rightarrow> u8"
  assumes "4096 dvd ptr" and "0 < ptr" and "ptr + 2 ^ 21 < 2 ^ 64"
  defines "p \<equiv> kmpool_create DEFAULT_POOL_SIZE ptr junk dirty"
  shows "pieces p = 65276" and "start p = ptr + 64 + 8192" and "length (bitmap p) = 2040"
    and "\<And>i. i < 65272 \<Longrightarrow> \<not> occ (bitmap p) i"
    and "free_pieces p = 65276" and "mem p = replicate (65276 * 16) 0"
    and "bitmap p = replicate 2039 0 @ [junk AND NOT (mask 24)]"
proof -
  have a: "ceil_to_alignment (8256 + ptr) = 8256 + ptr"
  proof -
    obtain k where "ptr = 4096 * k" using assms(1) by (elim dvdE)
    then have "8256 + ptr + 15 = 15 + (516 + 256 * k) * 16" "8256 + ptr = (516 + 256 * k) * 16" by simp_all
    then show ?thesis using assms(3) by (simp add: ceil_to_alignment_eq del: distrib_right_numeral)
  qed
  define n where "n = (65276::nat)"
  have e: "p = \<lparr>pieces = n, free_pieces = n, start = ceil_to_alignment ((ptr + 64 + 8192) mod 2 ^ 64),
      bitmap = replicate (n div 32) 0 @
        (if n mod 32 = 0 then [] else [junk AND NOT (mask (8 * ((n div 8) mod 4)))]),
      mem = replicate (bytes32 n) 0 @ map dirty [bytes32 n..<n * POOL_PIECE_SIZE]\<rparr>"
    unfolding p_def kmpool_create_def Let_def default_pool_pieces n_def [symmetric]
    by (simp add: DEFAULT_POOL_SIZE_def POOL_PIECE_SIZE_def SIZEOF_POOL_def)
  have b: "bytes32 n = 65276 * 16" "n * POOL_PIECE_SIZE = 65276 * 16"
    by (simp_all add: n_def bytes32_def POOL_PIECE_SIZE_def)
  show "pieces p = 65276" "free_pieces p = 65276" unfolding e by (simp_all add: n_def)
  show "start p = ptr + 64 + 8192" unfolding e using a assms(3) by (simp add: add.commute)
  show "mem p = replicate (65276 * 16) 0" unfolding e b by simp
  show bm: "bitmap p = replicate 2039 0 @ [junk AND NOT (mask 24)]" unfolding e n_def by simp
  show "length (bitmap p) = 2040" unfolding bm by simp
  show "\<not> occ (bitmap p) i" if "i < 65272" for i
  proof (cases "i div 32 < 2039")
    case True
    then show ?thesis by (simp add: occ_def bm nth_append)
  next
    case False
    moreover have "i div 32 < 2040" using that by (simp add: less_mult_imp_div_less)
    ultimately have "i div 32 = 2039" by simp
    moreover from this have "i mod 32 < 24" using div_mult_mod_eq [of i 32] that by linarith
    ultimately have "i div 32 = 2039" "i mod 32 < 24" by simp_all
    then show ?thesis by (simp add: occ_def bm nth_append bit_simps)
  qed
qed

lemma kmpool_create_heap_ok:
  assumes "4096 dvd ptr" and "0 < ptr" and "ptr + 2 ^ 21 < 2 ^ 64"
  shows "heap_ok (kmpool_create DEFAULT_POOL_SIZE ptr 0 dirty) {}"
proof -
  let ?p = "kmpool_create DEFAULT_POOL_SIZE ptr 0 dirty"
  note d = kmpool_create_default [OF assms, where junk = 0 and dirty = dirty]
  have bm: "bitmap ?p = replicate 2040 0"
    using d(7) replicate_Suc [of 2039 "0::u32"] by (simp add: replicate_append_same)
  have occ0: "\<not> occ (bitmap ?p) i" if "i < 65276" for i
    unfolding bm using that by (intro occ_replicate_0) simp
  have "start ?p mod 16 = 0" using assms(1) unfolding d(2) by (auto elim!: dvdE)
  then have "pool_shape ?p" unfolding pool_shape_def d(1,3,6) using d(2) assms(3) by simp
  moreover have "card {i. i < (65276::nat) \<and> \<not> occ (bitmap ?p) i} = 65276"
  proof -
    have "{i. i < (65276::nat) \<and> \<not> occ (bitmap ?p) i} = {..<65276}" using occ0 by auto
    then show ?thesis by simp
  qed
  ultimately show ?thesis
    using occ0 unfolding heap_ok_def d(1,5,6) by simp
qed

section \<open>Properties\<close>

text \<open>
  C3: On a well-formed heap of one pool smaller than 4 GiB, for every size that rounding up to pieces
  does not wrap (less than \<open>2 ^ 64 - 15\<close>), \<open>kmalloc\<close> returns a 16 byte aligned address whose
  \<open>sz\<close> bytes are zero and lie in a new block that overlaps no block in use, and the heap stays well
  formed; none of its panics (\<open>not blank\<close>, already occupied piece) can happen. The only other
  outcome is the null pointer access described below, and only when no run of free pieces is long
  enough. What the sizes above the bound get is shown by \<open>kmalloc_wraps\<close> below.
\<close>

theorem kmalloc_correct:
  assumes "heap_ok p B" and "0 < sz" and "sz + 15 < 2 ^ 64"
  shows "case kmalloc sz [p] of
      Inr (addr, ps) \<Rightarrow> (\<exists>sp p'. ps = [p'] \<and> addr = start p + (sp + 1) * 16 \<and> 16 dvd addr \<and>
        heap_ok p' (insert (sp, block_pieces sz) B) \<and> (\<forall>x \<in> B. apart (sp, block_pieces sz) x) \<and>
        heap_read addr sz ps = Inr (replicate sz 0))
    | Inl e \<Rightarrow> e = NullDeref \<and> (\<forall>s. s + block_pieces sz \<le> pieces p \<longrightarrow>
        (\<exists>j. s \<le> j \<and> j < s + block_pieces sz \<and> occ (bitmap p) j))"
proof -
  have n: "0 < block_pieces sz" by (simp add: block_pieces_def)
  note sh = heap_ok_shape [OF assms(1), unfolded pool_shape_def]
  have km: "kmalloc sz [p] = kmalloc_loop [p] 0 0 (block_pieces sz)"
    using assms(2,3) by (simp add: kmalloc_def kmalloc'_def block_pieces_eq)
  consider (took) sp p' where "kmalloc sz [p] = Inr (start p + (sp + 1) * 16, [p'])"
      "sp + block_pieces sz \<le> pieces p" "\<forall>j. sp \<le> j \<and> j < sp + block_pieces sz \<longrightarrow> \<not> occ (bitmap p) j"
      "heap_ok p' (insert (sp, block_pieces sz) B)" "start p' = start p" "pieces p' = pieces p"
      "mem p' = blit (mem p) (sp * 16) (header sp (block_pieces sz - 1))"
    | (full) "kmalloc sz [p] = Inl NullDeref" "\<forall>s. s + block_pieces sz \<le> pieces p \<longrightarrow>
        (\<exists>j. s \<le> j \<and> j < s + block_pieces sz \<and> occ (bitmap p) j)"
    using kmalloc_loop_single [OF assms(1) n] unfolding km by blast
  then show ?thesis
  proof cases
    case took
    have al: "16 dvd start p + (sp + 1) * 16" using sh by (simp add: dvd_add mod_0_imp_dvd)
    have ap: "apart (sp, block_pieces sz) x" if x: "x \<in> B" for x
    proof (cases x)
      case (Pair s m)
      have "\<not> in_block j x" if "sp \<le> j" "j < sp + block_pieces sz" for j
        using took(2,3) that heap_ok_occ [OF assms(1), of j] x by auto
      from this [of sp] this [of s] have "sp + block_pieces sz \<le> s \<or> s + m \<le> sp"
        using n heap_ok_block [OF assms(1), of s m] x unfolding Pair in_block_def prod.case by linarith
      then show ?thesis by (simp add: Pair apart_def)
    qed
    have room: "(sp + 1) * 16 + sz \<le> (sp + block_pieces sz) * 16" by (simp add: block_pieces_def)
    have top: "(sp + block_pieces sz) * 16 \<le> pieces p * 16" using took(2) by (intro mult_le_mono1)
    have zero: "mem p' ! k = 0" if "(sp + 1) * 16 \<le> k" "k < (sp + 1) * 16 + sz" for k
    proof -
      have k: "k < (sp + block_pieces sz) * 16" using that room by linarith
      have "sp * 16 \<le> k" using that by simp
      then have "sp \<le> k div 16" "k div 16 < sp + block_pieces sz" using k unfolding piece_of by simp_all
      then have "mem p ! k = 0"
        using k top took(3) by (intro heap_ok_blank [OF assms(1)]) auto
      then show ?thesis using that k top sh by (simp add: took(7) nth_blit)
    qed
    have len: "length (mem p') = pieces p * 16" using heap_ok_shape [OF took(4)] took(6) by (simp add: pool_shape_def)
    have "heap_read (start p + (sp + 1) * 16) sz [p'] = Inr (take sz (drop ((sp + 1) * 16) (mem p')))"
      using room top len took(5,6) by (simp add: heap_read_def Let_def)
    also have "take sz (drop ((sp + 1) * 16) (mem p')) = replicate sz 0"
      using room top len zero by (intro nth_equalityI) auto
    finally show ?thesis using took(1,4) al ap by auto
  next
    case full
    then show ?thesis by simp
  qed
qed

lemma root_pool_ok: "heap_ok (kmpool_create DEFAULT_POOL_SIZE 4096 0 (\<lambda>_. 255)) {}"
  by (rule kmpool_create_heap_ok) simp_all

theorem kmalloc_correct_witness:
  "\<exists>addr ps. kmalloc 100 [kmpool_create DEFAULT_POOL_SIZE 4096 0 (\<lambda>_. 255)] = Inr (addr, ps) \<and> 16 dvd addr \<and>
     heap_read addr 100 ps = Inr (replicate 100 0)"
proof (cases "kmalloc 100 [kmpool_create DEFAULT_POOL_SIZE 4096 0 (\<lambda>_. 255)]")
  case (Inl e)
  let ?p = "kmpool_create DEFAULT_POOL_SIZE 4096 0 (\<lambda>_. 255)"
  have d: "pieces ?p = 65276" "\<not> occ (bitmap ?p) j" if "j < 65272" for j
    using kmpool_create_default(1,4) [of 4096, where junk = 0 and dirty = "\<lambda>_. 255"] that by simp_all
  have "\<forall>s. s + block_pieces 100 \<le> pieces ?p \<longrightarrow> (\<exists>j. s \<le> j \<and> j < s + block_pieces 100 \<and> occ (bitmap ?p) j)"
    using kmalloc_correct [OF root_pool_ok, of 100] Inl by simp
  from this [rule_format, of 0] show ?thesis using d by (fastforce simp: block_pieces_def)
next
  case (Inr r)
  then show ?thesis
    using kmalloc_correct [OF root_pool_ok, of 100] by (cases r) auto
qed

text \<open>
  C26: On a well-formed heap of one pool smaller than 4 GiB, where the 32 bit products of
  \<open>find_parent\<close> and \<open>_kfree\<close> do not wrap, freeing a block that is in use (by the address
  \<open>kmalloc\<close> returned) never panics and gives the heap without that block, whatever the owner wrote into it and whatever happened to other blocks; the
  pieces are free again and blank, and freeing it a second time is caught by the panic of
  \<open>set_pieces\<close>.
\<close>

theorem kfree_correct:
  assumes "heap_ok p B" and "(sp, n) \<in> B"
  shows "\<exists>p'. kfree (start p + (sp + 1) * 16) [p] = Inr [p'] \<and> heap_ok p' (B - {(sp, n)}) \<and>
    (\<forall>j. occ (bitmap p') j \<longleftrightarrow> occ (bitmap p) j \<and> \<not> (sp \<le> j \<and> j < sp + n)) \<and>
    (\<forall>k < length (mem p'). mem p' ! k = (if sp * 16 \<le> k \<and> k < (sp + n) * 16 then 0 else mem p ! k)) \<and>
    (\<exists>e. kfree (start p + (sp + 1) * 16) [p'] = Inl (Panic e))"
proof -
  note sh = heap_ok_shape [OF assms(1), unfolded pool_shape_def]
  note b0 = heap_ok_block [OF assms]
  have top: "(sp + n) * 16 \<le> pieces p * 16" using b0 by (intro mult_le_mono1) simp
  obtain p' where p': "kfree' (start p + (sp + 1) * 16) [p] = Inr [p']" "heap_ok p' (B - {(sp, n)})"
    "start p' = start p" "pieces p' = pieces p" "mem p' = blit (mem p) (sp * 16) (replicate (n * 16) 0)"
    "\<forall>j. occ (bitmap p') j \<longleftrightarrow> occ (bitmap p) j \<and> \<not> (sp \<le> j \<and> j < sp + n)"
    using kfree_ok [OF assms] by blast
  have mem: "mem p' ! k = (if sp * 16 \<le> k \<and> k < (sp + n) * 16 then 0 else mem p ! k)" if "k < length (mem p')" for k
  proof -
    have "k < length (mem p)" using that p'(5) top sh by simp
    then show ?thesis using top sh unfolding p'(5) by (subst nth_blit) (auto simp: nth_replicate)
  qed
  have "\<exists>e. kfree' (start p + (sp + 1) * 16) [p'] = Inl (Panic e)"
  proof -
    note sh' = heap_ok_shape [OF p'(2), unfolded pool_shape_def]
    have gb: "get_block_from_ext_addr (start p + (sp + 1) * 16) = start p + sp * 16"
      using sh by (intro get_block_addr) simp
    have fp: "find_parent (start p + sp * 16) [p'] = Some 0"
      using top p'(3,4) by (simp add: find_parent_single [OF heap_ok_shape [OF p'(2)]] del: find_parent.simps)
    have ap: "addr_to_piece p' (start p + sp * 16) = sp" by (simp add: addr_to_piece_def POOL_PIECE_SIZE_def p'(3))
    have z: "take 4 (drop (sp * 16 + 8) (mem p')) = replicate 4 0"
      using mem top sh' p'(4) b0 by (intro nth_equalityI) auto
    have "un32 (take 4 (drop (sp * 16 + 8) (mem p'))) = 0" unfolding z by (simp add: un32_def)
    moreover have "set_pieces p' sp 1 False = Inl (Panic ''mempool: Attempt to free an already-freed piece'')"
      using set_pieces_mark [of 1 sp p' False] sh' p'(4,6) b0 by simp
    ultimately show ?thesis
      using sh sh' fp top b0 p'(4) unfolding kfree'_def gb by (simp add: Let_def ap p'(3) del: find_parent.simps)
  qed
  with p' mem show ?thesis unfolding kfree_def by blast
qed

theorem kfree_correct_witness:
  "\<exists>p. heap_ok p {(0, 8)} \<and>
     (\<exists>p'. kfree (start p + 16) [p] = Inr [p'] \<and> heap_ok p' {} \<and> (\<exists>e. kfree (start p + 16) [p'] = Inl (Panic e)))"
proof -
  let ?p = "kmpool_create DEFAULT_POOL_SIZE 4096 0 (\<lambda>_. 255)"
  have "pieces ?p = 65276" and "\<And>j. j < 65272 \<Longrightarrow> \<not> occ (bitmap ?p) j"
    using kmpool_create_default(1,4) [of 4096, where junk = 0 and dirty = "\<lambda>_. 255"] by simp_all
  then obtain p where p: "heap_ok p {(0, 8)}"
    using take_block_ok [OF root_pool_ok, of 8 0] by auto
  from kfree_correct [OF p, of 0 8] p show ?thesis by (intro exI [of _ p]) auto
qed

text \<open>
  The heap can never grow: when the only pool has no room, \<open>_kmalloc\<close> creates a second pool, moves
  to it and then takes the lock of that pool's successor, which is a null pointer.
\<close>

theorem kmalloc_growth_faults:
  assumes "heap_ok p B" and "0 < sz" and "sz + 15 < 2 ^ 64" and "free_pieces p < block_pieces sz"
  shows "kmalloc sz [p] = Inl NullDeref"
  using assms(2-4) by (simp add: kmalloc_def kmalloc'_def block_pieces_eq kmalloc_loop.simps [of "[p]"])

theorem kmalloc_growth_faults_witness:
  "kmalloc (2 ^ 21) [kmpool_create DEFAULT_POOL_SIZE 4096 0 (\<lambda>_. 255)] = Inl NullDeref"
proof (rule kmalloc_growth_faults [OF root_pool_ok])
  show "free_pieces (kmpool_create DEFAULT_POOL_SIZE 4096 0 (\<lambda>_. 255)) < block_pieces (2 ^ 21)"
    using kmpool_create_default(5) [of 4096, where junk = 0 and dirty = "\<lambda>_. 255"] by (simp add: block_pieces_def)
qed simp_all

text \<open>
  A request whose rounding wraps is served with a block of a single piece, the header: the address
  returned is the first one behind it.
\<close>

theorem kmalloc_wraps:
  assumes "heap_ok p B" and "2 ^ 64 - 15 \<le> sz" and "sz < 2 ^ 64" and "j < pieces p" and "\<not> occ (bitmap p) j"
  shows "\<exists>sp p'. kmalloc sz [p] = Inr (start p + (sp + 1) * 16, [p']) \<and> heap_ok p' (insert (sp, 1) B)"
proof -
  have "(sz + 15) mod 2 ^ 64 = (sz + 15) - 2 ^ 64"
    using assms(2,3) by (subst mod_if) (simp add: mod_if)
  then have "(sz + 15) mod 2 ^ 64 < 16" using assms(3) by linarith
  then have "ceil_to_alignment sz = 0" unfolding ceil_to_alignment_def POOL_PIECE_SIZE_def by simp
  moreover have "ceil_to_alignment 12 div POOL_PIECE_SIZE = 1"
    by (simp add: ceil_to_alignment_def POOL_PIECE_SIZE_def)
  ultimately have km: "kmalloc sz [p] = kmalloc_loop [p] 0 0 1"
    using assms(2) by (simp add: kmalloc_def kmalloc'_def)
  have "\<not> (\<forall>s. s + 1 \<le> pieces p \<longrightarrow> (\<exists>j. s \<le> j \<and> j < s + 1 \<and> occ (bitmap p) j))"
    using assms(4,5) by (auto intro!: exI [of _ j] dest!: less_Suc_eq_le [THEN iffD1] intro: le_antisym)
  with kmalloc_loop_single [OF assms(1), of 1] show ?thesis unfolding km by (meson zero_less_one)
qed

theorem kmalloc_wraps_witness:
  "\<exists>addr ps. kmalloc (2 ^ 64 - 1) [kmpool_create DEFAULT_POOL_SIZE 4096 0 (\<lambda>_. 255)] = Inr (addr, ps)"
  using kmalloc_wraps [OF root_pool_ok, of "2 ^ 64 - 1" 0]
    kmpool_create_default(1,4) [of 4096, where junk = 0 and dirty = "\<lambda>_. 255"] by fastforce

text \<open>
  For every size from the default up to 32 GiB, the three parts of a new pool do not
  overlap and fit the pages it was given: the bitmap ends before the data begins, and the data ends
  with the pages.
\<close>

theorem kmpool_create_layout:
  assumes "DEFAULT_POOL_SIZE \<le> sz0" and "4096 dvd ptr" and "sz0 < 2 ^ 35" and "ptr + 2 ^ 36 < 2 ^ 64"
  defines "sz \<equiv> sz0 + sz0 mod 32"
  shows "ptr + BITMAP_OFFSET + 4 * length (bitmap (kmpool_create sz0 ptr junk dirty)) \<le> start (kmpool_create sz0 ptr junk dirty) \<and>
    start (kmpool_create sz0 ptr junk dirty) + pieces (kmpool_create sz0 ptr junk dirty) * POOL_PIECE_SIZE
      \<le> ptr + kpfrompg (kptopg (sz + SIZEOF_POOL))"
proof -
  define np where "np = sz div 16"
  define pg where "pg = (sz + 64 + 4095) div 4096"
  define actual where "actual = ((pg * 4096 - 64) div 16) * 16"
  define n where "n = (actual - np div 8) div 16"
  define st where "st = ((ptr + 64 + np div 8 + 15) div 16) * 16"
  have sz: "1048576 \<le> sz" "sz < 2 ^ 35 + 32" using assms(1,3) by (auto simp: sz_def DEFAULT_POOL_SIZE_def)
  have pg: "sz + 64 \<le> pg * 4096" "pg * 4096 \<le> sz + 64 + 4095" unfolding pg_def by linarith+
  have np8: "np div 8 \<le> np" "np * 16 \<le> sz" unfolding np_def by linarith+
  have ac: "actual = pg * 4096 - 64"
  proof -
    have "pg * 4096 - 64 = (pg * 256 - 4) * 16" using pg sz by simp
    then show ?thesis unfolding actual_def by (metis nonzero_mult_div_cancel_right zero_neq_numeral)
  qed
  have pw: "(2::nat) ^ 64 = 18446744073709551616" "(2::nat) ^ 36 = 68719476736"
    "(2::nat) ^ 35 = 34359738368" "(2::nat) ^ 32 = 4294967296" by simp_all
  have m64: "sz mod 2 ^ 64 = sz" "(sz + 64) mod 2 ^ 64 = sz + 64" "(sz + 64 + 4095) mod 2 ^ 64 = sz + 64 + 4095"
    "pg * 4096 mod 2 ^ 64 = pg * 4096" "(ptr + 64 + np div 8) mod 2 ^ 64 = ptr + 64 + np div 8"
    using sz pg assms(4) np8 unfolding pw by - (rule mod_less, linarith)+
  have s1: "sub64 (pg * 4096) 64 = pg * 4096 - 64" using sz pg unfolding pw by (intro sub64_eq) simp_all
  have s2: "sub64 actual (np div 8) = actual - np div 8" using sz pg np8 ac unfolding pw by (intro sub64_eq) simp_all
  have n16: "n * 16 \<le> actual - np div 8" unfolding n_def by linarith
  then have n32: "n mod 2 ^ 32 = n" using ac pg sz unfolding pw by (intro mod_less) linarith
  have c: "ceil_to_alignment (ptr + 64 + np div 8) = st"
    unfolding st_def using assms(4) np8 sz unfolding pw by (intro ceil_to_alignment_eq) simp
  have szd: "(sz0 + sz0 mod (POOL_PIECE_SIZE * 2)) mod 2 ^ 64 = sz"
    using m64(1) by (simp add: POOL_PIECE_SIZE_def sz_def)
  have npd: "sz div POOL_PIECE_SIZE = np" by (simp add: np_def POOL_PIECE_SIZE_def)
  have q: "kptopg ((sz + SIZEOF_POOL) mod 2 ^ 64) = pg" "kpfrompg pg = pg * 4096"
    unfolding SIZEOF_POOL_def kptopg_def kpfrompg_def m64 pg_def [symmetric] by (rule refl)+
  have qq: "kpfrompg (kptopg (sz + SIZEOF_POOL)) = pg * 4096"
    using q m64(2) by (simp add: SIZEOF_POOL_def)
  have q2: "sub64 (pg * 4096) SIZEOF_POOL div POOL_PIECE_SIZE * POOL_PIECE_SIZE = actual"
    unfolding SIZEOF_POOL_def s1 POOL_PIECE_SIZE_def actual_def ..
  have q3: "floor_to_alignment (actual - np div 8) div POOL_PIECE_SIZE mod 2 ^ 32 = n"
    unfolding floor_to_alignment_def POOL_PIECE_SIZE_def n_def [symmetric] using n32 by simp
  have q4: "ceil_to_alignment ((ptr + SIZEOF_POOL + np div 8) mod 2 ^ 64) = st"
    unfolding SIZEOF_POOL_def m64 by (rule c)
  have p: "pieces (kmpool_create sz0 ptr junk dirty) = n" "start (kmpool_create sz0 ptr junk dirty) = st"
    unfolding kmpool_create_def Let_def szd npd q q2 s2 q3 q4 by simp_all
  have lb: "length (bitmap (kmpool_create sz0 ptr junk dirty)) \<le> n div 32 + 1"
    unfolding kmpool_create_def Let_def szd npd q q2 s2 q3 q4 by simp
  have np: "65536 \<le> np" "np * 16 \<le> sz" "sz < np * 16 + 16" using sz(1) unfolding np_def by linarith+
  have nn: "n * 16 \<le> actual - np div 8" "actual - np div 8 < n * 16 + 16" unfolding n_def by linarith+
  have "n \<le> np" using nn(1) ac pg np by linarith
  then have "n div 32 \<le> np div 32" by (rule div_le_mono)
  then have "4 * (n div 32) \<le> 4 * (np div 32)" by (rule mult_le_mono2)
  also have "4 * (np div 32) \<le> np div 8"
    using div_times_less_eq_dividend [of "np div 8" 4] by (simp add: div_mult2_eq [symmetric] mult.commute)
  finally have b: "4 * (n div 32 + 1) \<le> np div 8 + 4" by simp
  have st: "ptr + 64 + np div 8 \<le> st" unfolding st_def by linarith
  define m c where "m = np div 8" and "c = (m + 15) div 16"
  have c: "16 * c \<le> m + 15" unfolding c_def by simp
  obtain k where "ptr = 4096 * k" using assms(2) by (elim dvdE)
  define q where "q = 256 * k"
  have q: "ptr = 16 * q" by (simp add: q_def \<open>ptr = 4096 * k\<close>)
  have "ptr + 64 + m + 15 = m + 15 + (q + 4) * 16" by (simp add: q)
  then have st': "st = ptr + 64 + 16 * c"
    unfolding st_def m_def [symmetric] c_def by (simp only: div_mult_self1) (simp add: q)
  have "n * 16 + m \<le> pg * 4096 - 64" using nn(1) ac pg np unfolding m_def by linarith
  then have "n * 16 + 16 * c \<le> pg * 4096 - 64 + 15" using c by linarith
  then have "(n + c) * 16 \<le> (pg * 256 - 4) * 16 + 15" by (simp add: diff_mult_distrib)
  moreover have "a * 16 \<le> b * 16 + 15 \<Longrightarrow> a \<le> b" for a b :: nat by linarith
  ultimately have "n + c \<le> pg * 256 - 4" by blast
  then have "st + n * 16 \<le> ptr + pg * 4096" using pg sz unfolding st' by linarith
  with lb b st show ?thesis
    by (simp add: p BITMAP_OFFSET_def POOL_PIECE_SIZE_def qq)
qed

lemma default_pool_small: "DEFAULT_POOL_SIZE < 34359738368"
  by (simp add: DEFAULT_POOL_SIZE_def)

theorem kmpool_create_layout_witness:
  "8192 + BITMAP_OFFSET + 4 * length (bitmap (kmpool_create DEFAULT_POOL_SIZE 8192 0 (\<lambda>_. 255))) \<le>
   start (kmpool_create DEFAULT_POOL_SIZE 8192 0 (\<lambda>_. 255))"
  using kmpool_create_layout [of DEFAULT_POOL_SIZE 8192 0 "\<lambda>_. 255"] by (simp add: dvd_def default_pool_small)

end
