(* ===== verification/Frame.thy ===== *)
theory Frame
  imports Bitmap
begin

text \<open>
  \<^verbatim>\<open>mem/frame.c\<close>: the allocator of physical page frames. The frames are kept in a chain of
  pieces, each with a base address, a number of usable frames and a bitmap; a frame identifier
  counts through the chain. The address computation \<open>piece->start + id * CPU_PAGE_SIZE\<close>
  multiplies in 32 bits (\<open>id\<close> is a \<open>uint32_t\<close>), which is written out. The allocator's
  spinlock makes every call one step. The contract for the paging code is the locale
  \<open>frame_allocator\<close>.
\<close>

section \<open>State\<close>

record piece =
  start :: nat
  usable :: nat
  bitmap :: "u32 list"

record frames =
  pieces :: "piece list"
  frames_possible :: nat
  frames_used :: nat

definition CPU_PAGE_SIZE :: nat where "CPU_PAGE_SIZE = 4096"

definition frame_addr :: "piece \<Rightarrow> nat \<Rightarrow> nat" where
  "frame_addr p i = start p + (i * CPU_PAGE_SIZE) mod 2 ^ 32"

section \<open>Operations\<close>

text \<open>
  The loop every operation starts with: skip the pieces that end before the identifier. The result
  is the position of the piece in the chain and the identifier inside the piece.
\<close>

fun piece_walk :: "string \<Rightarrow> nat \<Rightarrow> piece list \<Rightarrow> nat \<Rightarrow> (nat \<times> nat) res" where
  "piece_walk msg possible [] i = Inl NullDeref"
| "piece_walk msg possible (p # ps) i =
     (if i < usable p then Inr (0, i)
      else if ps = [] \<or> possible < i - usable p then Inl (Panic msg)
      else mapR (\<lambda>(k, i'). (Suc k, i')) (piece_walk msg possible ps (i - usable p)))"

abbreviation upd_piece :: "frames \<Rightarrow> nat \<Rightarrow> (u32 list \<Rightarrow> u32 list) \<Rightarrow> piece list" where
  "upd_piece s k f \<equiv> (pieces s)[k := (pieces s ! k)\<lparr>bitmap := f (bitmap (pieces s ! k))\<rparr>]"

definition memfr_alloc_internal :: "frames \<Rightarrow> nat \<Rightarrow> (nat \<times> frames) res" where
  "memfr_alloc_internal s i =
     mapR (\<lambda>(k, i'). (frame_addr (pieces s ! k) i',
         s\<lparr>pieces := upd_piece s k (\<lambda>b. set_occ b i'),
           frames_used := (if occ (bitmap (pieces s ! k)) i' then frames_used s else frames_used s + 1)\<rparr>))
       (piece_walk ''Failed to allocate a memory frame'' (frames_possible s) (pieces s) i)"

definition kfalloc :: "frames \<Rightarrow> nat \<Rightarrow> (nat \<times> frames) res" where
  "kfalloc s i = memfr_alloc_internal s i"

definition kffree :: "frames \<Rightarrow> nat \<Rightarrow> (bool \<times> frames) res" where
  "kffree s i =
     mapR (\<lambda>(k, i'). (True,
         s\<lparr>pieces := upd_piece s k (\<lambda>b. clr_occ b i'),
           frames_used := (if occ (bitmap (pieces s ! k)) i' then frames_used s - 1 else frames_used s)\<rparr>))
       (piece_walk ''Failed to unallocate a memory frame'' (frames_possible s) (pieces s) i)"

definition kfamount :: "frames \<Rightarrow> nat" where "kfamount s = frames_possible s"

definition kfused :: "frames \<Rightarrow> nat" where "kfused s = frames_used s"

definition kfisfree :: "frames \<Rightarrow> nat \<Rightarrow> bool res" where
  "kfisfree s i =
     mapR (\<lambda>(k, i'). \<not> occ (bitmap (pieces s ! k)) i')
       (piece_walk ''Failed to unallocate a memory frame'' (frames_possible s) (pieces s) i)"

definition kfpaddrof :: "frames \<Rightarrow> nat \<Rightarrow> nat res" where
  "kfpaddrof s i =
     mapR (\<lambda>(k, i'). frame_addr (pieces s ! k) i')
       (piece_walk ''Failed to get pointer to a memory frame'' (frames_possible s) (pieces s) i)"

text \<open>\<open>kfindexof\<close>: the piece whose address range, with its 32 bit product, has the address.\<close>

fun kfindexof_loop :: "piece list \<Rightarrow> nat \<Rightarrow> nat res" where
  "kfindexof_loop [] addr = Inl (Panic ''kfindexof() fail'')"
| "kfindexof_loop (p # ps) addr =
     (if start p \<le> addr \<and> addr < start p + (usable p * CPU_PAGE_SIZE) mod 2 ^ 32
      then Inr (((addr - start p) div CPU_PAGE_SIZE) mod 2 ^ 32)
      else kfindexof_loop ps addr)"

definition kfindexof :: "frames \<Rightarrow> nat \<Rightarrow> nat res" where
  "kfindexof s addr = kfindexof_loop (pieces s) addr"

text \<open>The search of \<open>kfcalloc\<close>; \<open>0xFFFFFFFF\<close> stands for no start.\<close>

definition NO_START :: nat where "NO_START = 4294967295"

function kfcalloc_search :: "frames \<Rightarrow> nat \<Rightarrow> nat \<Rightarrow> nat \<Rightarrow> nat \<Rightarrow> nat res" where
  "kfcalloc_search s amount i start_id combo =
     (if frames_possible s \<le> i then Inl (Panic ''Failed to allocate contiguous frames'')
      else bindR (kfisfree s i) (\<lambda>free.
        let start_id' = (if start_id = NO_START \<and> free then i else start_id)
        in if \<not> free then kfcalloc_search s amount (Suc i) NO_START 0
           else if Suc combo = amount then Inr start_id'
           else kfcalloc_search s amount (Suc i) start_id' (Suc combo)))"
  by pat_completeness auto
termination
  by (relation "measure (\<lambda>(s, amount, i, start_id, combo). frames_possible s - i)") auto

declare kfcalloc_search.simps [simp del]

fun alloc_run :: "frames \<Rightarrow> nat \<Rightarrow> nat \<Rightarrow> frames res" where
  "alloc_run s first 0 = Inr s"
| "alloc_run s first (Suc n) =
     bindR (memfr_alloc_internal s first) (\<lambda>(_, s'). alloc_run s' (Suc first) n)"

definition kfcalloc :: "frames \<Rightarrow> nat \<Rightarrow> (nat \<times> frames) res" where
  "kfcalloc s amount =
     (if amount = 0 then Inr (0, s)
      else bindR (kfcalloc_search s amount 0 NO_START 0)
             (\<lambda>start_id. mapR (\<lambda>s'. (start_id, s')) (alloc_run s start_id amount)))"

section \<open>Invariant\<close>

definition frame_total :: "piece list \<Rightarrow> nat" where
  "frame_total ps = sum_list (map usable ps)"

fun locate :: "piece list \<Rightarrow> nat \<Rightarrow> nat \<times> nat" where
  "locate [] i = (0, i)"
| "locate (p # ps) i =
     (if i < usable p then (0, i) else case locate ps (i - usable p) of (k, i') \<Rightarrow> (Suc k, i'))"

definition used :: "frames \<Rightarrow> nat \<Rightarrow> bool" where
  "used s i = (case locate (pieces s) i of (k, i') \<Rightarrow> occ (bitmap (pieces s ! k)) i')"

definition frames_ok :: "frames \<Rightarrow> bool" where
  "frames_ok s \<longleftrightarrow>
     (\<forall>p \<in> set (pieces s). usable p \<le> 32 * length (bitmap p)) \<and>
     frame_total (pieces s) = frames_possible s \<and> frames_possible s < NO_START \<and>
     frames_used s = card {i. i < frames_possible s \<and> used s i}"

lemma frame_total_simps [simp]: "frame_total [] = 0" "frame_total (p # ps) = usable p + frame_total ps"
  by (simp_all add: frame_total_def)

lemma piece_walk_locate:
  "i < frame_total ps \<Longrightarrow> frame_total ps \<le> possible \<Longrightarrow> piece_walk msg possible ps i = Inr (locate ps i)"
  by (induction ps arbitrary: i) (auto split: prod.splits)

lemma piece_walk_beyond:
  "frame_total ps \<le> i \<Longrightarrow> ps \<noteq> [] \<Longrightarrow> piece_walk msg possible ps i = Inl (Panic msg)"
  by (induction ps arbitrary: i) auto

lemma locate_in:
  "i < frame_total ps \<Longrightarrow> locate ps i = (k, i') \<Longrightarrow> k < length ps \<and> i' < usable (ps ! k)"
proof (induction ps arbitrary: i k)
  case (Cons p ps)
  show ?case
  proof (cases "i < usable p")
    case False
    then obtain l where l: "locate ps (i - usable p) = (l, i')" "k = Suc l"
      using Cons.prems by (auto split: prod.splits)
    have "i - usable p < frame_total ps" using False Cons.prems by simp
    from Cons.IH [OF this l(1)] l(2) show ?thesis by simp
  qed (use Cons.prems in auto)
qed simp

lemma locate_inj:
  "i < frame_total ps \<Longrightarrow> j < frame_total ps \<Longrightarrow> locate ps i = locate ps j \<Longrightarrow> i = j"
proof (induction ps arbitrary: i j)
  case (Cons p ps)
  show ?case
  proof (cases "i < usable p \<or> j < usable p")
    case False
    then have "locate ps (i - usable p) = locate ps (j - usable p)"
      using Cons.prems by (auto split: prod.splits)
    moreover have "i - usable p < frame_total ps" "j - usable p < frame_total ps"
      using False Cons.prems(1,2) by auto
    ultimately have "i - usable p = j - usable p" by (intro Cons.IH)
    with False show ?thesis by (metis diff_add_inverse2 le_add_diff_inverse2 not_less)
  qed (use Cons.prems in \<open>auto split: prod.splits if_splits\<close>)
qed simp

lemma locate_update: "k < length ps \<Longrightarrow> usable p = usable (ps ! k) \<Longrightarrow> locate (ps[k := p]) i = locate ps i"
proof (induction ps arbitrary: k i)
  case (Cons q ps)
  then show ?case by (cases k) (auto split: prod.splits)
qed simp

lemma frame_total_update: "k < length ps \<Longrightarrow> usable p = usable (ps ! k) \<Longrightarrow> frame_total (ps[k := p]) = frame_total ps"
  by (induction ps arbitrary: k) (auto split: nat.splits)

lemma kfisfree_used:
  assumes "frames_ok s" and "i < frames_possible s"
  shows "kfisfree s i = Inr (\<not> used s i)"
  using assms by (simp add: kfisfree_def frames_ok_def piece_walk_locate used_def split: prod.split)

text \<open>Changing one bit of the piece that holds frame \<open>i\<close> changes the use of frame \<open>i\<close> only.\<close>

lemma used_upd:
  fixes n :: nat
  assumes ok: "frames_ok s" and i: "i < frames_possible s" and loc: "locate (pieces s) i = (k, i')"
    and f: "\<And>b j. i' < 32 * length b \<Longrightarrow> length (f b) = length b \<and> (occ (f b) j \<longleftrightarrow> (if j = i' then v else occ b j))"
  defines "s' \<equiv> s\<lparr>pieces := upd_piece s k f, frames_used := n\<rparr>"
  shows "\<And>j. j < frames_possible s \<Longrightarrow> used s' j \<longleftrightarrow> (if j = i then v else used s j)"
    and "n = card {j. j < frames_possible s \<and> used s' j} \<Longrightarrow> frames_ok s'"
proof -
  have tot: "frame_total (pieces s) = frames_possible s" using ok by (simp add: frames_ok_def)
  have k: "k < length (pieces s)" "i' < usable (pieces s ! k)"
    using locate_in [OF _ loc] i tot by auto
  have us: "usable (pieces s ! k) \<le> 32 * length (bitmap (pieces s ! k))"
    using ok k(1) by (simp add: frames_ok_def)
  have fk: "length (f (bitmap (pieces s ! k))) = length (bitmap (pieces s ! k))"
    "\<And>j. occ (f (bitmap (pieces s ! k))) j \<longleftrightarrow> (if j = i' then v else occ (bitmap (pieces s ! k)) j)"
    using f [of "bitmap (pieces s ! k)"] k us by auto
  have loc': "locate (pieces s') j = locate (pieces s) j" for j
    using k by (simp add: s'_def locate_update)
  show "used s' j \<longleftrightarrow> (if j = i then v else used s j)" if j: "j < frames_possible s" for j
  proof -
    obtain l j' where l: "locate (pieces s) j = (l, j')" by fastforce
    have "l < length (pieces s)" using locate_in [OF _ l] j tot by auto
    moreover have "j = i \<longleftrightarrow> l = k \<and> j' = i'"
      using locate_inj [of j "pieces s" i] l loc i j tot by auto
    ultimately show ?thesis
      using k fk by (cases "l = k") (auto simp: used_def loc' l, auto simp: s'_def)
  qed
  show "frames_ok s'" if "n = card {j. j < frames_possible s \<and> used s' j}"
  proof -
    have "usable p \<le> 32 * length (bitmap p)" if "p \<in> set (pieces s')" for p
    proof -
      have "p \<in> insert ((pieces s ! k)\<lparr>bitmap := f (bitmap (pieces s ! k))\<rparr>) (set (pieces s))"
        using that set_update_subset_insert unfolding s'_def by fastforce
      then show ?thesis using ok us fk(1) by (auto simp: frames_ok_def)
    qed
    with that ok k show ?thesis by (simp add: frames_ok_def s'_def frame_total_update)
  qed
qed

lemma card_used_insert:
  assumes "i < (n::nat)" and "\<And>j. j < n \<Longrightarrow> Q j \<longleftrightarrow> (if j = i then True else P j)"
  shows "card {j. j < n \<and> Q j} = (if P i then card {j. j < n \<and> P j} else card {j. j < n \<and> P j} + 1)"
proof -
  have "{j. j < n \<and> Q j} = insert i {j. j < n \<and> P j}" using assms by auto
  with assms(1) show ?thesis by (auto simp: card_insert_if insert_absorb)
qed

lemma card_used_delete:
  assumes "i < (n::nat)" and "\<And>j. j < n \<Longrightarrow> Q j \<longleftrightarrow> (if j = i then False else P j)"
  shows "card {j. j < n \<and> Q j} = (if P i then card {j. j < n \<and> P j} - 1 else card {j. j < n \<and> P j})"
proof -
  have "{j. j < n \<and> Q j} = {j. j < n \<and> P j} - {i}" using assms by (auto split: if_splits)
  with assms(1) show ?thesis by (auto simp: card_Diff_singleton_if)
qed

definition same_layout :: "frames \<Rightarrow> frames \<Rightarrow> bool" where
  "same_layout s s' \<longleftrightarrow> frames_possible s' = frames_possible s \<and>
     map usable (pieces s') = map usable (pieces s) \<and> map start (pieces s') = map start (pieces s)"

lemma same_layout_refl [simp]: "same_layout s s"
  by (simp add: same_layout_def)

lemma same_layout_trans [trans]: "same_layout s s' \<Longrightarrow> same_layout s' s'' \<Longrightarrow> same_layout s s''"
  by (simp add: same_layout_def)

lemma same_layout_possible: "same_layout s s' \<Longrightarrow> frames_possible s' = frames_possible s"
  by (simp add: same_layout_def)

lemma same_layout_upd:
  "k < length (pieces s) \<Longrightarrow> same_layout s (s\<lparr>pieces := upd_piece s k f, frames_used := n\<rparr>)"
  by (simp add: same_layout_def map_update list_update_same_conv)

lemma walk_ok:
  assumes "frames_ok s" and "i < frames_possible s" and "locate (pieces s) i = (k, i')"
  shows "piece_walk msg (frames_possible s) (pieces s) i = Inr (k, i')" and "k < length (pieces s)"
    and "i' < usable (pieces s ! k)" and "occ (bitmap (pieces s ! k)) i' = used s i"
  using assms piece_walk_locate [of i "pieces s"] locate_in [of i "pieces s" k i']
  by (auto simp: frames_ok_def used_def)

lemma memfr_alloc_internal_spec:
  assumes ok: "frames_ok s" and i: "i < frames_possible s"
  shows "\<exists>addr s'. memfr_alloc_internal s i = Inr (addr, s') \<and> kfpaddrof s i = Inr addr \<and> frames_ok s' \<and>
    same_layout s s' \<and> (\<forall>j < frames_possible s. used s' j \<longleftrightarrow> j = i \<or> used s j)"
proof -
  obtain k i' where loc: "locate (pieces s) i = (k, i')" by fastforce
  note w = walk_ok [OF ok i loc]
  let ?n = "if used s i then frames_used s else frames_used s + 1"
  let ?s = "s\<lparr>pieces := upd_piece s k (\<lambda>b. set_occ b i'), frames_used := ?n\<rparr>"
  have f: "length (set_occ b i') = length b \<and> (occ (set_occ b i') j \<longleftrightarrow> (if j = i' then True else occ b j))"
    if "i' < 32 * length b" for b j
    using occ_set_occ [OF that] by auto
  note u = used_upd(1) [where f = "\<lambda>b. set_occ b i'" and v = True and n = ?n, OF ok i loc f]
  have "?n = card {j. j < frames_possible s \<and> used ?s j}"
    using card_used_insert [OF i u] ok by (simp add: frames_ok_def)
  with used_upd(2) [OF ok i loc f] have "frames_ok ?s" by blast
  moreover have "memfr_alloc_internal s i = Inr (frame_addr (pieces s ! k) i', ?s)"
    by (simp add: memfr_alloc_internal_def w)
  moreover have "\<forall>j < frames_possible s. used ?s j \<longleftrightarrow> j = i \<or> used s j" using u by simp
  moreover have "kfpaddrof s i = Inr (frame_addr (pieces s ! k) i')" by (simp add: kfpaddrof_def w)
  moreover have "same_layout s ?s" by (rule same_layout_upd [OF w(2)])
  ultimately show ?thesis by blast
qed

lemma kffree_spec:
  assumes ok: "frames_ok s" and i: "i < frames_possible s"
  shows "\<exists>s'. kffree s i = Inr (True, s') \<and> frames_ok s' \<and> same_layout s s' \<and>
    (\<forall>j < frames_possible s. used s' j \<longleftrightarrow> j \<noteq> i \<and> used s j)"
proof -
  obtain k i' where loc: "locate (pieces s) i = (k, i')" by fastforce
  note w = walk_ok [OF ok i loc]
  let ?n = "if used s i then frames_used s - 1 else frames_used s"
  let ?s = "s\<lparr>pieces := upd_piece s k (\<lambda>b. clr_occ b i'), frames_used := ?n\<rparr>"
  have f: "length (clr_occ b i') = length b \<and> (occ (clr_occ b i') j \<longleftrightarrow> (if j = i' then False else occ b j))"
    if "i' < 32 * length b" for b j
    using occ_clr_occ [OF that] by auto
  note u = used_upd(1) [where f = "\<lambda>b. clr_occ b i'" and v = False and n = ?n, OF ok i loc f]
  have "?n = card {j. j < frames_possible s \<and> used ?s j}"
    using card_used_delete [OF i u] ok by (simp add: frames_ok_def)
  with used_upd(2) [OF ok i loc f] have "frames_ok ?s" by blast
  moreover have "kffree s i = Inr (True, ?s)" by (simp add: kffree_def w)
  moreover have "\<forall>j < frames_possible s. used ?s j \<longleftrightarrow> j \<noteq> i \<and> used s j" using u by simp
  moreover have "same_layout s ?s" by (rule same_layout_upd [OF w(2)])
  ultimately show ?thesis by blast
qed

text \<open>The search is the first run of free frames.\<close>

lemma kfcalloc_search_run:
  assumes ok: "frames_ok s" and "combo \<le> i" and "i \<le> frames_possible s" and "combo < amount"
    and "st = (if combo = 0 then NO_START else i - combo)"
  shows "kfcalloc_search s amount i st combo =
    (case run_search (\<lambda>j. \<not> used s j) amount (frames_possible s) i combo of
       None \<Rightarrow> Inl (Panic ''Failed to allocate contiguous frames'') | Some r \<Rightarrow> Inr r)"
  using assms(2-)
proof (induction "frames_possible s - i" arbitrary: i combo st)
  case 0
  then show ?case by (simp add: kfcalloc_search.simps run_search.simps)
next
  case (Suc d)
  then have i: "i < frames_possible s" by simp
  have N: "i - combo \<noteq> NO_START" using i ok unfolding frames_ok_def by linarith
  have free: "kfisfree s i = Inr (\<not> used s i)" by (rule kfisfree_used [OF ok i])
  show ?case
  proof (cases "used s i")
    case True
    then show ?thesis
      using Suc.hyps(1) [of "Suc i" 0 NO_START] Suc.hyps(2) Suc.prems i free
      by (subst kfcalloc_search.simps, subst run_search.simps) simp
  next
    case False
    have st: "(if st = NO_START \<and> True then i else st) = i - combo"
      using Suc.prems N by auto
    show ?thesis
      using Suc.hyps(1) [of "Suc i" "Suc combo" "i - combo"] Suc.hyps(2) Suc.prems i free False st
      by (subst kfcalloc_search.simps, subst run_search.simps) (simp add: Let_def)
  qed
qed

lemma alloc_run_spec:
  assumes "frames_ok s" and "first + n \<le> frames_possible s"
  shows "\<exists>s'. alloc_run s first n = Inr s' \<and> frames_ok s' \<and> same_layout s s' \<and>
    (\<forall>j < frames_possible s. used s' j \<longleftrightarrow> first \<le> j \<and> j < first + n \<or> used s j)"
  using assms
proof (induction n arbitrary: s first)
  case 0
  then show ?case by auto
next
  case (Suc n)
  then have "first < frames_possible s" by simp
  then obtain addr s1 where s1: "memfr_alloc_internal s first = Inr (addr, s1)" "frames_ok s1"
    "same_layout s s1" "\<forall>j < frames_possible s. used s1 j \<longleftrightarrow> j = first \<or> used s j"
    using memfr_alloc_internal_spec [OF Suc.prems(1)] by blast
  have p: "frames_possible s1 = frames_possible s" using s1(3) by (rule same_layout_possible)
  obtain s2 where "alloc_run s1 (Suc first) n = Inr s2" "frames_ok s2" "same_layout s1 s2"
    "\<forall>j < frames_possible s. used s2 j \<longleftrightarrow> Suc first \<le> j \<and> j < Suc first + n \<or> used s1 j"
    using Suc.IH [OF s1(2), of "Suc first"] Suc.prems(2) p by auto
  then show ?case
    using s1 same_layout_trans [of s s1 s2] by (intro exI [of _ s2]) auto
qed

lemma kfcalloc_spec:
  assumes ok: "frames_ok s" and amount: "0 < amount"
  shows "(\<exists>first s'. kfcalloc s amount = Inr (first, s') \<and> frames_ok s' \<and> same_layout s s' \<and>
      first + amount \<le> frames_possible s \<and> (\<forall>j. first \<le> j \<and> j < first + amount \<longrightarrow> \<not> used s j) \<and>
      (\<forall>j < frames_possible s. used s' j \<longleftrightarrow> first \<le> j \<and> j < first + amount \<or> used s j)) \<or>
    (kfcalloc s amount = Inl (Panic ''Failed to allocate contiguous frames'') \<and>
      (\<forall>first. first + amount \<le> frames_possible s \<longrightarrow> (\<exists>j. first \<le> j \<and> j < first + amount \<and> used s j)))"
proof -
  let ?r = "run_search (\<lambda>j. \<not> used s j) amount (frames_possible s) 0 0"
  have fr: "first_run (\<lambda>j. \<not> used s j) amount (frames_possible s) ?r" by (rule run_search_0 [OF amount])
  have sr: "kfcalloc_search s amount 0 NO_START 0 =
    (case ?r of None \<Rightarrow> Inl (Panic ''Failed to allocate contiguous frames'') | Some r \<Rightarrow> Inr r)"
    by (rule kfcalloc_search_run [OF ok]) (use amount in simp_all)
  show ?thesis
  proof (cases ?r)
    case None
    then show ?thesis using fr sr amount by (simp add: kfcalloc_def first_run_def)
  next
    case (Some first)
    then have "first + amount \<le> frames_possible s" "\<forall>j. first \<le> j \<and> j < first + amount \<longrightarrow> \<not> used s j"
      using fr by (simp_all add: first_run_def)
    with alloc_run_spec [OF ok this(1)] Some sr amount show ?thesis
      by (auto simp: kfcalloc_def)
  qed
qed

lemma kfcalloc_first:
  assumes ok: "frames_ok s" and r: "kfcalloc s amount = Inr (first, s')" and "f < first" and amount: "0 < amount"
  shows "\<exists>j. f \<le> j \<and> j < f + amount \<and> used s j"
proof -
  let ?r = "run_search (\<lambda>j. \<not> used s j) amount (frames_possible s) 0 0"
  have "kfcalloc_search s amount 0 NO_START 0 =
    (case ?r of None \<Rightarrow> Inl (Panic ''Failed to allocate contiguous frames'') | Some r \<Rightarrow> Inr r)"
    by (rule kfcalloc_search_run [OF ok]) (use amount in simp_all)
  then have "?r = Some first"
    using r amount by (auto simp: kfcalloc_def bindR_eq_Inr_iff mapR_eq_Inr_iff split: option.splits)
  then show ?thesis
    using run_search_0 [OF amount, of "\<lambda>j. \<not> used s j" "frames_possible s"] \<open>f < first\<close>
    by (simp add: first_run_def)
qed

section \<open>Addresses\<close>

text \<open>
  The memory map is sane: no piece reaches four gigabytes, and the pieces do not overlap. Without
  the first condition the 32 bit product aliases frames (see below).
\<close>

definition layout_ok :: "piece list \<Rightarrow> bool" where
  "layout_ok ps \<longleftrightarrow> (\<forall>p \<in> set ps. usable p < 2 ^ 20) \<and>
     (\<forall>k < length ps. \<forall>l < length ps. k \<noteq> l \<longrightarrow>
        start (ps ! k) + usable (ps ! k) * CPU_PAGE_SIZE \<le> start (ps ! l) \<or>
        start (ps ! l) + usable (ps ! l) * CPU_PAGE_SIZE \<le> start (ps ! k))"

lemma layout_ok_same:
  assumes "same_layout s s'"
  shows "layout_ok (pieces s') \<longleftrightarrow> layout_ok (pieces s)" and "kfpaddrof s' i = kfpaddrof s i"
proof -
  have eq: "map usable (pieces s') = map usable (pieces s)" "map start (pieces s') = map start (pieces s)"
    "frames_possible s' = frames_possible s"
    using assms by (simp_all add: same_layout_def)
  then have len: "length (pieces s') = length (pieces s)" by (metis length_map)
  have nth: "usable (pieces s' ! k) = usable (pieces s ! k)" "start (pieces s' ! k) = start (pieces s ! k)"
    if "k < length (pieces s)" for k
    using eq that len by (metis nth_map)+
  then show "layout_ok (pieces s') \<longleftrightarrow> layout_ok (pieces s)"
    by (simp add: layout_ok_def len all_set_conv_all_nth)
  have walk: "piece_walk msg n ps i = piece_walk msg n qs i" if "map usable ps = map usable qs"
    for msg n i and ps qs :: "piece list"
    using that
  proof (induction ps arbitrary: qs i)
    case (Cons p ps)
    then show ?case by (cases qs) auto
  qed simp
  have "k < length ps" if "piece_walk msg n ps i = Inr (k, i')" for msg n i k i' and ps :: "piece list"
    using that by (induction ps arbitrary: i k) (auto simp: mapR_eq_Inr_iff split: if_splits)
  then show "kfpaddrof s' i = kfpaddrof s i"
    unfolding kfpaddrof_def eq(3) walk [OF eq(1)]
    by (cases "piece_walk ''Failed to get pointer to a memory frame'' (frames_possible s) (pieces s) i")
      (auto simp: frame_addr_def nth)
qed

lemma frame_addr_small:
  assumes "usable p < 2 ^ 20" and "i < usable p"
  shows "frame_addr p i = start p + i * CPU_PAGE_SIZE"
proof -
  have "i * CPU_PAGE_SIZE < 2 ^ 32" using assms by (simp add: CPU_PAGE_SIZE_def)
  then show ?thesis by (simp add: frame_addr_def)
qed

lemma kfpaddrof_eq:
  assumes "frames_ok s" and "layout_ok (pieces s)" and "i < frames_possible s"
    and "locate (pieces s) i = (k, i')"
  shows "kfpaddrof s i = Inr (start (pieces s ! k) + i' * CPU_PAGE_SIZE)"
  using walk_ok [OF assms(1,3,4)] assms(2)
  by (simp add: kfpaddrof_def frame_addr_small layout_ok_def)

lemma kfpaddrof_disjoint:
  assumes ok: "frames_ok s" "layout_ok (pieces s)" and ij: "i < frames_possible s" "j < frames_possible s" "i \<noteq> j"
    and a: "kfpaddrof s i = Inr a" and b: "kfpaddrof s j = Inr b"
  shows "a + CPU_PAGE_SIZE \<le> b \<or> b + CPU_PAGE_SIZE \<le> a"
proof -
  obtain k i' where li: "locate (pieces s) i = (k, i')" by fastforce
  obtain l j' where lj: "locate (pieces s) j = (l, j')" by fastforce
  note wi = walk_ok [OF ok(1) ij(1) li] and wj = walk_ok [OF ok(1) ij(2) lj]
  have ab: "a = start (pieces s ! k) + i' * CPU_PAGE_SIZE" "b = start (pieces s ! l) + j' * CPU_PAGE_SIZE"
    using kfpaddrof_eq [OF ok ij(1) li] kfpaddrof_eq [OF ok ij(2) lj] a b by simp_all
  have in_k: "a + CPU_PAGE_SIZE \<le> start (pieces s ! k) + usable (pieces s ! k) * CPU_PAGE_SIZE"
    and in_l: "b + CPU_PAGE_SIZE \<le> start (pieces s ! l) + usable (pieces s ! l) * CPU_PAGE_SIZE"
    using wi(3) wj(3) mult_le_mono1 [of "Suc i'" "usable (pieces s ! k)" CPU_PAGE_SIZE]
      mult_le_mono1 [of "Suc j'" "usable (pieces s ! l)" CPU_PAGE_SIZE]
    by (auto simp: ab)
  show ?thesis
  proof (cases "k = l")
    case True
    with locate_inj [of i "pieces s" j] li lj ij ok(1) have "i' \<noteq> j'" by (auto simp: frames_ok_def)
    then have "Suc i' \<le> j' \<or> Suc j' \<le> i'" by auto
    then show ?thesis
      using True mult_le_mono1 [of "Suc i'" j' CPU_PAGE_SIZE] mult_le_mono1 [of "Suc j'" i' CPU_PAGE_SIZE]
      by (auto simp: ab)
  next
    case False
    with ok(2) wi(2) wj(2) have "start (pieces s ! k) + usable (pieces s ! k) * CPU_PAGE_SIZE \<le> start (pieces s ! l) \<or>
        start (pieces s ! l) + usable (pieces s ! l) * CPU_PAGE_SIZE \<le> start (pieces s ! k)"
      by (auto simp: layout_ok_def)
    then show ?thesis using in_k in_l by (auto simp: ab)
  qed
qed

lemma kfindexof_local:
  assumes ok: "frames_ok s" "layout_ok (pieces s)" and i: "i < frames_possible s"
    and loc: "locate (pieces s) i = (k, i')" and a: "kfpaddrof s i = Inr a"
  shows "kfindexof s a = Inr i'"
proof -
  note w = walk_ok [OF ok(1) i loc]
  have a': "a = start (pieces s ! k) + i' * CPU_PAGE_SIZE" using kfpaddrof_eq [OF ok i loc] a by simp
  have below: "i' * CPU_PAGE_SIZE < usable (pieces s ! k) * CPU_PAGE_SIZE"
    using w(3) by (simp add: CPU_PAGE_SIZE_def)
  have "usable (pieces s ! k) < 2 ^ 20" using w(2) ok(2) by (simp add: layout_ok_def)
  then have i': "i' < 2 ^ 32" using w(3) by simp
  have loop: "kfindexof_loop qs a = Inr i'" if "\<forall>p \<in> set qs. usable p < 2 ^ 20" "m < length qs"
    "qs ! m = pieces s ! k"
    "\<forall>l < m. a < start (qs ! l) \<or> start (qs ! l) + usable (qs ! l) * CPU_PAGE_SIZE \<le> a" for qs m
    using that
  proof (induction qs arbitrary: m)
    case (Cons q qs)
    have q: "(usable q * CPU_PAGE_SIZE) mod 2 ^ 32 = usable q * CPU_PAGE_SIZE"
      using Cons.prems(1) by (simp add: CPU_PAGE_SIZE_def)
    show ?case
    proof (cases m)
      case 0
      then show ?thesis using Cons.prems(3) q below i' by (simp add: a' CPU_PAGE_SIZE_def)
    next
      case (Suc m')
      have "\<not> (start q \<le> a \<and> a < start q + usable q * CPU_PAGE_SIZE)"
        using Cons.prems(4) Suc by (auto dest: spec [of _ 0])
      moreover have "kfindexof_loop qs a = Inr i'"
        using Cons.prems Suc by (intro Cons.IH [of m']) (auto dest: spec [of _ "Suc _"])
      ultimately show ?thesis by (auto simp: q [simplified])
    qed
  qed simp
  have other: "a < start (pieces s ! l) \<or> start (pieces s ! l) + usable (pieces s ! l) * CPU_PAGE_SIZE \<le> a" if "l < k" for l
  proof -
    have "start (pieces s ! k) + usable (pieces s ! k) * CPU_PAGE_SIZE \<le> start (pieces s ! l) \<or>
        start (pieces s ! l) + usable (pieces s ! l) * CPU_PAGE_SIZE \<le> start (pieces s ! k)"
      using ok(2) w(2) that by (auto simp: layout_ok_def)
    then show ?thesis using below unfolding a' by linarith
  qed
  show ?thesis
    unfolding kfindexof_def using ok(2) w(2) other by (intro loop [of "pieces s" k]) (auto simp: layout_ok_def)
qed

section \<open>The contract\<close>

text \<open>
  What the paging code relies on: a frame it is given was free, is now taken and nothing else
  changed; it is given one as long as there is a free one; distinct frames do not overlap.
\<close>

locale frame_allocator =
  fixes ok :: "'s \<Rightarrow> bool"
    and cap :: "'s \<Rightarrow> nat"
    and busy :: "'s \<Rightarrow> nat \<Rightarrow> bool"
    and grab :: "'s \<Rightarrow> (nat \<times> 's) res"
    and give :: "'s \<Rightarrow> nat \<Rightarrow> 's res"
    and paddr :: "'s \<Rightarrow> nat \<Rightarrow> nat res"
  assumes grab_sound: "ok s \<Longrightarrow> grab s = Inr (i, s') \<Longrightarrow>
      ok s' \<and> i < cap s \<and> \<not> busy s i \<and> cap s' = cap s \<and> paddr s' = paddr s \<and>
      (\<forall>j < cap s. busy s' j \<longleftrightarrow> j = i \<or> busy s j)"
    and grab_complete: "ok s \<Longrightarrow> i < cap s \<Longrightarrow> \<not> busy s i \<Longrightarrow> \<exists>r. grab s = Inr r"
    and give_sound: "ok s \<Longrightarrow> i < cap s \<Longrightarrow> \<exists>s'. give s i = Inr s' \<and> ok s' \<and> cap s' = cap s \<and>
      paddr s' = paddr s \<and> (\<forall>j < cap s. busy s' j \<longleftrightarrow> j \<noteq> i \<and> busy s j)"
    and paddr_total: "ok s \<Longrightarrow> i < cap s \<Longrightarrow> \<exists>a. paddr s i = Inr a"
    and paddr_apart: "ok s \<Longrightarrow> i < cap s \<Longrightarrow> j < cap s \<Longrightarrow> i \<noteq> j \<Longrightarrow>
      paddr s i = Inr a \<Longrightarrow> paddr s j = Inr b \<Longrightarrow> a + 4096 \<le> b \<or> b + 4096 \<le> a"
begin

text \<open>Taking several frames one after the other, as \<open>kpvalloc\<close> does.\<close>

fun grabs :: "nat \<Rightarrow> 's \<Rightarrow> (nat list \<times> 's) res" where
  "grabs 0 s = Inr ([], s)"
| "grabs (Suc n) s = bindR (grab s) (\<lambda>(i, s'). mapR (\<lambda>(fs, s''). (i # fs, s'')) (grabs n s'))"

lemma grabs_sound:
  "ok s \<Longrightarrow> grabs n s = Inr (fs, s') \<Longrightarrow>
     ok s' \<and> cap s' = cap s \<and> paddr s' = paddr s \<and> length fs = n \<and> distinct fs \<and>
     (\<forall>i \<in> set fs. i < cap s \<and> \<not> busy s i) \<and> (\<forall>j < cap s. busy s' j \<longleftrightarrow> j \<in> set fs \<or> busy s j)"
proof (induction n arbitrary: s fs)
  case 0
  then show ?case by simp
next
  case (Suc n)
  obtain i s1 where g: "grab s = Inr (i, s1)"
    using Suc.prems(2) by (cases "grab s") auto
  obtain fs1 where r: "grabs n s1 = Inr (fs1, s')" and fs: "fs = i # fs1"
    using Suc.prems(2) g by (auto simp: mapR_eq_Inr_iff)
  note g1 = grab_sound [OF Suc.prems(1) g]
  from Suc.IH [OF _ r] g1 have r1: "ok s' \<and> cap s' = cap s1 \<and> paddr s' = paddr s1 \<and> length fs1 = n \<and> distinct fs1 \<and>
     (\<forall>i \<in> set fs1. i < cap s1 \<and> \<not> busy s1 i) \<and> (\<forall>j < cap s1. busy s' j \<longleftrightarrow> j \<in> set fs1 \<or> busy s1 j)"
    by blast
  with g1 show ?case unfolding fs by auto
qed

lemma grabs_complete:
  "ok s \<Longrightarrow> n \<le> card {i. i < cap s \<and> \<not> busy s i} \<Longrightarrow> \<exists>r. grabs n s = Inr r"
proof (induction n arbitrary: s)
  case 0
  then show ?case by simp
next
  case (Suc n)
  then have "{i. i < cap s \<and> \<not> busy s i} \<noteq> {}" by (metis card.empty not_less_eq_eq le0)
  then obtain i s1 where g: "grab s = Inr (i, s1)" using grab_complete [OF Suc.prems(1)] by fastforce
  note g1 = grab_sound [OF Suc.prems(1) g]
  then have "{j. j < cap s1 \<and> \<not> busy s1 j} = {j. j < cap s \<and> \<not> busy s j} - {i}" by auto
  then have "n \<le> card {j. j < cap s1 \<and> \<not> busy s1 j}"
    using Suc.prems(2) g1 by simp
  with Suc.IH [of s1] g1 g show ?case by auto
qed

end

abbreviation frame_state_ok :: "frames \<Rightarrow> bool" where
  "frame_state_ok s \<equiv> frames_ok s \<and> layout_ok (pieces s)"

interpretation fa: frame_allocator frame_state_ok frames_possible used "\<lambda>s. kfcalloc s 1"
    "\<lambda>s i. mapR snd (kffree s i)" kfpaddrof
proof (unfold_locales, goal_cases)
  case (1 s i s')
  then have "frames_ok s' \<and> same_layout s s' \<and> i + 1 \<le> frames_possible s \<and> (\<forall>j. i \<le> j \<and> j < i + 1 \<longrightarrow> \<not> used s j) \<and>
      (\<forall>j < frames_possible s. used s' j \<longleftrightarrow> i \<le> j \<and> j < i + 1 \<or> used s j)"
    using kfcalloc_spec [of s 1] by auto
  with 1 show ?case
    using layout_ok_same [of s s'] by (auto simp: same_layout_possible fun_eq_iff)
next
  case (2 s i)
  then show ?case using kfcalloc_spec [of s 1] by auto (metis Suc_leI less_Suc_eq_le le_antisym)
next
  case (3 s i)
  then show ?case
    using kffree_spec [of s i] layout_ok_same by (fastforce simp: same_layout_possible fun_eq_iff)
next
  case (4 s i)
  then show ?case using memfr_alloc_internal_spec [of s i] by blast
next
  case (5 s i j a b)
  then show ?case using kfpaddrof_disjoint [of s i j a b] by (simp add: CPU_PAGE_SIZE_def)
qed

section \<open>Properties\<close>

text \<open>
  C15: \<open>kfcalloc\<close> returns the first identifier of the first run of \<open>amount\<close> frames that were all
  free (the \<open>amount\<close> frames from any smaller identifier on contain a used one), marks exactly these
  as used, raises the count of used frames by \<open>amount\<close>, and gives up (with its panic) only when
  there is no such run.
\<close>

theorem kfcalloc_correct:
  assumes "frames_ok s" and "0 < amount"
  shows "case kfcalloc s amount of
      Inr (first, s') \<Rightarrow> frames_ok s' \<and> first + amount \<le> kfamount s \<and>
        (\<forall>j. first \<le> j \<and> j < first + amount \<longrightarrow> \<not> used s j) \<and>
        (\<forall>f < first. \<exists>j. f \<le> j \<and> j < f + amount \<and> used s j) \<and>
        (\<forall>j < kfamount s. used s' j \<longleftrightarrow> first \<le> j \<and> j < first + amount \<or> used s j) \<and>
        kfused s' = kfused s + amount
    | Inl e \<Rightarrow> e = Panic ''Failed to allocate contiguous frames'' \<and>
        (\<forall>first. first + amount \<le> kfamount s \<longrightarrow> (\<exists>j. first \<le> j \<and> j < first + amount \<and> used s j))"
proof (cases "kfcalloc s amount")
  case (Inl e)
  with kfcalloc_spec [OF assms] show ?thesis by (simp add: kfamount_def)
next
  case (Inr r)
  then obtain first s' where r: "kfcalloc s amount = Inr (first, s')" by (cases r) auto
  with kfcalloc_spec [OF assms] have s': "frames_ok s'" "same_layout s s'"
      "first + amount \<le> frames_possible s" "\<forall>j. first \<le> j \<and> j < first + amount \<longrightarrow> \<not> used s j"
      "\<forall>j < frames_possible s. used s' j \<longleftrightarrow> first \<le> j \<and> j < first + amount \<or> used s j" by auto
  have "{j. j < frames_possible s \<and> used s' j} = {first..<first + amount} \<union> {j. j < frames_possible s \<and> used s j}"
    using s'(3,5) by auto
  moreover have "{first..<first + amount} \<inter> {j. j < frames_possible s \<and> used s j} = {}" using s'(4) by auto
  ultimately have "frames_used s' = amount + frames_used s"
    using s'(1,2) assms(1) by (simp add: frames_ok_def same_layout_possible card_Un_disjoint)
  with s' r kfcalloc_first [OF assms(1) r _ assms(2)] show ?thesis by (simp add: kfamount_def kfused_def)
qed

text \<open>A machine with two pieces, three and two frames, the second frame in use.\<close>

definition two_pieces :: frames where
  "two_pieces = \<lparr>pieces = [\<lparr>start = 1048576, usable = 3, bitmap = [2]\<rparr>,
                           \<lparr>start = 16777216, usable = 2, bitmap = [0]\<rparr>],
                frames_possible = 5, frames_used = 1\<rparr>"

lemma two_pieces_used: "i < 5 \<Longrightarrow> used two_pieces i \<longleftrightarrow> i = 1"
proof -
  assume "i < 5"
  then have "i = 0 \<or> i = 1 \<or> i = 2 \<or> i = 3 \<or> i = 4" by auto
  then show ?thesis by (auto simp: used_def two_pieces_def occ_def bit_numeral_rec)
qed

lemma two_pieces_ok: "frames_ok two_pieces" "layout_ok (pieces two_pieces)"
proof -
  have "{i. i < 5 \<and> used two_pieces i} = {1}" using two_pieces_used by auto
  then show "frames_ok two_pieces" by (simp add: frames_ok_def two_pieces_def NO_START_def)
  show "layout_ok (pieces two_pieces)"
    by (simp add: layout_ok_def two_pieces_def CPU_PAGE_SIZE_def All_less_Suc less_Suc_eq)
qed

theorem kfcalloc_correct_witness:
  "\<exists>s'. kfcalloc two_pieces 2 = Inr (2, s') \<and> frames_ok s' \<and> kfused s' = 3"
proof (cases "kfcalloc two_pieces 2")
  case (Inl e)
  then have "\<forall>first. first + 2 \<le> kfamount two_pieces \<longrightarrow>
      (\<exists>j. first \<le> j \<and> j < first + 2 \<and> used two_pieces j)"
    using kfcalloc_correct [OF two_pieces_ok(1), of 2] by simp
  moreover have "2 + 2 \<le> kfamount two_pieces" by (simp add: kfamount_def two_pieces_def)
  ultimately have "\<exists>j. 2 \<le> j \<and> j < 2 + 2 \<and> used two_pieces j" by blast
  then show ?thesis using two_pieces_used by auto
next
  case (Inr r)
  then obtain first s' where r: "kfcalloc two_pieces 2 = Inr (first, s')" by (cases r) auto
  have k: "frames_ok s'" "first + 2 \<le> 5" "\<forall>j. first \<le> j \<and> j < first + 2 \<longrightarrow> \<not> used two_pieces j"
      "\<forall>f < first. \<exists>j. f \<le> j \<and> j < f + 2 \<and> used two_pieces j" "kfused s' = 3"
    using kfcalloc_correct [OF two_pieces_ok(1), of 2] r by (simp_all add: kfamount_def kfused_def two_pieces_def)
  have "\<not> 2 < first" using k(4) two_pieces_used by force
  moreover have "\<not> first < 2" using k(3) [rule_format, of 1] two_pieces_used [of 1] by force
  ultimately have "first = 2" by simp
  with k r show ?thesis by auto
qed

text \<open>
  Two different frames never share a byte of physical memory, provided that no piece of the
  memory map reaches 4 GiB and the pieces are disjoint.
\<close>

theorem frames_disjoint:
  assumes "frames_ok s" and "layout_ok (pieces s)"
    and "i < kfamount s" and "j < kfamount s" and "i \<noteq> j"
  shows "\<exists>a b. kfpaddrof s i = Inr a \<and> kfpaddrof s j = Inr b \<and>
    {a ..< a + CPU_PAGE_SIZE} \<inter> {b ..< b + CPU_PAGE_SIZE} = {}"
proof -
  obtain a b where ab: "kfpaddrof s i = Inr a" "kfpaddrof s j = Inr b"
    using fa.paddr_total [of s i] fa.paddr_total [of s j] assms by (auto simp: kfamount_def)
  from kfpaddrof_disjoint [OF assms(1,2) _ _ assms(5) ab] assms(3,4)
  have "{a ..< a + CPU_PAGE_SIZE} \<inter> {b ..< b + CPU_PAGE_SIZE} = {}" by (auto simp: kfamount_def)
  with ab show ?thesis by blast
qed

theorem frames_disjoint_witness:
  "\<exists>a b. kfpaddrof two_pieces 2 = Inr a \<and> kfpaddrof two_pieces 3 = Inr b \<and>
    {a ..< a + CPU_PAGE_SIZE} \<inter> {b ..< b + CPU_PAGE_SIZE} = {}"
  using frames_disjoint [OF two_pieces_ok, of 2 3] by (simp add: kfamount_def two_pieces_def)

text \<open>
  In a piece of more than \<open>2 ^ 20\<close> frames the 32 bit product in \<open>kfpaddrof\<close> and
  \<open>kfalloc\<close> wraps around: frame \<open>2 ^ 20 + i\<close> of the first piece gets the address of frame
  \<open>i\<close>.
\<close>

theorem frame_addr_alias:
  assumes "pieces s = p # ps" and "2 ^ 20 + i < usable p"
  shows "kfpaddrof s (2 ^ 20 + i) = kfpaddrof s i"
proof -
  have "(2 ^ 20 + i) * CPU_PAGE_SIZE = i * CPU_PAGE_SIZE + 2 ^ 32" by (simp add: CPU_PAGE_SIZE_def)
  then have "frame_addr p (2 ^ 20 + i) = frame_addr p i" by (simp add: frame_addr_def)
  with assms show ?thesis by (simp add: kfpaddrof_def)
qed

theorem frame_addr_alias_witness:
  "kfpaddrof \<lparr>pieces = [\<lparr>start = 4294967296, usable = 2 ^ 21, bitmap = []\<rparr>], frames_possible = 2 ^ 21,
     frames_used = 0\<rparr> (2 ^ 20 + 1) =
   kfpaddrof \<lparr>pieces = [\<lparr>start = 4294967296, usable = 2 ^ 21, bitmap = []\<rparr>], frames_possible = 2 ^ 21,
     frames_used = 0\<rparr> 1"
  using frame_addr_alias [of "\<lparr>pieces = [\<lparr>start = 4294967296, usable = 2 ^ 21, bitmap = []\<rparr>],
    frames_possible = 2 ^ 21, frames_used = 0\<rparr>" "\<lparr>start = 4294967296, usable = 2 ^ 21, bitmap = []\<rparr>" "[]" 1]
  by simp

text \<open>
  \<open>kfindexof\<close> returns the number of the frame inside its piece, not the frame identifier the
  other operations take: it inverts \<open>kfpaddrof\<close> on the first piece only, and on every later
  piece a caller such as \<open>kpfree\<close> frees a different frame.
\<close>

theorem kfindexof_piece_local:
  assumes "frames_ok s" and "layout_ok (pieces s)" and "pieces s = p # ps" and "i < kfamount s"
  shows "\<exists>a. kfpaddrof s i = Inr a \<and>
    (if i < usable p then kfindexof s a = Inr i
     else 0 < usable p \<longrightarrow> (\<exists>i'. kfindexof s a = Inr i' \<and> i' \<noteq> i))"
proof -
  have i: "i < frames_possible s" using assms(4) by (simp add: kfamount_def)
  obtain a where a: "kfpaddrof s i = Inr a" using fa.paddr_total [of s i] assms(1,2) i by blast
  obtain k i' where loc: "locate (pieces s) i = (k, i')" by fastforce
  have idx: "kfindexof s a = Inr i'" by (rule kfindexof_local [OF assms(1,2) i loc a])
  have le: "i' \<le> j" if "locate ps j = (k, i')" for j k i' and ps :: "piece list"
    using that by (induction ps arbitrary: j k) (fastforce split: if_splits prod.splits)+
  have "if i < usable p then i' = i else 0 < usable p \<longrightarrow> i' < i"
    using loc le [of ps "i - usable p"] assms(3) by (fastforce split: if_splits prod.splits)
  with a idx show ?thesis by (auto split: if_splits)
qed

theorem kfindexof_piece_local_witness:
  "\<exists>a. kfpaddrof two_pieces 4 = Inr a \<and> (\<exists>i'. kfindexof two_pieces a = Inr i' \<and> i' \<noteq> 4)"
  using kfindexof_piece_local [OF two_pieces_ok, of _ _ 4] by (simp add: kfamount_def two_pieces_def)

end
