(* ===== verification/Page.thy ===== *)
theory Page
  imports Frame
begin

unbundle bit_operations_syntax

text \<open>
  \<^verbatim>\<open>arch/x64/page.c\<close>: the four level page tables. Physical memory that holds tables is a
  function from page addresses to arrays of 512 entries; \<open>aim_pgsptr\<close> maps the page of its
  argument into a window, so that \<open>pgsptr[i]\<close> is entry \<open>i\<close> of that table. Frames come from
  \<^verbatim>\<open>mem/frame.c\<close>. The operations run under the pagemap's lock and the lock of the window, and
  are single steps.
\<close>

section \<open>State\<close>

record pagemap =
  root_dir :: u64
  vstart :: u64
  vend :: u64
  pm_frames_used :: u64
  dir_frames_used :: u64
  map_frames_used :: u64

record pgstate =
  store :: "u64 \<Rightarrow> u64 list"
  frs :: frames
  pmap :: pagemap

definition MEM_PAGE_MASK :: u64 where "MEM_PAGE_MASK = NOT 0xFFF"
definition PAGE_PRESENT :: u64 where "PAGE_PRESENT = 1"
definition PAGE_WRITE :: u64 where "PAGE_WRITE = 2"
definition PAGE_USER :: u64 where "PAGE_USER = 4"
definition PAGE_NOPHYS :: u64 where "PAGE_NOPHYS = 0x200"

lemmas page_defs = MEM_PAGE_MASK_def PAGE_PRESENT_def PAGE_WRITE_def PAGE_USER_def PAGE_NOPHYS_def

definition pt_index :: "nat \<Rightarrow> u64 \<Rightarrow> nat" where
  "pt_index shift virt = unat (drop_bit shift virt AND 0x1FF)"

definition dir_path :: "u64 \<Rightarrow> nat list" where
  "dir_path virt = [pt_index 39 virt, pt_index 30 virt, pt_index 21 virt]"

section \<open>Finding a page table\<close>

text \<open>
  \<open>_mempg_find_table\<close>: the table of the lowest level, or how much of the address space the missing
  entry spans. A missing entry is one that is zero.
\<close>

fun find_table :: "(u64 \<Rightarrow> u64 list) \<Rightarrow> u64 \<Rightarrow> (nat \<times> u64) list \<Rightarrow> u64 + u64" where
  "find_table m a [] = Inr (a AND MEM_PAGE_MASK)"
| "find_table m a ((i, skip) # is') =
     (if m (a AND MEM_PAGE_MASK) ! i = 0 then Inl skip
      else find_table m (m (a AND MEM_PAGE_MASK) ! i AND MEM_PAGE_MASK) is')"

definition mempg_find_table' :: "pgstate \<Rightarrow> u64 \<Rightarrow> u64 + u64" where
  "mempg_find_table' s virt =
     find_table (store s) (root_dir (pmap s))
       [(pt_index 39 virt, 0x8000000000), (pt_index 30 virt, 0x40000000), (pt_index 21 virt, 0x200000)]"

definition mempg_find_table :: "pgstate \<Rightarrow> u64 \<Rightarrow> u64 option" where
  "mempg_find_table s virt = (case mempg_find_table' s virt of Inl _ \<Rightarrow> None | Inr t \<Rightarrow> Some t)"

text \<open>
  \<open>mempg_find_table_ensure\<close>: the loop over the three directory levels, with the indices still to
  be followed; a directory that is not present is taken from the frame allocator and cleared.
\<close>

fun ensure_loop :: "pgstate \<Rightarrow> u64 \<Rightarrow> nat list \<Rightarrow> (u64 \<times> pgstate) res" where
  "ensure_loop s a [] = Inr (a, s)"
| "ensure_loop s a (i # is') =
     (let e = store s a ! i
      in if e AND PAGE_PRESENT = 0
         then bindR (kfcalloc (frs s) 1) (\<lambda>(frame_id, fr).
              bindR (kfpaddrof fr frame_id) (\<lambda>paddr.
                let e' = word_of_nat paddr OR PAGE_USER OR PAGE_WRITE OR PAGE_PRESENT;
                    a' = e' AND MEM_PAGE_MASK;
                    m1 = (store s)(a := (store s a)[i := e']);
                    m2 = m1(a' := replicate 512 0)
                in ensure_loop (s\<lparr>store := m2, frs := fr,
                     pmap := (pmap s)\<lparr>dir_frames_used := dir_frames_used (pmap s) + 1\<rparr>\<rparr>) a' is'))
         else let e' = e OR PAGE_USER OR PAGE_WRITE OR PAGE_PRESENT
              in ensure_loop (s\<lparr>store := (store s)(a := (store s a)[i := e'])\<rparr>) (e' AND MEM_PAGE_MASK) is')"

definition mempg_find_table_ensure :: "pgstate \<Rightarrow> u64 \<Rightarrow> (u64 \<times> pgstate) res" where
  "mempg_find_table_ensure s virt =
     mapR (\<lambda>(t, s'). (t AND MEM_PAGE_MASK, s'))
       (ensure_loop s (root_dir (pmap s) AND MEM_PAGE_MASK) (dir_path virt))"

section \<open>Mappings\<close>

definition mempg_assign :: "pgstate \<Rightarrow> u64 \<Rightarrow> u64 \<Rightarrow> u64 \<Rightarrow> pgstate res" where
  "mempg_assign s virt phys flags =
     (let virt_addr = virt AND MEM_PAGE_MASK; phys_addr = phys AND MEM_PAGE_MASK
      in mapR (\<lambda>(t, s'). s'\<lparr>store := (store s')(t :=
             (store s' t)[pt_index 12 virt_addr := phys_addr OR flags OR PAGE_PRESENT])\<rparr>)
           (mempg_find_table_ensure s virt_addr))"

definition mempg_remove :: "pgstate \<Rightarrow> u64 \<Rightarrow> (u64 \<times> pgstate) res" where
  "mempg_remove s virt =
     (let virt_addr = virt AND MEM_PAGE_MASK
      in mapR (\<lambda>(t, s'). (store s' t ! pt_index 12 virt_addr AND NOT MEM_PAGE_MASK,
             s'\<lparr>store := (store s')(t := (store s' t)[pt_index 12 virt_addr := 0])\<rparr>))
           (mempg_find_table_ensure s virt_addr))"

definition kppaddrof' :: "pgstate \<Rightarrow> u64 \<Rightarrow> (u64 \<times> pgstate) res" where
  "kppaddrof' s virt =
     (let virt_addr = virt AND MEM_PAGE_MASK
      in mapR (\<lambda>(t, s'). ((store s' t ! pt_index 12 virt_addr AND MEM_PAGE_MASK) + (virt AND NOT MEM_PAGE_MASK), s'))
           (mempg_find_table_ensure s virt_addr))"

definition kppaddrof :: "pgstate \<Rightarrow> u64 \<Rightarrow> (u64 \<times> pgstate) res" where
  "kppaddrof s virt = kppaddrof' s virt"

definition kpframeof :: "pgstate \<Rightarrow> u64 \<Rightarrow> (nat \<times> pgstate) res" where
  "kpframeof s virt =
     bindR (kppaddrof s virt) (\<lambda>(pa, s'). mapR (\<lambda>i. (i, s')) (kfindexof (frs s') (unat pa)))"

text \<open>The loop of \<open>kpvalloc\<close>: a frame for every page of the range.\<close>

fun kpvalloc_loop :: "nat \<Rightarrow> pgstate \<Rightarrow> u64 \<Rightarrow> u64 \<Rightarrow> pgstate res" where
  "kpvalloc_loop 0 s virt flags = Inr s"
| "kpvalloc_loop (Suc n) s virt flags =
     bindR (kfcalloc (frs s) 1) (\<lambda>(frame, fr).
     bindR (kfpaddrof fr frame) (\<lambda>phys.
     bindR (mempg_assign (s\<lparr>frs := fr\<rparr>) virt (word_of_nat phys) flags)
       (\<lambda>s'. kpvalloc_loop n s' (virt + 4096) flags)))"

definition kpvalloc :: "pgstate \<Rightarrow> nat \<Rightarrow> u64 \<Rightarrow> u64 \<Rightarrow> (u64 \<times> pgstate) res" where
  "kpvalloc s amount virt flags =
     (if amount = 0 then Inr (0, s)
      else mapR (\<lambda>s'. (virt, s'\<lparr>pmap := (pmap s')\<lparr>pm_frames_used := pm_frames_used (pmap s') + word_of_nat amount\<rparr>\<rparr>))
             (kpvalloc_loop amount s virt (flags AND 0xFFF)))"

text \<open>The loop \<open>kpcalloc\<close>, \<open>kpmap\<close> and \<open>mempg_mapvto\<close> share: consecutive physical pages.\<close>

fun assign_run :: "nat \<Rightarrow> pgstate \<Rightarrow> u64 \<Rightarrow> u64 \<Rightarrow> u64 \<Rightarrow> pgstate res" where
  "assign_run 0 s virt phys flags = Inr s"
| "assign_run (Suc n) s virt phys flags =
     bindR (mempg_assign s virt phys flags) (\<lambda>s'. assign_run n s' (virt + 4096) (phys + 4096) flags)"

definition mempg_mapvto :: "pgstate \<Rightarrow> nat \<Rightarrow> u64 \<Rightarrow> u64 \<Rightarrow> u64 \<Rightarrow> (u64 \<times> pgstate) res" where
  "mempg_mapvto s amount virt phys flags =
     mapR (\<lambda>s'. (virt, s'\<lparr>pmap := (pmap s')\<lparr>map_frames_used := map_frames_used (pmap s') + word_of_nat amount\<rparr>\<rparr>))
       (assign_run amount s virt phys ((flags AND 0xFFF) OR PAGE_NOPHYS))"

text \<open>
  \<open>mempg_find_contiguous\<close>: the search for free pages from \<open>vstart\<close> on. The source's loop has no
  bound; the model's has fuel, and running out of it is a hang.
\<close>

fun find_contiguous_loop ::
    "nat \<Rightarrow> pgstate \<Rightarrow> nat \<Rightarrow> nat \<Rightarrow> u64 \<Rightarrow> u64 \<Rightarrow> nat \<Rightarrow> u64 \<Rightarrow> u64 res" where
  "find_contiguous_loop 0 s amount ix virt st combo tb = Inl Hang"
| "find_contiguous_loop (Suc fuel) s amount ix virt st combo tb =
     (case (if 512 \<le> ix then map_option (Pair 0) (mempg_find_table s virt) else Some (ix, tb)) of
        None \<Rightarrow>
          if amount \<le> combo + 512 then Inr st
          else find_contiguous_loop fuel s amount 512 (virt + 4096 * 512) st (combo + 512) tb
      | Some (ix', tb') \<Rightarrow>
          if store s tb' ! ix' \<noteq> 0
          then find_contiguous_loop fuel s amount (Suc ix') (virt + 4096) (virt + 4096) 0 tb'
          else if amount \<le> combo + 1 then Inr st
          else find_contiguous_loop fuel s amount (Suc ix') (virt + 4096) st (combo + 1) tb')"

definition mempg_find_contiguous :: "nat \<Rightarrow> pgstate \<Rightarrow> nat \<Rightarrow> (u64 \<times> pgstate) res" where
  "mempg_find_contiguous fuel s amount =
     (if amount = 0 then Inr (0, s)
      else let virt = vstart (pmap s)
           in bindR (case mempg_find_table s virt of Some t \<Rightarrow> Inr (t, s) | None \<Rightarrow> mempg_find_table_ensure s virt)
                (\<lambda>(tb, s'). mapR (\<lambda>a. (a, s'))
                   (find_contiguous_loop fuel s' amount (pt_index 12 virt) virt virt 0 tb)))"

definition kpcalloc :: "nat \<Rightarrow> pgstate \<Rightarrow> nat \<Rightarrow> u64 \<Rightarrow> (u64 \<times> pgstate) res" where
  "kpcalloc fuel s amount flags =
     (if amount = 0 then Inr (0, s)
      else bindR (kfcalloc (frs s) amount) (\<lambda>(frame, fr).
           bindR (kfpaddrof fr frame) (\<lambda>phys.
           bindR (mempg_find_contiguous fuel (s\<lparr>frs := fr\<rparr>) amount) (\<lambda>(virt, s1).
             mapR (\<lambda>s2. (virt, s2\<lparr>pmap := (pmap s2)\<lparr>pm_frames_used := pm_frames_used (pmap s2) + word_of_nat amount\<rparr>\<rparr>))
               (assign_run amount s1 virt (word_of_nat phys) (flags AND 0xFFF))))))"

definition kpmap :: "nat \<Rightarrow> pgstate \<Rightarrow> nat \<Rightarrow> u64 \<Rightarrow> u64 \<Rightarrow> (u64 \<times> pgstate) res" where
  "kpmap fuel s amount0 phys flags =
     (let offset = phys AND 0xFFF;
          amount = (if offset = 0 then amount0 else amount0 + 1)
      in bindR (mempg_find_contiguous fuel s amount) (\<lambda>(virt, s1).
           mapR (\<lambda>s2. (virt + offset,
               s2\<lparr>pmap := (pmap s2)\<lparr>map_frames_used := map_frames_used (pmap s2) + word_of_nat amount\<rparr>\<rparr>))
             (assign_run amount s1 virt (phys - offset) ((flags AND 0xFFF) OR PAGE_NOPHYS))))"

fun kpfree_loop :: "nat \<Rightarrow> pgstate \<Rightarrow> u64 \<Rightarrow> pgstate res" where
  "kpfree_loop 0 s virt = Inr s"
| "kpfree_loop (Suc n) s virt =
     bindR (kppaddrof' s virt) (\<lambda>(paddr, s1).
     bindR (mempg_remove s1 virt) (\<lambda>(flags, s2).
     bindR (if flags AND PAGE_NOPHYS = 0
            then bindR (kfindexof (frs s2) (unat paddr)) (\<lambda>i.
                 mapR (\<lambda>(_, fr). s2\<lparr>frs := fr,
                     pmap := (pmap s2)\<lparr>pm_frames_used := pm_frames_used (pmap s2) - 1\<rparr>\<rparr>) (kffree (frs s2) i))
            else Inr (s2\<lparr>pmap := (pmap s2)\<lparr>map_frames_used := map_frames_used (pmap s2) - 1\<rparr>\<rparr>))
       (\<lambda>s3. kpfree_loop n s3 (virt + 4096))))"

definition kpfree :: "pgstate \<Rightarrow> u64 \<Rightarrow> nat \<Rightarrow> pgstate res" where
  "kpfree s virt amount =
     (if virt AND 0xFFF \<noteq> 0 then Inl (Panic ''free alignment'') else kpfree_loop amount s virt)"

definition kpunmap :: "pgstate \<Rightarrow> u64 \<Rightarrow> nat \<Rightarrow> pgstate res" where
  "kpunmap s virt amount = kpfree s virt amount"

section \<open>Words\<close>

lemma page_mask: "MEM_PAGE_MASK = NOT (mask 12)"
  by (simp add: MEM_PAGE_MASK_def mask_eq_exp_minus_1)

lemma pt_index_nat: "pt_index k v = (unat v div 2 ^ k) mod 512"
proof -
  have "(0x1FF :: u64) = mask 9" by (simp add: mask_eq_exp_minus_1)
  then have "pt_index k v = unat (take_bit 9 (drop_bit k v))"
    by (simp add: pt_index_def take_bit_eq_mask)
  also have "\<dots> = take_bit 9 (drop_bit k (take_bit 64 (unat v)))"
    by (simp add: unsigned_take_bit_eq unsigned_drop_bit_eq)
  also have "take_bit 64 (unat v) = unat v"
    using unsigned_less [of v] by (intro take_bit_nat_eq_self) simp
  finally show ?thesis by (simp add: take_bit_eq_mod drop_bit_eq_div)
qed

lemma pt_index_less [simp]: "pt_index k v < 512"
  by (simp add: pt_index_nat)

lemma low_flags: "(4 :: u64) OR 2 OR 1 = mask 3"
  by (simp add: mask_eq_exp_minus_1)

lemma mask_flags: "(e OR PAGE_USER OR PAGE_WRITE OR PAGE_PRESENT) AND MEM_PAGE_MASK = e AND MEM_PAGE_MASK"
  unfolding page_mask page_defs(2-4) low_flags or.assoc
  by (rule bit_word_eqI) (auto simp: bit_simps)

lemma present_flags: "(e OR PAGE_USER OR PAGE_WRITE OR PAGE_PRESENT) AND PAGE_PRESENT \<noteq> 0"
  unfolding page_defs(2-4) low_flags or.assoc
  by (simp add: and_one_eq odd_iff_mod_2_eq_one [symmetric] bit_0 [symmetric] bit_simps)

lemma mask_idem [simp]: "(e AND MEM_PAGE_MASK) AND MEM_PAGE_MASK = e AND MEM_PAGE_MASK"
  by (simp add: and.assoc)

lemma aligned_mask: "4096 dvd n \<Longrightarrow> n < 2 ^ 64 \<Longrightarrow> (word_of_nat n :: u64) AND MEM_PAGE_MASK = word_of_nat n"
proof -
  assume "4096 dvd n" and "n < 2 ^ 64"
  then obtain q where q: "n = 2 ^ 12 * q" by (auto simp: dvd_def)
  have "(word_of_nat n :: u64) = push_bit 12 (word_of_nat q)"
    unfolding q by (simp add: push_bit_eq_mult mult.commute)
  then show ?thesis
    unfolding page_mask by (simp, intro bit_word_eqI) (auto simp: bit_simps)
qed

section \<open>The tree of tables\<close>

text \<open>Following a list of indices from a table.\<close>

definition next_table :: "(u64 \<Rightarrow> u64 list) \<Rightarrow> u64 \<Rightarrow> nat \<Rightarrow> u64 option" where
  "next_table m a i = (let e = m a ! i in if e AND PAGE_PRESENT = 0 then None else Some (e AND MEM_PAGE_MASK))"

fun walk :: "(u64 \<Rightarrow> u64 list) \<Rightarrow> u64 \<Rightarrow> nat list \<Rightarrow> u64 option" where
  "walk m a [] = Some a"
| "walk m a (i # is') = Option.bind (next_table m a i) (\<lambda>b. walk m b is')"

lemma walk_append: "walk m a (p @ q) = Option.bind (walk m a p) (\<lambda>b. walk m b q)"
  by (induction p arbitrary: a) (auto simp: Option.bind_assoc)

lemma walk_snoc: "walk m a (p @ [i]) = Option.bind (walk m a p) (\<lambda>b. next_table m b i)"
  by (simp add: walk_append)

definition dirs :: "nat list \<Rightarrow> bool" where
  "dirs p \<longleftrightarrow> length p \<le> 3 \<and> set p \<subseteq> {..<512}"

lemma dirs_snocD: "dirs (p @ [i]) \<Longrightarrow> dirs p \<and> length p < 3 \<and> i < 512"
  by (auto simp: dirs_def)

lemma dirs_path [simp]: "dirs (dir_path v)"
  by (auto simp: dirs_def dir_path_def)

text \<open>
  Well-formed tables: every table that is reached is an array of 512 entries in a frame that the
  allocator has marked as used, and no table is reached along two paths.
\<close>

definition frame_at :: "frames \<Rightarrow> u64 \<Rightarrow> bool" where
  "frame_at fr a \<longleftrightarrow> (\<exists>f n. f < frames_possible fr \<and> used fr f \<and> kfpaddrof fr f = Inr n \<and> a = word_of_nat n)"

definition frames_sane :: "frames \<Rightarrow> bool" where
  "frames_sane fr \<longleftrightarrow> frames_ok fr \<and> layout_ok (pieces fr) \<and>
     (\<forall>f n. f < frames_possible fr \<longrightarrow> kfpaddrof fr f = Inr n \<longrightarrow> 4096 dvd n \<and> n < 2 ^ 64)"

definition tables_ok :: "(u64 \<Rightarrow> u64 list) \<Rightarrow> frames \<Rightarrow> u64 \<Rightarrow> bool" where
  "tables_ok m fr root \<longleftrightarrow>
     (\<forall>p a. dirs p \<longrightarrow> walk m root p = Some a \<longrightarrow> length (m a) = 512 \<and> frame_at fr a) \<and>
     (\<forall>p q a. dirs p \<longrightarrow> dirs q \<longrightarrow> walk m root p = Some a \<longrightarrow> walk m root q = Some a \<longrightarrow> p = q)"

lemma tables_okD:
  assumes "tables_ok m fr root" and "dirs p" and "walk m root p = Some a"
  shows "length (m a) = 512" and "frame_at fr a"
    and "dirs q \<Longrightarrow> walk m root q = Some a \<Longrightarrow> q = p"
  using assms unfolding tables_ok_def by blast+

text \<open>What a virtual address is mapped to: the entry of its page, zero when a table is missing.\<close>

definition leaf :: "(u64 \<Rightarrow> u64 list) \<Rightarrow> u64 \<Rightarrow> u64 \<Rightarrow> u64" where
  "leaf m root v = (case walk m root (dir_path v) of Some t \<Rightarrow> m t ! pt_index 12 v | None \<Rightarrow> 0)"

subsection \<open>An entry that is present gets its flags raised\<close>

lemma next_table_flags:
  assumes "i < length (m a)" and "m a ! i AND PAGE_PRESENT \<noteq> 0"
  shows "next_table (m(a := (m a)[i := m a ! i OR PAGE_USER OR PAGE_WRITE OR PAGE_PRESENT])) b j = next_table m b j"
  using assms mask_flags present_flags
  by (cases "b = a"; cases "j = i") (auto simp: next_table_def Let_def)

lemma walk_cong: "(\<And>b j. next_table m b j = next_table m' b j) \<Longrightarrow> walk m a p = walk m' a p"
  by (induction p arbitrary: a) auto

lemma raise_flags_ok:
  assumes ok: "tables_ok m fr root" and p: "dirs (p @ [i])" "walk m root p = Some a"
    and pr: "m a ! i AND PAGE_PRESENT \<noteq> 0"
  defines "m' \<equiv> m(a := (m a)[i := m a ! i OR PAGE_USER OR PAGE_WRITE OR PAGE_PRESENT])"
  shows "tables_ok m' fr root" and "walk m' root q = walk m root q" and "leaf m' root v = leaf m root v"
proof -
  note pd = dirs_snocD [OF p(1)]
  have len: "length (m a) = 512" using tables_okD(1) [OF ok _ p(2)] pd by blast
  have w: "walk m' root q = walk m root q" for q
    unfolding m'_def by (rule walk_cong) (rule next_table_flags, use len pd pr in auto)
  then show "walk m' root q = walk m root q" .
  show "tables_ok m' fr root"
    using ok unfolding tables_ok_def w by (auto simp: m'_def)
  have "m' t = m t" if "walk m root (dir_path v) = Some t" for t
  proof -
    have "t \<noteq> a"
      using tables_okD(3) [OF ok dirs_path that, of p] p(2) pd by (auto simp: dir_path_def)
    then show ?thesis by (simp add: m'_def)
  qed
  then show "leaf m' root v = leaf m root v" by (auto simp: leaf_def w split: option.split)
qed

subsection \<open>A missing entry gets a new table\<close>

lemma next_table_zero [simp]: "i < 512 \<Longrightarrow> m a = replicate 512 0 \<Longrightarrow> next_table m a i = None"
  by (simp add: next_table_def)

lemma new_table_walk:
  assumes ok: "tables_ok m fr root" and p: "dirs (p @ [i])" "walk m root p = Some a"
    and ab: "m a ! i AND PAGE_PRESENT = 0" and fresh: "\<forall>q b. dirs q \<longrightarrow> walk m root q = Some b \<longrightarrow> b \<noteq> n"
    and e: "e AND PAGE_PRESENT \<noteq> 0" "e AND MEM_PAGE_MASK = n"
  defines "m' \<equiv> (m(a := (m a)[i := e]))(n := replicate 512 0)"
  shows "dirs q \<Longrightarrow> walk m' root q =
    (if q = p @ [i] then Some n else if take (Suc (length p)) q = p @ [i] then None else walk m root q)"
proof (induction q rule: rev_induct)
  case Nil
  then show ?case by simp
next
  case (snoc j q)
  note d = dirs_snocD [OF snoc.prems] dirs_snocD [OF p(1)]
  have len: "length (m a) = 512" "a \<noteq> n" using tables_okD(1) [OF ok _ p(2)] fresh p(2) d by blast+
  note ih = snoc.IH [OF d(1) [THEN conjunct1]]
  show ?case
  proof (cases "take (Suc (length p)) q = p @ [i]")
    case True
    then have "length (take (Suc (length p)) q) = Suc (length p)" by simp
    then have lq: "length p < length q" by simp
    with True have "take (Suc (length p)) (q @ [j]) = p @ [i]" by simp
    moreover have "q @ [j] \<noteq> p @ [i]" using lq by auto
    moreover have "next_table m' n j = None" using d(1) by (simp add: m'_def)
    then have "walk m' root (q @ [j]) = None"
      unfolding walk_snoc using ih True by (cases "q = p @ [i]") simp_all
    ultimately show ?thesis by simp
  next
    case False
    then have q: "q \<noteq> p @ [i]" by auto
    have wq: "walk m' root q = walk m root q" using ih False q by simp
    show ?thesis
    proof (cases "q @ [j] = p @ [i]")
      case True
      then have "q = p" "j = i" by auto
      moreover have "next_table m' a i = Some n" using len d e by (simp add: m'_def next_table_def Let_def)
      ultimately show ?thesis using wq p(2) by (simp add: walk_snoc)
    next
      case neq: False
      have "take (Suc (length p)) (q @ [j]) \<noteq> p @ [i]"
      proof
        assume t: "take (Suc (length p)) (q @ [j]) = p @ [i]"
        show False
        proof (cases "Suc (length p) \<le> length q")
          case True
          with t False show False by simp
        next
          case False
          then have "take (Suc (length p)) (q @ [j]) = q @ [j]" by simp
          with t neq show False by simp
        qed
      qed
      moreover have "next_table m' b j = next_table m b j" if b: "walk m root q = Some b" for b
      proof (cases "b = a")
        case True
        then have "q = p" using tables_okD(3) [OF ok _ p(2), of q] b d by blast
        with neq have "j \<noteq> i" by simp
        with True len show ?thesis by (simp add: m'_def next_table_def)
      next
        case False
        moreover have "b \<noteq> n" using fresh b d by blast
        ultimately show ?thesis by (simp add: m'_def next_table_def)
      qed
      ultimately show ?thesis using wq neq by (cases "walk m root q") (auto simp: walk_snoc)
    qed
  qed
qed

lemma new_table_ok:
  assumes ok: "tables_ok m fr root" and p: "dirs (p @ [i])" "walk m root p = Some a"
    and ab: "m a ! i AND PAGE_PRESENT = 0" and fresh: "\<forall>q b. dirs q \<longrightarrow> walk m root q = Some b \<longrightarrow> b \<noteq> n"
    and e: "e AND PAGE_PRESENT \<noteq> 0" "e AND MEM_PAGE_MASK = n"
    and fr': "\<forall>b. frame_at fr b \<longrightarrow> frame_at fr' b" "frame_at fr' n"
  defines "m' \<equiv> (m(a := (m a)[i := e]))(n := replicate 512 0)"
  shows "tables_ok m' fr' root" and "walk m' root (p @ [i]) = Some n" and "leaf m' root v = leaf m root v"
proof -
  note w = new_table_walk [OF ok p ab fresh e, folded m'_def]
  note d = dirs_snocD [OF p(1)]
  have len: "length (m a) = 512" "a \<noteq> n" using tables_okD(1) [OF ok _ p(2)] fresh p(2) d by blast+
  show wp: "walk m' root (p @ [i]) = Some n" using w [OF p(1)] by simp
  have reach: "q = p @ [i] \<and> b = n \<or> walk m root q = Some b \<and> b \<noteq> n" if "dirs q" "walk m' root q = Some b" for q b
    using w [OF that(1)] that fresh by (auto split: if_splits)
  show "tables_ok m' fr' root"
    unfolding tables_ok_def
  proof (intro conjI allI impI)
    fix q b assume q: "dirs q" "walk m' root q = Some b"
    show "length (m' b) = 512"
      using reach [OF q] tables_okD(1) [OF ok q(1)] len by (auto simp: m'_def)
    show "frame_at fr' b" using reach [OF q] tables_okD(2) [OF ok q(1)] fr' by blast
  next
    fix q r b assume "dirs q" "dirs r" "walk m' root q = Some b" "walk m' root r = Some b"
    then show "q = r" using reach [of q b] reach [of r b] tables_okD(3) [OF ok, of q b r] by metis
  qed
  show "leaf m' root v = leaf m root v"
  proof (cases "walk m' root (dir_path v)")
    case None
    have "walk m root (dir_path v) = None"
    proof (rule ccontr)
      assume "walk m root (dir_path v) \<noteq> None"
      then have t: "take (Suc (length p)) (dir_path v) = p @ [i]"
        using w [OF dirs_path, of v] None by (auto split: if_splits)
      then obtain r where "dir_path v = (p @ [i]) @ r" by (metis append_take_drop_id)
      with \<open>walk m root (dir_path v) \<noteq> None\<close> p(2) ab show False
        by (auto simp: walk_append next_table_def)
    qed
    with None show ?thesis by (simp add: leaf_def)
  next
    case (Some t)
    from reach [OF dirs_path Some] show ?thesis
    proof
      assume n: "dir_path v = p @ [i] \<and> t = n"
      then have "walk m root (dir_path v) = None" using p(2) ab by (simp add: walk_append next_table_def)
      with n Some show ?thesis by (simp add: leaf_def m'_def)
    next
      assume t: "walk m root (dir_path v) = Some t \<and> t \<noteq> n"
      then have "t \<noteq> a" using tables_okD(3) [OF ok dirs_path, of v t p] p(2) d by (auto simp: dir_path_def)
      with t Some show ?thesis by (simp add: leaf_def m'_def)
    qed
  qed
qed

section \<open>Frames of the allocator as tables\<close>

lemma frames_sane_same:
  assumes "frames_sane fr" and "frames_ok fr'" and "same_layout fr fr'"
  shows "frames_sane fr'"
  using assms layout_ok_same [OF assms(3)] by (simp add: frames_sane_def same_layout_possible)

lemma frames_sane_fa: "frames_sane fr \<Longrightarrow> frames_ok fr \<and> layout_ok (pieces fr)"
  by (simp add: frames_sane_def)

text \<open>Frames are only taken: the addresses stay, used frames stay used.\<close>

definition frames_le :: "frames \<Rightarrow> frames \<Rightarrow> bool" where
  "frames_le fr fr' \<longleftrightarrow> frames_possible fr' = frames_possible fr \<and> kfpaddrof fr' = kfpaddrof fr \<and>
     (\<forall>f < frames_possible fr. used fr f \<longrightarrow> used fr' f)"

lemma frames_le_refl [simp]: "frames_le fr fr"
  by (simp add: frames_le_def)

lemma frames_le_trans: "frames_le a b \<Longrightarrow> frames_le b c \<Longrightarrow> frames_le a c"
  by (simp add: frames_le_def)

lemma frames_le_at: "frames_le fr fr' \<Longrightarrow> frame_at fr b \<Longrightarrow> frame_at fr' b"
  unfolding frames_le_def frame_at_def by auto

lemma tables_ok_le: "frames_le fr fr' \<Longrightarrow> tables_ok m fr root \<Longrightarrow> tables_ok m fr' root"
  unfolding tables_ok_def using frames_le_at by blast

text \<open>A frame the allocator hands out: aligned, marked, and no table so far.\<close>

lemma grab_frame:
  assumes sane: "frames_sane fr" and g: "kfcalloc fr 1 = Inr (f, fr')"
  obtains n where "kfpaddrof fr' f = Inr n" and "frames_sane fr'" and "4096 dvd n" and "n < 2 ^ 64"
    and "\<not> frame_at fr (word_of_nat n)" and "frame_at fr' (word_of_nat n)"
    and "frames_le fr fr'" and "f < frames_possible fr" and "\<not> used fr f" and "used fr' f"
proof -
  note gs = fa.grab_sound [OF frames_sane_fa [OF sane] g]
  obtain n where n: "kfpaddrof fr f = Inr n" using fa.paddr_total [OF frames_sane_fa [OF sane]] gs by blast
  have an: "4096 dvd n" "n < 2 ^ 64" using sane gs n by (auto simp: frames_sane_def)
  have eq: "kfpaddrof fr' = kfpaddrof fr" "frames_possible fr' = frames_possible fr" using gs by auto
  have sane': "frames_sane fr'" using sane gs unfolding frames_sane_def eq by auto
  have "\<not> frame_at fr (word_of_nat n)"
  proof
    assume "frame_at fr (word_of_nat n)"
    then obtain g k where gk: "g < frames_possible fr" "used fr g" "kfpaddrof fr g = Inr k"
      "(word_of_nat n :: u64) = word_of_nat k" by (auto simp: frame_at_def)
    have k: "k < 2 ^ 64" using sane gk(1,3) by (auto simp: frames_sane_def)
    have u: "unat (word_of_nat x :: u64) = x" if "x < 2 ^ 64" for x
      using that by (simp add: unsigned_of_nat take_bit_nat_eq_self)
    have "n = k" using arg_cong [OF gk(4), of unat] u [OF an(2)] u [OF k] by simp
    moreover have "g \<noteq> f" using gk(2) gs by auto
    ultimately show False
      using fa.paddr_apart [OF frames_sane_fa [OF sane], of f g n k] gs gk n by auto
  qed
  moreover have "frame_at fr' (word_of_nat n)" using gs n by (auto simp: frame_at_def eq)
  moreover have "frames_le fr fr'" using gs by (auto simp: frames_le_def eq)
  ultimately show thesis using that n an sane' eq gs by auto
qed

text \<open>The state invariant and what walking with allocation does to it.\<close>

definition pg_ok :: "pgstate \<Rightarrow> bool" where
  "pg_ok s \<longleftrightarrow> frames_sane (frs s) \<and> root_dir (pmap s) AND MEM_PAGE_MASK = root_dir (pmap s) \<and>
     tables_ok (store s) (frs s) (root_dir (pmap s))"

abbreviation pg_leaf :: "pgstate \<Rightarrow> u64 \<Rightarrow> u64" where
  "pg_leaf s v \<equiv> leaf (store s) (root_dir (pmap s)) v"

lemma ensure_loop_ok:
  assumes "pg_ok s" and "dirs (p @ is')" and "walk (store s) (root_dir (pmap s)) p = Some a"
    and "a AND MEM_PAGE_MASK = a" and "ensure_loop s a is' = Inr (t, s')"
  shows "pg_ok s' \<and> root_dir (pmap s') = root_dir (pmap s) \<and> t AND MEM_PAGE_MASK = t \<and>
    walk (store s') (root_dir (pmap s)) (p @ is') = Some t \<and> (\<forall>v. pg_leaf s' v = pg_leaf s v) \<and>
    frames_le (frs s) (frs s')"
  using assms
proof (induction is' arbitrary: s p a)
  case Nil
  then show ?case by simp
next
  case (Cons i is')
  let ?r = "root_dir (pmap s)" and ?m = "store s"
  have tk: "tables_ok ?m (frs s) ?r" and sane: "frames_sane (frs s)" using Cons.prems(1) by (simp_all add: pg_ok_def)
  have dp: "dirs (p @ [i])" using Cons.prems(2) by (auto simp: dirs_def)
  show ?case
  proof (cases "?m a ! i AND PAGE_PRESENT = 0")
    case ab: True
    obtain f fr where g: "kfcalloc (frs s) 1 = Inr (f, fr)"
      using Cons.prems(5) ab by (cases "kfcalloc (frs s) 1") auto
    obtain n where n: "kfpaddrof fr f = Inr n" "frames_sane fr" "4096 dvd n" "n < 2 ^ 64"
      "\<not> frame_at (frs s) (word_of_nat n)" "frame_at fr (word_of_nat n)"
      "frames_le (frs s) fr"
      by (rule grab_frame [OF sane g])
    define e :: u64 where "e = word_of_nat n OR PAGE_USER OR PAGE_WRITE OR PAGE_PRESENT"
    have e: "e AND PAGE_PRESENT \<noteq> 0" "e AND MEM_PAGE_MASK = word_of_nat n"
      unfolding e_def mask_flags using present_flags aligned_mask [OF n(3,4)] by auto
    have fresh: "\<forall>q b. dirs q \<longrightarrow> walk ?m ?r q = Some b \<longrightarrow> b \<noteq> word_of_nat n"
      using tables_okD(2) [OF tk] n(5) by blast
    define m' where "m' = (?m(a := (?m a)[i := e]))(word_of_nat n := replicate 512 0)"
    define s1 where "s1 = s\<lparr>store := m', frs := fr,
      pmap := (pmap s)\<lparr>dir_frames_used := dir_frames_used (pmap s) + 1\<rparr>\<rparr>"
    have mono: "\<forall>b. frame_at (frs s) b \<longrightarrow> frame_at fr b" using frames_le_at [OF n(7)] by blast
    note nt = new_table_ok [OF tk dp Cons.prems(3) ab fresh e mono n(6), folded m'_def]
    have "ensure_loop s1 (word_of_nat n) is' = Inr (t, s')"
      using Cons.prems(5) ab g n(1) e(2) by (simp add: Let_def e_def [symmetric] m'_def [symmetric] s1_def [symmetric])
    moreover have "pg_ok s1" using Cons.prems(1) nt(1) n(2) by (simp add: pg_ok_def s1_def)
    moreover have "walk (store s1) (root_dir (pmap s1)) (p @ [i]) = Some (word_of_nat n)"
      using nt(2) by (simp add: s1_def)
    moreover have "root_dir (pmap s1) = ?r" "frs s1 = fr" "\<And>v. leaf (store s1) ?r v = pg_leaf s v"
      by (simp_all add: s1_def nt(3))
    ultimately show ?thesis
      using Cons.IH [of s1 "p @ [i]" "word_of_nat n"] Cons.prems(2) aligned_mask [OF n(3,4)] frames_le_trans [OF n(7)] by auto
  next
    case pr: False
    define e where "e = ?m a ! i OR PAGE_USER OR PAGE_WRITE OR PAGE_PRESENT"
    define s1 where "s1 = s\<lparr>store := ?m(a := (?m a)[i := e])\<rparr>"
    note rf = raise_flags_ok [OF tk dp Cons.prems(3) pr, folded e_def]
    have em: "e AND MEM_PAGE_MASK = ?m a ! i AND MEM_PAGE_MASK" unfolding e_def by (rule mask_flags)
    have "ensure_loop s1 (e AND MEM_PAGE_MASK) is' = Inr (t, s')"
      using Cons.prems(5) pr by (simp add: Let_def e_def s1_def)
    moreover have "pg_ok s1" using Cons.prems(1) rf(1) by (simp add: pg_ok_def s1_def)
    moreover have "walk (store s1) (root_dir (pmap s1)) (p @ [i]) = walk ?m ?r (p @ [i])"
      by (simp add: s1_def rf(2))
    then have "walk (store s1) (root_dir (pmap s1)) (p @ [i]) = Some (e AND MEM_PAGE_MASK)"
      using Cons.prems(3) pr em by (simp add: walk_snoc next_table_def Let_def)
    moreover have "root_dir (pmap s1) = ?r" "frs s1 = frs s" "\<And>v. leaf (store s1) ?r v = pg_leaf s v"
      by (simp_all add: s1_def rf(3))
    ultimately show ?thesis
      using Cons.IH [of s1 "p @ [i]" "e AND MEM_PAGE_MASK"] Cons.prems(2) by auto
  qed
qed

lemma find_table_ensure_ok:
  assumes "pg_ok s" and "mempg_find_table_ensure s virt = Inr (t, s')"
  shows "pg_ok s'" and "root_dir (pmap s') = root_dir (pmap s)"
    and "walk (store s') (root_dir (pmap s')) (dir_path virt) = Some t" and "\<And>v. pg_leaf s' v = pg_leaf s v"
    and "frames_le (frs s) (frs s')"
proof -
  have root: "root_dir (pmap s) AND MEM_PAGE_MASK = root_dir (pmap s)" using assms(1) by (simp add: pg_ok_def)
  then obtain t0 where e: "ensure_loop s (root_dir (pmap s)) (dir_path virt) = Inr (t0, s')" "t = t0 AND MEM_PAGE_MASK"
    using assms(2) by (auto simp: mempg_find_table_ensure_def mapR_eq_Inr_iff)
  have "dirs ([] @ dir_path virt)" "walk (store s) (root_dir (pmap s)) [] = Some (root_dir (pmap s))" by simp_all
  note r = ensure_loop_ok [OF assms(1) this root e(1)]
  then have "t = t0" using e(2) by simp
  with r show "pg_ok s'" "root_dir (pmap s') = root_dir (pmap s)"
    "walk (store s') (root_dir (pmap s')) (dir_path virt) = Some t" "\<And>v. pg_leaf s' v = pg_leaf s v"
    "frames_le (frs s) (frs s')" by auto
qed

text \<open>A change of one entry of a lowest level table.\<close>

lemma leaf_table_ok:
  fixes x :: u64
  assumes ok: "tables_ok m fr root" and t: "walk m root (dir_path virt) = Some t"
  defines "m' \<equiv> m(t := (m t)[pt_index 12 virt := x])"
  shows "tables_ok m' fr root"
    and "leaf m' root v = (if dir_path v = dir_path virt \<and> pt_index 12 v = pt_index 12 virt then x else leaf m root v)"
proof -
  have len: "length (m t) = 512" by (rule tables_okD(1) [OF ok dirs_path t])
  have w: "walk m' root q = walk m root q" if "dirs q" for q
    using that
  proof (induction q rule: rev_induct)
    case (snoc j q)
    note d = dirs_snocD [OF snoc.prems]
    have "next_table m' b j = next_table m b j" if b: "walk m root q = Some b" for b
    proof -
      have "b \<noteq> t" using tables_okD(3) [OF ok dirs_path t, of q] b d by (auto simp: dir_path_def)
      then show ?thesis by (simp add: m'_def next_table_def)
    qed
    then show ?case using snoc.IH d by (cases "walk m root q") (auto simp: walk_snoc)
  qed simp
  have lm: "length (m' b) = length (m b)" for b by (simp add: m'_def)
  show "tables_ok m' fr root"
    unfolding tables_ok_def lm
  proof (intro conjI allI impI)
    fix q b assume "dirs q" "walk m' root q = Some b"
    then show "length (m b) = 512" "frame_at fr b" using tables_okD(1,2) [OF ok, of q b] w by auto
  next
    fix q r b assume "dirs q" "dirs r" "walk m' root q = Some b" "walk m' root r = Some b"
    then show "q = r" using tables_okD(3) [OF ok, of r b q] w by auto
  qed
  show "leaf m' root v = (if dir_path v = dir_path virt \<and> pt_index 12 v = pt_index 12 virt then x else leaf m root v)"
  proof (cases "walk m root (dir_path v)")
    case None
    then show ?thesis using t by (auto simp: leaf_def w)
  next
    case (Some u)
    have "u = t \<longleftrightarrow> dir_path v = dir_path virt"
      using tables_okD(3) [OF ok dirs_path t dirs_path, of v] Some t by auto
    then have "m' u ! pt_index 12 v = (if dir_path v = dir_path virt \<and> pt_index 12 v = pt_index 12 virt
        then x else m u ! pt_index 12 v)"
      using len by (auto simp: m'_def nth_list_update)
    then show ?thesis using Some by (simp add: leaf_def w)
  qed
qed

text \<open>The page of an address, as the tables see it.\<close>

definition page :: "u64 \<Rightarrow> nat" where
  "page v = (unat v div 4096) mod 2 ^ 36"

lemma digit_512:
  fixes a b c d :: nat
  assumes "b < 512" and "d < 512"
  shows "a * 512 + b = c * 512 + d \<longleftrightarrow> a = c \<and> b = d"
proof
  assume eq: "a * 512 + b = c * 512 + d"
  have "(a * 512 + b) mod 512 = b" "(c * 512 + d) mod 512 = d" using assms by simp_all
  with eq have "b = d" by simp
  with eq show "a = c \<and> b = d" by simp
qed simp

lemma same_page: "dir_path v = dir_path w \<and> pt_index 12 v = pt_index 12 w \<longleftrightarrow> page v = page w"
proof -
  have split: "page v = ((pt_index 39 v * 512 + pt_index 30 v) * 512 + pt_index 21 v) * 512 + pt_index 12 v" for v
  proof -
    define n where "n = unat v div 4096"
    have i: "pt_index 12 v = n mod 512" "pt_index 21 v = (n div 512) mod 512"
      "pt_index 30 v = (n div 512 div 512) mod 512" "pt_index 39 v = (n div 512 div 512 div 512) mod 512"
      unfolding pt_index_nat n_def by (simp_all add: div_mult2_eq [symmetric])
    have "n mod 2 ^ 36 = (((n div 512 div 512 div 512) mod 512 * 512 + (n div 512 div 512) mod 512) * 512 +
        (n div 512) mod 512) * 512 + n mod 512"
      using mod_mult2_eq [of n 512 "512 * 512 * 512"] mod_mult2_eq [of "n div 512" 512 "512 * 512"]
        mod_mult2_eq [of "n div 512 div 512" 512 512] by simp
    then show ?thesis unfolding i page_def n_def [symmetric] .
  qed
  show ?thesis unfolding split digit_512 [OF pt_index_less pt_index_less] dir_path_def by auto
qed

lemma page_mask_id: "page (v AND MEM_PAGE_MASK) = page v"
proof -
  have "unat (v AND MEM_PAGE_MASK) div 4096 = unat v div 4096"
  proof -
    have "drop_bit 12 (v AND MEM_PAGE_MASK) = drop_bit 12 v"
      unfolding page_mask by (rule bit_word_eqI) (auto simp: bit_simps dest: bit_imp_le_length)
    then have "unat (drop_bit 12 (v AND MEM_PAGE_MASK)) = unat (drop_bit 12 v)" by simp
    then show ?thesis unfolding unat_drop_bit_eq by (simp add: drop_bit_eq_div)
  qed
  then show ?thesis by (simp add: page_def)
qed

lemma mempg_assign_ok:
  assumes ok: "pg_ok s" and r: "mempg_assign s virt phys flags = Inr s'"
  shows "pg_ok s'" and "root_dir (pmap s') = root_dir (pmap s)"
    and "pg_leaf s' v = (if page v = page virt then (phys AND MEM_PAGE_MASK) OR flags OR PAGE_PRESENT else pg_leaf s v)"
    and "frames_le (frs s) (frs s')"
proof -
  let ?v = "virt AND MEM_PAGE_MASK" and ?x = "(phys AND MEM_PAGE_MASK) OR flags OR PAGE_PRESENT"
  obtain t s1 where e: "mempg_find_table_ensure s ?v = Inr (t, s1)"
    and s': "s' = s1\<lparr>store := (store s1)(t := (store s1 t)[pt_index 12 ?v := ?x])\<rparr>"
    using r by (auto simp: mempg_assign_def mapR_eq_Inr_iff Let_def)
  note f = find_table_ensure_ok [OF ok e]
  have "tables_ok (store s1) (frs s1) (root_dir (pmap s1))" using f(1) by (simp add: pg_ok_def)
  note l = leaf_table_ok [OF this f(3), where x = ?x]
  show "pg_ok s'" using f(1) l(1) by (simp add: pg_ok_def s')
  show "root_dir (pmap s') = root_dir (pmap s)" using f(2) by (simp add: s')
  have "pg_leaf s' v = leaf ((store s1)(t := (store s1 t)[pt_index 12 ?v := ?x])) (root_dir (pmap s1)) v"
    by (simp add: s')
  then show "pg_leaf s' v = (if page v = page virt then ?x else pg_leaf s v)"
    unfolding l(2) f(4) by (simp only: same_page page_mask_id)
  show "frames_le (frs s) (frs s')" using f(5) by (simp add: s')
qed

lemma page_add:
  assumes "unat v + k * 4096 < 2 ^ 64"
  shows "page (v + word_of_nat k * 4096) = (unat v div 4096 + k) mod 2 ^ 36"
proof -
  have "unat (word_of_nat k * 4096 :: u64) = k * 4096"
  proof -
    have "(word_of_nat k * 4096 :: u64) = word_of_nat (k * 4096)" by simp
    then show ?thesis using assms by (simp add: unsigned_of_nat take_bit_nat_eq_self del: of_nat_mult)
  qed
  then have "unat (v + word_of_nat k * 4096) = unat v + k * 4096"
    using assms by (subst unat_add_lem [THEN iffD1]) auto
  then show ?thesis by (simp add: page_def add.commute)
qed

text \<open>The loop of \<open>kpvalloc\<close>: one new frame per page.\<close>

lemma kpvalloc_loop_ok:
  assumes "pg_ok s" and "kpvalloc_loop n s virt flags = Inr s'" and "unat virt + n * 4096 < 2 ^ 64" and "n < 2 ^ 36"
  shows "pg_ok s' \<and> root_dir (pmap s') = root_dir (pmap s) \<and> frames_le (frs s) (frs s') \<and>
    (\<exists>fs. length fs = n \<and> distinct fs \<and>
      (\<forall>f \<in> set fs. f < frames_possible (frs s) \<and> \<not> used (frs s) f \<and> used (frs s') f) \<and>
      (\<forall>k < n. \<exists>a. kfpaddrof (frs s) (fs ! k) = Inr a \<and>
         pg_leaf s' (virt + word_of_nat k * 4096) = word_of_nat a OR flags OR PAGE_PRESENT)) \<and>
    (\<forall>v. (\<forall>k < n. page v \<noteq> page (virt + word_of_nat k * 4096)) \<longrightarrow> pg_leaf s' v = pg_leaf s v)"
  using assms
proof (induction n arbitrary: s virt)
  case 0
  then show ?case by simp
next
  case (Suc n)
  have sane: "frames_sane (frs s)" and tk: "tables_ok (store s) (frs s) (root_dir (pmap s))"
    using Suc.prems(1) by (simp_all add: pg_ok_def)
  obtain f fr where g: "kfcalloc (frs s) 1 = Inr (f, fr)"
    using Suc.prems(2) by (cases "kfcalloc (frs s) 1") auto
  obtain a where a: "kfpaddrof fr f = Inr a" "frames_sane fr" "4096 dvd a" "a < 2 ^ 64"
    "frames_le (frs s) fr" "f < frames_possible (frs s)" "\<not> used (frs s) f" "used fr f"
    by (rule grab_frame [OF sane g])
  obtain s1 where as: "mempg_assign (s\<lparr>frs := fr\<rparr>) virt (word_of_nat a) flags = Inr s1"
    and rec: "kpvalloc_loop n s1 (virt + 4096) flags = Inr s'"
    using Suc.prems(2) g a(1) by (auto simp: bindR_eq_Inr_iff)
  have ok0: "pg_ok (s\<lparr>frs := fr\<rparr>)"
    using Suc.prems(1) a(2) tables_ok_le [OF a(5) tk] by (simp add: pg_ok_def)
  note A = mempg_assign_ok [OF ok0 as]
  have lv: "pg_leaf s1 v = (if page v = page virt then word_of_nat a OR flags OR PAGE_PRESENT else pg_leaf s v)" for v
    using A(3) [of v] aligned_mask [OF a(3,4)] by simp
  have le1: "frames_le (frs s) (frs s1)" using frames_le_trans [OF a(5)] A(4) by simp
  have paddr: "kfpaddrof (frs s1) = kfpaddrof (frs s)" "frames_possible (frs s1) = frames_possible (frs s)"
    using le1 by (simp_all add: frames_le_def)
  have v4: "unat (virt + 4096) = unat virt + 4096"
    using Suc.prems(3) by (subst unat_add_lem [THEN iffD1]) auto
  from Suc.IH [OF A(1) rec] Suc.prems(3,4) v4
  obtain fs where fs: "pg_ok s'" "root_dir (pmap s') = root_dir (pmap s1)" "frames_le (frs s1) (frs s')"
    "length fs = n" "distinct fs"
    "\<forall>f \<in> set fs. f < frames_possible (frs s1) \<and> \<not> used (frs s1) f \<and> used (frs s') f"
    "\<forall>k < n. \<exists>a. kfpaddrof (frs s1) (fs ! k) = Inr a \<and>
       pg_leaf s' (virt + 4096 + word_of_nat k * 4096) = word_of_nat a OR flags OR PAGE_PRESENT"
    "\<forall>v. (\<forall>k < n. page v \<noteq> page (virt + 4096 + word_of_nat k * 4096)) \<longrightarrow> pg_leaf s' v = pg_leaf s1 v"
    by auto
  have pg: "page (virt + word_of_nat k * 4096) = (unat virt div 4096 + k) mod 2 ^ 36" if "k < Suc n" for k
    using that Suc.prems(3) by (intro page_add) simp
  have shift: "virt + 4096 + word_of_nat k * 4096 = virt + word_of_nat (Suc k) * 4096" for k
    by (simp add: algebra_simps)
  have used_f: "used (frs s1) f" using a(5,6,8) A(4) by (auto simp: frames_le_def)
  have root: "root_dir (pmap s1) = root_dir (pmap s)" using A(2) by simp
  have first: "pg_leaf s' virt = word_of_nat a OR flags OR PAGE_PRESENT"
  proof -
    have "page virt \<noteq> page (virt + 4096 + word_of_nat k * 4096)" if "k < n" for k
    proof -
      have "(unat virt div 4096 + 0) mod 2 ^ 36 \<noteq> (unat virt div 4096 + Suc k) mod 2 ^ 36"
        using that Suc.prems(4) mod_add_lcancel [of "unat virt div 4096" 0 "2 ^ 36" "Suc k"] by auto
      then show ?thesis using pg [of 0] pg [of "Suc k"] that unfolding shift by simp
    qed
    then show ?thesis using fs(8) lv [of virt] by simp
  qed
  have "distinct (f # fs)" "length (f # fs) = Suc n"
    "\<forall>g \<in> set (f # fs). g < frames_possible (frs s) \<and> \<not> used (frs s) g \<and> used (frs s') g"
    using fs used_f a(6,7) le1 paddr by (auto simp: frames_le_def)
  moreover have "\<exists>b. kfpaddrof (frs s) ((f # fs) ! k) = Inr b \<and>
      pg_leaf s' (virt + word_of_nat k * 4096) = word_of_nat b OR flags OR PAGE_PRESENT" if "k < Suc n" for k
  proof (cases k)
    case 0
    then show ?thesis using first a(1,5) by (auto simp: frames_le_def)
  next
    case (Suc j)
    then show ?thesis using fs(7) [rule_format, of j] that unfolding shift paddr by simp
  qed
  moreover have "pg_leaf s' v = pg_leaf s v" if "\<forall>k < Suc n. page v \<noteq> page (virt + word_of_nat k * 4096)" for v
  proof -
    have "\<forall>k < n. page v \<noteq> page (virt + 4096 + word_of_nat k * 4096)" using that unfolding shift by blast
    moreover have "page v \<noteq> page virt" using that [rule_format, of 0] by simp
    ultimately show ?thesis using fs(8) lv [of v] by simp
  qed
  ultimately show ?case
    using fs(1,2,3) root frames_le_trans [OF le1] by (intro conjI exI [of _ "f # fs"]) auto
qed

text \<open>Translation reads the entry of the page and changes no mapping.\<close>

lemma kppaddrof_ok:
  assumes "pg_ok s" and "kppaddrof s v = Inr (pa, s')"
  shows "pa = (pg_leaf s v AND MEM_PAGE_MASK) + (v AND NOT MEM_PAGE_MASK)" and "pg_ok s'"
    and "pg_leaf s' w = pg_leaf s w"
proof -
  obtain t where e: "mempg_find_table_ensure s (v AND MEM_PAGE_MASK) = Inr (t, s')"
    and pa: "pa = (store s' t ! pt_index 12 (v AND MEM_PAGE_MASK) AND MEM_PAGE_MASK) + (v AND NOT MEM_PAGE_MASK)"
    using assms(2) by (auto simp: kppaddrof_def kppaddrof'_def mapR_eq_Inr_iff Let_def)
  note f = find_table_ensure_ok [OF assms(1) e]
  show "pg_ok s'" "pg_leaf s' w = pg_leaf s w" by (rule f(1), rule f(4))
  have "store s' t ! pt_index 12 (v AND MEM_PAGE_MASK) = pg_leaf s' (v AND MEM_PAGE_MASK)"
    using f(3) by (simp add: leaf_def)
  also have "\<dots> = pg_leaf s' v"
    using same_page [of "v AND MEM_PAGE_MASK" v] page_mask_id [of v] by (auto simp: leaf_def cong: option.case_cong)
  finally show "pa = (pg_leaf s v AND MEM_PAGE_MASK) + (v AND NOT MEM_PAGE_MASK)" using pa f(4) by simp
qed

text \<open>With enough free frames the operations return.\<close>

abbreviation spare :: "frames \<Rightarrow> nat" where
  "spare fr \<equiv> kfamount fr - kfused fr"

lemma spare_card: "frames_ok fr \<Longrightarrow> spare fr = card {i. i < frames_possible fr \<and> \<not> used fr i}"
proof -
  assume ok: "frames_ok fr"
  have "{i. i < frames_possible fr \<and> \<not> used fr i} = {..<frames_possible fr} - {i. i < frames_possible fr \<and> used fr i}"
    by auto
  then have "card {i. i < frames_possible fr \<and> \<not> used fr i} = frames_possible fr - card {i. i < frames_possible fr \<and> used fr i}"
    by (simp add: card_Diff_subset subset_iff)
  with ok show ?thesis by (simp add: frames_ok_def kfamount_def kfused_def)
qed

lemma grab_spare:
  assumes sane: "frames_sane fr" and "0 < spare fr"
  obtains f fr' n where "kfcalloc fr 1 = Inr (f, fr')" and "kfpaddrof fr' f = Inr n" and "frames_sane fr'"
    and "spare fr \<le> spare fr' + 1"
proof -
  let ?free = "\<lambda>fr. {i. i < frames_possible fr \<and> \<not> used fr i}"
  have ok: "frames_ok fr" using sane by (simp add: frames_sane_def)
  then have "?free fr \<noteq> {}" using assms(2) by (metis spare_card card.empty less_irrefl)
  then obtain i f fr' where i: "i < frames_possible fr" "\<not> used fr i" and g: "kfcalloc fr 1 = Inr (f, fr')"
    using fa.grab_complete [OF frames_sane_fa [OF sane]] by fastforce
  obtain n where n: "kfpaddrof fr' f = Inr n" "frames_sane fr'" by (rule grab_frame [OF sane g])
  have "?free fr \<subseteq> insert f (?free fr')" using fa.grab_sound [OF frames_sane_fa [OF sane] g] by auto
  then have "card (?free fr) \<le> card (insert f (?free fr'))" by (intro card_mono) auto
  also have "\<dots> \<le> card (?free fr') + 1" by (simp add: card_insert_if)
  finally have "spare fr \<le> spare fr' + 1" using spare_card ok n(2) by (simp add: frames_sane_def)
  with that g n show thesis by blast
qed

lemma ensure_loop_runs:
  assumes "frames_sane (frs s)" and "length is' \<le> spare (frs s)"
  shows "\<exists>t s'. ensure_loop s a is' = Inr (t, s') \<and> frames_sane (frs s') \<and> spare (frs s) \<le> spare (frs s') + length is'"
  using assms
proof (induction is' arbitrary: s a)
  case (Cons i is')
  show ?case
  proof (cases "store s a ! i AND PAGE_PRESENT = 0")
    case True
    obtain f fr n where g: "kfcalloc (frs s) 1 = Inr (f, fr)" "kfpaddrof fr f = Inr n" "frames_sane fr"
        "spare (frs s) \<le> spare fr + 1"
      by (rule grab_spare [OF Cons.prems(1)]) (use Cons.prems(2) in auto)
    define b where "b = (word_of_nat n OR PAGE_USER OR PAGE_WRITE OR PAGE_PRESENT) AND MEM_PAGE_MASK"
    define s1 where "s1 = s\<lparr>store := ((store s)(a := (store s a)[i := word_of_nat n OR PAGE_USER OR PAGE_WRITE OR PAGE_PRESENT]))
        (b := replicate 512 0), frs := fr, pmap := (pmap s)\<lparr>dir_frames_used := dir_frames_used (pmap s) + 1\<rparr>\<rparr>"
    have "ensure_loop s a (i # is') = ensure_loop s1 b is'"
      using True g(1,2) by (simp add: Let_def s1_def b_def)
    moreover have "frs s1 = fr" by (simp add: s1_def)
    ultimately show ?thesis using Cons.IH [of s1 b] Cons.prems(2) g(3,4) by fastforce
  next
    case False
    define e where "e = store s a ! i OR PAGE_USER OR PAGE_WRITE OR PAGE_PRESENT"
    define s1 where "s1 = s\<lparr>store := (store s)(a := (store s a)[i := e])\<rparr>"
    have "ensure_loop s a (i # is') = ensure_loop s1 (e AND MEM_PAGE_MASK) is'"
      using False by (simp add: Let_def s1_def e_def)
    moreover have "frs s1 = frs s" by (simp add: s1_def)
    ultimately show ?thesis using Cons.IH [of s1 "e AND MEM_PAGE_MASK"] Cons.prems by fastforce
  qed
qed simp

lemma mempg_assign_runs:
  assumes "frames_sane (frs s)" and "3 \<le> spare (frs s)"
  shows "\<exists>s'. mempg_assign s virt phys flags = Inr s' \<and> frames_sane (frs s') \<and> spare (frs s) \<le> spare (frs s') + 3"
proof -
  have "length (dir_path (virt AND MEM_PAGE_MASK)) = 3" by (simp add: dir_path_def)
  with ensure_loop_runs [OF assms(1), of "dir_path (virt AND MEM_PAGE_MASK)" "root_dir (pmap s) AND MEM_PAGE_MASK"] assms(2)
  show ?thesis by (auto simp: mempg_assign_def mempg_find_table_ensure_def Let_def)
qed

lemma kpvalloc_loop_runs:
  assumes "frames_sane (frs s)" and "4 * n \<le> spare (frs s)"
  shows "\<exists>s'. kpvalloc_loop n s virt flags = Inr s'"
  using assms
proof (induction n arbitrary: s virt)
  case (Suc n)
  obtain f fr a where g: "kfcalloc (frs s) 1 = Inr (f, fr)" "kfpaddrof fr f = Inr a" "frames_sane fr"
      "spare (frs s) \<le> spare fr + 1"
    by (rule grab_spare [OF Suc.prems(1)]) (use Suc.prems(2) in auto)
  have "3 \<le> spare fr" using g(4) Suc.prems(2) by simp
  then obtain s1 where "mempg_assign (s\<lparr>frs := fr\<rparr>) virt (word_of_nat a) flags = Inr s1" "frames_sane (frs s1)"
      "spare fr \<le> spare (frs s1) + 3"
    using mempg_assign_runs [of "s\<lparr>frs := fr\<rparr>" virt "word_of_nat a" flags] g(3) by auto
  with Suc.IH [of s1 "virt + 4096"] Suc.prems(2) g show ?case by simp
qed simp

section \<open>Properties\<close>

text \<open>
  With three free frames \<open>mempg_assign\<close> returns, and when it returns it has mapped the page of
  \<open>virt\<close> to the page of \<open>phys\<close> with the given flags and left the mapping of every other page
  of the address space as it was, whatever directories it had to allocate on the way; the tables stay a
  tree in allocated frames, and a translation afterwards (\<open>kppaddrof\<close>) gives the physical page
  plus the offset and changes no mapping.
\<close>

theorem mempg_assign_translates:
  assumes "pg_ok s"
  shows "(3 \<le> kfamount (frs s) - kfused (frs s) \<longrightarrow> (\<exists>s'. mempg_assign s virt phys flags = Inr s')) \<and>
    (\<forall>s'. mempg_assign s virt phys flags = Inr s' \<longrightarrow> pg_ok s' \<and>
      (\<forall>v. pg_leaf s' v =
         (if page v = page virt then (phys AND MEM_PAGE_MASK) OR flags OR PAGE_PRESENT else pg_leaf s v)) \<and>
      (\<forall>v pa s''. kppaddrof s' v = Inr (pa, s'') \<longrightarrow>
         pa = (pg_leaf s' v AND MEM_PAGE_MASK) + (v AND NOT MEM_PAGE_MASK) \<and> pg_ok s'' \<and>
         (\<forall>w. pg_leaf s'' w = pg_leaf s' w)))"
proof (intro conjI impI allI)
  assume "3 \<le> kfamount (frs s) - kfused (frs s)"
  then show "\<exists>s'. mempg_assign s virt phys flags = Inr s'"
    using mempg_assign_runs [of s virt phys flags] assms by (auto simp: pg_ok_def)
next
  fix s' assume "mempg_assign s virt phys flags = Inr s'"
  note A = mempg_assign_ok [OF assms this]
  show "pg_ok s'" by (rule A(1))
  show "pg_leaf s' v = (if page v = page virt then (phys AND MEM_PAGE_MASK) OR flags OR PAGE_PRESENT else pg_leaf s v)" for v
    by (rule A(3))
  fix v pa s'' assume r: "kppaddrof s' v = Inr (pa, s'')"
  show "pa = (pg_leaf s' v AND MEM_PAGE_MASK) + (v AND NOT MEM_PAGE_MASK)" "pg_ok s''" "pg_leaf s'' w = pg_leaf s' w" for w
    using kppaddrof_ok [OF A(1) r] by simp_all
qed

text \<open>
  C12: With four free frames per page \<open>kpvalloc\<close> returns its address, and when it returns every
  page of the range is mapped, with the flags, to a frame of its own that was free before and is now
  marked as used, no two pages share a frame, and no page outside of the range changed its mapping.
\<close>

theorem kpvalloc_maps:
  assumes "pg_ok s" and "0 < n" and "unat virt + n * 4096 < 2 ^ 64" and "n < 2 ^ 36"
  shows "(4 * n \<le> kfamount (frs s) - kfused (frs s) \<longrightarrow> (\<exists>s'. kpvalloc s n virt flags = Inr (virt, s'))) \<and>
    (\<forall>ret s'. kpvalloc s n virt flags = Inr (ret, s') \<longrightarrow> ret = virt \<and> pg_ok s' \<and>
      (\<exists>fs. length fs = n \<and> distinct fs \<and>
        (\<forall>f \<in> set fs. f < kfamount (frs s) \<and> \<not> used (frs s) f \<and> used (frs s') f) \<and>
        (\<forall>k < n. \<exists>a. kfpaddrof (frs s) (fs ! k) = Inr a \<and>
           pg_leaf s' (virt + word_of_nat k * 4096) = word_of_nat a OR (flags AND 0xFFF) OR PAGE_PRESENT)) \<and>
      (\<forall>v. (\<forall>k < n. page v \<noteq> page (virt + word_of_nat k * 4096)) \<longrightarrow> pg_leaf s' v = pg_leaf s v))"
proof (intro conjI [OF impI allI [OF allI [OF impI]]])
  assume "4 * n \<le> kfamount (frs s) - kfused (frs s)"
  then show "\<exists>s'. kpvalloc s n virt flags = Inr (virt, s')"
    using kpvalloc_loop_runs [of s n virt "flags AND 0xFFF"] assms(1,2) by (auto simp: pg_ok_def kpvalloc_def)
next
  fix ret s' assume "kpvalloc s n virt flags = Inr (ret, s')"
  then obtain s1 where l: "kpvalloc_loop n s virt (flags AND 0xFFF) = Inr s1"
    and s': "s' = s1\<lparr>pmap := (pmap s1)\<lparr>pm_frames_used := pm_frames_used (pmap s1) + word_of_nat n\<rparr>\<rparr>"
      "ret = virt"
    using assms(2) by (auto simp: kpvalloc_def mapR_eq_Inr_iff)
  have eq: "frs s' = frs s1" "store s' = store s1" "root_dir (pmap s') = root_dir (pmap s1)" by (simp_all add: s')
  then have "pg_ok s' = pg_ok s1" by (simp add: pg_ok_def)
  then show "ret = virt \<and> pg_ok s' \<and>
      (\<exists>fs. length fs = n \<and> distinct fs \<and>
        (\<forall>f \<in> set fs. f < kfamount (frs s) \<and> \<not> used (frs s) f \<and> used (frs s') f) \<and>
        (\<forall>k < n. \<exists>a. kfpaddrof (frs s) (fs ! k) = Inr a \<and>
           pg_leaf s' (virt + word_of_nat k * 4096) = word_of_nat a OR (flags AND 0xFFF) OR PAGE_PRESENT)) \<and>
      (\<forall>v. (\<forall>k < n. page v \<noteq> page (virt + word_of_nat k * 4096)) \<longrightarrow> pg_leaf s' v = pg_leaf s v)"
    using kpvalloc_loop_ok [OF assms(1) l assms(3,4)] s'(2)
    unfolding eq kfamount_def by (intro conjI) (elim conjE, simp only:)+
qed

section \<open>Witnesses\<close>

text \<open>An address space with an empty root table in the first of sixteen frames.\<close>

definition small_space :: pgstate where
  "small_space = \<lparr>store = (\<lambda>_. replicate 512 0),
     frs = \<lparr>pieces = [\<lparr>start = 0x100000, usable = 16, bitmap = [1]\<rparr>], frames_possible = 16, frames_used = 1\<rparr>,
     pmap = \<lparr>root_dir = 0x100000, vstart = 0, vend = 0x8000000000, pm_frames_used = 0, dir_frames_used = 1,
       map_frames_used = 0\<rparr>\<rparr>"

lemma small_space_used: "i < 16 \<Longrightarrow> used (frs small_space) i \<longleftrightarrow> i = 0"
  by (auto simp: used_def small_space_def occ_def bit_1_iff)

lemma small_space_addr: "i < 16 \<Longrightarrow> kfpaddrof (frs small_space) i = Inr (0x100000 + i * 4096)"
  by (simp add: kfpaddrof_def small_space_def frame_addr_def CPU_PAGE_SIZE_def)

lemma small_space_ok: "pg_ok small_space"
proof -
  have "{i. i < 16 \<and> used (frs small_space) i} = {0}" using small_space_used by auto
  then have "frames_ok (frs small_space)" by (simp add: frames_ok_def small_space_def NO_START_def)
  moreover have "layout_ok (pieces (frs small_space))" by (simp add: small_space_def layout_ok_def CPU_PAGE_SIZE_def)
  moreover have "frames_possible (frs small_space) = 16" by (simp add: small_space_def)
  ultimately have sane: "frames_sane (frs small_space)" by (auto simp: frames_sane_def small_space_addr)
  have "walk (store small_space) 0x100000 p = Some a \<longleftrightarrow> p = [] \<and> a = 0x100000" if "dirs p" for p a
    using that by (cases p) (auto simp: small_space_def dirs_def)
  moreover have "frame_at (frs small_space) 0x100000"
    unfolding frame_at_def
    using small_space_used [of 0] small_space_addr [of 0]
    by (intro exI [of _ 0] exI [of _ "0x100000"]) (simp, simp add: small_space_def)
  ultimately have "tables_ok (store small_space) (frs small_space) 0x100000"
    by (auto simp: tables_ok_def) (simp add: small_space_def)
  then show ?thesis using sane by (simp add: pg_ok_def) (simp add: small_space_def MEM_PAGE_MASK_def)
qed

theorem mempg_assign_translates_witness:
  "\<exists>s'. mempg_assign small_space 0x1000 0x5000 2 = Inr s' \<and> pg_ok s' \<and>
     pg_leaf s' 0x1234 = (0x5000 AND MEM_PAGE_MASK) OR 2 OR PAGE_PRESENT"
proof -
  have "page 0x1234 = page 0x1000" by (simp add: page_def)
  moreover have "3 \<le> kfamount (frs small_space) - kfused (frs small_space)"
    by (simp add: small_space_def kfamount_def kfused_def)
  ultimately show ?thesis using mempg_assign_translates [OF small_space_ok, of "0x1000" "0x5000" 2] by auto
qed

theorem kpvalloc_maps_witness:
  "\<exists>s'. kpvalloc small_space 2 0x1000 2 = Inr (0x1000, s') \<and> pg_ok s' \<and> pg_leaf s' 0 = pg_leaf small_space 0"
proof -
  have "4 * 2 \<le> kfamount (frs small_space) - kfused (frs small_space)"
    by (simp add: small_space_def kfamount_def kfused_def)
  then obtain s' where s': "kpvalloc small_space 2 0x1000 2 = Inr (0x1000, s')" and p: "pg_ok s'"
      "(\<forall>k < 2. page 0 \<noteq> page (0x1000 + word_of_nat k * 4096)) \<longrightarrow> pg_leaf s' 0 = pg_leaf small_space 0"
    using kpvalloc_maps [OF small_space_ok, of 2 "0x1000" 2] by auto
  have "page 0 \<noteq> page (0x1000 + word_of_nat k * 4096)" if "k < 2" for k
    using that by (auto simp: less_2_cases_iff page_def)
  with s' p show ?thesis by blast
qed

end
