(* ===== verification/Sched.thy ===== *)
theory Sched
  imports Aex_Prelude
begin

text \<open>
  The threads and the scheduler of \<^verbatim>\<open>proc/task.c\<close>, the spinlocks of
  \<^verbatim>\<open>kernel/spinlock.c\<close>, the wait queues of \<^verbatim>\<open>proc/tqueue.c\<close> and the events of
  \<^verbatim>\<open>kernel/event.c\<close>, on one processor. A thread's register context is represented by whose
  context it is. The clock is an argument of the operations that read it. A call of
  \<open>task_reshed\<close> (the assembly routine that saves the registers and calls \<open>task_shed_choose\<close>)
  sets the field \<open>resched\<close>: at that point the thread stops until it is chosen again, and the
  scheduler's step follows.
\<close>

section \<open>State\<close>

datatype thread_status =
    THREAD_STATUS_CREATED
  | THREAD_STATUS_RUNNABLE
  | THREAD_STATUS_SLEEPING
  | THREAD_STATUS_BLOCKED
  | THREAD_STATUS_DEAD

record thread =
  process :: int
  kernel_stack :: u64
  saved_stack :: u64
  pagemap_ptr :: u64
  status :: thread_status
  kernelmode :: bool
  resume_after :: u64
  abort :: bool
  running :: bool
  busy :: int

datatype thread_context = Ctx_Thread int | Ctx_Idle | Ctx_Discard

record cpu_local =
  current_pid :: int
  current_tid :: int
  current_context :: thread_context
  last_tid :: int
  cpu_kernel_stack :: u64
  user_stack :: u64
  reshed_block :: int
  should_reshed :: bool
  tss_rsp0 :: u64

record sched =
  threads :: "thread option list"
  thread_count :: int
  idle_thread :: thread
  sheduler_lock :: bool
  sheduler_ready :: bool
  cpu :: cpu_local
  resched :: bool

abbreviation thread_array_size :: "sched \<Rightarrow> int" where
  "thread_array_size s \<equiv> int (length (threads s))"

section \<open>Rescheduling and spinlocks\<close>

definition task_reshed :: "sched \<Rightarrow> sched" where
  "task_reshed s = s\<lparr>resched := True\<rparr>"

definition task_reshed_disable :: "sched \<Rightarrow> sched" where
  "task_reshed_disable s =
     (if \<not> sheduler_ready s then s
      else s\<lparr>cpu := (cpu s)\<lparr>reshed_block := reshed_block (cpu s) + 1\<rparr>\<rparr>)"

definition task_tcan_yield :: "sched \<Rightarrow> bool" where
  "task_tcan_yield s \<longleftrightarrow> reshed_block (cpu s) = 0"

definition task_tyield :: "sched \<Rightarrow> sched res" where
  "task_tyield s =
     (if reshed_block (cpu s) > 0 then Inl (Panic ''task_tyield() while scheduling is disabled'')
      else Inr (task_reshed s))"

definition task_ttry_yield :: "sched \<Rightarrow> bool \<times> sched" where
  "task_ttry_yield s = (if \<not> task_tcan_yield s then (False, s) else (True, task_reshed s))"

definition task_reshed_enable :: "sched \<Rightarrow> sched res" where
  "task_reshed_enable s =
     (if \<not> sheduler_ready s then Inr s
      else let b = reshed_block (cpu s) - 1; s' = s\<lparr>cpu := (cpu s)\<lparr>reshed_block := b\<rparr>\<rparr>
           in if should_reshed (cpu s) \<and> b = 0 then task_tyield s' else Inr s')"

text \<open>
  A spinlock is its value. With rescheduling disabled on the only processor nothing can release a
  lock that is taken, so that the acquiring loop reaches its limit.
\<close>

definition spinlock_acquire :: "bool \<Rightarrow> sched \<Rightarrow> (bool \<times> sched) res" where
  "spinlock_acquire val s =
     (let s' = task_reshed_disable s
      in if val then Inl (Panic ''spinlock_acquire stuck for too long'') else Inr (True, s'))"

definition spinlock_release :: "bool \<Rightarrow> sched \<Rightarrow> (bool \<times> sched) res" where
  "spinlock_release val s = mapR (Pair False) (task_reshed_enable s)"

definition spinlock_try :: "bool \<Rightarrow> sched \<Rightarrow> (bool \<times> bool \<times> sched) res" where
  "spinlock_try val s =
     (let s' = task_reshed_disable s
      in if val then mapR (\<lambda>s''. (False, val, s'')) (task_reshed_enable s') else Inr (True, True, s'))"

definition spinlock_wait :: "bool \<Rightarrow> unit res" where
  "spinlock_wait val = (if val then Inl Hang else Inr ())"

text \<open>An operation between acquiring and releasing \<open>sheduler_lock\<close>.\<close>

definition locked :: "(sched \<Rightarrow> ('a \<times> sched) res) \<Rightarrow> sched \<Rightarrow> ('a \<times> sched) res" where
  "locked f s =
     bindR (spinlock_acquire (sheduler_lock s) s) (\<lambda>(l, s1).
     bindR (f (s1\<lparr>sheduler_lock := l\<rparr>)) (\<lambda>(x, s2).
     bindR (spinlock_release (sheduler_lock s2) s2) (\<lambda>(l', s3). Inr (x, s3\<lparr>sheduler_lock := l'\<rparr>))))"

section \<open>The thread array\<close>

text \<open>A negative identifier passes the test of \<open>thread_get\<close> and reads before the array.\<close>

definition thread_get :: "sched \<Rightarrow> int \<Rightarrow> thread option res" where
  "thread_get s tid =
     (if tid \<ge> thread_array_size s then Inr None
      else if tid < 0 then Inl OutOfBounds else Inr (threads s ! nat tid))"

fun free_tid :: "thread option list \<Rightarrow> nat" where
  "free_tid [] = 0"
| "free_tid (t # ts) = (case t of None \<Rightarrow> 0 | Some _ \<Rightarrow> Suc (free_tid ts))"

definition thread_add :: "sched \<Rightarrow> thread \<Rightarrow> int \<times> sched" where
  "thread_add s th =
     (let tid = free_tid (threads s)
      in if tid < length (threads s) then (int tid, s\<lparr>threads := (threads s)[tid := Some th]\<rparr>)
         else (int tid, s\<lparr>threads := threads s @ [Some th]\<rparr>))"

definition thread_remove :: "sched \<Rightarrow> int \<Rightarrow> sched res" where
  "thread_remove s tid =
     (if tid \<ge> thread_array_size s then Inr s
      else if tid < 0 then Inl OutOfBounds else Inr (s\<lparr>threads := (threads s)[nat tid := None]\<rparr>))"

definition put_thread :: "sched \<Rightarrow> int \<Rightarrow> thread \<Rightarrow> sched" where
  "put_thread s tid th = s\<lparr>threads := (threads s)[nat tid := Some th]\<rparr>"

definition thread_try_take :: "thread \<Rightarrow> bool \<times> thread" where
  "thread_try_take th = (if running th then (False, th) else (True, th\<lparr>running := True\<rparr>))"

definition thread_release :: "thread \<Rightarrow> thread" where
  "thread_release th = th\<lparr>running := False\<rparr>"

section \<open>Operations on one thread\<close>

text \<open>\<open>thread_get\<close> under the lock, an early return for an absent thread, an update otherwise.\<close>

definition on_thread :: "int \<Rightarrow> 'a \<Rightarrow> (thread \<Rightarrow> 'a \<times> thread) \<Rightarrow> sched \<Rightarrow> ('a \<times> sched) res" where
  "on_thread tid none f =
     locked (\<lambda>s. bindR (thread_get s tid) (\<lambda>t. case t of
         None \<Rightarrow> Inr (none, s)
       | Some th \<Rightarrow> (case f th of (x, th') \<Rightarrow> Inr (x, put_thread s tid th'))))"

definition task_tstart :: "int \<Rightarrow> sched \<Rightarrow> (unit \<times> sched) res" where
  "task_tstart tid = on_thread tid () (\<lambda>th. ((), th\<lparr>status := THREAD_STATUS_RUNNABLE\<rparr>))"

definition task_tset_status :: "int \<Rightarrow> thread_status \<Rightarrow> sched \<Rightarrow> (unit \<times> sched) res" where
  "task_tset_status tid st = on_thread tid () (\<lambda>th. ((), th\<lparr>status := st\<rparr>))"

definition task_tget_status :: "int \<Rightarrow> sched \<Rightarrow> (thread_status \<times> sched) res" where
  "task_tget_status tid = on_thread tid THREAD_STATUS_DEAD (\<lambda>th. (status th, th))"

definition task_tshould_exit :: "int \<Rightarrow> sched \<Rightarrow> (bool \<times> sched) res" where
  "task_tshould_exit tid = on_thread tid True (\<lambda>th. (abort th, th))"

definition task_tuse :: "int \<Rightarrow> sched \<Rightarrow> (bool \<times> sched) res" where
  "task_tuse tid = on_thread tid False (\<lambda>th. (True, th\<lparr>busy := busy th + 1\<rparr>))"

definition task_tprocessof :: "int \<Rightarrow> sched \<Rightarrow> (int \<times> sched) res" where
  "task_tprocessof tid = on_thread tid (- EINVAL) (\<lambda>th. (process th, th))"

definition task_prepare_tkill :: "int \<Rightarrow> sched \<Rightarrow> (unit \<times> sched) res" where
  "task_prepare_tkill tid = on_thread tid () (\<lambda>th. ((),
     th\<lparr>abort := True, status := (if status th \<noteq> THREAD_STATUS_DEAD then THREAD_STATUS_RUNNABLE else status th)\<rparr>))"

definition task_trelease :: "int \<Rightarrow> sched \<Rightarrow> (unit \<times> sched) res" where
  "task_trelease tid s =
     bindR (on_thread tid None (\<lambda>th. (Some (busy th - 1, abort th), th\<lparr>busy := busy th - 1\<rparr>)) s) (\<lambda>(r, s1).
       case r of
         None \<Rightarrow> Inr ((), s1)
       | Some (b, ab) \<Rightarrow>
           if current_tid (cpu s) = tid \<and> ab \<and> b = 0
           then bindR (task_tset_status (current_tid (cpu s)) THREAD_STATUS_BLOCKED s1)
                  (\<lambda>(_, s2). mapR (Pair ()) (task_tyield s2))
           else Inr ((), s1))"

definition task_tsleep :: "u64 \<Rightarrow> u64 \<Rightarrow> sched \<Rightarrow> (unit \<times> sched) res" where
  "task_tsleep now delay s =
     bindR (on_thread (current_tid (cpu s)) False (\<lambda>th. (True,
         th\<lparr>status := THREAD_STATUS_SLEEPING, resume_after := now + delay\<rparr>)) s)
       (\<lambda>(found, s1). Inr ((), if found then task_reshed s1 else s1))"

text \<open>\<open>_task_cleanup\<close>: the thread leaves the array; its stacks and its record are freed.\<close>

definition task_cleanup :: "int \<Rightarrow> sched \<Rightarrow> (unit \<times> sched) res" where
  "task_cleanup tid = locked (\<lambda>s. mapR (Pair ()) (thread_remove s tid))"

section \<open>The scheduler\<close>

function skip_null :: "sched \<Rightarrow> int \<Rightarrow> (int \<times> thread option) res" where
  "skip_null s tid =
     bindR (thread_get s tid) (\<lambda>th.
       if th = None \<and> tid \<le> thread_count s then skip_null s (tid + 1) else Inr (tid, th))"
  by pat_completeness auto
termination
  by (relation "measure (\<lambda>(s, tid). nat (thread_count s + 1 - tid))") auto

declare skip_null.simps [simp del]

text \<open>
  The search loop with the iterations left, the last identifier looked at, \<open>selected_tid\<close> and
  what \<open>thread\<close> points to.
\<close>

fun choose_loop ::
    "nat \<Rightarrow> sched \<Rightarrow> u64 \<Rightarrow> int \<Rightarrow> int \<Rightarrow> int option \<Rightarrow> (int \<times> int option \<times> sched) res" where
  "choose_loop 0 s ms tid sel cur = Inr (sel, cur, s)"
| "choose_loop (Suc n) s ms tid sel cur =
     bindR (skip_null s (tid + 1)) (\<lambda>(tid', t).
       case t of
         None \<Rightarrow> choose_loop n s ms 0 sel None
       | Some th \<Rightarrow>
           if tid' > thread_count s then choose_loop n s ms 0 sel (Some tid')
           else (case status th of
               THREAD_STATUS_RUNNABLE \<Rightarrow>
                 (case thread_try_take th of
                    (False, _) \<Rightarrow> choose_loop n s ms tid' tid' (Some tid')
                  | (True, th') \<Rightarrow> Inr (tid', Some tid', put_thread s tid' th'))
             | THREAD_STATUS_SLEEPING \<Rightarrow>
                 if resume_after th \<ge> ms then choose_loop n s ms tid' sel (Some tid')
                 else let th1 = th\<lparr>status := THREAD_STATUS_RUNNABLE\<rparr>
                      in (case thread_try_take th1 of
                            (False, _) \<Rightarrow> choose_loop n (put_thread s tid' th1) ms tid' tid' (Some tid')
                          | (True, th') \<Rightarrow> Inr (tid', Some tid', put_thread s tid' th'))
             | _ \<Rightarrow> choose_loop n s ms tid' sel (Some tid')))"

text \<open>The thread that leaves the processor is released.\<close>

definition release_current :: "sched \<Rightarrow> sched res" where
  "release_current s =
     mapR (\<lambda>t. case t of
         None \<Rightarrow> s
       | Some th \<Rightarrow> put_thread s (current_tid (cpu s)) (thread_release (th\<lparr>saved_stack := user_stack (cpu s)\<rparr>)))
       (thread_get s (current_tid (cpu s)))"

text \<open>The end of \<open>task_shed_choose\<close>, from the label \<open>done\<close> on.\<close>

definition switch_to :: "int \<Rightarrow> thread_context \<Rightarrow> thread \<Rightarrow> sched \<Rightarrow> sched" where
  "switch_to sel ctx th s =
     s\<lparr>cpu := (cpu s)\<lparr>last_tid := (if sel = 0 then last_tid (cpu s) else sel), current_tid := sel,
         current_pid := process th, current_context := ctx, cpu_kernel_stack := kernel_stack th,
         user_stack := saved_stack th, tss_rsp0 := kernel_stack th\<rparr>\<rparr>"

definition shed_finish :: "int \<Rightarrow> int option \<Rightarrow> sched \<Rightarrow> sched res" where
  "shed_finish sel cur s =
     (if sel = 0 then Inr (switch_to 0 Ctx_Idle (idle_thread s) s)
      else case cur of
          None \<Rightarrow> Inl NullDeref
        | Some tid \<Rightarrow> bindR (thread_get s tid) (\<lambda>t. case t of
              None \<Rightarrow> Inl NullDeref
            | Some th \<Rightarrow> Inr (switch_to sel (Ctx_Thread tid) th s)))"

definition task_shed_choose :: "u64 \<Rightarrow> sched \<Rightarrow> sched res" where
  "task_shed_choose ms s =
     (if reshed_block (cpu s) > 0 then Inr (s\<lparr>cpu := (cpu s)\<lparr>should_reshed := True\<rparr>\<rparr>)
      else bindR (spinlock_try (sheduler_lock s) s) (\<lambda>(got, l, s1).
        if \<not> got then Inr s1
        else let s2 = s1\<lparr>sheduler_lock := l, cpu := (cpu s1)\<lparr>should_reshed := False\<rparr>\<rparr>
             in bindR (release_current s2) (\<lambda>s3.
                bindR (choose_loop (nat (thread_count s3 + 1)) s3 ms (last_tid (cpu s3)) 0 None) (\<lambda>(sel, cur, s4).
                bindR (shed_finish sel cur s4) (\<lambda>s5.
                  mapR (\<lambda>(l', s6). s6\<lparr>sheduler_lock := l'\<rparr>) (spinlock_release (sheduler_lock s5) s5))))))"

section \<open>Wait queues and events\<close>

record tqueue =
  entries :: "int list"
  tq_lock :: bool

record event =
  ev_lock :: bool
  counter :: int
  wait_queue :: tqueue

definition tqueue_add :: "tqueue \<Rightarrow> sched \<Rightarrow> (tqueue \<times> sched) res" where
  "tqueue_add q s =
     bindR (spinlock_acquire (tq_lock q) s) (\<lambda>(l, s1).
     bindR (task_tset_status (current_tid (cpu s)) THREAD_STATUS_BLOCKED s1) (\<lambda>(_, s2).
     bindR (spinlock_release l s2) (\<lambda>(l', s3).
       Inr (q\<lparr>entries := entries q @ [current_tid (cpu s)], tq_lock := l'\<rparr>, s3))))"

definition wake_thread :: "int \<Rightarrow> sched \<Rightarrow> sched res" where
  "wake_thread tid s =
     bindR (task_tget_status tid s) (\<lambda>(st, s1).
       if st = THREAD_STATUS_BLOCKED
       then mapR snd (task_tset_status tid THREAD_STATUS_RUNNABLE s1) else Inr s1)"

definition tqueue_wakeup :: "tqueue \<Rightarrow> sched \<Rightarrow> (bool \<times> tqueue \<times> sched) res" where
  "tqueue_wakeup q s =
     bindR (spinlock_acquire (tq_lock q) s) (\<lambda>(l, s1).
       case entries q of
         [] \<Rightarrow> mapR (\<lambda>(l', s2). (False, q\<lparr>tq_lock := l'\<rparr>, s2)) (spinlock_release l s1)
       | tid # rest \<Rightarrow>
           bindR (wake_thread tid s1) (\<lambda>s2.
             mapR (\<lambda>(l', s3). (True, q\<lparr>entries := rest, tq_lock := l'\<rparr>, s3)) (spinlock_release l s2)))"

fun wake_all :: "int list \<Rightarrow> sched \<Rightarrow> sched res" where
  "wake_all [] s = Inr s"
| "wake_all (tid # rest) s = bindR (wake_thread tid s) (wake_all rest)"

definition tqueue_wakeup_all :: "tqueue \<Rightarrow> sched \<Rightarrow> (int \<times> tqueue \<times> sched) res" where
  "tqueue_wakeup_all q s =
     bindR (spinlock_acquire (tq_lock q) s) (\<lambda>(l, s1).
     bindR (wake_all (entries q) s1) (\<lambda>s2.
     mapR (\<lambda>(l', s3). (int (length (entries q)), q\<lparr>entries := [], tq_lock := l'\<rparr>, s3)) (spinlock_release l s2)))"

text \<open>
  \<open>event_wait\<close> up to the point at which the thread gives the processor away; \<open>event_resume\<close>
  is the rest, run when it has been chosen again. The result of the first part is the value
  returned when the thread was told to exit.
\<close>

definition event_wait :: "event \<Rightarrow> sched \<Rightarrow> (int option \<times> event \<times> sched) res" where
  "event_wait e s =
     bindR (spinlock_acquire (ev_lock e) s) (\<lambda>(l, s1).
     bindR (task_tshould_exit (current_tid (cpu s)) s1) (\<lambda>(ab, s2).
       if ab then mapR (\<lambda>(l', s3). (Some (- 1), e\<lparr>ev_lock := l'\<rparr>, s3)) (spinlock_release l s2)
       else bindR (tqueue_add (wait_queue e) s2) (\<lambda>(q, s3).
            bindR (spinlock_release l s3) (\<lambda>(l', s4).
              let e' = e\<lparr>wait_queue := q, ev_lock := l'\<rparr>
              in if task_tcan_yield s4 then mapR (\<lambda>s5. (None, e', s5)) (task_tyield s4)
                 else Inr (None, e', s4)))))"

definition event_resume :: "event \<Rightarrow> sched \<Rightarrow> (int \<times> event \<times> sched) res" where
  "event_resume e s =
     bindR (task_tshould_exit (current_tid (cpu s)) s) (\<lambda>(ab, s1).
       if ab then mapR (\<lambda>(l', s2). (- 1, e\<lparr>ev_lock := l'\<rparr>, s2)) (spinlock_release (ev_lock e) s1)
       else Inr (0, e, s1))"

definition event_trigger :: "event \<Rightarrow> sched \<Rightarrow> (event \<times> sched) res" where
  "event_trigger e s =
     bindR (spinlock_acquire (ev_lock e) s) (\<lambda>(l, s1).
     bindR (tqueue_wakeup (wait_queue e) s1) (\<lambda>(_, q, s2).
     mapR (\<lambda>(l', s3). (e\<lparr>wait_queue := q, ev_lock := l'\<rparr>, s3)) (spinlock_release l s2)))"

definition event_trigger_all :: "event \<Rightarrow> sched \<Rightarrow> (event \<times> sched) res" where
  "event_trigger_all e s =
     bindR (spinlock_acquire (ev_lock e) s) (\<lambda>(l, s1).
     bindR (tqueue_wakeup_all (wait_queue e) s1) (\<lambda>(_, q, s2).
     mapR (\<lambda>(l', s3). (e\<lparr>wait_queue := q, ev_lock := l'\<rparr>, s3)) (spinlock_release l s2)))"

definition event_defunct :: "event \<Rightarrow> sched \<Rightarrow> (event \<times> sched) res" where
  "event_defunct e s =
     bindR (spinlock_acquire (ev_lock e) s) (\<lambda>(l, s1).
     bindR (tqueue_wakeup_all (wait_queue e) s1) (\<lambda>(_, q, s2).
     mapR (\<lambda>(l', s3). (e\<lparr>wait_queue := q, counter := 0x7FFFFFF, ev_lock := l'\<rparr>, s3)) (spinlock_release l s2)))"

section \<open>The thread array as a map\<close>

definition thread_at :: "sched \<Rightarrow> int \<Rightarrow> thread option" where
  "thread_at s tid = (if 0 \<le> tid \<and> nat tid < length (threads s) then threads s ! nat tid else None)"

lemma some_thread: "x \<noteq> None \<longleftrightarrow> (\<exists>th. x = Some th)"
  by (cases x) auto

lemma thread_get_at [simp]: "0 \<le> tid \<Longrightarrow> thread_get s tid = Inr (thread_at s tid)"
  by (auto simp: thread_get_def thread_at_def)

lemma thread_at_range: "thread_at s t = Some th \<Longrightarrow> 0 \<le> t \<and> t < thread_array_size s"
  by (auto simp: thread_at_def split: if_splits)

lemma thread_at_put:
  "thread_at s tid = Some th0 \<Longrightarrow> thread_at (put_thread s tid th) t = (if t = tid then Some th else thread_at s t)"
  by (auto simp: thread_at_def put_thread_def nth_list_update split: if_splits)

lemma thread_at_cong: "threads s' = threads s \<Longrightarrow> thread_at s' = thread_at s"
  by (simp add: thread_at_def fun_eq_iff)

lemma put_thread_simps [simp]:
  "thread_count (put_thread s t th) = thread_count s" "cpu (put_thread s t th) = cpu s"
  "length (threads (put_thread s t th)) = length (threads s)" "idle_thread (put_thread s t th) = idle_thread s"
  "sheduler_lock (put_thread s t th) = sheduler_lock s" "sheduler_ready (put_thread s t th) = sheduler_ready s"
  "resched (put_thread s t th) = resched s"
  by (simp_all add: put_thread_def)

text \<open>A thread the scheduler may choose at time \<open>ms\<close>.\<close>

definition ready :: "sched \<Rightarrow> u64 \<Rightarrow> int \<Rightarrow> bool" where
  "ready s ms t \<longleftrightarrow> 0 < t \<and> t \<le> thread_count s \<and>
     (case thread_at s t of None \<Rightarrow> False
      | Some th \<Rightarrow> status th = THREAD_STATUS_RUNNABLE \<or> status th = THREAD_STATUS_SLEEPING \<and> resume_after th < ms)"

definition sched_ok :: "sched \<Rightarrow> bool" where
  "sched_ok s \<longleftrightarrow> thread_array_size s \<le> thread_count s + 1 \<and>
     0 \<le> last_tid (cpu s) \<and> last_tid (cpu s) \<le> thread_count s \<and> 0 \<le> current_tid (cpu s) \<and>
     (\<forall>t th. thread_at s t = Some th \<longrightarrow> running th \<longrightarrow> t \<noteq> current_tid (cpu s) \<longrightarrow> status th = THREAD_STATUS_DEAD)"

text \<open>The state in which the scheduler runs: no lock is held.\<close>

definition unlocked :: "sched \<Rightarrow> bool" where
  "unlocked s \<longleftrightarrow> sheduler_ready s \<and> reshed_block (cpu s) = 0 \<and> \<not> sheduler_lock s"

definition none_running :: "sched \<Rightarrow> bool" where
  "none_running s \<longleftrightarrow> (\<forall>t th. thread_at s t = Some th \<longrightarrow> running th \<longrightarrow> status th = THREAD_STATUS_DEAD)"

definition take_thread :: "sched \<Rightarrow> int \<Rightarrow> sched" where
  "take_thread s t = put_thread s t ((the (thread_at s t))\<lparr>status := THREAD_STATUS_RUNNABLE, running := True\<rparr>)"

text \<open>The number of threads between two identifiers.\<close>

definition between :: "sched \<Rightarrow> int \<Rightarrow> int \<Rightarrow> nat" where
  "between s a b = card {t. a < t \<and> t \<le> b \<and> thread_at s t \<noteq> None}"

lemma between_le: "0 \<le> a \<Longrightarrow> between s a b \<le> nat (b - a)"
proof -
  have "card {t. a < t \<and> t \<le> b \<and> thread_at s t \<noteq> None} \<le> card {a<..b}" by (intro card_mono) auto
  then show ?thesis by (simp add: between_def)
qed

lemma between_next:
  assumes "a < t" and "t \<le> b" and "thread_at s t \<noteq> None" and "\<forall>u. a < u \<and> u < t \<longrightarrow> thread_at s u = None"
  shows "between s a b = Suc (between s t b)"
proof -
  have "{u. a < u \<and> u \<le> b \<and> thread_at s u \<noteq> None} = insert t {u. t < u \<and> u \<le> b \<and> thread_at s u \<noteq> None}"
    using assms by (auto simp: not_less)
  moreover have "finite {u. t < u \<and> u \<le> b \<and> thread_at s u \<noteq> None}"
    by (rule finite_subset [of _ "{t<..b}"]) auto
  ultimately show ?thesis by (simp add: between_def)
qed

lemma between_none: "\<forall>u. a < u \<and> u \<le> b \<longrightarrow> thread_at s u = None \<Longrightarrow> between s a b = 0"
proof -
  assume "\<forall>u. a < u \<and> u \<le> b \<longrightarrow> thread_at s u = None"
  then have "{t. a < t \<and> t \<le> b \<and> thread_at s t \<noteq> None} = {}" by auto
  then show ?thesis unfolding between_def by (simp only: card.empty)
qed

lemma between_finite: "finite {t. a < t \<and> t \<le> b \<and> thread_at s t \<noteq> None}"
  by (rule finite_subset [of _ "{a<..b}"]) auto

lemma between_pos:
  assumes "a < t" and "thread_at s t \<noteq> None"
  shows "0 < between s a t"
proof -
  have "t \<in> {u. a < u \<and> u \<le> t \<and> thread_at s u \<noteq> None}" using assms by simp
  then show ?thesis unfolding between_def card_gt_0_iff using between_finite by blast
qed

lemma between_mono:
  assumes "t \<le> c"
  shows "between s a t \<le> between s a c"
proof -
  have "{u. a < u \<and> u \<le> t \<and> thread_at s u \<noteq> None} \<subseteq> {u. a < u \<and> u \<le> c \<and> thread_at s u \<noteq> None}"
    using assms by auto
  then show ?thesis unfolding between_def by (rule card_mono [OF between_finite])
qed

lemma between_split:
  assumes "a \<le> b" and "b \<le> c"
  shows "between s a c = between s a b + between s b c"
proof -
  have "{t. a < t \<and> t \<le> c \<and> thread_at s t \<noteq> None} =
      {t. a < t \<and> t \<le> b \<and> thread_at s t \<noteq> None} \<union> {t. b < t \<and> t \<le> c \<and> thread_at s t \<noteq> None}"
    using assms by auto
  moreover have "finite {t. x < t \<and> t \<le> y \<and> thread_at s t \<noteq> None}" for x y
    by (rule finite_subset [of _ "{x<..y}"]) auto
  ultimately show ?thesis unfolding between_def by (simp, intro card_Un_disjoint) auto
qed

section \<open>The search loop\<close>

lemma skip_null_spec:
  assumes "0 \<le> tid"
  shows "\<exists>t. skip_null s tid = Inr (t, thread_at s t) \<and> tid \<le> t \<and> (\<forall>u. tid \<le> u \<and> u < t \<longrightarrow> thread_at s u = None) \<and>
    (thread_at s t = None \<longrightarrow> thread_count s < t)"
  using assms
proof (induction s tid rule: skip_null.induct)
  case (1 s tid)
  show ?case
  proof (cases "thread_at s tid = None \<and> tid \<le> thread_count s")
    case True
    with 1 obtain t where t: "skip_null s (tid + 1) = Inr (t, thread_at s t)" "tid + 1 \<le> t"
      "\<forall>u. tid + 1 \<le> u \<and> u < t \<longrightarrow> thread_at s u = None" "thread_at s t = None \<longrightarrow> thread_count s < t"
      by force
    have "thread_at s u = None" if "tid \<le> u" "u < t" for u
      using that t(3) True by (cases "u = tid") auto
    with t True 1(2) show ?thesis by (subst skip_null.simps) auto
  next
    case False
    with 1(2) show ?thesis by (subst skip_null.simps) auto
  qed
qed

lemma status_same: "status th = st \<Longrightarrow> th\<lparr>status := st\<rparr> = th"
  by (cases th) simp

lemma ready_thread:
  assumes "ready s ms t"
  shows "thread_at s t \<noteq> None" and "t \<le> thread_count s" and "0 < t"
  using assms by (auto simp: ready_def split: option.splits)

text \<open>One iteration.\<close>

lemma choose_loop_step:
  assumes "0 \<le> tid" and "none_running s"
  obtains (wrap) cur' where "\<forall>u. tid < u \<and> u \<le> thread_count s \<longrightarrow> thread_at s u = None"
      "choose_loop (Suc n) s ms tid sel cur = choose_loop n s ms 0 sel cur'"
  | (pass) t where "tid < t" "t \<le> thread_count s" "thread_at s t \<noteq> None"
      "\<forall>u. tid < u \<and> u < t \<longrightarrow> thread_at s u = None" "\<not> ready s ms t"
      "choose_loop (Suc n) s ms tid sel cur = choose_loop n s ms t sel (Some t)"
  | (pick) t where "tid < t" "t \<le> thread_count s" "ready s ms t"
      "\<forall>u. tid < u \<and> u < t \<longrightarrow> thread_at s u = None"
      "choose_loop (Suc n) s ms tid sel cur = Inr (t, Some t, take_thread s t)"
proof -
  obtain t where t: "skip_null s (tid + 1) = Inr (t, thread_at s t)" "tid + 1 \<le> t"
    "\<forall>u. tid + 1 \<le> u \<and> u < t \<longrightarrow> thread_at s u = None" "thread_at s t = None \<longrightarrow> thread_count s < t"
    using skip_null_spec [of "tid + 1" s] assms(1) by auto
  then have gap: "\<forall>u. tid < u \<and> u < t \<longrightarrow> thread_at s u = None" by auto
  show thesis
  proof (cases "thread_count s < t")
    case True
    then have "\<forall>u. tid < u \<and> u \<le> thread_count s \<longrightarrow> thread_at s u = None" using gap by auto
    then show ?thesis
      using t(1) True by (intro wrap [where cur' = "map_option (\<lambda>_. t) (thread_at s t)"]) (auto split: option.split)
  next
    case False
    with t(4) obtain th where th: "thread_at s t = Some th" by auto
    have run: "running th \<Longrightarrow> status th = THREAD_STATUS_DEAD" using assms(2) th by (auto simp: none_running_def)
    show ?thesis
    proof (cases "ready s ms t")
      case True
      then have "choose_loop (Suc n) s ms tid sel cur = Inr (t, Some t, take_thread s t)"
        using t(1) th False run
        by (cases "running th") (auto simp: ready_def take_thread_def thread_try_take_def not_le Let_def status_same)
      with True t(2) False gap show ?thesis by (intro pick [of t]) auto
    next
      case no: False
      then have "choose_loop (Suc n) s ms tid sel cur = choose_loop n s ms t sel (Some t)"
        using t(1,2) th False assms(1) by (auto simp: ready_def not_less split: thread_status.split)
      with no t(2) False gap th show ?thesis by (intro pass [of t]) auto
    qed
  qed
qed

declare choose_loop.simps(2) [simp del]

lemma choose_loop_found:
  assumes "none_running s" and "0 \<le> tid" and "ready s ms t" and "tid < t"
    and "\<forall>u. tid < u \<and> u < t \<longrightarrow> \<not> ready s ms u" and "between s tid t \<le> k"
  shows "choose_loop k s ms tid sel cur = Inr (t, Some t, take_thread s t)"
  using assms(2-)
proof (induction k arbitrary: tid cur)
  case 0
  then have "0 < between s tid t" by (intro between_pos) (simp_all add: ready_thread)
  with 0(5) show ?case by simp
next
  case (Suc k)
  have t: "thread_at s t \<noteq> None" "t \<le> thread_count s" using ready_thread [OF Suc.prems(2)] by simp_all
  from Suc.prems(1) assms(1) show ?case
  proof (cases rule: choose_loop_step [where n = k and ms = ms and sel = sel and cur = cur])
    case (wrap cur')
    then have "thread_at s t = None" using t(2) Suc.prems(3) by simp
    with t(1) show ?thesis by contradiction
  next
    case (pass u)
    have "u \<noteq> t" using pass(5) Suc.prems(2) by blast
    moreover have "\<not> t < u" using pass(4) [rule_format, of t] t(1) Suc.prems(3) by auto
    ultimately have "u < t" by simp
    moreover have "between s tid t = Suc (between s u t)"
      by (rule between_next) (use pass(1,3,4) \<open>u < t\<close> in auto)
    moreover have "\<forall>v. u < v \<and> v < t \<longrightarrow> \<not> ready s ms v" using Suc.prems(4) pass(1) by simp
    ultimately have "choose_loop k s ms u sel (Some u) = Inr (t, Some t, take_thread s t)"
      using Suc.prems(1,2,5) pass(1) by (simp add: Suc.IH)
    then show ?thesis unfolding pass(6) .
  next
    case (pick u)
    have "\<not> t < u" using pick(4) [rule_format, of t] t(1) Suc.prems(3) by auto
    moreover have "\<not> u < t" using pick(1,3) Suc.prems(4) [rule_format, of u] by auto
    ultimately have "u = t" by simp
    then show ?thesis using pick(5) by (simp only:)
  qed
qed

lemma choose_loop_wrap:
  assumes "none_running s" and "0 \<le> tid" and "\<forall>u. tid < u \<longrightarrow> \<not> ready s ms u"
    and "between s tid (thread_count s) < k"
  shows "\<exists>cur'. choose_loop k s ms tid sel cur = choose_loop (k - between s tid (thread_count s) - 1) s ms 0 sel cur'"
  using assms(2-)
proof (induction k arbitrary: tid cur)
  case (Suc k)
  from Suc.prems(1) assms(1) show ?case
  proof (cases rule: choose_loop_step [where n = k and ms = ms and sel = sel and cur = cur])
    case (wrap cur')
    then show ?thesis using between_none [OF wrap(1)] by auto
  next
    case (pass u)
    have b: "between s tid (thread_count s) = Suc (between s u (thread_count s))" using pass by (intro between_next) auto
    then show ?thesis
      unfolding pass(6) using Suc.IH [of u "Some u"] Suc.prems pass(1) by (simp add: b)
  next
    case (pick u)
    with Suc.prems(2) show ?thesis by blast
  qed
qed simp

lemma choose_loop_none:
  assumes "none_running s" and "0 \<le> tid" and "\<forall>u. \<not> ready s ms u"
  shows "\<exists>cur'. choose_loop k s ms tid sel cur = Inr (sel, cur', s)"
  using assms(2)
proof (induction k arbitrary: tid cur)
  case (Suc k)
  from Suc.prems assms(1) show ?case
  proof (cases rule: choose_loop_step [where n = k and ms = ms and sel = sel and cur = cur])
    case (wrap cur')
    then show ?thesis using Suc.IH [of 0 cur'] by simp
  next
    case (pass u)
    then show ?thesis using Suc.IH [of u "Some u"] Suc.prems by simp
  next
    case (pick u)
    with assms(3) show ?thesis by blast
  qed
qed simp

section \<open>Round robin\<close>

text \<open>The order in which the scheduler considers the threads, and its choice; 0 is the idle thread.\<close>

definition rr_order :: "sched \<Rightarrow> int list" where
  "rr_order s = [last_tid (cpu s) + 1 .. thread_count s] @ [1 .. last_tid (cpu s)]"

definition rr_pick :: "u64 \<Rightarrow> sched \<Rightarrow> int" where
  "rr_pick ms s = (case find (ready s ms) (rr_order s) of None \<Rightarrow> 0 | Some t \<Rightarrow> t)"

lemma rr_order_set: "0 \<le> last_tid (cpu s) \<Longrightarrow> last_tid (cpu s) \<le> thread_count s \<Longrightarrow> set (rr_order s) = {1 .. thread_count s}"
  by (auto simp: rr_order_def)

lemma find_upto:
  assumes "find P [a .. b] = Some t"
  shows "P t \<and> a \<le> t \<and> t \<le> b \<and> (\<forall>u. a \<le> u \<and> u < t \<longrightarrow> \<not> P u)"
proof -
  obtain i where i: "i < length [a .. b]" "P ([a .. b] ! i)" "t = [a .. b] ! i" "\<forall>j < i. \<not> P ([a .. b] ! j)"
    using assms by (auto simp: find_Some_iff)
  have nth: "[a .. b] ! j = a + int j" if "j < length [a .. b]" for j using that by (simp add: nth_upto)
  have t: "t = a + int i" using i nth by simp
  have "\<not> P u" if "a \<le> u" "u < t" for u
  proof -
    have "nat (u - a) < i" using that t by auto
    then have "\<not> P ([a .. b] ! nat (u - a))" using i(4) by blast
    moreover have "[a .. b] ! nat (u - a) = u" using nth [of "nat (u - a)"] that t i(1) by simp
    ultimately show ?thesis by simp
  qed
  with i t nth show ?thesis by auto
qed

lemma find_append: "find P (xs @ ys) = (case find P xs of None \<Rightarrow> find P ys | Some x \<Rightarrow> Some x)"
  by (induction xs) auto

text \<open>The search of the scheduler takes the round robin choice.\<close>

lemma rr_pick_0:
  assumes "0 \<le> last_tid (cpu s)" "last_tid (cpu s) \<le> thread_count s"
  shows "rr_pick ms s = 0 \<longleftrightarrow> (\<forall>t. \<not> ready s ms t)"
proof (cases "find (ready s ms) (rr_order s)")
  case None
  then have "\<not> ready s ms t" for t
    using rr_order_set [OF assms] by (cases "t \<in> {1 .. thread_count s}") (auto simp: find_None_iff ready_def)
  with None show ?thesis by (simp add: rr_pick_def)
next
  case (Some t)
  then have "ready s ms t" by (auto simp: find_Some_iff)
  with Some show ?thesis by (auto simp: rr_pick_def ready_def)
qed

lemma choose_loop_rr:
  assumes run: "none_running s" and b: "0 \<le> last_tid (cpu s)" "last_tid (cpu s) \<le> thread_count s"
    and p: "find (ready s ms) (rr_order s) = Some t"
  shows "choose_loop (nat (thread_count s + 1)) s ms (last_tid (cpu s)) 0 None = Inr (t, Some t, take_thread s t)"
proof -
  define l where "l = last_tid (cpu s)"
  define n where "n = thread_count s"
  have ln: "0 \<le> l" "l \<le> n" using b by (simp_all add: l_def n_def)
  have sum: "between s 0 l + between s l n \<le> nat n"
    using between_le [of 0 s n] between_split [of 0 l n s] ln by simp
  have "choose_loop (nat (n + 1)) s ms l 0 None = Inr (t, Some t, take_thread s t)"
  proof (cases "find (ready s ms) [l + 1 .. n]")
    case (Some u)
    then have "u = t" using p by (simp add: rr_order_def find_append l_def n_def)
    note f = find_upto [OF Some, unfolded \<open>u = t\<close>]
    have "between s l t \<le> between s l n" using f by (intro between_mono) simp
    then have "between s l t \<le> nat (n + 1)" using sum by simp
    then show ?thesis using f ln by (intro choose_loop_found [OF run]) auto
  next
    case None
    then have "find (ready s ms) [1 .. l] = Some t" using p by (simp add: rr_order_def find_append l_def n_def)
    note f = find_upto [OF this]
    have no: "\<forall>u. l < u \<longrightarrow> \<not> ready s ms u"
      using None by (auto simp: find_None_iff ready_def n_def)
    have k: "between s l (thread_count s) < nat (n + 1)" using sum ln by (simp add: n_def)
    obtain cur where "choose_loop (nat (n + 1)) s ms l 0 None =
        choose_loop (nat (n + 1) - between s l (thread_count s) - 1) s ms 0 0 cur"
      using choose_loop_wrap [OF run ln(1) no k] by blast
    moreover have "between s 0 t \<le> between s 0 l" using f by (intro between_mono) simp
    then have "between s 0 t \<le> nat (n + 1) - between s l (thread_count s) - 1"
      using sum ln by (simp add: n_def [symmetric])
    ultimately show ?thesis using f by (simp add: choose_loop_found [OF run])
  qed
  then show ?thesis by (simp add: l_def n_def)
qed

section \<open>A scheduler step\<close>

text \<open>What the scheduler does to the thread that leaves the processor.\<close>

definition left :: "sched \<Rightarrow> int \<Rightarrow> thread \<Rightarrow> thread" where
  "left s t th = (if t = current_tid (cpu s) then th\<lparr>saved_stack := user_stack (cpu s), running := False\<rparr> else th)"

lemma left_simps [simp]:
  "status (left s t th) = status th" "resume_after (left s t th) = resume_after th" "process (left s t th) = process th"
  by (simp_all add: left_def)

lemma release_current_ok:
  assumes "sched_ok s"
  obtains s' where "release_current s = Inr s'" and "none_running s'" and "cpu s' = cpu s"
    and "thread_count s' = thread_count s" and "thread_array_size s' = thread_array_size s"
    and "sheduler_lock s' = sheduler_lock s" and "sheduler_ready s' = sheduler_ready s" and "idle_thread s' = idle_thread s"
    and "\<forall>t. thread_at s' t = map_option (left s t) (thread_at s t)"
proof (cases "thread_at s (current_tid (cpu s))")
  case None
  then have r: "release_current s = Inr s" using assms by (simp add: release_current_def sched_ok_def)
  have m: "\<forall>t. thread_at s t = map_option (left s t) (thread_at s t)"
  proof
    fix t show "thread_at s t = map_option (left s t) (thread_at s t)"
      using None by (cases "t = current_tid (cpu s)"; cases "thread_at s t") (auto simp: left_def)
  qed
  have "none_running s" using assms None by (auto simp: none_running_def sched_ok_def) (metis option.distinct(1))
  with r m show thesis by (intro that) auto
next
  case (Some th)
  define s' where "s' = put_thread s (current_tid (cpu s)) (left s (current_tid (cpu s)) th)"
  have r: "release_current s = Inr s'"
    using assms Some by (simp add: release_current_def sched_ok_def s'_def thread_release_def left_def)
  have m: "\<forall>t. thread_at s' t = map_option (left s t) (thread_at s t)"
  proof
    fix t show "thread_at s' t = map_option (left s t) (thread_at s t)"
      using Some unfolding s'_def thread_at_put [OF Some] by (cases "thread_at s t") (auto simp: left_def)
  qed
  have "status th' = THREAD_STATUS_DEAD" if t: "thread_at s' t = Some th'" "running th'" for t th'
  proof -
    obtain th0 where th0: "thread_at s t = Some th0" "th' = left s t th0" using t(1) m by auto
    then have "t \<noteq> current_tid (cpu s)" using t(2) by (auto simp: left_def)
    with th0 t(2) assms show ?thesis by (auto simp: sched_ok_def left_def)
  qed
  then have "none_running s'" by (simp add: none_running_def)
  with r m show thesis by (intro that) (auto simp: s'_def)
qed

definition enter_shed :: "sched \<Rightarrow> sched" where
  "enter_shed s = s\<lparr>sheduler_lock := True, cpu := (cpu s)\<lparr>reshed_block := 1, should_reshed := False\<rparr>\<rparr>"

lemma shed_choose_enter:
  assumes "unlocked s"
  shows "task_shed_choose ms s =
    bindR (release_current (enter_shed s)) (\<lambda>s3.
    bindR (choose_loop (nat (thread_count s3 + 1)) s3 ms (last_tid (cpu s3)) 0 None) (\<lambda>(sel, cur, s4).
    bindR (shed_finish sel cur s4) (\<lambda>s5.
      mapR (\<lambda>(l', s6). s6\<lparr>sheduler_lock := l'\<rparr>) (spinlock_release (sheduler_lock s5) s5))))"
  using assms
  by (simp add: task_shed_choose_def unlocked_def spinlock_try_def task_reshed_disable_def Let_def enter_shed_def)

lemma release_after_shed:
  assumes "sheduler_ready s" and "reshed_block (cpu s) = 1" and "\<not> should_reshed (cpu s)"
  shows "mapR (\<lambda>(l', s6). s6\<lparr>sheduler_lock := l'\<rparr>) (spinlock_release l s) =
    Inr (s\<lparr>sheduler_lock := False, cpu := (cpu s)\<lparr>reshed_block := 0\<rparr>\<rparr>)"
  using assms by (simp add: spinlock_release_def task_reshed_enable_def Let_def)

lemma ready_cong:
  assumes "thread_count s' = thread_count s"
    and "\<forall>t. thread_at s' t = map_option (f t) (thread_at s t)"
    and "\<And>t th. status (f t th) = status th \<and> resume_after (f t th) = resume_after th"
  shows "ready s' ms = ready s ms"
  using assms(1,3) unfolding ready_def fun_eq_iff assms(2) [rule_format] by (auto split: option.split)

text \<open>The whole step: the choice, the bookkeeping and the invariant.\<close>

lemma shed_choose_ok:
  assumes ok: "sched_ok s" and u: "unlocked s"
  obtains s' where "task_shed_choose ms s = Inr s'" and "sched_ok s'" and "unlocked s'"
    and "current_tid (cpu s') = rr_pick ms s" and "thread_count s' = thread_count s"
    and "last_tid (cpu s') = (if rr_pick ms s = 0 then last_tid (cpu s) else rr_pick ms s)"
    and "current_context (cpu s') = (if rr_pick ms s = 0 then Ctx_Idle else Ctx_Thread (rr_pick ms s))"
    and "\<forall>t. thread_at s' t = map_option (\<lambda>th. if t = rr_pick ms s \<and> t \<noteq> 0
        then (left s t th)\<lparr>status := THREAD_STATUS_RUNNABLE, running := True\<rparr> else left s t th) (thread_at s t)"
proof -
  define e where "e = enter_shed s"
  have at: "thread_at e = thread_at s" by (rule thread_at_cong) (simp add: e_def enter_shed_def)
  have "sched_ok e" using ok unfolding sched_ok_def at by (simp add: e_def enter_shed_def)
  moreover have "left e = left s" by (simp add: e_def enter_shed_def left_def fun_eq_iff)
  ultimately have e: "sched_ok e" "thread_at e = thread_at s" "left e = left s" "thread_count e = thread_count s"
      "last_tid (cpu e) = last_tid (cpu s)" "sheduler_ready e" "reshed_block (cpu e) = 1" "\<not> should_reshed (cpu e)"
      "thread_array_size e = thread_array_size s"
    using u at by (simp_all add: e_def enter_shed_def unlocked_def)
  obtain s3 where s3: "release_current e = Inr s3" "none_running s3" "cpu s3 = cpu e" "thread_count s3 = thread_count e"
      "thread_array_size s3 = thread_array_size e" "sheduler_ready s3 = sheduler_ready e"
      "\<forall>t. thread_at s3 t = map_option (left s t) (thread_at s t)"
    by (rule release_current_ok [OF e(1), unfolded e(2,3)])
  have b: "0 \<le> last_tid (cpu s3)" "last_tid (cpu s3) \<le> thread_count s3" using ok s3 e by (simp_all add: sched_ok_def)
  have rd: "ready s3 ms = ready s ms" by (rule ready_cong [OF _ s3(7)]) (use s3(4) e(4) in simp_all)
  have pick: "rr_pick ms s3 = rr_pick ms s" "rr_order s3 = rr_order s"
    using s3 e rd by (simp_all add: rr_pick_def rr_order_def)
  have enter: "task_shed_choose ms s = bindR (choose_loop (nat (thread_count s3 + 1)) s3 ms (last_tid (cpu s3)) 0 None)
      (\<lambda>(sel, cur, s4). bindR (shed_finish sel cur s4) (\<lambda>s5.
        mapR (\<lambda>(l', s6). s6\<lparr>sheduler_lock := l'\<rparr>) (spinlock_release (sheduler_lock s5) s5)))"
    using shed_choose_enter [OF u] s3(1) by (simp add: e_def)
  define fin where "fin p ctx th s4 = (switch_to p ctx th s4)\<lparr>sheduler_lock := False,
      cpu := (cpu (switch_to p ctx th s4))\<lparr>reshed_block := 0\<rparr>\<rparr>" for p ctx th s4
  have fin: "mapR (\<lambda>(l', s6). s6\<lparr>sheduler_lock := l'\<rparr>) (spinlock_release l (switch_to p ctx th s4)) = Inr (fin p ctx th s4)"
    if "cpu s4 = cpu e" "sheduler_ready s4" for p ctx th s4 l
    using release_after_shed [of "switch_to p ctx th s4"] that e(7,8) by (simp add: fin_def switch_to_def)
  show thesis
  proof (cases "rr_pick ms s = 0")
    case True
    then have "\<forall>t. \<not> ready s3 ms t" using rr_pick_0 [OF b] pick by simp
    then obtain cur where c: "choose_loop (nat (thread_count s3 + 1)) s3 ms (last_tid (cpu s3)) 0 None = Inr (0, cur, s3)"
      using choose_loop_none [OF s3(2) b(1)] by blast
    let ?s' = "fin 0 Ctx_Idle (idle_thread s3) s3"
    have r: "task_shed_choose ms s = Inr ?s'"
      unfolding enter c using fin [OF s3(3)] s3(6) e(6) by (simp add: shed_finish_def)
    have at: "thread_at ?s' = thread_at s3" by (rule thread_at_cong) (simp add: fin_def switch_to_def)
    have "sched_ok ?s'"
      using b s3(2,5) ok e(9) unfolding sched_ok_def at
      by (auto simp: fin_def switch_to_def none_running_def s3(4) e(4))
    moreover have "unlocked ?s'" using s3(6) e(6) by (simp add: unlocked_def fin_def switch_to_def)
    moreover have "\<forall>t. thread_at ?s' t = map_option (\<lambda>th. if t = rr_pick ms s \<and> t \<noteq> 0
        then (left s t th)\<lparr>status := THREAD_STATUS_RUNNABLE, running := True\<rparr> else left s t th) (thread_at s t)"
      unfolding at s3(7) [rule_format] True by (simp cong: option.map_cong)
    ultimately show thesis
      using r True s3(3,4) e(4,5) by (intro that [of ?s']) (simp_all add: fin_def switch_to_def)
  next
    case False
    define p where "p = rr_pick ms s"
    have "find (ready s3 ms) (rr_order s3) = Some p"
      using False pick(1) unfolding p_def pick(1) [symmetric] by (auto simp: rr_pick_def split: option.splits)
    note c = choose_loop_rr [OF s3(2) b this]
    have rp: "ready s3 ms p" using \<open>find (ready s3 ms) (rr_order s3) = Some p\<close> by (auto simp: find_Some_iff)
    then obtain th where th: "thread_at s3 p = Some th" using ready_thread(1) by blast
    define th' where "th' = th\<lparr>status := THREAD_STATUS_RUNNABLE, running := True\<rparr>"
    define s4 where "s4 = put_thread s3 p th'"
    have s4: "take_thread s3 p = s4" using th by (simp add: take_thread_def s4_def th'_def)
    have at4: "thread_at s4 t = (if t = p then Some th' else thread_at s3 t)" for t
      unfolding s4_def by (rule thread_at_put [OF th])
    have p0: "0 < p" "p \<le> thread_count s3" using ready_thread [OF rp] by simp_all
    let ?s' = "fin p (Ctx_Thread p) th' s4"
    have c4: "cpu s4 = cpu e" "sheduler_ready s4" using s3(3,6) e(6) by (simp_all add: s4_def)
    have r: "task_shed_choose ms s = Inr ?s'"
      unfolding enter c s4 using fin [OF c4] p0 by (simp add: shed_finish_def at4)
    have at: "thread_at ?s' = thread_at s4" by (rule thread_at_cong) (simp add: fin_def switch_to_def)
    have "sched_ok ?s'"
      using p0 s3(2,5) ok e(9) unfolding sched_ok_def at at4
      by (auto simp: fin_def switch_to_def none_running_def s3(4) e(4) s4_def)
    moreover have "unlocked ?s'" using c4 by (simp add: unlocked_def fin_def switch_to_def)
    moreover have "\<forall>t. thread_at ?s' t = map_option (\<lambda>th. if t = rr_pick ms s \<and> t \<noteq> 0
        then (left s t th)\<lparr>status := THREAD_STATUS_RUNNABLE, running := True\<rparr> else left s t th) (thread_at s t)"
    proof
      fix t show "thread_at ?s' t = map_option (\<lambda>th. if t = rr_pick ms s \<and> t \<noteq> 0
        then (left s t th)\<lparr>status := THREAD_STATUS_RUNNABLE, running := True\<rparr> else left s t th) (thread_at s t)"
        unfolding at at4 p_def [symmetric] using s3(7) [rule_format, of t] th p0
        by (cases "thread_at s t") (auto simp: th'_def)
    qed
    ultimately show thesis
      using r False s3(4) e(4) p0
      by (intro that [of ?s']) (simp_all add: fin_def switch_to_def p_def s4_def)
  qed
qed

section \<open>Waiting time under round robin\<close>

text \<open>How many choices may go to other threads before \<open>t\<close> is considered.\<close>

definition rr_distance :: "int \<Rightarrow> int \<Rightarrow> int \<Rightarrow> int" where
  "rr_distance n l t = (if l < t then t - l else n - l + t)"

lemma rr_pick_before:
  assumes b: "0 \<le> last_tid (cpu s)" "last_tid (cpu s) \<le> thread_count s" and t: "ready s ms t"
  shows "rr_pick ms s \<noteq> 0"
    and "rr_pick ms s \<noteq> t \<Longrightarrow>
      rr_distance (thread_count s) (rr_pick ms s) t < rr_distance (thread_count s) (last_tid (cpu s)) t"
proof -
  let ?l = "last_tid (cpu s)" and ?n = "thread_count s"
  show nz: "rr_pick ms s \<noteq> 0" using rr_pick_0 [OF b] t by blast
  have tb: "0 < t" "t \<le> ?n" using ready_thread [OF t] by simp_all
  assume ne: "rr_pick ms s \<noteq> t"
  obtain p where p: "find (ready s ms) (rr_order s) = Some p" "rr_pick ms s = p"
    using nz by (auto simp: rr_pick_def split: option.splits)
  show "rr_distance ?n (rr_pick ms s) t < rr_distance ?n ?l t"
  proof (cases "find (ready s ms) [?l + 1 .. ?n]")
    case (Some q)
    then have "q = p" using p by (simp add: rr_order_def find_append)
    note f = find_upto [OF Some, unfolded \<open>q = p\<close>]
    have "\<not> (?l < t \<and> t < p)" using f t by (auto simp: add1_zle_eq)
    with f ne p(2) tb show ?thesis by (auto simp: rr_distance_def)
  next
    case None
    then have f: "find (ready s ms) [1 .. ?l] = Some p" using p by (simp add: rr_order_def find_append)
    note f = find_upto [OF this]
    have "t \<le> ?l" using None t tb by (auto simp: find_None_iff)
    moreover have "\<not> t < p" using f t tb by auto
    ultimately show ?thesis using f ne p(2) tb b by (auto simp: rr_distance_def)
  qed
qed

text \<open>The states at which the scheduler is entered, when only it moves \<open>last_tid\<close>.\<close>

definition shed_run :: "(nat \<Rightarrow> u64) \<Rightarrow> (nat \<Rightarrow> sched) \<Rightarrow> int \<Rightarrow> bool" where
  "shed_run clock S n \<longleftrightarrow> (\<forall>i. sched_ok (S i) \<and> unlocked (S i) \<and> thread_count (S i) = n \<and>
     (\<exists>s'. task_shed_choose (clock i) (S i) = Inr s' \<and> last_tid (cpu (S (Suc i))) = last_tid (cpu s')))"

lemma shed_run_bound:
  assumes run: "shed_run clock S n" and rd: "\<forall>i. ready (S i) (clock i) t"
    and none: "\<forall>i < k. rr_pick (clock i) (S i) \<noteq> t"
  shows "rr_distance n (last_tid (cpu (S k))) t + int k \<le> rr_distance n (last_tid (cpu (S 0))) t"
  using none
proof (induction k)
  case (Suc k)
  have ok: "sched_ok (S k)" "unlocked (S k)" "thread_count (S k) = n" using run by (auto simp: shed_run_def)
  then have b: "0 \<le> last_tid (cpu (S k))" "last_tid (cpu (S k)) \<le> thread_count (S k)" by (simp_all add: sched_ok_def)
  note before = rr_pick_before [OF b rd [rule_format]]
  obtain s' where s': "task_shed_choose (clock k) (S k) = Inr s'" "last_tid (cpu (S (Suc k))) = last_tid (cpu s')"
    using run by (auto simp: shed_run_def)
  obtain s1 where "task_shed_choose (clock k) (S k) = Inr s1"
      "last_tid (cpu s1) = (if rr_pick (clock k) (S k) = 0 then last_tid (cpu (S k)) else rr_pick (clock k) (S k))"
    by (rule shed_choose_ok [OF ok(1,2)])
  with s' before(1) have "last_tid (cpu (S (Suc k))) = rr_pick (clock k) (S k)" by simp
  moreover have "rr_pick (clock k) (S k) \<noteq> t" using Suc.prems by simp
  ultimately show ?case using Suc.IH Suc.prems before(2) ok(3) by simp
qed simp

section \<open>Critical sections\<close>

text \<open>
  What happens on the processor while a thread holds spinlocks: it acquires and releases more of
  them, and the timer interrupt calls the scheduler.
\<close>

datatype cs_action = Acquire | Release | Tick u64

fun cs_run :: "cs_action list \<Rightarrow> sched \<Rightarrow> sched res" where
  "cs_run [] s = Inr s"
| "cs_run (Acquire # as) s = bindR (spinlock_acquire False s) (\<lambda>(_, s'). cs_run as s')"
| "cs_run (Release # as) s = bindR (spinlock_release True s) (\<lambda>(_, s'). cs_run as s')"
| "cs_run (Tick ms # as) s = bindR (task_shed_choose ms s) (cs_run as)"

text \<open>Inside \<open>d\<close> locks: as many releases as acquisitions, and never the outermost one.\<close>

fun nested :: "nat \<Rightarrow> cs_action list \<Rightarrow> bool" where
  "nested d [] \<longleftrightarrow> d = 1"
| "nested d (Acquire # as) \<longleftrightarrow> nested (Suc d) as"
| "nested d (Release # as) \<longleftrightarrow> 1 < d \<and> nested (d - 1) as"
| "nested d (Tick ms # as) \<longleftrightarrow> nested d as"

definition ticked :: "cs_action list \<Rightarrow> bool" where
  "ticked as \<longleftrightarrow> (\<exists>ms. Tick ms \<in> set as)"

lemma ticked_simps [simp]:
  "\<not> ticked []" "ticked (Acquire # as) = ticked as" "ticked (Release # as) = ticked as" "ticked (Tick ms # as)"
  by (auto simp: ticked_def)

lemma cs_run_append: "cs_run (as @ bs) s = bindR (cs_run as s) (cs_run bs)"
proof (induction as arbitrary: s)
  case (Cons a as)
  then show ?case by (cases a; simp add: bindR_def split: sum.split prod.split)
qed simp

lemma cs_run_nested:
  assumes "sheduler_ready s" and "reshed_block (cpu s) = int d" and "0 < d" and "nested d as"
  shows "cs_run as s =
    Inr (s\<lparr>cpu := (cpu s)\<lparr>reshed_block := 1, should_reshed := should_reshed (cpu s) \<or> ticked as\<rparr>\<rparr>)"
  using assms
proof (induction as arbitrary: s d)
  case Nil
  have c: "cpu s = (cpu s)\<lparr>reshed_block := 1, should_reshed := should_reshed (cpu s)\<rparr>"
    using Nil by (cases "cpu s") simp
  have "s = s\<lparr>cpu := cpu s\<rparr>" by simp
  with c show ?case by simp
next
  case (Cons a as)
  show ?case
  proof (cases a)
    case Acquire
    define s1 where "s1 = s\<lparr>cpu := (cpu s)\<lparr>reshed_block := int (Suc d)\<rparr>\<rparr>"
    have "cs_run (a # as) s = cs_run as s1"
      using Cons.prems Acquire by (simp add: spinlock_acquire_def task_reshed_disable_def s1_def Let_def add.commute)
    also have "\<dots> = Inr (s1\<lparr>cpu := (cpu s1)\<lparr>reshed_block := 1, should_reshed := should_reshed (cpu s1) \<or> ticked as\<rparr>\<rparr>)"
      using Cons.prems Acquire by (intro Cons.IH [of s1 "Suc d"]) (simp_all add: s1_def)
    finally show ?thesis using Acquire by (simp add: s1_def)
  next
    case Release
    define s1 where "s1 = s\<lparr>cpu := (cpu s)\<lparr>reshed_block := int (d - 1)\<rparr>\<rparr>"
    have d: "int d - 1 = int (d - 1)" "int (d - 1) \<noteq> 0" using Cons.prems Release by auto
    have "cs_run (a # as) s = cs_run as s1"
      using Cons.prems(1,2) Release d by (simp add: spinlock_release_def task_reshed_enable_def s1_def Let_def)
    also have "\<dots> = Inr (s1\<lparr>cpu := (cpu s1)\<lparr>reshed_block := 1, should_reshed := should_reshed (cpu s1) \<or> ticked as\<rparr>\<rparr>)"
      using Cons.prems Release by (intro Cons.IH [of s1 "d - 1"]) (simp_all add: s1_def)
    finally show ?thesis using Release by (simp add: s1_def)
  next
    case (Tick ms)
    define s1 where "s1 = s\<lparr>cpu := (cpu s)\<lparr>should_reshed := True\<rparr>\<rparr>"
    have "cs_run (a # as) s = cs_run as s1"
      using Cons.prems Tick by (simp add: task_shed_choose_def s1_def)
    also have "\<dots> = Inr (s1\<lparr>cpu := (cpu s1)\<lparr>reshed_block := 1, should_reshed := should_reshed (cpu s1) \<or> ticked as\<rparr>\<rparr>)"
      using Cons.prems Tick by (intro Cons.IH [of s1 d]) (simp_all add: s1_def)
    finally show ?thesis using Tick by (simp add: s1_def)
  qed
qed

section \<open>Waking threads\<close>

text \<open>An operation on one thread inside another critical section has no other effect.\<close>

definition deep :: "sched \<Rightarrow> bool" where
  "deep s \<longleftrightarrow> sheduler_ready s \<and> 0 < reshed_block (cpu s) \<and> \<not> sheduler_lock s"

lemma on_thread_deep:
  assumes "deep s" and "0 \<le> tid"
  shows "on_thread tid none f s =
    Inr (case thread_at s tid of None \<Rightarrow> (none, s) | Some th \<Rightarrow> (fst (f th), put_thread s tid (snd (f th))))"
proof -
  define s1 where "s1 = s\<lparr>cpu := (cpu s)\<lparr>reshed_block := reshed_block (cpu s) + 1\<rparr>, sheduler_lock := True\<rparr>"
  have undo: "s2\<lparr>sheduler_lock := False, cpu := (cpu s2)\<lparr>reshed_block := reshed_block (cpu s)\<rparr>\<rparr> =
      s\<lparr>threads := threads s2\<rparr>" if "s2 = s1\<lparr>threads := ts\<rparr>" for s2 ts
    using that assms(1) by (cases s, cases "cpu s") (simp add: s1_def deep_def)
  have rel: "bindR (spinlock_release (sheduler_lock s2) s2) (\<lambda>(l', s3). Inr (x, s3\<lparr>sheduler_lock := l'\<rparr>)) =
      Inr (x, s2\<lparr>sheduler_lock := False, cpu := (cpu s2)\<lparr>reshed_block := reshed_block (cpu s)\<rparr>\<rparr>)"
    if "cpu s2 = cpu s1" "sheduler_ready s2" for x s2
    using that assms(1) by (simp add: spinlock_release_def task_reshed_enable_def Let_def s1_def deep_def)
  have at1: "thread_at s1 = thread_at s" by (rule thread_at_cong) (simp add: s1_def)
  have ready1: "sheduler_ready s1" using assms(1) by (simp add: s1_def deep_def)
  show ?thesis
  proof (cases "thread_at s tid")
    case None
    have "on_thread tid none f s = bindR (spinlock_release (sheduler_lock s1) s1) (\<lambda>(l', s3). Inr (none, s3\<lparr>sheduler_lock := l'\<rparr>))"
      unfolding on_thread_def locked_def using assms None at1
      by (simp add: spinlock_acquire_def task_reshed_disable_def Let_def s1_def [symmetric] deep_def)
    then show ?thesis using rel [of s1 none] undo [of s1 "threads s1"] ready1 None by (simp add: s1_def)
  next
    case (Some th)
    obtain x th' where f: "f th = (x, th')" by fastforce
    define s2 where "s2 = put_thread s1 tid th'"
    have "on_thread tid none f s = bindR (spinlock_release (sheduler_lock s2) s2) (\<lambda>(l', s3). Inr (x, s3\<lparr>sheduler_lock := l'\<rparr>))"
      unfolding on_thread_def locked_def using assms Some at1 f
      by (simp add: spinlock_acquire_def task_reshed_disable_def Let_def s1_def [symmetric] deep_def s2_def)
    then show ?thesis
      using rel [of s2 x] undo [of s2 "threads s2"] ready1 Some f
      by (simp add: s2_def put_thread_def s1_def)
  qed
qed

lemma put_thread_same: "thread_at s tid = Some th \<Longrightarrow> put_thread s tid th = s"
proof -
  assume "thread_at s tid = Some th"
  then have "Some th = threads s ! nat tid" by (simp add: thread_at_def split: if_splits)
  then have "(threads s)[nat tid := Some th] = threads s" by (simp only: list_update_id)
  then show ?thesis by (simp add: put_thread_def)
qed

text \<open>Only the thread array differs.\<close>

definition same_but_threads :: "sched \<Rightarrow> sched \<Rightarrow> bool" where
  "same_but_threads s s' \<longleftrightarrow> s' = s\<lparr>threads := threads s'\<rparr>"

lemma same_but_threads_trans: "same_but_threads s s' \<Longrightarrow> same_but_threads s' s'' \<Longrightarrow> same_but_threads s s''"
proof -
  assume "same_but_threads s s'" and "same_but_threads s' s''"
  then have "s' = s\<lparr>threads := threads s'\<rparr>" "s'' = s'\<lparr>threads := threads s''\<rparr>" by (simp_all add: same_but_threads_def)
  then have "s'' = (s\<lparr>threads := threads s'\<rparr>)\<lparr>threads := threads s''\<rparr>" by (simp only:)
  then show ?thesis by (simp add: same_but_threads_def)
qed

lemma same_but_threads_simps:
  assumes "same_but_threads s s'"
  shows "cpu s' = cpu s" and "sheduler_lock s' = sheduler_lock s" and "sheduler_ready s' = sheduler_ready s"
    and "thread_count s' = thread_count s" and "resched s' = resched s" and "deep s' = deep s"
proof -
  obtain ts where s': "s' = s\<lparr>threads := ts\<rparr>" using assms unfolding same_but_threads_def by blast
  show "cpu s' = cpu s" "sheduler_lock s' = sheduler_lock s" "sheduler_ready s' = sheduler_ready s"
    "thread_count s' = thread_count s" "resched s' = resched s" "deep s' = deep s"
    by (simp_all add: s' deep_def)
qed

definition woken :: "int set \<Rightarrow> int \<Rightarrow> thread \<Rightarrow> thread" where
  "woken A t th = (if t \<in> A \<and> status th = THREAD_STATUS_BLOCKED then th\<lparr>status := THREAD_STATUS_RUNNABLE\<rparr> else th)"

lemma wake_thread_deep:
  assumes "deep s" and "0 \<le> tid"
  shows "\<exists>s'. wake_thread tid s = Inr s' \<and> same_but_threads s s' \<and>
    (\<forall>t. thread_at s' t = map_option (woken {tid} t) (thread_at s t))"
proof (cases "thread_at s tid")
  case None
  then have "wake_thread tid s = Inr s"
    by (simp add: on_thread_deep [OF assms] wake_thread_def task_tget_status_def)
  moreover have "map_option (woken {tid} t) (thread_at s t) = thread_at s t" for t
    using None by (cases "thread_at s t") (auto simp: woken_def)
  ultimately show ?thesis by (auto simp: same_but_threads_def)
next
  case (Some th)
  have g: "task_tget_status tid s = Inr (status th, s)"
    using Some by (simp add: on_thread_deep [OF assms] task_tget_status_def put_thread_same)
  show ?thesis
  proof (cases "status th = THREAD_STATUS_BLOCKED")
    case True
    let ?s' = "put_thread s tid (th\<lparr>status := THREAD_STATUS_RUNNABLE\<rparr>)"
    have "wake_thread tid s = Inr ?s'"
      using Some True g by (simp add: on_thread_deep [OF assms] wake_thread_def task_tset_status_def)
    moreover have "thread_at ?s' t = map_option (woken {tid} t) (thread_at s t)" for t
      unfolding thread_at_put [OF Some] using Some True by (cases "thread_at s t") (auto simp: woken_def)
    ultimately show ?thesis by (auto simp: same_but_threads_def put_thread_def)
  next
    case False
    then have "wake_thread tid s = Inr s" using g by (simp add: wake_thread_def)
    moreover have "map_option (woken {tid} t) (thread_at s t) = thread_at s t" for t
      using Some False by (cases "thread_at s t") (auto simp: woken_def)
    ultimately show ?thesis by (auto simp: same_but_threads_def)
  qed
qed

lemma wake_all_deep:
  assumes "deep s" and "\<forall>t \<in> set q. 0 \<le> t"
  shows "\<exists>s'. wake_all q s = Inr s' \<and> same_but_threads s s' \<and>
    (\<forall>t. thread_at s' t = map_option (woken (set q) t) (thread_at s t))"
  using assms
proof (induction q arbitrary: s)
  case Nil
  have "map_option (woken {} t) (thread_at s t) = thread_at s t" for t
    by (cases "thread_at s t") (auto simp: woken_def)
  then show ?case by (simp add: same_but_threads_def)
next
  case (Cons tid q)
  obtain s1 where s1: "wake_thread tid s = Inr s1" "same_but_threads s s1"
      "\<forall>t. thread_at s1 t = map_option (woken {tid} t) (thread_at s t)"
    using wake_thread_deep [OF Cons.prems(1), of tid] Cons.prems(2) by auto
  have "deep s1" using same_but_threads_simps(6) [OF s1(2)] Cons.prems(1) by simp
  then obtain s2 where s2: "wake_all q s1 = Inr s2" "same_but_threads s1 s2"
      "\<forall>t. thread_at s2 t = map_option (woken (set q) t) (thread_at s1 t)"
    using Cons.IH [of s1] Cons.prems(2) by auto
  have "thread_at s2 t = map_option (woken (set (tid # q)) t) (thread_at s t)" for t
    unfolding s2(3) [rule_format] s1(3) [rule_format] by (cases "thread_at s t") (auto simp: woken_def)
  with s1(1) s2(1) same_but_threads_trans [OF s1(2) s2(2)] show ?case by auto
qed

definition event_idle :: "event \<Rightarrow> bool" where
  "event_idle e \<longleftrightarrow> \<not> ev_lock e \<and> \<not> tq_lock (wait_queue e) \<and> (\<forall>t \<in> set (entries (wait_queue e)). 0 \<le> t)"

lemma acquire_free [simp]:
  "sheduler_ready s \<Longrightarrow> spinlock_acquire False s =
    Inr (True, s\<lparr>cpu := (cpu s)\<lparr>reshed_block := reshed_block (cpu s) + 1\<rparr>\<rparr>)"
  by (simp add: spinlock_acquire_def task_reshed_disable_def)

lemma release_deep:
  "sheduler_ready s \<Longrightarrow> 1 < reshed_block (cpu s) \<Longrightarrow> spinlock_release l s =
    Inr (False, s\<lparr>cpu := (cpu s)\<lparr>reshed_block := reshed_block (cpu s) - 1\<rparr>\<rparr>)"
  by (simp add: spinlock_release_def task_reshed_enable_def Let_def)

lemma release_last:
  "sheduler_ready s \<Longrightarrow> reshed_block (cpu s) = 1 \<Longrightarrow> spinlock_release l s =
    Inr (False, s\<lparr>cpu := (cpu s)\<lparr>reshed_block := 0\<rparr>, resched := resched s \<or> should_reshed (cpu s)\<rparr>)"
  by (auto simp: spinlock_release_def task_reshed_enable_def Let_def task_tyield_def task_reshed_def)

lemma event_trigger_all_wakes:
  assumes "unlocked s" and "event_idle e"
  shows "\<exists>e' s'. event_trigger_all e s = Inr (e', s') \<and> event_idle e' \<and> entries (wait_queue e') = [] \<and>
    (\<forall>t. thread_at s' t = map_option (woken (set (entries (wait_queue e))) t) (thread_at s t)) \<and> cpu s' = cpu s"
proof -
  define s2 where "s2 = s\<lparr>cpu := (cpu s)\<lparr>reshed_block := 2\<rparr>\<rparr>"
  have "deep s2" using assms(1) by (simp add: s2_def deep_def unlocked_def)
  then obtain s3 where s3: "wake_all (entries (wait_queue e)) s2 = Inr s3" "same_but_threads s2 s3"
      "\<forall>t. thread_at s3 t = map_option (woken (set (entries (wait_queue e))) t) (thread_at s2 t)"
    using wake_all_deep [of s2 "entries (wait_queue e)"] assms(2) by (auto simp: event_idle_def)
  note sb = same_but_threads_simps [OF s3(2)]
  define s4 where "s4 = s3\<lparr>cpu := (cpu s3)\<lparr>reshed_block := 1\<rparr>\<rparr>"
  define s5 where "s5 = s4\<lparr>cpu := (cpu s4)\<lparr>reshed_block := 0\<rparr>, resched := resched s4 \<or> should_reshed (cpu s4)\<rparr>"
  have r: "spinlock_release True s3 = Inr (False, s4)" "spinlock_release True s4 = Inr (False, s5)"
    using release_deep [of s3] release_last [of s4] sb assms(1)
    by (simp_all add: s4_def s5_def s2_def unlocked_def)
  have "event_trigger_all e s = Inr (e\<lparr>wait_queue := (wait_queue e)\<lparr>entries := [], tq_lock := False\<rparr>, ev_lock := False\<rparr>, s5)"
    using assms s3(1) r
    by (simp add: event_trigger_all_def tqueue_wakeup_all_def event_idle_def unlocked_def s2_def)
  moreover have "thread_at s5 = thread_at s3" by (rule thread_at_cong) (simp add: s5_def s4_def)
  moreover have "thread_at s2 = thread_at s" by (rule thread_at_cong) (simp add: s2_def)
  moreover have "cpu s5 = cpu s"
    using sb(1) assms(1) by (cases "cpu s") (simp add: s5_def s4_def s2_def unlocked_def)
  ultimately show ?thesis using s3(3) by (auto simp: event_idle_def)
qed

text \<open>The same inside of another critical section: the processor's counters are as before.\<close>

lemma event_trigger_all_deep:
  assumes "deep s" and "event_idle e"
  shows "\<exists>e' s'. event_trigger_all e s = Inr (e', s') \<and> event_idle e' \<and> entries (wait_queue e') = [] \<and> same_but_threads s s' \<and>
    (\<forall>t. thread_at s' t = map_option (woken (set (entries (wait_queue e))) t) (thread_at s t))"
proof -
  define n where "n = reshed_block (cpu s)"
  have n: "0 < n" "sheduler_ready s" "\<not> sheduler_lock s" using assms(1) by (simp_all add: deep_def n_def)
  define s2 where "s2 = s\<lparr>cpu := (cpu s)\<lparr>reshed_block := n + 2\<rparr>\<rparr>"
  have d2: "deep s2" using n by (simp add: s2_def deep_def)
  then obtain s3 where s3: "wake_all (entries (wait_queue e)) s2 = Inr s3" "same_but_threads s2 s3"
      "\<forall>t. thread_at s3 t = map_option (woken (set (entries (wait_queue e))) t) (thread_at s2 t)"
    using wake_all_deep [OF d2, of "entries (wait_queue e)"] assms(2) by (auto simp: event_idle_def)
  note sb = same_but_threads_simps [OF s3(2)]
  define s4 where "s4 = s3\<lparr>cpu := (cpu s3)\<lparr>reshed_block := n + 1\<rparr>\<rparr>"
  define s5 where "s5 = s4\<lparr>cpu := (cpu s4)\<lparr>reshed_block := n\<rparr>\<rparr>"
  have r: "spinlock_release True s3 = Inr (False, s4)" "spinlock_release True s4 = Inr (False, s5)"
    using release_deep [of s3] release_deep [of s4] sb n by (simp_all add: s4_def s5_def s2_def)
  have "event_trigger_all e s = Inr (e\<lparr>wait_queue := (wait_queue e)\<lparr>entries := [], tq_lock := False\<rparr>, ev_lock := False\<rparr>, s5)"
    using assms(2) s3(1) r n by (simp add: event_trigger_all_def tqueue_wakeup_all_def event_idle_def s2_def n_def add.commute)
  moreover have "thread_at s5 = thread_at s3" by (rule thread_at_cong) (simp add: s5_def s4_def)
  moreover have "thread_at s2 = thread_at s" by (rule thread_at_cong) (simp add: s2_def)
  moreover have "same_but_threads s s5"
  proof -
    obtain ts where "s3 = s2\<lparr>threads := ts\<rparr>" using s3(2) unfolding same_but_threads_def by blast
    then show ?thesis by (cases s, cases "cpu s") (simp add: same_but_threads_def s5_def s4_def s2_def n_def)
  qed
  ultimately show ?thesis using s3(3) by (auto simp: event_idle_def)
qed

lemma event_wait_blocks:
  assumes "unlocked s" and "event_idle e" and c: "0 \<le> current_tid (cpu s)"
    and th: "thread_at s (current_tid (cpu s)) = Some th" and "\<not> abort th"
  shows "\<exists>e' s'. event_wait e s = Inr (None, e', s') \<and> event_idle e' \<and>
    entries (wait_queue e') = entries (wait_queue e) @ [current_tid (cpu s)] \<and>
    (\<forall>t. thread_at s' t = (if t = current_tid (cpu s) then Some (th\<lparr>status := THREAD_STATUS_BLOCKED\<rparr>) else thread_at s t)) \<and>
    resched s' \<and> sheduler_ready s' \<and> \<not> sheduler_lock s'"
proof -
  let ?tid = "current_tid (cpu s)"
  define s1 where "s1 = s\<lparr>cpu := (cpu s)\<lparr>reshed_block := 1\<rparr>\<rparr>"
  define s2 where "s2 = s\<lparr>cpu := (cpu s)\<lparr>reshed_block := 2\<rparr>\<rparr>"
  define s3 where "s3 = put_thread s2 ?tid (th\<lparr>status := THREAD_STATUS_BLOCKED\<rparr>)"
  define s4 where "s4 = s3\<lparr>cpu := (cpu s3)\<lparr>reshed_block := 1\<rparr>\<rparr>"
  define s5 where "s5 = s4\<lparr>cpu := (cpu s4)\<lparr>reshed_block := 0\<rparr>, resched := resched s4 \<or> should_reshed (cpu s4)\<rparr>"
  have at: "thread_at s1 = thread_at s" "thread_at s2 = thread_at s"
    by (rule thread_at_cong, simp add: s1_def, rule thread_at_cong, simp add: s2_def)
  have d: "deep s1" "deep s2" using assms(1) by (simp_all add: s1_def s2_def deep_def unlocked_def)
  have ex: "task_tshould_exit ?tid s1 = Inr (False, s1)"
    using th assms(5) at by (simp add: on_thread_deep [OF d(1) c] task_tshould_exit_def put_thread_same)
  have st: "task_tset_status ?tid THREAD_STATUS_BLOCKED s2 = Inr ((), s3)"
    using th at by (simp add: on_thread_deep [OF d(2) c] task_tset_status_def s3_def)
  have rd: "sheduler_ready s3" "reshed_block (cpu s3) = 2" "sheduler_ready s4" "reshed_block (cpu s4) = 1"
    using assms(1) by (simp_all add: s3_def s4_def s2_def unlocked_def)
  have r: "spinlock_release True s3 = Inr (False, s4)" "spinlock_release True s4 = Inr (False, s5)"
    using release_deep [of s3] release_last [of s4] rd by (simp_all add: s4_def s5_def)
  have cp: "current_tid (cpu s1) = ?tid" "s1\<lparr>cpu := (cpu s1)\<lparr>reshed_block := 2\<rparr>\<rparr> = s2" "sheduler_ready s1"
      "reshed_block (cpu s1) = 1" "tq_lock (wait_queue e) = False" "ev_lock e = False"
    using assms(1,2) by (simp_all add: s1_def s2_def unlocked_def event_idle_def)
  have q: "tqueue_add (wait_queue e) s1 =
      Inr ((wait_queue e)\<lparr>entries := entries (wait_queue e) @ [?tid], tq_lock := False\<rparr>, s4)"
    unfolding tqueue_add_def cp using cp st r(1) by simp
  have "event_wait e s = Inr (None, e\<lparr>wait_queue := (wait_queue e)\<lparr>entries := entries (wait_queue e) @ [?tid], tq_lock := False\<rparr>,
      ev_lock := False\<rparr>, s5\<lparr>resched := True\<rparr>)"
    unfolding event_wait_def cp using ex q r(2) assms(1)
    by (simp add: unlocked_def s1_def [symmetric] Let_def task_tcan_yield_def task_tyield_def task_reshed_def s5_def)
  moreover have "thread_at (s5\<lparr>resched := True\<rparr>) = thread_at s3"
    by (rule thread_at_cong) (simp add: s5_def s4_def)
  moreover have "thread_at s3 t = (if t = ?tid then Some (th\<lparr>status := THREAD_STATUS_BLOCKED\<rparr>) else thread_at s t)" for t
    unfolding s3_def using thread_at_put [of s2 ?tid th] th at by simp
  ultimately show ?thesis
    using assms(1,2) c by (auto simp: event_idle_def unlocked_def s5_def s4_def s3_def s2_def)
qed

section \<open>Properties\<close>

text \<open>A processor with two threads, the first of which runs and the second of which sleeps until 10.\<close>

definition some_thread_rec :: "thread_status \<Rightarrow> bool \<Rightarrow> thread" where
  "some_thread_rec st run = \<lparr>process = 1, kernel_stack = 0, saved_stack = 0, pagemap_ptr = 0, status = st,
     kernelmode = True, resume_after = 10, abort = False, running = run, busy = 0\<rparr>"

definition two_threads :: sched where
  "two_threads = \<lparr>threads = [Some (some_thread_rec THREAD_STATUS_RUNNABLE False),
       Some (some_thread_rec THREAD_STATUS_RUNNABLE True), Some (some_thread_rec THREAD_STATUS_SLEEPING False)],
     thread_count = 2, idle_thread = some_thread_rec THREAD_STATUS_RUNNABLE False, sheduler_lock = False,
     sheduler_ready = True,
     cpu = \<lparr>current_pid = 1, current_tid = 1, current_context = Ctx_Thread 1, last_tid = 1, cpu_kernel_stack = 0,
       user_stack = 0, reshed_block = 0, should_reshed = False, tss_rsp0 = 0\<rparr>, resched = False\<rparr>"

lemma two_threads_at:
  "thread_at two_threads t = (if t = 0 then Some (some_thread_rec THREAD_STATUS_RUNNABLE False)
     else if t = 1 then Some (some_thread_rec THREAD_STATUS_RUNNABLE True)
     else if t = 2 then Some (some_thread_rec THREAD_STATUS_SLEEPING False) else None)"
proof -
  consider "t < 0" | "t = 0" | "t = 1" | "t = 2" | "2 < t" by linarith
  then show ?thesis by cases (auto simp: thread_at_def two_threads_def)
qed

lemma two_threads_ok: "sched_ok two_threads" "unlocked two_threads"
  unfolding sched_ok_def two_threads_at
  by (auto simp: two_threads_def some_thread_rec_def unlocked_def)

lemma two_threads_ready: "ready two_threads 5 t \<longleftrightarrow> t = 1" "ready two_threads 11 t \<longleftrightarrow> t = 1 \<or> t = 2"
  unfolding ready_def two_threads_at by (auto simp: two_threads_def some_thread_rec_def)

text \<open>
  C2: When no lock is held the scheduler step never faults. It takes the first ready thread (runnable, or
  asleep with its time over) in the cyclic order that starts behind the last one chosen, and the idle
  thread only when none is ready; the chosen thread becomes runnable, running and current, the thread that
  leaves the processor has its stack saved and is no longer running, and no other thread changes. The
  lock and the rescheduling counter are as before and the invariant holds again.
\<close>

theorem shed_choose_round_robin:
  assumes "sched_ok s" and "unlocked s"
  shows "\<exists>s'. task_shed_choose ms s = Inr s' \<and> sched_ok s' \<and> unlocked s' \<and>
    (let p = (case find (ready s ms) ([last_tid (cpu s) + 1 .. thread_count s] @ [1 .. last_tid (cpu s)]) of
                None \<Rightarrow> 0 | Some t \<Rightarrow> t)
     in current_tid (cpu s') = p \<and> (p = 0 \<longleftrightarrow> (\<forall>t. \<not> ready s ms t)) \<and>
        current_context (cpu s') = (if p = 0 then Ctx_Idle else Ctx_Thread p) \<and>
        last_tid (cpu s') = (if p = 0 then last_tid (cpu s) else p) \<and>
        (\<forall>t. thread_at s' t = map_option (\<lambda>th. if t = p \<and> t \<noteq> 0
           then (left s t th)\<lparr>status := THREAD_STATUS_RUNNABLE, running := True\<rparr> else left s t th) (thread_at s t)))"
proof -
  have b: "0 \<le> last_tid (cpu s)" "last_tid (cpu s) \<le> thread_count s" using assms(1) by (simp_all add: sched_ok_def)
  obtain s' where s': "task_shed_choose ms s = Inr s'" "sched_ok s'" "unlocked s'"
      "current_tid (cpu s') = rr_pick ms s" "thread_count s' = thread_count s"
      "last_tid (cpu s') = (if rr_pick ms s = 0 then last_tid (cpu s) else rr_pick ms s)"
      "current_context (cpu s') = (if rr_pick ms s = 0 then Ctx_Idle else Ctx_Thread (rr_pick ms s))"
      "\<forall>t. thread_at s' t = map_option (\<lambda>th. if t = rr_pick ms s \<and> t \<noteq> 0
        then (left s t th)\<lparr>status := THREAD_STATUS_RUNNABLE, running := True\<rparr> else left s t th) (thread_at s t)"
    by (rule shed_choose_ok [OF assms])
  show ?thesis
    unfolding rr_order_def [symmetric] rr_pick_def [symmetric] Let_def
    by (intro exI [of _ s'] conjI s') (rule rr_pick_0 [OF b])
qed

theorem shed_choose_round_robin_witness:
  "\<exists>s'. task_shed_choose 11 two_threads = Inr s' \<and> current_tid (cpu s') = 2 \<and> current_context (cpu s') = Ctx_Thread 2"
proof -
  have "find (ready two_threads 11) ([last_tid (cpu two_threads) + 1 .. thread_count two_threads] @
      [1 .. last_tid (cpu two_threads)]) = Some 2"
    using two_threads_ready(2) by (simp add: two_threads_def upto.simps)
  then show ?thesis
    using shed_choose_round_robin [OF two_threads_ok, of 11] by (auto simp: Let_def)
qed

text \<open>
  C17: Bounded waiting. Along any sequence of scheduler entries during which no thread is created, a
  thread that stays ready is given the processor within \<open>thread_count\<close> entries, whatever the other
  threads do in between. \<open>thread_count\<close> is only ever incremented, so that the bound is the number of
  threads created since the start of the system and not of those that still exist.
\<close>

theorem shed_bounded_waiting:
  assumes "shed_run clock S n" and "\<forall>i. ready (S i) (clock i) t"
  shows "\<exists>i. int i < n \<and> (\<exists>s'. task_shed_choose (clock i) (S i) = Inr s' \<and> current_tid (cpu s') = t)"
proof -
  have ok: "sched_ok (S i)" "unlocked (S i)" "thread_count (S i) = n" for i using assms(1) by (auto simp: shed_run_def)
  have t: "0 < t" "t \<le> n" using ready_thread [OF assms(2) [rule_format, of 0]] ok(3) by auto
  have l: "0 \<le> last_tid (cpu (S i))" "last_tid (cpu (S i)) \<le> n" for i using ok(1,3) [of i] by (auto simp: sched_ok_def)
  have d: "0 < rr_distance n (last_tid (cpu (S i))) t" "rr_distance n (last_tid (cpu (S i))) t \<le> n" for i
    using t l [of i] by (auto simp: rr_distance_def)
  have "\<exists>i < nat n. rr_pick (clock i) (S i) = t"
  proof (rule ccontr)
    assume "\<not> ?thesis"
    then have "rr_distance n (last_tid (cpu (S (nat n)))) t + int (nat n) \<le> rr_distance n (last_tid (cpu (S 0))) t"
      using shed_run_bound [OF assms, of "nat n"] by blast
    with d(1) [of "nat n"] d(2) [of 0] t show False by simp
  qed
  then obtain i where i: "i < nat n" "rr_pick (clock i) (S i) = t" by blast
  obtain s' where "task_shed_choose (clock i) (S i) = Inr s'" "current_tid (cpu s') = rr_pick (clock i) (S i)"
    by (rule shed_choose_ok [OF ok(1,2)])
  with i show ?thesis by (intro exI [of _ i]) auto
qed

theorem shed_bounded_waiting_witness:
  "\<exists>i. int i < 2 \<and> (\<exists>s'. task_shed_choose 5 two_threads = Inr s' \<and> current_tid (cpu s') = 1)"
proof -
  have "rr_pick 5 two_threads = 1"
    using two_threads_ready(1) by (simp add: rr_pick_def rr_order_def two_threads_def upto.simps)
  moreover obtain s' where "task_shed_choose 5 two_threads = Inr s'" "last_tid (cpu s') =
      (if rr_pick 5 two_threads = 0 then last_tid (cpu two_threads) else rr_pick 5 two_threads)"
    by (rule shed_choose_ok [OF two_threads_ok])
  ultimately have "task_shed_choose 5 two_threads = Inr s'" "last_tid (cpu s') = 1" by simp_all
  then have "shed_run (\<lambda>_. 5) (\<lambda>_. two_threads) 2"
    using two_threads_ok by (auto simp: shed_run_def two_threads_def)
  then show ?thesis
    using shed_bounded_waiting [of "\<lambda>_. 5" "\<lambda>_. two_threads" 2 1] two_threads_ready(1) by simp
qed

text \<open>
  C4: Critical sections are atomic. While a thread holds spinlocks, however deep they nest and however
  often the timer interrupts it, no thread changes and the processor stays with it; its only trace is that,
  if the timer fired, the release of the outermost lock gives the processor away.
\<close>

theorem critical_section_atomic:
  assumes "unlocked s" and "\<not> should_reshed (cpu s)" and "\<not> resched s" and "nested 1 body"
  shows "cs_run (Acquire # body @ [Release]) s =
    Inr (s\<lparr>cpu := (cpu s)\<lparr>should_reshed := ticked body\<rparr>, resched := ticked body\<rparr>)"
proof -
  define s1 where "s1 = s\<lparr>cpu := (cpu s)\<lparr>reshed_block := 1\<rparr>\<rparr>"
  define s2 where "s2 = s1\<lparr>cpu := (cpu s1)\<lparr>reshed_block := 1, should_reshed := ticked body\<rparr>\<rparr>"
  have "cs_run (Acquire # body @ [Release]) s = cs_run (body @ [Release]) s1"
    using assms(1) by (simp add: unlocked_def s1_def)
  also have "\<dots> = cs_run [Release] s2"
    unfolding cs_run_append using cs_run_nested [of s1 1 body] assms by (simp add: unlocked_def s1_def s2_def)
  also have "\<dots> = Inr (s2\<lparr>cpu := (cpu s2)\<lparr>reshed_block := 0\<rparr>, resched := ticked body\<rparr>)"
    using release_last [of s2] assms by (simp add: unlocked_def s1_def s2_def)
  also have "s2\<lparr>cpu := (cpu s2)\<lparr>reshed_block := 0\<rparr>, resched := ticked body\<rparr> =
      s\<lparr>cpu := (cpu s)\<lparr>should_reshed := ticked body\<rparr>, resched := ticked body\<rparr>"
    using assms(1) by (cases s, cases "cpu s") (simp add: unlocked_def s1_def s2_def)
  finally show ?thesis .
qed

theorem critical_section_atomic_witness:
  "cs_run (Acquire # [Acquire, Tick 3, Release] @ [Release]) two_threads =
    Inr (two_threads\<lparr>cpu := (cpu two_threads)\<lparr>should_reshed := True\<rparr>, resched := True\<rparr>)"
  using critical_section_atomic [OF two_threads_ok(2), of "[Acquire, Tick 3, Release]"]
  by (simp add: two_threads_def)

text \<open>
  C18: No wake-up is lost. A thread that waits for an event and is not told to exit is put at the end of the
  event's queue and blocked in one step, and gives the processor away; whichever thread then triggers the
  event, every thread of the queue that is blocked becomes runnable, the waiting one among them, no other
  thread changes, and the queue is empty.
\<close>

theorem event_no_lost_wakeup:
  assumes "unlocked s" and "event_idle e" and "0 \<le> current_tid (cpu s)"
    and "thread_at s (current_tid (cpu s)) = Some th" and "\<not> abort th"
  shows "\<exists>e1 s1. event_wait e s = Inr (None, e1, s1) \<and> resched s1 \<and>
    thread_at s1 (current_tid (cpu s)) = Some (th\<lparr>status := THREAD_STATUS_BLOCKED\<rparr>) \<and>
    entries (wait_queue e1) = entries (wait_queue e) @ [current_tid (cpu s)] \<and>
    (\<forall>c. reshed_block c = 0 \<longrightarrow> (\<exists>e2 s2. event_trigger_all e1 (s1\<lparr>cpu := c\<rparr>) = Inr (e2, s2) \<and>
       entries (wait_queue e2) = [] \<and>
       thread_at s2 (current_tid (cpu s)) = Some (th\<lparr>status := THREAD_STATUS_RUNNABLE\<rparr>) \<and>
       (\<forall>t. t \<noteq> current_tid (cpu s) \<longrightarrow>
          thread_at s2 t = map_option (woken (set (entries (wait_queue e))) t) (thread_at s t))))"
proof -
  let ?tid = "current_tid (cpu s)"
  obtain e1 s1 where w: "event_wait e s = Inr (None, e1, s1)" "event_idle e1" "resched s1" "sheduler_ready s1"
      "\<not> sheduler_lock s1" "entries (wait_queue e1) = entries (wait_queue e) @ [?tid]"
      "\<forall>t. thread_at s1 t = (if t = ?tid then Some (th\<lparr>status := THREAD_STATUS_BLOCKED\<rparr>) else thread_at s t)"
    using event_wait_blocks [OF assms] by blast
  have "\<exists>e2 s2. event_trigger_all e1 (s1\<lparr>cpu := c\<rparr>) = Inr (e2, s2) \<and> entries (wait_queue e2) = [] \<and>
      thread_at s2 ?tid = Some (th\<lparr>status := THREAD_STATUS_RUNNABLE\<rparr>) \<and>
      (\<forall>t. t \<noteq> ?tid \<longrightarrow> thread_at s2 t = map_option (woken (set (entries (wait_queue e))) t) (thread_at s t))"
    if c: "reshed_block c = 0" for c
  proof -
    have u: "unlocked (s1\<lparr>cpu := c\<rparr>)" using c w by (simp add: unlocked_def)
    obtain e2 s2 where t: "event_trigger_all e1 (s1\<lparr>cpu := c\<rparr>) = Inr (e2, s2)" "entries (wait_queue e2) = []"
        "\<forall>t. thread_at s2 t = map_option (woken (set (entries (wait_queue e1))) t) (thread_at (s1\<lparr>cpu := c\<rparr>) t)"
      using event_trigger_all_wakes [OF u w(2)] by blast
    have at: "thread_at (s1\<lparr>cpu := c\<rparr>) = thread_at s1" by (rule thread_at_cong) simp
    have "thread_at s2 t = map_option (woken (set (entries (wait_queue e))) t) (thread_at s t)" if "t \<noteq> ?tid" for t
      using that t(3) w(6,7) at by (cases "thread_at s t") (auto simp: woken_def)
    moreover have "thread_at s2 ?tid = Some (th\<lparr>status := THREAD_STATUS_RUNNABLE\<rparr>)"
      using t(3) w(6,7) at by (simp add: woken_def)
    ultimately show ?thesis using t by blast
  qed
  with w show ?thesis by auto
qed

theorem event_no_lost_wakeup_witness:
  "\<exists>e1 s1. event_wait \<lparr>ev_lock = False, counter = 0, wait_queue = \<lparr>entries = [], tq_lock = False\<rparr>\<rparr> two_threads =
     Inr (None, e1, s1) \<and> resched s1 \<and> entries (wait_queue e1) = [1]"
proof -
  have "current_tid (cpu two_threads) = 1" by (simp add: two_threads_def)
  then show ?thesis
    using event_no_lost_wakeup [OF two_threads_ok(2),
        of "\<lparr>ev_lock = False, counter = 0, wait_queue = \<lparr>entries = [], tq_lock = False\<rparr>\<rparr>"
           "some_thread_rec THREAD_STATUS_RUNNABLE True"]
    by (auto simp: event_idle_def two_threads_at some_thread_rec_def)
qed

end
