(* ===== verification/Snprintf.thy ===== *)
theory Snprintf
  imports CString
begin

text \<open>
  \<^verbatim>\<open>kernel/snprintf.c\<close>: formatted output into a buffer of limited size. The format is a byte
  list with its terminator, the variable arguments a list of numbers and strings; asking for an
  argument that is not there is a fault, as is every access outside of an object. The main property
  is that the bounded writer agrees with an unbounded rendering that is cut off.
\<close>

section \<open>Output\<close>

record out =
  dst :: bytes
  pos :: nat
  remaining :: nat

datatype varg = ANum u64 | AStr bytes

fun pad_loop :: "nat \<Rightarrow> u8 \<Rightarrow> out \<Rightarrow> (bool \<times> out) res" where
  "pad_loop 0 pad_char z = Inr (True, z)"
| "pad_loop (Suc len2) pad_char z =
     (if remaining z = 0 then Inr (False, z)
      else bindR (updR (dst z) (pos z) pad_char) (\<lambda>d.
             pad_loop len2 pad_char (z\<lparr>dst := d, pos := pos z + 1, remaining := remaining z - 1\<rparr>)))"

fun copy_loop :: "bytes \<Rightarrow> out \<Rightarrow> out res" where
  "copy_loop [] z = Inl OutOfBounds"
| "copy_loop (c # buffer) z =
     (if c = 0 then Inr z
      else if remaining z = 0 then Inr z
      else bindR (updR (dst z) (pos z) c) (\<lambda>d.
             copy_loop buffer (z\<lparr>dst := d, pos := pos z + 1, remaining := remaining z - 1\<rparr>)))"

definition pad_count :: "nat \<Rightarrow> nat \<Rightarrow> nat" where
  "pad_count pad_len n = nat (sint (word_of_int (int pad_len - int n) :: u32))"

definition snprintf_common :: "bytes \<Rightarrow> u8 \<Rightarrow> nat \<Rightarrow> out \<Rightarrow> out res" where
  "snprintf_common buffer pad_char pad_len z =
     (if pad_len = 0 then copy_loop buffer z
      else bindR (strlen buffer) (\<lambda>n.
           bindR (pad_loop (pad_count pad_len n) pad_char z) (\<lambda>(go_on, z').
             if go_on then copy_loop buffer z' else Inr z')))"

section \<open>Conversions\<close>

definition is_digit :: "u8 \<Rightarrow> bool" where
  "is_digit c \<longleftrightarrow> 48 \<le> c \<and> c \<le> 57"

text \<open>
  What follows a percent sign: padding character, width, length modifier, type, and the position of
  the type character. The width is collected in a buffer of 72 bytes.
\<close>

definition spec_at :: "bytes \<Rightarrow> (u8 \<times> nat \<times> u8 \<times> u8 \<times> nat) res" where
  "spec_at f =
     bindR (nthR f 0) (\<lambda>c0.
       let z = (if c0 = 48 then 1 else 0);
           pad_with = (if c0 = 48 then 48 else 32);
           ds = takeWhile is_digit (drop z f);
           k = z + length ds
       in if 71 < length ds then Inl OutOfBounds
          else bindR (nthR f k) (\<lambda>c.
               bindR (atoi (ds @ [0])) (\<lambda>p.
                 let pad_len = to_size_t (sint p)
                 in if c = 108 \<or> c = 104 then mapR (\<lambda>t. (pad_with, pad_len, c, t, Suc k)) (nthR f (Suc k))
                    else Inr (pad_with, pad_len, 0, c, k))))"

definition num_arg :: "varg list \<Rightarrow> (u64 \<times> varg list) res" where
  "num_arg args = (case args of ANum w # rest \<Rightarrow> Inr (w, rest) | _ \<Rightarrow> Inl OutOfBounds)"

definition upper :: "bytes \<Rightarrow> bytes" where
  "upper = map (\<lambda>c. word_of_int (toupper (sint c)))"

text \<open>The switch on the type: the text to print and the arguments left, or nothing for the default case.\<close>

definition convert :: "u8 \<Rightarrow> u8 \<Rightarrow> varg list \<Rightarrow> (bytes \<times> varg list) option res" where
  "convert t leng args =
     (if t = 105 then mapR (\<lambda>(w, rest). Some (
          if leng = 104 then htoa (ucast w) 10 else if leng = 108 then ltoa w 10 else itoa (ucast w) 10, rest)) (num_arg args)
      else if t = 117 then mapR (\<lambda>(w, rest). Some (
          if leng = 104 then uhtoa (ucast w) 10 else if leng = 108 then ultoa w 10 else uitoa (ucast w) 10, rest)) (num_arg args)
      else if t = 88 \<or> t = 120 then mapR (\<lambda>(w, rest). Some (
          let b = (if leng = 104 then uhtoa (ucast w) 16 else if leng = 108 then ultoa w 16 else uitoa (ucast w) 16)
          in if t = 88 then upper b else b, rest)) (num_arg args)
      else if t = 112 \<or> t = 80 then mapR (\<lambda>(w, rest). Some (
          let b = ultoa w 16 in if t = 80 then upper b else b, rest)) (num_arg args)
      else if t = 115 then (case args of AStr b # rest \<Rightarrow> Inr (Some (b, rest)) | _ \<Rightarrow> Inl OutOfBounds)
      else Inr None)"

definition pad_of :: "u8 \<Rightarrow> u8 \<Rightarrow> u8" where
  "pad_of t pad_with = (if t = 112 \<or> t = 80 then 48 else pad_with)"

section \<open>The loop over the format\<close>

definition put_char :: "u8 \<Rightarrow> out \<Rightarrow> out res" where
  "put_char c z =
     (if remaining z > 0
      then mapR (\<lambda>d. z\<lparr>dst := d, pos := pos z + 1, remaining := remaining z - 1\<rparr>) (updR (dst z) (pos z) c)
      else Inr z)"

function snprintf_loop :: "bytes \<Rightarrow> varg list \<Rightarrow> out \<Rightarrow> out res" where
  "snprintf_loop [] args z = Inl OutOfBounds"
| "snprintf_loop (c # f) args z =
     (if c = 0 then Inr z
      else if c \<noteq> 37 then bindR (put_char c z) (snprintf_loop f args)
      else bindR (spec_at f) (\<lambda>(pad_with, pad_len, leng, t, k).
           bindR (convert t leng args) (\<lambda>r. case r of
               None \<Rightarrow> bindR (put_char t z) (snprintf_loop (drop (Suc k) f) args)
             | Some (buffer, args') \<Rightarrow>
                 bindR (snprintf_common buffer (pad_of t pad_with) pad_len z)
                   (snprintf_loop (drop (Suc k) f) args'))))"
  by pat_completeness auto
termination
  by (relation "measure (\<lambda>(f, args, z). length f)") auto

declare snprintf_loop.simps(2) [simp del]

definition snprintf :: "bytes \<Rightarrow> nat \<Rightarrow> bytes \<Rightarrow> varg list \<Rightarrow> (nat \<times> bytes) res" where
  "snprintf d sz format params =
     (if sz = 0 then Inr (0, d)
      else bindR (snprintf_loop format params \<lparr>dst = d, pos = 0, remaining = sz - 1\<rparr>) (\<lambda>z.
             mapR (\<lambda>d'. (sz - 1 - remaining z, d')) (updR (dst z) (pos z) 0)))"

section \<open>Unbounded rendering\<close>

definition field :: "bytes \<Rightarrow> u8 \<Rightarrow> nat \<Rightarrow> bytes res" where
  "field buffer pad_char pad_len =
     mapR (\<lambda>n. (if pad_len = 0 then [] else replicate (pad_count pad_len n) pad_char) @ take n buffer) (strlen buffer)"

function render :: "bytes \<Rightarrow> varg list \<Rightarrow> bytes res" where
  "render [] args = Inl OutOfBounds"
| "render (c # f) args =
     (if c = 0 then Inr []
      else if c \<noteq> 37 then mapR (Cons c) (render f args)
      else bindR (spec_at f) (\<lambda>(pad_with, pad_len, leng, t, k).
           bindR (convert t leng args) (\<lambda>r. case r of
               None \<Rightarrow> mapR (Cons t) (render (drop (Suc k) f) args)
             | Some (buffer, args') \<Rightarrow>
                 bindR (field buffer (pad_of t pad_with) pad_len)
                   (\<lambda>s. mapR (append s) (render (drop (Suc k) f) args')))))"
  by pat_completeness auto
termination
  by (relation "measure (\<lambda>(f, args). length f)") auto

declare render.simps(2) [simp del]

section \<open>Writing characters\<close>

text \<open>The state after a text has been written as far as there is room.\<close>

definition wrote :: "bytes \<Rightarrow> out \<Rightarrow> out" where
  "wrote s z = z\<lparr>dst := blit (dst z) (pos z) (take (remaining z) s),
     pos := pos z + min (remaining z) (length s), remaining := remaining z - length s\<rparr>"

definition room :: "out \<Rightarrow> bool" where
  "room z \<longleftrightarrow> pos z + remaining z \<le> length (dst z)"

lemma room_wrote: "room z \<Longrightarrow> room (wrote s z)"
  by (auto simp: room_def wrote_def min_def)

lemma wrote_nil [simp]: "room z \<Longrightarrow> wrote [] z = z"
  by (simp add: wrote_def room_def)

lemma wrote_append: 
  assumes "room z"
  shows "wrote t (wrote s z) = wrote (s @ t) z"
proof (cases "length s \<le> remaining z")
  case True
  have "blit (blit (dst z) (pos z) s) (pos z + length s) (take (remaining z - length s) t) =
      blit (dst z) (pos z) (s @ take (remaining z - length s) t)"
    using assms True by (intro blit_blit) (auto simp: room_def min_def)
  moreover have "pos z + length s + min (remaining z - length s) (length t) = pos z + min (remaining z) (length s + length t)"
    using True by linarith
  ultimately show ?thesis using True by (simp add: wrote_def min_absorb2)
next
  case False
  then show ?thesis using assms by (simp add: wrote_def min_def room_def)
qed

lemma wrote_full: "remaining z = 0 \<Longrightarrow> room z \<Longrightarrow> wrote s z = z"
  by (simp add: wrote_def room_def)

lemma put_char_wrote: "room z \<Longrightarrow> put_char c z = Inr (wrote [c] z)"
  by (auto simp: put_char_def wrote_def room_def blit_def upd_conv_take_nth_drop Suc_leI min_def)

lemma wrote_Cons: "room z \<Longrightarrow> wrote s (wrote [c] z) = wrote (c # s) z"
  by (simp add: wrote_append)

lemma step_wrote:
  assumes "room z" and "remaining z \<noteq> 0"
  shows "\<exists>d. updR (dst z) (pos z) c = Inr d \<and>
    z\<lparr>dst := d, pos := pos z + 1, remaining := remaining z - 1\<rparr> = wrote [c] z"
  using put_char_wrote [OF assms(1), of c] assms(2) by (auto simp: put_char_def mapR_eq_Inr_iff)

lemma pad_loop_wrote:
  assumes "room z"
  shows "pad_loop n c z = Inr (n \<le> remaining z, wrote (replicate n c) z)"
  using assms
proof (induction n arbitrary: z)
  case (Suc n)
  show ?case
  proof (cases "remaining z = 0")
    case True
    then show ?thesis using wrote_full [OF True Suc.prems] by simp
  next
    case False
    obtain d where d: "updR (dst z) (pos z) c = Inr d"
      "z\<lparr>dst := d, pos := pos z + 1, remaining := remaining z - 1\<rparr> = wrote [c] z"
      using step_wrote [OF Suc.prems False] by blast
    have "pad_loop (Suc n) c z = pad_loop n c (wrote [c] z)" using False d by simp
    also have "\<dots> = Inr (n \<le> remaining (wrote [c] z), wrote (replicate n c) (wrote [c] z))"
      by (rule Suc.IH [OF room_wrote [OF Suc.prems]])
    also have "wrote (replicate n c) (wrote [c] z) = wrote (replicate (Suc n) c) z" using wrote_Cons [OF Suc.prems] by simp
    also have "(n \<le> remaining (wrote [c] z)) = (Suc n \<le> remaining z)" using False by (auto simp: wrote_def)
    finally show ?thesis .
  qed
qed simp

lemma copy_loop_wrote:
  assumes "room z" and "strlen buffer = Inr n"
  shows "copy_loop buffer z = Inr (wrote (take n buffer) z)"
  using assms
proof (induction buffer arbitrary: z n)
  case (Cons c b)
  show ?case
  proof (cases "c = 0")
    case True
    with Cons.prems show ?thesis by simp
  next
    case c: False
    then obtain m where m: "strlen b = Inr m" "n = Suc m" using Cons.prems(2) by (auto simp: mapR_eq_Inr_iff)
    show ?thesis
    proof (cases "remaining z = 0")
      case True
      then show ?thesis using c wrote_full [OF True Cons.prems(1)] by simp
    next
      case False
      obtain d where d: "updR (dst z) (pos z) c = Inr d"
        "z\<lparr>dst := d, pos := pos z + 1, remaining := remaining z - 1\<rparr> = wrote [c] z"
        using step_wrote [OF Cons.prems(1) False] by blast
      have "copy_loop (c # b) z = copy_loop b (wrote [c] z)" using c False d by simp
      also have "\<dots> = Inr (wrote (take m b) (wrote [c] z))" by (rule Cons.IH [OF room_wrote [OF Cons.prems(1)] m(1)])
      finally show ?thesis using m(2) wrote_Cons [OF Cons.prems(1)] by simp
    qed
  qed
qed simp

lemma snprintf_common_wrote:
  assumes "room z" and "field buffer c pad_len = Inr s"
  shows "snprintf_common buffer c pad_len z = Inr (wrote s z)"
proof -
  obtain n where n: "strlen buffer = Inr n"
    and s: "s = (if pad_len = 0 then [] else replicate (pad_count pad_len n) c) @ take n buffer"
    using assms(2) by (auto simp: field_def mapR_eq_Inr_iff)
  show ?thesis
  proof (cases "pad_len = 0")
    case True
    then show ?thesis using copy_loop_wrote [OF assms(1) n] s by (simp add: snprintf_common_def)
  next
    case False
    let ?p = "replicate (pad_count pad_len n) c"
    have "copy_loop buffer (wrote ?p z) = Inr (wrote s z)"
      using copy_loop_wrote [OF room_wrote [OF assms(1)] n] False s wrote_append [OF assms(1)] by simp
    moreover have "wrote ?p z = wrote s z" if "\<not> pad_count pad_len n \<le> remaining z"
    proof -
      have "remaining (wrote ?p z) = 0" using that by (simp add: wrote_def)
      then have "wrote (take n buffer) (wrote ?p z) = wrote ?p z" using room_wrote [OF assms(1)] by (rule wrote_full)
      then show ?thesis using wrote_append [OF assms(1)] False s by simp
    qed
    ultimately show ?thesis
      using False n pad_loop_wrote [OF assms(1)] by (simp add: snprintf_common_def)
  qed
qed

lemma snprintf_loop_wrote:
  assumes "room z" and "render f args = Inr s"
  shows "snprintf_loop f args z = Inr (wrote s z)"
  using assms
proof (induction f args z arbitrary: s rule: snprintf_loop.induct)
  case (2 c f args z)
  show ?case
  proof (cases "c = 0 \<or> c \<noteq> 37")
    case True
    then show ?thesis
      using 2(4,5) 2(1) [of "wrote [c] z"] room_wrote [OF 2(4)] wrote_Cons [OF 2(4)]
      by (auto simp: snprintf_loop.simps(2) [of c] render.simps(2) [of c] put_char_wrote mapR_eq_Inr_iff)
  next
    case False
    obtain pw pl lg t k where sp: "spec_at f = Inr (pw, pl, lg, t, k)"
      using 2(5) False by (auto simp: render.simps(2) [of c] bindR_eq_Inr_iff)
    obtain r where r: "convert t lg args = Inr r"
      using 2(5) False sp by (auto simp: render.simps(2) [of c] bindR_eq_Inr_iff)
    show ?thesis
    proof (cases r)
      case None
      then obtain s' where s': "render (drop (Suc k) f) args = Inr s'" "s = t # s'"
        using 2(5) False sp r by (auto simp: render.simps(2) [of c] mapR_eq_Inr_iff)
      have "snprintf_loop (drop (Suc k) f) args (wrote [t] z) = Inr (wrote s' (wrote [t] z))"
        by (rule 2(2) [OF _ _ sp refl refl refl refl r None put_char_wrote [OF 2(4)] room_wrote [OF 2(4)] s'(1)]) (use False in auto)
      then show ?thesis
        using False sp r None s'(2) put_char_wrote [OF 2(4)] wrote_Cons [OF 2(4)]
        by (simp add: snprintf_loop.simps(2) [of 37])
    next
      case (Some q)
      obtain buffer args' where q: "q = (buffer, args')" by fastforce
      obtain s1 s2 where s12: "field buffer (pad_of t pw) pl = Inr s1" "render (drop (Suc k) f) args' = Inr s2" "s = s1 @ s2"
        using 2(5) False sp r Some q by (auto simp: render.simps(2) [of c] mapR_eq_Inr_iff bindR_eq_Inr_iff)
      have "snprintf_loop (drop (Suc k) f) args' (wrote s1 z) = Inr (wrote s2 (wrote s1 z))"
        by (rule 2(3) [OF _ _ sp refl refl refl refl r Some q [symmetric] snprintf_common_wrote [OF 2(4) s12(1)] room_wrote [OF 2(4)] s12(2)]) (use False in auto)
      then show ?thesis
        using False sp r Some q snprintf_common_wrote [OF 2(4) s12(1)] s12(3) wrote_append [OF 2(4)]
        by (simp add: snprintf_loop.simps(2) [of 37])
    qed
  qed
qed simp

lemma snprintf_cut:
  assumes "render format params = Inr s" and "0 < sz" and "sz \<le> length d"
  shows "snprintf d sz format params = Inr (min (sz - 1) (length s), blit d 0 (take (sz - 1) s @ [0]))"
proof -
  let ?z = "\<lparr>dst = d, pos = 0, remaining = sz - 1\<rparr>"
  have room: "room ?z" using assms by (simp add: room_def)
  have len: "length (blit d 0 (take (sz - 1) s)) = length d" using assms by simp
  have "(blit d 0 (take (sz - 1) s))[min (sz - 1) (length s) := 0] = blit d 0 (take (sz - 1) s @ [0])"
    using blit_snoc [of 0 "take (sz - 1) s" d 0] assms by (simp add: min.commute)
  then show ?thesis
    using snprintf_loop_wrote [OF room assms(1)] assms(2,3) len
    by (auto simp: snprintf_def wrote_def min_def)
qed

section \<open>Rendering of strings\<close>

lemma render_string:
  assumes "cstring s"
  shows "render (37 # 115 # f) (AStr (s @ 0 # r) # args) = mapR (append s) (render f args)"
proof -
  have "spec_at (115 # f) = Inr (32, 0, 0, 115, 0)"
    by (simp add: spec_at_def is_digit_def atoi_def ATON_COMMON_def)
  moreover have "convert 115 0 (AStr (s @ 0 # r) # args) = Inr (Some (s @ 0 # r, args))" by (simp add: convert_def)
  moreover have "field (s @ 0 # r) (pad_of 115 32) 0 = Inr s" using assms by (simp add: field_def)
  ultimately show ?thesis by (simp add: render.simps(2) [of 37])
qed

lemma render_end: "render (0 # f) args = Inr []"
  by (simp add: render.simps(2))

lemma render_one: "cstring s \<Longrightarrow> render (cstr ''%s'') [AStr (s @ 0 # r)] = Inr s"
  by (simp add: cstr_def bytes_of_def render_string render_end)

lemma render_two:
  "cstring s \<Longrightarrow> cstring t \<Longrightarrow> render (cstr ''%s%s'') [AStr (s @ 0 # r), AStr (t @ 0 # q)] = Inr (s @ t)"
  by (simp add: cstr_def bytes_of_def render_string render_end)

section \<open>Strings without a terminator\<close>

text \<open>A string conversion stops when the buffer is full, so the string need not end before that.\<close>

lemma copy_loop_open:
  assumes "room z" and "remaining z < length xs \<or> 0 \<in> set xs"
  shows "copy_loop xs z = Inr (wrote (takeWhile (\<lambda>c. c \<noteq> 0) xs) z)"
  using assms
proof (induction xs arbitrary: z)
  case (Cons c b)
  show ?case
  proof (cases "c = 0 \<or> remaining z = 0")
    case True
    then show ?thesis using Cons.prems(1) by (auto simp: wrote_full)
  next
    case False
    obtain d where d: "updR (dst z) (pos z) c = Inr d"
      "z\<lparr>dst := d, pos := pos z + 1, remaining := remaining z - 1\<rparr> = wrote [c] z"
      using step_wrote [OF Cons.prems(1)] False by blast
    have "remaining (wrote [c] z) = remaining z - 1" by (simp add: wrote_def)
    then have "copy_loop b (wrote [c] z) = Inr (wrote (takeWhile (\<lambda>c. c \<noteq> 0) b) (wrote [c] z))"
      using Cons.prems False by (intro Cons.IH room_wrote) auto
    then show ?thesis using False d wrote_Cons [OF Cons.prems(1)] by simp
  qed
qed simp

lemma take_takeWhile: "take n (takeWhile P xs) = takeWhile P (take n xs)"
  by (induction xs arbitrary: n) (auto simp: take_Cons')

lemma snprintf_open_string:
  assumes "0 < sz" and "sz \<le> length d" and "sz \<le> length xs \<or> 0 \<in> set xs"
  shows "\<exists>k. snprintf d sz (cstr ''%s'') [AStr xs] = Inr (k, blit d 0 (takeWhile (\<lambda>c. c \<noteq> 0) (take (sz - 1) xs) @ [0]))"
proof -
  let ?z = "\<lparr>dst = d, pos = 0, remaining = sz - 1\<rparr>" and ?s = "takeWhile (\<lambda>c. c \<noteq> 0) xs"
  have room: "room ?z" using assms by (simp add: room_def)
  have "spec_at (115 # 0 # []) = Inr (32, 0, 0, 115, 0)"
    by (simp add: spec_at_def is_digit_def atoi_def ATON_COMMON_def)
  then have "snprintf_loop (cstr ''%s'') [AStr xs] ?z = copy_loop xs ?z"
    by (cases "copy_loop xs ?z")
      (auto simp: cstr_def bytes_of_def snprintf_loop.simps(2) convert_def snprintf_common_def pad_of_def)
  also have "\<dots> = Inr (wrote ?s ?z)" using assms by (intro copy_loop_open room) auto
  finally have "snprintf_loop (cstr ''%s'') [AStr xs] ?z = Inr (wrote ?s ?z)" .
  moreover have "(blit d 0 (take (sz - 1) ?s))[min (sz - 1) (length ?s) := 0] = blit d 0 (take (sz - 1) ?s @ [0])"
    using blit_snoc [of 0 "take (sz - 1) ?s" d 0] assms by (simp add: min.commute)
  moreover have "length (blit d 0 (take (sz - 1) ?s)) = length d" using assms by simp
  ultimately show ?thesis using assms by (auto simp: snprintf_def wrote_def take_takeWhile min_def)
qed

section \<open>Properties\<close>

text \<open>
  C23: \<open>snprintf\<close> into a buffer of \<open>sz\<close> bytes never writes outside of it: it stores the unbounded
  rendering of the format, cut off after \<open>sz - 1\<close> bytes, and a terminator, leaves the rest of the
  buffer as it was, and returns the number of bytes stored.
\<close>

theorem snprintf_truncates:
  assumes "render format params = Inr s" and "0 < sz" and "sz \<le> length d"
  shows "snprintf d sz format params = Inr (min (sz - 1) (length s), blit d 0 (take (sz - 1) s @ [0]))"
  using assms by (rule snprintf_cut)

theorem snprintf_truncates_witness:
  "snprintf (replicate 5 7) 4 (cstr ''n=%i'') [ANum 42] = Inr (3, bytes_of ''n=4'' @ [0, 7])"
proof -
  have r: "render (cstr ''n=%i'') [ANum 42] = Inr (bytes_of ''n=42'')"
    by code_simp
  have "take 3 (bytes_of ''n=42'') = bytes_of ''n=4''" by (simp add: bytes_of_def)
  then show ?thesis
    using snprintf_truncates [OF r, of 4 "replicate 5 7"] by (simp add: blit_def)
qed

end
