(* ===== verification/Path.thy ===== *)
theory Path
  imports Snprintf
begin

text \<open>
  Paths: the macros \<open>path_count_segments\<close> and \<open>path_walk\<close> of \<^verbatim>\<open>include/aex/fs/fs.h\<close> and
  \<open>fs_to_absolute_path\<close> of \<^verbatim>\<open>fs/fs.c\<close>, on byte buffers with their bounds. A path is a C
  string; 47 is the slash.
\<close>

section \<open>Walking over a path\<close>

definition next_segment :: "bytes \<Rightarrow> (bytes \<times> nat) res" where
  "next_segment local =
     (let l = dropWhile (\<lambda>c. c = 47) local in mapR (Pair l) (strchrnul l 47))"

text \<open>The position of \<open>ptr\<close> at the first character means that the path is at its end.\<close>

lemma sint_slash: "sint (x :: u8) = 47 \<longleftrightarrow> x = 47"
  using sint_u8_eq [of x 47] by simp

lemma next_segment_pos:
  assumes "next_segment local = Inr (l, n)" and "\<not> (n = 0 \<and> l ! 0 = 0)"
  shows "0 < n \<and> n < length l \<and> length l \<le> length local"
proof -
  have l: "l = dropWhile (\<lambda>c. c = 47) local" and n: "strchrnul l 47 = Inr n"
    using assms(1) by (auto simp: next_segment_def Let_def mapR_eq_Inr_iff)
  obtain c l' where cl: "l = c # l'" using n by (cases l) auto
  have "c \<noteq> 47" using l cl dropWhile_eq_Cons_conv [of "\<lambda>c. c = 47" local c l'] by auto
  then have "0 < n" using n assms(2) cl by (auto simp: sint_slash mapR_eq_Inr_iff split: if_splits)
  moreover have "strchrnul xs b = Inr k \<Longrightarrow> k < length xs" for xs :: bytes and b k
    by (induction xs arbitrary: k) (auto simp: mapR_eq_Inr_iff split: if_splits)
  ultimately show ?thesis using n l length_dropWhile_le by auto
qed

function path_count_segments :: "bytes \<Rightarrow> nat res" where
  "path_count_segments local =
     bindR (next_segment local) (\<lambda>(l, n).
       if n = 0 \<and> l ! 0 = 0 then Inr 0 else mapR Suc (path_count_segments (drop n l)))"
  by pat_completeness auto
termination
proof (relation "measure length", goal_cases)
  case (2 local x l n)
  then show ?case using next_segment_pos [of local l n] by auto
qed simp

declare path_count_segments.simps [simp del]

section \<open>Absolute paths\<close>

definition copy_segment :: "bytes \<Rightarrow> nat \<Rightarrow> bytes \<Rightarrow> bytes res" where
  "copy_segment segment len local =
     mapR snd (snprintf segment (if len > 256 then 256 else len) (cstr ''%s'') [AStr local])"

text \<open>\<open>while (*ptr != '/' && ptr != _path) --ptr;\<close>\<close>

fun back_loop :: "bytes \<Rightarrow> nat \<Rightarrow> nat res" where
  "back_loop buf 0 = mapR (\<lambda>_. 0) (nthR buf 0)"
| "back_loop buf (Suc p) = bindR (nthR buf (Suc p)) (\<lambda>c. if c = 47 then Inr (Suc p) else back_loop buf p)"

text \<open>The body of the walk for one segment: the result buffer and the position in it.\<close>

definition abs_segment :: "bytes \<Rightarrow> bytes \<Rightarrow> nat \<Rightarrow> (bytes \<times> nat) res" where
  "abs_segment segment buf ptr =
     bindR (strcmp segment (cstr ''..'')) (\<lambda>up.
       if up = 0 then mapR (Pair buf) (back_loop buf ptr)
       else bindR (strcmp segment (cstr ''.'')) (\<lambda>same.
         if same = 0 then Inr (buf, ptr)
         else bindR (updR buf ptr 47) (\<lambda>buf1.
              bindR (strcpy (drop (ptr + 1) buf1) segment) (\<lambda>tail.
                mapR (\<lambda>n. (take (ptr + 1) buf1 @ tail, ptr + 1 + n)) (strlen segment)))))"

function abs_loop :: "bytes \<Rightarrow> bytes \<Rightarrow> bytes \<Rightarrow> nat \<Rightarrow> (bytes \<times> nat) res" where
  "abs_loop local segment buf ptr =
     bindR (next_segment local) (\<lambda>(l, n).
       if n = 0 \<and> l ! 0 = 0 then Inr (buf, ptr)
       else bindR (copy_segment segment (n + 1) l) (\<lambda>segment'.
            bindR (abs_segment segment' buf ptr) (\<lambda>(buf', ptr').
              abs_loop (drop n l) segment' buf' ptr')))"
  by pat_completeness auto
termination
proof (relation "measure (\<lambda>(local, segment, buf, ptr). length local)", goal_cases)
  case (2 local segment buf ptr x l n)
  then show ?case using next_segment_pos [of local l n] by auto
qed simp

declare abs_loop.simps [simp del]

text \<open>\<open>fs_to_absolute_path\<close> with what the segment buffer on the stack held before.\<close>

definition join_path :: "bytes \<Rightarrow> bytes option \<Rightarrow> bytes res" where
  "join_path local base =
     bindR (nthR local 0) (\<lambda>c.
       bindR (strlen local) (\<lambda>n.
         case base of
           None \<Rightarrow> strcpy (kblock n) local
         | Some b \<Rightarrow>
             if c = 47 then strcpy (kblock n) local
             else bindR (strlen b) (\<lambda>k. mapR snd (snprintf (kblock (n + k + 1)) (n + k + 1) (cstr ''%s%s'') [AStr b, AStr local]))))"

definition fs_to_absolute_path :: "bytes \<Rightarrow> bytes \<Rightarrow> bytes option \<Rightarrow> bytes res" where
  "fs_to_absolute_path stack local base =
     bindR (join_path local base) (\<lambda>path.
     bindR (strlen path) (\<lambda>n.
     bindR (path_count_segments path) (\<lambda>left.
     bindR (abs_loop (drop 1 path) stack (kblock (n + 1)) 0) (\<lambda>(buf, ptr).
       if n = 0 then Inl OutOfBounds
       else if path ! (n - 1) = 47
            then bindR (updR buf ptr 47) (\<lambda>buf1. updR buf1 (ptr + 1) 0)
            else Inr buf))))"

section \<open>Segments\<close>

text \<open>The segments of a path: what is between slashes, without empty pieces.\<close>

function segs_of :: "bytes \<Rightarrow> bytes list" where
  "segs_of p =
     (let l = dropWhile (\<lambda>c. c = 47) p
      in if l = [] then [] else takeWhile (\<lambda>c. c \<noteq> 47) l # segs_of (dropWhile (\<lambda>c. c \<noteq> 47) l))"
  by pat_completeness auto
termination
proof (relation "measure length", goal_cases)
  case (2 p l)
  then have ne: "l \<noteq> []" and l: "dropWhile (\<lambda>c. c = 47) p = l" by simp_all
  obtain c l' where cl: "l = c # l'" using ne by (cases l) auto
  have "c \<noteq> 47" using l dropWhile_eq_Cons_conv [of "\<lambda>c. c = 47" p c l'] cl by simp
  then have "length (dropWhile (\<lambda>c. c \<noteq> 47) l) \<le> length l'" by (simp add: cl length_dropWhile_le)
  also have "\<dots> < length l" by (simp add: cl)
  also have "\<dots> \<le> length p" unfolding l [symmetric] by (rule length_dropWhile_le)
  finally show ?case by simp
qed simp

declare segs_of.simps [simp del]

lemma segs_of_unfold:
  "segs_of p = (let l = dropWhile (\<lambda>c. c = 47) p
     in if l = [] then [] else takeWhile (\<lambda>c. c \<noteq> 47) l # segs_of (dropWhile (\<lambda>c. c \<noteq> 47) l))"
  by (subst segs_of.simps) simp

lemma strchrnul_slash:
  "cstring l \<Longrightarrow> strchrnul (l @ 0 # rest) 47 = Inr (length (takeWhile (\<lambda>c. c \<noteq> 47) l))"
  using strchrnul_terminated [of l rest 47] by simp

lemma cstring_dropWhile: "cstring p \<Longrightarrow> cstring (dropWhile P p)"
  by (auto simp: cstring_def dest: set_dropWhileD)

lemma next_segment_cstr:
  assumes "cstring p"
  defines "l \<equiv> dropWhile (\<lambda>c. c = 47) p"
  shows "next_segment (p @ 0 # rest) = Inr (l @ 0 # rest, length (takeWhile (\<lambda>c. c \<noteq> 47) l))"
proof -
  have "dropWhile (\<lambda>c. c = 47) (p @ 0 # rest) = l @ 0 # rest"
    unfolding l_def by (induction p) auto
  then show ?thesis
    using strchrnul_slash [of l rest] cstring_dropWhile [OF assms(1)] by (simp add: next_segment_def l_def)
qed

lemma after_slashes:
  assumes "l = dropWhile (\<lambda>c. c = (47::u8)) p" and "l \<noteq> []"
  obtains c l' where "l = c # l'" and "c \<noteq> 47"
  using assms dropWhile_eq_Cons_conv [of "\<lambda>c. c = 47" p] by (cases l) metis+

lemma length_takeWhile_slash:
  assumes "l = dropWhile (\<lambda>c. c = (47::u8)) p"
  shows "takeWhile (\<lambda>c. c \<noteq> 47) l = [] \<longleftrightarrow> l = []"
proof (cases "l = []")
  case False
  then show ?thesis by (rule after_slashes [OF assms]) simp
qed simp

lemma drop_takeWhile: "drop (length (takeWhile P l)) (l @ r) = dropWhile P l @ r"
  by (induction l) auto

lemma path_count_segments_length:
  "cstring p \<Longrightarrow> path_count_segments (p @ 0 # rest) = Inr (length (segs_of p))"
proof (induction p rule: segs_of.induct)
  case (1 p)
  define l where "l = dropWhile (\<lambda>c. c = 47) p"
  have cl: "cstring l" unfolding l_def by (rule cstring_dropWhile [OF 1(2)])
  note ns = next_segment_cstr [OF 1(2), of rest, folded l_def]
  show ?case
  proof (cases "l = []")
    case True
    then show ?thesis
      using ns by (subst path_count_segments.simps, subst segs_of.simps) (simp add: l_def [symmetric] Let_def del: dropWhile_eq_Nil_conv)
  next
    case False
    have "path_count_segments (dropWhile (\<lambda>c. c \<noteq> 47) l @ 0 # rest) = Inr (length (segs_of (dropWhile (\<lambda>c. c \<noteq> 47) l)))"
      by (rule 1(1) [OF l_def False cstring_dropWhile [OF cl]])
    then show ?thesis
      using ns False length_takeWhile_slash [OF l_def]
      by (subst path_count_segments.simps, subst segs_of.simps) (simp add: l_def [symmetric] drop_takeWhile del: drop_append)
  qed
qed

section \<open>Copying a segment\<close>

lemma copy_segment_eq:
  assumes "cstring l" and "n \<le> 255" and "n \<le> length l" and "length segment = 256"
  shows "copy_segment segment (n + 1) (l @ 0 # rest) = Inr (take n l @ 0 # drop (n + 1) segment)"
proof -
  have "snprintf segment (n + 1) (cstr ''%s'') [AStr (l @ 0 # rest)] =
      Inr (min n (length l), blit segment 0 (take n l @ [0]))"
    using snprintf_cut [OF render_one [OF assms(1)], of "n + 1" segment] assms(2-4) by simp
  then show ?thesis using assms(2-4) by (simp add: copy_segment_def blit_def min_def)
qed

section \<open>What the loop computes\<close>

definition name :: "bytes \<Rightarrow> bool" where
  "name s \<longleftrightarrow> s \<noteq> [] \<and> 47 \<notin> set s \<and> 0 \<notin> set s"

definition rendered :: "bytes list \<Rightarrow> bytes" where
  "rendered st = concat (map (Cons 47) st)"

lemma rendered_simps [simp]:
  "rendered [] = []" "rendered (s # st) = 47 # s @ rendered st" "rendered (st @ st') = rendered st @ rendered st'"
  by (simp_all add: rendered_def)

text \<open>
  The segments kept, and the one the last \<open>..\<close> stepped over: the position goes back, but the text
  is not cut off, and a second \<open>..\<close> finds the position already at a slash.
\<close>

fun abs_step :: "bytes list \<times> bytes option \<Rightarrow> bytes \<Rightarrow> bytes list \<times> bytes option" where
  "abs_step (st, pop) s =
     (if s = bytes_of ''..'' then (if pop = None \<and> st \<noteq> [] then (butlast st, Some (last st)) else (st, pop))
      else if s = bytes_of ''.'' then (st, pop) else (st @ [s], None))"

fun abs_inv :: "bytes list \<times> bytes option \<Rightarrow> bytes \<Rightarrow> nat \<Rightarrow> bool" where
  "abs_inv (st, pop) buf ptr \<longleftrightarrow> ptr = length (rendered st) \<and> (\<forall>s \<in> set st. name s) \<and>
     (case pop of None \<Rightarrow> (\<exists>r. buf = rendered st @ 0 # r)
      | Some s \<Rightarrow> name s \<and> (\<exists>r. buf = rendered st @ 47 # s @ 0 # r))"

lemma back_loop_slash: "ptr < length buf \<Longrightarrow> buf ! ptr = 47 \<Longrightarrow> back_loop buf ptr = Inr ptr"
  by (cases ptr) auto

lemma back_loop_name:
  assumes "buf = x @ 47 # s @ r" and "47 \<notin> set (take 1 r)" and "r \<noteq> []" and "47 \<notin> set s" and "k \<le> length s"
  shows "back_loop buf (length x + 1 + k) = Inr (length x)"
  using assms(5)
proof (induction k)
  case 0
  have "buf ! Suc (length x) \<noteq> 47"
    using assms(1-4) by (cases s; cases r) (auto simp: nth_append)
  moreover have "Suc (length x) < length buf" using assms(1,3) by (cases r) auto
  moreover have "back_loop buf (length x) = Inr (length x)"
    using assms(1) by (intro back_loop_slash) auto
  ultimately show ?case by simp
next
  case (Suc k)
  have n: "buf ! (length x + 1 + Suc k) = (s @ r) ! Suc k" using assms(1) by (simp add: nth_append)
  have "(s @ r) ! Suc k \<noteq> 47"
  proof (cases "Suc k < length s")
    case True
    then show ?thesis using assms(4) by (metis nth_append nth_mem)
  next
    case False
    then have "Suc k = length s" using Suc.prems by simp
    then show ?thesis using assms(2,3) by (cases r) (auto simp: nth_append)
  qed
  moreover have "length x + 1 + Suc k < length buf" using assms(1,3) Suc.prems by (cases r) auto
  ultimately show ?case using n Suc by simp
qed

lemma strcmp_name:
  assumes "cstring s" and "cstring (bytes_of t)"
  shows "\<exists>k. strcmp (s @ 0 # r) (cstr t) = Inr k \<and> (k = 0 \<longleftrightarrow> s = bytes_of t)"
  using strcmp_ex [OF assms, of r "[]"] strcmp_terminated [OF assms, of r "[]"]
  by (auto simp: cstr_def)

lemma abs_segment_inv:
  assumes inv: "abs_inv (st, pop) buf ptr" and s: "name s" and cap: "length (rendered st) + 1 + length s < length buf"
  shows "\<exists>buf' ptr'. abs_segment (s @ 0 # junk) buf ptr = Inr (buf', ptr') \<and>
    abs_inv (abs_step (st, pop) s) buf' ptr' \<and> length buf' = length buf"
proof -
  have cs: "cstring s" using s by (simp add: name_def cstring_def)
  have dots: "cstring (bytes_of ''..'')" "cstring (bytes_of ''.'')" by (simp_all add: cstring_def bytes_of_def)
  obtain k1 where k1: "strcmp (s @ 0 # junk) (cstr ''..'') = Inr k1" "k1 = 0 \<longleftrightarrow> s = bytes_of ''..''"
    using strcmp_name [OF cs dots(1)] by blast
  obtain k2 where k2: "strcmp (s @ 0 # junk) (cstr ''.'') = Inr k2" "k2 = 0 \<longleftrightarrow> s = bytes_of ''.''"
    using strcmp_name [OF cs dots(2)] by blast
  have ptr: "ptr = length (rendered st)" "\<forall>s \<in> set st. name s" using inv by auto
  show ?thesis
  proof (cases "s = bytes_of ''..''")
    case up: True
    then have ab: "abs_segment (s @ 0 # junk) buf ptr = mapR (Pair buf) (back_loop buf ptr)"
      using k1 by (simp add: abs_segment_def)
    show ?thesis
    proof (cases "pop = None \<and> st \<noteq> []")
      case True
      then obtain st' q where st: "st = st' @ [q]" by (metis rev_exhaust)
      obtain r where buf: "buf = rendered st' @ 47 # q @ 0 # r" using inv True st by auto
      have q: "name q" using ptr st by simp
      have "back_loop buf (length (rendered st') + 1 + length q) = Inr (length (rendered st'))"
        using q by (intro back_loop_name [OF buf]) (auto simp: name_def)
      then have "back_loop buf ptr = Inr (length (rendered st'))" using ptr st by simp
      then show ?thesis using ab up True st buf ptr q by auto
    next
      case False
      have "back_loop buf ptr = Inr ptr"
      proof (cases pop)
        case None
        then have "st = []" using False by simp
        then show ?thesis using ptr inv None by auto
      next
        case (Some q)
        then obtain r where "buf = rendered st @ 47 # q @ 0 # r" using inv by auto
        then show ?thesis using ptr by (intro back_loop_slash) auto
      qed
      then show ?thesis using ab up False inv by auto
    qed
  next
    case nup: False
    show ?thesis
    proof (cases "s = bytes_of ''.''")
      case True
      then have "abs_segment (s @ 0 # junk) buf ptr = Inr (buf, ptr)" using nup k1 k2 by (simp add: abs_segment_def)
      then show ?thesis using True nup inv by auto
    next
      case False
      obtain rest where buf: "buf = rendered st @ rest" using inv by (auto split: option.splits)
      have len: "1 + length s < length rest" using cap buf by simp
      then obtain c rest' where rest: "rest = c # rest'" "length s < length rest'" by (cases rest) auto
      have "updR buf ptr 47 = Inr (rendered st @ 47 # rest')" using ptr buf rest by simp
      moreover have "strcpy rest' (s @ 0 # junk) = Inr (s @ 0 # drop (Suc (length s)) rest')"
        using cs rest by simp
      ultimately have "abs_segment (s @ 0 # junk) buf ptr =
          Inr (rendered st @ 47 # s @ 0 # drop (Suc (length s)) rest', ptr + 1 + length s)"
        using nup False k1 k2 ptr cs by (simp add: abs_segment_def)
      then show ?thesis using nup False ptr s buf rest by auto
    qed
  qed
qed

lemma length_abs_step: "length (rendered (fst (abs_step (st, pop) s))) \<le> length (rendered st) + 1 + length s"
proof (cases "st = []")
  case False
  then have "rendered st = rendered (butlast st) @ 47 # last st"
    by (metis append_butlast_last_id rendered_simps append_Nil2)
  then show ?thesis by simp
qed auto

lemma length_abs_steps: "length (rendered (fst (foldl abs_step sp ss))) \<le> length (rendered (fst sp)) + length (rendered ss)"
proof (induction ss arbitrary: sp)
  case (Cons s ss)
  obtain st pop where sp: "sp = (st, pop)" by fastforce
  have "length (rendered (fst (foldl abs_step sp (s # ss)))) \<le> length (rendered (fst (abs_step sp s))) + length (rendered ss)"
    using Cons.IH [of "abs_step sp s"] by simp
  also have "\<dots> \<le> length (rendered st) + 1 + length s + length (rendered ss)"
    using length_abs_step [of st pop s] sp by (simp del: abs_step.simps)
  finally show ?case using sp by simp
qed simp

lemma segs_of_names: "cstring p \<Longrightarrow> \<forall>s \<in> set (segs_of p). name s"
proof (induction p rule: segs_of.induct)
  case (1 p)
  define l where "l = dropWhile (\<lambda>c. c = 47) p"
  have cl: "cstring l" unfolding l_def by (rule cstring_dropWhile [OF 1(2)])
  show ?case
  proof (cases "l = []")
    case True
    then show ?thesis by (subst segs_of.simps) (simp add: l_def [symmetric] del: dropWhile_eq_Nil_conv)
  next
    case False
    have "name (takeWhile (\<lambda>c. c \<noteq> 47) l)"
      using length_takeWhile_slash [OF l_def] False cl
      by (auto simp: name_def cstring_def dest: set_takeWhileD)
    then show ?thesis
      using 1(1) [OF l_def False cstring_dropWhile [OF cl]] False
      by (subst segs_of.simps) (simp add: l_def [symmetric])
  qed
qed

lemma length_segs_of:
  "length (rendered (segs_of p)) + (if p \<noteq> [] \<and> last p = 47 then 1 else 0) \<le> length p + (if p = [] \<or> hd p = 47 then 0 else 1)"
proof (induction p rule: segs_of.induct)
  case (1 p)
  define l where "l = dropWhile (\<lambda>c. c = 47) p"
  define sl where "sl = takeWhile (\<lambda>c. c = 47) p"
  have p: "p = sl @ l" by (simp add: l_def sl_def)
  have sl: "sl = [] \<Longrightarrow> p = [] \<or> hd p \<noteq> 47" unfolding sl_def by (cases p) auto
  show ?case
  proof (cases "l = []")
    case True
    then have "segs_of p = []" by (subst segs_of.simps) (simp add: l_def [symmetric] del: dropWhile_eq_Nil_conv)
    then show ?thesis by (cases p) auto
  next
    case False
    define seg where "seg = takeWhile (\<lambda>c. c \<noteq> 47) l"
    define rest where "rest = dropWhile (\<lambda>c. c \<noteq> 47) l"
    have l: "l = seg @ rest" by (simp add: seg_def rest_def)
    have segs: "segs_of p = seg # segs_of rest"
      using False by (subst segs_of.simps) (simp add: l_def [symmetric] seg_def rest_def)
    have h: "rest = [] \<or> hd rest = 47" unfolding rest_def using hd_dropWhile [of "\<lambda>c. c \<noteq> 47" l] by (cases "\<exists>x \<in> set l. x = 47") auto
    have ih: "length (rendered (segs_of rest)) + (if rest \<noteq> [] \<and> last rest = 47 then 1 else 0) \<le> length rest"
      using 1 [OF l_def False] h unfolding rest_def [symmetric] by auto
    have last: "last p = 47 \<longleftrightarrow> rest \<noteq> [] \<and> last rest = 47"
    proof (cases "rest = []")
      case True
      then have "last p = last seg" "seg \<noteq> []" using p l False by auto
      moreover have "last seg \<noteq> 47" using set_takeWhileD [of "last seg" "\<lambda>c. c \<noteq> 47" l] \<open>seg \<noteq> []\<close> unfolding seg_def by auto
      ultimately show ?thesis using True by simp
    qed (simp add: p l)
    define b e :: nat where "b = (if p = [] \<or> hd p = 47 then 0 else 1)" and "e = (if rest \<noteq> [] \<and> last rest = 47 then 1 else 0)"
    have ne: "p \<noteq> []" using p False by simp
    have e: "(if p \<noteq> [] \<and> last p = 47 then 1 else 0) = e" using ne last by (simp add: e_def)
    have "1 \<le> length sl + b" using sl ne by (cases sl) (auto simp: b_def)
    moreover have "length (rendered (segs_of p)) = 1 + length seg + length (rendered (segs_of rest))" by (simp add: segs)
    moreover have "length p = length sl + length seg + length rest" by (simp add: p l)
    ultimately show ?thesis using ih unfolding e b_def [symmetric] e_def [symmetric] by linarith
  qed
qed

lemma abs_loop_inv:
  assumes "cstring p" and "abs_inv sp buf ptr" and "length segment = 256"
    and "\<forall>s \<in> set (segs_of p). length s \<le> 255"
    and "length (rendered (fst sp)) + length (rendered (segs_of p)) < length buf"
  shows "\<exists>buf' ptr'. abs_loop (p @ 0 # rest) segment buf ptr = Inr (buf', ptr') \<and>
    abs_inv (foldl abs_step sp (segs_of p)) buf' ptr' \<and> length buf' = length buf"
  using assms
proof (induction p arbitrary: sp buf ptr segment rule: segs_of.induct)
  case (1 p)
  define l where "l = dropWhile (\<lambda>c. c = 47) p"
  have cl: "cstring l" unfolding l_def by (rule cstring_dropWhile [OF 1(2)])
  note ns = next_segment_cstr [OF 1(2), of rest, folded l_def]
  show ?case
  proof (cases "l = []")
    case True
    then have "segs_of p = []" by (subst segs_of.simps) (simp add: l_def [symmetric] del: dropWhile_eq_Nil_conv)
    then show ?thesis using 1(3) ns True by (subst abs_loop.simps) simp
  next
    case False
    define seg where "seg = takeWhile (\<lambda>c. c \<noteq> 47) l"
    define q where "q = dropWhile (\<lambda>c. c \<noteq> 47) l"
    define seg' where "seg' = seg @ 0 # drop (length seg + 1) segment"
    have segs: "segs_of p = seg # segs_of q"
      using False by (subst segs_of.simps) (simp add: l_def [symmetric] seg_def q_def)
    have nm: "name seg" using segs_of_names [OF 1(2)] segs by simp
    have len: "length seg \<le> 255" using 1(5) segs by simp
    have tk: "take (length seg) l = seg" unfolding seg_def by (metis takeWhile_eq_take)
    have cp: "copy_segment segment (length seg + 1) (l @ 0 # rest) = Inr seg'"
      using copy_segment_eq [OF cl len _ 1(4), of rest] tk length_takeWhile_le [of "\<lambda>c. c \<noteq> 47" l]
      by (simp add: seg'_def seg_def)
    obtain st pop where sp: "sp = (st, pop)" by fastforce
    have cap: "length (rendered st) + 1 + length seg < length buf" using 1(6) sp segs by simp
    obtain buf1 ptr1 where s1: "abs_segment seg' buf ptr = Inr (buf1, ptr1)"
        "abs_inv (abs_step sp seg) buf1 ptr1" "length buf1 = length buf"
      using abs_segment_inv [OF 1(3) [unfolded sp] nm cap] sp unfolding seg'_def by blast
    have "length (rendered (fst (abs_step sp seg))) + length (rendered (segs_of q)) < length buf1"
      using length_abs_step [of st pop seg] 1(6) sp segs s1(3) by simp
    moreover have "length seg' = 256" using 1(4) len by (simp add: seg'_def)
    moreover have "\<forall>s \<in> set (segs_of q). length s \<le> 255" using 1(5) segs by simp
    ultimately obtain buf' ptr' where s2: "abs_loop (q @ 0 # rest) seg' buf1 ptr1 = Inr (buf', ptr')"
        "abs_inv (foldl abs_step (abs_step sp seg) (segs_of q)) buf' ptr'" "length buf' = length buf1"
      using 1(1) [OF l_def False, folded q_def] cstring_dropWhile [OF cl] s1(2) unfolding q_def by blast
    have "drop (length seg) (l @ 0 # rest) = q @ 0 # rest"
      unfolding seg_def q_def by (rule drop_takeWhile)
    then have "abs_loop (p @ 0 # rest) segment buf ptr = abs_loop (q @ 0 # rest) seg' buf1 ptr1"
      using ns cp s1(1) nm by (subst abs_loop.simps) (simp add: seg_def [symmetric] name_def)
    then show ?thesis using s2 s1(3) segs by simp
  qed
qed

section \<open>The whole function\<close>

definition joined :: "bytes \<Rightarrow> bytes option \<Rightarrow> bytes" where
  "joined local base = (case base of None \<Rightarrow> local | Some b \<Rightarrow> if local \<noteq> [] \<and> hd local = 47 then local else b @ local)"

text \<open>
  An absolute path, or one without a base, is copied into a block of \<open>strlen(local)\<close> bytes, which
  has room for the terminator only by the rounding of \<open>kmalloc\<close> to pieces of 16 bytes.
\<close>

definition fits :: "bytes \<Rightarrow> bytes option \<Rightarrow> bool" where
  "fits local base \<longleftrightarrow> (base = None \<or> local \<noteq> [] \<and> hd local = 47) \<longrightarrow> length local mod 16 \<noteq> 0"

lemma kblock_room:
  assumes "n mod 16 \<noteq> 0"
  shows "n < length (kblock n)"
proof -
  have "n \<le> length (kblock n)" "length (kblock n) mod 16 = 0" using length_kblock [of n] by (simp_all add: kblock_def)
  with assms show ?thesis by (metis le_neq_implies_less)
qed

lemma strcpy_short: "cstring s \<Longrightarrow> length d \<le> length s \<Longrightarrow> strcpy d (s @ rest) = Inl OutOfBounds"
proof (induction s arbitrary: d)
  case (Cons c s)
  then show ?case by (cases d) (auto simp: cstring_def)
qed simp

lemma join_path_overrun:
  assumes "cstring local" and "\<not> fits local base"
  shows "join_path (local @ 0 # x) (map_option (\<lambda>b. b @ 0 # y) base) = Inl OutOfBounds"
proof -
  have m: "length local mod 16 = 0" and b: "base = None \<or> local \<noteq> [] \<and> hd local = 47"
    using assms(2) by (auto simp: fits_def)
  obtain k where "length local = 16 * k" using m by (metis mod_0_imp_dvd dvdE)
  then have "length (kblock (length local)) \<le> length local" by (simp add: kblock_def)
  then have "strcpy (kblock (length local)) (local @ 0 # x) = Inl OutOfBounds" by (rule strcpy_short [OF assms(1)])
  moreover have "nthR (local @ 0 # x) 0 = Inr (if local = [] then 0 else hd local)" by (cases local) auto
  moreover have "strlen (local @ 0 # x) = Inr (length local)" using assms(1) by simp
  ultimately show ?thesis using b by (auto simp: join_path_def split: option.splits)
qed

lemma join_path_joined:
  assumes "cstring local" and "\<forall>b. base = Some b \<longrightarrow> cstring b" and "fits local base"
  shows "\<exists>r. join_path (local @ 0 # x) (map_option (\<lambda>b. b @ 0 # y) base) = Inr (joined local base @ 0 # r)"
proof -
  have c: "nthR (local @ 0 # x) 0 = Inr (if local = [] then 0 else hd local)"
    by (cases local) auto
  have copy: "\<exists>r. strcpy (kblock (length local)) (local @ 0 # x) = Inr (local @ 0 # r)" if "length local mod 16 \<noteq> 0"
    using strcpy_terminated [OF assms(1)] kblock_room [OF that] by blast
  show ?thesis
  proof (cases base)
    case None
    then show ?thesis using copy c assms(1,3) by (auto simp: join_path_def joined_def fits_def)
  next
    case (Some b)
    have cb: "cstring b" using assms(2) Some by simp
    show ?thesis
    proof (cases "local \<noteq> [] \<and> hd local = 47")
      case True
      then show ?thesis using copy c assms(1,3) Some by (auto simp: join_path_def joined_def fits_def)
    next
      case False
      let ?n = "length local + length b + 1"
      have "snprintf (kblock ?n) ?n (cstr ''%s%s'') [AStr (b @ 0 # y), AStr (local @ 0 # x)] =
          Inr (?n - 1, blit (kblock ?n) 0 ((b @ local) @ [0]))"
        using snprintf_cut [OF render_two [OF cb assms(1)], of ?n "kblock ?n"] length_kblock [of ?n] by simp
      then show ?thesis
        using c False Some cb assms(1) by (auto simp: join_path_def joined_def blit_def)
    qed
  qed
qed

text \<open>The text that is left in the result buffer.\<close>

definition abs_text :: "bytes \<Rightarrow> bytes" where
  "abs_text p = (case foldl abs_step ([], None) (segs_of (tl p)) of (st, pop) \<Rightarrow>
     rendered st @ (if last p = 47 then [47] else case pop of None \<Rightarrow> [] | Some s \<Rightarrow> 47 # s))"

lemma abs_path_exact:
  assumes "cstring local" and "\<forall>b. base = Some b \<longrightarrow> cstring b" and "fits local base"
    and p: "p = joined local base" "p \<noteq> []" and seg: "\<forall>s \<in> set (segs_of (tl p)). length s \<le> 255"
    and stack: "length stack = 256"
  shows "\<exists>r. fs_to_absolute_path stack (local @ 0 # x) (map_option (\<lambda>b. b @ 0 # y) base) = Inr (abs_text p @ 0 # r)"
proof -
  have cp: "cstring p" using assms(1,2) p(1) by (auto simp: joined_def cstring_def split: option.splits if_splits)
  obtain r where j: "join_path (local @ 0 # x) (map_option (\<lambda>b. b @ 0 # y) base) = Inr (p @ 0 # r)"
    using join_path_joined [OF assms(1-3)] p(1) by blast
  define n where "n = length p"
  define buf where "buf = kblock (n + 1)"
  define segs where "segs = segs_of (tl p)"
  have nb: "n < length buf" using length_kblock [of "n + 1"] by (simp add: buf_def)
  have b0: "buf = 0 # tl buf" using nb unfolding buf_def kblock_def by (cases "16 * ((n + 1 + 15) div 16)") auto
  have ct: "cstring (tl p)" using cp by (cases p) (auto simp: cstring_def)
  have ls: "length (rendered segs) + (if last p = 47 then 1 else 0) \<le> n"
    using length_segs_of [of "tl p"] p(2) unfolding segs_def n_def
    by (cases p) (auto split: if_splits simp: segs_of.simps [of "[]"])
  have "abs_inv ([], None) buf 0" using b0 by auto
  moreover have "length (rendered (fst ([], None :: bytes option))) + length (rendered segs) < length buf"
    using ls nb by simp
  ultimately obtain buf' ptr where l: "abs_loop (tl p @ 0 # r) stack buf 0 = Inr (buf', ptr)"
      "abs_inv (foldl abs_step ([], None) segs) buf' ptr" "length buf' = length buf"
    using abs_loop_inv [OF ct _ stack seg] unfolding segs_def by blast
  obtain st pop where f: "foldl abs_step ([], None) segs = (st, pop)" by fastforce
  have st: "length (rendered st) \<le> length (rendered segs)" using length_abs_steps [of "([], None)" segs] f by simp
  have ptr: "ptr = length (rendered st)" using l(2) f by simp
  have d: "drop 1 (p @ 0 # r) = tl p @ 0 # r" using p(2) by (cases p) auto
  have lastp: "(p @ 0 # r) ! (n - 1) = last p" using p(2) by (simp add: n_def nth_append last_conv_nth)
  have run: "fs_to_absolute_path stack (local @ 0 # x) (map_option (\<lambda>b. b @ 0 # y) base) =
      (if last p = 47 then bindR (updR buf' ptr 47) (\<lambda>buf1. updR buf1 (ptr + 1) 0) else Inr buf')"
    unfolding fs_to_absolute_path_def j bindR_simps strlen_terminated [OF cp] n_def [symmetric]
      path_count_segments_length [OF cp] d buf_def [symmetric] l(1)
    using p(2) lastp by (simp add: n_def)
  show ?thesis
  proof (cases "last p = 47")
    case True
    then have room: "ptr + 1 < length buf'" using ls st ptr nb l(3) by simp
    obtain t where t: "buf' = rendered st @ t" using l(2) f by (auto split: option.splits)
    have "2 \<le> length t" using room t ptr by simp
    then obtain c1 c2 t' where "t = c1 # c2 # t'" by (cases t rule: remdups_adj.cases) auto
    then have "bindR (updR buf' ptr 47) (\<lambda>buf1. updR buf1 (ptr + 1) 0) = Inr (rendered st @ 47 # 0 # t')"
      using t ptr by (simp add: list_update_append)
    then show ?thesis using run True f by (simp add: abs_text_def segs_def)
  next
    case False
    then show ?thesis using run l(2) f by (auto simp: abs_text_def segs_def split: option.splits)
  qed
qed

section \<open>Canonical paths\<close>

text \<open>What the names mean: \<open>..\<close> removes the last directory, as often as it occurs.\<close>

definition canon_step :: "bytes list \<Rightarrow> bytes \<Rightarrow> bytes list" where
  "canon_step st s = (if s = bytes_of ''..'' then butlast st else if s = bytes_of ''.'' then st else st @ [s])"

definition canon :: "bytes \<Rightarrow> bytes" where
  "canon p = rendered (foldl canon_step [] (segs_of p)) @ (if last p = 47 then [47] else [])"

text \<open>Paths in which no \<open>..\<close> follows another without a name in between.\<close>

fun single_ups :: "bool \<Rightarrow> bytes list \<Rightarrow> bool" where
  "single_ups after [] \<longleftrightarrow> True"
| "single_ups after (s # ss) \<longleftrightarrow>
     (if s = bytes_of ''..'' then \<not> after \<and> single_ups True ss
      else if s = bytes_of ''.'' then single_ups after ss else single_ups False ss)"

lemma canon_steps:
  assumes "single_ups after ss" and "pop \<noteq> None \<longrightarrow> after"
  shows "fst (foldl abs_step (st, pop) ss) = foldl canon_step st ss"
  using assms
proof (induction ss arbitrary: st pop after)
  case (Cons s ss)
  show ?case
  proof (cases "s = bytes_of ''..''")
    case True
    then have "abs_step (st, pop) s = (butlast st, if st = [] then None else Some (last st))"
      using Cons.prems by auto
    then show ?thesis using Cons.IH [of True] Cons.prems True by (simp add: canon_step_def del: abs_step.simps)
  next
    case False
    then show ?thesis using Cons.IH Cons.prems by (auto simp: canon_step_def split: if_splits)
  qed
qed simp

lemma pop_none:
  assumes "ss \<noteq> []" and "last ss \<noteq> bytes_of ''..''" and "last ss \<noteq> bytes_of ''.''"
  shows "snd (foldl abs_step sp ss) = None"
proof -
  obtain ts t where ss: "ss = ts @ [t]" using assms(1) by (metis rev_exhaust)
  obtain st pop where "foldl abs_step sp ts = (st, pop)" by fastforce
  then show ?thesis using assms ss by simp
qed

lemma segs_of_slash: "segs_of (47 # p) = segs_of p"
  by (subst (1 2) segs_of.simps) simp

lemma segs_of_tl: "p \<noteq> [] \<Longrightarrow> hd p = 47 \<Longrightarrow> segs_of (tl p) = segs_of p"
  using segs_of_slash by (cases p) auto

lemma segs_of_nil: "segs_of [] = []"
  by (subst segs_of.simps) simp

lemma segs_of_name:
  assumes "name a"
  shows "segs_of (a @ 47 # p) = a # segs_of p" and "segs_of a = [a]"
proof -
  obtain c a' where a: "a = c # a'" "c \<noteq> 47" using assms by (cases a) (auto simp: name_def)
  have tw: "takeWhile (\<lambda>c. c \<noteq> 47) (a @ 47 # p) = a" "dropWhile (\<lambda>c. c \<noteq> 47) (a @ 47 # p) = 47 # p"
    "takeWhile (\<lambda>c. c \<noteq> 47) a = a" "dropWhile (\<lambda>c. c \<noteq> 47) a = []"
    using assms by (auto simp: name_def takeWhile_eq_all_conv dropWhile_append takeWhile_append)
  have dw: "dropWhile (\<lambda>c. c = 47) (a @ 47 # p) = a @ 47 # p" "dropWhile (\<lambda>c. c = 47) a = a" using a by simp_all
  show "segs_of (a @ 47 # p) = a # segs_of p"
    unfolding segs_of.simps [of "a @ 47 # p"] Let_def dw tw segs_of_slash by simp
  show "segs_of a = [a]"
    unfolding segs_of.simps [of a] Let_def dw tw segs_of_nil using assms by (simp add: name_def)
qed

lemma name_dots: "name (bytes_of ''..'')"
  by (simp add: name_def bytes_of_def)

section \<open>Properties\<close>

text \<open>
  C24: \<open>fs_to_absolute_path\<close> canonises the joined path (the argument itself when it is absolute or
  there is no base, otherwise the base followed by it), for joined paths that start with a slash, whose
  segments have at most 255 bytes, whose \<open>..\<close> segments are separated by names and which do not end
  in a \<open>..\<close> or \<open>.\<close> segment: the result is the path without its \<open>.\<close> segments in which every
  \<open>..\<close> has removed the directory before it. The one exception is an argument that is copied as it
  is and has a multiple of 16 bytes: its terminator is written behind the block that was allocated for
  it.
\<close>

theorem absolute_path_canonical:
  assumes "cstring local" and "\<forall>b. base = Some b \<longrightarrow> cstring b"
    and "p = joined local base" and "p \<noteq> []" and "hd p = 47" and "\<forall>s \<in> set (segs_of p). length s \<le> 255"
    and "length stack = 256" and "single_ups False (segs_of p)"
    and "last p = 47 \<or> last (segs_of p) \<notin> {bytes_of ''..'', bytes_of ''.''}"
  shows "if (base = None \<or> local \<noteq> [] \<and> hd local = 47) \<and> length local mod 16 = 0
    then fs_to_absolute_path stack (local @ 0 # x) (map_option (\<lambda>b. b @ 0 # y) base) = Inl OutOfBounds
    else \<exists>r. fs_to_absolute_path stack (local @ 0 # x) (map_option (\<lambda>b. b @ 0 # y) base) = Inr (canon p @ 0 # r)"
proof (cases "fits local base")
  case False
  then show ?thesis
    using join_path_overrun [OF assms(1) False] by (auto simp: fs_to_absolute_path_def fits_def)
next
  case True
  note tl = segs_of_tl [OF assms(4,5)]
  have "fst (foldl abs_step ([], None) (segs_of p)) = foldl canon_step [] (segs_of p)"
    using canon_steps [OF assms(8)] by simp
  moreover have "last p = 47 \<or> snd (foldl abs_step ([], None) (segs_of p)) = None"
    using assms(9) pop_none [of "segs_of p"] by (cases "segs_of p = []") auto
  ultimately have "abs_text p = canon p"
    by (cases "foldl abs_step ([], None) (segs_of p)") (auto simp: abs_text_def canon_def tl)
  then show ?thesis
    using abs_path_exact [OF assms(1,2) True assms(3,4) _ assms(7)] assms(6) True by (auto simp: tl fits_def)
qed

theorem absolute_path_canonical_witness:
  "\<exists>r. fs_to_absolute_path (replicate 256 7) (bytes_of ''b/../c'' @ 0 # []) (Some (bytes_of ''/a/'' @ 0 # [])) =
     Inr (bytes_of ''/a/c'' @ 0 # r)"
proof -
  let ?l = "bytes_of ''b/../c''" and ?b = "bytes_of ''/a/''"
  have j: "joined ?l (Some ?b) = bytes_of ''/a/b/../c''" by code_simp
  have c: "cstring ?l" "cstring ?b" "?l = 98 # tl ?l" by (simp_all add: cstring_def bytes_of_def)
  have sg: "segs_of (bytes_of ''/a/b/../c'') = [bytes_of ''a'', bytes_of ''b'', bytes_of ''..'', bytes_of ''c'']"
    by code_simp
  have k: "canon (bytes_of ''/a/b/../c'') = bytes_of ''/a/c''" by code_simp
  have "single_ups False [bytes_of ''a'', bytes_of ''b'', bytes_of ''..'', bytes_of ''c'']" by (simp add: bytes_of_def)
  moreover have "bytes_of ''c'' \<noteq> bytes_of ''..''" "bytes_of ''c'' \<noteq> bytes_of ''.''" "bytes_of ''/a/b/../c'' \<noteq> []"
    "hd (bytes_of ''/a/b/../c'') = 47" "hd ?l \<noteq> 47"
    by (simp_all add: bytes_of_def)
  ultimately have "\<exists>r. fs_to_absolute_path (replicate 256 7) (?l @ 0 # []) (map_option (\<lambda>b. b @ 0 # []) (Some ?b)) =
      Inr (canon (bytes_of ''/a/b/../c'') @ 0 # r)"
    using absolute_path_canonical [of ?l "Some ?b" "bytes_of ''/a/b/../c''" "replicate 256 7" "[]" "[]"] c(1,2)
    by (simp add: j sg)
  then show ?thesis unfolding k by simp
qed

text \<open>
  \<open>..\<close> at the end of a path is not applied, and of two that follow each other only one is: for any
  names \<open>a\<close>, \<open>b\<close>, \<open>c\<close> and \<open>d\<close> the path \<open>/a/b/..\<close> gives \<open>/a/b\<close> instead of \<open>/a\<close>, and
  \<open>/a/b/c/../../d\<close> gives \<open>/a/b/d\<close> instead of \<open>/a/d\<close>.
\<close>

theorem absolute_path_ups_lost:
  assumes "\<forall>s \<in> {a, b, c, d}. name s \<and> s \<noteq> bytes_of ''..'' \<and> s \<noteq> bytes_of ''.'' \<and> length s \<le> 255"
    and "length stack = 256"
    and "p = 47 # a @ 47 # b @ 47 # bytes_of ''..''"
    and "q = 47 # a @ 47 # b @ 47 # c @ 47 # bytes_of ''..'' @ 47 # bytes_of ''..'' @ 47 # d"
    and "length p mod 16 \<noteq> 0" and "length q mod 16 \<noteq> 0"
  shows "(\<exists>r. fs_to_absolute_path stack (p @ [0]) None = Inr ((47 # a @ 47 # b) @ 0 # r)) \<and>
    (\<exists>r. fs_to_absolute_path stack (q @ [0]) None = Inr ((47 # a @ 47 # b @ 47 # d) @ 0 # r)) \<and>
    canon p = 47 # a \<and> canon q = 47 # a @ 47 # d"
proof -
  have n: "name a" "name b" "name c" "name d" using assms(1) by auto
  let ?u = "bytes_of ''..''"
  have sp: "segs_of (tl p) = [a, b, ?u]" and sq: "segs_of (tl q) = [a, b, c, ?u, ?u, d]"
    by (simp_all only: assms(3,4) list.sel segs_of_name [OF n(1)] segs_of_name [OF n(2)] segs_of_name [OF n(3)]
        segs_of_name [OF n(4)] segs_of_name [OF name_dots])
  have spq: "segs_of p = [a, b, ?u]" "segs_of q = [a, b, c, ?u, ?u, d]"
    using segs_of_tl [of p] segs_of_tl [of q] sp sq unfolding assms(3,4) by simp_all
  have u: "length ?u \<le> 255" "?u \<noteq> bytes_of ''.''" "last ?u \<noteq> 47" by (simp_all add: bytes_of_def)
  have l: "last p \<noteq> 47" "last q \<noteq> 47"
  proof -
    have "last d \<in> set d" using n(4) by (simp add: name_def)
    then have "last d \<noteq> 47" using n(4) unfolding name_def by metis
    then show "last p \<noteq> 47" "last q \<noteq> 47" using n(4) by (simp_all add: assms(3,4) bytes_of_def name_def)
  qed
  have "cstring p" "cstring q"
    using n name_dots unfolding assms(3,4) by (auto simp: cstring_def name_def)
  moreover have "\<forall>s \<in> set (segs_of (tl p)). length s \<le> 255" "\<forall>s \<in> set (segs_of (tl q)). length s \<le> 255"
    using assms(1) u(1) unfolding sp sq by auto
  ultimately have "\<exists>r. fs_to_absolute_path stack (p @ [0]) None = Inr (abs_text p @ 0 # r)"
      "\<exists>r. fs_to_absolute_path stack (q @ [0]) None = Inr (abs_text q @ 0 # r)"
    using abs_path_exact [of p None p stack "[]"] abs_path_exact [of q None q stack "[]"] assms(2-6)
    by (auto simp: joined_def fits_def)
  moreover have "abs_text p = 47 # a @ 47 # b" "abs_text q = 47 # a @ 47 # b @ 47 # d" "canon p = 47 # a" "canon q = 47 # a @ 47 # d"
    using assms(1) u(2) l spq by (simp_all add: abs_text_def canon_def sp sq canon_step_def)
  ultimately show ?thesis by simp
qed

theorem absolute_path_ups_lost_witness:
  "\<exists>r. fs_to_absolute_path (replicate 256 7) (bytes_of ''/a/b/..'' @ [0]) None = Inr (bytes_of ''/a/b'' @ 0 # r)"
  using absolute_path_ups_lost [of "bytes_of ''a''" "bytes_of ''b''" "bytes_of ''c''" "bytes_of ''d''" "replicate 256 7"
      "bytes_of ''/a/b/..''" "bytes_of ''/a/b/c/../../d''"]
  by (simp add: bytes_of_def name_def)

end
