(* ===== verification/Fd.thy ===== *)
theory Fd
  imports RCPArray
begin

text \<open>
  \<^verbatim>\<open>fs/fd.c\<close>: the table of open file descriptors. A descriptor is an inner number and a
  record of operations; an operation is a function on the state of what is below, the world, and a
  null pointer where the source has none. A buffer argument of a read is the list of bytes the
  operation stores. The identifiers, C integers, are converted to \<open>size_t\<close> by the array macros.
\<close>

section \<open>Descriptors\<close>

record dentry =
  dtype :: u16
  dname :: bytes

record 'w file_ops =
  op_read :: "(int \<Rightarrow> nat \<Rightarrow> 'w \<Rightarrow> (int \<times> bytes \<times> 'w) res) option"
  op_write :: "(int \<Rightarrow> bytes \<Rightarrow> 'w \<Rightarrow> (int \<times> 'w) res) option"
  op_seek :: "(int \<Rightarrow> int \<Rightarrow> int \<Rightarrow> 'w \<Rightarrow> (int \<times> 'w) res) option"
  op_close :: "(int \<Rightarrow> 'w \<Rightarrow> (int \<times> 'w) res) option"
  op_ioctl :: "(int \<Rightarrow> int \<Rightarrow> bytes \<Rightarrow> 'w \<Rightarrow> (int \<times> bytes \<times> 'w) res) option"
  op_readdir :: "(int \<Rightarrow> 'w \<Rightarrow> (int \<times> dentry \<times> 'w) res) option"
  op_dup :: "(int \<Rightarrow> 'w \<Rightarrow> (int \<times> 'w) res) option"

record 'w file_descriptor =
  ifd :: int
  ops :: "'w file_ops"

record 'w fdsys =
  fds :: "'w file_descriptor rcparray"
  world :: 'w

text \<open>A call through a function pointer.\<close>

definition call :: "'f option \<Rightarrow> ('f \<Rightarrow> 'a res) \<Rightarrow> 'a res" where
  "call fp k = (case fp of None \<Rightarrow> Inl NullDeref | Some f \<Rightarrow> k f)"

lemma call_simps [simp]: "call None k = Inl NullDeref" "call (Some f) k = k f"
  by (simp_all add: call_def)

section \<open>Operations\<close>

definition fd_add :: "'w file_descriptor \<Rightarrow> 'w fdsys \<Rightarrow> int \<times> 'w fdsys" where
  "fd_add d s = (case rcparray_add (fds s) d of (i, a) \<Rightarrow> (int i, s\<lparr>fds := a\<rparr>))"

text \<open>
  The frame of the operations that use a descriptor: get it, run the operation, release it. The
  second argument is the result for an identifier that is not in use.
\<close>

definition use_fd ::
    "int \<Rightarrow> 'r \<Rightarrow> ('w file_descriptor \<Rightarrow> 'w \<Rightarrow> ('r \<times> 'w) res) \<Rightarrow> 'w fdsys \<Rightarrow> ('r \<times> 'w fdsys) res" where
  "use_fd fd bad f s =
     (case rcparray_get (fds s) (to_size_t fd) of
        (None, a) \<Rightarrow> Inr (bad, s\<lparr>fds := a\<rparr>)
      | (Some d, a) \<Rightarrow> mapR (\<lambda>(r, w). (r, s\<lparr>fds := rcparray_unref a (to_size_t fd), world := w\<rparr>)) (f d (world s)))"

definition fd_read :: "int \<Rightarrow> nat \<Rightarrow> 'w fdsys \<Rightarrow> ((int \<times> bytes) \<times> 'w fdsys) res" where
  "fd_read fd len = use_fd fd (- EBADF, [])
     (\<lambda>d w. call (op_read (ops d)) (\<lambda>rd. mapR (\<lambda>(r, b, w'). ((r, b), w')) (rd (ifd d) len w)))"

definition fd_write :: "int \<Rightarrow> bytes \<Rightarrow> 'w fdsys \<Rightarrow> (int \<times> 'w fdsys) res" where
  "fd_write fd buffer = use_fd fd (- EBADF) (\<lambda>d w. call (op_write (ops d)) (\<lambda>wr. wr (ifd d) buffer w))"

definition fd_seek :: "int \<Rightarrow> int \<Rightarrow> int \<Rightarrow> 'w fdsys \<Rightarrow> (int \<times> 'w fdsys) res" where
  "fd_seek fd offset mode = use_fd fd (- EBADF) (\<lambda>d w. call (op_seek (ops d)) (\<lambda>sk. sk (ifd d) offset mode w))"

definition fd_ioctl :: "int \<Rightarrow> int \<Rightarrow> bytes \<Rightarrow> 'w fdsys \<Rightarrow> ((int \<times> bytes) \<times> 'w fdsys) res" where
  "fd_ioctl fd code data = use_fd fd (- EBADF, data)
     (\<lambda>d w. call (op_ioctl (ops d)) (\<lambda>io. mapR (\<lambda>(r, b, w'). ((r, b), w')) (io (ifd d) code data w)))"

definition fd_readdir :: "int \<Rightarrow> dentry \<Rightarrow> 'w fdsys \<Rightarrow> ((int \<times> dentry) \<times> 'w fdsys) res" where
  "fd_readdir fd dentry_dst = use_fd fd (- EBADF, dentry_dst)
     (\<lambda>d w. call (op_readdir (ops d)) (\<lambda>rd. mapR (\<lambda>(r, e, w'). ((r, e), w')) (rd (ifd d) w)))"

definition fd_close :: "int \<Rightarrow> 'w fdsys \<Rightarrow> (int \<times> 'w fdsys) res" where
  "fd_close fd s =
     (case rcparray_get (fds s) (to_size_t fd) of
        (None, a) \<Rightarrow> Inr (- EBADF, s\<lparr>fds := a\<rparr>)
      | (Some d, a) \<Rightarrow>
          let a1 = rcparray_unref a (to_size_t fd); a2 = snd (rcparray_remove a1 (to_size_t fd))
          in call (op_close (ops d)) (\<lambda>cl. mapR (\<lambda>(r, w). (r, s\<lparr>fds := a2, world := w\<rparr>)) (cl (ifd d) (world s))))"

definition fd_dup :: "int \<Rightarrow> 'w fdsys \<Rightarrow> (int \<times> 'w fdsys) res" where
  "fd_dup fd s =
     (case rcparray_get (fds s) (to_size_t fd) of
        (None, a) \<Rightarrow> Inr (- EBADF, s\<lparr>fds := a\<rparr>)
      | (Some d, a) \<Rightarrow> call (op_dup (ops d)) (\<lambda>dp.
          bindR (dp (ifd d) (world s)) (\<lambda>(r, w).
            if r < 0 then Inr (r, s\<lparr>fds := rcparray_unref a (to_size_t fd), world := w\<rparr>)
            else case fd_add \<lparr>ifd = r, ops = ops d\<rparr> (s\<lparr>fds := a, world := w\<rparr>) of
                   (r', s') \<Rightarrow> Inr (r', s'\<lparr>fds := rcparray_unref (fds s') (to_size_t fd)\<rparr>))))"

section \<open>Tables between calls\<close>

text \<open>
  Between calls every slot in use is present and holds the table's own reference. \<open>open_at\<close> is
  the table as a map.
\<close>

definition quiet :: "'a rcparray \<Rightarrow> bool" where
  "quiet a \<longleftrightarrow> (\<forall>i < length a. \<forall>sl. a ! i = Some sl \<longrightarrow> present sl \<and> refs sl = 1)"

definition open_at :: "'a rcparray \<Rightarrow> nat \<Rightarrow> 'a option" where
  "open_at a i = (if i < length a then map_option val (a ! i) else None)"

lemma quiet_get:
  assumes "quiet a"
  shows "fst (rcparray_get a i) = open_at a i"
    and "open_at a i = None \<Longrightarrow> snd (rcparray_get a i) = a"
    and "open_at a i \<noteq> None \<Longrightarrow> rcparray_unref (snd (rcparray_get a i)) i = a"
proof -
  show "fst (rcparray_get a i) = open_at a i"
    using assms by (auto simp: quiet_def rcparray_get_def open_at_def split: option.splits)
  show "open_at a i = None \<Longrightarrow> snd (rcparray_get a i) = a"
    by (auto simp: rcparray_get_def open_at_def split: option.splits if_splits)
  assume "open_at a i \<noteq> None"
  then obtain sl where i: "i < length a" "a ! i = Some sl" by (auto simp: open_at_def split: if_splits)
  then have p: "present sl" "refs sl = 1" using assms by (auto simp: quiet_def)
  have "sl\<lparr>refs := 1\<rparr> = sl" using p by (cases sl) simp
  then have "a[i := Some (sl\<lparr>refs := 1\<rparr>)] = a" using i by (metis list_update_id)
  then show "rcparray_unref (snd (rcparray_get a i)) i = a"
    using i p by (simp add: rcparray_get_def rcparray_unref_def Let_def)
qed

lemma quiet_get_Some:
  assumes "quiet a" and "open_at a i = Some v"
  obtains a' where "rcparray_get a i = (Some v, a')" and "rcparray_unref a' i = a"
  using quiet_get [OF assms(1), of i] assms(2) by (cases "rcparray_get a i") auto

lemma quiet_get_None:
  assumes "quiet a" and "open_at a i = None"
  shows "rcparray_get a i = (None, a)"
  using quiet_get [OF assms(1), of i] assms(2) by (cases "rcparray_get a i") auto

lemma quiet_get_poke:
  assumes "quiet a" and "open_at a i = Some v" and "rcparray_get a i = (r, a')"
  shows "quiet (rcparray_unref (rcparray_poke a' i v') i)"
    and "open_at (rcparray_unref (rcparray_poke a' i v') i) = (open_at a)(i \<mapsto> v')"
proof -
  obtain sl where i: "i < length a" "a ! i = Some sl" using assms(2) by (auto simp: open_at_def split: if_splits)
  then have sl: "present sl" "refs sl = 1" using assms(1) by (auto simp: quiet_def)
  have "rcparray_unref (rcparray_poke a' i v') i = a[i := Some (sl\<lparr>val := v', refs := 1\<rparr>)]"
    using assms(3) i sl by (auto simp: rcparray_get_def rcparray_poke_def rcparray_unref_def)
  then show "quiet (rcparray_unref (rcparray_poke a' i v') i)"
    and "open_at (rcparray_unref (rcparray_poke a' i v') i) = (open_at a)(i \<mapsto> v')"
    using assms(1) i sl by (auto simp: quiet_def open_at_def fun_eq_iff nth_list_update split: if_splits)
qed

lemma quiet_get_remove:
  fixes v v1 v2 :: 'a
  assumes "quiet a" and "open_at a i = Some v" and "rcparray_get a i = (r, a')"
  defines "a'' \<equiv> rcparray_unref (rcparray_poke (snd (rcparray_remove (rcparray_poke a' i v1) i)) i v2) i"
  shows "quiet a''" and "open_at a'' = (open_at a)(i := None)" and "length a'' = length a"
proof -
  obtain sl where i: "i < length a" "a ! i = Some sl" using assms(2) by (auto simp: open_at_def split: if_splits)
  then have sl: "present sl" "refs sl = 1" using assms(1) by (auto simp: quiet_def)
  have "a'' = a[i := None]"
    using assms(3) i sl unfolding a''_def by (auto simp: rcparray_get_def rcparray_poke_def rcparray_unref_def rcparray_remove_def Let_def)
  then show "quiet a''" and "open_at a'' = (open_at a)(i := None)" and "length a'' = length a"
    using assms(1) i sl by (auto simp: quiet_def open_at_def fun_eq_iff nth_list_update split: if_splits)
qed

lemma quiet_remove:
  assumes "quiet a" and "open_at a i \<noteq> None"
  shows "quiet (snd (rcparray_remove a i))" and "open_at (snd (rcparray_remove a i)) = (open_at a)(i := None)"
proof -
  obtain sl where i: "i < length a" "a ! i = Some sl" using assms(2) by (auto simp: open_at_def split: if_splits)
  then have "refs sl = 1" using assms(1) by (auto simp: quiet_def)
  then have r: "snd (rcparray_remove a i) = a[i := None]" using i by (simp add: rcparray_remove_def Let_def)
  show "quiet (snd (rcparray_remove a i))"
    unfolding r using assms(1) i by (auto simp: quiet_def nth_list_update split: if_splits)
  show "open_at (snd (rcparray_remove a i)) = (open_at a)(i := None)"
    unfolding r using i by (auto simp: open_at_def fun_eq_iff nth_list_update)
qed

lemma quiet_add:
  assumes "quiet a" and "rcparray_add a v = (i, a')"
  shows "quiet a'" and "open_at a' = (open_at a)(i \<mapsto> v)" and "open_at a i = None"
    and "\<forall>j < i. open_at a j \<noteq> None" and "i \<le> length a"
proof -
  have i: "i = first_null a" and a': "a' = (if i < length a then a[i := Some (fresh_slot v)] else a @ [Some (fresh_slot v)])"
    using assms(2) by (auto simp: rcparray_add_def Let_def split: if_splits)
  have le: "i \<le> length a" unfolding i by (rule first_null_le)
  then show "i \<le> length a" .
  show "quiet a'"
    using assms(1) unfolding a' by (auto simp: quiet_def nth_list_update nth_append fresh_slot_simps split: if_splits)
  show "open_at a' = (open_at a)(i \<mapsto> v)"
    using le unfolding a' by (auto simp: open_at_def fun_eq_iff nth_list_update nth_append fresh_slot_simps)
  show "open_at a i = None" using first_null_None [of a] unfolding i open_at_def by auto
  show "\<forall>j < i. open_at a j \<noteq> None" using first_null_used [of _ a] le unfolding i open_at_def by auto
qed

section \<open>Properties\<close>

lemma use_fd_quiet:
  assumes "quiet (fds s)"
  shows "use_fd fd bad f s =
    (case open_at (fds s) (to_size_t fd) of None \<Rightarrow> Inr (bad, s)
     | Some d \<Rightarrow> mapR (\<lambda>(r, w). (r, s\<lparr>world := w\<rparr>)) (f d (world s)))"
proof (cases "open_at (fds s) (to_size_t fd)")
  case None
  then show ?thesis using quiet_get_None [OF assms None] by (simp add: use_fd_def)
next
  case (Some d)
  obtain a' where a': "rcparray_get (fds s) (to_size_t fd) = (Some d, a')" "rcparray_unref a' (to_size_t fd) = fds s"
    by (rule quiet_get_Some [OF assms Some])
  have "s\<lparr>fds := fds s, world := w\<rparr> = s\<lparr>world := w\<rparr>" for w by simp
  then show ?thesis using Some a' by (simp add: use_fd_def)
qed

lemma fd_close_quiet:
  assumes "quiet (fds s)"
  shows "fd_close fd s =
    (case open_at (fds s) (to_size_t fd) of None \<Rightarrow> Inr (- EBADF, s)
     | Some d \<Rightarrow> call (op_close (ops d)) (\<lambda>cl. mapR (\<lambda>(r, w).
         (r, s\<lparr>fds := snd (rcparray_remove (fds s) (to_size_t fd)), world := w\<rparr>)) (cl (ifd d) (world s))))"
proof (cases "open_at (fds s) (to_size_t fd)")
  case None
  then show ?thesis using quiet_get_None [OF assms None] by (simp add: fd_close_def)
next
  case (Some d)
  obtain a' where "rcparray_get (fds s) (to_size_t fd) = (Some d, a')" "rcparray_unref a' (to_size_t fd) = fds s"
    by (rule quiet_get_Some [OF assms Some])
  then show ?thesis using Some by (simp add: fd_close_def Let_def)
qed

text \<open>The abstract table: a map from numbers to descriptors, and the world.\<close>

type_synonym 'w fdmap = "(nat \<rightharpoonup> 'w file_descriptor) \<times> 'w"

definition fd_abs :: "'w fdsys \<Rightarrow> 'w fdmap" where
  "fd_abs s = (open_at (fds s), world s)"

text \<open>
  C14: Between calls the descriptor table behaves as a finite map: \<open>fd_add\<close> binds the least number
  that is free; \<open>fd_read\<close> and \<open>fd_write\<close> on a bound number are exactly its operation on its inner
  number, with no trace left in the table, and the bad descriptor error, without effect, on any other;
  \<open>fd_close\<close> runs the close operation once and frees the number, so that a second close is the
  error; every table they leave is again one between calls.
\<close>

theorem fd_table_map:
  assumes "quiet (fds s)"
  shows "(\<exists>i s'. fd_add d s = (int i, s') \<and> quiet (fds s') \<and> fd_abs s' = ((open_at (fds s))(i \<mapsto> d), world s) \<and>
      open_at (fds s) i = None \<and> (\<forall>j < i. open_at (fds s) j \<noteq> None)) \<and>
    (case open_at (fds s) (to_size_t fd) of
       None \<Rightarrow> fd_read fd len s = Inr ((- EBADF, []), s) \<and> fd_write fd buffer s = Inr (- EBADF, s) \<and>
         fd_close fd s = Inr (- EBADF, s)
     | Some e \<Rightarrow>
         fd_read fd len s = call (op_read (ops e)) (\<lambda>rd.
           mapR (\<lambda>(r, b, w). ((r, b), s\<lparr>world := w\<rparr>)) (rd (ifd e) len (world s))) \<and>
         fd_write fd buffer s = call (op_write (ops e)) (\<lambda>wr.
           mapR (\<lambda>(r, w). (r, s\<lparr>world := w\<rparr>)) (wr (ifd e) buffer (world s))) \<and>
         (\<forall>cl r w. op_close (ops e) = Some cl \<longrightarrow> cl (ifd e) (world s) = Inr (r, w) \<longrightarrow>
           (\<exists>s'. fd_close fd s = Inr (r, s') \<and> quiet (fds s') \<and>
              fd_abs s' = ((open_at (fds s))(to_size_t fd := None), w) \<and> fd_close fd s' = Inr (- EBADF, s'))))"
proof (rule conjI)
  obtain i a where a: "rcparray_add (fds s) d = (i, a)" by fastforce
  show "\<exists>i s'. fd_add d s = (int i, s') \<and> quiet (fds s') \<and> fd_abs s' = ((open_at (fds s))(i \<mapsto> d), world s) \<and>
      open_at (fds s) i = None \<and> (\<forall>j < i. open_at (fds s) j \<noteq> None)"
    using quiet_add [OF assms a] a by (intro exI [of _ i] exI [of _ "s\<lparr>fds := a\<rparr>"]) (simp add: fd_add_def fd_abs_def)
next
  show "case open_at (fds s) (to_size_t fd) of
       None \<Rightarrow> fd_read fd len s = Inr ((- EBADF, []), s) \<and> fd_write fd buffer s = Inr (- EBADF, s) \<and>
         fd_close fd s = Inr (- EBADF, s)
     | Some e \<Rightarrow>
         fd_read fd len s = call (op_read (ops e)) (\<lambda>rd.
           mapR (\<lambda>(r, b, w). ((r, b), s\<lparr>world := w\<rparr>)) (rd (ifd e) len (world s))) \<and>
         fd_write fd buffer s = call (op_write (ops e)) (\<lambda>wr.
           mapR (\<lambda>(r, w). (r, s\<lparr>world := w\<rparr>)) (wr (ifd e) buffer (world s))) \<and>
         (\<forall>cl r w. op_close (ops e) = Some cl \<longrightarrow> cl (ifd e) (world s) = Inr (r, w) \<longrightarrow>
           (\<exists>s'. fd_close fd s = Inr (r, s') \<and> quiet (fds s') \<and>
              fd_abs s' = ((open_at (fds s))(to_size_t fd := None), w) \<and> fd_close fd s' = Inr (- EBADF, s')))"
  proof (cases "open_at (fds s) (to_size_t fd)")
    case None
    then show ?thesis by (simp add: fd_read_def fd_write_def use_fd_quiet [OF assms] fd_close_quiet [OF assms])
  next
    case (Some e)
    define s' where "s' w = s\<lparr>fds := snd (rcparray_remove (fds s) (to_size_t fd)), world := w\<rparr>" for w
    have q: "quiet (fds (s' w))" "open_at (fds (s' w)) = (open_at (fds s))(to_size_t fd := None)" for w
      using quiet_remove [OF assms, of "to_size_t fd"] Some by (simp_all add: s'_def)
    have "fd_read fd len s = call (op_read (ops e)) (\<lambda>rd.
           mapR (\<lambda>(r, b, w). ((r, b), s\<lparr>world := w\<rparr>)) (rd (ifd e) len (world s)))"
      by (cases "op_read (ops e)")
        (simp_all add: fd_read_def use_fd_quiet [OF assms] Some mapR_def bindR_def split: sum.split prod.split)
    moreover have "fd_write fd buffer s = call (op_write (ops e)) (\<lambda>wr.
           mapR (\<lambda>(r, w). (r, s\<lparr>world := w\<rparr>)) (wr (ifd e) buffer (world s)))"
      by (cases "op_write (ops e)") (simp_all add: fd_write_def use_fd_quiet [OF assms] Some)
    moreover have "fd_close fd s = Inr (r, s' w) \<and> fd_close fd (s' w) = Inr (- EBADF, s' w)"
      if "op_close (ops e) = Some cl" "cl (ifd e) (world s) = Inr (r, w)" for cl r w
      using that q [of w] fd_close_quiet [OF q(1), of fd w] by (simp add: fd_close_quiet [OF assms] Some s'_def)
    ultimately show ?thesis using Some q by (auto simp: fd_abs_def s'_def)
  qed
qed

text \<open>A descriptor of a byte counter: reading returns its value, closing resets it.\<close>

definition counter_ops :: "nat file_ops" where
  "counter_ops = \<lparr>op_read = Some (\<lambda>i len w. Inr (int len, replicate len 7, w + len)),
     op_write = Some (\<lambda>i b w. Inr (int (length b), w)), op_seek = None, op_close = Some (\<lambda>i w. Inr (0, 0)),
     op_ioctl = None, op_readdir = None, op_dup = None\<rparr>"

theorem fd_table_map_witness:
  "fd_read 0 2 \<lparr>fds = [Some (fresh_slot \<lparr>ifd = 5, ops = counter_ops\<rparr>)], world = 1\<rparr> =
     Inr ((2, [7, 7]), \<lparr>fds = [Some (fresh_slot \<lparr>ifd = 5, ops = counter_ops\<rparr>)], world = 3\<rparr>)"
proof -
  let ?s = "\<lparr>fds = [Some (fresh_slot \<lparr>ifd = 5, ops = counter_ops\<rparr>)], world = 1\<rparr>"
  have q: "quiet (fds ?s)" by (simp add: quiet_def)
  have "open_at (fds ?s) (to_size_t 0) = Some \<lparr>ifd = 5, ops = counter_ops\<rparr>" by (simp add: open_at_def)
  then show ?thesis
    using fd_table_map [OF q, of _ 0 2 "[]"] by (simp add: counter_ops_def numeral_2_eq_2)
qed

end
