(* ===== verification/Fs.thy ===== *)
theory Fs
  imports Fd Path
begin

text \<open>
  \<^verbatim>\<open>fs/fs.c\<close>: registered file systems, mounts and open handles, and the operations that
  dispatch a path to the mount it belongs to and a descriptor to the driver of its mount. A driver is
  a record of functions on the state below it; a mount is known to its driver by its device number
  and private data. \<open>dev_name2id\<close> is an argument of \<open>fs_mount\<close>. The descriptors of
  \<open>Fd\<close> have the state of this theory as their world.
\<close>

section \<open>State\<close>

record mount_info =
  m_dev :: int
  private_data :: nat

record finfo =
  fi_dev :: int
  fi_type :: u16
  fi_size :: u64
  fi_block_size :: u64
  fi_block_count :: u64

definition FS_TYPE_REG :: u16 where "FS_TYPE_REG = 1"
definition FS_TYPE_DIR :: u16 where "FS_TYPE_DIR = 2"
definition FS_TYPE_CHAR :: u16 where "FS_TYPE_CHAR = 4"
definition FS_TYPE_BLOCK :: u16 where "FS_TYPE_BLOCK = 8"
definition FS_TYPE_NET :: u16 where "FS_TYPE_NET = 16"

record 'w filesystem =
  fs_name :: bytes
  fsop_mount :: "(mount_info \<Rightarrow> 'w \<Rightarrow> (int \<times> mount_info \<times> 'w) res) option"
  fsop_open :: "(mount_info \<Rightarrow> bytes \<Rightarrow> int \<Rightarrow> 'w \<Rightarrow> (int \<times> 'w) res) option"
  fsop_read :: "(mount_info \<Rightarrow> int \<Rightarrow> nat \<Rightarrow> 'w \<Rightarrow> (int \<times> bytes \<times> 'w) res) option"
  fsop_write :: "(mount_info \<Rightarrow> int \<Rightarrow> bytes \<Rightarrow> 'w \<Rightarrow> (int \<times> 'w) res) option"
  fsop_seek :: "(mount_info \<Rightarrow> int \<Rightarrow> int \<Rightarrow> int \<Rightarrow> 'w \<Rightarrow> (int \<times> 'w) res) option"
  fsop_close :: "(mount_info \<Rightarrow> int \<Rightarrow> 'w \<Rightarrow> (int \<times> 'w) res) option"
  fsop_ioctl :: "(mount_info \<Rightarrow> int \<Rightarrow> int \<Rightarrow> bytes \<Rightarrow> 'w \<Rightarrow> (int \<times> bytes \<times> 'w) res) option"
  fsop_opendir :: "(mount_info \<Rightarrow> bytes \<Rightarrow> 'w \<Rightarrow> (int \<times> 'w) res) option"
  fsop_readdir :: "(mount_info \<Rightarrow> int \<Rightarrow> 'w \<Rightarrow> (int \<times> dentry \<times> 'w) res) option"
  fsop_finfo :: "(mount_info \<Rightarrow> bytes \<Rightarrow> 'w \<Rightarrow> (int \<times> finfo \<times> 'w) res) option"
  fsop_dup :: "(mount_info \<Rightarrow> int \<Rightarrow> 'w \<Rightarrow> (int \<times> 'w) res) option"

record 'w mount =
  m_path :: bytes
  m_info :: mount_info
  m_fs :: "'w filesystem"

record 'w fs_handle =
  h_ifd :: int
  h_mount :: "'w mount"

record 'w fssys =
  filesystems :: "'w filesystem rcparray"
  mounts :: "'w mount rcparray"
  handles :: "'w fs_handle rcparray"
  drv :: 'w

section \<open>Finding the mount of a path\<close>

definition fs_register :: "'w filesystem \<Rightarrow> 'w fssys \<Rightarrow> 'w fssys" where
  "fs_register fs s = s\<lparr>filesystems := snd (rcparray_add (filesystems s) fs)\<rparr>"

fun get_mount_loop ::
    "nat list \<Rightarrow> bytes \<Rightarrow> int \<Rightarrow> int \<Rightarrow> 'w mount rcparray \<Rightarrow> (int \<times> int \<times> 'w mount rcparray) res" where
  "get_mount_loop [] path sel_id spec_len ms = Inr (sel_id, spec_len, ms)"
| "get_mount_loop (mnt_id # ids) path sel_id spec_len ms =
     (case rcparray_get ms mnt_id of
        (None, _) \<Rightarrow> Inl NullDeref
      | (Some m, ms1) \<Rightarrow>
          bindR (strlen (m_path m)) (\<lambda>n.
            let path_len = int n - 1
            in bindR (memcmp (m_path m) path (to_size_t path_len)) (\<lambda>cmp.
                 let ms2 = rcparray_unref ms1 mnt_id
                 in if cmp = 0 \<and> spec_len \<le> path_len
                    then get_mount_loop ids path (int mnt_id) path_len ms2
                    else get_mount_loop ids path sel_id spec_len ms2)))"

definition fs_get_mount :: "bytes \<Rightarrow> 'w fssys \<Rightarrow> ((int \<times> bytes) \<times> 'w fssys) res" where
  "fs_get_mount path s =
     bindR (get_mount_loop (rcparray_foreach (mounts s)) path (- ENOENT) 0 (mounts s)) (\<lambda>(sel_id, spec_len, ms).
       let s' = s\<lparr>mounts := ms\<rparr>
       in if sel_id < 0 then Inr ((sel_id, []), s')
          else bindR (nthR path (nat spec_len)) (\<lambda>c.
                 Inr ((sel_id, if c \<noteq> 47 then cstr ''/'' else drop (nat spec_len) path), s')))"

text \<open>The mount is looked up, the driver's operation runs, the mount is released.\<close>

definition on_mount ::
    "bytes \<Rightarrow> ('w mount \<Rightarrow> bytes \<Rightarrow> 'w \<Rightarrow> (int \<times> 'r \<times> 'w) res) \<Rightarrow> 'r \<Rightarrow> 'w fssys \<Rightarrow> (('w mount option \<times> int \<times> 'r) \<times> 'w fssys) res" where
  "on_mount path f none s =
     bindR (fs_get_mount path s) (\<lambda>((mount_id, new_path), s1).
       if mount_id < 0 then Inr ((None, mount_id, none), s1)
       else case rcparray_get (mounts s1) (to_size_t mount_id) of
          (None, _) \<Rightarrow> Inl NullDeref
        | (Some m, ms) \<Rightarrow> mapR (\<lambda>(ret, x, w). ((Some m, ret, x),
              s1\<lparr>mounts := rcparray_unref ms (to_size_t mount_id), drv := w\<rparr>)) (f m new_path (drv s1)))"

definition fs_finfo :: "bytes \<Rightarrow> finfo \<Rightarrow> 'w fssys \<Rightarrow> ((int \<times> finfo) \<times> 'w fssys) res" where
  "fs_finfo path fi s =
     mapR (\<lambda>((_, ret, fi'), s'). ((if ret < 0 then ret else 0, fi'), s'))
       (on_mount path (\<lambda>m p w. call (fsop_finfo (m_fs m)) (\<lambda>f. f (m_info m) p w)) fi s)"

definition fs_exists :: "bytes \<Rightarrow> finfo \<Rightarrow> 'w fssys \<Rightarrow> (bool \<times> 'w fssys) res" where
  "fs_exists path fi s = mapR (\<lambda>((ret, _), s'). (ret = 0, s')) (fs_finfo path fi s)"

section \<open>Mounting\<close>

text \<open>
  The loop over the registered file systems; one whose name differs is left with the reference that
  looking at it took.
\<close>

fun mount_loop ::
    "nat list \<Rightarrow> bytes \<Rightarrow> bytes option \<Rightarrow> mount_info \<Rightarrow> int \<Rightarrow> 'w filesystem rcparray \<Rightarrow> 'w \<Rightarrow>
     (int \<times> 'w mount option \<times> 'w filesystem rcparray \<times> 'w) res" where
  "mount_loop [] path fsname mi ret fss w = Inr (ret, None, fss, w)"
| "mount_loop (fs_id # ids) path fsname mi ret fss w =
     (case rcparray_get fss fs_id of
        (None, _) \<Rightarrow> Inl NullDeref
      | (Some fs, fss1) \<Rightarrow>
          bindR (case fsname of None \<Rightarrow> Inr 0 | Some n \<Rightarrow> strcmp (fs_name fs) n) (\<lambda>cmp.
            if cmp \<noteq> 0 then mount_loop ids path fsname mi ret fss1 w
            else call (fsop_mount fs) (\<lambda>f.
              bindR (f mi w) (\<lambda>(ret', mi', w').
                if ret' < 0 then mount_loop ids path fsname mi' ret' (rcparray_unref fss1 fs_id) w'
                else bindR (strlen path) (\<lambda>len.
                  if len = 0 then Inl OutOfBounds
                  else bindR (snprintf (kblock (len + 3)) (len + 2)
                      (if path ! (len - 1) \<noteq> 47 then cstr ''%s/'' else cstr ''%s'') [AStr path]) (\<lambda>(_, mp).
                    Inr (ret', Some \<lparr>m_path = mp, m_info = mi', m_fs = fs\<rparr>, rcparray_unref fss1 fs_id, w')))))))"

definition fs_mount ::
    "(bytes \<Rightarrow> int) \<Rightarrow> bytes option \<Rightarrow> bytes \<Rightarrow> bytes option \<Rightarrow> finfo \<Rightarrow> 'w fssys \<Rightarrow> (int \<times> 'w fssys) res" where
  "fs_mount dev_name2id dev path fsname fi s =
     (let dev_id = (case dev of None \<Rightarrow> - 1 | Some d \<Rightarrow> dev_name2id d)
      in if dev \<noteq> None \<and> dev_id < 0 then Inr (dev_id, s)
         else bindR (strcmp path (cstr ''/'')) (\<lambda>root.
              bindR (if root \<noteq> 0 then fs_finfo path fi s else Inr ((0, fi), s)) (\<lambda>((fcode, _), s1).
                if fcode < 0 then Inr (fcode, s1)
                else bindR (mount_loop (rcparray_foreach (filesystems s1)) path fsname
                       \<lparr>m_dev = dev_id, private_data = 0\<rparr> (- EINVAL) (filesystems s1) (drv s1))
                  (\<lambda>(ret, m, fss, w).
                     let s2 = s1\<lparr>filesystems := fss, drv := w\<rparr>
                     in if ret < 0 then Inr (- ENOENT, s2)
                        else case m of
                          None \<Rightarrow> Inr (- ENOENT, s2)
                        | Some m' \<Rightarrow> (case rcparray_add (mounts s2) m' of (i, ms) \<Rightarrow> Inr (int i, s2\<lparr>mounts := ms\<rparr>))))))"

section \<open>Operations on open handles\<close>

definition use_handle ::
    "int \<Rightarrow> 'r \<Rightarrow> ('w fs_handle \<Rightarrow> 'w \<Rightarrow> ('r \<times> 'w) res) \<Rightarrow> 'w fssys \<Rightarrow> ('r \<times> 'w fssys) res" where
  "use_handle fd bad f s =
     (case rcparray_get (handles s) (to_size_t fd) of
        (None, a) \<Rightarrow> Inr (bad, s\<lparr>handles := a\<rparr>)
      | (Some h, a) \<Rightarrow> mapR (\<lambda>(r, w). (r, s\<lparr>handles := rcparray_unref a (to_size_t fd), drv := w\<rparr>)) (f h (drv s)))"

abbreviation h_fs :: "'w fs_handle \<Rightarrow> 'w filesystem" where "h_fs h \<equiv> m_fs (h_mount h)"
abbreviation h_mi :: "'w fs_handle \<Rightarrow> mount_info" where "h_mi h \<equiv> m_info (h_mount h)"

definition fs_read' :: "int \<Rightarrow> nat \<Rightarrow> 'w fssys \<Rightarrow> (int \<times> bytes \<times> 'w fssys) res" where
  "fs_read' fd len s = mapR (\<lambda>((r, b), s'). (r, b, s')) (use_handle fd (- EBADF, [])
     (\<lambda>h w. call (fsop_read (h_fs h)) (\<lambda>f. mapR (\<lambda>(r, b, w'). ((r, b), w')) (f (h_mi h) (h_ifd h) len w))) s)"

definition fs_write' :: "int \<Rightarrow> bytes \<Rightarrow> 'w fssys \<Rightarrow> (int \<times> 'w fssys) res" where
  "fs_write' fd buffer = use_handle fd (- EBADF)
     (\<lambda>h w. call (fsop_write (h_fs h)) (\<lambda>f. f (h_mi h) (h_ifd h) buffer w))"

definition fs_seek' :: "int \<Rightarrow> int \<Rightarrow> int \<Rightarrow> 'w fssys \<Rightarrow> (int \<times> 'w fssys) res" where
  "fs_seek' fd offset mode = use_handle fd (- EBADF)
     (\<lambda>h w. call (fsop_seek (h_fs h)) (\<lambda>f. f (h_mi h) (h_ifd h) offset mode w))"

definition fs_ioctl' :: "int \<Rightarrow> int \<Rightarrow> bytes \<Rightarrow> 'w fssys \<Rightarrow> (int \<times> bytes \<times> 'w fssys) res" where
  "fs_ioctl' fd code data s = mapR (\<lambda>((r, b), s'). (r, b, s')) (use_handle fd (- EBADF, data)
     (\<lambda>h w. call (fsop_ioctl (h_fs h)) (\<lambda>f. mapR (\<lambda>(r, b, w'). ((r, b), w')) (f (h_mi h) (h_ifd h) code data w))) s)"

definition fs_readdir' :: "dentry \<Rightarrow> int \<Rightarrow> 'w fssys \<Rightarrow> (int \<times> dentry \<times> 'w fssys) res" where
  "fs_readdir' dentry_dst fd s = mapR (\<lambda>((r, b), s'). (r, b, s')) (use_handle fd (- EBADF, dentry_dst)
     (\<lambda>h w. call (fsop_readdir (h_fs h)) (\<lambda>f. mapR (\<lambda>(r, b, w'). ((r, b), w')) (f (h_mi h) (h_ifd h) w))) s)"

definition fs_close' :: "int \<Rightarrow> 'w fssys \<Rightarrow> (int \<times> 'w fssys) res" where
  "fs_close' fd s =
     (case rcparray_get (handles s) (to_size_t fd) of
        (None, a) \<Rightarrow> Inr (- EBADF, s\<lparr>handles := a\<rparr>)
      | (Some h, a) \<Rightarrow>
          let a1 = rcparray_unref a (to_size_t fd); a2 = snd (rcparray_remove a1 (to_size_t fd))
          in call (fsop_close (h_fs h)) (\<lambda>f.
               mapR (\<lambda>(r, w). (r, s\<lparr>handles := a2, drv := w\<rparr>)) (f (h_mi h) (h_ifd h) (drv s))))"

definition fs_dup' :: "int \<Rightarrow> 'w fssys \<Rightarrow> (int \<times> 'w fssys) res" where
  "fs_dup' fd s =
     (case rcparray_get (handles s) (to_size_t fd) of
        (None, a) \<Rightarrow> Inr (- EBADF, s\<lparr>handles := a\<rparr>)
      | (Some h, a) \<Rightarrow> call (fsop_dup (h_fs h)) (\<lambda>f.
          bindR (f (h_mi h) (h_ifd h) (drv s)) (\<lambda>(r, w).
            if r < 0 then Inr (r, s\<lparr>handles := rcparray_unref a (to_size_t fd), drv := w\<rparr>)
            else case rcparray_add a \<lparr>h_ifd = h_ifd h, h_mount = h_mount h\<rparr> of
                   (i, a1) \<Rightarrow> Inr (int i, s\<lparr>handles := rcparray_unref a1 (to_size_t fd), drv := w\<rparr>))))"

section \<open>Opening\<close>

definition no_dentry :: dentry where
  "no_dentry = \<lparr>dtype = 0, dname = replicate 256 0\<rparr>"

definition fs_file_ops :: "'w fssys file_ops" where
  "fs_file_ops = \<lparr>op_read = Some fs_read', op_write = Some fs_write', op_seek = Some fs_seek', op_close = Some fs_close',
     op_ioctl = Some fs_ioctl', op_readdir = Some (fs_readdir' no_dentry), op_dup = Some fs_dup'\<rparr>"

definition fs_dir_ops :: "'w fssys file_ops" where
  "fs_dir_ops = \<lparr>op_read = Some fs_read', op_write = None, op_seek = Some fs_seek', op_close = Some fs_close',
     op_ioctl = Some fs_ioctl', op_readdir = Some (fs_readdir' no_dentry), op_dup = None\<rparr>"

text \<open>The part the two open operations share: a handle and a descriptor for what the driver opened.\<close>

definition install ::
    "'w fssys file_ops \<Rightarrow> ('w mount option \<times> int \<times> unit) \<times> 'w fssys \<Rightarrow> 'w fssys fdsys \<Rightarrow> int \<times> 'w fssys fdsys" where
  "install fops r s = (case r of ((m, ret, _), s1) \<Rightarrow>
     (case m of
        None \<Rightarrow> (ret, s\<lparr>world := s1\<rparr>)
      | Some m' \<Rightarrow>
          if ret < 0 then (ret, s\<lparr>world := s1\<rparr>)
          else case rcparray_add (handles s1) \<lparr>h_ifd = ret, h_mount = m'\<rparr> of
                 (i, hs) \<Rightarrow> fd_add \<lparr>ifd = int i, ops = fops\<rparr> (s\<lparr>world := s1\<lparr>handles := hs\<rparr>\<rparr>)))"

definition fs_open :: "bytes \<Rightarrow> int \<Rightarrow> 'w fssys fdsys \<Rightarrow> (int \<times> 'w fssys fdsys) res" where
  "fs_open path mode s =
     mapR (\<lambda>r. install fs_file_ops r s)
       (on_mount path (\<lambda>m p w. call (fsop_open (m_fs m)) (\<lambda>f. mapR (\<lambda>(r, w'). (r, (), w')) (f (m_info m) p mode w))) () (world s))"

definition fs_opendir :: "bytes \<Rightarrow> 'w fssys fdsys \<Rightarrow> (int \<times> 'w fssys fdsys) res" where
  "fs_opendir path s =
     mapR (\<lambda>r. install fs_dir_ops r s)
       (on_mount path (\<lambda>m p w. call (fsop_opendir (m_fs m)) (\<lambda>f. mapR (\<lambda>(r, w'). (r, (), w')) (f (m_info m) p w))) () (world s))"

section \<open>Mounts\<close>

text \<open>
  Mounts are never removed: every slot up to the end of the array is present. The path of a mount
  ends with a slash; \<open>m_dir\<close> is the path without it.
\<close>

definition full :: "'a rcparray \<Rightarrow> bool" where
  "full a \<longleftrightarrow> quiet a \<and> (\<forall>i < length a. a ! i \<noteq> None)"

lemma full_foreach: "full a \<Longrightarrow> rcparray_foreach a = [0..<length a]"
proof -
  assume f: "full a"
  obtain n where n: "rcparray_foreach_from a 0 = [0..<n]" "\<forall>k \<ge> n. \<not> slot_present (rcp_view a k)"
    "n = 0 \<or> slot_present (rcp_view a (n - 1))"
    using rcparray_foreach_from_upt [of 0 a] by (elim exE conjE) (rule that)
  have pr: "slot_present (rcp_view a k)" if k: "k < length a" for k
  proof -
    obtain sl where "a ! k = Some sl" using f k by (auto simp: full_def)
    then show ?thesis using f k by (simp add: full_def quiet_def)
  qed
  have "\<not> n < length a" using n(2) pr [of n] by auto
  then have "length a \<le> n" by simp
  moreover have "n \<le> length a"
  proof (rule ccontr)
    assume "\<not> n \<le> length a"
    then have "rcp_view a (n - 1) = None" "n \<noteq> 0" by auto
    with n(3) show False by simp
  qed
  ultimately show ?thesis using n(1) by (simp add: rcparray_foreach_def)
qed

lemma full_open: "full a \<Longrightarrow> i < length a \<Longrightarrow> \<exists>v. open_at a i = Some v"
  by (auto simp: full_def open_at_def)

definition m_dir :: "'w mount \<Rightarrow> bytes" where
  "m_dir m = butlast (takeWhile (\<lambda>c. c \<noteq> 0) (m_path m))"

definition mount_ok :: "'w mount \<Rightarrow> bool" where
  "mount_ok m \<longleftrightarrow> (\<exists>p r. m_path m = p @ 47 # 0 # r \<and> cstring p \<and> length p < 2 ^ 31)"

lemma mount_ok_dir:
  assumes "mount_ok m"
  obtains r where "m_path m = m_dir m @ 47 # 0 # r" and "cstring (m_dir m)" and "length (m_dir m) < 2 ^ 31"
proof -
  obtain p r where p: "m_path m = p @ 47 # 0 # r" "cstring p" "length p < 2 ^ 31" using assms by (auto simp: mount_ok_def)
  have "takeWhile (\<lambda>c. c \<noteq> 0) (p @ 47 # 0 # r) = p @ [47]"
    using p(2) by (subst takeWhile_append2) (auto simp: cstring_def)
  then have "m_dir m = p" by (simp add: m_dir_def p(1))
  with p that show thesis by blast
qed

text \<open>Comparing the directory of a mount with the beginning of a path.\<close>

definition under :: "bytes \<Rightarrow> bytes \<Rightarrow> bool" where
  "under p q \<longleftrightarrow> take (length p) q = p"

lemma memcmp_under:
  assumes "cstring p" and "cstring q"
  shows "\<exists>k. memcmp (p @ y) (q @ 0 # x) (length p) = Inr k \<and> (k = 0 \<longleftrightarrow> under p q)"
  using assms
proof (induction p arbitrary: q)
  case Nil
  then show ?case by (simp add: under_def)
next
  case (Cons c p)
  then have c: "c \<noteq> 0" "cstring p" by (auto simp: cstring_def)
  show ?case
  proof (cases q)
    case Nil
    then show ?thesis using c(1) by (auto simp: under_def word_gt_0)
  next
    case (Cons d q')
    then have "cstring q'" using \<open>cstring q\<close> by (simp add: cstring_def)
    then obtain k where k: "memcmp (p @ y) (q' @ 0 # x) (length p) = Inr k" "k = 0 \<longleftrightarrow> under p q'"
      using Cons.IH [OF c(2)] by blast
    then show ?thesis using Cons by (cases "c < d"; cases "d < c") (auto simp: under_def)
  qed
qed

text \<open>The loop keeps the longest directory seen so far, the later one among equals.\<close>

definition best :: "'w mount rcparray \<Rightarrow> bytes \<Rightarrow> nat \<Rightarrow> int \<Rightarrow> int \<Rightarrow> bool" where
  "best ms q k sel len \<longleftrightarrow>
     (sel = - ENOENT \<and> len = 0 \<and> (\<forall>j m. j < k \<longrightarrow> open_at ms j = Some m \<longrightarrow> \<not> under (m_dir m) q) \<or>
      (\<exists>i m. sel = int i \<and> i < k \<and> open_at ms i = Some m \<and> under (m_dir m) q \<and> len = int (length (m_dir m)) \<and>
        (\<forall>j m'. j < k \<longrightarrow> open_at ms j = Some m' \<longrightarrow> under (m_dir m') q \<longrightarrow>
           length (m_dir m') < length (m_dir m) \<or> length (m_dir m') = length (m_dir m) \<and> j \<le> i)))"

lemma best_step:
  assumes b: "best ms q k sel len" and m: "open_at ms k = Some m"
  shows "best ms q (Suc k) (if under (m_dir m) q \<and> len \<le> int (length (m_dir m)) then int k else sel)
    (if under (m_dir m) q \<and> len \<le> int (length (m_dir m)) then int (length (m_dir m)) else len)"
proof (cases "under (m_dir m) q \<and> len \<le> int (length (m_dir m))")
  case True
  have "length (m_dir m') < length (m_dir m) \<or> length (m_dir m') = length (m_dir m) \<and> j \<le> k"
    if j: "j < Suc k" "open_at ms j = Some m'" "under (m_dir m') q" for j m'
  proof (cases "j = k")
    case True
    then show ?thesis using j(2) m by simp
  next
    case False
    then have jk: "j < k" using j(1) by simp
    have "int (length (m_dir m')) \<le> len"
      using b unfolding best_def
    proof (elim disjE exE conjE)
      assume "\<forall>j m. j < k \<longrightarrow> open_at ms j = Some m \<longrightarrow> \<not> under (m_dir m) q"
      from this [rule_format, OF jk j(2)] j(3) show ?thesis by simp
    next
      fix i m0
      assume l: "len = int (length (m_dir m0))" and all: "\<forall>j m'. j < k \<longrightarrow> open_at ms j = Some m' \<longrightarrow> under (m_dir m') q \<longrightarrow>
           length (m_dir m') < length (m_dir m0) \<or> length (m_dir m') = length (m_dir m0) \<and> j \<le> i"
      from all [rule_format, OF jk j(2,3)] l show ?thesis by auto
    qed
    with \<open>under (m_dir m) q \<and> len \<le> int (length (m_dir m))\<close> jk show ?thesis by auto
  qed
  with True m show ?thesis unfolding best_def by auto
next
  case False
  show ?thesis
  proof (cases "sel = - ENOENT \<and> len = 0 \<and> (\<forall>j m. j < k \<longrightarrow> open_at ms j = Some m \<longrightarrow> \<not> under (m_dir m) q)")
    case True
    then have "\<not> under (m_dir m) q" using False by simp
    with True m show ?thesis unfolding best_def by (auto simp: less_Suc_eq)
  next
    case no: False
    with b obtain i m0 where i: "sel = int i" "i < k" "open_at ms i = Some m0" "under (m_dir m0) q"
        "len = int (length (m_dir m0))"
        "\<forall>j m'. j < k \<longrightarrow> open_at ms j = Some m' \<longrightarrow> under (m_dir m') q \<longrightarrow>
           length (m_dir m') < length (m_dir m0) \<or> length (m_dir m') = length (m_dir m0) \<and> j \<le> i"
      unfolding best_def by auto
    have "\<forall>j m'. j < Suc k \<longrightarrow> open_at ms j = Some m' \<longrightarrow> under (m_dir m') q \<longrightarrow>
        length (m_dir m') < length (m_dir m0) \<or> length (m_dir m') = length (m_dir m0) \<and> j \<le> i"
      using i(5,6) m False by (auto simp: less_Suc_eq)
    with i False show ?thesis unfolding best_def by auto
  qed
qed

lemma get_mount_loop_best:
  assumes full: "full ms" and ok: "\<forall>i m. open_at ms i = Some m \<longrightarrow> mount_ok m" and q: "cstring q"
    and "best ms q k sel len" and "k \<le> length ms"
  shows "\<exists>sel' len'. get_mount_loop [k..<length ms] (q @ 0 # x) sel len ms = Inr (sel', len', ms) \<and>
    best ms q (length ms) sel' len'"
  using assms(4,5)
proof (induction "length ms - k" arbitrary: k sel len)
  case 0
  then show ?case by auto
next
  case (Suc d)
  then have k: "k < length ms" by simp
  obtain m where m: "open_at ms k = Some m" using full_open [OF full k] by blast
  obtain r where mp: "m_path m = m_dir m @ 47 # 0 # r" "cstring (m_dir m)" "length (m_dir m) < 2 ^ 31"
    using mount_ok_dir ok m by metis
  have sl: "strlen (m_path m) = Inr (length (m_dir m) + 1)"
    using strlen_terminated [of "m_dir m @ [47]" r] mp by (simp add: cstring_def)
  obtain c where c: "memcmp (m_path m) (q @ 0 # x) (length (m_dir m)) = Inr c" "c = 0 \<longleftrightarrow> under (m_dir m) q"
    using memcmp_under [OF mp(2) q, of "47 # 0 # r" x] mp(1) by auto
  obtain a where a: "rcparray_get ms k = (Some m, a)" "rcparray_unref a k = ms"
    using quiet_get_Some [OF _ m] full by (auto simp: full_def)
  let ?u = "under (m_dir m) q \<and> len \<le> int (length (m_dir m))"
  have "get_mount_loop [k..<length ms] (q @ 0 # x) sel len ms =
      get_mount_loop [Suc k..<length ms] (q @ 0 # x) (if ?u then int k else sel) (if ?u then int (length (m_dir m)) else len) ms"
    unfolding upt_conv_Cons [OF k] using a sl c mp(3) by (simp add: Let_def)
  then show ?case
    using Suc.hyps(1) [OF _ best_step [OF Suc.prems(1) m]] Suc.hyps(2) k by simp
qed

lemma fs_get_mount_best:
  assumes full: "full (mounts s)" and ok: "\<forall>i m. open_at (mounts s) i = Some m \<longrightarrow> mount_ok m" and q: "cstring q"
  shows "\<exists>sel np. fs_get_mount (q @ 0 # x) s = Inr ((sel, np), s) \<and>
    (if \<exists>j m. open_at (mounts s) j = Some m \<and> under (m_dir m) q
     then \<exists>i m. sel = int i \<and> i < length (mounts s) \<and> open_at (mounts s) i = Some m \<and> under (m_dir m) q \<and>
       np = (if (q @ [0]) ! length (m_dir m) = 47 then drop (length (m_dir m)) q @ 0 # x else cstr ''/'') \<and>
       (\<forall>j m'. open_at (mounts s) j = Some m' \<longrightarrow> under (m_dir m') q \<longrightarrow>
          length (m_dir m') < length (m_dir m) \<or> length (m_dir m') = length (m_dir m) \<and> j \<le> i)
     else sel = - ENOENT)"
proof -
  have "best (mounts s) q 0 (- ENOENT) 0" by (simp add: best_def)
  from get_mount_loop_best [OF full ok q this, of x]
  obtain sel len where l: "get_mount_loop (rcparray_foreach (mounts s)) (q @ 0 # x) (- ENOENT) 0 (mounts s) = Inr (sel, len, mounts s)"
      "best (mounts s) q (length (mounts s)) sel len"
    unfolding full_foreach [OF full] by auto
  have rng: "open_at (mounts s) j = Some m \<Longrightarrow> j < length (mounts s)" for j m
    by (auto simp: open_at_def split: if_splits)
  show ?thesis
  proof (cases "\<exists>j m. open_at (mounts s) j = Some m \<and> under (m_dir m) q")
    case True
    then obtain i m where i: "sel = int i" "i < length (mounts s)" "open_at (mounts s) i = Some m" "under (m_dir m) q"
        "len = int (length (m_dir m))"
        "\<forall>j m'. j < length (mounts s) \<longrightarrow> open_at (mounts s) j = Some m' \<longrightarrow> under (m_dir m') q \<longrightarrow>
           length (m_dir m') < length (m_dir m) \<or> length (m_dir m') = length (m_dir m) \<and> j \<le> i"
      using l(2) rng unfolding best_def by blast
    define n where "n = length (m_dir m)"
    have n: "n \<le> length q"
    proof -
      have "length (take n q) = n" using i(4) by (simp add: under_def n_def)
      then show ?thesis by simp
    qed
    have "nthR (q @ 0 # x) n = Inr ((q @ [0]) ! n)" using n by (simp add: nth_append)
    moreover have "drop n (q @ 0 # x) = drop n q @ 0 # x" using n by simp
    ultimately have "fs_get_mount (q @ 0 # x) s =
        Inr ((int i, if (q @ [0]) ! n = 47 then drop n q @ 0 # x else cstr ''/''), s)"
      using l(1) i(1,5) unfolding fs_get_mount_def by (simp add: n_def [symmetric] Let_def)
    then show ?thesis using i rng True unfolding n_def by auto
  next
    case False
    then have "sel = - ENOENT" using l(2) unfolding best_def by blast
    then have "fs_get_mount (q @ 0 # x) s = Inr ((- ENOENT, []), s)"
      using l(1) by (simp add: fs_get_mount_def Let_def ENOENT_def)
    then show ?thesis using False by auto
  qed
qed

section \<open>Opening, using and closing\<close>

lemma on_mount_run:
  assumes "quiet (mounts s)" and "fs_get_mount path s = Inr ((int i, np), s)" and "open_at (mounts s) i = Some m" and "i < 2 ^ 64"
    and "f m np (drv s) = Inr (r, x, w)"
  shows "on_mount path f none s = Inr ((Some m, r, x), s\<lparr>drv := w\<rparr>)"
proof -
  obtain a where a: "rcparray_get (mounts s) i = (Some m, a)" "rcparray_unref a i = mounts s"
    by (rule quiet_get_Some [OF assms(1,3)])
  have "s\<lparr>mounts := mounts s, drv := w\<rparr> = s\<lparr>drv := w\<rparr>" by simp
  then show ?thesis using a assms(2,4,5) by (simp add: on_mount_def)
qed

lemma use_handle_run:
  assumes "quiet (handles s)" and "open_at (handles s) i = Some h" and "i < 2 ^ 64" and "f h (drv s) = Inr (r, w)"
  shows "use_handle (int i) bad f s = Inr (r, s\<lparr>drv := w\<rparr>)"
proof -
  obtain a where "rcparray_get (handles s) i = (Some h, a)" "rcparray_unref a i = handles s"
    by (rule quiet_get_Some [OF assms(1,2)])
  then show ?thesis using assms(3,4) by (simp add: use_handle_def)
qed

lemma fs_close_run:
  assumes "quiet (handles s)" and "open_at (handles s) i = Some h" and "i < 2 ^ 64"
    and "fsop_close (h_fs h) = Some f" and "f (h_mi h) (h_ifd h) (drv s) = Inr (r, w)"
  shows "fs_close' (int i) s = Inr (r, s\<lparr>handles := snd (rcparray_remove (handles s) i), drv := w\<rparr>)"
proof -
  obtain a where "rcparray_get (handles s) i = (Some h, a)" "rcparray_unref a i = handles s"
    by (rule quiet_get_Some [OF assms(1,2)])
  then show ?thesis using assms(3-5) by (simp add: fs_close'_def Let_def)
qed

lemma quiet_add_remove:
  assumes "quiet a" and "rcparray_add a v = (i, a')"
  shows "quiet (snd (rcparray_remove a' i))" and "open_at (snd (rcparray_remove a' i)) = open_at a"
  using quiet_add [OF assms] quiet_remove [of a' i] by auto

section \<open>Properties\<close>

lemma sibling_mount:
  assumes "full (mounts s)" and "\<forall>i m. open_at (mounts s) i = Some m \<longrightarrow> mount_ok m"
    and "open_at (mounts s) k = Some m" and "q = m_dir m @ c # rest" and "c \<noteq> 47" and "cstring q"
    and "\<forall>j m'. open_at (mounts s) j = Some m' \<longrightarrow> under (m_dir m') q \<longrightarrow> j \<noteq> k \<longrightarrow> length (m_dir m') < length (m_dir m)"
  shows "fs_get_mount (q @ 0 # x) s = Inr ((int k, cstr ''/''), s)"
proof -
  have u: "under (m_dir m) q" by (simp add: under_def assms(4))
  obtain sel np where g: "fs_get_mount (q @ 0 # x) s = Inr ((sel, np), s)"
    and "if \<exists>j m. open_at (mounts s) j = Some m \<and> under (m_dir m) q
     then \<exists>i m. sel = int i \<and> i < length (mounts s) \<and> open_at (mounts s) i = Some m \<and> under (m_dir m) q \<and>
       np = (if (q @ [0]) ! length (m_dir m) = 47 then drop (length (m_dir m)) q @ 0 # x else cstr ''/'') \<and>
       (\<forall>j m'. open_at (mounts s) j = Some m' \<longrightarrow> under (m_dir m') q \<longrightarrow>
          length (m_dir m') < length (m_dir m) \<or> length (m_dir m') = length (m_dir m) \<and> j \<le> i)
     else sel = - ENOENT"
    using fs_get_mount_best [OF assms(1,2,6), of x] by (elim exE conjE) (rule that)
  moreover have "\<exists>j m. open_at (mounts s) j = Some m \<and> under (m_dir m) q" using assms(3) u by (intro exI conjI)
  ultimately obtain i m0 where i: "sel = int i" "open_at (mounts s) i = Some m0" "under (m_dir m0) q"
      "np = (if (q @ [0]) ! length (m_dir m0) = 47 then drop (length (m_dir m0)) q @ 0 # x else cstr ''/'')"
      "\<forall>j m'. open_at (mounts s) j = Some m' \<longrightarrow> under (m_dir m') q \<longrightarrow>
          length (m_dir m') < length (m_dir m0) \<or> length (m_dir m') = length (m_dir m0) \<and> j \<le> i"
    by (simp only: if_True) (elim exE conjE, rule that)
  have "i = k"
  proof (rule ccontr)
    assume "i \<noteq> k"
    then have "length (m_dir m0) < length (m_dir m)" using assms(7) i(2,3) by blast
    with i(5) [rule_format, OF assms(3) u] show False by simp
  qed
  moreover from this have "m0 = m" using i(2) assms(3) by simp
  ultimately show ?thesis using g i(1,4) assms(4,5) by (simp add: nth_append)
qed

text \<open>A file system of one file, whose content is the state of its driver, mounted on \<open>/\<close> and \<open>/dev/\<close>.\<close>

definition one_file :: "bytes filesystem" where
  "one_file = \<lparr>fs_name = cstr ''one'', fsop_mount = None, fsop_open = Some (\<lambda>mi p mode w. Inr (3, w)),
     fsop_read = Some (\<lambda>mi i len w. Inr (int (length (take len w)), take len w, drop len w)), fsop_write = None,
     fsop_seek = None, fsop_close = Some (\<lambda>mi i w. Inr (0, w)), fsop_ioctl = None, fsop_opendir = None,
     fsop_readdir = None, fsop_finfo = None, fsop_dup = None\<rparr>"

definition on_dir :: "string \<Rightarrow> bytes mount" where
  "on_dir p = \<lparr>m_path = cstr p, m_info = \<lparr>m_dev = 0, private_data = 0\<rparr>, m_fs = one_file\<rparr>"

definition two_mounts :: "bytes fssys" where
  "two_mounts = \<lparr>filesystems = [], mounts = [Some (fresh_slot (on_dir ''/'')), Some (fresh_slot (on_dir ''/dev/''))],
     handles = [], drv = [7, 8, 9]\<rparr>"

lemma two_mounts_full: "full (mounts two_mounts)"
  by (simp add: full_def quiet_def two_mounts_def less_Suc_eq numeral_2_eq_2)

lemma two_mounts_open: "open_at (mounts two_mounts) i =
    (if i = 0 then Some (on_dir ''/'') else if i = 1 then Some (on_dir ''/dev/'') else None)"
  by (cases i) (auto simp: open_at_def two_mounts_def less_Suc_eq nth_Cons' split: nat.splits)

lemma two_mounts_ok: "\<forall>i m. open_at (mounts two_mounts) i = Some m \<longrightarrow> mount_ok m"
proof -
  have "mount_ok (on_dir ''/'')"
    unfolding mount_ok_def on_dir_def by (intro exI [of _ "[]"]) (simp add: cstr_def bytes_of_def cstring_def)
  moreover have "mount_ok (on_dir ''/dev/'')"
    unfolding mount_ok_def on_dir_def by (rule exI [of _ "bytes_of ''/dev''"], rule exI [of _ "[]"]) (simp add: cstr_def bytes_of_def cstring_def)
  ultimately show ?thesis by (simp add: two_mounts_open)
qed

lemma two_mounts_dir: "m_dir (on_dir ''/'') = []" "m_dir (on_dir ''/dev/'') = bytes_of ''/dev''"
  by (simp_all add: m_dir_def on_dir_def cstr_def bytes_of_def)

lemma dev_deepest: "\<forall>j m'. open_at (mounts two_mounts) j = Some m' \<longrightarrow> under (m_dir m') q \<longrightarrow> j \<noteq> 1 \<longrightarrow>
    length (m_dir m') < length (m_dir (on_dir ''/dev/''))"
  by (auto simp: two_mounts_open two_mounts_dir split: if_splits)

lemma dev_at_1: "open_at (mounts two_mounts) 1 = Some (on_dir ''/dev/'')"
  by (simp add: two_mounts_open)

lemma sibling_of_dev: "fs_get_mount (bytes_of ''/device'' @ 0 # []) two_mounts = Inr ((1, cstr ''/''), two_mounts)"
  using sibling_mount [OF two_mounts_full two_mounts_ok dev_at_1 _ _ _ dev_deepest, of "bytes_of ''/device''" 105 "bytes_of ''ce''" "[]"]
  by (simp add: two_mounts_dir bytes_of_def cstring_def)

text \<open>
  C13: Every path goes to the mount with the longest directory it starts with, the latest one among
  equals: when the mounts were made by \<open>fs_mount\<close> and none is in use, \<open>fs_get_mount\<close> ends
  without a fault and leaves the table as it was; it returns that mount and the rest of the path from
  its slash on, or the root of the mount when no slash follows, and the error for a missing entry
  exactly when the path is below no mount.
\<close>

theorem fs_get_mount_longest:
  assumes "full (mounts s)" and "\<forall>i m. open_at (mounts s) i = Some m \<longrightarrow> mount_ok m" and "cstring q"
  shows "\<exists>sel np. fs_get_mount (q @ 0 # x) s = Inr ((sel, np), s) \<and>
    (if \<exists>j m. open_at (mounts s) j = Some m \<and> under (m_dir m) q
     then \<exists>i m. sel = int i \<and> i < length (mounts s) \<and> open_at (mounts s) i = Some m \<and> under (m_dir m) q \<and>
       np = (if (q @ [0]) ! length (m_dir m) = 47 then drop (length (m_dir m)) q @ 0 # x else cstr ''/'') \<and>
       (\<forall>j m'. open_at (mounts s) j = Some m' \<longrightarrow> under (m_dir m') q \<longrightarrow>
          length (m_dir m') < length (m_dir m) \<or> length (m_dir m') = length (m_dir m) \<and> j \<le> i)
     else sel = - ENOENT)"
  by (rule fs_get_mount_best [OF assms])

theorem fs_get_mount_longest_witness:
  "fs_get_mount (bytes_of ''/dev/tty'' @ 0 # []) two_mounts = Inr ((1, cstr ''/tty''), two_mounts)"
proof -
  let ?q = "bytes_of ''/dev/tty''"
  have c: "cstring ?q" by (simp add: cstring_def bytes_of_def)
  have u: "under (m_dir (on_dir ''/dev/'')) ?q" by (simp add: under_def two_mounts_dir bytes_of_def)
  have o: "open_at (mounts two_mounts) 1 = Some (on_dir ''/dev/'')" by (simp add: two_mounts_open)
  then have "\<exists>j m. open_at (mounts two_mounts) j = Some m \<and> under (m_dir m) ?q" using u by (intro exI conjI)
  with fs_get_mount_longest [OF two_mounts_full two_mounts_ok c, of "[]"] obtain i m where
      i: "fs_get_mount (?q @ 0 # []) two_mounts =
        Inr ((int i, if (?q @ [0]) ! length (m_dir m) = 47 then drop (length (m_dir m)) ?q @ 0 # [] else cstr ''/''), two_mounts)"
      "open_at (mounts two_mounts) i = Some m"
      "\<forall>j m'. open_at (mounts two_mounts) j = Some m' \<longrightarrow> under (m_dir m') ?q \<longrightarrow>
          length (m_dir m') < length (m_dir m) \<or> length (m_dir m') = length (m_dir m) \<and> j \<le> i"
    by (simp only: if_True) (elim exE conjE, simp)
  have "i \<noteq> 0" using i(2) i(3) [rule_format, OF o u] by (cases "i = 0") (auto simp: two_mounts_open two_mounts_dir)
  then have "i = 1" "m = on_dir ''/dev/''" using i(2) by (auto simp: two_mounts_open split: if_splits)
  then show ?thesis using i(1) by (simp add: two_mounts_dir bytes_of_def cstr_def)
qed

lemma file_session:
  fixes s :: "'w fssys fdsys"
  assumes "quiet (fds s)" and "quiet (handles (world s))" and "quiet (mounts (world s))"
    and "length (fds s) < 2 ^ 64" and "length (handles (world s)) < 2 ^ 64"
    and "fs_get_mount path (world s) = Inr ((int i, np), world s)" and "open_at (mounts (world s)) i = Some m" and "i < 2 ^ 64"
    and "fsop_open (m_fs m) = Some op" and "op (m_info m) np mode (drv (world s)) = Inr (r, w1)" and "0 \<le> r"
    and "fsop_read (m_fs m) = Some rd" and "rd (m_info m) r len w1 = Inr (n, b, w2)"
    and "fsop_close (m_fs m) = Some cl" and "cl (m_info m) r w2 = Inr (c, w3)"
  shows "\<exists>fd s1 s2 s3. fs_open path mode s = Inr (fd, s1) \<and> 0 \<le> fd \<and> fd_read fd len s1 = Inr ((n, b), s2) \<and>
    fd_close fd s2 = Inr (c, s3) \<and> drv (world s3) = w3 \<and> mounts (world s3) = mounts (world s) \<and>
    open_at (fds s3) = open_at (fds s) \<and> open_at (handles (world s3)) = open_at (handles (world s)) \<and>
    quiet (fds s3) \<and> quiet (handles (world s3))"
proof -
  define h where "h = \<lparr>h_ifd = r, h_mount = m\<rparr>"
  obtain k hs where hs: "rcparray_add (handles (world s)) h = (k, hs)" by fastforce
  note qh = quiet_add [OF assms(2) hs] quiet_add_remove [OF assms(2) hs]
  define d :: "'w fssys file_descriptor" where "d = \<lparr>ifd = int k, ops = fs_file_ops\<rparr>"
  obtain fd ds where ds: "rcparray_add (fds s) d = (fd, ds)" by fastforce
  note qd = quiet_add [OF assms(1) ds] quiet_add_remove [OF assms(1) ds]
  have small: "k < 2 ^ 64" "fd < 2 ^ 64" using qh(5) qd(5) assms(4,5) by linarith+
  define v where "v w = (world s)\<lparr>handles := hs, drv := w\<rparr>" for w
  have v: "quiet (handles (v w))" "open_at (handles (v w)) k = Some h" "drv (v w) = w" "(v w)\<lparr>drv := w'\<rparr> = v w'" for w w'
    using qh by (simp_all add: v_def)
  define t where "t w = \<lparr>fds = ds, world = v w\<rparr>" for w
  have t: "fds (t w) = ds" "world (t w) = v w" "(t w)\<lparr>world := v w'\<rparr> = t w'" for w w' by (simp_all add: t_def)
  have qt: "quiet (fds (t w))" for w using qd(1) by (simp add: t)
  have nr: "\<not> r < 0" using assms(11) by simp
  have o: "open_at ds (to_size_t (int fd)) = Some d" using qd(2) small by simp
  have "fs_open path mode s = Inr (int fd, t w1)"
    unfolding fs_open_def
    by (subst on_mount_run [OF assms(3,6-8), of _ r "()" w1])
      (simp_all add: assms(9,10) nr install_def fd_add_def hs h_def [symmetric] d_def [symmetric] ds t_def v_def)
  moreover have "fs_read' (int k) len (v w1) = Inr (n, b, v w2)"
    unfolding fs_read'_def by (subst use_handle_run [OF v(1,2) small(1), where r = "(n, b)" and w = w2]) (simp_all add: v assms(12,13) h_def)
  then have "fd_read (int fd) len (t w1) = Inr ((n, b), t w2)"
    by (simp add: fd_read_def use_fd_quiet [OF qt] t o d_def fs_file_ops_def)
  moreover have "fs_close' (int k) (v w2) = Inr (c, (v w2)\<lparr>handles := snd (rcparray_remove hs k), drv := w3\<rparr>)"
    using fs_close_run [OF v(1,2) small(1)] by (simp add: v assms(14,15) h_def) (simp add: v_def)
  then have "fd_close (int fd) (t w2) =
      Inr (c, \<lparr>fds = snd (rcparray_remove ds fd), world = (world s)\<lparr>handles := snd (rcparray_remove hs k), drv := w3\<rparr>\<rparr>)"
    using o small(2) by (simp add: fd_close_quiet [OF qt] t d_def fs_file_ops_def) (simp add: t_def v_def)
  ultimately show ?thesis
    using qd(6,7) qh(6,7)
    by (intro exI [of _ "int fd"] exI [of _ "t w1"] exI [of _ "t w2"]
      exI [of _ "\<lparr>fds = snd (rcparray_remove ds fd), world = (world s)\<lparr>handles := snd (rcparray_remove hs k), drv := w3\<rparr>\<rparr>"]) simp
qed

text \<open>
  C5: Opening a file, reading and closing it goes through the descriptor table, the handle table and
  the mount to the driver and back: the three operations of the driver run once each, in this order,
  on the number the driver gave and on the state the previous one left; their results are the results
  of the calls; and afterwards both tables hold what they held before the file was opened.
\<close>

theorem open_read_close:
  fixes s :: "'w fssys fdsys"
  assumes "quiet (fds s)" and "quiet (handles (world s))" and "quiet (mounts (world s))"
    and "length (fds s) < 2 ^ 64" and "length (handles (world s)) < 2 ^ 64"
    and "fs_get_mount path (world s) = Inr ((int i, np), world s)" and "open_at (mounts (world s)) i = Some m" and "i < 2 ^ 64"
    and "fsop_open (m_fs m) = Some op" and "op (m_info m) np mode (drv (world s)) = Inr (r, w1)" and "0 \<le> r"
    and "fsop_read (m_fs m) = Some rd" and "rd (m_info m) r len w1 = Inr (n, b, w2)"
    and "fsop_close (m_fs m) = Some cl" and "cl (m_info m) r w2 = Inr (c, w3)"
  shows "\<exists>fd s1 s2 s3. fs_open path mode s = Inr (fd, s1) \<and> 0 \<le> fd \<and> fd_read fd len s1 = Inr ((n, b), s2) \<and>
    fd_close fd s2 = Inr (c, s3) \<and> drv (world s3) = w3 \<and> mounts (world s3) = mounts (world s) \<and>
    open_at (fds s3) = open_at (fds s) \<and> open_at (handles (world s3)) = open_at (handles (world s)) \<and>
    quiet (fds s3) \<and> quiet (handles (world s3))"
  by (rule file_session [OF assms])

theorem open_read_close_witness:
  "\<exists>fd s1 s2 s3. fs_open (bytes_of ''/device'' @ 0 # []) 0 \<lparr>fds = [], world = two_mounts\<rparr> = Inr (fd, s1) \<and>
     fd_read fd 2 s1 = Inr ((2, [7, 8]), s2) \<and> fd_close fd s2 = Inr (0, s3) \<and> drv (world s3) = [9]"
proof -
  let ?s = "\<lparr>fds = [], world = two_mounts\<rparr>"
  have g: "fs_get_mount (bytes_of ''/device'' @ 0 # []) (world ?s) = Inr ((int 1, cstr ''/''), world ?s)"
    using sibling_of_dev by simp
  have d: "drv two_mounts = [7, 8, 9]" "handles two_mounts = []" by (simp_all add: two_mounts_def)
  have q: "quiet (mounts two_mounts)" using two_mounts_full by (simp add: full_def)
  have "\<exists>fd s1 s2 s3. fs_open (bytes_of ''/device'' @ 0 # []) 0 ?s = Inr (fd, s1) \<and> 0 \<le> fd \<and>
     fd_read fd 2 s1 = Inr ((2, [7, 8]), s2) \<and> fd_close fd s2 = Inr (0, s3) \<and> drv (world s3) = [9] \<and>
     mounts (world s3) = mounts (world ?s) \<and> open_at (fds s3) = open_at (fds ?s) \<and>
     open_at (handles (world s3)) = open_at (handles (world ?s)) \<and> quiet (fds s3) \<and> quiet (handles (world s3))"
    by (rule open_read_close [OF _ _ _ _ _ g, where m = "on_dir ''/dev/''" and r = 3 and ?w1.0 = "[7, 8, 9]" and ?w2.0 = "[9]"
          and op = "\<lambda>mi p mode w. Inr (3, w)" and rd = "\<lambda>mi i len w. Inr (int (length (take len w)), take len w, drop len w)"
          and cl = "\<lambda>mi i w. Inr (0, w)"])
      (simp_all add: q d two_mounts_open, simp_all add: on_dir_def one_file_def quiet_def)
  then show ?thesis by (elim exE conjE) (intro exI conjI)
qed

text \<open>
  A mount is chosen by the bytes of its directory, not by whole names: with a mount on \<open>d/\<close> and
  no longer one, every path that continues \<open>d\<close> with a byte other than a slash is taken to be the root
  of that mount, so that a sibling of the mount point whose name it begins opens as the mounted root.
\<close>

theorem mount_swallows_siblings:
  assumes "full (mounts s)" and "\<forall>i m. open_at (mounts s) i = Some m \<longrightarrow> mount_ok m"
    and "open_at (mounts s) k = Some m" and "q = m_dir m @ c # rest" and "c \<noteq> 47" and "cstring q"
    and "\<forall>j m'. open_at (mounts s) j = Some m' \<longrightarrow> under (m_dir m') q \<longrightarrow> j \<noteq> k \<longrightarrow> length (m_dir m') < length (m_dir m)"
  shows "fs_get_mount (q @ 0 # x) s = Inr ((int k, cstr ''/''), s)"
  by (rule sibling_mount [OF assms])

theorem mount_swallows_siblings_witness:
  "fs_get_mount (bytes_of ''/devices/x'' @ 0 # []) two_mounts = Inr ((1, cstr ''/''), two_mounts)"
  using mount_swallows_siblings [OF two_mounts_full two_mounts_ok dev_at_1 _ _ _ dev_deepest, of "bytes_of ''/devices/x''" 105 "bytes_of ''ces/x''" "[]"]
  by (simp add: two_mounts_dir bytes_of_def cstring_def)

end
