(* ===== verification/Dev.thy ===== *)
theory Dev
  imports Fd Snprintf KList
begin

text \<open>
  \<^verbatim>\<open>dev/dev.c\<close>, \<^verbatim>\<open>dev/name.c\<close> and \<^verbatim>\<open>dev/char.c\<close>: the array of devices, their names, and
  the dispatch to the operations of a character device. A device structure of a driver is known by
  its address (\<open>type_specific\<close>); the operations of a driver are functions on the state of the
  hardware. The structures of the block layer are declared here and used in \<open>Block\<close>.
\<close>

section \<open>State\<close>

definition DEV_TYPE_CHAR :: u8 where "DEV_TYPE_CHAR = 1"
definition DEV_TYPE_BLOCK :: u8 where "DEV_TYPE_BLOCK = 2"
definition DEV_TYPE_NET :: u8 where "DEV_TYPE_NET = 3"

record dev =
  dev_name :: bytes
  dev_kind :: u8
  type_specific :: nat

record dev_fd =
  dfd_data :: nat

record 'd dev_char_ops =
  cop_open :: "(int \<Rightarrow> dev_fd \<Rightarrow> 'd \<Rightarrow> (int \<times> dev_fd \<times> 'd) res) option"
  cop_read :: "(int \<Rightarrow> dev_fd \<Rightarrow> int \<Rightarrow> 'd \<Rightarrow> (int \<times> bytes \<times> dev_fd \<times> 'd) res) option"
  cop_write :: "(int \<Rightarrow> dev_fd \<Rightarrow> bytes \<Rightarrow> int \<Rightarrow> 'd \<Rightarrow> (int \<times> dev_fd \<times> 'd) res) option"
  cop_close :: "(int \<Rightarrow> dev_fd \<Rightarrow> 'd \<Rightarrow> (dev_fd \<times> 'd) res) option"
  cop_ioctl :: "(int \<Rightarrow> dev_fd \<Rightarrow> int \<Rightarrow> bytes \<Rightarrow> 'd \<Rightarrow> (int \<times> bytes \<times> dev_fd \<times> 'd) res) option"

record 'd dev_char =
  char_id :: int
  char_worker :: int
  char_ops :: "'d dev_char_ops"

datatype blk_rq_type = BLK_INIT | BLK_READ | BLK_WRITE | BLK_RELEASE | BLK_IOCTL

record blk_request =
  rq_type :: blk_rq_type
  rq_sector :: u64
  rq_count :: u16
  rq_buffer :: bytes
  rq_response :: int
  rq_thread :: int
  rq_done :: bool
  rq_next :: "nat option"

record 'd dev_block_ops =
  bop_init :: "(int \<Rightarrow> 'd \<Rightarrow> (int \<times> 'd) res) option"
  bop_read :: "(int \<Rightarrow> u64 \<Rightarrow> u16 \<Rightarrow> 'd \<Rightarrow> (int \<times> bytes \<times> 'd) res) option"
  bop_write :: "(int \<Rightarrow> u64 \<Rightarrow> u16 \<Rightarrow> bytes \<Rightarrow> 'd \<Rightarrow> (int \<times> 'd) res) option"
  bop_release :: "(int \<Rightarrow> 'd \<Rightarrow> (int \<times> 'd) res) option"

record 'd dev_block =
  blk_id :: int
  initialized :: bool
  burst_max :: u16
  total_sectors :: u32
  sector_size :: u32
  io_queue :: "nat option"
  last_brq :: "nat option"
  block_ops :: "'d dev_block_ops"
  proxy_to :: "nat option"
  proxy_offset :: u64

record dev_incr =
  pattern :: bytes
  letter :: u8

record 'd devsys =
  dev_array :: "dev rcparray"
  dev_incrementations :: "dev_incr klist"
  chars :: "nat \<rightharpoonup> 'd dev_char"
  blocks :: "nat \<rightharpoonup> 'd dev_block"
  frames_on_stack :: "nat \<rightharpoonup> blk_request"
  hw :: 'd

section \<open>The device array\<close>

definition dev_register :: "dev \<Rightarrow> 'd devsys \<Rightarrow> int \<times> 'd devsys" where
  "dev_register d s = (case rcparray_add (dev_array s) d of (i, a) \<Rightarrow> (int i, s\<lparr>dev_array := a\<rparr>))"

definition dev_current_amount :: "'d devsys \<Rightarrow> int" where
  "dev_current_amount s = int (length (rcparray_foreach (dev_array s)))"

definition dev_exists :: "int \<Rightarrow> 'd devsys \<Rightarrow> bool \<times> 'd devsys" where
  "dev_exists i s =
     (case rcparray_get (dev_array s) (to_size_t i) of
        (None, a) \<Rightarrow> (False, s\<lparr>dev_array := a\<rparr>)
      | (Some d, a) \<Rightarrow> (True, s\<lparr>dev_array := rcparray_unref a (to_size_t i)\<rparr>))"

definition dev_type :: "int \<Rightarrow> 'd devsys \<Rightarrow> int \<times> 'd devsys" where
  "dev_type i s =
     (case rcparray_get (dev_array s) (to_size_t i) of
        (None, a) \<Rightarrow> (- 1, s\<lparr>dev_array := a\<rparr>)
      | (Some d, a) \<Rightarrow> (uint (dev_kind d), s\<lparr>dev_array := rcparray_unref a (to_size_t i)\<rparr>))"

text \<open>The names in the array are terminated (\<open>snprintf\<close> stores them), so the comparison does not fault.\<close>

definition dev_name2id :: "bytes \<Rightarrow> 'd devsys \<Rightarrow> int \<times> 'd devsys" where
  "dev_name2id name s =
     (case rcparray_find (dev_array s) (\<lambda>d. strcmp (dev_name d) name = Inr 0) of
        (None, a) \<Rightarrow> (- ENODEV, s\<lparr>dev_array := a\<rparr>)
      | (Some (i, d), a) \<Rightarrow> (int i, s\<lparr>dev_array := rcparray_unref a i\<rparr>))"

definition dev_id2name :: "int \<Rightarrow> bytes \<Rightarrow> 'd devsys \<Rightarrow> ((int \<times> bytes) \<times> 'd devsys) res" where
  "dev_id2name i buffer s =
     (case rcparray_get (dev_array s) (to_size_t i) of
        (None, a) \<Rightarrow> Inr ((- 1, buffer), s\<lparr>dev_array := a\<rparr>)
      | (Some d, a) \<Rightarrow>
          if length buffer < 32 \<or> length (dev_name d) < 32 then Inl OutOfBounds
          else Inr ((0, blit buffer 0 (take 32 (dev_name d))), s\<lparr>dev_array := rcparray_unref a (to_size_t i)\<rparr>))"

section \<open>Numbered names\<close>

text \<open>
  The search for the pattern among the known ones: its position in the chain. The stored copy has
  eight bytes in a block of the heap.
\<close>

fun find_pattern :: "bytes \<Rightarrow> dev_incr klist_entry list \<Rightarrow> nat option res" where
  "find_pattern pat [] = Inr None"
| "find_pattern pat (e # es) =
     bindR (strcmp (pattern (data e)) pat) (\<lambda>c. if c = 0 then Inr (Some 0) else mapR (map_option Suc) (find_pattern pat es))"

fun fill_name :: "bytes \<Rightarrow> u8 \<Rightarrow> nat \<Rightarrow> bytes \<Rightarrow> bytes res" where
  "fill_name [] c i buffer = Inl OutOfBounds"
| "fill_name (p # pat) c i buffer =
     (if p = 0 then updR buffer i 0
      else bindR (updR buffer i (if p = 64 then c else p)) (fill_name pat c (Suc i)))"

definition dev_name_inc :: "bytes \<Rightarrow> bytes \<Rightarrow> 'd devsys \<Rightarrow> (bytes \<times> 'd devsys) res" where
  "dev_name_inc pat buffer s =
     (let l = dev_incrementations s
      in bindR (find_pattern pat (chain l)) (\<lambda>r. case r of
           None \<Rightarrow>
             if length pat < 8 then Inl OutOfBounds
             else let l' = snd (klist_set l (count l + 1) (Some \<lparr>pattern = blit (kblock 8) 0 (take 8 pat), letter = 97\<rparr>))
                  in mapR (\<lambda>b. (b, s\<lparr>dev_incrementations := l'\<rparr>)) (fill_name pat 97 0 buffer)
         | Some k \<Rightarrow>
             let e = chain l ! k; c = letter (data e) + 1;
                 l' = l\<lparr>chain := (chain l)[k := e\<lparr>data := (data e)\<lparr>letter := c\<rparr>\<rparr>]\<rparr>
             in mapR (\<lambda>b. (b, s\<lparr>dev_incrementations := l'\<rparr>)) (fill_name pat c 0 buffer)))"

section \<open>Character devices\<close>

definition named_dev :: "bytes \<Rightarrow> u8 \<Rightarrow> nat \<Rightarrow> dev res" where
  "named_dev name kind addr =
     mapR (\<lambda>(_, b). \<lparr>dev_name = b, dev_kind = kind, type_specific = addr\<rparr>)
       (snprintf (replicate 32 0) 32 (cstr ''%s'') [AStr name])"

definition dev_register_char :: "bytes \<Rightarrow> nat \<Rightarrow> 'd devsys \<Rightarrow> (int \<times> 'd devsys) res" where
  "dev_register_char name addr s =
     bindR (named_dev name DEV_TYPE_CHAR addr) (\<lambda>d.
       case chars s addr of
         None \<Rightarrow> Inl NullDeref
       | Some c \<Rightarrow> Inr (dev_register d (s\<lparr>chars := (chars s)(addr \<mapsto> c\<lparr>char_worker := - 1\<rparr>)\<rparr>)))"

definition dev_char_get :: "int \<Rightarrow> 'd devsys \<Rightarrow> ('d dev_char option \<times> 'd devsys) res" where
  "dev_char_get i s =
     (case rcparray_get (dev_array s) (to_size_t i) of
        (None, a) \<Rightarrow> Inr (None, s\<lparr>dev_array := a\<rparr>)
      | (Some d, a) \<Rightarrow>
          if dev_kind d \<noteq> DEV_TYPE_CHAR then Inr (None, s\<lparr>dev_array := rcparray_unref a (to_size_t i)\<rparr>)
          else case chars s (type_specific d) of
                 None \<Rightarrow> Inl NullDeref
               | Some c \<Rightarrow> Inr (Some c, s\<lparr>dev_array := a\<rparr>))"

definition dev_char_unref :: "int \<Rightarrow> 'd devsys \<Rightarrow> 'd devsys" where
  "dev_char_unref i s = s\<lparr>dev_array := rcparray_unref (dev_array s) (to_size_t i)\<rparr>"

text \<open>The frame of the operations: get the device, run an operation of the driver, release it.\<close>

definition with_char :: "int \<Rightarrow> 'r \<Rightarrow> ('d dev_char \<Rightarrow> 'd \<Rightarrow> ('r \<times> 'd) res) \<Rightarrow> 'd devsys \<Rightarrow> ('r \<times> 'd devsys) res" where
  "with_char i none f s =
     bindR (dev_char_get i s) (\<lambda>(c, s1). case c of
         None \<Rightarrow> Inr (none, s1)
       | Some dc \<Rightarrow> mapR (\<lambda>(r, w). (r, dev_char_unref i (s1\<lparr>hw := w\<rparr>))) (f dc (hw s1)))"

definition dev_char_open :: "int \<Rightarrow> dev_fd \<Rightarrow> 'd devsys \<Rightarrow> ((int \<times> dev_fd) \<times> 'd devsys) res" where
  "dev_char_open i dfd = with_char i (- ENODEV, dfd) (\<lambda>c w.
     call (cop_open (char_ops c)) (\<lambda>f. mapR (\<lambda>(r, d, w'). ((r, d), w')) (f (char_id c) dfd w)))"

definition dev_char_read :: "int \<Rightarrow> dev_fd \<Rightarrow> int \<Rightarrow> 'd devsys \<Rightarrow> ((int \<times> bytes \<times> dev_fd) \<times> 'd devsys) res" where
  "dev_char_read i dfd len = with_char i (- ENODEV, [], dfd) (\<lambda>c w.
     case cop_read (char_ops c) of
       None \<Rightarrow> Inr ((- ENOSYS, [], dfd), w)
     | Some f \<Rightarrow> mapR (\<lambda>(r, b, d, w'). ((r, b, d), w')) (f (char_id c) dfd len w))"

definition dev_char_write :: "int \<Rightarrow> dev_fd \<Rightarrow> bytes \<Rightarrow> int \<Rightarrow> 'd devsys \<Rightarrow> ((int \<times> dev_fd) \<times> 'd devsys) res" where
  "dev_char_write i dfd buffer len = with_char i (- ENODEV, dfd) (\<lambda>c w.
     case cop_write (char_ops c) of
       None \<Rightarrow> Inr ((- ENOSYS, dfd), w)
     | Some f \<Rightarrow> mapR (\<lambda>(r, d, w'). ((r, d), w')) (f (char_id c) dfd buffer len w))"

definition dev_char_close :: "int \<Rightarrow> dev_fd \<Rightarrow> 'd devsys \<Rightarrow> ((int \<times> dev_fd) \<times> 'd devsys) res" where
  "dev_char_close i dfd = with_char i (- ENODEV, dfd) (\<lambda>c w.
     call (cop_close (char_ops c)) (\<lambda>f. mapR (\<lambda>(d, w'). ((0, d), w')) (f (char_id c) dfd w)))"

definition dev_char_ioctl ::
    "int \<Rightarrow> dev_fd \<Rightarrow> int \<Rightarrow> bytes \<Rightarrow> 'd devsys \<Rightarrow> ((int \<times> bytes \<times> dev_fd) \<times> 'd devsys) res" where
  "dev_char_ioctl i dfd code mem = with_char i (- ENODEV, mem, dfd) (\<lambda>c w.
     case cop_ioctl (char_ops c) of
       None \<Rightarrow> Inr ((- ENOSYS, mem, dfd), w)
     | Some f \<Rightarrow> mapR (\<lambda>(r, b, d, w'). ((r, b, d), w')) (f (char_id c) dfd code mem w))"

section \<open>Looking devices up\<close>

lemma quiet_Cons: "quiet (x # a) \<longleftrightarrow> (\<forall>sl. x = Some sl \<longrightarrow> present sl \<and> refs sl = 1) \<and> quiet a"
  by (auto simp: quiet_def nth_Cons less_Suc_eq_0_disj split: nat.splits)

lemma open_at_Cons [simp]: "open_at (x # a) (Suc i) = open_at a i" "open_at (x # a) 0 = map_option val x"
  by (simp_all add: open_at_def)

lemma find_loop_Some:
  assumes "quiet a" and "rcparray_find_loop a P = Some i"
  shows "\<exists>v. open_at a i = Some v \<and> P v \<and> (\<forall>j < i. \<forall>v. open_at a j = Some v \<longrightarrow> \<not> P v)"
  using assms
proof (induction a arbitrary: i)
  case (Cons x a)
  have q: "quiet a" using Cons.prems(1) by (simp add: quiet_Cons)
  show ?case
  proof (cases "x \<noteq> None \<and> P (val (the x))")
    case True
    then have "i = 0" using Cons.prems by (auto simp: quiet_Cons)
    then show ?thesis using True by auto
  next
    case False
    then obtain k where k: "rcparray_find_loop a P = Some k" "i = Suc k" using Cons.prems(2) by (cases x) auto
    from Cons.IH [OF q k(1)] False show ?thesis unfolding k(2)
      by (auto simp: less_Suc_eq_0_disj)
  qed
qed simp

lemma find_loop_None:
  assumes "quiet a" and "rcparray_find_loop a P = None"
  shows "open_at a j = Some v \<Longrightarrow> \<not> P v"
  using assms
proof (induction a arbitrary: j)
  case Nil
  then show ?case by (simp add: open_at_def)
next
  case (Cons x a)
  then show ?case by (cases x; cases j) (auto simp: quiet_Cons split: if_splits)
qed

lemma quiet_find:
  assumes "quiet a"
  shows "(\<exists>i v a'. rcparray_find a P = (Some (i, v), a') \<and> rcparray_unref a' i = a \<and> open_at a i = Some v \<and> P v \<and>
      (\<forall>j < i. \<forall>w. open_at a j = Some w \<longrightarrow> \<not> P w)) \<or>
    rcparray_find a P = (None, a) \<and> (\<forall>j v. open_at a j = Some v \<longrightarrow> \<not> P v)"
proof (cases "rcparray_find_loop a P")
  case None
  then show ?thesis using find_loop_None [OF assms None] by (simp add: rcparray_find_def)
next
  case (Some i)
  obtain v where v: "open_at a i = Some v" "P v" "\<forall>j < i. \<forall>w. open_at a j = Some w \<longrightarrow> \<not> P w"
    using find_loop_Some [OF assms Some] by (elim exE conjE) (rule that)
  obtain a' where "rcparray_get a i = (Some v, a')" "rcparray_unref a' i = a" by (rule quiet_get_Some [OF assms v(1)])
  then show ?thesis using Some v by (simp add: rcparray_find_def)
qed

text \<open>The name of a device as a C string.\<close>

definition name_of :: "dev \<Rightarrow> bytes" where
  "name_of d = takeWhile (\<lambda>c. c \<noteq> 0) (dev_name d)"

definition named_ok :: "dev \<Rightarrow> bool" where
  "named_ok d \<longleftrightarrow> length (dev_name d) = 32 \<and> 0 \<in> set (dev_name d)"

lemma takeWhile_terminated: "0 \<in> set (xs :: bytes) \<Longrightarrow> \<exists>r. xs = takeWhile (\<lambda>c. c \<noteq> 0) xs @ 0 # r"
proof (induction xs)
  case (Cons x xs)
  then show ?case by (cases "x = 0") auto
qed simp

lemma cstring_takeWhile [simp]: "cstring (takeWhile (\<lambda>c. c \<noteq> 0) xs)"
  by (auto simp: cstring_def dest: set_takeWhileD)

lemma strcmp_takeWhile:
  assumes "0 \<in> set xs" and "cstring t"
  shows "strcmp xs (t @ 0 # y) = Inr 0 \<longleftrightarrow> takeWhile (\<lambda>c. c \<noteq> 0) xs = t"
proof -
  obtain r where "xs = takeWhile (\<lambda>c. c \<noteq> 0) xs @ 0 # r" using takeWhile_terminated [OF assms(1)] by blast
  then show ?thesis using strcmp_terminated [OF _ assms(2), of "takeWhile (\<lambda>c. c \<noteq> 0) xs" r y] by simp
qed

lemma strcmp_dev_name: "named_ok d \<Longrightarrow> cstring n \<Longrightarrow> strcmp (dev_name d) (n @ 0 # y) = Inr 0 \<longleftrightarrow> name_of d = n"
  by (simp add: named_ok_def name_of_def strcmp_takeWhile)

definition devs_ok :: "'d devsys \<Rightarrow> bool" where
  "devs_ok s \<longleftrightarrow> quiet (dev_array s) \<and> (\<forall>i d. open_at (dev_array s) i = Some d \<longrightarrow> named_ok d)"

lemma named_dev_short:
  assumes "cstring n" and "length n < 32"
  shows "\<exists>d. named_dev (n @ 0 # y) k addr = Inr d \<and> named_ok d \<and> name_of d = n \<and> dev_kind d = k \<and> type_specific d = addr"
proof -
  have "takeWhile (\<lambda>c. c \<noteq> 0) (n @ 0 # replicate (31 - length n) 0) = n"
    using assms(1) by (subst takeWhile_append2) (auto simp: cstring_def)
  moreover have "blit (replicate 32 0) 0 (n @ [0]) = n @ 0 # replicate (31 - length n) 0"
    using assms(2) by (simp add: blit_def)
  ultimately show ?thesis
    using assms snprintf_cut [OF render_one [OF assms(1)], of 32 "replicate 32 0" y]
    by (simp add: named_dev_def named_ok_def name_of_def)
qed

lemma dev_name2id_spec:
  assumes "devs_ok s" and "cstring n"
  shows "(\<exists>i d. dev_name2id (n @ 0 # y) s = (int i, s) \<and> open_at (dev_array s) i = Some d \<and> name_of d = n \<and>
      (\<forall>j < i. \<forall>e. open_at (dev_array s) j = Some e \<longrightarrow> name_of e \<noteq> n)) \<or>
    dev_name2id (n @ 0 # y) s = (- ENODEV, s) \<and> (\<forall>j d. open_at (dev_array s) j = Some d \<longrightarrow> name_of d \<noteq> n)"
proof -
  have q: "quiet (dev_array s)" and n: "open_at (dev_array s) i = Some d \<Longrightarrow> named_ok d" for i d
    using assms(1) by (auto simp: devs_ok_def)
  have c: "open_at (dev_array s) i = Some d \<Longrightarrow> strcmp (dev_name d) (n @ 0 # y) = Inr 0 \<longleftrightarrow> name_of d = n" for i d
    using n strcmp_dev_name assms(2) by blast
  from quiet_find [OF q, of "\<lambda>d. strcmp (dev_name d) (n @ 0 # y) = Inr 0"] show ?thesis
  proof (elim disjE exE conjE)
    fix i v a'
    assume a: "rcparray_find (dev_array s) (\<lambda>d. strcmp (dev_name d) (n @ 0 # y) = Inr 0) = (Some (i, v), a')"
      "rcparray_unref a' i = dev_array s" "open_at (dev_array s) i = Some v" "strcmp (dev_name v) (n @ 0 # y) = Inr 0"
      "\<forall>j < i. \<forall>w. open_at (dev_array s) j = Some w \<longrightarrow> strcmp (dev_name w) (n @ 0 # y) \<noteq> Inr 0"
    show ?thesis using a c by (intro disjI1 exI [of _ i] exI [of _ v]) (simp add: dev_name2id_def)
  next
    assume "rcparray_find (dev_array s) (\<lambda>d. strcmp (dev_name d) (n @ 0 # y) = Inr 0) = (None, dev_array s)"
      "\<forall>j v. open_at (dev_array s) j = Some v \<longrightarrow> strcmp (dev_name v) (n @ 0 # y) \<noteq> Inr 0"
    then show ?thesis using c by (intro disjI2) (simp add: dev_name2id_def)
  qed
qed

section \<open>Numbered names\<close>

definition stored :: "dev_incr klist_entry \<Rightarrow> bytes" where
  "stored e = takeWhile (\<lambda>c. c \<noteq> 0) (pattern (data e))"

definition incr_ok :: "dev_incr klist \<Rightarrow> bool" where
  "incr_ok l \<longleftrightarrow> (\<forall>e \<in> set (chain l). index e \<le> count l \<and> 0 \<in> set (pattern (data e)))"

lemma find_pattern_None:
  assumes "\<forall>e \<in> set es. 0 \<in> set (pattern (data e)) \<and> stored e \<noteq> p" and "cstring p"
  shows "find_pattern (p @ 0 # r) es = Inr None"
  using assms
proof (induction es)
  case (Cons e es)
  obtain t where t: "pattern (data e) = stored e @ 0 # t"
    using takeWhile_terminated [of "pattern (data e)"] Cons.prems(1) by (auto simp: stored_def)
  moreover have "cstring (stored e)" by (simp add: stored_def)
  ultimately obtain k where "strcmp (pattern (data e)) (p @ 0 # r) = Inr k" "k \<noteq> 0"
    using strcmp_ex [of "stored e" p t r] strcmp_terminated [of "stored e" p t r] Cons.prems by auto
  then show ?case using Cons by simp
qed simp

lemma find_pattern_Some:
  assumes "\<forall>e \<in> set es. 0 \<in> set (pattern (data e)) \<and> stored e \<noteq> p" and "cstring p"
    and "0 \<in> set (pattern (data e))" and "stored e = p"
  shows "find_pattern (p @ 0 # r) (es @ e # fs) = Inr (Some (length es))"
  using assms(1)
proof (induction es)
  case Nil
  then show ?case using assms(2-4) strcmp_takeWhile [of "pattern (data e)" p r] by (simp add: stored_def)
next
  case (Cons x es)
  have "find_pattern (p @ 0 # r) [x] = Inr None" using Cons.prems assms(2) by (intro find_pattern_None) auto
  then obtain k where "strcmp (pattern (data x)) (p @ 0 # r) = Inr k" "k \<noteq> 0"
    by (cases "strcmp (pattern (data x)) (p @ 0 # r)") (auto split: if_splits)
  then show ?case using Cons by simp
qed

lemma fill_name_blit:
  assumes "cstring p" and "i + length p < length buffer"
  shows "fill_name (p @ 0 # r) c i buffer = Inr (blit buffer i (map (\<lambda>x. if x = 64 then c else x) p @ [0]))"
  using assms
proof (induction p arbitrary: i buffer)
  case Nil
  then show ?case by (simp add: blit_def list_update_append_drop)
next
  case (Cons x p)
  let ?m = "map (\<lambda>x. if x = 64 then c else x)"
  have "blit (buffer[i := (if x = 64 then c else x)]) (Suc i) (?m p @ [0]) = blit buffer i (?m (x # p) @ [0])"
    using Cons.prems by (intro nth_equalityI) (auto simp: nth_blit nth_list_update nth_Cons' not_less less_Suc_eq_le)
  then show ?case using Cons.prems Cons.IH [of "Suc i" "buffer[i := (if x = 64 then c else x)]"] by (simp add: cstring_def)
qed

lemma klist_set_loop_new:
  "idx \<notin> index ` set es \<Longrightarrow> klist_set_loop es idx (Some p) = (False, 1, es @ [\<lparr>index = idx, data = p\<rparr>])"
  by (induction es) auto

lemma name_inc_first:
  assumes "incr_ok (dev_incrementations s)" and "\<forall>e \<in> set (chain (dev_incrementations s)). stored e \<noteq> p"
    and "cstring p" and "length p < 8" and "8 \<le> length (p @ 0 # r)" and "length p < length buffer"
  shows "\<exists>l' e. dev_name_inc (p @ 0 # r) buffer s =
      Inr (blit buffer 0 (map (\<lambda>x. if x = 64 then 97 else x) p @ [0]), s\<lparr>dev_incrementations := l'\<rparr>) \<and> incr_ok l' \<and>
      chain l' = chain (dev_incrementations s) @ [e] \<and> stored e = p \<and> letter (data e) = 97"
proof -
  let ?l = "dev_incrementations s"
  define e where "e = \<lparr>index = count ?l + 1, data = \<lparr>pattern = blit (kblock 8) 0 (take 8 (p @ 0 # r)), letter = 97\<rparr>\<rparr>"
  have pe: "pattern (data e) = p @ 0 # take (7 - length p) r @ replicate 8 0"
  proof -
    have "8 - length p = Suc (7 - length p)" using assms(4) by simp
    then have "take 8 (p @ 0 # r) = p @ 0 # take (7 - length p) r" using assms(4) by simp
    moreover have "length (p @ 0 # take (7 - length p) r) = 8" using assms(4,5) by simp
    ultimately show ?thesis by (simp add: e_def blit_def kblock_def)
  qed
  have st: "stored e = p" unfolding stored_def pe using assms(3) by (subst takeWhile_append2) (auto simp: cstring_def)
  have f: "find_pattern (p @ 0 # r) (chain ?l) = Inr None"
    using assms(1-3) by (intro find_pattern_None) (auto simp: incr_ok_def)
  have "count ?l + 1 \<notin> index ` set (chain ?l)" using assms(1) by (auto simp: incr_ok_def)
  then have k: "snd (klist_set ?l (count ?l + 1) (Some (data e))) = \<lparr>count = count ?l + 1, chain = chain ?l @ [e]\<rparr>"
    by (simp add: klist_set_def klist_set_loop_new e_def)
  have "incr_ok \<lparr>count = count ?l + 1, chain = chain ?l @ [e]\<rparr>"
    using assms(1) by (auto simp: incr_ok_def pe) (simp add: e_def)
  moreover have "dev_name_inc (p @ 0 # r) buffer s = Inr (blit buffer 0 (map (\<lambda>x. if x = 64 then 97 else x) p @ [0]),
      s\<lparr>dev_incrementations := \<lparr>count = count ?l + 1, chain = chain ?l @ [e]\<rparr>\<rparr>)"
    unfolding dev_name_inc_def Let_def f using assms(3-6) k by (simp add: fill_name_blit e_def)
  ultimately show ?thesis using st by (intro exI conjI) (auto simp: e_def)
qed

lemma name_inc_next:
  assumes "chain (dev_incrementations s) = xs @ [e]" and "incr_ok (dev_incrementations s)" and "\<forall>x \<in> set xs. stored x \<noteq> p"
    and "stored e = p" and "cstring p" and "length p < length buffer"
  shows "\<exists>l' e'. dev_name_inc (p @ 0 # r) buffer s =
      Inr (blit buffer 0 (map (\<lambda>x. if x = 64 then letter (data e) + 1 else x) p @ [0]), s\<lparr>dev_incrementations := l'\<rparr>) \<and>
      incr_ok l' \<and> chain l' = xs @ [e'] \<and> stored e' = p \<and> letter (data e') = letter (data e) + 1"
proof -
  let ?l = "dev_incrementations s" and ?c = "letter (data e) + 1"
  define e' where "e' = e\<lparr>data := (data e)\<lparr>letter := ?c\<rparr>\<rparr>"
  have ok: "\<forall>x \<in> set xs. 0 \<in> set (pattern (data x))" "0 \<in> set (pattern (data e))" using assms(1,2) by (auto simp: incr_ok_def)
  have f: "find_pattern (p @ 0 # r) (chain ?l) = Inr (Some (length xs))"
    unfolding assms(1) using ok assms(3-5) by (intro find_pattern_Some) auto
  have nth: "chain ?l ! length xs = e" by (simp add: assms(1))
  have "incr_ok (?l\<lparr>chain := xs @ [e']\<rparr>)" using assms(1,2) by (auto simp: incr_ok_def e'_def)
  moreover have "dev_name_inc (p @ 0 # r) buffer s = Inr (blit buffer 0 (map (\<lambda>x. if x = 64 then ?c else x) p @ [0]),
      s\<lparr>dev_incrementations := ?l\<lparr>chain := xs @ [e']\<rparr>\<rparr>)"
    unfolding dev_name_inc_def Let_def f bindR_simps option.case nth by (simp add: assms(1,5,6) fill_name_blit e'_def)
  moreover have "stored e' = p" using assms(4) by (simp add: stored_def e'_def)
  ultimately show ?thesis by (intro exI conjI) (auto simp: e'_def)
qed

text \<open>Asking for a name several times.\<close>

fun inc_names :: "nat \<Rightarrow> bytes \<Rightarrow> bytes \<Rightarrow> 'd devsys \<Rightarrow> (bytes list \<times> 'd devsys) res" where
  "inc_names 0 pat buffer s = Inr ([], s)"
| "inc_names (Suc n) pat buffer s =
     bindR (dev_name_inc pat buffer s) (\<lambda>(b, s1). mapR (\<lambda>(bs, s2). (b # bs, s2)) (inc_names n pat buffer s1))"

definition numbered :: "bytes \<Rightarrow> u8 \<Rightarrow> bytes" where
  "numbered p c = map (\<lambda>x. if x = 64 then c else x) p"

lemma inc_names_next:
  assumes "chain (dev_incrementations s) = xs @ [e]" and "incr_ok (dev_incrementations s)" and "\<forall>x \<in> set xs. stored x \<noteq> p"
    and "stored e = p" and "cstring p" and "length p < length buffer"
  shows "\<exists>s'. inc_names n (p @ 0 # r) buffer s =
      Inr (map (\<lambda>k. blit buffer 0 (numbered p (letter (data e) + 1 + of_nat k) @ [0])) [0..<n], s')"
  using assms
proof (induction n arbitrary: s e)
  case (Suc n)
  obtain l' e' where l: "dev_name_inc (p @ 0 # r) buffer s = Inr (blit buffer 0 (numbered p (letter (data e) + 1) @ [0]), s\<lparr>dev_incrementations := l'\<rparr>)"
      "incr_ok l'" "chain l' = xs @ [e']" "stored e' = p" "letter (data e') = letter (data e) + 1"
    using name_inc_next [OF Suc.prems, of r] by (auto simp: numbered_def)
  obtain s' where "inc_names n (p @ 0 # r) buffer (s\<lparr>dev_incrementations := l'\<rparr>) =
      Inr (map (\<lambda>k. blit buffer 0 (numbered p (letter (data e') + 1 + of_nat k) @ [0])) [0..<n], s')"
    using Suc.IH [of "s\<lparr>dev_incrementations := l'\<rparr>" e'] l Suc.prems by auto
  then show ?case using l(1,5) by (simp add: upt_conv_Cons map_Suc_upt [symmetric] add.assoc del: upt_Suc map_Suc_upt)
qed simp

lemma numbered_inj:
  assumes "64 \<in> set p" and "numbered p c = numbered p d"
  shows "c = d"
proof -
  obtain i where i: "i < length p" "p ! i = 64" using assms(1) by (auto simp: in_set_conv_nth)
  have "numbered p c ! i = numbered p d ! i" using assms(2) by simp
  then show ?thesis using i by (simp add: numbered_def)
qed

lemma letters_inj: "inj_on (\<lambda>k. 97 + of_nat k :: u8) {0..<159}"
proof (rule inj_onI)
  fix j k :: nat
  assume jk: "j \<in> {0..<159}" "k \<in> {0..<159}" and "97 + of_nat j = (97 + of_nat k :: u8)"
  then have "unat (of_nat j :: u8) = unat (of_nat k :: u8)" by simp
  then show "j = k" using jk by (simp add: unat_of_nat)
qed

lemma letter_nonzero: "k < 159 \<Longrightarrow> 97 + of_nat k \<noteq> (0 :: u8)"
proof
  assume k: "k < 159" and "97 + of_nat k = (0 :: u8)"
  then have "of_nat (97 + k) = (0 :: u8)" by simp
  then have "(97 + k) mod 2 ^ LENGTH(8) = 0" unfolding unat_of_nat [symmetric] by (simp only: unat_0)
  then show False using k by simp
qed

lemma dev_name2id_unique:
  assumes "devs_ok s" and "cstring n" and "open_at (dev_array s) i = Some d" and "name_of d = n"
    and "\<forall>j < i. \<forall>e. open_at (dev_array s) j = Some e \<longrightarrow> name_of e \<noteq> n"
  shows "dev_name2id (n @ 0 # y) s = (int i, s)"
  using dev_name2id_spec [OF assms(1,2), of y]
proof (elim disjE exE conjE)
  fix k e
  assume k: "dev_name2id (n @ 0 # y) s = (int k, s)" "open_at (dev_array s) k = Some e" "name_of e = n"
    "\<forall>j < k. \<forall>e. open_at (dev_array s) j = Some e \<longrightarrow> name_of e \<noteq> n"
  have "\<not> i < k" using k(4) assms(3,4) by blast
  moreover have "\<not> k < i" using assms(5) k(2,3) by blast
  ultimately show ?thesis using k(1) by simp
next
  assume "\<forall>j d. open_at (dev_array s) j = Some d \<longrightarrow> name_of d \<noteq> n"
  then show ?thesis using assms(3,4) by blast
qed

lemma dev_name2id_keep:
  assumes "devs_ok s" and "devs_ok s'" and "dev_array s' = a'" and "open_at a' = (open_at (dev_array s))(i \<mapsto> d)"
    and "open_at (dev_array s) i = None" and "cstring m" and "name_of d \<noteq> m"
  shows "dev_name2id (m @ 0 # y) s' = (fst (dev_name2id (m @ 0 # y) s), s')"
  using dev_name2id_spec [OF assms(1,6), of y]
proof (elim disjE exE conjE)
  fix k e
  assume k: "dev_name2id (m @ 0 # y) s = (int k, s)" "open_at (dev_array s) k = Some e" "name_of e = m"
    "\<forall>j < k. \<forall>e. open_at (dev_array s) j = Some e \<longrightarrow> name_of e \<noteq> m"
  have "dev_name2id (m @ 0 # y) s' = (int k, s')"
    using k assms(3-5,7) by (intro dev_name2id_unique [OF assms(2,6)]) auto
  with k(1) show ?thesis by simp
next
  assume k: "dev_name2id (m @ 0 # y) s = (- ENODEV, s)" "\<forall>j d. open_at (dev_array s) j = Some d \<longrightarrow> name_of d \<noteq> m"
  then have "\<forall>j d. open_at (dev_array s') j = Some d \<longrightarrow> name_of d \<noteq> m" using assms(3,4,7) by auto
  with dev_name2id_spec [OF assms(2,6), of y] have "dev_name2id (m @ 0 # y) s' = (- ENODEV, s')" by auto
  with k(1) show ?thesis by simp
qed

section \<open>Properties\<close>

text \<open>
  Registering a character device under a new name of less than 32 bytes makes the name known: its
  number is the name's number from then on, the number gives the name and the type back, every
  other name keeps its number or stays unknown, and nothing else of the array changes.
\<close>

theorem dev_register_roundtrip:
  assumes "devs_ok s" and "cstring n" and "length n < 32" and "chars s addr = Some c"
    and "\<forall>j d. open_at (dev_array s) j = Some d \<longrightarrow> name_of d \<noteq> n" and "length (dev_array s) < 2 ^ 63"
    and "32 \<le> length buf"
  shows "\<exists>i s' d. dev_register_char (n @ 0 # y) addr s = Inr (int i, s') \<and> devs_ok s' \<and>
    open_at (dev_array s') = (open_at (dev_array s))(i \<mapsto> d) \<and> open_at (dev_array s) i = None \<and>
    type_specific d = addr \<and> dev_name2id (n @ 0 # z) s' = (int i, s') \<and>
    dev_id2name (int i) buf s' = Inr ((0, blit buf 0 (dev_name d)), s') \<and> name_of d = n \<and>
    dev_type (int i) s' = (1, s') \<and>
    (\<forall>m. cstring m \<longrightarrow> m \<noteq> n \<longrightarrow> dev_name2id (m @ 0 # z) s' = (fst (dev_name2id (m @ 0 # z) s), s'))"
proof -
  obtain d where d: "named_dev (n @ 0 # y) DEV_TYPE_CHAR addr = Inr d" "named_ok d" "name_of d = n"
      "dev_kind d = DEV_TYPE_CHAR" "type_specific d = addr"
    using named_dev_short [OF assms(2,3), of y DEV_TYPE_CHAR addr] by (elim exE conjE) (rule that)
  obtain i a where a: "rcparray_add (dev_array s) d = (i, a)" by fastforce
  have q: "quiet (dev_array s)" using assms(1) by (simp add: devs_ok_def)
  note qa = quiet_add [OF q a]
  have i: "to_size_t (int i) = i" using qa(5) assms(6) by (intro to_size_t_of_nat) simp
  define s' where "s' = s\<lparr>chars := (chars s)(addr \<mapsto> c\<lparr>char_worker := - 1\<rparr>), dev_array := a\<rparr>"
  have s': "dev_array s' = a" "s'\<lparr>dev_array := a\<rparr> = s'" by (simp_all add: s'_def)
  have ok: "devs_ok s'" using assms(1) qa(1,2) d(2) by (auto simp: devs_ok_def s' split: if_splits)
  have o: "open_at a i = Some d" using qa(2) by simp
  obtain a' where g: "rcparray_get a i = (Some d, a')" "rcparray_unref a' i = a" by (rule quiet_get_Some [OF qa(1) o])
  have "dev_register_char (n @ 0 # y) addr s = Inr (int i, s')"
    using a by (simp add: dev_register_char_def d(1) assms(4) dev_register_def s'_def)
  moreover have "dev_name2id (n @ 0 # z) s' = (int i, s')"
    using o d(3) qa(2) assms(5) by (intro dev_name2id_unique [OF ok assms(2)]) (auto simp: s' split: if_splits)
  moreover have "dev_id2name (int i) buf s' = Inr ((0, blit buf 0 (dev_name d)), s')"
    using g i d(2) assms(7) by (simp add: dev_id2name_def s' named_ok_def)
  moreover have "dev_type (int i) s' = (1, s')" using g i d(4) by (simp add: dev_type_def s' DEV_TYPE_CHAR_def)
  moreover have "dev_name2id (m @ 0 # z) s' = (fst (dev_name2id (m @ 0 # z) s), s')" if "cstring m" "m \<noteq> n" for m
    using that d(3) by (intro dev_name2id_keep [OF assms(1) ok s'(1) qa(2,3)]) auto
  ultimately show ?thesis using ok qa(2,3) d(3,5) s'(1) by (intro exI [of _ i] exI [of _ s'] exI [of _ d]) simp
qed

theorem dev_register_roundtrip_witness:
  "\<exists>i s'. dev_register_char (bytes_of ''null'' @ 0 # []) 5
      \<lparr>dev_array = [], dev_incrementations = klist_init, chars = [5 \<mapsto> \<lparr>char_id = 0, char_worker = 3,
        char_ops = \<lparr>cop_open = None, cop_read = None, cop_write = None, cop_close = None, cop_ioctl = None\<rparr>\<rparr>],
       blocks = Map.empty, frames_on_stack = Map.empty, hw = ()\<rparr> = Inr (int i, s') \<and>
     dev_name2id (bytes_of ''null'' @ 0 # []) s' = (int i, s')"
proof -
  let ?c = "\<lparr>char_id = 0, char_worker = 3,
        char_ops = \<lparr>cop_open = None, cop_read = None, cop_write = None, cop_close = None, cop_ioctl = None\<rparr>\<rparr>"
  let ?s = "\<lparr>dev_array = [], dev_incrementations = klist_init, chars = [5 \<mapsto> ?c],
       blocks = Map.empty, frames_on_stack = Map.empty, hw = ()\<rparr>"
  have "devs_ok ?s" "cstring (bytes_of ''null'')" "length (bytes_of ''null'') < 32" "chars ?s 5 = Some ?c"
    "\<forall>j d. open_at (dev_array ?s) j = Some d \<longrightarrow> name_of d \<noteq> bytes_of ''null''" "length (dev_array ?s) < 2 ^ 63"
    "32 \<le> length (replicate 32 (0 :: u8))"
    by (simp_all add: devs_ok_def quiet_def open_at_def cstring_def bytes_of_def)
  from dev_register_roundtrip [OF this, of "[]" "[]"] show ?thesis by (elim exE conjE) (intro exI conjI)
qed

text \<open>
  Asking for names with a pattern of less than eight bytes that has a placeholder gives, for up to
  159 devices, the names with the letters from \<open>a\<close> on in order, without a fault, and all of them
  are different strings.
\<close>

theorem dev_names_numbered:
  assumes "incr_ok (dev_incrementations s)" and "\<forall>e \<in> set (chain (dev_incrementations s)). stored e \<noteq> p"
    and "cstring p" and "length p < 8" and "8 \<le> length (p @ 0 # r)" and "length p < length buffer"
    and "64 \<in> set p" and "n \<le> 159"
  shows "(\<exists>s'. inc_names n (p @ 0 # r) buffer s =
      Inr (map (\<lambda>k. blit buffer 0 (numbered p (97 + of_nat k) @ [0])) [0..<n], s')) \<and>
    distinct (map (\<lambda>k. numbered p (97 + of_nat k)) [0..<n]) \<and> (\<forall>k < n. cstring (numbered p (97 + of_nat k)))"
proof (intro conjI)
  show "distinct (map (\<lambda>k. numbered p (97 + of_nat k)) [0..<n])"
    unfolding distinct_map
  proof (intro conjI inj_onI)
    fix j k
    assume jk: "j \<in> set [0..<n]" "k \<in> set [0..<n]" and "numbered p (97 + of_nat j) = numbered p (97 + of_nat k)"
    then have "97 + of_nat j = (97 + of_nat k :: u8)" by (intro numbered_inj [OF assms(7)])
    then show "j = k" by (rule inj_onD [OF letters_inj]) (use jk assms(8) in auto)
  qed simp
  show "\<forall>k < n. cstring (numbered p (97 + of_nat k))"
  proof (intro allI impI)
    fix k assume "k < n"
    then have "97 + of_nat k \<noteq> (0 :: u8)" using letter_nonzero assms(8) by simp
    then show "cstring (numbered p (97 + of_nat k))" using assms(3) by (auto simp: cstring_def numbered_def)
  qed
  show "\<exists>s'. inc_names n (p @ 0 # r) buffer s =
      Inr (map (\<lambda>k. blit buffer 0 (numbered p (97 + of_nat k) @ [0])) [0..<n], s')"
  proof (cases n)
    case (Suc m)
    obtain l' e where l: "dev_name_inc (p @ 0 # r) buffer s = Inr (blit buffer 0 (numbered p 97 @ [0]), s\<lparr>dev_incrementations := l'\<rparr>)"
        "incr_ok l'" "chain l' = chain (dev_incrementations s) @ [e]" "stored e = p" "letter (data e) = 97"
      using name_inc_first [OF assms(1-6)] by (auto simp: numbered_def)
    obtain s' where "inc_names m (p @ 0 # r) buffer (s\<lparr>dev_incrementations := l'\<rparr>) =
        Inr (map (\<lambda>k. blit buffer 0 (numbered p (97 + 1 + of_nat k) @ [0])) [0..<m], s')"
      using inc_names_next [of "s\<lparr>dev_incrementations := l'\<rparr>", OF _ _ assms(2) l(4) assms(3,6), of m r] l by auto
    then show ?thesis using l(1) Suc
      by (simp add: upt_conv_Cons map_Suc_upt [symmetric] add.assoc [symmetric] del: upt_Suc map_Suc_upt)
  qed simp
qed

theorem dev_names_numbered_witness:
  "\<exists>s'. inc_names 2 (bytes_of ''sd@'' @ 0 # replicate 5 9) (replicate 4 7)
      \<lparr>dev_array = [], dev_incrementations = klist_init, chars = Map.empty, blocks = Map.empty, frames_on_stack = Map.empty, hw = ()\<rparr> =
     Inr ([bytes_of ''sda'' @ [0], bytes_of ''sdb'' @ [0]], s')"
proof -
  let ?s = "\<lparr>dev_array = [], dev_incrementations = klist_init, chars = Map.empty, blocks = Map.empty, frames_on_stack = Map.empty, hw = ()\<rparr>"
  have "incr_ok (dev_incrementations ?s)" "\<forall>e \<in> set (chain (dev_incrementations ?s)). stored e \<noteq> bytes_of ''sd@''"
    "cstring (bytes_of ''sd@'')" "length (bytes_of ''sd@'') < 8" "8 \<le> length (bytes_of ''sd@'' @ 0 # replicate 5 (9 :: u8))"
    "length (bytes_of ''sd@'') < length (replicate 4 (7 :: u8))" "64 \<in> set (bytes_of ''sd@'')" "(2 :: nat) \<le> 159"
    by (simp_all add: klist_init_def incr_ok_def cstring_def bytes_of_def)
  from dev_names_numbered [OF this] obtain s' where s': "inc_names 2 (bytes_of ''sd@'' @ 0 # replicate 5 9) (replicate 4 7) ?s =
      Inr (map (\<lambda>k. blit (replicate 4 7) 0 (numbered (bytes_of ''sd@'') (97 + of_nat k) @ [0])) [0..<2], s')"
    by (elim conjE exE) (rule that)
  have "map (\<lambda>k. blit (replicate 4 7) 0 (numbered (bytes_of ''sd@'') (97 + of_nat k) @ [0])) [0..<2] =
      [bytes_of ''sda'' @ [0], bytes_of ''sdb'' @ [0]]"
    by (simp add: numbered_def bytes_of_def blit_def upt_rec)
  with s' show ?thesis by (intro exI [of _ s']) simp
qed

end
