(* ===== verification/Block.thy ===== *)
theory Block
  imports Dev
begin

text \<open>
  \<^verbatim>\<open>dev/block.c\<close>: block devices. A request lives in the stack frame of the thread that waits
  for it and is linked to the next one; the worker thread of the device serves the head of the queue.
  A waiting thread polls its request, which here is running the worker until the request is done; a
  wait that never ends is the fault \<open>Hang\<close>. What the process layer answers about the process of a
  requester is the argument \<open>alive\<close>, the address of a request on its stack the argument \<open>fr\<close>.
\<close>

section \<open>The worker\<close>

definition BLK_MAX_BYTES_PER_RQ :: nat where "BLK_MAX_BYTES_PER_RQ = 65536"

text \<open>The switch on the type: the response, the buffer, the initialized flag and the hardware.\<close>

definition blk_serve :: "'d dev_block \<Rightarrow> blk_request \<Rightarrow> 'd \<Rightarrow> (int \<times> bytes \<times> bool \<times> 'd) res" where
  "blk_serve blk q w =
     (case rq_type q of
        BLK_INIT \<Rightarrow>
          if initialized blk then Inr (- EPERM, rq_buffer q, True, w)
          else (case bop_init (block_ops blk) of
                  None \<Rightarrow> Inr (- ENOSYS, rq_buffer q, False, w)
                | Some f \<Rightarrow> mapR (\<lambda>(r, w'). (r, rq_buffer q, 0 \<le> r, w')) (f (blk_id blk) w))
      | BLK_READ \<Rightarrow> call (bop_read (block_ops blk)) (\<lambda>f.
          bindR (f (blk_id blk) (rq_sector q) (rq_count q) w) (\<lambda>(r, b, w').
            if length (rq_buffer q) < length b then Inl OutOfBounds
            else Inr (r, blit (rq_buffer q) 0 b, initialized blk, w')))
      | BLK_WRITE \<Rightarrow> call (bop_write (block_ops blk)) (\<lambda>f.
          mapR (\<lambda>(r, w'). (r, rq_buffer q, initialized blk, w'))
            (f (blk_id blk) (rq_sector q) (rq_count q) (rq_buffer q) w))
      | BLK_RELEASE \<Rightarrow>
          if \<not> initialized blk then Inr (- EPERM, rq_buffer q, False, w)
          else (case bop_release (block_ops blk) of
                  None \<Rightarrow> Inr (- ENOSYS, rq_buffer q, True, w)
                | Some f \<Rightarrow> mapR (\<lambda>(r, w'). (r, rq_buffer q, \<not> 0 \<le> r, w')) (f (blk_id blk) w))
      | BLK_IOCTL \<Rightarrow> Inr (0, rq_buffer q, initialized blk, w))"

text \<open>
  One round of \<open>blk_worker\<close>: \<open>False\<close> when the queue is empty and the worker waits. A request of
  a process that is gone is answered without being served.
\<close>

definition blk_worker :: "(int \<Rightarrow> bool) \<Rightarrow> nat \<Rightarrow> 'd devsys \<Rightarrow> (bool \<times> 'd devsys) res" where
  "blk_worker alive b s =
     (case blocks s b of
        None \<Rightarrow> Inl NullDeref
      | Some blk \<Rightarrow> (case io_queue blk of
          None \<Rightarrow> Inr (False, s)
        | Some r \<Rightarrow> (case frames_on_stack s r of
            None \<Rightarrow> Inl NullDeref
          | Some q \<Rightarrow>
              if \<not> alive (rq_thread q)
              then Inr (True, s\<lparr>frames_on_stack := (frames_on_stack s)(r \<mapsto> q\<lparr>rq_response := - EINTR, rq_done := True\<rparr>),
                     blocks := (blocks s)(b \<mapsto> blk\<lparr>io_queue := rq_next q\<rparr>)\<rparr>)
              else mapR (\<lambda>(resp, buf, ini, w).
                     (True, s\<lparr>frames_on_stack := (frames_on_stack s)(r \<mapsto> q\<lparr>rq_buffer := buf, rq_response := resp, rq_done := True\<rparr>),
                        blocks := (blocks s)(b \<mapsto> blk\<lparr>initialized := ini, io_queue := rq_next q\<rparr>), hw := w\<rparr>))
                   (blk_serve blk q (hw s)))))"

section \<open>Requests\<close>

text \<open>Linking a request behind the last one.\<close>

definition blk_enqueue :: "nat \<Rightarrow> nat \<Rightarrow> blk_request \<Rightarrow> 'd devsys \<Rightarrow> 'd devsys res" where
  "blk_enqueue b fr q s =
     (case blocks s b of
        None \<Rightarrow> Inl NullDeref
      | Some blk \<Rightarrow>
          let fs = (frames_on_stack s)(fr \<mapsto> q)
          in case io_queue blk of
               None \<Rightarrow> Inr (s\<lparr>frames_on_stack := fs, blocks := (blocks s)(b \<mapsto> blk\<lparr>io_queue := Some fr, last_brq := Some fr\<rparr>)\<rparr>)
             | Some _ \<Rightarrow> (case last_brq blk of
                 None \<Rightarrow> Inl NullDeref
               | Some l \<Rightarrow> (case fs l of
                   None \<Rightarrow> Inl NullDeref
                 | Some ql \<Rightarrow> Inr (s\<lparr>frames_on_stack := fs(l \<mapsto> ql\<lparr>rq_next := Some fr\<rparr>),
                       blocks := (blocks s)(b \<mapsto> blk\<lparr>last_brq := Some fr\<rparr>)\<rparr>))))"

partial_function (option) wait_done :: "(int \<Rightarrow> bool) \<Rightarrow> nat \<Rightarrow> nat \<Rightarrow> 'd devsys \<Rightarrow> 'd devsys res option" where
  "wait_done alive b fr s =
     (case frames_on_stack s fr of
        None \<Rightarrow> Some (Inl NullDeref)
      | Some q \<Rightarrow>
          if rq_done q then Some (Inr s)
          else (case blk_worker alive b s of
                  Inl e \<Rightarrow> Some (Inl e)
                | Inr (_, s') \<Rightarrow> wait_done alive b fr s'))"

definition returned :: "'a res option \<Rightarrow> 'a res" where
  "returned m = (case m of None \<Rightarrow> Inl Hang | Some r \<Rightarrow> r)"

lemma returned_simps [simp]: "returned None = Inl Hang" "returned (Some r) = r"
  by (simp_all add: returned_def)

text \<open>Enqueue, wake the worker, wait, and leave the frame with the response and the buffer.\<close>

definition blk_submit :: "(int \<Rightarrow> bool) \<Rightarrow> nat \<Rightarrow> nat \<Rightarrow> blk_request \<Rightarrow> 'd devsys \<Rightarrow> (int \<times> bytes \<times> 'd devsys) res" where
  "blk_submit alive fr b q s =
     bindR (blk_enqueue b fr q s) (\<lambda>s1.
     bindR (returned (wait_done alive b fr s1)) (\<lambda>s2.
       case frames_on_stack s2 fr of
         None \<Rightarrow> Inl NullDeref
       | Some q' \<Rightarrow> Inr (rq_response q', rq_buffer q', s2\<lparr>frames_on_stack := (frames_on_stack s2)(fr := None)\<rparr>)))"

definition new_request :: "blk_rq_type \<Rightarrow> u64 \<Rightarrow> u16 \<Rightarrow> bytes \<Rightarrow> int \<Rightarrow> blk_request" where
  "new_request t sector cnt buffer th =
     \<lparr>rq_type = t, rq_sector = sector, rq_count = cnt, rq_buffer = buffer, rq_response = 0, rq_thread = th,
      rq_done = False, rq_next = None\<rparr>"

section \<open>Operations\<close>

definition dev_register_block :: "bytes \<Rightarrow> nat \<Rightarrow> 'd devsys \<Rightarrow> (int \<times> 'd devsys) res" where
  "dev_register_block name addr s = mapR (\<lambda>d. dev_register d s) (named_dev name DEV_TYPE_BLOCK addr)"

definition dev_block_get :: "int \<Rightarrow> 'd devsys \<Rightarrow> nat option \<times> 'd devsys" where
  "dev_block_get i s =
     (case rcparray_get (dev_array s) (to_size_t i) of
        (None, a) \<Rightarrow> (None, s\<lparr>dev_array := a\<rparr>)
      | (Some d, a) \<Rightarrow>
          if dev_kind d \<noteq> DEV_TYPE_BLOCK then (None, s\<lparr>dev_array := rcparray_unref a (to_size_t i)\<rparr>)
          else (Some (type_specific d), s\<lparr>dev_array := a\<rparr>))"

definition dev_block_unref :: "int \<Rightarrow> 'd devsys \<Rightarrow> 'd devsys" where
  "dev_block_unref i s = s\<lparr>dev_array := rcparray_unref (dev_array s) (to_size_t i)\<rparr>"

text \<open>The device a proxy stands for.\<close>

definition blk_target :: "nat \<Rightarrow> 'd devsys \<Rightarrow> (nat \<times> 'd dev_block) res" where
  "blk_target b s =
     (case blocks s b of
        None \<Rightarrow> Inl NullDeref
      | Some blk \<Rightarrow> (case proxy_to blk of
          None \<Rightarrow> Inr (b, blk)
        | Some b' \<Rightarrow> (case blocks s b' of None \<Rightarrow> Inl NullDeref | Some blk' \<Rightarrow> Inr (b', blk'))))"

definition dev_block_init :: "(int \<Rightarrow> bool) \<Rightarrow> nat \<Rightarrow> int \<Rightarrow> int \<Rightarrow> 'd devsys \<Rightarrow> (int \<times> 'd devsys) res" where
  "dev_block_init alive fr th i s =
     (case dev_block_get i s of
        (None, s1) \<Rightarrow> Inr (- ENODEV, s1)
      | (Some b0, s1) \<Rightarrow> bindR (blk_target b0 s1) (\<lambda>(b, blk).
          if initialized blk then Inr (- EPERM, dev_block_unref i s1)
          else mapR (\<lambda>(r, _, s2). (r, dev_block_unref i s2)) (blk_submit alive fr b (new_request BLK_INIT 0 0 [] th) s1)))"

definition queue_io_wait ::
    "(int \<Rightarrow> bool) \<Rightarrow> nat \<Rightarrow> int \<Rightarrow> nat \<Rightarrow> u64 \<Rightarrow> u16 \<Rightarrow> bytes \<Rightarrow> bool \<Rightarrow> 'd devsys \<Rightarrow> (int \<times> bytes \<times> 'd devsys) res" where
  "queue_io_wait alive fr th b sector cnt buffer wr s =
     blk_submit alive fr b (new_request (if wr then BLK_WRITE else BLK_READ) sector cnt buffer th) s"

text \<open>
  The loop of \<open>dev_block_read\<close>: \<open>sc\<close> sectors left from sector \<open>cs\<close> on, \<open>off\<close> the offset in
  the first one, \<open>at\<close> the bytes already stored. The number of sectors of a round is a 16 bit number,
  the number of bytes to copy a 32 bit one, cut off at the length asked for and not at what is left.
\<close>

definition burst_of :: "u16 \<Rightarrow> nat \<Rightarrow> nat \<Rightarrow> nat" where
  "burst_of bm ss n = min (min n (unat bm)) (BLK_MAX_BYTES_PER_RQ div ss)"

partial_function (option) read_loop ::
    "(int \<Rightarrow> bool) \<Rightarrow> nat \<Rightarrow> int \<Rightarrow> nat \<Rightarrow> nat \<Rightarrow> u16 \<Rightarrow> nat \<Rightarrow> nat \<Rightarrow> nat \<Rightarrow> nat \<Rightarrow> bytes \<Rightarrow> bytes \<Rightarrow> nat \<Rightarrow> 'd devsys \<Rightarrow>
     (int \<times> bytes \<times> 'd devsys) res option" where
  "read_loop alive fr th b ss bm len sc cs off bouncer buffer at s =
     (if sc = 0 then Some (Inr (0, buffer, s))
      else let burst = burst_of bm ss (sc mod 2 ^ 16)
           in case queue_io_wait alive fr th b (of_nat cs) (of_nat burst) bouncer False s of
                Inl e \<Rightarrow> Some (Inl e)
              | Inr (ret, bouncer', s') \<Rightarrow>
                  if ret < 0 then Some (Inr (ret, buffer, s'))
                  else let copy_len = min ((burst * ss + 2 ^ 32 - off) mod 2 ^ 32) len
                       in if off + copy_len \<le> length bouncer' \<and> at + copy_len \<le> length buffer
                          then read_loop alive fr th b ss bm len (sc - burst) ((cs + burst) mod 2 ^ 32) 0 bouncer'
                                 (blit buffer at (take copy_len (drop off bouncer'))) (at + copy_len) s'
                          else Some (Inl OutOfBounds))"

definition dev_block_read ::
    "(int \<Rightarrow> bool) \<Rightarrow> nat \<Rightarrow> int \<Rightarrow> int \<Rightarrow> bytes \<Rightarrow> u64 \<Rightarrow> nat \<Rightarrow> 'd devsys \<Rightarrow> (int \<times> bytes \<times> 'd devsys) res" where
  "dev_block_read alive fr th i buffer pos0 len s =
     (if len = 0 then Inr (0, buffer, s)
      else case dev_block_get i s of
        (None, s1) \<Rightarrow> Inr (- ENODEV, buffer, s1)
      | (Some b0, s1) \<Rightarrow> bindR (blk_target b0 s1) (\<lambda>(b, blk).
          let off0 = (case blocks s1 b0 of None \<Rightarrow> 0 | Some blk0 \<Rightarrow> if proxy_to blk0 = None then 0 else proxy_offset blk0 * 512);
              p = unat (pos0 + off0)
          in bindR (if initialized blk then Inr s1 else mapR snd (dev_block_init alive fr th i s1)) (\<lambda>s2.
               if bop_read (block_ops blk) = None then Inr (- ENOSYS, buffer, dev_block_unref i s2)
               else let ss = unat (sector_size blk)
                    in if ss = 0 then Inl (Panic ''division by zero'')
                       else let off = p mod ss; cs = (p div ss) mod 2 ^ 32;
                                sc = (((off + len + (ss - 1)) mod 2 ^ 64) div ss) mod 2 ^ 32;
                                bouncer = kblock ((burst_of (burst_max blk) ss sc * ss) mod 2 ^ 32)
                            in mapR (\<lambda>(r, buf, s3). (r, buf, if r < 0 then s3 else dev_block_unref i s3))
                                 (returned (read_loop alive fr th b ss (burst_max blk) len sc cs off bouncer buffer 0 s2)))))"

definition dev_block_release :: "(int \<Rightarrow> bool) \<Rightarrow> nat \<Rightarrow> int \<Rightarrow> int \<Rightarrow> 'd devsys \<Rightarrow> (int \<times> 'd devsys) res" where
  "dev_block_release alive fr th i s =
     (case dev_block_get i s of
        (None, s1) \<Rightarrow> Inr (- ENODEV, s1)
      | (Some b0, s1) \<Rightarrow> bindR (blk_target b0 s1) (\<lambda>(b, blk).
          if \<not> initialized blk then Inr (- EPERM, dev_block_unref i s1)
          else mapR (\<lambda>(r, _, s2). (r, dev_block_unref i s2)) (blk_submit alive fr b (new_request BLK_RELEASE 0 0 [] th) s1)))"

section \<open>Reading from an idle device\<close>

text \<open>The state after a request on an idle device: the queue is empty again and the last request is dangling.\<close>

definition served :: "nat \<Rightarrow> 'd dev_block \<Rightarrow> nat \<Rightarrow> 'd \<Rightarrow> 'd devsys \<Rightarrow> 'd devsys" where
  "served b blk fr w s = s\<lparr>blocks := (blocks s)(b \<mapsto> blk\<lparr>io_queue := None, last_brq := Some fr\<rparr>), hw := w\<rparr>"

lemma submit_idle:
  assumes "blocks s b = Some blk" and "io_queue blk = None" and "frames_on_stack s fr = None" and "alive (rq_thread q)"
    and "\<not> rq_done q" and "rq_next q = None" and "blk_serve (blk\<lparr>io_queue := Some fr, last_brq := Some fr\<rparr>) q (hw s) = Inr (r, buf, ini, w)"
  shows "blk_submit alive fr b q s = Inr (r, buf, served b (blk\<lparr>initialized := ini\<rparr>) fr w s)"
proof -
  let ?blk = "blk\<lparr>io_queue := Some fr, last_brq := Some fr\<rparr>"
  let ?s1 = "s\<lparr>frames_on_stack := (frames_on_stack s)(fr \<mapsto> q), blocks := (blocks s)(b \<mapsto> ?blk)\<rparr>"
  let ?q = "q\<lparr>rq_buffer := buf, rq_response := r, rq_done := True\<rparr>"
  let ?s2 = "s\<lparr>frames_on_stack := (frames_on_stack s)(fr \<mapsto> ?q),
      blocks := (blocks s)(b \<mapsto> ?blk\<lparr>initialized := ini, io_queue := None\<rparr>), hw := w\<rparr>"
  have e: "blk_enqueue b fr q s = Inr ?s1" using assms(1,2) by (simp add: blk_enqueue_def Let_def)
  have w: "blk_worker alive b ?s1 = Inr (True, ?s2)" using assms(4,6,7) by (simp add: blk_worker_def)
  have "wait_done alive b fr ?s1 = wait_done alive b fr ?s2"
    by (subst wait_done.simps) (simp add: assms(5) w)
  also have "\<dots> = Some (Inr ?s2)" by (subst wait_done.simps) simp
  finally have wd: "wait_done alive b fr ?s1 = Some (Inr ?s2)" .
  have "(frames_on_stack s)(fr := None) = frames_on_stack s" using assms(3) by auto
  moreover have "blk\<lparr>initialized := ini, io_queue := None, last_brq := Some fr\<rparr> = ?blk\<lparr>initialized := ini, io_queue := None\<rparr>"
    by (rule dev_block.equality) simp_all
  then have "served b (blk\<lparr>initialized := ini\<rparr>) fr w s =
      s\<lparr>blocks := (blocks s)(b \<mapsto> ?blk\<lparr>initialized := ini, io_queue := None\<rparr>), hw := w\<rparr>"
    by (simp only: served_def)
  ultimately show ?thesis by (simp add: blk_submit_def e wd)
qed

text \<open>What a driver's read operation promises: the sectors of an image, while the hardware is in order.\<close>

definition serves :: "('d \<Rightarrow> bool) \<Rightarrow> bytes \<Rightarrow> 'd dev_block \<Rightarrow> bool" where
  "serves I img blk \<longleftrightarrow> (\<exists>rd. bop_read (block_ops blk) = Some rd \<and>
     (\<forall>w sector cnt. I w \<longrightarrow> (unat sector + unat cnt) * unat (sector_size blk) \<le> length img \<longrightarrow>
        (\<exists>r w'. 0 \<le> r \<and> I w' \<and> rd (blk_id blk) sector cnt w =
           Inr (r, take (unat cnt * unat (sector_size blk)) (drop (unat sector * unat (sector_size blk)) img), w'))))"

lemma read_request:
  assumes "blocks s b = Some blk" and "io_queue blk = None" and "frames_on_stack s fr = None" and "alive th"
    and "serves I img blk" and "I (hw s)" and "(unat sector + unat cnt) * unat (sector_size blk) \<le> length img"
    and "unat cnt * unat (sector_size blk) \<le> length bouncer"
  shows "\<exists>r w. 0 \<le> r \<and> I w \<and> queue_io_wait alive fr th b sector cnt bouncer False s =
     Inr (r, blit bouncer 0 (take (unat cnt * unat (sector_size blk)) (drop (unat sector * unat (sector_size blk)) img)),
       served b blk fr w s)"
proof -
  obtain rd where rd: "bop_read (block_ops blk) = Some rd"
    and "\<forall>w sector cnt. I w \<longrightarrow> (unat sector + unat cnt) * unat (sector_size blk) \<le> length img \<longrightarrow>
        (\<exists>r w'. 0 \<le> r \<and> I w' \<and> rd (blk_id blk) sector cnt w =
           Inr (r, take (unat cnt * unat (sector_size blk)) (drop (unat sector * unat (sector_size blk)) img), w'))"
    using assms(5) unfolding serves_def by (elim exE conjE) (rule that)
  from this(2) [rule_format, OF assms(6,7)] obtain r w where r: "0 \<le> r" "I w" "rd (blk_id blk) sector cnt (hw s) =
      Inr (r, take (unat cnt * unat (sector_size blk)) (drop (unat sector * unat (sector_size blk)) img), w)"
    by (elim exE conjE) (rule that)
  define bs where "bs = take (unat cnt * unat (sector_size blk)) (drop (unat sector * unat (sector_size blk)) img)"
  have "length bs \<le> length bouncer" using assms(8) by (simp add: bs_def)
  then have "blk_serve (blk\<lparr>io_queue := Some fr, last_brq := Some fr\<rparr>) (new_request BLK_READ sector cnt bouncer th) (hw s) =
      Inr (r, blit bouncer 0 bs, initialized blk, w)"
    using rd r(3) by (simp add: blk_serve_def new_request_def bs_def [symmetric] not_less)
  from submit_idle [OF assms(1-3) _ _ _ this, of alive] assms(4)
  have "queue_io_wait alive fr th b sector cnt bouncer False s =
      Inr (r, blit bouncer 0 bs, served b (blk\<lparr>initialized := initialized blk\<rparr>) fr w s)"
    by (simp add: queue_io_wait_def new_request_def)
  moreover have "blk\<lparr>initialized := initialized blk\<rparr> = blk" by (rule dev_block.equality) simp_all
  ultimately show ?thesis using r(1,2) by (intro exI [of _ r] exI [of _ w]) (simp add: bs_def)
qed

text \<open>How many bytes the loop stores, for rounds of at most \<open>B\<close> sectors.\<close>

function kept :: "nat \<Rightarrow> nat \<Rightarrow> nat \<Rightarrow> nat \<Rightarrow> nat \<Rightarrow> nat" where
  "kept B ss len sc off =
     (if sc \<le> B \<or> B = 0 then min (sc * ss - off) len else (B * ss - off) + kept B ss len (sc - B) 0)"
  by pat_completeness auto
termination
  by (relation "measure (\<lambda>(B, ss, len, sc, off). sc)") auto

declare kept.simps [simp del]

lemma kept_bounds:
  assumes "0 < B" and "0 < sc" and "off < ss"
  shows "min (sc * ss - off) len \<le> kept B ss len sc off \<and> kept B ss len sc off \<le> sc * ss - off"
  using assms
proof (induction B ss len sc off rule: kept.induct)
  case (1 B ss len sc off)
  show ?case
  proof (cases "sc \<le> B")
    case True
    then show ?thesis by (simp add: kept.simps [of B ss len sc off])
  next
    case False
    then have k: "kept B ss len sc off = (B * ss - off) + kept B ss len (sc - B) 0" using 1(2) by (simp add: kept.simps [of B ss len sc off])
    have ih: "min ((sc - B) * ss) len \<le> kept B ss len (sc - B) 0" "kept B ss len (sc - B) 0 \<le> (sc - B) * ss"
      using 1(1) [OF _ 1(2)] False 1(2,4) by simp_all
    define x y where "x = B * ss" and "y = (sc - B) * ss"
    have "ss \<le> x" using 1(2) by (simp add: x_def)
    moreover have "sc * ss = x + y" using False by (simp add: x_def y_def add_mult_distrib [symmetric])
    ultimately show ?thesis unfolding k x_def [symmetric] using ih [folded y_def] 1(4) by (auto simp: min_def split: if_splits)
  qed
qed

lemma kept_last: "sc \<le> B \<Longrightarrow> kept B ss len sc off = min (sc * ss - off) len"
  by (simp add: kept.simps [of B ss len sc off])

lemma kept_more: "B < sc \<Longrightarrow> 0 < B \<Longrightarrow> kept B ss len sc off = (B * ss - off) + kept B ss len (sc - B) 0"
  by (simp add: kept.simps [of B ss len sc off])

lemma served_simps [simp]:
  "blocks (served b blk fr w s) b = Some (blk\<lparr>io_queue := None, last_brq := Some fr\<rparr>)"
  "hw (served b blk fr w s) = w" "frames_on_stack (served b blk fr w s) = frames_on_stack s"
  "dev_array (served b blk fr w s) = dev_array s"
  "served b (blk\<lparr>io_queue := None, last_brq := Some fr\<rparr>) fr w' (served b blk fr w s) = served b blk fr w' s"
  by (simp_all add: served_def)

lemma serves_idle [simp]: "serves I img (blk\<lparr>io_queue := x, last_brq := y\<rparr>) = serves I img blk"
  by (simp add: serves_def)

lemma read_loop_step:
  fixes len :: nat
  assumes "blocks s b = Some blk" and "io_queue blk = None" and "frames_on_stack s fr = None" and "alive th"
    and "serves I img blk" and "I (hw s)" and "ss = unat (sector_size blk)" and "bm = burst_max blk"
    and "0 < B" and "B = min (unat bm) (65536 div ss)" and "0 < sc" and "sc < 65536" and "off < ss"
    and "(cs + sc) * ss \<le> length img" and "cs + sc < 2 ^ 32" and "min sc B * ss \<le> length bouncer"
  defines "m \<equiv> min sc B" and "c \<equiv> min (min sc B * ss - off) len"
  shows "\<exists>w bouncer'. I w \<and> length bouncer' = length bouncer \<and>
    read_loop alive fr th b ss bm len sc cs off bouncer buffer at s =
      (if at + c \<le> length buffer
       then read_loop alive fr th b ss bm len (sc - m) (cs + m) 0 bouncer'
              (blit buffer at (take c (drop (cs * ss + off) img))) (at + c) (served b blk fr w s)
       else Some (Inl OutOfBounds))"
proof -
  have m: "0 < m" "m \<le> sc" "m < 65536" "burst_of bm ss (sc mod 2 ^ 16) = m"
    using assms(9-12) by (auto simp: m_def burst_of_def BLK_MAX_BYTES_PER_RQ_def min.assoc)
  have u: "unat (of_nat m :: u16) = m" "unat (of_nat cs :: u64) = cs"
    using m(3) assms(15) by (simp_all add: unat_of_nat)
  have "m * ss \<le> B * ss" by (simp add: m_def)
  also have "\<dots> \<le> 65536 div ss * ss" using assms(10) by (intro mult_le_mono1) simp
  also have "\<dots> \<le> 65536" by simp
  finally have mss: "m * ss \<le> 65536" .
  have "ss \<le> m * ss" using m(1) by simp
  then have off: "off \<le> m * ss" using assms(13) by linarith
  have cm: "(cs + m) * ss \<le> length img"
    using assms(14) m(2) by (meson add_left_mono mult_le_mono1 order_trans)
  define bs where "bs = take (m * ss) (drop (cs * ss) img)"
  have lbs: "length bs = m * ss" using cm by (simp add: bs_def add_mult_distrib)
  have mb: "m * ss \<le> length bouncer" using assms(16) by (simp add: m_def)
  note rq = read_request [where alive = alive and th = th and I = I, OF assms(1-6), of "of_nat cs" "of_nat m" bouncer,
      unfolded u assms(7) [symmetric], OF cm mb]
  obtain r w where r: "0 \<le> r" "I w" "queue_io_wait alive fr th b (of_nat cs) (of_nat m) bouncer False s =
      Inr (r, blit bouncer 0 bs, served b blk fr w s)"
    using rq [folded bs_def] by (elim exE conjE) (rule that)
  have lb: "length (blit bouncer 0 bs) = length bouncer" using lbs mb by simp
  have nr: "(r < 0) = False" "(sc = 0) = False" using r(1) assms(11) by simp_all
  have cl: "(m * ss + 2 ^ 32 - off) mod 2 ^ 32 = m * ss - off"
  proof -
    have "m * ss + 2 ^ 32 - off = (m * ss - off) + 2 ^ 32" using off by (rule diff_add_assoc2)
    moreover have "m * ss - off \<le> 65536" using mss by linarith
    then have "m * ss - off < 2 ^ 32" by (rule le_less_trans) simp
    ultimately show ?thesis by (simp only: mod_add_self2 mod_less)
  qed
  have cc: "min (m * ss - off) len = c" by (simp add: c_def m_def)
  have oc: "off + c \<le> length (blit bouncer 0 bs)" unfolding lb using off assms(16) by (simp add: c_def m_def)
  have "(cs + m) mod 2 ^ 32 = cs + m" using assms(15) m(2) by simp
  moreover have "take c (drop off (blit bouncer 0 bs)) = take c (drop (cs * ss + off) img)"
  proof -
    have "c + off \<le> m * ss" using off by (simp add: c_def m_def)
    then have "take c (drop off (blit bouncer 0 bs)) = take c (drop off bs)"
      using lbs by (simp add: blit_def)
    also have "\<dots> = take c (drop (cs * ss + off) img)"
      using \<open>c + off \<le> m * ss\<close> by (simp add: bs_def drop_take min_def add.commute)
    finally show ?thesis .
  qed
  ultimately have "read_loop alive fr th b ss bm len sc cs off bouncer buffer at s =
      (if at + c \<le> length buffer
       then read_loop alive fr th b ss bm len (sc - m) (cs + m) 0 (blit bouncer 0 bs)
              (blit buffer at (take c (drop (cs * ss + off) img))) (at + c) (served b blk fr w s)
       else Some (Inl OutOfBounds))"
    using oc
    by (subst read_loop.simps) (simp only: Let_def m(4) r(3) sum.case prod.case cl cc nr if_False if_True simp_thms)
  then show ?thesis using r(2) lb by (intro exI [of _ w] exI [of _ "blit bouncer 0 bs"] conjI)
qed

lemma blit_join:
  assumes "at + n \<le> length buffer" and "length (take n xs) = n" and "at + n + length ys \<le> length buffer"
  shows "blit (blit buffer at (take n xs)) (at + n) ys = blit buffer at (take n xs @ ys)"
  using blit_blit [of at "take n xs" ys buffer] assms by simp

lemma read_loop_stores:
  fixes len :: nat
  assumes "blocks s b = Some blk" and "io_queue blk = None" and "frames_on_stack s fr = None" and "alive th"
    and "serves I img blk" and "I (hw s)" and "ss = unat (sector_size blk)" and "bm = burst_max blk"
    and "0 < B" and "B = min (unat bm) (65536 div ss)" and "0 < sc" and "sc < 65536" and "off < ss"
    and "(sc - 1) * ss < off + len" and "(cs + sc) * ss \<le> length img" and "cs + sc < 2 ^ 32"
    and "min sc B * ss \<le> length bouncer" and "at \<le> length buffer"
  shows "if at + kept B ss len sc off \<le> length buffer
    then \<exists>w. I w \<and> read_loop alive fr th b ss bm len sc cs off bouncer buffer at s =
      Some (Inr (0, blit buffer at (take (kept B ss len sc off) (drop (cs * ss + off) img)), served b blk fr w s))
    else read_loop alive fr th b ss bm len sc cs off bouncer buffer at s = Some (Inl OutOfBounds)"
  using assms
proof (induction sc arbitrary: s blk cs off bouncer buffer at rule: less_induct)
  case (less sc)
  note p = less.prems
  define c where "c = min (min sc B * ss - off) len"
  obtain w bouncer' where w: "I w" "length bouncer' = length bouncer"
    and step: "read_loop alive fr th b ss bm len sc cs off bouncer buffer at s =
      (if at + c \<le> length buffer
       then read_loop alive fr th b ss bm len (sc - min sc B) (cs + min sc B) 0 bouncer'
              (blit buffer at (take c (drop (cs * ss + off) img))) (at + c) (served b blk fr w s)
       else Some (Inl OutOfBounds))"
    using read_loop_step [where alive = alive and th = th and I = I and len = len and at = at and buffer = buffer,
        OF p(1-13) p(15-17), folded c_def] by (elim exE conjE) (rule that)
  show ?case
  proof (cases "sc \<le> B")
    case True
    then have k: "kept B ss len sc off = c" "sc - min sc B = 0" by (simp_all add: kept_last c_def)
    show ?thesis unfolding step k by (subst read_loop.simps) (use w(1) in auto)
  next
    case False
    define x y where "x = B * ss" and "y = (sc - B) * ss"
    have xy: "sc * ss = x + y" "ss \<le> x" "(sc - 1) * ss = x + (sc - B - 1) * ss"
      using False p(9) by (simp_all add: x_def y_def add_mult_distrib [symmetric])
    have cB: "c = B * ss - off" and min: "min sc B = B"
      using False p(13,14) xy unfolding c_def by (simp_all add: x_def [symmetric] min_def)
    have k: "kept B ss len sc off = c + kept B ss len (sc - B) 0" using False p(9) by (simp add: kept_more cB)
    show ?thesis
    proof (cases "at + c \<le> length buffer")
      case no: False
      then show ?thesis unfolding step k by simp
    next
      case room: True
      define buf where "buf = blit buffer at (take c (drop (cs * ss + off) img))"
      have img: "cs * ss + (x + y) \<le> length img" using p(15) xy(1) by (simp add: add_mult_distrib)
      have tc: "length (take c (drop (cs * ss + off) img)) = c" using img by (simp add: cB x_def)
      have lbuf: "length buf = length buffer" using room tc by (simp add: buf_def)
      let ?blk = "blk\<lparr>io_queue := None, last_brq := Some fr\<rparr>" and ?s = "served b blk fr w s"
      define n where "n = kept B ss len (sc - B) 0"
      have ih: "if at + c + n \<le> length buf
          then \<exists>w'. I w' \<and> read_loop alive fr th b ss bm len (sc - B) (cs + B) 0 bouncer' buf (at + c) ?s =
            Some (Inr (0, blit buf (at + c) (take n (drop ((cs + B) * ss + 0) img)), served b ?blk fr w' ?s))
          else read_loop alive fr th b ss bm len (sc - B) (cs + B) 0 bouncer' buf (at + c) ?s = Some (Inl OutOfBounds)"
        unfolding n_def
      proof (rule less.IH)
        show "sc - B < sc" "0 < sc - B" "sc - B < 65536" using p(9,11,12) False by linarith+
        show "(sc - B - 1) * ss < 0 + len" using p(13,14) xy by linarith
        show "(cs + B + (sc - B)) * ss \<le> length img" "cs + B + (sc - B) < 2 ^ 32" using p(15,16) False by simp_all
        have "min (sc - B) B * ss \<le> min sc B * ss" using min by (intro mult_le_mono1) simp
        then show "min (sc - B) B * ss \<le> length bouncer'" using p(17) unfolding w(2) by (rule order_trans)
      qed (use p False w room lbuf in simp_all)
      have n: "n \<le> y" using kept_bounds [of B "sc - B" 0 ss len] p(9,13) False by (simp add: n_def y_def)
      have d: "(cs + B) * ss = cs * ss + off + c" using xy(2) p(13) by (simp add: cB add_mult_distrib x_def [symmetric])
      have join: "blit buf (at + c) (take n (drop ((cs + B) * ss) img)) = blit buffer at (take (c + n) (drop (cs * ss + off) img))"
        if "at + c + n \<le> length buffer"
      proof -
        have "length (take n (drop ((cs + B) * ss) img)) \<le> n" by simp
        then have "blit buf (at + c) (take n (drop ((cs + B) * ss) img)) =
            blit buffer at (take c (drop (cs * ss + off) img) @ take n (drop ((cs + B) * ss) img))"
          unfolding buf_def using room tc that by (intro blit_join) linarith+
        also have "take c (drop (cs * ss + off) img) @ take n (drop ((cs + B) * ss) img) = take (c + n) (drop (cs * ss + off) img)"
          unfolding take_add d by (simp add: add.commute add.left_commute)
        finally show ?thesis .
      qed
      show ?thesis
        unfolding step min k n_def [symmetric] using room ih join lbuf
        by (auto simp: buf_def [symmetric] add.assoc split: if_splits)
    qed
  qed
qed

section \<open>Reading from a device\<close>

text \<open>
  The device \<open>i\<close> is an initialized disk without pending requests whose driver serves the sectors
  of \<open>img\<close>.
\<close>

definition disk_ready :: "('d \<Rightarrow> bool) \<Rightarrow> bytes \<Rightarrow> nat \<Rightarrow> nat \<Rightarrow> 'd dev_block \<Rightarrow> 'd devsys \<Rightarrow> bool" where
  "disk_ready I img i b blk s \<longleftrightarrow>
     quiet (dev_array s) \<and> i < 2 ^ 64 \<and>
     (\<exists>d. open_at (dev_array s) i = Some d \<and> dev_kind d = DEV_TYPE_BLOCK \<and> type_specific d = b) \<and>
     blocks s b = Some blk \<and> proxy_to blk = None \<and> initialized blk \<and> io_queue blk = None \<and> serves I img blk \<and> I (hw s) \<and>
     0 < unat (burst_max blk) \<and> 0 < unat (sector_size blk) \<and> unat (sector_size blk) \<le> 65536 \<and>
     unat (sector_size blk) dvd length img \<and> length img < 2 ^ 32 * unat (sector_size blk)"

definition burst_limit :: "'d dev_block \<Rightarrow> nat" where
  "burst_limit blk = min (unat (burst_max blk)) (65536 div unat (sector_size blk))"

definition sectors :: "'d dev_block \<Rightarrow> nat \<Rightarrow> nat \<Rightarrow> nat" where
  "sectors blk p len = (p mod unat (sector_size blk) + len + (unat (sector_size blk) - 1)) div unat (sector_size blk)"

lemma ceil_bounds:
  assumes "0 < (ss :: nat)" and "0 < n"
  defines "k \<equiv> (n + (ss - 1)) div ss"
  shows "n \<le> k * ss" and "(k - 1) * ss < n" and "0 < k" and "n \<le> M * ss \<Longrightarrow> k \<le> M" and "ss dvd n \<Longrightarrow> k * ss = n"
proof -
  have e: "k * ss + (n + (ss - 1)) mod ss = n + (ss - 1)" by (simp add: k_def)
  have m: "(n + (ss - 1)) mod ss < ss" using assms(1) by simp
  show k: "n \<le> k * ss" using e m by linarith
  then show pos: "0 < k" using assms(2) by (cases k) auto
  have "(k - 1) * ss + ss = k * ss" using pos by (cases k) auto
  then show "(k - 1) * ss < n" using e m assms(1) by linarith
  show "n \<le> M * ss \<Longrightarrow> k \<le> M"
  proof -
    assume "n \<le> M * ss"
    then have "n + (ss - 1) < (M + 1) * ss" using assms(1) by simp
    then show "k \<le> M" using less_mult_imp_div_less [of "n + (ss - 1)" "M + 1" ss] by (simp add: k_def)
  qed
  show "ss dvd n \<Longrightarrow> k * ss = n"
  proof -
    assume "ss dvd n"
    then obtain j where j: "n = ss * j" by (elim dvdE)
    have "(ss - 1 + j * ss) div ss = j + (ss - 1) div ss" using assms(1) by (intro div_mult_self1) simp
    then have "k = j" using assms(1) by (simp add: k_def j mult.commute add.commute)
    then show "k * ss = n" by (simp add: j mult.commute)
  qed
qed

lemma get_unref:
  assumes "disk_ready I img i b blk s"
  obtains a where "dev_block_get (int i) s = (Some b, s\<lparr>dev_array := a\<rparr>)"
    and "\<And>w. dev_block_unref (int i) (served b blk fr w (s\<lparr>dev_array := a\<rparr>)) = served b blk fr w s"
proof -
  obtain d where d: "open_at (dev_array s) i = Some d" "dev_kind d = DEV_TYPE_BLOCK" "type_specific d = b" "quiet (dev_array s)" "i < 2 ^ 64"
    using assms by (auto simp: disk_ready_def)
  obtain a where a: "rcparray_get (dev_array s) i = (Some d, a)" "rcparray_unref a i = dev_array s"
    by (rule quiet_get_Some [OF d(4,1)])
  have "dev_block_get (int i) s = (Some b, s\<lparr>dev_array := a\<rparr>)" using a(1) d by (simp add: dev_block_get_def)
  moreover have "dev_block_unref (int i) (served b blk fr w (s\<lparr>dev_array := a\<rparr>)) = served b blk fr w s" for w
    using a(2) d(5) by (simp add: dev_block_unref_def served_def)
  ultimately show thesis by (rule that)
qed

text \<open>The range of sectors that covers the bytes asked for lies on the disk.\<close>

lemma read_geometry:
  assumes "disk_ready I img i b blk s" and "0 < len" and "p + len \<le> length img"
  defines "ss \<equiv> unat (sector_size blk)" and "sc \<equiv> sectors blk p len"
  shows "p mod ss + len \<le> sc * ss" and "(sc - 1) * ss < p mod ss + len" and "0 < sc"
    and "ss dvd p + len \<Longrightarrow> sc * ss = p mod ss + len"
    and "(p div ss + sc) * ss \<le> length img" and "p div ss + sc < 2 ^ 32" and "p < 2 ^ 48" and "p mod ss + len + (ss - 1) < 2 ^ 64"
proof -
  have r: "0 < ss" "ss \<le> 65536" "ss dvd length img" "length img < 2 ^ 32 * ss"
    using assms(1) by (auto simp: disk_ready_def ss_def)
  define off cs where "off = p mod ss" and "cs = p div ss"
  have p: "cs * ss + off = p" by (simp add: cs_def off_def)
  have sc: "sc = (off + len + (ss - 1)) div ss" by (simp add: sc_def sectors_def off_def ss_def)
  have ne: "0 < off + len" using assms(2) by simp
  note cb = ceil_bounds [OF r(1) ne, folded sc]
  show "p mod ss + len \<le> sc * ss" "(sc - 1) * ss < p mod ss + len" "0 < sc" using cb(1-3) by (simp_all add: off_def)
  show "ss dvd p + len \<Longrightarrow> sc * ss = p mod ss + len"
  proof -
    assume "ss dvd p + len"
    then have "ss dvd off + len" unfolding p [symmetric] by (simp add: add.assoc)
    then show "sc * ss = p mod ss + len" using cb(5) by (simp add: off_def)
  qed
  obtain K where K: "length img = K * ss" using r(3) by (metis dvd_def mult.commute)
  have K32: "K < 2 ^ 32" using r(1,4) unfolding K by simp
  have "cs * ss + (off + len) \<le> K * ss" using assms(3) p K by simp
  then have "off + len \<le> (K - cs) * ss" by (simp add: diff_mult_distrib)
  then have "sc \<le> K - cs" by (rule cb(4))
  with cb(3) have csK: "cs + sc \<le> K" by simp
  show "(p div ss + sc) * ss \<le> length img" unfolding K cs_def [symmetric] using csK by (rule mult_le_mono1)
  show "p div ss + sc < 2 ^ 32" unfolding cs_def [symmetric] using csK K32 by (rule le_less_trans)
  have "length img < 2 ^ 48"
  proof -
    have "2 ^ 32 * ss \<le> 2 ^ 32 * 65536" using r(2) by (intro mult_le_mono2)
    also have "\<dots> = 2 ^ 48" by simp
    finally show ?thesis by (rule less_le_trans [OF r(4)])
  qed
  moreover from this have "p mod ss + len + (ss - 1) < 2 ^ 48 + 65536"
    using assms(3) r(2) mod_less_eq_dividend [of p ss] by linarith
  then show "p mod ss + len + (ss - 1) < 2 ^ 64" by (rule less_le_trans) simp
  ultimately show "p < 2 ^ 48" using assms(3) by linarith
qed

lemma block_read_unfold:
  assumes "disk_ready I img i b blk s" and "0 < len" and "p + len \<le> length img"
  defines "ss \<equiv> unat (sector_size blk)" and "sc \<equiv> sectors blk p len"
  obtains a where "dev_block_read alive fr th (int i) buffer (of_nat p) len s =
      mapR (\<lambda>(r, buf, s3). (r, buf, if r < 0 then s3 else dev_block_unref (int i) s3))
        (returned (read_loop alive fr th b ss (burst_max blk) len sc (p div ss) (p mod ss)
          (kblock (min sc (burst_limit blk) * ss)) buffer 0 (s\<lparr>dev_array := a\<rparr>)))"
    and "\<And>w. dev_block_unref (int i) (served b blk fr w (s\<lparr>dev_array := a\<rparr>)) = served b blk fr w s"
proof -
  note g = read_geometry [OF assms(1-3), folded ss_def sc_def]
  have r: "blocks s b = Some blk" "proxy_to blk = None" "initialized blk" "serves I img blk" "0 < ss"
    using assms(1) by (auto simp: disk_ready_def ss_def)
  obtain a where a: "dev_block_get (int i) s = (Some b, s\<lparr>dev_array := a\<rparr>)"
      "\<And>w. dev_block_unref (int i) (served b blk fr w (s\<lparr>dev_array := a\<rparr>)) = served b blk fr w s"
    by (rule get_unref [OF assms(1), where fr = fr]) (rule that)
  have up: "unat (of_nat p :: u64) = p" using g(7) by (simp add: unat_of_nat)
  have sc: "sc = (p mod ss + len + (ss - 1)) div ss" by (simp add: sc_def sectors_def ss_def)
  have mods: "(p mod ss + len + (ss - 1)) mod 2 ^ 64 div ss mod 2 ^ 32 = sc" "p div ss mod 2 ^ 32 = p div ss"
    unfolding mod_less [OF g(8)] sc [symmetric] using g(6) by simp_all
  have bo: "burst_of (burst_max blk) ss sc = min sc (burst_limit blk)"
    by (simp add: burst_of_def burst_limit_def BLK_MAX_BYTES_PER_RQ_def ss_def min.assoc)
  have bss: "min sc (burst_limit blk) * ss mod 2 ^ 32 = min sc (burst_limit blk) * ss"
  proof -
    have "min sc (burst_limit blk) * ss \<le> 65536 div ss * ss" by (intro mult_le_mono1) (simp add: burst_limit_def ss_def)
    also have "\<dots> \<le> 65536" by simp
    finally show ?thesis by simp
  qed
  let ?s1 = "s\<lparr>dev_array := a\<rparr>"
  have "(bop_read (block_ops blk) = None) = False" using r(4) by (auto simp: serves_def)
  moreover have "(len = 0) = False" "(ss = 0) = False" using assms(2) r(5) by simp_all
  moreover have "blk_target b ?s1 = Inr (b, blk)" "blocks ?s1 b = Some blk" using r(1,2) by (simp_all add: blk_target_def)
  ultimately have "dev_block_read alive fr th (int i) buffer (of_nat p) len s =
      mapR (\<lambda>(r, buf, s3). (r, buf, if r < 0 then s3 else dev_block_unref (int i) s3))
        (returned (read_loop alive fr th b ss (burst_max blk) len sc (p div ss) (p mod ss)
          (kblock (min sc (burst_limit blk) * ss)) buffer 0 ?s1))"
    by (simp only: dev_block_read_def a(1) prod.case option.case bindR_simps r(2,3) simp_thms if_True if_False add_0_right
        up ss_def [symmetric] mods bo bss Let_def)
  then show thesis using a(2) by (rule that)
qed

lemma burst_limit_pos: "disk_ready I img i b blk s \<Longrightarrow> 0 < burst_limit blk"
  by (auto simp: disk_ready_def burst_limit_def div_greater_zero_iff)

lemma block_read_general:
  assumes "disk_ready I img i b blk s" and "frames_on_stack s fr = None" and "alive th"
    and "0 < len" and "p + len \<le> length img" and "sectors blk p len < 65536"
  defines "n \<equiv> kept (burst_limit blk) (unat (sector_size blk)) len (sectors blk p len) (p mod unat (sector_size blk))"
  shows "if n \<le> length buffer
    then \<exists>w. I w \<and> dev_block_read alive fr th (int i) buffer (of_nat p) len s =
      Inr (0, blit buffer 0 (take n (drop p img)), served b blk fr w s)
    else dev_block_read alive fr th (int i) buffer (of_nat p) len s = Inl OutOfBounds"
proof -
  define ss sc where "ss = unat (sector_size blk)" and "sc = sectors blk p len"
  have r: "blocks s b = Some blk" "io_queue blk = None" "serves I img blk" "I (hw s)" "0 < ss"
    using assms(1) by (auto simp: disk_ready_def ss_def)
  note g = read_geometry [OF assms(1,4,5), folded ss_def sc_def]
  obtain a where run: "dev_block_read alive fr th (int i) buffer (of_nat p) len s =
      mapR (\<lambda>(r, buf, s3). (r, buf, if r < 0 then s3 else dev_block_unref (int i) s3))
        (returned (read_loop alive fr th b ss (burst_max blk) len sc (p div ss) (p mod ss)
          (kblock (min sc (burst_limit blk) * ss)) buffer 0 (s\<lparr>dev_array := a\<rparr>)))"
    and un: "\<And>w. dev_block_unref (int i) (served b blk fr w (s\<lparr>dev_array := a\<rparr>)) = served b blk fr w s"
    by (rule block_read_unfold [OF assms(1,4,5), where alive = alive and fr = fr and th = th and buffer = buffer, folded ss_def sc_def]) (rule that)
  let ?rl = "read_loop alive fr th b ss (burst_max blk) len sc (p div ss) (p mod ss)
      (kblock (min sc (burst_limit blk) * ss)) buffer 0 (s\<lparr>dev_array := a\<rparr>)"
  have "if 0 + n \<le> length buffer
      then \<exists>w. I w \<and> ?rl = Some (Inr (0, blit buffer 0 (take n (drop (p div ss * ss + p mod ss) img)), served b blk fr w (s\<lparr>dev_array := a\<rparr>)))
      else ?rl = Some (Inl OutOfBounds)"
    unfolding n_def ss_def [symmetric] sc_def [symmetric]
  proof (rule read_loop_stores)
    show "burst_limit blk = min (unat (burst_max blk)) (65536 div ss)" by (simp add: burst_limit_def ss_def)
    show "min sc (burst_limit blk) * ss \<le> length (kblock (min sc (burst_limit blk) * ss))" by (rule length_kblock)
    show "sc < 65536" using assms(6) by (simp add: sc_def)
    show "0 < burst_limit blk" using assms(1) by (rule burst_limit_pos)
  qed (use r assms(2,3) g in \<open>simp_all add: ss_def\<close>)
  then show ?thesis unfolding run using un by (auto split: if_splits)
qed

lemma read_exact:
  assumes "disk_ready I img i b blk s" and "frames_on_stack s fr = None" and "alive th"
    and "0 < len" and "p + len \<le> length img" and "sectors blk p len < 65536" and "len \<le> length buffer"
    and "sectors blk p len \<le> burst_limit blk \<or> (p + len) mod unat (sector_size blk) = 0"
  shows "\<exists>w. I w \<and> dev_block_read alive fr th (int i) buffer (of_nat p) len s =
    Inr (0, blit buffer 0 (take len (drop p img)), served b blk fr w s)"
proof -
  define ss sc where "ss = unat (sector_size blk)" and "sc = sectors blk p len"
  note g = read_geometry [OF assms(1,4,5), folded ss_def sc_def]
  have B: "0 < burst_limit blk" using assms(1) by (rule burst_limit_pos)
  have ss: "0 < ss" using assms(1) by (simp add: disk_ready_def ss_def)
  have "kept (burst_limit blk) ss len sc (p mod ss) = len"
  proof (cases "sc \<le> burst_limit blk")
    case True
    moreover have "len \<le> sc * ss - p mod ss" using g(1) by linarith
    ultimately show ?thesis by (simp add: kept_last)
  next
    case False
    then have "ss dvd p + len" using assms(8) by (simp add: sc_def ss_def dvd_eq_mod_eq_0)
    then have "sc * ss - p mod ss = len" using g(4) by simp
    then show ?thesis using kept_bounds [OF B g(3) mod_less_divisor [OF ss], of p len] by simp
  qed
  then show ?thesis using block_read_general [where alive = alive and th = th, OF assms(1-6), of buffer] assms(7) by (simp add: ss_def sc_def)
qed

section \<open>Reads that never end\<close>

text \<open>With a multiple of 65536 sectors left the 16 bit number of sectors of the next round is zero.\<close>

definition stuck :: "('d \<Rightarrow> bool) \<Rightarrow> bytes \<Rightarrow> (int \<Rightarrow> bool) \<Rightarrow> nat \<Rightarrow> int \<Rightarrow> nat \<Rightarrow> nat \<Rightarrow> nat \<Rightarrow> nat \<Rightarrow> nat \<Rightarrow> nat \<Rightarrow> bytes \<Rightarrow> 'd devsys \<Rightarrow> bool" where
  "stuck I img alive fr th b ss sc cs off at buffer s \<longleftrightarrow>
     sc \<noteq> 0 \<and> sc mod 2 ^ 16 = 0 \<and> off = 0 \<and> cs < 2 ^ 32 \<and> cs * ss \<le> length img \<and> at \<le> length buffer \<and>
     frames_on_stack s fr = None \<and> alive th \<and>
     (\<exists>blk. blocks s b = Some blk \<and> io_queue blk = None \<and> serves I img blk \<and> I (hw s) \<and> ss = unat (sector_size blk))"

lemma stuck_round:
  assumes "stuck I img alive fr th b ss sc cs off at buffer s"
  shows "\<exists>r s'. 0 \<le> r \<and> queue_io_wait alive fr th b (of_nat cs) 0 bouncer False s = Inr (r, bouncer, s') \<and>
    stuck I img alive fr th b ss sc cs off at buffer s'"
proof -
  obtain blk where k: "blocks s b = Some blk" "io_queue blk = None" "serves I img blk" "I (hw s)" "ss = unat (sector_size blk)"
    and c: "frames_on_stack s fr = None" "alive th" "cs < 2 ^ 32" "cs * ss \<le> length img"
    using assms unfolding stuck_def by (elim exE conjE) (rule that)
  have uc: "unat (of_nat cs :: u64) = cs" using c(3) by (simp add: unat_of_nat)
  obtain r w where r: "0 \<le> r" "I w" "queue_io_wait alive fr th b (of_nat cs) 0 bouncer False s = Inr (r, bouncer, served b blk fr w s)"
    using read_request [where alive = alive and th = th and I = I, OF k(1,2) c(1,2) k(3,4), of "of_nat cs" 0 bouncer,
        unfolded uc k(5) [symmetric] unat_0 mult_0 add_0_right take_0, OF c(4) le0] by (elim exE conjE) (simp add: that)
  then show ?thesis using assms k(3,5) unfolding stuck_def
    by (intro exI [of _ r] exI [of _ "served b blk fr w s"]) simp
qed

lemma read_loop_stuck:
  assumes "read_loop alive fr th b ss bm len sc cs off bouncer buffer at s = Some y"
  shows "\<not> stuck I img alive fr th b ss sc cs off at buffer s"
proof (rule read_loop.raw_induct [OF _ assms, where P = "\<lambda>alive fr th b ss bm len sc cs off bouncer buffer at s y.
    \<not> stuck I img alive fr th b ss sc cs off at buffer s"], rule notI)
  fix rl :: "(int \<Rightarrow> bool) \<Rightarrow> nat \<Rightarrow> int \<Rightarrow> nat \<Rightarrow> nat \<Rightarrow> u16 \<Rightarrow> nat \<Rightarrow> nat \<Rightarrow> nat \<Rightarrow> nat \<Rightarrow> bytes \<Rightarrow> bytes \<Rightarrow> nat \<Rightarrow> 'a devsys \<Rightarrow>
     (int \<times> bytes \<times> 'a devsys) res option"
    and alive fr th b ss bm len sc cs off bouncer buffer at s y
  assume ih: "\<And>alive fr th b ss bm len sc cs off bouncer buffer at s y.
      rl alive fr th b ss bm len sc cs off bouncer buffer at s = Some y \<Longrightarrow> \<not> stuck I img alive fr th b ss sc cs off at buffer s"
    and body: "(if sc = 0 then Some (Inr (0, buffer, s))
      else let burst = burst_of bm ss (sc mod 2 ^ 16)
           in case queue_io_wait alive fr th b (of_nat cs) (of_nat burst) bouncer False s of
                Inl e \<Rightarrow> Some (Inl e)
              | Inr (ret, bouncer', s') \<Rightarrow>
                  if ret < 0 then Some (Inr (ret, buffer, s'))
                  else let copy_len = min ((burst * ss + 2 ^ 32 - off) mod 2 ^ 32) len
                       in if off + copy_len \<le> length bouncer' \<and> at + copy_len \<le> length buffer
                          then rl alive fr th b ss bm len (sc - burst) ((cs + burst) mod 2 ^ 32) 0 bouncer'
                                 (blit buffer at (take copy_len (drop off bouncer'))) (at + copy_len) s'
                          else Some (Inl OutOfBounds)) = Some y"
    and st: "stuck I img alive fr th b ss sc cs off at buffer s"
  have c: "(sc = 0) = False" "burst_of bm ss (sc mod 2 ^ 16) = 0" "off = 0" "at \<le> length buffer" "cs < 2 ^ 32"
    using st by (simp_all add: stuck_def burst_of_def)
  obtain r s' where r: "0 \<le> r" "queue_io_wait alive fr th b (of_nat cs) 0 bouncer False s = Inr (r, bouncer, s')"
      "stuck I img alive fr th b ss sc cs off at buffer s'"
    using stuck_round [OF st, of bouncer] by (elim exE conjE) (rule that)
  have "rl alive fr th b ss bm len sc cs 0 bouncer buffer at s' = Some y"
    using body c r(1,2) by (simp add: Let_def)
  then show False using ih r(3) c(3) by blast
qed

section \<open>The queue of requests\<close>

fun linked :: "(nat \<rightharpoonup> blk_request) \<Rightarrow> nat option \<Rightarrow> nat list \<Rightarrow> bool" where
  "linked fs q [] \<longleftrightarrow> q = None"
| "linked fs q (r # rs) \<longleftrightarrow> q = Some r \<and> (\<exists>x. fs r = Some x \<and> \<not> rq_done x \<and> linked fs (rq_next x) rs)"

definition queue_ok :: "'d devsys \<Rightarrow> nat \<Rightarrow> 'd dev_block \<Rightarrow> nat list \<Rightarrow> bool" where
  "queue_ok s b blk ids \<longleftrightarrow> blocks s b = Some blk \<and> linked (frames_on_stack s) (io_queue blk) ids \<and> distinct ids \<and>
     (ids \<noteq> [] \<longrightarrow> last_brq blk = Some (last ids))"

text \<open>A request without its link.\<close>

definition request :: "'d devsys \<Rightarrow> nat \<Rightarrow> blk_request option" where
  "request s r = map_option (\<lambda>x. x\<lparr>rq_next := None\<rparr>) (frames_on_stack s r)"

lemma linked_other: "r \<notin> set ids \<Longrightarrow> linked (fs(r := v)) q ids = linked fs q ids"
  by (induction ids arbitrary: q) auto

lemma linked_in: "linked fs q ids \<Longrightarrow> r \<in> set ids \<Longrightarrow> \<exists>x. fs r = Some x \<and> \<not> rq_done x"
  by (induction ids arbitrary: q) auto

lemma linked_snoc:
  assumes "linked fs q (ids @ [l])" and "distinct (ids @ [l])" and "fr \<notin> set (ids @ [l])"
    and "fs l = Some x" and "\<not> rq_done y" and "rq_next y = None"
  shows "linked (fs(fr \<mapsto> y, l \<mapsto> x\<lparr>rq_next := Some fr\<rparr>)) q (ids @ [l, fr])"
  using assms
proof (induction ids arbitrary: q)
  case Nil
  then show ?case by auto
next
  case (Cons r ids)
  then obtain z where z: "fs r = Some z" "\<not> rq_done z" "linked fs (rq_next z) (ids @ [l])" by auto
  define fs' where "fs' = fs(fr \<mapsto> y, l \<mapsto> x\<lparr>rq_next := Some fr\<rparr>)"
  have "fs' r = Some z" using z(1) Cons.prems(2,3) by (simp add: fs'_def)
  moreover have "linked fs' (rq_next z) (ids @ [l, fr])"
    unfolding fs'_def by (rule Cons.IH [OF z(3)]) (use Cons.prems in simp_all)
  moreover have "q = Some r" using Cons.prems(1) by simp
  ultimately show ?case unfolding fs'_def [symmetric] using z(2) by simp
qed

lemma enqueue_appends:
  assumes "queue_ok s b blk ids" and "frames_on_stack s fr = None" and "\<not> rq_done q" and "rq_next q = None"
  shows "\<exists>s' blk'. blk_enqueue b fr q s = Inr s' \<and> queue_ok s' b blk' (ids @ [fr]) \<and>
    request s' = (request s)(fr \<mapsto> q) \<and> hw s' = hw s \<and> initialized blk' = initialized blk \<and> block_ops blk' = block_ops blk \<and> blk_id blk' = blk_id blk"
proof -
  have b: "blocks s b = Some blk" and l: "linked (frames_on_stack s) (io_queue blk) ids" and dist: "distinct ids"
    using assms(1) by (auto simp: queue_ok_def)
  have fr: "fr \<notin> set ids" using linked_in [OF l, of fr] assms(2) by auto
  have q: "q\<lparr>rq_next := None\<rparr> = q" using assms(4) by (cases q) simp
  show ?thesis
  proof (cases ids rule: rev_cases)
    case Nil
    then have "io_queue blk = None" using l by simp
    then show ?thesis using b Nil assms(3,4) q
      by (auto simp: blk_enqueue_def queue_ok_def request_def fun_eq_iff)
  next
    case (snoc js j)
    obtain x where x: "frames_on_stack s j = Some x" "\<not> rq_done x" using linked_in [OF l, of j] snoc by auto
    have ne: "io_queue blk \<noteq> None" using l snoc by (cases js) auto
    have last: "last_brq blk = Some j" "j \<noteq> fr" using assms(1) snoc fr by (auto simp: queue_ok_def)
    have "linked ((frames_on_stack s)(fr \<mapsto> q, j \<mapsto> x\<lparr>rq_next := Some fr\<rparr>)) (io_queue blk) (js @ [j, fr])"
      using l dist fr x assms(3,4) unfolding snoc by (intro linked_snoc) auto
    then show ?thesis using b ne last x snoc dist fr q
      by (auto simp: blk_enqueue_def queue_ok_def request_def fun_eq_iff)
  qed
qed

lemma blk_serve_next: "blk_serve blk (q\<lparr>rq_next := n\<rparr>) w = blk_serve blk q w"
  by (cases q) (simp only: blk_serve_def blk_request.simps)

text \<open>What the worker does with a request: nothing for a process that is gone.\<close>

definition answer :: "(int \<Rightarrow> bool) \<Rightarrow> 'd dev_block \<Rightarrow> blk_request \<Rightarrow> 'd \<Rightarrow> (int \<times> bytes \<times> bool \<times> 'd) res" where
  "answer alive blk q w =
     (if alive (rq_thread q) then blk_serve blk q w else Inr (- EINTR, rq_buffer q, initialized blk, w))"

lemma worker_pops:
  assumes "queue_ok s b blk (r # ids)" and "request s r = Some q"
  shows "case answer alive blk q (hw s) of
      Inl e \<Rightarrow> blk_worker alive b s = Inl e
    | Inr (resp, buf, ini, w) \<Rightarrow> \<exists>s' blk'. blk_worker alive b s = Inr (True, s') \<and> queue_ok s' b blk' ids \<and>
        request s' = (request s)(r \<mapsto> q\<lparr>rq_buffer := buf, rq_response := resp, rq_done := True\<rparr>) \<and> hw s' = w \<and>
        initialized blk' = ini \<and> block_ops blk' = block_ops blk \<and> blk_id blk' = blk_id blk"
proof -
  have b: "blocks s b = Some blk" and l: "linked (frames_on_stack s) (io_queue blk) (r # ids)" and dist: "distinct (r # ids)"
    and la: "ids \<noteq> [] \<longrightarrow> last_brq blk = Some (last ids)"
    using assms(1) by (auto simp: queue_ok_def)
  obtain x where x: "frames_on_stack s r = Some x" "io_queue blk = Some r" "linked (frames_on_stack s) (rq_next x) ids" using l by auto
  have q: "q = x\<lparr>rq_next := None\<rparr>" using assms(2) x(1) by (simp add: request_def)
  show ?thesis
  proof (cases "alive (rq_thread x)")
    case False
    then show ?thesis using b x dist la unfolding q
      by (auto simp: answer_def blk_worker_def queue_ok_def request_def fun_eq_iff linked_other)
  next
    case True
    show ?thesis
    proof (cases "blk_serve blk x (hw s)")
      case (Inl e)
      then show ?thesis using True b x unfolding q by (simp add: answer_def blk_worker_def blk_serve_next)
    next
      case (Inr y)
      obtain resp buf ini w where y: "y = (resp, buf, ini, w)" by (cases y) auto
      show ?thesis using True b x dist la Inr unfolding q y
        by (auto simp: answer_def blk_worker_def blk_serve_next queue_ok_def request_def fun_eq_iff linked_other)
    qed
  qed
qed

lemma wait_ends:
  assumes "queue_ok s b blk ids" and "fr \<in> set ids"
    and "\<forall>r \<in> set ids. \<forall>q blk' w. request s r = Some q \<longrightarrow> block_ops blk' = block_ops blk \<longrightarrow> blk_id blk' = blk_id blk \<longrightarrow>
      (\<exists>y. blk_serve blk' q w = Inr y)"
  shows "\<exists>s' q'. wait_done alive b fr s = Some (Inr s') \<and> frames_on_stack s' fr = Some q' \<and> rq_done q'"
  using assms
proof (induction ids arbitrary: s blk)
  case (Cons r ids)
  have l: "linked (frames_on_stack s) (io_queue blk) (r # ids)" and dist: "distinct (r # ids)"
    using Cons.prems(1) by (auto simp: queue_ok_def)
  obtain q where q: "request s r = Some q" using linked_in [OF l, of r] by (auto simp: request_def)
  obtain x where x: "frames_on_stack s fr = Some x" "\<not> rq_done x" using linked_in [OF l Cons.prems(2)] by blast
  have "\<exists>y. answer alive blk q (hw s) = Inr y" using Cons.prems(3) q by (simp add: answer_def)
  then obtain resp buf ini w where a: "answer alive blk q (hw s) = Inr (resp, buf, ini, w)" by (metis prod.exhaust)
  obtain s' blk' where s': "blk_worker alive b s = Inr (True, s')" "queue_ok s' b blk' ids"
      "request s' = (request s)(r \<mapsto> q\<lparr>rq_buffer := buf, rq_response := resp, rq_done := True\<rparr>)"
      "block_ops blk' = block_ops blk" "blk_id blk' = blk_id blk"
    using worker_pops [OF Cons.prems(1) q, of alive] unfolding a by auto
  have step: "wait_done alive b fr s = wait_done alive b fr s'" by (subst wait_done.simps) (simp add: x s'(1))
  show ?case
  proof (cases "fr = r")
    case True
    then have "\<exists>q'. frames_on_stack s' fr = Some q' \<and> rq_done q'"
      using fun_cong [OF s'(3), of r] by (auto simp: request_def dest!: arg_cong [where f = rq_done])
    then obtain q' where q': "frames_on_stack s' fr = Some q'" "rq_done q'" by blast
    have "wait_done alive b fr s' = Some (Inr s')" by (subst wait_done.simps) (simp add: q')
    then show ?thesis using step q' by auto
  next
    case False
    have "request s' k = request s k" if "k \<in> set ids" for k using s'(3) dist that by auto
    then have "\<forall>r \<in> set ids. \<forall>q b' w. request s' r = Some q \<longrightarrow> block_ops b' = block_ops blk' \<longrightarrow> blk_id b' = blk_id blk' \<longrightarrow>
        (\<exists>y. blk_serve b' q w = Inr y)"
      using Cons.prems(3) s'(4,5) by auto
    then show ?thesis unfolding step using Cons.IH [OF s'(2)] Cons.prems(2) False by simp
  qed
qed simp

section \<open>A disk in memory\<close>

definition ram_block :: "u32 \<Rightarrow> u16 \<Rightarrow> bytes \<Rightarrow> unit dev_block" where
  "ram_block ss bm img = \<lparr>blk_id = 0, initialized = True, burst_max = bm, total_sectors = 0, sector_size = ss, io_queue = None,
     last_brq = None, block_ops = \<lparr>bop_init = None,
       bop_read = Some (\<lambda>i sector cnt w. Inr (0, take (unat cnt * unat ss) (drop (unat sector * unat ss) img), w)),
       bop_write = None, bop_release = None\<rparr>, proxy_to = None, proxy_offset = 0\<rparr>"

definition ram_sys :: "unit dev_block \<Rightarrow> unit devsys" where
  "ram_sys blk = \<lparr>dev_array = [Some (fresh_slot \<lparr>dev_name = cstr ''ram'' @ replicate 28 0, dev_kind = DEV_TYPE_BLOCK, type_specific = 0\<rparr>)],
     dev_incrementations = klist_init, chars = Map.empty, blocks = [0 \<mapsto> blk], frames_on_stack = Map.empty, hw = ()\<rparr>"

lemma ram_ready:
  assumes "0 < unat bm" and "0 < unat ss" and "unat ss \<le> 65536" and "unat ss dvd length img" and "length img < 2 ^ 32 * unat ss"
  shows "disk_ready (\<lambda>_. True) img 0 0 (ram_block ss bm img) (ram_sys (ram_block ss bm img))"
proof -
  have "serves (\<lambda>_. True) img (ram_block ss bm img)" by (simp add: serves_def ram_block_def)
  then show ?thesis using assms by (simp add: disk_ready_def ram_sys_def quiet_def open_at_def) (simp add: ram_block_def)
qed

lemma ram_numbers:
  "sectors (ram_block ss bm img) p len = (p mod unat ss + len + (unat ss - 1)) div unat ss"
  "burst_limit (ram_block ss bm img) = min (unat bm) (65536 div unat ss)" "sector_size (ram_block ss bm img) = ss"
  "frames_on_stack (ram_sys blk) fr = None"
  by (simp_all add: sectors_def burst_limit_def ram_block_def ram_sys_def)

section \<open>Properties\<close>

text \<open>
  C11: Reading from an initialized disk without pending requests ends, returns success and stores exactly
  the bytes asked for, wherever they start, when they fit into one request of the device or end at
  the end of a sector, for fewer than 65536 sectors; nothing else of the buffer changes and the
  device is left without pending requests.
\<close>

theorem block_read_exact:
  assumes "disk_ready I img i b blk s" and "frames_on_stack s fr = None" and "alive th"
    and "0 < len" and "p + len \<le> length img" and "sectors blk p len < 65536" and "len \<le> length buffer"
    and "sectors blk p len \<le> burst_limit blk \<or> (p + len) mod unat (sector_size blk) = 0"
  shows "\<exists>w. I w \<and> dev_block_read alive fr th (int i) buffer (of_nat p) len s =
    Inr (0, blit buffer 0 (take len (drop p img)), served b blk fr w s)"
  using assms by (rule read_exact)

theorem block_read_exact_witness:
  "\<exists>s. dev_block_read (\<lambda>_. True) 3 1 (int 0) [9, 9, 9, 9] (of_nat 3) 2 (ram_sys (ram_block 4 2 (replicate 4 1 @ replicate 4 2))) =
     Inr (0, [1, 2, 9, 9], s)"
proof -
  have "disk_ready (\<lambda>_. True) (replicate 4 1 @ replicate 4 2) 0 0 (ram_block 4 2 (replicate 4 1 @ replicate 4 2))
      (ram_sys (ram_block 4 2 (replicate 4 1 @ replicate 4 2)))"
    by (rule ram_ready) simp_all
  from block_read_exact [OF this, of 3 "\<lambda>_. True" 1 2 3 "[9, 9, 9, 9]"] show ?thesis
    by (auto simp: ram_numbers blit_def)
qed

text \<open>
  A read that takes more than one request of the device and does not end at the end of a sector
  stores more than it was asked for, because a later request copies up to the whole length again: the
  stores run over the end of a buffer of that length, and in a longer one the bytes behind the
  length are overwritten.
\<close>

theorem block_read_overruns:
  assumes "disk_ready I img i b blk s" and "frames_on_stack s fr = None" and "alive th"
    and "0 < len" and "p + len \<le> length img" and "sectors blk p len < 65536"
    and "burst_limit blk < sectors blk p len" and "(p + len) mod unat (sector_size blk) \<noteq> 0"
  shows "\<exists>n > len. if n \<le> length buffer
    then \<exists>w. dev_block_read alive fr th (int i) buffer (of_nat p) len s =
      Inr (0, blit buffer 0 (take n (drop p img)), served b blk fr w s)
    else dev_block_read alive fr th (int i) buffer (of_nat p) len s = Inl OutOfBounds"
proof -
  define ss sc B where "ss = unat (sector_size blk)" and "sc = sectors blk p len" and "B = burst_limit blk"
  note g = read_geometry [OF assms(1,4,5), folded ss_def sc_def]
  have B: "0 < B" "B < sc" using assms(1,7) burst_limit_pos by (auto simp: B_def sc_def)
  have ss: "0 < ss" using assms(1) by (simp add: disk_ready_def ss_def)
  define x y where "x = B * ss" and "y = (sc - B) * ss"
  have xy: "sc * ss = x + y" "ss \<le> x" using B by (simp_all add: x_def y_def add_mult_distrib [symmetric])
  have off: "p mod ss < ss" using ss by simp
  have "sc * ss \<noteq> p mod ss + len"
  proof
    assume "sc * ss = p mod ss + len"
    then have "ss dvd p mod ss + len" by (metis dvd_triv_right)
    then have "(p + len) mod ss = 0" by (metis dvd_eq_mod_eq_0 mod_add_left_eq)
    then show False using assms(8) by (simp add: ss_def)
  qed
  then have "len < x + y - p mod ss" using g(1) xy(1) by simp
  moreover have "min y len \<le> kept B ss len (sc - B) 0"
    using kept_bounds [of B "sc - B" 0 ss len] B ss by (simp add: y_def)
  ultimately have "len < (x - p mod ss) + kept B ss len (sc - B) 0" using xy(2) off by linarith
  then have "len < kept B ss len sc (p mod ss)" using B by (simp add: kept_more x_def)
  moreover note block_read_general [where alive = alive and th = th, OF assms(1-6), of buffer, folded ss_def sc_def B_def]
  ultimately show ?thesis by (intro exI [of _ "kept B ss len sc (p mod ss)"] conjI) (auto split: if_splits)
qed

theorem block_read_overruns_witness:
  "dev_block_read (\<lambda>_. True) 3 1 (int 0) [9, 9, 9, 9, 9] (of_nat 0) 5 (ram_sys (ram_block 4 1 (replicate 4 1 @ replicate 4 2))) = Inl OutOfBounds"
proof -
  have "disk_ready (\<lambda>_. True) (replicate 4 1 @ replicate 4 2) 0 0 (ram_block 4 1 (replicate 4 1 @ replicate 4 2))
      (ram_sys (ram_block 4 1 (replicate 4 1 @ replicate 4 2)))"
    by (rule ram_ready) simp_all
  from block_read_overruns [OF this, of 3 "\<lambda>_. True" 1 5 0 "[9, 9, 9, 9, 9]"] show ?thesis
    by (auto simp: ram_numbers split: if_splits)
qed

text \<open>
  A read of a positive multiple of 65536 sectors from the start of a sector never ends, whatever the
  buffer: the number of sectors of a request is kept in 16 bits and is zero in every round.
\<close>

theorem block_read_hangs:
  assumes "disk_ready I img i b blk s" and "frames_on_stack s fr = None" and "alive th"
    and "0 < len" and "p + len \<le> length img" and "p mod unat (sector_size blk) = 0" and "sectors blk p len mod 65536 = 0"
  shows "dev_block_read alive fr th (int i) buffer (of_nat p) len s = Inl Hang"
proof -
  define ss sc where "ss = unat (sector_size blk)" and "sc = sectors blk p len"
  note g = read_geometry [OF assms(1,4,5), folded ss_def sc_def]
  obtain a where run: "dev_block_read alive fr th (int i) buffer (of_nat p) len s =
      mapR (\<lambda>(r, buf, s3). (r, buf, if r < 0 then s3 else dev_block_unref (int i) s3))
        (returned (read_loop alive fr th b ss (burst_max blk) len sc (p div ss) (p mod ss)
          (kblock (min sc (burst_limit blk) * ss)) buffer 0 (s\<lparr>dev_array := a\<rparr>)))"
    by (rule block_read_unfold [OF assms(1,4,5), where alive = alive and fr = fr and th = th and buffer = buffer, folded ss_def sc_def]) (rule that)
  have "p div ss * ss \<le> length img" using g(5) by (rule order_trans [rotated]) simp
  moreover have "p div ss < 2 ^ 32" using g(6) by (rule le_less_trans [rotated]) simp
  ultimately have "stuck I img alive fr th b ss sc (p div ss) (p mod ss) 0 buffer (s\<lparr>dev_array := a\<rparr>)"
    using assms(1-3,6,7) g(3) by (auto simp: stuck_def disk_ready_def ss_def sc_def)
  then have "read_loop alive fr th b ss (burst_max blk) len sc (p div ss) (p mod ss)
          (kblock (min sc (burst_limit blk) * ss)) buffer 0 (s\<lparr>dev_array := a\<rparr>) = None"
    using read_loop_stuck by (metis option.exhaust)
  then show ?thesis unfolding run by simp
qed

theorem block_read_hangs_witness:
  "dev_block_read (\<lambda>_. True) 3 1 (int 0) (replicate 65536 9) (of_nat 0) 65536 (ram_sys (ram_block 1 8 (replicate 65536 7))) = Inl Hang"
proof -
  have "disk_ready (\<lambda>_. True) (replicate 65536 7) 0 0 (ram_block 1 8 (replicate 65536 7)) (ram_sys (ram_block 1 8 (replicate 65536 7)))"
    by (rule ram_ready) simp_all
  from block_read_hangs [OF this, of 3 "\<lambda>_. True" 1 65536 0 "replicate 65536 9"] show ?thesis
    by (simp add: ram_numbers)
qed

text \<open>
  C20: The linked requests of a device refine a first-in first-out queue: linking a new request appends
  it and changes no other; a round of the worker answers the oldest one, by the driver's operation or
  as interrupted when its process is gone, marks it done and leaves the rest as they were; with an
  empty queue the worker waits.
\<close>

theorem block_queue_fifo:
  assumes "queue_ok s b blk ids"
  shows "(frames_on_stack s fr = None \<longrightarrow>
      (\<exists>s' blk'. blk_enqueue b fr (new_request t sector cnt buffer th) s = Inr s' \<and> queue_ok s' b blk' (ids @ [fr]) \<and>
         request s' = (request s)(fr \<mapsto> new_request t sector cnt buffer th) \<and> hw s' = hw s)) \<and>
    (case ids of
       [] \<Rightarrow> blk_worker alive b s = Inr (False, s)
     | r # rest \<Rightarrow> \<exists>q. request s r = Some q \<and>
         (case answer alive blk q (hw s) of
            Inl e \<Rightarrow> blk_worker alive b s = Inl e
          | Inr (resp, buf, ini, w) \<Rightarrow> \<exists>s' blk'. blk_worker alive b s = Inr (True, s') \<and> queue_ok s' b blk' rest \<and>
              request s' = (request s)(r \<mapsto> q\<lparr>rq_buffer := buf, rq_response := resp, rq_done := True\<rparr>) \<and> hw s' = w \<and>
              initialized blk' = ini))"
proof (intro conjI impI)
  assume "frames_on_stack s fr = None"
  from enqueue_appends [OF assms this, of "new_request t sector cnt buffer th"]
  show "\<exists>s' blk'. blk_enqueue b fr (new_request t sector cnt buffer th) s = Inr s' \<and> queue_ok s' b blk' (ids @ [fr]) \<and>
      request s' = (request s)(fr \<mapsto> new_request t sector cnt buffer th) \<and> hw s' = hw s"
    by (auto simp: new_request_def)
next
  show "case ids of
       [] \<Rightarrow> blk_worker alive b s = Inr (False, s)
     | r # rest \<Rightarrow> \<exists>q. request s r = Some q \<and>
         (case answer alive blk q (hw s) of
            Inl e \<Rightarrow> blk_worker alive b s = Inl e
          | Inr (resp, buf, ini, w) \<Rightarrow> \<exists>s' blk'. blk_worker alive b s = Inr (True, s') \<and> queue_ok s' b blk' rest \<and>
              request s' = (request s)(r \<mapsto> q\<lparr>rq_buffer := buf, rq_response := resp, rq_done := True\<rparr>) \<and> hw s' = w \<and>
              initialized blk' = ini)"
  proof (cases ids)
    case Nil
    then show ?thesis using assms by (simp add: queue_ok_def blk_worker_def)
  next
    case (Cons r rest)
    obtain q where q: "request s r = Some q" using assms Cons by (auto simp: queue_ok_def request_def)
    from worker_pops [OF assms [unfolded Cons] q, of alive] q Cons show ?thesis
      by (auto split: sum.splits)
  qed
qed

theorem block_queue_fifo_witness:
  "\<exists>s' blk'. blk_enqueue 0 5 (new_request BLK_IOCTL 0 0 [] 1) (ram_sys (ram_block 4 1 [])) = Inr s' \<and> queue_ok s' 0 blk' [5]"
proof -
  have "queue_ok (ram_sys (ram_block 4 1 [])) 0 (ram_block 4 1 []) []" by (simp add: queue_ok_def ram_sys_def ram_block_def)
  from block_queue_fifo [OF this, of 5 BLK_IOCTL 0 0 "[]" 1 "\<lambda>_. True"] show ?thesis
    by (auto simp: ram_numbers)
qed

text \<open>
  C21: Waiting for a queued request ends: when the operations of the driver return for the requests in
  the queue, the request is done after a bounded number of rounds of the worker, whatever was queued
  before it and whether or not the processes of the requesters still exist.
\<close>

theorem block_wait_ends:
  assumes "queue_ok s b blk ids" and "fr \<in> set ids"
    and "\<forall>r \<in> set ids. \<forall>q blk' w. request s r = Some q \<longrightarrow> block_ops blk' = block_ops blk \<longrightarrow> blk_id blk' = blk_id blk \<longrightarrow>
      (\<exists>y. blk_serve blk' q w = Inr y)"
  shows "\<exists>s' q'. wait_done alive b fr s = Some (Inr s') \<and> frames_on_stack s' fr = Some q' \<and> rq_done q'"
  using assms by (rule wait_ends)

theorem block_wait_ends_witness:
  "\<exists>s' q'. wait_done (\<lambda>_. True) 0 5
      ((ram_sys (ram_block 4 1 []))\<lparr>frames_on_stack := [5 \<mapsto> new_request BLK_IOCTL 0 0 [] 1],
         blocks := [0 \<mapsto> (ram_block 4 1 [])\<lparr>io_queue := Some 5, last_brq := Some 5\<rparr>]\<rparr>) = Some (Inr s') \<and>
     frames_on_stack s' 5 = Some q' \<and> rq_done q'"
proof -
  let ?s = "(ram_sys (ram_block 4 1 []))\<lparr>frames_on_stack := [5 \<mapsto> new_request BLK_IOCTL 0 0 [] 1],
         blocks := [0 \<mapsto> (ram_block 4 1 [])\<lparr>io_queue := Some 5, last_brq := Some 5\<rparr>]\<rparr>"
  have q: "queue_ok ?s 0 ((ram_block 4 1 [])\<lparr>io_queue := Some 5, last_brq := Some 5\<rparr>) [5]"
    by (simp add: queue_ok_def new_request_def)
  show ?thesis by (rule block_wait_ends [OF q]) (auto simp: request_def new_request_def blk_serve_def)
qed

end
