(* ===== verification/Iso9660.thy ===== *)
theory Iso9660
  imports Block Fs
begin

text \<open>
  \<^verbatim>\<open>fs/drv/iso9660/iso9660.c\<close>: the read-only driver of optical disks. The structures on the disk
  are read at their offsets in the bytes of a block. A call of \<open>dev_block_read\<close> is the argument
  \<open>rd\<close>, on the state below the driver; \<open>Iso9660\<close> instantiates it with the block layer. What a
  variable held before it was assigned is an argument (\<open>junk\<close>).
\<close>

section \<open>Structures on the disk\<close>

definition ISO_BLOCK_SIZE :: nat where "ISO_BLOCK_SIZE = 2048"
definition ISO9660_PRIMARY_VOLUME :: u8 where "ISO9660_PRIMARY_VOLUME = 1"
definition ISO9660_TERMINATOR :: u8 where "ISO9660_TERMINATOR = 255"

definition rd32 :: "bytes \<Rightarrow> nat \<Rightarrow> u32 res" where
  "rd32 b off = (if off + 4 \<le> length b then Inr (of_nat (un32 (take 4 (drop off b)))) else Inl OutOfBounds)"

text \<open>The fields of a directory entry, by their distance from its start.\<close>

definition dentry_len :: "bytes \<Rightarrow> nat \<Rightarrow> u8 res" where "dentry_len b off = nthR b off"
definition dentry_lba :: "bytes \<Rightarrow> nat \<Rightarrow> u32 res" where "dentry_lba b off = rd32 b (off + 2)"
definition dentry_size :: "bytes \<Rightarrow> nat \<Rightarrow> u32 res" where "dentry_size b off = rd32 b (off + 10)"
definition dentry_flags :: "bytes \<Rightarrow> nat \<Rightarrow> u8 res" where "dentry_flags b off = nthR b (off + 25)"
definition dentry_name_len :: "bytes \<Rightarrow> nat \<Rightarrow> u8 res" where "dentry_name_len b off = nthR b (off + 32)"

definition SIZEOF_DENTRY :: nat where "SIZEOF_DENTRY = 33"

text \<open>The root directory entry in a primary volume descriptor.\<close>

definition PVD_ROOT :: nat where "PVD_ROOT = 156"

definition type_of_flags :: "u8 \<Rightarrow> u16" where
  "type_of_flags f = (if f AND 2 \<noteq> 0 then FS_TYPE_DIR else FS_TYPE_REG)"

section \<open>State\<close>

record lhandle =
  lh_start :: u32
  lh_size :: u32
  lh_pos :: u32
  lh_block_read :: u32
  lh_buffer :: bytes
  lh_refs :: int
  lh_type :: u16

record iso9660private =
  pvd :: bytes
  root_lba :: u32
  lhandles :: "lhandle rcparray"

text \<open>The private data of a mount is known by its number; \<open>below\<close> is the state of the block layer.\<close>

record 's isosys =
  privates :: "iso9660private list"
  below :: 's

type_synonym 's reader = "int \<Rightarrow> bytes \<Rightarrow> u64 \<Rightarrow> nat \<Rightarrow> 's \<Rightarrow> (int \<times> bytes \<times> 's) res"

section \<open>Mounting\<close>

text \<open>The loop over the volume descriptors, which gives up after the 25th.\<close>

fun vdesc_loop :: "nat \<Rightarrow> 's reader \<Rightarrow> int \<Rightarrow> nat \<Rightarrow> bytes \<Rightarrow> bytes option \<Rightarrow> 's \<Rightarrow> (int \<times> bytes option \<times> bytes \<times> 's) res" where
  "vdesc_loop 0 rd dev offset yeet found s = Inr (- 1, None, yeet, s)"
| "vdesc_loop (Suc n) rd dev offset yeet found s =
     bindR (rd dev yeet (of_nat ((64 + offset * 4) * 512)) ISO_BLOCK_SIZE s) (\<lambda>(ret, a, s').
       if ret < 0 then Inr (ret, None, a, s')
       else bindR (nthR a 0) (\<lambda>t.
         if t = ISO9660_PRIMARY_VOLUME then vdesc_loop n rd dev (Suc offset) a (Some a) s'
         else if t = ISO9660_TERMINATOR then Inr (0, found, a, s')
         else vdesc_loop n rd dev (Suc offset) a found s'))"

definition iso9660_mount :: "'s reader \<Rightarrow> mount_info \<Rightarrow> 's isosys \<Rightarrow> (int \<times> mount_info \<times> 's isosys) res" where
  "iso9660_mount rd mi w =
     (let k = length (privates w);
          priv = \<lparr>pvd = replicate ISO_BLOCK_SIZE 0, root_lba = 0, lhandles = []\<rparr>;
          mi' = mi\<lparr>private_data := k\<rparr>
      in bindR (vdesc_loop 25 rd (m_dev mi) 0 (kblock ISO_BLOCK_SIZE) None (below w)) (\<lambda>(ret, found, yeet, s).
           if ret < 0 then Inr (ret, mi', w\<lparr>privates := privates w @ [priv], below := s\<rparr>)
           else case found of
             None \<Rightarrow> Inr (- 1, mi', w\<lparr>privates := privates w @ [priv], below := s\<rparr>)
           | Some d \<Rightarrow> bindR (dentry_lba d PVD_ROOT) (\<lambda>lba.
               bindR (rd (m_dev mi) yeet (ucast (lba * 2048)) 2048 s) (\<lambda>(ret', _, s').
                 Inr (if ret' < 0 then ret' else 0, mi',
                   w\<lparr>privates := privates w @ [priv\<lparr>pvd := d, root_lba := lba\<rparr>], below := s'\<rparr>)))))"

section \<open>Finding a file in a directory\<close>

text \<open>The name of an entry in \<open>namebuffer\<close>: \<open>limit\<close> is the size the copy is cut off at.\<close>

definition iso_name :: "bytes \<Rightarrow> bytes \<Rightarrow> nat \<Rightarrow> nat \<Rightarrow> bytes res" where
  "iso_name namebuffer buffer off limit =
     bindR (nthR buffer (off + 33)) (\<lambda>c.
       if c = 0 then strcpy namebuffer (cstr ''.'')
       else if c = 1 then strcpy namebuffer (cstr ''..'')
       else bindR (dentry_name_len buffer off) (\<lambda>fl.
            bindR (snprintf namebuffer (min limit (unat fl + 1)) (cstr ''%s'') [AStr (drop (off + 33) buffer)]) (\<lambda>(_, nb).
            bindR (strchrnul nb 59) (\<lambda>k. updR nb k 0))))"

text \<open>What the entry that was found says: its type, and the values for \<open>lba\<close>, \<open>size\<close> and \<open>dentry_ext\<close>.\<close>

definition iso_hit :: "bytes \<Rightarrow> nat \<Rightarrow> (u16 \<times> u32 \<times> u32 \<times> bytes) res" where
  "iso_hit buffer off =
     bindR (dentry_lba buffer off) (\<lambda>lba. bindR (dentry_size buffer off) (\<lambda>sz. bindR (dentry_flags buffer off) (\<lambda>f.
       if off + SIZEOF_DENTRY \<le> length buffer then Inr (type_of_flags f, lba, sz, take SIZEOF_DENTRY (drop off buffer))
       else Inl OutOfBounds)))"

partial_function (option) find_loop ::
    "'s reader \<Rightarrow> int \<Rightarrow> u64 \<Rightarrow> u32 \<Rightarrow> bytes \<Rightarrow> u32 \<Rightarrow> nat \<Rightarrow> bytes \<Rightarrow> bytes \<Rightarrow> 's \<Rightarrow>
     ((u16 \<times> u32 \<times> u32 \<times> bytes) option \<times> 's) res option" where
  "find_loop rd dev start sz segment progress offset buffer namebuffer s =
     (if \<not> progress < sz then Some (Inr (None, s))
      else case dentry_len buffer offset of
        Inl e \<Rightarrow> Some (Inl e)
      | Inr len \<Rightarrow>
          if len = 0 then
            (case rd dev buffer (start + ucast (progress + 2048)) ISO_BLOCK_SIZE s of
               Inl e \<Rightarrow> Some (Inl e)
             | Inr (_, buffer', s') \<Rightarrow>
                 if \<not> progress + 2048 < sz then Some (Inr (None, s'))
                 else find_loop rd dev start sz segment (progress + 2048) 0 buffer' namebuffer s')
          else (case iso_name namebuffer buffer offset 256 of
              Inl e \<Rightarrow> Some (Inl e)
            | Inr nb \<Rightarrow> (case strcmp nb segment of
                Inl e \<Rightarrow> Some (Inl e)
              | Inr c \<Rightarrow>
                  let offset' = (offset + unat len) mod 2 ^ 16
                  in if c = 0 then Some (mapR (\<lambda>h. (Some h, s)) (iso_hit buffer offset))
                     else if ISO_BLOCK_SIZE \<le> offset' then
                       (case rd dev buffer (start + ucast (progress + 2048)) ISO_BLOCK_SIZE s of
                          Inl e \<Rightarrow> Some (Inl e)
                        | Inr (_, buffer', s') \<Rightarrow>
                            if \<not> progress + 2048 < sz then Some (Inr (None, s'))
                            else find_loop rd dev start sz segment (progress + 2048) 0 buffer' nb s')
                     else find_loop rd dev start sz segment progress offset' buffer nb s)))"

definition iso9660_find ::
    "'s reader \<Rightarrow> bytes \<Rightarrow> int \<Rightarrow> u32 \<Rightarrow> u32 \<Rightarrow> bytes \<Rightarrow> 's \<Rightarrow> ((u16 \<times> u32 \<times> u32 \<times> bytes) option \<times> 's) res" where
  "iso9660_find rd junk dev lba sz segment s =
     (let start = ucast (lba * 2048)
      in bindR (rd dev (kblock ISO_BLOCK_SIZE) start ISO_BLOCK_SIZE s) (\<lambda>(_, buffer, s').
           returned (find_loop rd dev start sz segment 0 0 buffer junk s')))"

text \<open>
  The walk over the segments of a path; \<open>left\<close> counts the segments behind the current one. The result
  is an error or what the last segment names, with the values \<open>type\<close>, \<open>dir\<close>, \<open>size\<close> and
  \<open>dentry\<close> had before when the path has no segment.
\<close>

function iso_walk ::
    "'s reader \<Rightarrow> bytes \<Rightarrow> int \<Rightarrow> bytes \<Rightarrow> bytes \<Rightarrow> int \<Rightarrow> u16 \<times> u32 \<times> u32 \<times> bytes \<Rightarrow> 's \<Rightarrow>
     ((int + u16 \<times> u32 \<times> u32 \<times> bytes) \<times> 's) res" where
  "iso_walk rd junk dev local segment left cur s =
     bindR (next_segment local) (\<lambda>(l, n).
       if n = 0 \<and> l ! 0 = 0 then Inr (Inr cur, s)
       else bindR (copy_segment segment (n + 1) l) (\<lambda>segment'.
            bindR (iso9660_find rd junk dev (fst (snd cur)) (fst (snd (snd cur))) segment' s) (\<lambda>(hit, s').
              case hit of
                None \<Rightarrow> Inr (Inl (- ENOENT), s')
              | Some cur' \<Rightarrow>
                  if left - 1 = 0 then Inr (Inr cur', s')
                  else if fst cur' \<noteq> FS_TYPE_DIR then Inr (Inl (- ENOENT), s')
                  else iso_walk rd junk dev (drop n l) segment' (left - 1) cur' s')))"
  by pat_completeness auto
termination
proof (relation "measure (\<lambda>(rd, junk, dev, local, segment, left, cur, s). length local)", goal_cases)
  case (2 rd junk dev local segment left cur s x l n)
  then show ?case using next_segment_pos [of local l n] by auto
qed simp

declare iso_walk.simps [simp del]

definition iso_lookup ::
    "'s reader \<Rightarrow> bytes \<Rightarrow> bytes \<Rightarrow> u16 \<Rightarrow> mount_info \<Rightarrow> bytes \<Rightarrow> 's isosys \<Rightarrow>
     ((int + u16 \<times> u32 \<times> u32 \<times> bytes) \<times> 's isosys) res" where
  "iso_lookup rd junk seg junk_type mi path w =
     bindR (nthR (privates w) (private_data mi)) (\<lambda>p.
     bindR (dentry_size (pvd p) PVD_ROOT) (\<lambda>sz.
     bindR (path_count_segments path) (\<lambda>left.
     bindR (iso_walk rd junk (m_dev mi) (drop 1 path) seg (int left)
         (junk_type, root_lba p, sz, take SIZEOF_DENTRY (drop PVD_ROOT (pvd p))) (below w)) (\<lambda>(r, s).
       Inr (r, w\<lparr>below := s\<rparr>)))))"

section \<open>Open files\<close>

definition set_handles :: "mount_info \<Rightarrow> lhandle rcparray \<Rightarrow> 's isosys \<Rightarrow> 's isosys" where
  "set_handles mi hs w =
     w\<lparr>privates := (privates w)[private_data mi := (privates w ! private_data mi)\<lparr>lhandles := hs\<rparr>]\<rparr>"

definition iso9660_open ::
    "'s reader \<Rightarrow> bytes \<Rightarrow> bytes \<Rightarrow> u16 \<Rightarrow> mount_info \<Rightarrow> bytes \<Rightarrow> int \<Rightarrow> 's isosys \<Rightarrow> (int \<times> 's isosys) res" where
  "iso9660_open rd junk seg junk_type mi path mode w =
     bindR (iso_lookup rd junk seg junk_type mi path w) (\<lambda>(r, w').
       case r of
         Inl e \<Rightarrow> Inr (e, w')
       | Inr (t, dir, sz, _) \<Rightarrow>
           if t = FS_TYPE_DIR then Inr (- EISDIR, w')
           else case rcparray_add (lhandles (privates w' ! private_data mi))
                    \<lparr>lh_start = dir, lh_size = sz, lh_pos = 0, lh_block_read = 0, lh_buffer = [], lh_refs = 1, lh_type = t\<rparr> of
                  (i, hs) \<Rightarrow> Inr (int i, set_handles mi hs w'))"

text \<open>The frame of the operations on an open file: the handle, which the operation may change, and its release.\<close>

definition with_lhandle ::
    "mount_info \<Rightarrow> int \<Rightarrow> 'r \<Rightarrow> (lhandle \<Rightarrow> 's \<Rightarrow> ('r \<times> lhandle \<times> 's) res) \<Rightarrow> 's isosys \<Rightarrow> ('r \<times> 's isosys) res" where
  "with_lhandle mi fd bad f w =
     bindR (nthR (privates w) (private_data mi)) (\<lambda>p.
       case rcparray_get (lhandles p) (to_size_t fd) of
         (None, hs) \<Rightarrow> Inr (bad, set_handles mi hs w)
       | (Some h, hs) \<Rightarrow>
           mapR (\<lambda>(r, h', s). (r, set_handles mi (rcparray_unref (rcparray_poke hs (to_size_t fd) h') (to_size_t fd)) (w\<lparr>below := s\<rparr>)))
             (f h (below w)))"

text \<open>
  The length is an \<open>int\<close>: what is left of the file or the length asked for, whichever is less. The
  buffer of the caller has exactly the length asked for.
\<close>

definition iso9660_read :: "'s reader \<Rightarrow> mount_info \<Rightarrow> int \<Rightarrow> nat \<Rightarrow> 's isosys \<Rightarrow> (int \<times> bytes \<times> 's isosys) res" where
  "iso9660_read rd mi fd len w =
     mapR (\<lambda>((r, b), w'). (r, b, w'))
       (with_lhandle mi fd (- EBADF, []) (\<lambda>h s.
          if lh_type h = FS_TYPE_DIR then Inr ((- EBADF, []), h, s)
          else let al = (word_of_int (int (min (unat (lh_size h - lh_pos h)) len)) :: 32 word); actual_len = sint al
               in mapR (\<lambda>(_, b, s'). ((actual_len, take (nat actual_len) b), h\<lparr>lh_pos := lh_pos h + al\<rparr>, s'))
                    (rd (m_dev mi) (replicate len 0) (ucast (lh_start h) * 2048 + ucast (lh_pos h)) (to_size_t actual_len) s)) w)"

definition iso9660_write :: "mount_info \<Rightarrow> int \<Rightarrow> bytes \<Rightarrow> 's isosys \<Rightarrow> (int \<times> 's isosys) res" where
  "iso9660_write mi fd buffer w = Inr (- EROFS, w)"

definition iso9660_seek :: "mount_info \<Rightarrow> int \<Rightarrow> int \<Rightarrow> int \<Rightarrow> 's isosys \<Rightarrow> (int \<times> 's isosys) res" where
  "iso9660_seek mi fd offset mode w =
     with_lhandle mi fd (- EBADF) (\<lambda>h s.
       if lh_type h = FS_TYPE_DIR then Inr (- EBADF, h, s)
       else let new_pos = (if mode = 0 then offset else if mode = 1 then sint (lh_pos h) + offset
                           else if mode = 2 then sint (lh_size h) + offset else 0)
            in Inr (0, h\<lparr>lh_pos := word_of_int (min (max new_pos 0) (uint (lh_size h)))\<rparr>, s)) w"

definition iso9660_close :: "mount_info \<Rightarrow> int \<Rightarrow> 's isosys \<Rightarrow> (int \<times> 's isosys) res" where
  "iso9660_close mi fd w =
     bindR (nthR (privates w) (private_data mi)) (\<lambda>p.
       case rcparray_get (lhandles p) (to_size_t fd) of
         (None, hs) \<Rightarrow> Inr (- EBADF, set_handles mi hs w)
       | (Some h, hs) \<Rightarrow>
           let h' = h\<lparr>lh_refs := lh_refs h - 1\<rparr>; hs1 = rcparray_poke hs (to_size_t fd) h';
               hs2 = (if lh_refs h' = 0 then snd (rcparray_remove hs1 (to_size_t fd)) else hs1)
           in Inr (0, set_handles mi (rcparray_unref hs2 (to_size_t fd)) w))"


text \<open>A \<open>long\<close> stored through the pointer: eight bytes.\<close>

definition iso9660_ioctl :: "mount_info \<Rightarrow> int \<Rightarrow> int \<Rightarrow> bytes \<Rightarrow> 's isosys \<Rightarrow> (int \<times> bytes \<times> 's isosys) res" where
  "iso9660_ioctl mi fd code buf w =
     (if code \<noteq> IOCTL_BYTES_AVAILABLE then Inr (- ENOSYS, buf, w)
      else mapR (\<lambda>((r, b), w'). (r, b, w'))
        (with_lhandle mi fd (- EBADF, buf) (\<lambda>h s.
           if length buf < 8 then Inl OutOfBounds
           else Inr ((0, blit buf 0 (le32 (unat (lh_size h - lh_pos h)) @ replicate 4 0)), h, s)) w))"

section \<open>Directories\<close>

definition iso9660_opendir ::
    "'s reader \<Rightarrow> bytes \<Rightarrow> bytes \<Rightarrow> u16 \<Rightarrow> mount_info \<Rightarrow> bytes \<Rightarrow> 's isosys \<Rightarrow> (int \<times> 's isosys) res" where
  "iso9660_opendir rd junk seg junk_type mi path w =
     bindR (iso_lookup rd junk seg junk_type mi path w) (\<lambda>(r, w').
       case r of
         Inl e \<Rightarrow> Inr (e, w')
       | Inr (t, dir, sz, _) \<Rightarrow>
           if t \<noteq> FS_TYPE_DIR then Inr (- ENOTDIR, w')
           else bindR (rd (m_dev mi) (kblock ISO_BLOCK_SIZE) (ucast (dir * 2048)) ISO_BLOCK_SIZE (below w')) (\<lambda>(_, b, s).
             case rcparray_add (lhandles (privates w' ! private_data mi))
                 \<lparr>lh_start = dir, lh_size = sz, lh_pos = 0, lh_block_read = 0xFFFFFFFF, lh_buffer = b, lh_refs = 0, lh_type = t\<rparr> of
               (i, hs) \<Rightarrow> Inr (int i, set_handles mi hs (w'\<lparr>below := s\<rparr>))))"

text \<open>The loop of \<open>iso9660_readdir\<close>: the next entry, skipping the unused ends of blocks.\<close>

partial_function (option) readdir_loop ::
    "'s reader \<Rightarrow> int \<Rightarrow> dentry \<Rightarrow> lhandle \<Rightarrow> 's \<Rightarrow> ((int \<times> dentry) \<times> lhandle \<times> 's) res option" where
  "readdir_loop rd dev de h s =
     (if lh_size h \<le> lh_pos h then Some (Inr ((- 1, de), h, s))
      else case (if lh_pos h div 2048 \<noteq> lh_block_read h
                 then mapR (\<lambda>(_, b, s'). (h\<lparr>lh_buffer := b, lh_block_read := lh_pos h div 2048\<rparr>, s'))
                        (rd dev (lh_buffer h) (ucast (lh_start h * 2048 + lh_pos h)) ISO_BLOCK_SIZE s)
                 else Inr (h, s)) of
        Inl e \<Rightarrow> Some (Inl e)
      | Inr (h1, s1) \<Rightarrow>
          let off = unat (lh_pos h1 mod 2048)
          in case dentry_flags (lh_buffer h1) off of
               Inl e \<Rightarrow> Some (Inl e)
             | Inr f \<Rightarrow> (case dentry_len (lh_buffer h1) off of
                 Inl e \<Rightarrow> Some (Inl e)
               | Inr len \<Rightarrow>
                   let de1 = de\<lparr>dtype := type_of_flags f\<rparr>
                   in if len = 0
                      then let h2 = h1\<lparr>lh_pos := lh_pos h1 + (2048 - lh_pos h1 mod 2048)\<rparr>
                           in if lh_size h2 \<le> lh_pos h2 then Some (Inr ((- 1, de1), h2, s1))
                              else readdir_loop rd dev de1 h2 s1
                      else Some (mapR (\<lambda>nb. ((0, de1\<lparr>dname := nb\<rparr>), h1\<lparr>lh_pos := lh_pos h1 + ucast len\<rparr>, s1))
                             (iso_name (dname de1) (lh_buffer h1) off 255))))"

definition iso9660_readdir ::
    "'s reader \<Rightarrow> dentry \<Rightarrow> mount_info \<Rightarrow> int \<Rightarrow> 's isosys \<Rightarrow> (int \<times> dentry \<times> 's isosys) res" where
  "iso9660_readdir rd de mi fd w =
     mapR (\<lambda>((r, d), w'). (r, d, w'))
       (with_lhandle mi fd (- EBADF, de) (\<lambda>h s.
          if lh_type h \<noteq> FS_TYPE_DIR then Inr ((- EBADF, de), h, s)
          else returned (readdir_loop rd (m_dev mi) de h s)) w)"

definition iso9660_finfo ::
    "'s reader \<Rightarrow> bytes \<Rightarrow> bytes \<Rightarrow> u16 \<Rightarrow> finfo \<Rightarrow> mount_info \<Rightarrow> bytes \<Rightarrow> 's isosys \<Rightarrow> (int \<times> finfo \<times> 's isosys) res" where
  "iso9660_finfo rd junk seg junk_type fi mi path w =
     bindR (iso_lookup rd junk seg junk_type mi path w) (\<lambda>(r, w').
       case r of
         Inl e \<Rightarrow> Inr (e, fi, w')
       | Inr (_, _, _, d) \<Rightarrow>
           bindR (dentry_size d 0) (\<lambda>sz. bindR (dentry_flags d 0) (\<lambda>f.
             Inr (0, \<lparr>fi_dev = m_dev mi, fi_type = type_of_flags f, fi_size = ucast sz, fi_block_size = 2048,
                      fi_block_count = ucast ((sz + 2048 - 1) div 2048)\<rparr>, w'))))"

definition iso9660_fs :: "'s reader \<Rightarrow> bytes \<Rightarrow> bytes \<Rightarrow> u16 \<Rightarrow> finfo \<Rightarrow> 's isosys filesystem" where
  "iso9660_fs rd junk seg junk_type fi = \<lparr>fs_name = cstr ''iso9660'' @ replicate 16 0,
     fsop_mount = Some (iso9660_mount rd), fsop_open = Some (iso9660_open rd junk seg junk_type), fsop_read = Some (iso9660_read rd),
     fsop_write = Some iso9660_write, fsop_seek = Some iso9660_seek, fsop_close = Some iso9660_close,
     fsop_ioctl = Some iso9660_ioctl, fsop_opendir = Some (iso9660_opendir rd junk seg junk_type),
     fsop_readdir = Some (iso9660_readdir rd no_dentry), fsop_finfo = Some (iso9660_finfo rd junk seg junk_type fi), fsop_dup = None\<rparr>"

end
