(* ===== verification/IsoImage.thy ===== *)
theory IsoImage
  imports Iso9660
begin

text \<open>
  What the operations of the driver of optical disks compute, on the bytes of an image: the search
  of a directory as a search by name through the entries of its blocks, paths as lists of segments,
  files as slices of the image. \<open>block_source\<close> is what the driver relies on below, interpreted on
  the reads of the block layer.
\<close>


section \<open>Names of directory entries\<close>

text \<open>The name an entry is known by: \<open>.\<close> and \<open>..\<close> for the first two, and no version number.\<close>

definition shown_name :: "bytes \<Rightarrow> nat \<Rightarrow> bytes" where
  "shown_name blk off =
     (let c = blk ! (off + 33)
      in if c = 0 then bytes_of ''.'' else if c = 1 then bytes_of ''..''
         else takeWhile (\<lambda>c. c \<noteq> 0 \<and> c \<noteq> 59) (take (unat (blk ! (off + 32))) (drop (off + 33) blk)))"

lemma cstring_shown_name: "cstring (shown_name blk off)"
  by (auto simp: shown_name_def Let_def cstring_def bytes_of_def dest: set_takeWhileD)

lemma strchrnul_semicolon:
  "cstring l \<Longrightarrow> strchrnul (l @ 0 # rest) 59 = Inr (length (takeWhile (\<lambda>c. c \<noteq> 59) l))"
  using strchrnul_terminated [of l rest 59] by simp

lemma takeWhile_both: "takeWhile P (takeWhile Q xs) = takeWhile (\<lambda>c. Q c \<and> P c) xs"
  by (induction xs) auto

lemma cut_at_semicolon:
  assumes "cstring s"
  shows "\<exists>rest'. bindR (strchrnul (s @ 0 # rest) 59) (\<lambda>k. updR (s @ 0 # rest) k 0) =
    Inr (takeWhile (\<lambda>c. c \<noteq> 59) s @ 0 # rest') \<and> length rest' + length (takeWhile (\<lambda>c. c \<noteq> 59) s) = length s + length rest"
proof -
  let ?t = "takeWhile (\<lambda>c. c \<noteq> 59) s"
  have k: "length ?t \<le> length s" by (rule length_takeWhile_le)
  then have "(s @ 0 # rest)[length ?t := 0] = ?t @ 0 # drop (Suc (length ?t)) (s @ 0 # rest)"
    by (simp add: upd_conv_take_nth_drop takeWhile_eq_take [symmetric])
  then show ?thesis using k by (intro exI [of _ "drop (Suc (length ?t)) (s @ 0 # rest)"]) (simp add: strchrnul_semicolon [OF assms])
qed

lemma iso_name_shown:
  assumes "off + 33 + unat (blk ! (off + 32)) < length blk" and "unat (blk ! (off + 32)) < limit" and "limit \<le> length nb" and "3 \<le> limit"
  shows "\<exists>rest. iso_name nb blk off limit = Inr (shown_name blk off @ 0 # rest) \<and>
    length (shown_name blk off @ 0 # rest) = length nb"
proof -
  let ?c = "blk ! (off + 33)" and ?fl = "unat (blk ! (off + 32))"
  have rd: "nthR blk (off + 33) = Inr ?c" "dentry_name_len blk off = Inr (blk ! (off + 32))"
    using assms(1) by (simp_all add: dentry_name_len_def)
  consider "?c = 0" | "?c = 1" | "?c \<noteq> 0" "?c \<noteq> 1" by blast
  then show ?thesis
  proof cases
    case 1
    moreover have "strcpy nb (cstr ''.'') = Inr (bytes_of ''.'' @ 0 # drop (Suc (Suc 0)) nb)"
      using strcpy_terminated [of "bytes_of ''.''" nb "[]"] assms(3,4) by (simp add: cstr_def bytes_of_def cstring_def)
    ultimately show ?thesis using rd assms(3,4) by (auto simp: iso_name_def shown_name_def)
  next
    case 2
    moreover have "strcpy nb (cstr ''..'') = Inr (bytes_of ''..'' @ 0 # drop (Suc (Suc (Suc 0))) nb)"
      using strcpy_terminated [of "bytes_of ''..''" nb "[]"] assms(3,4) by (simp add: cstr_def bytes_of_def cstring_def)
    ultimately show ?thesis using rd assms(3,4) by (auto simp: iso_name_def shown_name_def)
  next
    case 3
    define s where "s = takeWhile (\<lambda>c. c \<noteq> 0) (take ?fl (drop (off + 33) blk))"
    have cs: "cstring s" by (auto simp: s_def cstring_def dest: set_takeWhileD)
    have ls: "length s \<le> ?fl" unfolding s_def by (rule order_trans [OF length_takeWhile_le]) simp
    have m: "min limit (?fl + 1) = ?fl + 1" using assms(2) by simp
    have "\<exists>k. snprintf nb (?fl + 1) (cstr ''%s'') [AStr (drop (off + 33) blk)] = Inr (k, blit nb 0 (s @ [0]))"
      unfolding s_def using snprintf_open_string [of "?fl + 1" nb "drop (off + 33) blk"] assms
      by (simp add: Suc_le_eq less_diff_conv add.commute)
    then obtain k where k: "snprintf nb (?fl + 1) (cstr ''%s'') [AStr (drop (off + 33) blk)] = Inr (k, blit nb 0 (s @ [0]))" ..
    have b: "blit nb 0 (s @ [0]) = s @ 0 # drop (Suc (length s)) nb" by (simp add: blit_def)
    obtain rest' where r: "bindR (strchrnul (s @ 0 # drop (Suc (length s)) nb) 59) (\<lambda>k. updR (s @ 0 # drop (Suc (length s)) nb) k 0) =
        Inr (takeWhile (\<lambda>c. c \<noteq> 59) s @ 0 # rest')"
      "length rest' + length (takeWhile (\<lambda>c. c \<noteq> 59) s) = length s + length (drop (Suc (length s)) nb)"
      using cut_at_semicolon [OF cs] by blast
    have sn: "shown_name blk off = takeWhile (\<lambda>c. c \<noteq> 59) s"
      using 3 by (simp add: shown_name_def Let_def s_def takeWhile_both)
    have "iso_name nb blk off limit = Inr (shown_name blk off @ 0 # rest')"
      using 3 rd by (simp only: iso_name_def bindR_simps if_False m k b prod.case r(1) sn)
    then show ?thesis using r(2) ls assms(2,3) sn by auto
  qed
qed

section \<open>Directories\<close>

text \<open>The places of the entries of a block, from \<open>off\<close> on; an entry of length zero ends the block.\<close>

function entries :: "bytes \<Rightarrow> nat \<Rightarrow> nat list" where
  "entries blk off = (if off < 2048 \<and> blk ! off \<noteq> 0 then off # entries blk (off + unat (blk ! off)) else [])"
  by pat_completeness auto
termination
  by (relation "measure (\<lambda>(blk, off). 2048 - off)") (auto simp: word_gt_0 unat_gt_0 intro: diff_less_mono2)

declare entries.simps [simp del]

text \<open>Every entry lies inside the block, with the byte behind its name.\<close>

definition wf_block :: "bytes \<Rightarrow> bool" where
  "wf_block blk \<longleftrightarrow> length blk = 2048 \<and> (\<forall>off \<in> set (entries blk 0). off + 33 + unat (blk ! (off + 32)) < 2048)"

definition hit_at :: "bytes \<Rightarrow> nat \<Rightarrow> u16 \<times> u32 \<times> u32 \<times> bytes" where
  "hit_at blk off = (type_of_flags (blk ! (off + 25)), of_nat (un32 (take 4 (drop (off + 2) blk))),
     of_nat (un32 (take 4 (drop (off + 10) blk))), take SIZEOF_DENTRY (drop off blk))"

text \<open>The first entry with the name, in the order of the blocks.\<close>

definition block_find :: "bytes \<Rightarrow> bytes \<Rightarrow> nat \<Rightarrow> nat option" where
  "block_find seg blk off = find (\<lambda>o'. shown_name blk o' = seg) (entries blk off)"

fun dir_find :: "bytes \<Rightarrow> bytes list \<Rightarrow> (u16 \<times> u32 \<times> u32 \<times> bytes) option" where
  "dir_find seg [] = None"
| "dir_find seg (blk # blks) =
     (case block_find seg blk 0 of Some off \<Rightarrow> Some (hit_at blk off) | None \<Rightarrow> dir_find seg blks)"

lemma iso_hit_at: "off + 33 \<le> length blk \<Longrightarrow> iso_hit blk off = Inr (hit_at blk off)"
  by (simp add: iso_hit_def hit_at_def dentry_lba_def dentry_size_def dentry_flags_def rd32_def SIZEOF_DENTRY_def)

lemma entries_suffix: "\<forall>o' \<in> set (entries blk off). P o' \<Longrightarrow> off < 2048 \<Longrightarrow> blk ! off \<noteq> 0 \<Longrightarrow>
    P off \<and> (\<forall>o' \<in> set (entries blk (off + unat (blk ! off))). P o')"
  by (simp add: entries.simps [of blk off])

text \<open>What the loop does when the entries of the block are used up.\<close>

definition next_block where
  "next_block rd dev start sz segment progress buffer nb s =
     (case rd dev buffer (start + ucast (progress + 2048)) ISO_BLOCK_SIZE s of
        Inl e \<Rightarrow> Some (Inl e)
      | Inr (_, buffer', s') \<Rightarrow>
          if \<not> progress + 2048 < sz then Some (Inr (None, s'))
          else find_loop rd dev start sz segment (progress + 2048) 0 buffer' nb s')"

lemma find_loop_block:
  assumes "progress < sz" and "length blk = 2048" and "length nb = 256" and "cstring seg" and "off < 2048"
    and "\<forall>o' \<in> set (entries blk off). o' + 33 + unat (blk ! (o' + 32)) < 2048"
  shows "\<exists>nb'. length nb' = 256 \<and> find_loop rd dev start sz (seg @ 0 # r) progress off blk nb s =
    (case block_find seg blk off of
       Some o' \<Rightarrow> Some (Inr (Some (hit_at blk o'), s))
     | None \<Rightarrow> next_block rd dev start sz (seg @ 0 # r) progress blk nb' s)"
  using assms(2,3,5,6)
proof (induction blk off arbitrary: nb rule: entries.induct)
  case (1 blk off)
  let ?len = "blk ! off" and ?seg = "seg @ 0 # r"
  have dl: "dentry_len blk off = Inr ?len" using 1(4) 1(2) by (simp add: dentry_len_def)
  show ?case
  proof (cases "?len = 0")
    case True
    then have "find_loop rd dev start sz ?seg progress off blk nb s = next_block rd dev start sz ?seg progress blk nb s"
      using assms(1) dl by (subst find_loop.simps) (simp add: next_block_def split: sum.splits)
    then show ?thesis using True 1(3) by (auto simp: block_find_def entries.simps [of blk off])
  next
    case False
    note e = entries.simps [of blk off]
    have in_blk: "off + 33 + unat (blk ! (off + 32)) < 2048"
      and rest: "\<forall>o' \<in> set (entries blk (off + unat ?len)). o' + 33 + unat (blk ! (o' + 32)) < 2048"
      using 1(4,5) False by (simp_all add: e)
    have "\<exists>rest. iso_name nb blk off 256 = Inr (shown_name blk off @ 0 # rest) \<and> length (shown_name blk off @ 0 # rest) = length nb"
      by (rule iso_name_shown) (use in_blk 1(2) 1(3) unat_u8_less [of "blk ! (off + 32)"] in auto)
    then obtain rest where nm: "iso_name nb blk off 256 = Inr (shown_name blk off @ 0 # rest)"
      and nl: "length (shown_name blk off @ 0 # rest) = 256" using 1(3) by auto
    obtain c where c: "strcmp (shown_name blk off @ 0 # rest) ?seg = Inr c" "c = 0 \<longleftrightarrow> shown_name blk off = seg"
      using strcmp_ex [OF cstring_shown_name assms(4), of blk off rest r] strcmp_terminated [OF cstring_shown_name assms(4), of blk off rest r] by auto
    have len: "unat ?len < 256" using unat_u8_less [of ?len] by simp
    have off': "(off + unat ?len) mod 65536 = off + unat ?len" using len 1(4) by simp
    let ?nb = "shown_name blk off @ 0 # rest"
    have step: "find_loop rd dev start sz ?seg progress off blk nb s =
        (if shown_name blk off = seg then Some (Inr (Some (hit_at blk off), s))
         else if 2048 \<le> off + unat ?len then next_block rd dev start sz ?seg progress blk ?nb s
         else find_loop rd dev start sz ?seg progress (off + unat ?len) blk ?nb s)"
      using assms(1) 1(2) in_blk
      by (subst find_loop.simps) (simp add: dl False nm c off' iso_hit_at next_block_def ISO_BLOCK_SIZE_def Let_def split: sum.splits)
    show ?thesis
    proof (cases "shown_name blk off = seg \<or> 2048 \<le> off + unat ?len")
      case True
      then show ?thesis
        using step nl False 1(4) by (intro exI [of _ ?nb]) (auto simp: block_find_def e entries.simps [of blk "off + unat ?len"])
    next
      case go: False
      have "block_find seg blk off = block_find seg blk (off + unat ?len)"
        using go False 1(4) by (simp add: block_find_def e)
      then show ?thesis using step go 1(1) [of ?nb, OF _ 1(2) nl _ rest] 1(4) False by auto
    qed
  qed
qed


section \<open>Directories of an image\<close>

definition image_block :: "bytes \<Rightarrow> nat \<Rightarrow> bytes" where
  "image_block img k = take 2048 (drop (2048 * k) img)"

definition block_count :: "u32 \<Rightarrow> nat" where
  "block_count sz = (unat sz + 2047) div 2048"

definition dir_blocks :: "bytes \<Rightarrow> nat \<Rightarrow> nat \<Rightarrow> bytes list" where
  "dir_blocks img k n = map (image_block img) [k..<k + n]"

text \<open>
  A directory that the driver can search: it lies in the first 4 GiB of the image with one block
  behind it, which the driver reads as well, and its blocks are well formed.
\<close>

definition dir_ok :: "bytes \<Rightarrow> u32 \<Rightarrow> u32 \<Rightarrow> bool" where
  "dir_ok img lba sz \<longleftrightarrow> unat lba * 2048 < 2 ^ 32 \<and> unat sz + 2048 \<le> 2 ^ 32 \<and>
     2048 * (unat lba + block_count sz + 1) \<le> length img \<and> (\<forall>blk \<in> set (dir_blocks img (unat lba) (block_count sz)). wf_block blk)"

lemma block_count_less: "k < block_count sz \<longleftrightarrow> 2048 * k < unat sz"
proof -
  have "2048 * block_count sz + (unat sz + 2047) mod 2048 = unat sz + 2047" by (simp add: block_count_def)
  moreover have "(unat sz + 2047) mod 2048 < 2048" by simp
  ultimately show ?thesis by linarith
qed

lemma length_image_block: "2048 * k + 2048 \<le> length img \<Longrightarrow> length (image_block img k) = 2048"
  by (simp add: image_block_def)

lemma dir_blocks_first: "0 < n \<Longrightarrow> dir_blocks img k n = image_block img k # dir_blocks img (Suc k) (n - 1)"
  by (cases n) (simp_all add: dir_blocks_def upt_conv_Cons del: upt_Suc)

lemma next_progress:
  assumes "2048 * Suc k < 2 ^ 32"
  shows "(of_nat (2048 * k) :: u32) + 2048 = of_nat (2048 * Suc k)"
    and "of_nat (2048 * l) + ucast (of_nat (2048 * Suc k) :: u32) = (of_nat (2048 * (l + Suc k)) :: u64)"
proof -
  show "(of_nat (2048 * k) :: u32) + 2048 = of_nat (2048 * Suc k)" by simp
  have "ucast (of_nat (2048 * Suc k) :: u32) = (of_nat (2048 * Suc k) :: u64)"
    using assms by (rule ucast_of_nat_u32)
  then show "of_nat (2048 * l) + ucast (of_nat (2048 * Suc k) :: u32) = (of_nat (2048 * (l + Suc k)) :: u64)"
    by (simp add: algebra_simps)
qed

section \<open>Paths on an image\<close>

text \<open>What a list of segments leads to from an entry; an entry that is passed through has to be a directory.\<close>

fun resolve :: "bytes \<Rightarrow> u16 \<times> u32 \<times> u32 \<times> bytes \<Rightarrow> bytes list \<Rightarrow> (u16 \<times> u32 \<times> u32 \<times> bytes) option" where
  "resolve img cur [] = Some cur"
| "resolve img (t, lba, sz, d) (seg # segs) =
     (case dir_find seg (dir_blocks img (unat lba) (block_count sz)) of
        None \<Rightarrow> None
      | Some cur' \<Rightarrow> if segs = [] then Some cur' else if fst cur' = FS_TYPE_DIR then resolve img cur' segs else None)"

text \<open>The directories on the way can be searched.\<close>

fun walk_ok :: "bytes \<Rightarrow> u16 \<times> u32 \<times> u32 \<times> bytes \<Rightarrow> bytes list \<Rightarrow> bool" where
  "walk_ok img cur [] = True"
| "walk_ok img (t, lba, sz, d) (seg # segs) \<longleftrightarrow> dir_ok img lba sz \<and>
     (case dir_find seg (dir_blocks img (unat lba) (block_count sz)) of
        None \<Rightarrow> True
      | Some cur' \<Rightarrow> segs \<noteq> [] \<longrightarrow> fst cur' = FS_TYPE_DIR \<longrightarrow> walk_ok img cur' segs)"

definition root_entry :: "u16 \<Rightarrow> iso9660private \<Rightarrow> u16 \<times> u32 \<times> u32 \<times> bytes" where
  "root_entry jt p = (jt, root_lba p, of_nat (un32 (take 4 (drop (PVD_ROOT + 10) (pvd p)))), take SIZEOF_DENTRY (drop PVD_ROOT (pvd p)))"

section \<open>Reading files\<close>

definition mounted :: "mount_info \<Rightarrow> 's isosys \<Rightarrow> bool" where
  "mounted mi w \<longleftrightarrow> private_data mi < length (privates w) \<and> length (pvd (privates w ! private_data mi)) = 2048 \<and>
     quiet (lhandles (privates w ! private_data mi)) \<and> length (lhandles (privates w ! private_data mi)) < 2 ^ 31"

definition file_open :: "bytes \<Rightarrow> mount_info \<Rightarrow> nat \<Rightarrow> lhandle \<Rightarrow> 's isosys \<Rightarrow> bool" where
  "file_open img mi fd h w \<longleftrightarrow> private_data mi < length (privates w) \<and> quiet (lhandles (privates w ! private_data mi)) \<and>
     open_at (lhandles (privates w ! private_data mi)) fd = Some h \<and> lh_type h \<noteq> FS_TYPE_DIR \<and> lh_pos h \<le> lh_size h \<and>
     unat (lh_start h) * 2048 + unat (lh_size h) \<le> length img"

definition contents :: "bytes \<Rightarrow> lhandle \<Rightarrow> bytes" where
  "contents img h = take (unat (lh_size h)) (drop (unat (lh_start h) * 2048) img)"

text \<open>Reading one piece after the other; the bytes of all of them.\<close>

fun read_seq :: "'s reader \<Rightarrow> mount_info \<Rightarrow> int \<Rightarrow> nat list \<Rightarrow> 's isosys \<Rightarrow> (bytes \<times> 's isosys) res" where
  "read_seq rd mi fd [] w = Inr ([], w)"
| "read_seq rd mi fd (len # lens) w =
     bindR (iso9660_read rd mi fd len w) (\<lambda>(_, b, w'). mapR (\<lambda>(bs, w''). (b @ bs, w'')) (read_seq rd mi fd lens w'))"

section \<open>The block layer as a source\<close>

text \<open>
  What the driver relies on: reading from the device ends and gives the bytes of an image, for
  whole blocks always, and otherwise for the lengths the device can read exactly.
\<close>

locale block_source =
  fixes rd :: "'s reader" and dev :: int and ok :: "'s \<Rightarrow> bool" and img :: bytes and exact :: "nat \<Rightarrow> nat \<Rightarrow> bool"
  assumes read_bytes: "ok s \<Longrightarrow> 0 < len \<Longrightarrow> p + len \<le> length img \<Longrightarrow> exact p len \<Longrightarrow> len \<le> length buffer \<Longrightarrow>
      \<exists>s'. ok s' \<and> rd dev buffer (of_nat p) len s = Inr (0, blit buffer 0 (take len (drop p img)), s')"
    and exact_block: "ok s \<Longrightarrow> exact (2048 * k) 2048"
    and read_empty: "rd dev buffer pos64 0 s = Inr (0, buffer, s)"
begin

lemma read_block:
  assumes "ok s" and "2048 * k + 2048 \<le> length img" and "length buffer = 2048"
  shows "\<exists>s'. ok s' \<and> rd dev buffer (of_nat (2048 * k)) 2048 s = Inr (0, image_block img k, s')"
  using read_bytes [of s 2048 "2048 * k" buffer, OF assms(1) _ assms(2) exact_block [OF assms(1)]] assms
  by (simp add: image_block_def blit_def)

lemma find_loop_dir:
  assumes "ok s" and "k < block_count sz" and "length nb = 256" and "cstring seg"
    and "unat sz + 2048 \<le> 2 ^ 32" and "2048 * (l + block_count sz + 1) \<le> length img"
    and "\<forall>blk \<in> set (dir_blocks img (l + k) (block_count sz - k)). wf_block blk"
  shows "\<exists>s'. ok s' \<and> find_loop rd dev (of_nat (2048 * l)) sz (seg @ 0 # r) (of_nat (2048 * k)) 0 (image_block img (l + k)) nb s =
    Some (Inr (dir_find seg (dir_blocks img (l + k) (block_count sz - k)), s'))"
  using assms(1,2,3,7)
proof (induction "block_count sz - k" arbitrary: k nb s)
  case (Suc n)
  let ?blk = "image_block img (l + k)" and ?seg = "seg @ 0 # r"
  have k: "2048 * k < unat sz" using Suc.prems(2) by (simp add: block_count_less)
  have db: "dir_blocks img (l + k) (block_count sz - k) = ?blk # dir_blocks img (l + Suc k) (block_count sz - Suc k)"
    using dir_blocks_first [of "block_count sz - k" img "l + k"] Suc.prems(2) by simp
  have wf: "wf_block ?blk" using Suc.prems(4) by (simp add: db)
  have k1: "2048 * Suc k < 2 ^ 32" using k assms(5) by simp
  have pw: "(of_nat (2048 * j) < sz) = (j < block_count sz)" if "2048 * j < 2 ^ 32" for j
    using that by (simp add: block_count_less word_less_nat_alt unat_of_nat del: of_nat_mult)
  have "2048 * k < 2 ^ 32" using k1 by simp
  then have p: "of_nat (2048 * k) < sz" using pw Suc.prems(2) by simp
  obtain nb' where nb': "length nb' = 256" "find_loop rd dev (of_nat (2048 * l)) sz ?seg (of_nat (2048 * k)) 0 ?blk nb s =
      (case block_find seg ?blk 0 of Some o' \<Rightarrow> Some (Inr (Some (hit_at ?blk o'), s))
       | None \<Rightarrow> next_block rd dev (of_nat (2048 * l)) sz ?seg (of_nat (2048 * k)) ?blk nb' s)"
    using find_loop_block [OF p _ Suc.prems(3) assms(4), of ?blk 0 rd dev "of_nat (2048 * l)" r s] wf by (auto simp: wf_block_def)
  show ?case
  proof (cases "block_find seg ?blk 0")
    case (Some o')
    then show ?thesis using nb'(2) Suc.prems(1) by (auto simp: db)
  next
    case None
    have "2048 * (l + Suc k) + 2048 \<le> length img" using assms(6) Suc.prems(2) by simp
    then obtain s1 where s1: "ok s1" "rd dev ?blk (of_nat (2048 * (l + Suc k))) 2048 s = Inr (0, image_block img (l + Suc k), s1)"
      using read_block [OF Suc.prems(1)] wf unfolding wf_block_def by blast
    have nx: "next_block rd dev (of_nat (2048 * l)) sz ?seg (of_nat (2048 * k)) ?blk nb' s =
        (if \<not> Suc k < block_count sz then Some (Inr (None, s1))
         else find_loop rd dev (of_nat (2048 * l)) sz ?seg (of_nat (2048 * Suc k)) 0 (image_block img (l + Suc k)) nb' s1)"
      by (simp only: next_block_def next_progress(2) [OF k1] ISO_BLOCK_SIZE_def s1(2) sum.case prod.case next_progress(1) [OF k1] pw [OF k1])
    show ?thesis
    proof (cases "Suc k < block_count sz")
      case True
      have "\<exists>s'. ok s' \<and> find_loop rd dev (of_nat (2048 * l)) sz ?seg (of_nat (2048 * Suc k)) 0 (image_block img (l + Suc k)) nb' s1 =
          Some (Inr (dir_find seg (dir_blocks img (l + Suc k) (block_count sz - Suc k)), s'))"
        by (rule Suc.hyps(1)) (use Suc.hyps(2) Suc.prems(4) s1(1) True nb'(1) in \<open>auto simp: db\<close>)
      then show ?thesis using nb'(2) None True nx by (auto simp: db)
    next
      case False
      then have "dir_blocks img (l + Suc k) (block_count sz - Suc k) = []" by (simp add: dir_blocks_def)
      then show ?thesis using nb'(2) None False nx s1(1) by (auto simp: db)
    qed
  qed
qed simp

theorem find_correct:
  assumes "ok s" and "dir_ok img lba sz" and "length junk = 256" and "cstring seg"
  shows "\<exists>s'. ok s' \<and> iso9660_find rd junk dev lba sz (seg @ 0 # r) s =
    Inr (dir_find seg (dir_blocks img (unat lba) (block_count sz)), s')"
proof -
  have l: "unat lba * 2048 < 2 ^ 32" "unat sz + 2048 \<le> 2 ^ 32" "2048 * (unat lba + block_count sz + 1) \<le> length img"
    "\<forall>blk \<in> set (dir_blocks img (unat lba) (block_count sz)). wf_block blk"
    using assms(2) by (simp_all add: dir_ok_def)
  have "lba * 2048 = of_nat (2048 * unat lba)" by (simp add: mult.commute)
  then have st: "(ucast (lba * 2048) :: u64) = of_nat (2048 * unat lba)"
    using ucast_of_nat_u32 [of "2048 * unat lba"] l(1) by (simp only: mult.commute [of 2048])
  have kb: "length (kblock 2048) = 2048" by (simp add: kblock_def)
  have "2048 * unat lba + 2048 \<le> length img" using l(3) by simp
  then obtain s1 where s1: "ok s1" "rd dev (kblock 2048) (of_nat (2048 * unat lba)) 2048 s = Inr (0, image_block img (unat lba), s1)"
    using read_block [OF assms(1) _ kb] by blast
  have run: "iso9660_find rd junk dev lba sz (seg @ 0 # r) s =
      returned (find_loop rd dev (of_nat (2048 * unat lba)) sz (seg @ 0 # r) 0 0 (image_block img (unat lba)) junk s1)"
    by (simp only: iso9660_find_def st Let_def ISO_BLOCK_SIZE_def s1(2) bindR_simps prod.case)
  show ?thesis
  proof (cases "0 < block_count sz")
    case True
    then show ?thesis using find_loop_dir [OF s1(1) True assms(3,4) l(2,3), of r] l(4) run by auto
  next
    case False
    then have "\<not> 0 < sz" using block_count_less [of 0 sz] by (simp add: word_less_nat_alt)
    then show ?thesis using run s1(1) False by (subst (asm) find_loop.simps) (simp add: dir_blocks_def)
  qed
qed


text \<open>The walk over the segments of a path.\<close>

lemma walk_correct:
  assumes "ok s" and "cstring p" and "\<forall>seg \<in> set (segs_of p). length seg \<le> 255" and "walk_ok img cur (segs_of p)"
    and "length junk = 256" and "length segment = 256"
  shows "\<exists>s'. ok s' \<and> iso_walk rd junk dev (p @ 0 # rest) segment (int (length (segs_of p))) cur s =
    Inr (case resolve img cur (segs_of p) of None \<Rightarrow> Inl (- ENOENT) | Some h \<Rightarrow> Inr h, s')"
  using assms(1-4,6)
proof (induction p arbitrary: cur segment s rule: segs_of.induct)
  case (1 p)
  define l where "l = dropWhile (\<lambda>c. c = 47) p"
  have cl: "cstring l" unfolding l_def by (rule cstring_dropWhile [OF 1(3)])
  note ns = next_segment_cstr [OF 1(3), of rest, folded l_def]
  show ?case
  proof (cases "l = []")
    case True
    then have "segs_of p = []" by (subst segs_of.simps) (simp add: l_def)
    then show ?thesis using ns True 1(2) by (subst iso_walk.simps) (auto simp del: dropWhile_eq_Nil_conv)
  next
    case False
    define seg l' where "seg = takeWhile (\<lambda>c. c \<noteq> 47) l" and "l' = dropWhile (\<lambda>c. c \<noteq> 47) l"
    have sp: "segs_of p = seg # segs_of l'"
      using False by (subst segs_of.simps) (simp add: l_def [symmetric] seg_def l'_def)
    obtain t lba sz d where cur: "cur = (t, lba, sz, d)" by (cases cur)
    have n: "length seg \<noteq> 0" using length_takeWhile_slash [OF l_def] False by (simp add: seg_def)
    have cs: "cstring seg" using cl by (auto simp: cstring_def seg_def dest: set_takeWhileD)
    have tk: "take (length seg) l = seg" unfolding seg_def by (rule takeWhile_eq_take [symmetric])
    have "copy_segment segment (length seg + 1) (l @ 0 # rest) = Inr (take (length seg) l @ 0 # drop (length seg + 1) segment)"
      by (rule copy_segment_eq [OF cl]) (use 1(4,6) sp in \<open>auto simp: seg_def length_takeWhile_le\<close>)
    then have cp: "copy_segment segment (length seg + 1) (l @ 0 # rest) = Inr (seg @ 0 # drop (length seg + 1) segment)" by (simp only: tk)
    have dk: "dir_ok img lba sz" using 1(5) by (simp add: sp cur)
    let ?hit = "dir_find seg (dir_blocks img (unat lba) (block_count sz))" and ?seg' = "seg @ 0 # drop (length seg + 1) segment"
    obtain s1 where s1: "ok s1" "iso9660_find rd junk dev lba sz ?seg' s = Inr (?hit, s1)"
      using find_correct [OF 1(2) dk assms(5) cs] by blast
    have run: "iso_walk rd junk dev (p @ 0 # rest) segment (int (length (segs_of p))) cur s =
        (case ?hit of None \<Rightarrow> Inr (Inl (- ENOENT), s1)
         | Some cur' \<Rightarrow> if segs_of l' = [] then Inr (Inr cur', s1)
             else if fst cur' \<noteq> FS_TYPE_DIR then Inr (Inl (- ENOENT), s1)
             else iso_walk rd junk dev (l' @ 0 # rest) ?seg' (int (length (segs_of l'))) cur' s1)"
      using n
      by (subst iso_walk.simps) (simp add: ns seg_def [symmetric] cp [simplified] s1(2) [simplified] cur sp drop_takeWhile [of "\<lambda>c. c \<noteq> 47" l, folded seg_def l'_def]
          del: drop_append split: option.split)
    show ?thesis
    proof (cases ?hit)
      case None
      then show ?thesis using run s1(1) by (auto simp: sp cur)
    next
      case (Some cur')
      show ?thesis
      proof (cases "segs_of l' = [] \<or> fst cur' \<noteq> FS_TYPE_DIR")
        case True
        then show ?thesis using run s1(1) Some by (auto simp: sp cur)
      next
        case go: False
        have "\<exists>s'. ok s' \<and> iso_walk rd junk dev (l' @ 0 # rest) ?seg' (int (length (segs_of l'))) cur' s1 =
            Inr (case resolve img cur' (segs_of l') of None \<Rightarrow> Inl (- ENOENT) | Some h \<Rightarrow> Inr h, s')"
          unfolding l'_def
        proof (rule 1(1) [OF l_def False s1(1)], fold l'_def)
          show "cstring l'" unfolding l'_def by (rule cstring_dropWhile [OF cl])
        qed (use 1(4,5,6) go Some sp cur in auto)
        then show ?thesis using run go Some by (auto simp: sp cur)
      qed
    qed
  qed
qed

theorem lookup_correct:
  assumes "ok (below w)" and "private_data mi < length (privates w)" and "m_dev mi = dev"
    and "cstring p" and "\<forall>seg \<in> set (segs_of p). length seg \<le> 255" and "length (pvd (privates w ! private_data mi)) = 2048"
    and "walk_ok img (root_entry jt (privates w ! private_data mi)) (segs_of p)" and "length junk = 256" and "length seg = 256"
  shows "\<exists>s'. ok s' \<and> iso_lookup rd junk seg jt mi (47 # p @ 0 # rest) w =
    Inr (case resolve img (root_entry jt (privates w ! private_data mi)) (segs_of p) of None \<Rightarrow> Inl (- ENOENT) | Some h \<Rightarrow> Inr h, w\<lparr>below := s'\<rparr>)"
proof -
  let ?p = "privates w ! private_data mi"
  have c: "cstring (47 # p)" using assms(4) by (simp add: cstring_def)
  have sg: "segs_of (47 # p) = segs_of p" by (simp add: segs_of.simps [of "47 # p"] segs_of.simps [of p])
  have n: "path_count_segments (47 # p @ 0 # rest) = Inr (length (segs_of p))"
    using path_count_segments_length [OF c, of rest] by (simp add: sg)
  have "dentry_size (pvd ?p) PVD_ROOT = Inr (fst (snd (snd (root_entry jt ?p))))"
    using assms(6) by (simp add: dentry_size_def rd32_def root_entry_def PVD_ROOT_def)
  moreover obtain s' where "ok s'" "iso_walk rd junk dev (p @ 0 # rest) seg (int (length (segs_of p))) (root_entry jt ?p) (below w) =
      Inr (case resolve img (root_entry jt ?p) (segs_of p) of None \<Rightarrow> Inl (- ENOENT) | Some h \<Rightarrow> Inr h, s')"
    using walk_correct [OF assms(1,4,5,7,8,9)] by blast
  ultimately show ?thesis
    using assms(2,3) n by (intro exI [of _ s']) (simp add: iso_lookup_def root_entry_def)
qed


text \<open>Reading from an open file.\<close>

lemma read_slice:
  assumes "ok (below w)" and "private_data mi < length (privates w)" and "m_dev mi = dev" and "fd < 2 ^ 64"
    and "quiet (lhandles (privates w ! private_data mi))" and "open_at (lhandles (privates w ! private_data mi)) fd = Some h"
    and "lh_type h \<noteq> FS_TYPE_DIR" and "lh_pos h \<le> lh_size h" and "unat (lh_start h) * 2048 + unat (lh_size h) \<le> length img"
    and "n = min (unat (lh_size h) - unat (lh_pos h)) len" and "n < 2 ^ 31" and "0 < n \<Longrightarrow> exact (unat (lh_start h) * 2048 + unat (lh_pos h)) n"
  shows "\<exists>s'. ok s' \<and> iso9660_read rd mi (int fd) len w =
    Inr (int n, take n (drop (unat (lh_start h) * 2048 + unat (lh_pos h)) img),
      set_handles mi (rcparray_unref (rcparray_poke (snd (rcparray_get (lhandles (privates w ! private_data mi)) fd)) fd
        (h\<lparr>lh_pos := of_nat (unat (lh_pos h) + n)\<rparr>)) fd) (w\<lparr>below := s'\<rparr>))"
proof -
  let ?p = "privates w ! private_data mi" and ?at = "unat (lh_start h) * 2048 + unat (lh_pos h)"
  have pos: "unat (lh_pos h) \<le> unat (lh_size h)" using assms(8) by (simp add: word_le_nat_alt)
  have sub: "unat (lh_size h - lh_pos h) = unat (lh_size h) - unat (lh_pos h)" using assms(8) by (rule unat_sub)
  obtain hs where hs: "rcparray_get (lhandles ?p) fd = (Some h, hs)"
    by (rule quiet_get_Some [OF assms(5,6)])
  have al: "(word_of_int (int n) :: 32 word) = of_nat n" by simp
  have sn: "sint (of_nat n :: 32 word) = int n"
    using assms(11) by (simp add: sint_uint signed_take_bit_int_eq_self uint_nat unat_of_nat)
  have ps: "lh_pos h + of_nat n = of_nat (unat (lh_pos h) + n)" by simp
  have adr: "ucast (lh_start h) * 2048 + ucast (lh_pos h) = (of_nat ?at :: u64)" by simp
  have ts: "to_size_t (int n) = n" using assms(11) by simp
  have "\<exists>s' b. ok s' \<and> take n b = take n (drop ?at img) \<and> (\<exists>r. rd dev (replicate len 0) (of_nat ?at) n (below w) = Inr (r, b, s'))"
  proof (cases "n = 0")
    case True
    then show ?thesis using assms(1) read_empty by auto
  next
    case False
    then have n: "0 < n" "n \<le> len" "?at + n \<le> length img" "n \<le> length (replicate len (0 :: u8))" using assms(9,10) pos by auto
    obtain s' where "ok s'" "rd dev (replicate len 0) (of_nat ?at) n (below w) = Inr (0, blit (replicate len 0) 0 (take n (drop ?at img)), s')"
      using read_bytes [OF assms(1) n(1,3) assms(12) [OF n(1)] n(4)] by blast
    moreover have "take n (blit (replicate len 0) 0 (take n (drop ?at img))) = take n (drop ?at img)"
      using n(3) by (simp add: blit_def)
    ultimately show ?thesis by blast
  qed
  then obtain s' b r where s': "ok s'" "take n b = take n (drop ?at img)" "rd dev (replicate len 0) (of_nat ?at) n (below w) = Inr (r, b, s')" by blast
  have "iso9660_read rd mi (int fd) len w =
      Inr (int n, take n b, set_handles mi (rcparray_unref (rcparray_poke hs fd (h\<lparr>lh_pos := of_nat (unat (lh_pos h) + n)\<rparr>)) fd) (w\<lparr>below := s'\<rparr>))"
    using assms(2,4,7)
    by (simp only: iso9660_read_def with_lhandle_def nthR_in bindR_simps to_size_t_of_nat hs prod.case option.case if_False
        sub assms(10) [symmetric] Let_def al sn adr ts assms(3) s'(3) mapR_simps nat_int ps)
  then show ?thesis using s'(1,2) hs by auto
qed


lemma read_seq_contents:
  assumes "ok (below w)" and "m_dev mi = dev" and "fd < 2 ^ 64" and "file_open img mi fd h w"
    and "\<forall>len \<in> set lens. len < 2 ^ 31 \<and> (\<forall>p n. 0 < n \<longrightarrow> n \<le> len \<longrightarrow> exact p n)"
  shows "\<exists>w'. ok (below w') \<and> read_seq rd mi (int fd) lens w = Inr (take (sum_list lens) (drop (unat (lh_pos h)) (contents img h)), w')"
  using assms(1,4,5)
proof (induction lens arbitrary: h w)
  case (Cons len lens)
  define n where "n = min (unat (lh_size h) - unat (lh_pos h)) len"
  define h' where "h' = h\<lparr>lh_pos := of_nat (unat (lh_pos h) + n)\<rparr>"
  note f = Cons.prems(2) [unfolded file_open_def]
  have pos: "unat (lh_pos h) \<le> unat (lh_size h)" using f by (simp add: word_le_nat_alt)
  have n31: "n < 2 ^ 31" using Cons.prems(3) by (auto simp: n_def)
  have ex: "0 < n \<Longrightarrow> exact (unat (lh_start h) * 2048 + unat (lh_pos h)) n" using Cons.prems(3) by (simp add: n_def)
  have rng: "unat (lh_pos h) + n < 2 ^ 32" using pos unsigned_less [of "lh_size h", where 'a = nat] by (auto simp: n_def)
  then have pos': "unat (lh_pos h') = unat (lh_pos h) + n"
    using unat_of_nat [of "unat (lh_pos h) + n", where 'a = 32] by (simp add: h'_def del: of_nat_add)
  obtain s' where s': "ok s'" and run: "iso9660_read rd mi (int fd) len w =
      Inr (int n, take n (drop (unat (lh_start h) * 2048 + unat (lh_pos h)) img),
        set_handles mi (rcparray_unref (rcparray_poke (snd (rcparray_get (lhandles (privates w ! private_data mi)) fd)) fd h') fd) (w\<lparr>below := s'\<rparr>))"
    using read_slice [OF Cons.prems(1) _ assms(2,3) _ _ _ _ _ n_def n31 ex] f unfolding h'_def by blast
  let ?w = "set_handles mi (rcparray_unref (rcparray_poke (snd (rcparray_get (lhandles (privates w ! private_data mi)) fd)) fd h') fd) (w\<lparr>below := s'\<rparr>)"
  have "quiet (rcparray_unref (rcparray_poke (snd (rcparray_get (lhandles (privates w ! private_data mi)) fd)) fd h') fd)"
    and "open_at (rcparray_unref (rcparray_poke (snd (rcparray_get (lhandles (privates w ! private_data mi)) fd)) fd h') fd) fd = Some h'"
    using quiet_get_poke [of "lhandles (privates w ! private_data mi)" fd h, OF _ _ surjective_pairing] f by simp_all
  moreover have "lh_pos h' \<le> lh_size h'" using pos pos' by (simp add: word_le_nat_alt h'_def n_def)
  ultimately have fo: "file_open img mi fd h' ?w"
    using f by (simp add: file_open_def set_handles_def h'_def)
  have "ok (below ?w)" using s' by (simp add: set_handles_def)
  then obtain w' where w': "ok (below w')" "read_seq rd mi (int fd) lens ?w = Inr (take (sum_list lens) (drop (unat (lh_pos h')) (contents img h')), w')"
    using Cons.IH [OF _ fo] Cons.prems(3) by auto
  have c: "contents img h' = contents img h" by (simp add: contents_def h'_def)
  have "take n (drop (unat (lh_start h) * 2048 + unat (lh_pos h)) img) = take len (drop (unat (lh_pos h)) (contents img h))"
    by (simp add: contents_def drop_take n_def min.commute add.commute)
  moreover have "drop (unat (lh_pos h) + n) (contents img h) = drop len (drop (unat (lh_pos h)) (contents img h))"
  proof (cases "n = len")
    case False
    then have "unat (lh_pos h) + n = unat (lh_size h)" "unat (lh_size h) \<le> unat (lh_pos h) + len" using pos by (auto simp: n_def)
    moreover have "length (contents img h) \<le> unat (lh_size h)" by (simp add: contents_def)
    ultimately show ?thesis by (simp add: add.commute)
  qed (simp add: add.commute)
  ultimately show ?case using run w' by (auto simp: pos' c take_add)
qed (simp add: assms(1))

lemma open_correct:
  assumes "ok (below w)" and "mounted mi w" and "m_dev mi = dev"
    and "cstring p" and "\<forall>seg \<in> set (segs_of p). length seg \<le> 255"
    and "walk_ok img (root_entry jt (privates w ! private_data mi)) (segs_of p)" and "length junk = 256" and "length seg = 256"
    and "resolve img (root_entry jt (privates w ! private_data mi)) (segs_of p) = Some (t, lba, sz, d)" and "t \<noteq> FS_TYPE_DIR"
    and "unat lba * 2048 + unat sz \<le> length img"
  shows "\<exists>fd h w'. ok (below w') \<and> fd < 2 ^ 64 \<and> file_open img mi fd h w' \<and> lh_pos h = 0 \<and> contents img h = take (unat sz) (drop (unat lba * 2048) img) \<and>
    iso9660_open rd junk seg jt mi (47 # p @ 0 # rest) mode w = Inr (int fd, w')"
proof -
  let ?p = "privates w ! private_data mi"
  let ?h = "\<lparr>lh_start = lba, lh_size = sz, lh_pos = 0, lh_block_read = 0, lh_buffer = [], lh_refs = 1, lh_type = t\<rparr>"
  note m = assms(2) [unfolded mounted_def]
  obtain s' where s': "ok s'" "iso_lookup rd junk seg jt mi (47 # p @ 0 # rest) w = Inr (Inr (t, lba, sz, d), w\<lparr>below := s'\<rparr>)"
    using lookup_correct [OF assms(1) _ assms(3-5) _ assms(6-8), of rest] m assms(9) by auto
  obtain fd hs where a: "rcparray_add (lhandles ?p) ?h = (fd, hs)" by fastforce
  note q = quiet_add [OF _ a]
  let ?w = "set_handles mi hs (w\<lparr>below := s'\<rparr>)"
  have "iso9660_open rd junk seg jt mi (47 # p @ 0 # rest) mode w = Inr (int fd, ?w)"
    using assms(10) s'(2) a by (simp add: iso9660_open_def)
  moreover have "file_open img mi fd ?h ?w" using m q assms(10,11) by (simp add: file_open_def set_handles_def)
  moreover have "fd < 2 ^ 64" using m q(5) by auto
  ultimately show ?thesis using s'(1) by (intro exI [of _ fd] exI [of _ ?h] exI [of _ ?w]) (simp add: contents_def set_handles_def)
qed

end


text \<open>An idle disk with sectors of \<open>ss\<close> bytes, of which \<open>B\<close> fit a request.\<close>

definition disk_idle ::
    "(int \<Rightarrow> bool) \<Rightarrow> nat \<Rightarrow> int \<Rightarrow> ('d \<Rightarrow> bool) \<Rightarrow> bytes \<Rightarrow> nat \<Rightarrow> nat \<Rightarrow> nat \<Rightarrow> nat \<Rightarrow> 'd devsys \<Rightarrow> bool" where
  "disk_idle alive fr th I img i b ss B s \<longleftrightarrow> alive th \<and> frames_on_stack s fr = None \<and> ss dvd 2048 \<and>
     (\<exists>blk. disk_ready I img i b blk s \<and> unat (sector_size blk) = ss \<and> burst_limit blk = B)"

definition exactly :: "nat \<Rightarrow> nat \<Rightarrow> nat \<Rightarrow> nat \<Rightarrow> bool" where
  "exactly ss B p len \<longleftrightarrow> (let n = (p mod ss + len + (ss - 1)) div ss in n < 65536 \<and> (n \<le> B \<or> (p + len) mod ss = 0))"

lemma ready_served:
  assumes "disk_ready I img i b blk s" and "I w"
  shows "disk_ready I img i b (blk\<lparr>io_queue := None, last_brq := Some fr\<rparr>) (served b blk fr w s)"
  using assms by (auto simp: disk_ready_def)

lemma exactly_block:
  assumes "ss dvd 2048"
  shows "exactly ss B (2048 * k) 2048"
proof -
  have ss: "0 < ss" using assms by (auto intro: Nat.gr0I)
  have d: "ss dvd 2048 * k" using assms by simp
  have "(2048 + (ss - 1)) div ss \<le> 2048" using ceil_bounds(4) [OF ss, of 2048 2048] ss by simp
  then show ?thesis using d assms by (simp add: exactly_def dvd_imp_mod_0 dvd_add)
qed

lemma exactly_small:
  assumes "ss dvd 2048" and "0 < n" and "n + ss \<le> B * ss" and "B < 65536"
  shows "exactly ss B p n"
proof -
  have ss: "0 < ss" using assms(1) by (auto intro: Nat.gr0I)
  have "p mod ss < ss" using ss by simp
  then have "p mod ss + n \<le> B * ss" using assms(3) by linarith
  then have "(p mod ss + n + (ss - 1)) div ss \<le> B" using ceil_bounds(4) [OF ss, of "p mod ss + n" B] assms(2) by simp
  then show ?thesis using assms(4) by (simp add: exactly_def)
qed

interpretation disk: block_source "dev_block_read alive fr th" "int i" "disk_idle alive fr th I img i b ss B" img "exactly ss B"
  for alive fr th I img i b ss B
proof (unfold_locales, goal_cases)
  case (1 s len p buffer)
  then obtain blk where d: "disk_ready I img i b blk s" "unat (sector_size blk) = ss" "burst_limit blk = B" "alive th" "frames_on_stack s fr = None" "ss dvd 2048"
    by (auto simp: disk_idle_def)
  have "\<exists>w. I w \<and> dev_block_read alive fr th (int i) buffer (of_nat p) len s = Inr (0, blit buffer 0 (take len (drop p img)), served b blk fr w s)"
    using 1 d by (intro read_exact) (auto simp: exactly_def sectors_def Let_def)
  then obtain w where w: "I w" "dev_block_read alive fr th (int i) buffer (of_nat p) len s = Inr (0, blit buffer 0 (take len (drop p img)), served b blk fr w s)"
    by blast
  have "disk_idle alive fr th I img i b ss B (served b blk fr w s)"
    unfolding disk_idle_def using d ready_served [OF d(1) w(1), of fr] by (auto simp: burst_limit_def)
  then show ?case using w(2) by blast
next
  case (2 s k)
  then show ?case by (auto simp: disk_idle_def intro: exactly_block)
next
  case (3 buffer pos64 s)
  then show ?case by (simp add: dev_block_read_def)
qed


section \<open>A small image\<close>

definition demo_entry :: bytes where
  "demo_entry = [34, 0, 1, 0, 0, 0, 0, 0, 0, 0, 3, 0, 0, 0, 0, 0, 0, 0, 0, 0, 0, 0, 0, 0, 0, 0, 0, 0, 0, 0, 0, 0, 1, 65]"

definition demo_img :: bytes where
  "demo_img = demo_entry @ replicate 2014 0 @ [7, 8, 9] @ replicate 2045 0"

definition demo_private :: iso9660private where
  "demo_private = \<lparr>pvd = replicate 166 0 @ [34, 0, 0, 0] @ replicate 1878 0, root_lba = 0, lhandles = []\<rparr>"

lemma demo_block: "image_block demo_img 0 = demo_entry @ replicate 2014 0"
  by (simp add: image_block_def demo_img_def demo_entry_def)

lemma demo_entries: "entries (demo_entry @ replicate 2014 0) 0 = [0]"
  by (simp add: entries.simps nth_append demo_entry_def)

lemma demo_name: "shown_name (demo_entry @ replicate 2014 0) 0 = [65]"
  by (simp add: shown_name_def demo_entry_def)

lemma demo_count: "block_count 34 = 1"
  by (simp add: block_count_def)

lemma demo_find: "dir_find [65] (dir_blocks demo_img 0 1) = Some (FS_TYPE_REG, 1, 3, take 33 demo_entry)"
  by (simp add: dir_blocks_def demo_block block_find_def demo_entries demo_name)
    (simp add: hit_at_def demo_entry_def SIZEOF_DENTRY_def un32_def type_of_flags_def)

lemma demo_root: "root_entry jt demo_private = (jt, 0, 34, replicate 10 0 @ [34, 0, 0, 0] @ replicate 19 0)"
  by (simp add: root_entry_def demo_private_def PVD_ROOT_def SIZEOF_DENTRY_def un32_def)

lemma demo_walk: "walk_ok demo_img (root_entry jt demo_private) [[65]]"
  using demo_find
  by (simp add: demo_root dir_ok_def demo_count dir_blocks_def demo_block wf_block_def demo_entries)
    (simp add: demo_img_def demo_entry_def)


section \<open>Open files stay inside of their files\<close>

text \<open>The position of an open file is never behind its end; a directory is read in another way.\<close>

definition handle_ok :: "lhandle \<Rightarrow> bool" where
  "handle_ok h \<longleftrightarrow> (lh_type h \<noteq> FS_TYPE_DIR \<longrightarrow> lh_pos h \<le> lh_size h)"

definition iso_ok :: "'s isosys \<Rightarrow> bool" where
  "iso_ok w \<longleftrightarrow> (\<forall>p \<in> set (privates w). slots_ok handle_ok (lhandles p))"

lemma iso_ok_below [simp]: "iso_ok (w\<lparr>below := s\<rparr>) = iso_ok w"
  by (simp add: iso_ok_def)

lemma iso_ok_set_handles: "iso_ok w \<Longrightarrow> slots_ok handle_ok hs \<Longrightarrow> iso_ok (set_handles mi hs w)"
  using set_update_subset_insert [of "privates w"] by (fastforce simp: iso_ok_def set_handles_def)

lemma iso_ok_nth: "iso_ok w \<Longrightarrow> k < length (privates w) \<Longrightarrow> slots_ok handle_ok (lhandles (privates w ! k))"
  by (simp add: iso_ok_def)

lemma iso_ok_with_lhandle:
  assumes "with_lhandle mi fd bad f w = Inr (r, w')" and "iso_ok w"
    and "\<And>h s r h' s'. handle_ok h \<Longrightarrow> f h s = Inr (r, h', s') \<Longrightarrow> handle_ok h'"
  shows "iso_ok w'"
proof -
  let ?hs = "lhandles (privates w ! private_data mi)"
  have k: "private_data mi < length (privates w)" using assms(1) by (auto simp: with_lhandle_def nthR_def split: if_splits)
  obtain x hs where g: "rcparray_get ?hs (to_size_t fd) = (x, hs)" by fastforce
  note ok = slots_ok_get [OF iso_ok_nth [OF assms(2) k] g]
  show ?thesis
  proof (cases x)
    case None
    then show ?thesis using assms(1,2) g k ok by (auto simp: with_lhandle_def intro!: iso_ok_set_handles)
  next
    case (Some h)
    then obtain h' s where f: "f h (below w) = Inr (r, h', s)"
      and w': "w' = set_handles mi (rcparray_unref (rcparray_poke hs (to_size_t fd) h') (to_size_t fd)) (w\<lparr>below := s\<rparr>)"
      using assms(1) g k by (auto simp: with_lhandle_def mapR_eq_Inr_iff)
    have "handle_ok h'" using assms(3) [OF _ f] ok Some by blast
    then show ?thesis unfolding w' using ok assms(2) by (intro iso_ok_set_handles slots_ok_unref slots_ok_poke) auto
  qed
qed

lemma iso_lookup_frame:
  assumes "iso_lookup rd junk seg jt mi path w = Inr (r, w')"
  shows "private_data mi < length (privates w)" and "\<exists>s. w' = w\<lparr>below := s\<rparr>"
  using assms by (auto simp: iso_lookup_def bindR_eq_Inr_iff nthR_def split: if_splits)

lemma iso_ok_add:
  assumes "iso_ok w" and "private_data mi < length (privates w)" and "handle_ok h"
  shows "iso_ok (set_handles mi (snd (rcparray_add (lhandles (privates w ! private_data mi)) h)) (w\<lparr>below := s\<rparr>))"
  using slots_ok_add [OF iso_ok_nth [OF assms(1,2)] assms(3) surjective_pairing] assms(1) by (intro iso_ok_set_handles) auto

lemma advance_le:
  fixes a b :: u32
  assumes "a \<le> b" and "n \<le> unat (b - a)"
  shows "a + of_nat n \<le> b"
proof -
  have "unat (b - a) = unat b - unat a" using assms(1) by (rule unat_sub)
  moreover have "unat a \<le> unat b" using assms(1) by (simp add: word_le_nat_alt)
  ultimately have s: "unat a + n \<le> unat b" using assms(2) by linarith
  have "a + of_nat n = of_nat (unat a + n)" by simp
  moreover have "unat (of_nat (unat a + n) :: u32) \<le> unat a + n" by (simp only: unat_of_nat) simp
  ultimately show ?thesis using s by (simp add: word_le_nat_alt)
qed

lemma iso_ok_read: "iso9660_read rd mi fd len w = Inr (r, b, w') \<Longrightarrow> iso_ok w \<Longrightarrow> iso_ok w'"
  unfolding iso9660_read_def
  by (auto simp: mapR_eq_Inr_iff Let_def handle_ok_def advance_le split: if_splits elim!: iso_ok_with_lhandle)

lemma clamp_le:
  fixes b :: u32
  shows "word_of_int (min (max x 0) (uint b)) \<le> b"
proof -
  have "uint (word_of_int (min (max x 0) (uint b)) :: u32) = min (max x 0) (uint b) mod 2 ^ 32" by (simp add: uint_word_of_int)
  also have "\<dots> \<le> min (max x 0) (uint b)" by (intro zmod_le_nonneg_dividend) simp
  finally show ?thesis by (simp add: word_le_def)
qed

lemma iso_ok_seek: "iso9660_seek mi fd offset mode w = Inr (r, w') \<Longrightarrow> iso_ok w \<Longrightarrow> iso_ok w'"
  unfolding iso9660_seek_def
  by (auto simp: Let_def handle_ok_def clamp_le split: if_splits elim!: iso_ok_with_lhandle)

lemma iso_ok_ioctl: "iso9660_ioctl mi fd code buf w = Inr (r, b, w') \<Longrightarrow> iso_ok w \<Longrightarrow> iso_ok w'"
  unfolding iso9660_ioctl_def
  by (auto simp: mapR_eq_Inr_iff split: if_splits elim!: iso_ok_with_lhandle)

lemma readdir_loop_type:
  assumes "readdir_loop rd dev de h s = Some x" and "x = Inr (r, h', s')"
  shows "lh_type h' = lh_type h"
proof -
  have "\<forall>r h' s'. x = Inr (r, h', s') \<longrightarrow> lh_type h' = lh_type h"
  proof (rule readdir_loop.raw_induct [OF _ assms(1), where P = "\<lambda>rd dev de h s x. \<forall>r h' s'. x = Inr (r, h', s') \<longrightarrow> lh_type h' = lh_type h"], intro allI impI, goal_cases)
    case (1 f rd dev de h s x r h' s')
    note ih = 1(1) [rule_format] and run = 1(2) [unfolded 1(3)]
    let ?load = "if lh_pos h div 2048 \<noteq> lh_block_read h
        then mapR (\<lambda>(_, b, s'). (h\<lparr>lh_buffer := b, lh_block_read := lh_pos h div 2048\<rparr>, s'))
               (rd dev (lh_buffer h) (ucast (lh_start h * 2048 + lh_pos h)) ISO_BLOCK_SIZE s)
        else Inr (h, s)"
    show ?case
    proof (cases "lh_size h \<le> lh_pos h")
      case True
      then show ?thesis using run by auto
    next
      case False
      obtain h1 s1 where l: "?load = Inr (h1, s1)" using run False by (cases ?load) auto
      then have t: "lh_type h1 = lh_type h" by (auto simp: mapR_eq_Inr_iff split: if_splits)
      obtain f' len where fl: "dentry_flags (lh_buffer h1) (unat (lh_pos h1 mod 2048)) = Inr f'"
        "dentry_len (lh_buffer h1) (unat (lh_pos h1 mod 2048)) = Inr len"
        using run unfolding l if_not_P [OF False] by (auto simp: Let_def split: sum.splits)
      show ?thesis
        using run unfolding l if_not_P [OF False]
        by (auto simp: fl t Let_def mapR_eq_Inr_iff dest: ih split: if_splits)
    qed
  qed
  then show ?thesis using assms(2) by blast
qed

lemma iso_ok_readdir:
  assumes "iso9660_readdir rd de mi fd w = Inr (r, d, w')" and "iso_ok w"
  shows "iso_ok w'"
proof -
  obtain r' where "with_lhandle mi fd (- EBADF, de) (\<lambda>h s.
      if lh_type h \<noteq> FS_TYPE_DIR then Inr ((- EBADF, de), h, s) else returned (readdir_loop rd (m_dev mi) de h s)) w = Inr (r', w')"
    using assms(1) by (auto simp: iso9660_readdir_def mapR_eq_Inr_iff)
  then show ?thesis using assms(2)
  proof (rule iso_ok_with_lhandle, goal_cases)
    case (1 h s r h' s')
    then show ?case
      using readdir_loop_type [OF _ refl, of rd "m_dev mi" de h s r h' s']
      by (auto simp: handle_ok_def returned_def split: if_splits option.splits)
  qed
qed

lemma iso_ok_close: 
  assumes "iso9660_close mi fd w = Inr (r, w')" and "iso_ok w"
  shows "iso_ok w'"
proof -
  let ?hs = "lhandles (privates w ! private_data mi)"
  have k: "private_data mi < length (privates w)" using assms(1) by (auto simp: iso9660_close_def nthR_def split: if_splits)
  obtain x hs where g: "rcparray_get ?hs (to_size_t fd) = (x, hs)" by fastforce
  note ok = slots_ok_get [OF iso_ok_nth [OF assms(2) k] g]
  show ?thesis
  proof (cases x)
    case None
    then show ?thesis using assms g k ok by (auto simp: iso9660_close_def intro!: iso_ok_set_handles)
  next
    case (Some h)
    have "handle_ok (h\<lparr>lh_refs := lh_refs h - 1\<rparr>)" using ok Some by (simp add: handle_ok_def)
    then have "slots_ok handle_ok (rcparray_poke hs (to_size_t fd) (h\<lparr>lh_refs := lh_refs h - 1\<rparr>))" using ok by (blast intro: slots_ok_poke)
    then show ?thesis using assms g k Some
      by (auto simp: iso9660_close_def Let_def intro!: iso_ok_set_handles slots_ok_unref slots_ok_remove split: if_splits)
  qed
qed

lemma iso_ok_open:
  assumes "iso9660_open rd junk seg jt mi path mode w = Inr (r, w')" and "iso_ok w"
  shows "iso_ok w'"
proof -
  obtain x w1 where l: "iso_lookup rd junk seg jt mi path w = Inr (x, w1)"
    using assms(1) by (auto simp: iso9660_open_def bindR_eq_Inr_iff)
  obtain s where w1: "w1 = w\<lparr>below := s\<rparr>" using iso_lookup_frame(2) [OF l] by blast
  have "handle_ok \<lparr>lh_start = dir, lh_size = sz, lh_pos = 0, lh_block_read = 0, lh_buffer = [], lh_refs = 1, lh_type = t\<rparr>" for dir sz t
    by (simp add: handle_ok_def)
  from iso_ok_add [OF assms(2) iso_lookup_frame(1) [OF l] this, where s = s] show ?thesis
    using assms l w1 by (auto simp: iso9660_open_def case_prod_beta split: sum.splits if_splits)
qed

lemma iso_ok_opendir:
  assumes "iso9660_opendir rd junk seg jt mi path w = Inr (r, w')" and "iso_ok w"
  shows "iso_ok w'"
proof -
  obtain x w1 where l: "iso_lookup rd junk seg jt mi path w = Inr (x, w1)"
    using assms(1) by (auto simp: iso9660_opendir_def bindR_eq_Inr_iff)
  obtain s where w1: "w1 = w\<lparr>below := s\<rparr>" using iso_lookup_frame(2) [OF l] by blast
  have "handle_ok \<lparr>lh_start = dir, lh_size = sz, lh_pos = 0, lh_block_read = m, lh_buffer = b, lh_refs = n, lh_type = FS_TYPE_DIR\<rparr>" for dir sz m b n
    by (simp add: handle_ok_def)
  from iso_ok_add [OF assms(2) iso_lookup_frame(1) [OF l] this] show ?thesis
    using assms l w1 by (auto simp: iso9660_opendir_def bindR_eq_Inr_iff case_prod_beta split: sum.splits if_splits)
qed

lemma iso_ok_finfo:
  assumes "iso9660_finfo rd junk seg jt fi mi path w = Inr (r, f, w')" and "iso_ok w"
  shows "iso_ok w'"
proof -
  obtain x w1 where l: "iso_lookup rd junk seg jt mi path w = Inr (x, w1)"
    using assms(1) by (auto simp: iso9660_finfo_def bindR_eq_Inr_iff)
  obtain s where w1: "w1 = w\<lparr>below := s\<rparr>" using iso_lookup_frame(2) [OF l] by blast
  show ?thesis using assms l w1 by (cases x) (auto simp: iso9660_finfo_def bindR_eq_Inr_iff)
qed

lemma iso_ok_mount:
  assumes "iso9660_mount rd mi w = Inr (r, mi', w')" and "iso_ok w"
  shows "iso_ok w'"
  using assms by (auto simp: iso9660_mount_def Let_def iso_ok_def slots_ok_def bindR_eq_Inr_iff split: if_splits option.splits)

text \<open>The calls the file system layer makes of the driver, as far as they change its state.\<close>

datatype iso_call = Mount | Open bytes int | Read int nat | Write int bytes | Seek int int int | Close int | Ioctl int int bytes
  | Opendir bytes | Readdir int dentry | Finfo bytes finfo

fun iso_step :: "'s reader \<Rightarrow> bytes \<Rightarrow> bytes \<Rightarrow> u16 \<Rightarrow> mount_info \<Rightarrow> iso_call \<Rightarrow> 's isosys \<Rightarrow> 's isosys res" where
  "iso_step rd junk seg jt mi Mount w = mapR (snd \<circ> snd) (iso9660_mount rd mi w)"
| "iso_step rd junk seg jt mi (Open path mode) w = mapR snd (iso9660_open rd junk seg jt mi path mode w)"
| "iso_step rd junk seg jt mi (Read fd len) w = mapR (snd \<circ> snd) (iso9660_read rd mi fd len w)"
| "iso_step rd junk seg jt mi (Write fd b) w = mapR snd (iso9660_write mi fd b w)"
| "iso_step rd junk seg jt mi (Seek fd offset mode) w = mapR snd (iso9660_seek mi fd offset mode w)"
| "iso_step rd junk seg jt mi (Close fd) w = mapR snd (iso9660_close mi fd w)"
| "iso_step rd junk seg jt mi (Ioctl fd code b) w = mapR (snd \<circ> snd) (iso9660_ioctl mi fd code b w)"
| "iso_step rd junk seg jt mi (Opendir path) w = mapR snd (iso9660_opendir rd junk seg jt mi path w)"
| "iso_step rd junk seg jt mi (Readdir fd de) w = mapR (snd \<circ> snd) (iso9660_readdir rd de mi fd w)"
| "iso_step rd junk seg jt mi (Finfo path fi) w = mapR (snd \<circ> snd) (iso9660_finfo rd junk seg jt fi mi path w)"

lemma iso_step_ok: "iso_step rd junk seg jt mi c w = Inr w' \<Longrightarrow> iso_ok w \<Longrightarrow> iso_ok w'"
  by (cases c) (auto simp: mapR_eq_Inr_iff iso9660_write_def
      dest: iso_ok_mount iso_ok_open iso_ok_read iso_ok_seek iso_ok_close iso_ok_ioctl iso_ok_opendir iso_ok_readdir iso_ok_finfo)


section \<open>Properties\<close>

text \<open>
  C27: Looking a path up on a mounted disk ends and gives what a search of the directories of the
  image by name gives, segment after segment: the entry of the last segment, or that there is no
  such file when a segment is missing or something before the last one is not a directory. The
  directories on the way lie in the first 4 GiB of the disk and are well formed.
\<close>

theorem iso_lookup_resolves:
  assumes "disk_idle alive fr th I img i b ss B (below w)" and "mounted mi w" and "m_dev mi = int i"
    and "cstring p" and "\<forall>seg \<in> set (segs_of p). length seg \<le> 255"
    and "walk_ok img (root_entry jt (privates w ! private_data mi)) (segs_of p)" and "length junk = 256" and "length seg = 256"
  shows "\<exists>s'. disk_idle alive fr th I img i b ss B s' \<and>
    iso_lookup (dev_block_read alive fr th) junk seg jt mi (47 # p @ 0 # rest) w =
      Inr (case resolve img (root_entry jt (privates w ! private_data mi)) (segs_of p) of None \<Rightarrow> Inl (- ENOENT) | Some e \<Rightarrow> Inr e,
        w\<lparr>below := s'\<rparr>)"
  using disk.lookup_correct [OF assms(1) _ assms(3-5) _ assms(6-8)] assms(2) by (simp add: mounted_def)

lemma demo_idle: "disk_idle (\<lambda>_. True) 3 1 (\<lambda>_. True) demo_img 0 0 2048 4 (ram_sys (ram_block 2048 4 demo_img))"
proof -
  have "length demo_img = 4096" by (simp add: demo_img_def demo_entry_def)
  then have "disk_ready (\<lambda>_. True) demo_img 0 0 (ram_block 2048 4 demo_img) (ram_sys (ram_block 2048 4 demo_img))"
    by (intro ram_ready) simp_all
  then show ?thesis by (auto simp: disk_idle_def ram_numbers)
qed

definition demo_mount :: mount_info where
  "demo_mount = \<lparr>m_dev = 0, private_data = 0\<rparr>"

definition demo_sys :: "unit devsys isosys" where
  "demo_sys = \<lparr>privates = [demo_private], below = ram_sys (ram_block 2048 4 demo_img)\<rparr>"

lemma demo_state:
  "mounted demo_mount demo_sys" "m_dev demo_mount = int 0" "below demo_sys = ram_sys (ram_block 2048 4 demo_img)"
  "privates demo_sys ! private_data demo_mount = demo_private"
  by (simp_all add: mounted_def demo_mount_def demo_sys_def demo_private_def quiet_def)

lemma demo_segs: "segs_of [65] = [[65]]" "cstring [65]"
  by (simp_all add: segs_of.simps cstring_def)

lemma demo_resolve: "resolve demo_img (root_entry jt demo_private) [[65]] = Some (FS_TYPE_REG, 1, 3, take 33 demo_entry)"
  using demo_find by (simp add: demo_root demo_count)

theorem iso_lookup_resolves_witness:
  "\<exists>s'. iso_lookup (dev_block_read (\<lambda>_. True) 3 1) (replicate 256 0) (replicate 256 0) FS_TYPE_DIR demo_mount [47, 65, 0] demo_sys =
     Inr (Inr (FS_TYPE_REG, 1, 3, take 33 demo_entry), demo_sys\<lparr>below := s'\<rparr>)"
  using iso_lookup_resolves [OF demo_idle [folded demo_state(3)] demo_state(1,2) demo_segs(2), of FS_TYPE_DIR "replicate 256 0" "replicate 256 0" "[]"]
  by (auto simp: demo_segs(1) demo_state(4) demo_walk demo_resolve)

text \<open>
  C6: A regular file of a disk is read as it is on the disk: opening its path gives a descriptor,
  and reading one piece after the other through it, down to the sectors the block device is asked
  for, gives the bytes of the file from its beginning, cut off at its end, whatever the sizes of the
  pieces, as long as a piece fits into one request of the device wherever it starts.
\<close>

theorem iso_open_read:
  assumes "disk_idle alive fr th I img i b ss B (below w)" and "mounted mi w" and "m_dev mi = int i"
    and "cstring p" and "\<forall>seg \<in> set (segs_of p). length seg \<le> 255"
    and "walk_ok img (root_entry jt (privates w ! private_data mi)) (segs_of p)" and "length junk = 256" and "length seg = 256"
    and "resolve img (root_entry jt (privates w ! private_data mi)) (segs_of p) = Some (t, lba, sz, d)" and "t \<noteq> FS_TYPE_DIR"
    and "unat lba * 2048 + unat sz \<le> length img" and "\<forall>len \<in> set lens. len + ss \<le> B * ss"
  shows "\<exists>fd w1 w2. iso9660_open (dev_block_read alive fr th) junk seg jt mi (47 # p @ 0 # rest) mode w = Inr (int fd, w1) \<and>
    read_seq (dev_block_read alive fr th) mi (int fd) lens w1 = Inr (take (sum_list lens) (take (unat sz) (drop (unat lba * 2048) img)), w2)"
proof -
  obtain blk where blk: "unat (sector_size blk) = ss" "burst_limit blk = B" "ss dvd 2048" "disk_ready I img i b blk (below w)"
    using assms(1) by (auto simp: disk_idle_def)
  have B: "B < 65536" using unsigned_less [of "burst_max blk", where 'a = nat] blk(2) by (auto simp: burst_limit_def)
  have "B * ss \<le> 65536 div ss * ss" using blk by (intro mult_le_mono1) (auto simp: burst_limit_def)
  also have "\<dots> \<le> 65536" by simp
  finally have "\<forall>len \<in> set lens. len < 2 ^ 31 \<and> (\<forall>p n. 0 < n \<longrightarrow> n \<le> len \<longrightarrow> exactly ss B p n)"
    using assms(12) B blk(3) by (fastforce intro: exactly_small)
  then show ?thesis
    using disk.open_correct [OF assms(1-11), of rest mode] disk.read_seq_contents [where mi = mi and lens = lens, OF _ assms(3)] by (metis drop0 unsigned_0)
qed

theorem iso_open_read_witness:
  "\<exists>fd w1 w2. iso9660_open (dev_block_read (\<lambda>_. True) 3 1) (replicate 256 0) (replicate 256 0) FS_TYPE_DIR demo_mount [47, 65, 0] 0 demo_sys =
      Inr (int fd, w1) \<and> read_seq (dev_block_read (\<lambda>_. True) 3 1) demo_mount (int fd) [2, 5] w1 = Inr ([7, 8, 9], w2)"
  using iso_open_read [OF demo_idle [folded demo_state(3)] demo_state(1,2) demo_segs(2), of FS_TYPE_DIR "replicate 256 0" "replicate 256 0"
      FS_TYPE_REG 1 3 "take 33 demo_entry" "[2, 5]" "[]" 0]
  by (simp add: demo_segs(1) demo_state(4) demo_walk demo_resolve FS_TYPE_REG_def FS_TYPE_DIR_def) (simp add: demo_img_def demo_entry_def)

text \<open>
  C28: Whatever the block device answers, no call of the driver moves the position of an open file
  behind its end: reads are cut off there and \<open>seek\<close> clamps every offset, also a negative one.
\<close>

theorem iso_position_in_file:
  assumes "iso_step rd junk seg jt mi c w = Inr w'" and "iso_ok w"
  shows "iso_ok w'"
  using assms by (rule iso_step_ok)

theorem iso_position_in_file_witness:
  "\<exists>w'. iso_step (dev_block_read (\<lambda>_. True) 3 1) [] [] 0 demo_mount (Seek 0 (- 5) 2)
      (demo_sys\<lparr>privates := [demo_private\<lparr>lhandles := [Some (fresh_slot \<lparr>lh_start = 1, lh_size = 3, lh_pos = 1, lh_block_read = 0,
        lh_buffer = [], lh_refs = 1, lh_type = FS_TYPE_REG\<rparr>)]\<rparr>]\<rparr>) = Inr w' \<and> iso_ok w'"
proof -
  let ?w = "demo_sys\<lparr>privates := [demo_private\<lparr>lhandles := [Some (fresh_slot \<lparr>lh_start = 1, lh_size = 3, lh_pos = 1, lh_block_read = 0,
        lh_buffer = [], lh_refs = 1, lh_type = FS_TYPE_REG\<rparr>)]\<rparr>]\<rparr>"
  have "iso_ok ?w" by (simp add: iso_ok_def slots_ok_def handle_ok_def fresh_slot_def)
  moreover obtain w' where w': "iso_step (dev_block_read (\<lambda>_. True) 3 1) [] [] 0 demo_mount (Seek 0 (- 5) 2) ?w = Inr w'"
    by (auto simp: iso9660_seek_def with_lhandle_def demo_mount_def rcparray_get_def fresh_slot_def FS_TYPE_REG_def FS_TYPE_DIR_def)
  ultimately show ?thesis using iso_position_in_file [OF w'] by blast
qed

end
