(* ===== verification/DevFs.thy ===== *)
theory DevFs
  imports Dev Fs
begin

text \<open>
  \<^verbatim>\<open>fs/drv/devfs/devfs.c\<close>: the file system whose files are the registered devices. An open file
  is a handle with the number of its device and what the driver keeps for it; a directory is a handle
  with a position in the array of devices. The spinlock of \<open>devfs_close\<close> is not contended here.
\<close>

section \<open>State\<close>

record devfs_lhandle =
  dl_dev_fd :: dev_fd
  dl_data :: "nat option"
  dl_id :: int
  dl_refs :: int
  dl_type :: int

record 'd devfssys =
  dprivates :: "devfs_lhandle rcparray list"
  devs :: "'d devsys"

definition devfs_mount :: "mount_info \<Rightarrow> 'd devfssys \<Rightarrow> (int \<times> mount_info \<times> 'd devfssys) res" where
  "devfs_mount mi w =
     (let mi' = mi\<lparr>private_data := length (dprivates w)\<rparr>; w' = w\<lparr>dprivates := dprivates w @ [[]]\<rparr>
      in Inr (if m_dev mi \<noteq> - 1 then - 1 else 0, mi', w'))"

section \<open>Handles\<close>

definition set_dhandles :: "mount_info \<Rightarrow> devfs_lhandle rcparray \<Rightarrow> 'd devfssys \<Rightarrow> 'd devfssys" where
  "set_dhandles mi hs w = w\<lparr>dprivates := (dprivates w)[private_data mi := hs]\<rparr>"

text \<open>The frame of the operations on a handle, which the operation may change, and its release.\<close>

definition with_dhandle ::
    "mount_info \<Rightarrow> int \<Rightarrow> 'r \<Rightarrow> (devfs_lhandle \<Rightarrow> 'd devsys \<Rightarrow> ('r \<times> devfs_lhandle \<times> 'd devsys) res) \<Rightarrow> 'd devfssys \<Rightarrow> ('r \<times> 'd devfssys) res" where
  "with_dhandle mi fd bad f w =
     bindR (nthR (dprivates w) (private_data mi)) (\<lambda>hs0.
       case rcparray_get hs0 (to_size_t fd) of
         (None, hs) \<Rightarrow> Inr (bad, set_dhandles mi hs w)
       | (Some h, hs) \<Rightarrow>
           mapR (\<lambda>(r, h', s). (r, set_dhandles mi (rcparray_unref (rcparray_poke hs (to_size_t fd) h') (to_size_t fd)) (w\<lparr>devs := s\<rparr>)))
             (f h (devs w)))"

definition devfs_open :: "mount_info \<Rightarrow> bytes \<Rightarrow> int \<Rightarrow> 'd devfssys \<Rightarrow> (int \<times> 'd devfssys) res" where
  "devfs_open mi path mode w =
     (case dev_name2id (drop 1 path) (devs w) of
        (dev_id, s1) \<Rightarrow>
          if dev_id < 0 then Inr (if dev_id = - ENODEV then - ENOENT else dev_id, w\<lparr>devs := s1\<rparr>)
          else bindR (nthR (dprivates w) (private_data mi)) (\<lambda>hs0.
            let h = \<lparr>dl_dev_fd = \<lparr>dfd_data = 0\<rparr>, dl_data = None, dl_id = dev_id, dl_refs = 1, dl_type = 0\<rparr>
            in case rcparray_add hs0 h of
                 (i, hs) \<Rightarrow> mapR (\<lambda>(ret, w'). (if ret < 0 then ret else int i, w'))
                   (with_dhandle mi (int i) 0 (\<lambda>h s.
                      mapR (\<lambda>((ret, d), s'). (ret, h\<lparr>dl_dev_fd := d\<rparr>, s')) (dev_char_open dev_id (dl_dev_fd h) s))
                    (set_dhandles mi hs (w\<lparr>devs := s1\<rparr>)))))"

definition devfs_read :: "mount_info \<Rightarrow> int \<Rightarrow> nat \<Rightarrow> 'd devfssys \<Rightarrow> (int \<times> bytes \<times> 'd devfssys) res" where
  "devfs_read mi fd len w =
     mapR (\<lambda>((r, b), w'). (r, b, w')) (with_dhandle mi fd (- EBADF, []) (\<lambda>h s.
       mapR (\<lambda>((r, b, d), s'). ((r, b), h\<lparr>dl_dev_fd := d\<rparr>, s')) (dev_char_read (dl_id h) (dl_dev_fd h) (to_int len) s)) w)"

definition devfs_write :: "mount_info \<Rightarrow> int \<Rightarrow> bytes \<Rightarrow> 'd devfssys \<Rightarrow> (int \<times> 'd devfssys) res" where
  "devfs_write mi fd buffer w =
     with_dhandle mi fd (- EBADF) (\<lambda>h s.
       mapR (\<lambda>((r, d), s'). (r, h\<lparr>dl_dev_fd := d\<rparr>, s')) (dev_char_write (dl_id h) (dl_dev_fd h) buffer (to_int (length buffer)) s)) w"

definition devfs_seek :: "mount_info \<Rightarrow> int \<Rightarrow> int \<Rightarrow> int \<Rightarrow> 'd devfssys \<Rightarrow> (int \<times> 'd devfssys) res" where
  "devfs_seek mi fd offset mode w = Inr (- ENOSYS, w)"

text \<open>The last close removes the handle before it closes the device; the device number of a directory is 0.\<close>

definition devfs_close :: "mount_info \<Rightarrow> int \<Rightarrow> 'd devfssys \<Rightarrow> (int \<times> 'd devfssys) res" where
  "devfs_close mi fd w =
     bindR (nthR (dprivates w) (private_data mi)) (\<lambda>hs0.
       case rcparray_get hs0 (to_size_t fd) of
         (None, hs) \<Rightarrow> Inr (- EBADF, set_dhandles mi hs w)
       | (Some h, hs) \<Rightarrow>
           let h1 = h\<lparr>dl_refs := dl_refs h - 1\<rparr>; hs1 = rcparray_poke hs (to_size_t fd) h1
           in if 0 < dl_refs h1 then Inr (0, set_dhandles mi (rcparray_unref hs1 (to_size_t fd)) w)
              else let hs2 = snd (rcparray_remove hs1 (to_size_t fd))
                   in mapR (\<lambda>((ret, d), s).
                        (ret, set_dhandles mi (rcparray_unref (rcparray_poke hs2 (to_size_t fd) (h1\<lparr>dl_dev_fd := d\<rparr>)) (to_size_t fd)) (w\<lparr>devs := s\<rparr>)))
                      (dev_char_close (dl_id h1) (dl_dev_fd h1) (devs w)))"

definition devfs_ioctl :: "mount_info \<Rightarrow> int \<Rightarrow> int \<Rightarrow> bytes \<Rightarrow> 'd devfssys \<Rightarrow> (int \<times> bytes \<times> 'd devfssys) res" where
  "devfs_ioctl mi fd code mem w =
     mapR (\<lambda>((r, b), w'). (r, b, w')) (with_dhandle mi fd (- EBADF, mem) (\<lambda>h s.
       mapR (\<lambda>((r, b, d), s'). ((sint (word_of_int r :: u32), b), h\<lparr>dl_dev_fd := d\<rparr>, s')) (dev_char_ioctl (dl_id h) (dl_dev_fd h) code mem s)) w)"

section \<open>Information and directories\<close>

definition fs_type_or :: "int \<Rightarrow> u16 \<Rightarrow> u16" where
  "fs_type_or t other =
     (if t = uint DEV_TYPE_BLOCK then FS_TYPE_BLOCK else if t = uint DEV_TYPE_CHAR then FS_TYPE_CHAR
      else if t = uint DEV_TYPE_NET then FS_TYPE_NET else other)"

definition devfs_finfo :: "finfo \<Rightarrow> mount_info \<Rightarrow> bytes \<Rightarrow> 'd devfssys \<Rightarrow> (int \<times> finfo \<times> 'd devfssys) res" where
  "devfs_finfo fi mi path w =
     bindR (strcmp path (cstr ''/'')) (\<lambda>c.
       let blank = \<lparr>fi_dev = 0, fi_type = 0, fi_size = 0, fi_block_size = 0, fi_block_count = 0\<rparr>
       in if c = 0 then Inr (0, blank\<lparr>fi_type := FS_TYPE_DIR\<rparr>, w)
          else case dev_name2id (drop 1 path) (devs w) of
            (dev_id, s1) \<Rightarrow>
              if dev_id < 0 then Inr (if dev_id = - ENODEV then - ENOENT else dev_id, fi, w\<lparr>devs := s1\<rparr>)
              else case dev_type dev_id s1 of
                (t, s2) \<Rightarrow> if t < 0 then Inr (t, fi, w\<lparr>devs := s2\<rparr>)
                           else Inr (0, blank\<lparr>fi_type := fs_type_or t (word_of_int t)\<rparr>, w\<lparr>devs := s2\<rparr>))"

definition devfs_opendir :: "mount_info \<Rightarrow> bytes \<Rightarrow> 'd devfssys \<Rightarrow> (int \<times> 'd devfssys) res" where
  "devfs_opendir mi path w =
     bindR (strcmp path (cstr ''/'')) (\<lambda>c.
       if c \<noteq> 0 then Inr (- ENOTDIR, w)
       else bindR (nthR (dprivates w) (private_data mi)) (\<lambda>hs0.
         let h = \<lparr>dl_dev_fd = \<lparr>dfd_data = 0\<rparr>, dl_data = None, dl_id = 0, dl_refs = 1, dl_type = 0\<rparr>
         in case rcparray_add hs0 h of
              (i, hs) \<Rightarrow> mapR (\<lambda>(_, w'). (int i, w'))
                (with_dhandle mi (int i) () (\<lambda>h s. Inr ((), h\<lparr>dl_data := Some 0\<rparr>, s)) (set_dhandles mi hs w))))"

text \<open>The loop of \<open>devfs_readdir\<close>: the next number of a device, with the entry for it.\<close>

lemma dev_id2name_size: "dev_id2name i b s = Inr (r, s') \<Longrightarrow> length (dev_array s') = length (dev_array s)"
  by (auto simp: dev_id2name_def rcparray_get_def rcparray_unref_def Let_def split: if_splits option.splits)

function devdir_loop :: "nat \<Rightarrow> dentry \<Rightarrow> 'd devsys \<Rightarrow> (int \<times> nat \<times> dentry \<times> 'd devsys) res" where
  "devdir_loop p de s =
     (if \<not> p < length (dev_array s) then Inr (- 1, p, de, s)
      else bindR (dev_id2name (int p) (dname de) s) (\<lambda>(cd, s1).
        if fst cd < 0 then devdir_loop (Suc p) (de\<lparr>dname := snd cd\<rparr>) s1
        else case dev_type (int p) s1 of
          (t, s2) \<Rightarrow> Inr (0, Suc p, de\<lparr>dname := snd cd, dtype := fs_type_or t (dtype de)\<rparr>, s2)))"
  by pat_completeness auto
termination
  by (relation "measure (\<lambda>(p, de, s). length (dev_array s) - p)") (auto dest: dev_id2name_size)

declare devdir_loop.simps [simp del]

definition devfs_readdir :: "dentry \<Rightarrow> mount_info \<Rightarrow> int \<Rightarrow> 'd devfssys \<Rightarrow> (int \<times> dentry \<times> 'd devfssys) res" where
  "devfs_readdir de mi fd w =
     mapR (\<lambda>((r, d), w'). (r, d, w')) (with_dhandle mi fd (- EBADF, de) (\<lambda>h s.
       case dl_data h of
         None \<Rightarrow> Inl NullDeref
       | Some p \<Rightarrow> mapR (\<lambda>(r, p', de', s'). ((r, de'), h\<lparr>dl_data := Some p'\<rparr>, s')) (devdir_loop p de s)) w)"

definition devfs_dup :: "mount_info \<Rightarrow> int \<Rightarrow> 'd devfssys \<Rightarrow> (int \<times> 'd devfssys) res" where
  "devfs_dup mi fd w = with_dhandle mi fd (- EBADF) (\<lambda>h s. Inr (fd, h\<lparr>dl_refs := dl_refs h + 1\<rparr>, s)) w"

definition devfs :: "finfo \<Rightarrow> 'd devfssys filesystem" where
  "devfs fi = \<lparr>fs_name = cstr ''devfs'' @ replicate 16 0, fsop_mount = Some devfs_mount, fsop_open = Some devfs_open,
     fsop_read = Some devfs_read, fsop_write = Some devfs_write, fsop_seek = Some devfs_seek, fsop_close = Some devfs_close,
     fsop_ioctl = Some devfs_ioctl, fsop_opendir = Some devfs_opendir, fsop_readdir = Some (devfs_readdir no_dentry),
     fsop_finfo = Some (devfs_finfo fi), fsop_dup = Some devfs_dup\<rparr>"

section \<open>The tables between calls\<close>

text \<open>Between calls no handle is held; \<open>dh\<close> are the handles of the mount.\<close>

definition dh :: "mount_info \<Rightarrow> 'd devfssys \<Rightarrow> devfs_lhandle rcparray" where
  "dh mi w = dprivates w ! private_data mi"

definition devfs_ok :: "mount_info \<Rightarrow> 'd devfssys \<Rightarrow> bool" where
  "devfs_ok mi w \<longleftrightarrow> private_data mi < length (dprivates w) \<and> quiet (dh mi w) \<and> length (dh mi w) < 2 ^ 31 \<and>
     devs_ok (devs w) \<and> length (dev_array (devs w)) < 2 ^ 31"

definition same_else :: "mount_info \<Rightarrow> 'd devfssys \<Rightarrow> 'd devfssys \<Rightarrow> bool" where
  "same_else mi w w' \<longleftrightarrow> length (dprivates w') = length (dprivates w) \<and> (\<forall>k. k \<noteq> private_data mi \<longrightarrow> dprivates w' ! k = dprivates w ! k)"

lemma dh_set [simp]: "private_data mi < length (dprivates w) \<Longrightarrow> dh mi (set_dhandles mi hs w) = hs"
  by (simp add: dh_def set_dhandles_def)

lemma set_dhandles_simps [simp]:
  "devs (set_dhandles mi hs w) = devs w" "length (dprivates (set_dhandles mi hs w)) = length (dprivates w)"
  "dh mi (w\<lparr>devs := s\<rparr>) = dh mi w"
  by (simp_all add: set_dhandles_def dh_def)

lemma poke_length [simp]: "length (rcparray_unref (rcparray_poke a i v) i) = length a"
  by (auto simp: rcparray_unref_def rcparray_poke_def Let_def split: option.splits)

lemma get_length: "rcparray_get a i = (r, a') \<Longrightarrow> length a' = length a"
  by (auto simp: rcparray_get_def split: if_splits option.splits)

lemma with_dhandle_ok:
  assumes "devfs_ok mi w" and "open_at (dh mi w) fd = Some h" and "fd < 2 ^ 64"
    and "f h (devs w) = Inr (r, h', s)" and "devs_ok s" and "length (dev_array s) < 2 ^ 31"
  shows "\<exists>w'. with_dhandle mi (int fd) bad f w = Inr (r, w') \<and> devfs_ok mi w' \<and> devs w' = s \<and>
    open_at (dh mi w') = (open_at (dh mi w))(fd \<mapsto> h')"
proof -
  note ok = assms(1) [unfolded devfs_ok_def]
  obtain a where g: "rcparray_get (dh mi w) fd = (Some h, a)" by (rule quiet_get_Some [OF _ assms(2)]) (use ok in auto)
  let ?a = "rcparray_unref (rcparray_poke a fd h') fd"
  have "quiet ?a" "open_at ?a = (open_at (dh mi w))(fd \<mapsto> h')"
    using quiet_get_poke [OF _ assms(2) g] ok by auto
  moreover have "with_dhandle mi (int fd) bad f w = Inr (r, set_dhandles mi ?a (w\<lparr>devs := s\<rparr>))"
    using ok g assms(3,4) by (simp add: with_dhandle_def dh_def)
  ultimately show ?thesis
    using ok assms(5,6) get_length [OF g] by (intro exI [of _ "set_dhandles mi ?a (w\<lparr>devs := s\<rparr>)"]) (simp add: devfs_ok_def)
qed

section \<open>A session with a character device\<close>

text \<open>The device with number \<open>i\<close> is a character device of the driver \<open>c\<close>, known by the name \<open>n\<close>.\<close>

definition char_dev :: "'d devsys \<Rightarrow> nat \<Rightarrow> bytes \<Rightarrow> 'd dev_char \<Rightarrow> bool" where
  "char_dev s i n c \<longleftrightarrow> cstring n \<and> (\<exists>d. open_at (dev_array s) i = Some d \<and> name_of d = n \<and> dev_kind d = DEV_TYPE_CHAR \<and>
     chars s (type_specific d) = Some c) \<and> (\<forall>j < i. \<forall>e. open_at (dev_array s) j = Some e \<longrightarrow> name_of e \<noteq> n)"

lemma open_at_length: "open_at a i = Some v \<Longrightarrow> i < length a"
  by (auto simp: open_at_def split: if_splits)

lemma with_char_ok:
  assumes "devs_ok s" and "char_dev s i n c" and "length (dev_array s) < 2 ^ 31" and "f c (hw s) = Inr (r, hw')"
  shows "with_char (int i) none f s = Inr (r, s\<lparr>hw := hw'\<rparr>)"
proof -
  obtain d where d: "open_at (dev_array s) i = Some d" "dev_kind d = DEV_TYPE_CHAR" "chars s (type_specific d) = Some c"
    using assms(2) by (auto simp: char_dev_def)
  obtain a where a: "rcparray_get (dev_array s) i = (Some d, a)" "rcparray_unref a i = dev_array s"
    by (rule quiet_get_Some [OF _ d(1)]) (use assms(1) in \<open>auto simp: devs_ok_def\<close>)
  have i: "to_size_t (int i) = i" using open_at_length [OF d(1)] assms(3) by (intro to_size_t_of_nat) simp
  show ?thesis using a d(2,3) i assms(4) by (simp add: with_char_def dev_char_get_def dev_char_unref_def)
qed

lemma name2id_char_dev:
  assumes "devs_ok s" and "char_dev s i n c"
  shows "dev_name2id (n @ 0 # y) s = (int i, s)"
proof -
  obtain d where d: "cstring n" "open_at (dev_array s) i = Some d" "name_of d = n"
    "\<forall>j < i. \<forall>e. open_at (dev_array s) j = Some e \<longrightarrow> name_of e \<noteq> n"
    using assms(2) by (auto simp: char_dev_def)
  from dev_name2id_spec [OF assms(1) d(1), of y] show ?thesis
  proof (elim disjE exE conjE)
    fix k e
    assume k: "dev_name2id (n @ 0 # y) s = (int k, s)" "open_at (dev_array s) k = Some e" "name_of e = n"
      "\<forall>j < k. \<forall>e. open_at (dev_array s) j = Some e \<longrightarrow> name_of e \<noteq> n"
    then have "k = i" using d by (metis linorder_neqE_nat)
    then show ?thesis using k(1) by simp
  qed (use d in blast)
qed

lemma devs_ok_hw [simp]: "devs_ok (s\<lparr>hw := x\<rparr>) = devs_ok s" "char_dev (s\<lparr>hw := x\<rparr>) i n c = char_dev s i n c"
  by (simp_all add: devs_ok_def char_dev_def)

definition char_handle :: "nat \<Rightarrow> dev_fd \<Rightarrow> devfs_lhandle" where
  "char_handle i dfd = \<lparr>dl_dev_fd = dfd, dl_data = None, dl_id = int i, dl_refs = 1, dl_type = 0\<rparr>"

lemma devfs_open_char:
  assumes "devfs_ok mi w" and "length (dh mi w) < 2 ^ 31 - 1" and "char_dev (devs w) i n c" and "cop_open (char_ops c) = Some fo"
    and "fo (char_id c) \<lparr>dfd_data = 0\<rparr> (hw (devs w)) = Inr (r, dfd, hw')"
  shows "\<exists>fd w'. devfs_open mi (47 # n @ 0 # y) mode w = Inr (if r < 0 then r else int fd, w') \<and> devfs_ok mi w' \<and> fd < 2 ^ 31 \<and>
    open_at (dh mi w) fd = None \<and> open_at (dh mi w') = (open_at (dh mi w))(fd \<mapsto> char_handle i dfd) \<and> devs w' = (devs w)\<lparr>hw := hw'\<rparr>"
proof -
  note ok = assms(1) [unfolded devfs_ok_def]
  let ?h = "char_handle i \<lparr>dfd_data = 0\<rparr>"
  obtain fd hs where a: "rcparray_add (dh mi w) ?h = (fd, hs)" by fastforce
  note q = quiet_add [OF _ a]
  let ?w = "set_dhandles mi hs w"
  have len: "length hs < 2 ^ 31" using a assms(2) by (auto simp: rcparray_add_def Let_def split: if_splits)
  have ok1: "devfs_ok mi ?w" using ok q len by (simp add: devfs_ok_def)
  have o1: "open_at (dh mi ?w) = (open_at (dh mi w))(fd \<mapsto> ?h)" using ok q by simp
  have fd: "fd < 2 ^ 31" "fd < 2 ^ 64" using q(5) ok by auto
  have op: "dev_char_open (int i) \<lparr>dfd_data = 0\<rparr> (devs w) = Inr ((r, dfd), (devs w)\<lparr>hw := hw'\<rparr>)"
    unfolding dev_char_open_def using ok assms(3-5) by (intro with_char_ok) auto
  let ?f = "\<lambda>h s. mapR (\<lambda>((ret, d), s'). (ret, h\<lparr>dl_dev_fd := d\<rparr>, s')) (dev_char_open (int i) (dl_dev_fd h) s)"
  have f: "?f ?h (devs ?w) = Inr (r, char_handle i dfd, (devs w)\<lparr>hw := hw'\<rparr>)" using op by (simp add: char_handle_def)
  obtain w' where w': "with_dhandle mi (int fd) 0 ?f ?w = Inr (r, w')" "devfs_ok mi w'" "devs w' = (devs w)\<lparr>hw := hw'\<rparr>"
    "open_at (dh mi w') = (open_at (dh mi w))(fd \<mapsto> char_handle i dfd)"
    using with_dhandle_ok [where f = ?f and h = ?h and bad = 0, OF ok1 _ fd(2) f] ok by (auto simp: q(2))
  have "devfs_open mi (47 # n @ 0 # y) mode w = Inr (if r < 0 then r else int fd, w')"
    using ok name2id_char_dev [OF _ assms(3), of y] a w'(1)
    by (simp add: devfs_open_def dh_def char_handle_def)
  then show ?thesis using w'(2-4) fd(1) q(3) ok by (intro exI [of _ fd] exI [of _ w']) simp
qed

lemma devfs_read_char:
  assumes "devfs_ok mi w" and "open_at (dh mi w) fd = Some (char_handle i dfd)" and "char_dev (devs w) i n c" and "fd < 2 ^ 64"
    and "cop_read (char_ops c) = Some fr" and "len < 2 ^ 31" and "fr (char_id c) dfd (int len) (hw (devs w)) = Inr (r, b, dfd', hw')"
  shows "\<exists>w'. devfs_read mi (int fd) len w = Inr (r, b, w') \<and> devfs_ok mi w' \<and> devs w' = (devs w)\<lparr>hw := hw'\<rparr> \<and>
    open_at (dh mi w') = (open_at (dh mi w))(fd \<mapsto> char_handle i dfd')"
proof -
  note ok = assms(1) [unfolded devfs_ok_def]
  have ti: "to_int len = int len"
    using assms(6) by simp
  have rd: "dev_char_read (int i) dfd (int len) (devs w) = Inr ((r, b, dfd'), (devs w)\<lparr>hw := hw'\<rparr>)"
    unfolding dev_char_read_def using ok assms(3,5,7) by (intro with_char_ok) auto
  let ?f = "\<lambda>h s. mapR (\<lambda>((r, b, d), s'). ((r, b), h\<lparr>dl_dev_fd := d\<rparr>, s')) (dev_char_read (dl_id h) (dl_dev_fd h) (to_int len) s)"
  have f: "?f (char_handle i dfd) (devs w) = Inr ((r, b), char_handle i dfd', (devs w)\<lparr>hw := hw'\<rparr>)"
    using rd by (simp add: char_handle_def ti)
  show ?thesis
    using with_dhandle_ok [where f = ?f and bad = "(- EBADF, [])", OF assms(1,2,4) f] ok by (auto simp: devfs_read_def)
qed

text \<open>A close that is not the last one, and the last one.\<close>

lemma devfs_close_some:
  assumes "devfs_ok mi w" and "open_at (dh mi w) fd = Some h" and "fd < 2 ^ 64" and "1 < dl_refs h"
  shows "\<exists>w'. devfs_close mi (int fd) w = Inr (0, w') \<and> devfs_ok mi w' \<and> devs w' = devs w \<and>
    open_at (dh mi w') = (open_at (dh mi w))(fd \<mapsto> h\<lparr>dl_refs := dl_refs h - 1\<rparr>)"
proof -
  note ok = assms(1) [unfolded devfs_ok_def]
  obtain a where g: "rcparray_get (dh mi w) fd = (Some h, a)" by (rule quiet_get_Some [OF _ assms(2)]) (use ok in auto)
  let ?a = "rcparray_unref (rcparray_poke a fd (h\<lparr>dl_refs := dl_refs h - 1\<rparr>)) fd"
  have "quiet ?a" "open_at ?a = (open_at (dh mi w))(fd \<mapsto> h\<lparr>dl_refs := dl_refs h - 1\<rparr>)" using quiet_get_poke [OF _ assms(2) g] ok by auto
  moreover have "devfs_close mi (int fd) w = Inr (0, set_dhandles mi ?a w)"
    using ok g assms(3,4) by (simp add: devfs_close_def dh_def)
  ultimately show ?thesis using ok get_length [OF g] by (intro exI [of _ "set_dhandles mi ?a w"]) (simp add: devfs_ok_def)
qed

lemma devfs_close_last:
  assumes "devfs_ok mi w" and "open_at (dh mi w) fd = Some h" and "fd < 2 ^ 64" and "dl_refs h = 1" and "dl_id h = int i"
    and "char_dev (devs w) i n c" and "cop_close (char_ops c) = Some fc" and "fc (char_id c) (dl_dev_fd h) (hw (devs w)) = Inr (dfd', hw')"
  shows "\<exists>w'. devfs_close mi (int fd) w = Inr (0, w') \<and> devfs_ok mi w' \<and> devs w' = (devs w)\<lparr>hw := hw'\<rparr> \<and>
    open_at (dh mi w') = (open_at (dh mi w))(fd := None)"
proof -
  note ok = assms(1) [unfolded devfs_ok_def]
  obtain a where g: "rcparray_get (dh mi w) fd = (Some h, a)" by (rule quiet_get_Some [OF _ assms(2)]) (use ok in auto)
  have cl: "dev_char_close (int i) (dl_dev_fd h) (devs w) = Inr ((0, dfd'), (devs w)\<lparr>hw := hw'\<rparr>)"
    unfolding dev_char_close_def using ok assms(6-8) by (intro with_char_ok) auto
  let ?h1 = "h\<lparr>dl_refs := 0\<rparr>"
  let ?a = "rcparray_unref (rcparray_poke (snd (rcparray_remove (rcparray_poke a fd ?h1) fd)) fd (?h1\<lparr>dl_dev_fd := dfd'\<rparr>)) fd"
  have q: "quiet ?a" "open_at ?a = (open_at (dh mi w))(fd := None)" "length ?a = length (dh mi w)"
    using quiet_get_remove [OF _ assms(2) g] ok by blast+
  have "devfs_close mi (int fd) w = Inr (0, set_dhandles mi ?a (w\<lparr>devs := (devs w)\<lparr>hw := hw'\<rparr>\<rparr>))"
    using ok g assms(3-5) cl by (simp add: devfs_close_def dh_def Let_def)
  then show ?thesis using ok q by (intro exI [of _ "set_dhandles mi ?a (w\<lparr>devs := (devs w)\<lparr>hw := hw'\<rparr>\<rparr>)"]) (simp add: devfs_ok_def del: poke_length)
qed

section \<open>Listing the devices\<close>

text \<open>The devices with numbers from \<open>p\<close> on that are present.\<close>

definition devs_from :: "nat \<Rightarrow> 'd devsys \<Rightarrow> dev list" where
  "devs_from p s = map (the \<circ> open_at (dev_array s)) (filter (\<lambda>i. open_at (dev_array s) i \<noteq> None) [p..<length (dev_array s)])"

definition entry_of :: "dentry \<Rightarrow> dev \<Rightarrow> dentry" where
  "entry_of de d = \<lparr>dtype = fs_type_or (uint (dev_kind d)) (dtype de), dname = blit (dname de) 0 (dev_name d)\<rparr>"

lemma devs_from_step:
  assumes "p < length (dev_array s)"
  shows "devs_from p s = (case open_at (dev_array s) p of None \<Rightarrow> devs_from (Suc p) s | Some d \<Rightarrow> d # devs_from (Suc p) s)"
  using assms by (auto simp: devs_from_def upt_conv_Cons split: option.split)

lemma devs_from_end: "length (dev_array s) \<le> p \<Longrightarrow> devs_from p s = []"
  by (simp add: devs_from_def)

lemma devdir_loop_next:
  assumes "devs_ok s" and "length (dev_array s) < 2 ^ 31" and "length (dname de) = 256"
  shows "\<exists>p'. devdir_loop p de s =
    (case devs_from p s of [] \<Rightarrow> Inr (- 1, p', de, s) | d # ds \<Rightarrow> Inr (0, p', entry_of de d, s)) \<and>
    (devs_from p s \<noteq> [] \<longrightarrow> devs_from p' s = tl (devs_from p s)) \<and> (devs_from p s = [] \<longrightarrow> devs_from p' s = [])"
  using assms
proof (induction p de s rule: devdir_loop.induct)
  case (1 p de s)
  show ?case
  proof (cases "p < length (dev_array s)")
    case False
    then show ?thesis by (intro exI [of _ p]) (simp add: devdir_loop.simps [of p] devs_from_end)
  next
    case p: True
    have i: "to_size_t (int p) = p" using p 1(3) by (intro to_size_t_of_nat) simp
    have q: "quiet (dev_array s)" using 1(2) by (simp add: devs_ok_def)
    show ?thesis
    proof (cases "open_at (dev_array s) p")
      case None
      then have n: "dev_id2name (int p) (dname de) s = Inr ((- 1, dname de), s)"
        using quiet_get_None [OF q None] i by (simp add: dev_id2name_def)
      have l: "devdir_loop p de s = devdir_loop (Suc p) de s" using p n by (simp add: devdir_loop.simps [of p])
      have e: "de\<lparr>dname := dname de\<rparr> = de" by simp
      have "\<exists>p'. devdir_loop (Suc p) de s =
          (case devs_from (Suc p) s of [] \<Rightarrow> Inr (- 1, p', de, s) | d # ds \<Rightarrow> Inr (0, p', entry_of de d, s)) \<and>
          (devs_from (Suc p) s \<noteq> [] \<longrightarrow> devs_from p' s = tl (devs_from (Suc p) s)) \<and> (devs_from (Suc p) s = [] \<longrightarrow> devs_from p' s = [])"
        using 1(1) [OF _ n refl, unfolded snd_conv e] p 1(2-4) by simp
      then show ?thesis using devs_from_step [OF p] None l by simp
    next
      case (Some d)
      obtain a where a: "rcparray_get (dev_array s) p = (Some d, a)" "rcparray_unref a p = dev_array s" by (rule quiet_get_Some [OF q Some])
      have d: "length (dev_name d) = 32" using 1(2) Some by (auto simp: devs_ok_def named_ok_def)
      have "dev_id2name (int p) (dname de) s = Inr ((0, blit (dname de) 0 (dev_name d)), s)"
        using a i d 1(4) by (simp add: dev_id2name_def)
      moreover have "dev_type (int p) s = (uint (dev_kind d), s)" using a i by (simp add: dev_type_def)
      ultimately have "devdir_loop p de s = Inr (0, Suc p, entry_of de d, s)" using p by (simp add: devdir_loop.simps [of p] entry_of_def)
      then show ?thesis using devs_from_step [OF p] Some by (intro exI [of _ "Suc p"]) simp
    qed
  qed
qed

text \<open>Reading a directory until the first error, at most \<open>n\<close> times.\<close>

fun list_dir :: "nat \<Rightarrow> dentry \<Rightarrow> mount_info \<Rightarrow> int \<Rightarrow> 'd devfssys \<Rightarrow> (dentry list \<times> 'd devfssys) res" where
  "list_dir 0 de mi fd w = Inl Hang"
| "list_dir (Suc n) de mi fd w =
     bindR (devfs_readdir de mi fd w) (\<lambda>(r, d, w').
       if r < 0 then Inr ([], w') else mapR (\<lambda>(ds, w''). (d # ds, w'')) (list_dir n de mi fd w'))"

lemma list_dir_devs:
  assumes "devfs_ok mi w" and "open_at (dh mi w) fd = Some h" and "dl_data h = Some p" and "fd < 2 ^ 64"
    and "length (dname de) = 256" and "length (devs_from p (devs w)) < n"
  shows "\<exists>w'. list_dir n de mi (int fd) w = Inr (map (entry_of de) (devs_from p (devs w)), w') \<and> devs w' = devs w \<and> devfs_ok mi w'"
  using assms(1-3,6)
proof (induction n arbitrary: w h p)
  case (Suc n)
  note ok = Suc.prems(1) [unfolded devfs_ok_def]
  let ?ds = "devs_from p (devs w)"
  let ?f = "\<lambda>h s. case dl_data h of None \<Rightarrow> Inl NullDeref
       | Some p \<Rightarrow> mapR (\<lambda>(r, p', de', s'). ((r, de'), h\<lparr>dl_data := Some p'\<rparr>, s')) (devdir_loop p de s)"
  obtain p' where p': "devdir_loop p de (devs w) = (case ?ds of [] \<Rightarrow> Inr (- 1, p', de, devs w) | d # ds \<Rightarrow> Inr (0, p', entry_of de d, devs w))"
      "?ds \<noteq> [] \<longrightarrow> devs_from p' (devs w) = tl ?ds"
    using devdir_loop_next [of "devs w" de p] ok assms(5) by blast
  define r d where "r = (if ?ds = [] then - 1 else (0 :: int))" and "d = (if ?ds = [] then de else entry_of de (hd ?ds))"
  have "?f h (devs w) = Inr ((r, d), h\<lparr>dl_data := Some p'\<rparr>, devs w)"
    using p'(1) Suc.prems(3) by (cases ?ds) (simp_all add: r_def d_def)
  from with_dhandle_ok [where f = ?f and bad = "(- EBADF, de)", OF Suc.prems(1,2) assms(4) this] ok
  obtain w1 where w1: "devfs_readdir de mi (int fd) w = Inr (r, d, w1)" "devfs_ok mi w1" "devs w1 = devs w"
      "open_at (dh mi w1) fd = Some (h\<lparr>dl_data := Some p'\<rparr>)"
    by (auto simp: devfs_readdir_def)
  show ?case
  proof (cases "?ds = []")
    case True
    then show ?thesis using w1 by (auto simp: r_def)
  next
    case False
    have n: "length (devs_from p' (devs w1)) < n" using Suc.prems(4) p'(2) w1(3) False by (cases ?ds) auto
    obtain w' where "list_dir n de mi (int fd) w1 = Inr (map (entry_of de) (devs_from p' (devs w)), w')" "devs w' = devs w" "devfs_ok mi w'"
      using Suc.IH [OF w1(2,4) _ n] w1(3) by auto
    then show ?thesis using w1(1) p'(2) False by (cases ?ds) (auto simp: r_def d_def)
  qed
qed simp

lemma devfs_opendir_root:
  assumes "devfs_ok mi w" and "length (dh mi w) < 2 ^ 31 - 1"
  shows "\<exists>fd h w'. devfs_opendir mi (cstr ''/'') w = Inr (int fd, w') \<and> devfs_ok mi w' \<and> fd < 2 ^ 31 \<and> devs w' = devs w \<and>
    open_at (dh mi w') = (open_at (dh mi w))(fd \<mapsto> h) \<and> open_at (dh mi w) fd = None \<and> dl_data h = Some 0 \<and> dl_id h = 0 \<and> dl_refs h = 1 \<and> dl_dev_fd h = \<lparr>dfd_data = 0\<rparr>"
proof -
  note ok = assms(1) [unfolded devfs_ok_def]
  let ?h = "\<lparr>dl_dev_fd = \<lparr>dfd_data = 0\<rparr>, dl_data = None, dl_id = 0, dl_refs = 1, dl_type = 0\<rparr>"
  obtain fd hs where a: "rcparray_add (dh mi w) ?h = (fd, hs)" by fastforce
  note q = quiet_add [OF _ a]
  let ?w = "set_dhandles mi hs w" and ?f = "\<lambda>h s. Inr ((), h\<lparr>dl_data := Some 0\<rparr>, s)"
  have len: "length hs < 2 ^ 31" using a assms(2) by (auto simp: rcparray_add_def Let_def split: if_splits)
  have ok1: "devfs_ok mi ?w" using ok q len by (simp add: devfs_ok_def)
  have fd: "fd < 2 ^ 31" "fd < 2 ^ 64" using q(5) ok by auto
  have f: "?f ?h (devs ?w) = Inr ((), ?h\<lparr>dl_data := Some 0\<rparr>, devs w)" by simp
  obtain w' where w': "with_dhandle mi (int fd) () ?f ?w = Inr ((), w')" "devfs_ok mi w'" "devs w' = devs w"
    "open_at (dh mi w') = (open_at (dh mi w))(fd \<mapsto> ?h\<lparr>dl_data := Some 0\<rparr>)"
    using with_dhandle_ok [where f = ?f and h = ?h and bad = "()", OF ok1 _ fd(2) f] ok by (auto simp: q(2))
  have "strcmp (cstr ''/'') (cstr ''/'') = Inr 0" by (simp add: cstr_def bytes_of_def)
  then have "devfs_opendir mi (cstr ''/'') w = Inr (int fd, w')"
    using ok a w'(1) by (simp add: devfs_opendir_def dh_def)
  then show ?thesis using w' fd(1) q(3) ok by (intro exI [of _ fd] exI [of _ "?h\<lparr>dl_data := Some 0\<rparr>"] exI [of _ w']) simp
qed

section \<open>Duplicated handles\<close>

fun dup_times :: "nat \<Rightarrow> mount_info \<Rightarrow> int \<Rightarrow> 'd devfssys \<Rightarrow> 'd devfssys res" where
  "dup_times 0 mi fd w = Inr w"
| "dup_times (Suc k) mi fd w = bindR (devfs_dup mi fd w) (\<lambda>(_, w'). dup_times k mi fd w')"

fun close_times :: "nat \<Rightarrow> mount_info \<Rightarrow> int \<Rightarrow> 'd devfssys \<Rightarrow> 'd devfssys res" where
  "close_times 0 mi fd w = Inr w"
| "close_times (Suc k) mi fd w = bindR (devfs_close mi fd w) (\<lambda>(_, w'). close_times k mi fd w')"

lemma dup_times_refs:
  assumes "devfs_ok mi w" and "open_at (dh mi w) fd = Some h" and "fd < 2 ^ 64"
  shows "\<exists>w'. dup_times k mi (int fd) w = Inr w' \<and> devfs_ok mi w' \<and> devs w' = devs w \<and>
    open_at (dh mi w') = (open_at (dh mi w))(fd \<mapsto> h\<lparr>dl_refs := dl_refs h + int k\<rparr>)"
  using assms(1,2)
proof (induction k arbitrary: w h)
  case 0
  then show ?case by auto
next
  case (Suc k)
  note ok = Suc.prems(1) [unfolded devfs_ok_def]
  let ?f = "\<lambda>h s. Inr (int fd, h\<lparr>dl_refs := dl_refs h + 1\<rparr>, s)"
  have "?f h (devs w) = Inr (int fd, h\<lparr>dl_refs := dl_refs h + 1\<rparr>, devs w)" by simp
  from with_dhandle_ok [where f = ?f and bad = "- EBADF", OF Suc.prems assms(3) this] ok
  obtain w1 where w1: "devfs_dup mi (int fd) w = Inr (int fd, w1)" "devfs_ok mi w1" "devs w1 = devs w"
      "open_at (dh mi w1) = (open_at (dh mi w))(fd \<mapsto> h\<lparr>dl_refs := dl_refs h + 1\<rparr>)"
    by (auto simp: devfs_dup_def)
  then show ?case using Suc.IH [OF w1(2), of "h\<lparr>dl_refs := dl_refs h + 1\<rparr>"] by (auto simp: add.assoc fun_eq_iff)
qed

lemma close_times_refs:
  assumes "devfs_ok mi w" and "open_at (dh mi w) fd = Some h" and "fd < 2 ^ 64" and "int k < dl_refs h"
  shows "\<exists>w'. close_times k mi (int fd) w = Inr w' \<and> devfs_ok mi w' \<and> devs w' = devs w \<and>
    open_at (dh mi w') = (open_at (dh mi w))(fd \<mapsto> h\<lparr>dl_refs := dl_refs h - int k\<rparr>)"
  using assms(1,2,4)
proof (induction k arbitrary: w h)
  case 0
  then show ?case by auto
next
  case (Suc k)
  obtain w1 where w1: "devfs_close mi (int fd) w = Inr (0, w1)" "devfs_ok mi w1" "devs w1 = devs w"
      "open_at (dh mi w1) = (open_at (dh mi w))(fd \<mapsto> h\<lparr>dl_refs := dl_refs h - 1\<rparr>)"
    using devfs_close_some [OF Suc.prems(1,2) assms(3)] Suc.prems(3) by auto
  then show ?case using Suc.IH [OF w1(2), of "h\<lparr>dl_refs := dl_refs h - 1\<rparr>"] Suc.prems(3) by (auto simp: algebra_simps fun_eq_iff)
qed

section \<open>A device that counts\<close>

definition demo_char :: "nat dev_char" where
  "demo_char = \<lparr>char_id = 7, char_worker = - 1, char_ops = \<lparr>cop_open = Some (\<lambda>_ d k. Inr (0, d\<lparr>dfd_data := 3\<rparr>, k)),
     cop_read = Some (\<lambda>_ d len k. Inr (len, replicate (nat len) 5, d, k + 1)), cop_write = None,
     cop_close = Some (\<lambda>_ d k. Inr (d, k + 10)), cop_ioctl = None\<rparr>\<rparr>"

definition demo_dev :: dev where
  "demo_dev = \<lparr>dev_name = bytes_of ''null'' @ replicate 28 0, dev_kind = DEV_TYPE_CHAR, type_specific = 5\<rparr>"

definition demo_devs :: "nat devsys" where
  "demo_devs = \<lparr>dev_array = [None, Some (fresh_slot demo_dev)], dev_incrementations = klist_init, chars = [5 \<mapsto> demo_char],
     blocks = Map.empty, frames_on_stack = Map.empty, hw = 0\<rparr>"

definition demo_devfs :: "devfs_lhandle rcparray \<Rightarrow> nat devfssys" where
  "demo_devfs hs = \<lparr>dprivates = [hs], devs = demo_devs\<rparr>"

definition demo_mi :: mount_info where
  "demo_mi = \<lparr>m_dev = - 1, private_data = 0\<rparr>"

lemma demo_ops:
  "cop_open (char_ops demo_char) = Some (\<lambda>_ d k. Inr (0, d\<lparr>dfd_data := 3\<rparr>, k))"
  "cop_read (char_ops demo_char) = Some (\<lambda>_ d len k. Inr (len, replicate (nat len) 5, d, k + 1))"
  "cop_close (char_ops demo_char) = Some (\<lambda>_ d k. Inr (d, k + 10))"
  by (simp_all add: demo_char_def)

lemma demo_dev_name: "named_ok demo_dev" "name_of demo_dev = bytes_of ''null''"
  by (simp_all add: named_ok_def name_of_def demo_dev_def bytes_of_def)

lemma demo_devs_ok: "devs_ok demo_devs" "length (dev_array demo_devs) = 2"
  using demo_dev_name(1) by (auto simp: devs_ok_def demo_devs_def quiet_def open_at_def nth_Cons' fresh_slot_def split: if_splits)

lemma demo_char_dev: "char_dev demo_devs 1 (bytes_of ''null'') demo_char"
  using demo_dev_name(2) by (simp add: char_dev_def demo_devs_def open_at_def cstring_def fresh_slot_def) (simp add: demo_dev_def bytes_of_def)

lemma demo_devfs_ok: "quiet hs \<Longrightarrow> length hs < 2 ^ 31 \<Longrightarrow> devfs_ok demo_mi (demo_devfs hs)" "dh demo_mi (demo_devfs hs) = hs" "devs (demo_devfs hs) = demo_devs" "hw demo_devs = 0"
  using demo_devs_ok by (simp_all add: devfs_ok_def demo_devfs_def demo_mi_def dh_def demo_devs_def)

section \<open>Properties\<close>

text \<open>
  C29: A character device is used through its name: opening \<open>/\<close> and the name runs the open operation of
  the first device of that name, a read runs its read operation with what open left in the file
  data, and closing runs its close operation and frees the handle; the array of devices is not
  changed, and the table of handles is as before.
\<close>

theorem devfs_session:
  assumes "devfs_ok mi w" and "length (dh mi w) < 2 ^ 31 - 1" and "char_dev (devs w) i n c"
    and "cop_open (char_ops c) = Some fo" and "cop_read (char_ops c) = Some fr" and "cop_close (char_ops c) = Some fc"
    and "fo (char_id c) \<lparr>dfd_data = 0\<rparr> (hw (devs w)) = Inr (r, dfd, hw1)" and "0 \<le> r" and "len < 2 ^ 31"
    and "fr (char_id c) dfd (int len) hw1 = Inr (q, b, dfd', hw2)" and "fc (char_id c) dfd' hw2 = Inr (dfd'', hw3)"
  shows "\<exists>fd w1 w2 w3. devfs_open mi (47 # n @ 0 # y) mode w = Inr (int fd, w1) \<and> devfs_read mi (int fd) len w1 = Inr (q, b, w2) \<and>
    devfs_close mi (int fd) w2 = Inr (0, w3) \<and> devs w3 = (devs w)\<lparr>hw := hw3\<rparr> \<and> open_at (dh mi w3) = open_at (dh mi w)"
proof -
  obtain fd w1 where w1: "devfs_open mi (47 # n @ 0 # y) mode w = Inr (int fd, w1)" "devfs_ok mi w1" "fd < 2 ^ 31" "open_at (dh mi w) fd = None"
      "open_at (dh mi w1) = (open_at (dh mi w))(fd \<mapsto> char_handle i dfd)" "devs w1 = (devs w)\<lparr>hw := hw1\<rparr>"
    using devfs_open_char [OF assms(1-4,7), of y mode] assms(8) by auto
  have fd: "fd < 2 ^ 64" using w1(3) by simp
  have h1: "open_at (dh mi w1) fd = Some (char_handle i dfd)" "char_dev (devs w1) i n c"
    "fr (char_id c) dfd (int len) (hw (devs w1)) = Inr (q, b, dfd', hw2)"
    using w1(5,6) assms(3,10) by simp_all
  obtain w2 where w2: "devfs_read mi (int fd) len w1 = Inr (q, b, w2)" "devfs_ok mi w2" "devs w2 = (devs w)\<lparr>hw := hw2\<rparr>"
      "open_at (dh mi w2) = (open_at (dh mi w))(fd \<mapsto> char_handle i dfd')"
    using devfs_read_char [OF w1(2) h1(1,2) fd assms(5,9) h1(3)] by (auto simp: w1(5,6))
  obtain w3 where "devfs_close mi (int fd) w2 = Inr (0, w3)" "devs w3 = (devs w)\<lparr>hw := hw3\<rparr>"
      "open_at (dh mi w3) = (open_at (dh mi w))(fd := None)"
    using devfs_close_last [OF w2(2) _ fd, of "char_handle i dfd'" i n c fc dfd'' hw3] w2(3,4) assms(3,6,11) by (auto simp: char_handle_def)
  then show ?thesis using w1(1,4) w2(1) by auto
qed

theorem devfs_session_witness:
  "\<exists>fd w1 w2 w3. devfs_open demo_mi (47 # bytes_of ''null'' @ 0 # []) 0 (demo_devfs []) = Inr (int fd, w1) \<and>
    devfs_read demo_mi (int fd) 2 w1 = Inr (2, [5, 5], w2) \<and> devfs_close demo_mi (int fd) w2 = Inr (0, w3) \<and> hw (devs w3) = 11"
proof -
  have ok: "devfs_ok demo_mi (demo_devfs [])" "length (dh demo_mi (demo_devfs [])) < 2 ^ 31 - 1" "char_dev (devs (demo_devfs [])) 1 (bytes_of ''null'') demo_char"
    using demo_char_dev by (simp_all add: demo_devfs_ok quiet_def)
  have two: "(2 :: nat) < 2 ^ 31" "replicate 2 (5 :: u8) = [5, 5]" by (simp, simp add: numeral_2_eq_2)
  obtain fd w1 w2 w3 where "devfs_open demo_mi (47 # bytes_of ''null'' @ 0 # []) 0 (demo_devfs []) = Inr (int fd, w1)"
      "devfs_read demo_mi (int fd) 2 w1 = Inr (2, [5, 5], w2)" "devfs_close demo_mi (int fd) w2 = Inr (0, w3)" "devs w3 = demo_devs\<lparr>hw := 11\<rparr>"
    using devfs_session [OF ok demo_ops refl _ two(1) refl refl, of "[]" 0] by (auto simp: demo_devfs_ok two(2))
  then show ?thesis by (intro exI conjI) (assumption | simp)+
qed

text \<open>
  Listing the root directory of the device file system ends and gives one entry for every present
  device, in the order of their numbers, with its name and type, and no other.
\<close>

theorem devfs_lists_devices:
  assumes "devfs_ok mi w" and "length (dh mi w) < 2 ^ 31 - 1" and "length (dname de) = 256"
  shows "\<exists>fd w1 w2. devfs_opendir mi (cstr ''/'') w = Inr (int fd, w1) \<and>
    list_dir (Suc (length (dev_array (devs w)))) de mi (int fd) w1 = Inr (map (entry_of de) (devs_from 0 (devs w)), w2) \<and> devs w2 = devs w"
proof -
  obtain fd h w1 where w1: "devfs_opendir mi (cstr ''/'') w = Inr (int fd, w1)" "devfs_ok mi w1" "fd < 2 ^ 31" "devs w1 = devs w"
      "open_at (dh mi w1) = (open_at (dh mi w))(fd \<mapsto> h)" "dl_data h = Some 0"
    using devfs_opendir_root [OF assms(1,2)] by blast
  have "length (devs_from 0 (devs w)) \<le> length (dev_array (devs w))"
    using length_filter_le [of _ "[0..<length (dev_array (devs w))]"] by (simp add: devs_from_def)
  then have "\<exists>w2. list_dir (Suc (length (dev_array (devs w)))) de mi (int fd) w1 = Inr (map (entry_of de) (devs_from 0 (devs w1)), w2) \<and>
      devs w2 = devs w1 \<and> devfs_ok mi w2"
    by (intro list_dir_devs [OF w1(2) _ w1(6) _ assms(3)]) (use w1(3-5) in auto)
  then show ?thesis using w1(1,4) by auto
qed

theorem devfs_lists_devices_witness:
  "\<exists>fd w1 w2. devfs_opendir demo_mi (cstr ''/'') (demo_devfs []) = Inr (int fd, w1) \<and>
    list_dir 3 no_dentry demo_mi (int fd) w1 = Inr ([entry_of no_dentry demo_dev], w2)"
proof -
  have "devfs_ok demo_mi (demo_devfs [])" "length (dh demo_mi (demo_devfs [])) < 2 ^ 31 - 1" "length (dname no_dentry) = 256"
    by (simp_all add: demo_devfs_ok quiet_def no_dentry_def)
  moreover have "devs_from 0 demo_devs = [demo_dev]"
    by (simp add: devs_from_def demo_devs_def open_at_def fresh_slot_def upt_rec)
  ultimately show ?thesis using devfs_lists_devices [of demo_mi "demo_devfs []" no_dentry] demo_devs_ok(2) by (auto simp: demo_devfs_ok numeral_3_eq_3)
qed

text \<open>
  A handle that was duplicated \<open>k\<close> times survives \<open>k\<close> closes, which do not reach the driver; the
  close after them runs the close operation of the driver once and frees the handle.
\<close>

theorem devfs_dup_close:
  assumes "devfs_ok mi w" and "open_at (dh mi w) fd = Some (char_handle i dfd)" and "fd < 2 ^ 64"
    and "char_dev (devs w) i n c" and "cop_close (char_ops c) = Some fc" and "fc (char_id c) dfd (hw (devs w)) = Inr (dfd', hw')"
  shows "\<exists>w1 w2 w3. dup_times k mi (int fd) w = Inr w1 \<and> close_times k mi (int fd) w1 = Inr w2 \<and>
    devs w2 = devs w \<and> open_at (dh mi w2) = open_at (dh mi w) \<and>
    devfs_close mi (int fd) w2 = Inr (0, w3) \<and> devs w3 = (devs w)\<lparr>hw := hw'\<rparr> \<and> open_at (dh mi w3) = (open_at (dh mi w))(fd := None)"
proof -
  let ?h = "char_handle i dfd"
  obtain w1 where w1: "dup_times k mi (int fd) w = Inr w1" "devfs_ok mi w1" "devs w1 = devs w"
      "open_at (dh mi w1) = (open_at (dh mi w))(fd \<mapsto> ?h\<lparr>dl_refs := dl_refs ?h + int k\<rparr>)"
    using dup_times_refs [OF assms(1-3)] by blast
  obtain w2 where w2: "close_times k mi (int fd) w1 = Inr w2" "devfs_ok mi w2" "devs w2 = devs w" "open_at (dh mi w2) = open_at (dh mi w)"
    using close_times_refs [OF w1(2) _ assms(3), of "?h\<lparr>dl_refs := dl_refs ?h + int k\<rparr>" k] w1(3,4) assms(2)
    by (auto simp: char_handle_def fun_upd_idem)
  obtain w3 where "devfs_close mi (int fd) w2 = Inr (0, w3)" "devs w3 = (devs w)\<lparr>hw := hw'\<rparr>" "open_at (dh mi w3) = (open_at (dh mi w))(fd := None)"
    using devfs_close_last [OF w2(2) _ assms(3), of ?h i n c fc dfd' hw'] w2(3,4) assms by (auto simp: char_handle_def)
  then show ?thesis using w1(1) w2 by auto
qed

theorem devfs_dup_close_witness:
  "\<exists>w1 w2 w3. dup_times 4 demo_mi (int 0) (demo_devfs [Some (fresh_slot (char_handle 1 \<lparr>dfd_data = 3\<rparr>))]) = Inr w1 \<and>
    close_times 4 demo_mi (int 0) w1 = Inr w2 \<and> hw (devs w2) = 0 \<and> devfs_close demo_mi (int 0) w2 = Inr (0, w3) \<and> hw (devs w3) = 10"
proof -
  let ?hs = "[Some (fresh_slot (char_handle 1 \<lparr>dfd_data = 3\<rparr>))]"
  have ok: "devfs_ok demo_mi (demo_devfs ?hs)" "open_at (dh demo_mi (demo_devfs ?hs)) 0 = Some (char_handle 1 \<lparr>dfd_data = 3\<rparr>)" "(0 :: nat) < 2 ^ 64"
      "char_dev (devs (demo_devfs ?hs)) 1 (bytes_of ''null'') demo_char"
    using demo_char_dev by (simp_all add: demo_devfs_ok quiet_def fresh_slot_def)
  obtain w1 w2 w3 where "dup_times 4 demo_mi (int 0) (demo_devfs ?hs) = Inr w1" "close_times 4 demo_mi (int 0) w1 = Inr w2" "devs w2 = demo_devs"
      "devfs_close demo_mi (int 0) w2 = Inr (0, w3)" "devs w3 = demo_devs\<lparr>hw := 10\<rparr>"
    using devfs_dup_close [OF ok demo_ops(3) refl, of 4] by (auto simp: demo_devfs_ok)
  then show ?thesis by (intro exI conjI) (assumption | simp add: demo_devfs_ok)+
qed

text \<open>
  The handle of a directory carries the device number zero, so closing the directory runs the
  close operation of the device with that number, which was never opened.
\<close>

theorem devfs_closedir_reaches_device:
  assumes "devfs_ok mi w" and "length (dh mi w) < 2 ^ 31 - 1" and "char_dev (devs w) 0 n c" and "cop_close (char_ops c) = Some fc"
    and "fc (char_id c) \<lparr>dfd_data = 0\<rparr> (hw (devs w)) = Inr (dfd', hw')"
  shows "\<exists>fd w1 w2. devfs_opendir mi (cstr ''/'') w = Inr (int fd, w1) \<and> devs w1 = devs w \<and>
    devfs_close mi (int fd) w1 = Inr (0, w2) \<and> devs w2 = (devs w)\<lparr>hw := hw'\<rparr>"
proof -
  obtain fd h w1 where w1: "devfs_opendir mi (cstr ''/'') w = Inr (int fd, w1)" "devfs_ok mi w1" "fd < 2 ^ 31" "devs w1 = devs w"
      "open_at (dh mi w1) = (open_at (dh mi w))(fd \<mapsto> h)" "dl_id h = 0" "dl_refs h = 1" "dl_dev_fd h = \<lparr>dfd_data = 0\<rparr>"
    using devfs_opendir_root [OF assms(1,2)] by blast
  then show ?thesis
    using devfs_close_last [OF w1(2), of fd h 0 n c fc dfd' hw'] assms(3-5) by auto
qed

theorem devfs_closedir_reaches_device_witness:
  "\<exists>fd w1 w2. devfs_opendir demo_mi (cstr ''/'') \<lparr>dprivates = [[]], devs = demo_devs\<lparr>dev_array := [Some (fresh_slot demo_dev)]\<rparr>\<rparr> = Inr (int fd, w1) \<and>
    hw (devs w1) = 0 \<and> devfs_close demo_mi (int fd) w1 = Inr (0, w2) \<and> hw (devs w2) = 10"
proof -
  let ?s = "demo_devs\<lparr>dev_array := [Some (fresh_slot demo_dev)]\<rparr>"
  let ?w = "\<lparr>dprivates = [[]], devs = ?s\<rparr>"
  have "devs_ok ?s" using demo_dev_name(1) by (auto simp: devs_ok_def quiet_def open_at_def fresh_slot_def split: if_splits)
  then have ok: "devfs_ok demo_mi ?w" "length (dh demo_mi ?w) < 2 ^ 31 - 1" by (simp_all add: devfs_ok_def demo_mi_def dh_def quiet_def)
  have c: "char_dev (devs ?w) 0 (bytes_of ''null'') demo_char"
    using demo_dev_name(2) by (simp add: char_dev_def demo_devs_def open_at_def cstring_def fresh_slot_def) (simp add: demo_dev_def bytes_of_def)
  show ?thesis
    using devfs_closedir_reaches_device [OF ok c demo_ops(3) refl] by (auto simp: demo_devs_def)
qed

end
