(* ===== verification/Hook.thy ===== *)
theory Hook
  imports CString
begin

text \<open>
  \<^verbatim>\<open>kernel/hook.c\<close>: lists of functions that are called when something happens. A function is
  known by its address, of a type \<open>'f\<close>; what calling it does is the argument \<open>run\<close> of
  \<open>hook_invoke\<close>. An entry of the list holds its name in 48 bytes.
\<close>

section \<open>State and operations\<close>

definition MAX_HOOKS :: nat where "MAX_HOOKS = 64"

definition HOOK_PKILL :: int where "HOOK_PKILL = 1"

record 'f hook_func =
  hook_name :: bytes
  hook_fn :: 'f

type_synonym 'f hooks = "'f hook_func list list"

definition hook_id :: "int \<Rightarrow> bool" where
  "hook_id i \<longleftrightarrow> \<not> (i \<ge> int MAX_HOOKS \<or> i < 0)"

text \<open>A name of more than 47 bytes is cut off, in the string of the caller.\<close>

definition hook_add :: "int \<Rightarrow> bytes \<Rightarrow> 'f \<Rightarrow> 'f hooks \<Rightarrow> 'f hooks res" where
  "hook_add i name func hs =
     (if \<not> hook_id i then Inr hs
      else bindR (strlen name) (\<lambda>n.
        let name' = (if n > 47 then name[47 := 0] else name)
        in mapR (\<lambda>nm. hs[nat i := hs ! nat i @ [\<lparr>hook_name = nm, hook_fn = func\<rparr>]]) (strcpy (replicate 48 0) name')))"

fun remove_named :: "bytes \<Rightarrow> 'f hook_func list \<Rightarrow> 'f hook_func list res" where
  "remove_named name [] = Inr []"
| "remove_named name (h # hs) =
     bindR (strcmp (hook_name h) name) (\<lambda>c. if c = 0 then Inr hs else mapR (Cons h) (remove_named name hs))"

definition hook_remove :: "int \<Rightarrow> bytes \<Rightarrow> 'f hooks \<Rightarrow> 'f hooks res" where
  "hook_remove i name hs =
     (if \<not> hook_id i then Inr hs else mapR (\<lambda>l. hs[nat i := l]) (remove_named name (hs ! nat i)))"

fun invoke_all :: "('f \<Rightarrow> 's \<Rightarrow> 's res) \<Rightarrow> 'f hook_func list \<Rightarrow> 's \<Rightarrow> 's res" where
  "invoke_all run [] s = Inr s"
| "invoke_all run (h # hs) s = bindR (run (hook_fn h) s) (invoke_all run hs)"

definition hook_invoke :: "('f \<Rightarrow> 's \<Rightarrow> 's res) \<Rightarrow> int \<Rightarrow> 'f hooks \<Rightarrow> 's \<Rightarrow> 's res" where
  "hook_invoke run i hs s = (if \<not> hook_id i then Inr s else invoke_all run (hs ! nat i) s)"

text \<open>A pointer into the list is the rest of the list; out of range \<open>hook_first\<close> reads the array anyway.\<close>

definition hook_first :: "int \<Rightarrow> 'f hooks \<Rightarrow> 'f hook_func list res" where
  "hook_first i hs = (if \<not> hook_id i then Inl OutOfBounds else Inr (hs ! nat i))"

definition hook_invoke_advance ::
    "('f \<Rightarrow> 's \<Rightarrow> ('r \<times> 's) res) \<Rightarrow> int \<Rightarrow> 'f hooks \<Rightarrow> 'f hook_func list \<Rightarrow> 's \<Rightarrow> ('r option \<times> 'f hook_func list \<times> 's) res" where
  "hook_invoke_advance run i hs p s =
     (if \<not> hook_id i then Inr (None, p, s)
      else case hs ! nat i of
        [] \<Rightarrow> Inr (None, p, s)
      | h # rest \<Rightarrow>
          let q = (if p = [] then h # rest else p)
          in mapR (\<lambda>(r, s'). (Some r, tl q, s')) (run (hook_fn (hd q)) s))"

section \<open>What the calls do\<close>

lemma hook_add_appends:
  assumes "hook_id i" and "cstring name" and "length name \<le> 47"
  shows "hook_add i (name @ 0 # r) func hs = Inr (hs[nat i := hs ! nat i @ [\<lparr>hook_name = name @ 0 # replicate (47 - length name) 0, hook_fn = func\<rparr>]])"
  using assms by (simp add: hook_add_def)

lemma invoke_all_append: "invoke_all run (xs @ ys) s = bindR (invoke_all run xs s) (invoke_all run ys)"
proof (induction xs arbitrary: s)
  case (Cons x xs)
  then show ?case by (cases "run (hook_fn x) s") simp_all
qed simp

text \<open>A function that was added is called after all the others.\<close>

lemma hook_invoke_added:
  assumes "hook_id i" and "cstring name" and "length name \<le> 47" and "nat i < length hs"
    and "hook_add i (name @ 0 # r) func hs = Inr hs'"
  shows "hook_invoke run i hs' s = bindR (hook_invoke run i hs s) (run func)"
proof -
  have "hs' ! nat i = hs ! nat i @ [\<lparr>hook_name = name @ 0 # replicate (47 - length name) 0, hook_fn = func\<rparr>]"
    using assms(4,5) hook_add_appends [OF assms(1-3), of r func hs] by auto
  then have e: "hook_invoke run i hs' s = bindR (invoke_all run (hs ! nat i) s)
      (invoke_all run [\<lparr>hook_name = name @ 0 # replicate (47 - length name) 0, hook_fn = func\<rparr>])"
    using assms(1) by (simp add: hook_invoke_def invoke_all_append)
  show ?thesis using assms(1) unfolding e by (simp add: hook_invoke_def bindR_def split: sum.split)
qed

end
