(* ===== verification/Process.thy ===== *)
theory Process
  imports Sched RCPTable Fs Page Hook
begin

text \<open>
  The processes of \<^verbatim>\<open>proc/task.c\<close>: creation, threads of a process, working directory, and
  termination, with the clean-up hook of \<^verbatim>\<open>fs/fs.c\<close>. A process is a value of the reference
  counted table \<open>processes\<close>. Loading an image is an argument (\<open>exec_load\<close>), as are the stacks
  the page allocator hands out; what the registers of a thread hold is not modelled. A wait for other
  threads (\<open>while (...) task_tyield();\<close>) passes when its condition is met and is \<open>Hang\<close> otherwise.
\<close>

section \<open>State\<close>

record process =
  pr_name :: bytes
  pr_cwd :: "bytes option"
  pr_parent :: int
  pr_busy :: int
  pr_pagemap :: pagemap
  pr_event :: event
  fiddies :: "int rcparray"
  pr_threads :: "int rcparray"
  pr_ecode :: int

record pcreate_info =
  pi_stdin :: int
  pi_stdout :: int
  pi_stderr :: int
  pi_cwd :: "bytes option"

record process_info =
  used_phys_memory :: u64
  mapped_memory :: u64
  dir_phys_usage :: u64
  info_parent :: int

text \<open>The functions that the sources register as hooks.\<close>

datatype hook_function = Fs_proc_cleanup

record 'v procsys =
  processes :: "process rcptable"
  process_count :: int
  cpu_locals :: bool
  thkill_data :: "(int \<times> int) option"
  thread_cleaner_tid :: int
  hook_table :: "hook_function hooks"
  sch :: sched
  io :: "'v fssys fdsys"

definition KERNEL_PROCESS :: int where "KERNEL_PROCESS = 1"
definition PATH_LEN_MAX :: int where "PATH_LEN_MAX = 2048 - 1"
definition KERNEL_STACK_SIZE :: u64 where "KERNEL_STACK_SIZE = 8192"

definition CURRENT_PID :: "'v procsys \<Rightarrow> int" where "CURRENT_PID s = current_pid (cpu (sch s))"
definition CURRENT_TID :: "'v procsys \<Rightarrow> int" where "CURRENT_TID s = current_tid (cpu (sch s))"

text \<open>
  The frame of the operations on a process: \<open>rcptable_get\<close>, the operation, which may change the
  process through the pointer, and \<open>rcptable_unref\<close>. The operation is one step.
\<close>

definition with_process ::
    "int \<Rightarrow> 'r \<Rightarrow> (process \<Rightarrow> 'v procsys \<Rightarrow> ('r \<times> process \<times> 'v procsys) res) \<Rightarrow> 'v procsys \<Rightarrow> ('r \<times> 'v procsys) res" where
  "with_process pid none f s =
     (case rcptable_get (processes s) (to_size_t pid) of
        (None, t) \<Rightarrow> Inr (none, s\<lparr>processes := t\<rparr>)
      | (Some p, t) \<Rightarrow>
          mapR (\<lambda>(r, p', s'). (r, s'\<lparr>processes := snd (rcptable_unref (rcptable_poke (processes s') (to_size_t pid) p') (to_size_t pid))\<rparr>))
            (f p (s\<lparr>processes := t\<rparr>)))"

text \<open>A section between acquiring and releasing \<open>sheduler_lock\<close>.\<close>

definition plocked :: "('v procsys \<Rightarrow> ('a \<times> 'v procsys) res) \<Rightarrow> 'v procsys \<Rightarrow> ('a \<times> 'v procsys) res" where
  "plocked f s =
     bindR (spinlock_acquire (sheduler_lock (sch s)) (sch s)) (\<lambda>(l, c).
     bindR (f (s\<lparr>sch := c\<lparr>sheduler_lock := l\<rparr>\<rparr>)) (\<lambda>(x, s2).
     bindR (spinlock_release (sheduler_lock (sch s2)) (sch s2)) (\<lambda>(l', c3). Inr (x, s2\<lparr>sch := c3\<lparr>sheduler_lock := l'\<rparr>\<rparr>))))"

definition on_sched :: "(sched \<Rightarrow> ('a \<times> sched) res) \<Rightarrow> 'v procsys \<Rightarrow> ('a \<times> 'v procsys) res" where
  "on_sched f s = mapR (\<lambda>(x, c). (x, s\<lparr>sch := c\<rparr>)) (f (sch s))"

section \<open>Threads of a process\<close>

definition new_thread :: "int \<Rightarrow> bool \<Rightarrow> pagemap \<Rightarrow> u64 \<Rightarrow> thread" where
  "new_thread pid kmode pm ker =
     \<lparr>process = pid, kernel_stack = (if kmode then 0 else ker + KERNEL_STACK_SIZE), saved_stack = 0, pagemap_ptr = root_dir pm,
      status = THREAD_STATUS_CREATED, kernelmode = kmode, resume_after = 0, abort = False, running = False, busy = 0\<rparr>"

definition task_tcreate :: "u64 \<Rightarrow> int \<Rightarrow> bool \<Rightarrow> 'v procsys \<Rightarrow> (int \<times> 'v procsys) res" where
  "task_tcreate ker pid kmode s =
     with_process pid (- 1) (\<lambda>p s1.
       bindR (on_sched (locked (\<lambda>c. Inr (thread_add (c\<lparr>thread_count := thread_count c + 1\<rparr>) (new_thread pid kmode (pr_pagemap p) ker)))) s1)
         (\<lambda>(tid, s2). Inr (tid, p\<lparr>pr_threads := snd (rcparray_add (pr_threads p) tid)\<rparr>, s2))) s"

definition task_call_async :: "u64 \<Rightarrow> 'v procsys \<Rightarrow> (int \<times> 'v procsys) res" where
  "task_call_async ker s =
     bindR (task_tcreate ker KERNEL_PROCESS True s) (\<lambda>(tid, s1).
       if tid < 0 then Inr (tid, s1) else mapR (\<lambda>(_, s2). (0, s2)) (on_sched (task_tstart tid) s1))"

fun start_threads :: "nat list \<Rightarrow> process \<Rightarrow> 'v procsys \<Rightarrow> (process \<times> 'v procsys) res" where
  "start_threads [] p s = Inr (p, s)"
| "start_threads (lid # ids) p s =
     (case rcparray_get (pr_threads p) lid of
        (None, _) \<Rightarrow> Inl NullDeref
      | (Some tid, a) \<Rightarrow> bindR (on_sched (task_tstart tid) s) (\<lambda>(_, s').
          start_threads ids (p\<lparr>pr_threads := rcparray_unref a lid\<rparr>) s'))"

definition task_prstart :: "int \<Rightarrow> 'v procsys \<Rightarrow> (unit \<times> 'v procsys) res" where
  "task_prstart pid =
     with_process pid () (\<lambda>p s. mapR (\<lambda>(p', s'). ((), p', s')) (start_threads (rcparray_foreach (pr_threads p)) p s))"

section \<open>Creating processes\<close>

definition cwd_isvalid :: "finfo \<Rightarrow> bytes \<Rightarrow> 'v procsys \<Rightarrow> (int \<times> 'v procsys) res" where
  "cwd_isvalid fi dir s =
     bindR (strlen dir) (\<lambda>n.
       if to_int n > PATH_LEN_MAX then Inr (- ENAMETOOLONG, s)
       else mapR (\<lambda>((ret, fi'), w). (if ret < 0 then ret else if fi_type fi' \<noteq> FS_TYPE_DIR then - ENOTDIR else 0,
                   s\<lparr>io := (io s)\<lparr>world := w\<rparr>\<rparr>)) (fs_finfo dir fi (world (io s))))"

definition check_pinfo :: "finfo \<Rightarrow> pcreate_info option \<Rightarrow> 'v procsys \<Rightarrow> (int \<times> 'v procsys) res" where
  "check_pinfo fi pinfo s =
     (case pinfo of
        None \<Rightarrow> Inr (0, s)
      | Some pi \<Rightarrow> (case pi_cwd pi of None \<Rightarrow> Inr (0, s) | Some dir \<Rightarrow> cwd_isvalid fi dir s))"

definition kstrdup :: "bytes \<Rightarrow> bytes res" where
  "kstrdup b = bindR (strlen b) (\<lambda>n. strcpy (kblock (n + 1)) b)"

definition no_event :: event where
  "no_event = \<lparr>ev_lock = False, counter = 0, wait_queue = \<lparr>entries = [], tq_lock = False\<rparr>\<rparr>"

definition std_fds :: "pcreate_info option \<Rightarrow> int rcparray" where
  "std_fds pinfo =
     (case pinfo of
        None \<Rightarrow> []
      | Some pi \<Rightarrow> snd (rcparray_add (snd (rcparray_add (snd (rcparray_add [] (pi_stdin pi))) (pi_stdout pi))) (pi_stderr pi)))"

definition task_prcreate :: "finfo \<Rightarrow> bytes \<Rightarrow> pagemap \<Rightarrow> pcreate_info option \<Rightarrow> 'v procsys \<Rightarrow> (int \<times> 'v procsys) res" where
  "task_prcreate fi nm pm pinfo s =
     bindR (check_pinfo fi pinfo s) (\<lambda>(ret, s1).
       if ret < 0 then Inr (ret, s1)
       else bindR (kstrdup nm) (\<lambda>nm'.
            bindR (case pinfo of None \<Rightarrow> Inr None | Some pi \<Rightarrow> (case pi_cwd pi of None \<Rightarrow> Inr None | Some dir \<Rightarrow> mapR Some (kstrdup dir))) (\<lambda>cwd.
              let t = processes s1; pid = rcptable.counter t;
                  p = \<lparr>pr_name = nm', pr_cwd = cwd, pr_parent = (if cpu_locals s1 then CURRENT_PID s1 else 0), pr_busy = 0, pr_pagemap = pm,
                       pr_event = no_event, fiddies = std_fds pinfo, pr_threads = [], pr_ecode = 0\<rparr>
              in Inr (int pid, s1\<lparr>processes := rcptable_set (t\<lparr>rcptable.counter := pid + 1\<rparr>) pid p, process_count := process_count s1 + 1\<rparr>))))"

text \<open>The loop back to the last slash; without one it leaves the string.\<close>

fun slash_back :: "bytes \<Rightarrow> nat \<Rightarrow> nat res" where
  "slash_back b 0 = (if b ! 0 = 47 then Inr 0 else Inl OutOfBounds)"
| "slash_back b (Suc k) = (if b ! Suc k = 47 then Inr (Suc k) else slash_back b k)"

definition generate_name :: "bytes \<Rightarrow> bytes res" where
  "generate_name input =
     bindR (strlen input) (\<lambda>n. bindR (slash_back input n) (\<lambda>k.
       let base = drop (k + 1) input
       in mapR (\<lambda>len. blit (kblock (len + 1)) 0 (take len base @ [0])) (strchrnul base 46)))"

text \<open>\<open>exec_load\<close> returns a code, the page map of the image and its entry points.\<close>

definition task_pricreate ::
    "(bytes \<Rightarrow> 'v procsys \<Rightarrow> (int \<times> pagemap \<times> 'v procsys) res) \<Rightarrow> finfo \<Rightarrow> u64 \<Rightarrow> bytes \<Rightarrow> pcreate_info option \<Rightarrow> 'v procsys \<Rightarrow>
     (int \<times> 'v procsys) res" where
  "task_pricreate exec_load fi ker image_path pinfo s =
     bindR (fs_finfo image_path fi (world (io s))) (\<lambda>((ret, fi'), w).
       let s1 = s\<lparr>io := (io s)\<lparr>world := w\<rparr>\<rparr>
       in if ret < 0 then Inr (ret, s1)
          else if fi_type fi' = FS_TYPE_DIR then Inr (- EISDIR, s1)
          else if fi_type fi' \<noteq> FS_TYPE_REG then Inr (- EINVAL, s1)
          else bindR (check_pinfo fi pinfo s1) (\<lambda>(ret2, s2).
            if ret2 < 0 then Inr (ret2, s2)
            else bindR (generate_name image_path) (\<lambda>nm.
                 bindR (exec_load image_path s2) (\<lambda>(ret3, pm, s3).
                   if ret3 < 0 then Inr (ret3, s3)
                   else bindR (task_prcreate fi nm pm pinfo s3) (\<lambda>(new_pid, s4).
                     if new_pid < 0 then Inr (new_pid, s4)
                     else bindR (task_tcreate ker new_pid False s4) (\<lambda>(main_tid, s5).
                          bindR (plocked (\<lambda>s. bindR (thread_get (sch s) main_tid) (\<lambda>th.
                              if th = None then Inl NullDeref else Inr ((), s))) s5) (\<lambda>(_, s6).
                            Inr (new_pid, s6))))))))"

section \<open>Attributes\<close>

definition task_prget_pmap :: "int \<Rightarrow> 'v procsys \<Rightarrow> (pagemap option \<times> 'v procsys) res" where
  "task_prget_pmap pid = with_process pid None (\<lambda>p s. Inr (Some (pr_pagemap p), p, s))"

definition task_prinfo :: "int \<Rightarrow> process_info \<Rightarrow> 'v procsys \<Rightarrow> ((int \<times> process_info) \<times> 'v procsys) res" where
  "task_prinfo pid info = with_process pid (- ENOPS, info) (\<lambda>p s.
     Inr ((0, \<lparr>used_phys_memory = (pm_frames_used (pr_pagemap p) + dir_frames_used (pr_pagemap p)) * 4096,
               mapped_memory = map_frames_used (pr_pagemap p) * 4096, dir_phys_usage = dir_frames_used (pr_pagemap p) * 4096,
               info_parent = pr_parent p\<rparr>), p, s))"

definition task_pruse :: "int \<Rightarrow> 'v procsys \<Rightarrow> (bool \<times> 'v procsys) res" where
  "task_pruse pid = with_process pid False (\<lambda>p s. Inr (True, p\<lparr>pr_busy := pr_busy p + 1\<rparr>, s))"

definition task_prrelease :: "int \<Rightarrow> 'v procsys \<Rightarrow> (unit \<times> 'v procsys) res" where
  "task_prrelease pid = with_process pid () (\<lambda>p s. Inr ((), p\<lparr>pr_busy := pr_busy p - 1\<rparr>, s))"

text \<open>The stored directory ends with a slash: \<open>len\<close> counts it.\<close>

definition task_prset_cwd :: "finfo \<Rightarrow> int \<Rightarrow> bytes \<Rightarrow> 'v procsys \<Rightarrow> (int \<times> 'v procsys) res" where
  "task_prset_cwd fi pid dir s =
     bindR (strlen dir) (\<lambda>n.
       if n = 0 then Inl OutOfBounds
       else let len = (if dir ! (n - 1) \<noteq> 47 then n + 1 else n)
            in bindR (cwd_isvalid fi dir s) (\<lambda>(ret, s1).
                 if ret < 0 then Inr (ret, s1)
                 else with_process pid (- ENOPS) (\<lambda>p s2.
                   bindR (strcpy (kblock (len + 1)) dir) (\<lambda>b.
                   bindR (updR b (len - 1) 47) (\<lambda>b1. bindR (updR b1 len 0) (\<lambda>b2.
                     Inr (0, p\<lparr>pr_cwd := Some b2\<rparr>, s2))))) s1))"

definition task_prget_cwd :: "int \<Rightarrow> bytes \<Rightarrow> nat \<Rightarrow> 'v procsys \<Rightarrow> ((int \<times> bytes) \<times> 'v procsys) res" where
  "task_prget_cwd pid buffer sz = with_process pid (- ENOPS, buffer) (\<lambda>p s.
     case pr_cwd p of
       None \<Rightarrow> Inl NullDeref
     | Some cwd \<Rightarrow> bindR (strlen cwd) (\<lambda>n.
         if n + 1 > sz then Inr ((- ERANGE, buffer), p, s)
         else mapR (\<lambda>b. ((0, b), p, s)) (strcpy buffer cwd)))"

section \<open>Ending threads\<close>

lemma rc_lengths [simp]:
  "length (snd (rcparray_get a i)) = length a" "length (rcparray_unref a i) = length a" "length (snd (rcparray_remove a i)) = length a"
  by (auto simp: rcparray_get_def rcparray_unref_def rcparray_remove_def Let_def split: option.splits)

text \<open>The loop over the threads of a process in \<open>task_tkill\<close>; its body removes entries of the array.\<close>

function forget_loop :: "int \<Rightarrow> int rcparray \<Rightarrow> nat \<Rightarrow> int rcparray" where
  "forget_loop tid a idx =
     (if rcparray_foreach_cond a idx
      then forget_loop tid (case fst (rcparray_get a idx) of
               None \<Rightarrow> a
             | Some lid \<Rightarrow> let a1 = snd (rcparray_get a idx); a2 = (if lid = tid then snd (rcparray_remove a1 idx) else a1)
                           in rcparray_unref a2 idx) (Suc idx)
      else a)"
  by pat_completeness auto
termination
proof (relation "measure (\<lambda>(tid, a, idx). length a - idx)", goal_cases)
  case (2 tid a idx)
  then have "drop idx a \<noteq> []" by (auto simp: rcparray_foreach_cond_def)
  then show ?case by (auto simp: Let_def split: option.split)
qed simp

declare forget_loop.simps [simp del]

text \<open>The reference that \<open>rcptable_get\<close> takes here is not given back.\<close>

definition forget_thread :: "int \<Rightarrow> int \<Rightarrow> 'v procsys \<Rightarrow> 'v procsys" where
  "forget_thread pid tid s =
     (case rcptable_get (processes s) (to_size_t pid) of
        (None, t) \<Rightarrow> s\<lparr>processes := t\<rparr>
      | (Some p, t) \<Rightarrow> s\<lparr>processes := rcptable_poke t (to_size_t pid) (p\<lparr>pr_threads := forget_loop tid (pr_threads p) 0\<rparr>)\<rparr>)"

definition mark_thread :: "int \<Rightarrow> 'v procsys \<Rightarrow> (thread option \<times> 'v procsys) res" where
  "mark_thread tid s =
     bindR (thread_get (sch s) tid) (\<lambda>t. case t of
         None \<Rightarrow> Inr (None, s)
       | Some th \<Rightarrow>
           let th' = th\<lparr>abort := True, status := (if status th \<noteq> THREAD_STATUS_DEAD then THREAD_STATUS_RUNNABLE else status th)\<rparr>
           in Inr (Some th', s\<lparr>sch := put_thread (sch s) tid th'\<rparr>))"

text \<open>Waiting until another thread is not in a system call, and taking it off the processors for ever.\<close>

definition take_down :: "int \<Rightarrow> 'v procsys \<Rightarrow> 'v procsys res" where
  "take_down tid s =
     bindR (thread_get (sch s) tid) (\<lambda>t. case t of
         None \<Rightarrow> Inl NullDeref
       | Some th \<Rightarrow>
           if busy th > 0 then Inl Hang
           else bindR (on_sched (task_tset_status tid THREAD_STATUS_DEAD) s) (\<lambda>(_, s1).
                bindR (thread_get (sch s1) tid) (\<lambda>t1. case t1 of
                    None \<Rightarrow> Inl NullDeref
                  | Some th1 \<Rightarrow> (case thread_try_take th1 of
                      (False, _) \<Rightarrow> Inl Hang
                    | (True, th2) \<Rightarrow> Inr (s1\<lparr>sch := put_thread (sch s1) tid th2\<rparr>)))))"

text \<open>One round of the loop of \<open>_task_cleaner\<close>.\<close>

definition task_cleaner :: "'v procsys \<Rightarrow> 'v procsys res" where
  "task_cleaner s =
     (case thkill_data s of
        None \<Rightarrow> bindR (on_sched (task_tset_status (CURRENT_TID s) THREAD_STATUS_BLOCKED) s) (\<lambda>(_, s1).
                  mapR (\<lambda>c. s1\<lparr>sch := c\<rparr>) (task_tyield (sch s1)))
      | Some (tid, requester) \<Rightarrow>
          bindR (plocked (\<lambda>s. mapR (\<lambda>t. (t, s)) (thread_get (sch s) tid)) s) (\<lambda>(t, s1).
          bindR (if tid = requester
                 then bindR (on_sched (task_tset_status tid THREAD_STATUS_DEAD) s1) (\<lambda>(_, s2).
                      bindR (thread_get (sch s2) tid) (\<lambda>t2. case t2 of
                          None \<Rightarrow> Inl NullDeref
                        | Some th \<Rightarrow> (case thread_try_take th of
                            (False, _) \<Rightarrow> Inl Hang
                          | (True, th') \<Rightarrow> Inr (s2\<lparr>sch := put_thread (sch s2) tid th'\<rparr>))))
                 else Inr s1) (\<lambda>s3.
          bindR (case t of None \<Rightarrow> Inr s3 | Some _ \<Rightarrow> mapR snd (on_sched (task_cleanup tid) s3)) (\<lambda>s4.
            Inr (s4\<lparr>thkill_data := None\<rparr>)))))"

text \<open>
  The request is left for the cleaner when nobody else's is there. A thread that ends itself gives its
  context up; for another one the cleaner runs before the call returns.
\<close>

definition request_cleanup :: "int \<Rightarrow> 'v procsys \<Rightarrow> 'v procsys res" where
  "request_cleanup tid s =
     (if thkill_data s \<noteq> None then Inl Hang
      else bindR (on_sched (task_tset_status (thread_cleaner_tid s) THREAD_STATUS_RUNNABLE)
                    (s\<lparr>thkill_data := Some (tid, CURRENT_TID s)\<rparr>)) (\<lambda>(_, s1).
             if tid = CURRENT_TID s1
             then Inr (s1\<lparr>sch := (sch s1)\<lparr>cpu := (cpu (sch s1))\<lparr>current_context := Ctx_Discard\<rparr>\<rparr>\<rparr>)
             else task_cleaner s1))"

definition task_tkill :: "int \<Rightarrow> 'v procsys \<Rightarrow> 'v procsys res" where
  "task_tkill tid s =
     bindR (if tid = CURRENT_TID s
            then plocked (\<lambda>s. mapR (\<lambda>(t, s1). case t of None \<Rightarrow> (False, s1) | Some th \<Rightarrow> (True, forget_thread (process th) tid s1)) (mark_thread tid s)) s
            else bindR (plocked (mark_thread tid) s) (\<lambda>(t, s1). case t of
                     None \<Rightarrow> Inr (False, s1)
                   | Some th \<Rightarrow> bindR (take_down tid s1) (plocked (\<lambda>s2. Inr (True, forget_thread (process th) tid s2)))))
       (\<lambda>(found, s3). if found then request_cleanup tid s3 else Inr s3)"

section \<open>Ending processes\<close>

text \<open>The hook of the file system; the count of a thread slot is lowered in place of that of the descriptor.\<close>

fun cleanup_fds :: "nat list \<Rightarrow> process \<times> 'v fssys fdsys \<Rightarrow> (process \<times> 'v fssys fdsys) res" where
  "cleanup_fds [] (p, w) = Inr (p, w)"
| "cleanup_fds (lid # ids) (p, w) =
     (case rcparray_get (fiddies p) lid of
        (None, _) \<Rightarrow> Inl NullDeref
      | (Some fd, a) \<Rightarrow> bindR (fd_close fd w) (\<lambda>(_, w').
          cleanup_fds ids (p\<lparr>fiddies := a, pr_threads := rcparray_unref (pr_threads p) lid\<rparr>, w')))"

definition fs_proc_cleanup :: "process \<times> 'v fssys fdsys \<Rightarrow> (process \<times> 'v fssys fdsys) res" where
  "fs_proc_cleanup pw = cleanup_fds (rcparray_foreach (fiddies (fst pw))) pw"

fun run_hook :: "hook_function \<Rightarrow> process \<times> 'v fssys fdsys \<Rightarrow> (process \<times> 'v fssys fdsys) res" where
  "run_hook Fs_proc_cleanup pw = fs_proc_cleanup pw"

text \<open>The two loops over the threads of the process, with what they do for a thread.\<close>

fun each_thread :: "(int \<Rightarrow> 'v procsys \<Rightarrow> 'v procsys res) \<Rightarrow> nat list \<Rightarrow> process \<Rightarrow> 'v procsys \<Rightarrow> (process \<times> 'v procsys) res" where
  "each_thread f [] p s = Inr (p, s)"
| "each_thread f (lid # ids) p s =
     (case rcparray_get (pr_threads p) lid of
        (None, _) \<Rightarrow> Inl NullDeref
      | (Some tid, a) \<Rightarrow> bindR (f tid s) (\<lambda>s'. each_thread f ids (p\<lparr>pr_threads := rcparray_unref a lid\<rparr>) s'))"

text \<open>
  \<open>_task_prkill_async\<close>, run by a thread of its own. \<open>free_pages\<close> stands for freeing the frames and the
  tables of the page map.
\<close>

definition task_prkill_async :: "(pagemap \<Rightarrow> 'v procsys \<Rightarrow> 'v procsys res) \<Rightarrow> int \<Rightarrow> int \<Rightarrow> 'v procsys \<Rightarrow> 'v procsys res" where
  "task_prkill_async free_pages pid code s =
     (case rcptable_get (processes s) (to_size_t pid) of
        (None, t) \<Rightarrow> Inr (s\<lparr>processes := t\<rparr>)
      | (Some p, t) \<Rightarrow>
          let s1 = s\<lparr>processes := snd (rcptable_remove t (to_size_t pid))\<rparr>
          in bindR (each_thread (\<lambda>tid s. mapR snd (on_sched (task_prepare_tkill tid) s)) (rcparray_foreach (pr_threads p)) p s1) (\<lambda>(p2, s2).
             bindR (each_thread task_tkill (rcparray_foreach (pr_threads p2)) p2 s2) (\<lambda>(p3, s3).
               if pr_busy p3 > 0 then Inl Hang
               else bindR (hook_invoke run_hook HOOK_PKILL (hook_table s3) (p3\<lparr>pr_ecode := code\<rparr>, io s3)) (\<lambda>(p4, w).
                    bindR (event_defunct (pr_event p4) (sch s3)) (\<lambda>(e, c).
                      let s4 = s3\<lparr>processes := rcptable_poke (processes s3) (to_size_t pid) (p4\<lparr>pr_event := e\<rparr>), io := w, sch := c\<rparr>
                      in if rcptable_refcount (processes s4) (to_size_t pid) > 1 then Inl Hang
                         else bindR (free_pages (pr_pagemap p4) s4) (\<lambda>s5.
                           Inr (s5\<lparr>processes := snd (rcptable_unref (processes s5) (to_size_t pid)), process_count := process_count s5 - 1\<rparr>)))))))"

text \<open>
  \<open>task_prkill\<close> up to the point at which it waits: whether it waits. The thread it starts runs
  \<open>task_prkill_async\<close> and the callback, which frees what the caller waits on.
\<close>

definition task_prkill :: "u64 \<Rightarrow> int \<Rightarrow> int \<Rightarrow> 'v procsys \<Rightarrow> (bool \<times> 'v procsys) res" where
  "task_prkill ker pid code s =
     (if pid = KERNEL_PROCESS then Inr (False, s)
      else mapR (\<lambda>(_, s1). (pid \<noteq> CURRENT_PID s1, s1)) (task_call_async ker s))"

text \<open>\<open>task_prwait\<close> up to the wait, with the result when it does not wait, and the rest.\<close>

definition task_prwait :: "int \<Rightarrow> int \<Rightarrow> 'v procsys \<Rightarrow> ((int \<times> int) option \<times> 'v procsys) res" where
  "task_prwait pid ecode s =
     (case rcptable_get (processes s) (to_size_t pid) of
        (None, t) \<Rightarrow> Inr (Some (- ENOPS, ecode), s\<lparr>processes := t\<rparr>)
      | (Some p, t) \<Rightarrow> bindR (event_wait (pr_event p) (sch s)) (\<lambda>(r, e, c).
          let t1 = rcptable_poke t (to_size_t pid) (p\<lparr>pr_event := e\<rparr>); s1 = s\<lparr>processes := t1, sch := c\<rparr>
          in case r of
               Some _ \<Rightarrow> Inr (Some (- EINTR, pr_ecode p), s1\<lparr>processes := snd (rcptable_unref t1 (to_size_t pid))\<rparr>)
             | None \<Rightarrow> Inr (None, s1)))"

definition prwait_resume :: "int \<Rightarrow> process \<Rightarrow> 'v procsys \<Rightarrow> ((int \<times> int) \<times> 'v procsys) res" where
  "prwait_resume pid p s =
     mapR (\<lambda>(r, e, c). ((if r \<noteq> 0 then - EINTR else 0, pr_ecode p),
         s\<lparr>sch := c, processes := snd (rcptable_unref (rcptable_poke (processes s) (to_size_t pid) (p\<lparr>pr_event := e\<rparr>)) (to_size_t pid))\<rparr>))
       (event_resume (pr_event p) (sch s))"

section \<open>Operations on one process\<close>

text \<open>A process that exists, with the slot that holds it.\<close>

definition proc_slot :: "'v procsys \<Rightarrow> int \<Rightarrow> process slot \<Rightarrow> bool" where
  "proc_slot s pid sl \<longleftrightarrow> rcpt_ok (processes s) \<and> rcpt_view (processes s) (to_size_t pid) = Some sl \<and> present sl \<and> 1 \<le> refs sl"

lemma with_process_ok:
  assumes "proc_slot s pid sl"
    and "\<And>t. f (val sl) (s\<lparr>processes := t\<rparr>) = Inr (r, p', s2\<lparr>processes := t\<rparr>)"
  shows "\<exists>t. with_process pid none f s = Inr (r, s2\<lparr>processes := t\<rparr>) \<and> rcpt_ok t \<and>
    rcpt_view t = (rcpt_view (processes s))(to_size_t pid \<mapsto> sl\<lparr>val := p'\<rparr>)"
proof -
  note d = assms(1) [unfolded proc_slot_def]
  obtain x t where g: "rcptable_get (processes s) (to_size_t pid) = (x, t)" by fastforce
  have x: "x = Some (val sl)" using rcptable_get_poke_unref(1) [OF _ _ _ _ g] d by blast
  have "with_process pid none f s = Inr (r, s2\<lparr>processes := snd (rcptable_unref (rcptable_poke t (to_size_t pid) p') (to_size_t pid))\<rparr>)"
    using g x assms(2) [of t] by (simp add: with_process_def)
  then show ?thesis using rcptable_get_poke_unref(3,4) [OF _ _ _ _ g, of sl p'] d by blast
qed

text \<open>The frame: whatever the operation does, the slots of the other processes and the counts are kept.\<close>

lemma with_process_frame:
  assumes "with_process pid none f s = Inr (r, s')" and "proc_slot s pid sl"
    and "\<And>p s r p' s'. f p s = Inr (r, p', s') \<Longrightarrow> processes s' = processes s"
  shows "\<exists>p'. rcpt_ok (processes s') \<and> rcpt_view (processes s') = (rcpt_view (processes s))(to_size_t pid \<mapsto> sl\<lparr>val := p'\<rparr>)"
proof -
  note d = assms(2) [unfolded proc_slot_def]
  obtain x t where g: "rcptable_get (processes s) (to_size_t pid) = (x, t)" by fastforce
  have x: "x = Some (val sl)" using rcptable_get_poke_unref(1) [OF _ _ _ _ g] d by blast
  obtain p' s2 where f: "f (val sl) (s\<lparr>processes := t\<rparr>) = Inr (r, p', s2)"
    and s': "s' = s2\<lparr>processes := snd (rcptable_unref (rcptable_poke (processes s2) (to_size_t pid) p') (to_size_t pid))\<rparr>"
    using assms(1) g x by (auto simp: with_process_def mapR_eq_Inr_iff)
  have "processes s2 = t" using assms(3) [OF f] by simp
  then show ?thesis using rcptable_get_poke_unref(3,4) [OF _ _ _ _ g, of sl p'] d s' by auto
qed

lemma with_process_none:
  assumes "rcpt_ok (processes s)" and "rcpt_view (processes s) (to_size_t pid) = None"
  shows "with_process pid none f s = Inr (none, s)"
  using assms(2)
  by (cases "processes s" "to_size_t pid" rule: rcptable_scan_cases) (simp_all add: with_process_def rcptable_get_def)

section \<open>The working directory\<close>

text \<open>The directory as it is stored: with a slash at its end.\<close>

definition slashed :: "bytes \<Rightarrow> bytes" where
  "slashed dir = (if last dir = 47 then dir else dir @ [47])"

lemma set_cwd_bytes:
  assumes "cstring dir" and "dir \<noteq> []"
  defines "len \<equiv> (if last dir \<noteq> 47 then length dir + 1 else length dir)"
  shows "\<exists>r. bindR (strcpy (kblock (len + 1)) (dir @ 0 # x)) (\<lambda>b. bindR (updR b (len - 1) 47) (\<lambda>b1. updR b1 len 0)) = Inr (slashed dir @ 0 # r)"
proof -
  have kb: "len + 1 \<le> length (kblock (len + 1))" by (rule length_kblock)
  have cp: "strcpy (kblock (len + 1)) (dir @ 0 # x) = Inr (dir @ 0 # drop (Suc (length dir)) (kblock (len + 1)))"
    using assms(1) kb by (intro strcpy_terminated) (auto simp: len_def split: if_splits)
  let ?b = "dir @ 0 # drop (Suc (length dir)) (kblock (len + 1))"
  have lb: "length ?b = length (kblock (len + 1))" using kb by (auto simp: len_def split: if_splits)
  show ?thesis
  proof (cases "last dir = 47")
    case True
    have "?b[length dir - 1 := 47] = ?b"
      using True assms(2) last_conv_nth [OF assms(2)] by (simp add: list_update_append list_update_same_conv)
    then show ?thesis using cp True assms(2) lb kb by (simp add: len_def slashed_def)
  next
    case False
    then obtain c r where r: "drop (Suc (length dir)) (kblock (len + 1)) = c # r"
      using kb by (cases "drop (Suc (length dir)) (kblock (len + 1))") (auto simp: len_def)
    then show ?thesis using cp False lb kb by (simp add: len_def slashed_def list_update_append)
  qed
qed

lemma slot_same: "proc_slot s pid sl \<Longrightarrow> (rcpt_view (processes s))(to_size_t pid \<mapsto> sl\<lparr>val := val sl\<rparr>) = rcpt_view (processes s)"
  by (auto simp: proc_slot_def fun_eq_iff)

lemma set_cwd_ok:
  assumes "proc_slot s pid sl" and "cstring dir" and "dir \<noteq> []" and "length dir \<le> 2047"
    and "fs_finfo (dir @ 0 # x) fi (world (io s)) = Inr ((ret, fi'), w)" and "0 \<le> ret" and "fi_type fi' = FS_TYPE_DIR"
  shows "\<exists>t r. task_prset_cwd fi pid (dir @ 0 # x) s = Inr (0, s\<lparr>io := (io s)\<lparr>world := w\<rparr>, processes := t\<rparr>) \<and> rcpt_ok t \<and>
    rcpt_view t = (rcpt_view (processes s))(to_size_t pid \<mapsto> sl\<lparr>val := (val sl)\<lparr>pr_cwd := Some (slashed dir @ 0 # r)\<rparr>\<rparr>)"
proof -
  let ?s = "s\<lparr>io := (io s)\<lparr>world := w\<rparr>\<rparr>"
  have v: "cwd_isvalid fi (dir @ 0 # x) s = Inr (0, ?s)"
    using assms(2,4-7) by (simp add: cwd_isvalid_def PATH_LEN_MAX_def)
  have ps: "proc_slot ?s pid sl" using assms(1) by (simp add: proc_slot_def)
  let ?len = "if last dir \<noteq> 47 then length dir + 1 else length dir"
  obtain r where r: "bindR (strcpy (kblock (?len + 1)) (dir @ 0 # x)) (\<lambda>b. bindR (updR b (?len - 1) 47) (\<lambda>b1. updR b1 ?len 0)) = Inr (slashed dir @ 0 # r)"
    using set_cwd_bytes [OF assms(2,3)] by blast
  let ?f = "\<lambda>p s2. bindR (strcpy (kblock (?len + 1)) (dir @ 0 # x)) (\<lambda>b. bindR (updR b (?len - 1) 47) (\<lambda>b1. bindR (updR b1 ?len 0) (\<lambda>b2.
                     Inr (0 :: int, p\<lparr>pr_cwd := Some b2\<rparr>, s2))))"
  have f: "?f p s2 = Inr (0, p\<lparr>pr_cwd := Some (slashed dir @ 0 # r)\<rparr>, s2)" for p s2
    using arg_cong [OF r, of "\<lambda>m. bindR m (\<lambda>b2. Inr (0 :: int, p\<lparr>pr_cwd := Some b2\<rparr>, s2))"] by (simp only: bindR_assoc bindR_simps)
  have nth: "(dir @ 0 # x) ! (length dir - 1) = last dir" using assms(3) by (simp add: nth_append last_conv_nth)
  have e: "task_prset_cwd fi pid (dir @ 0 # x) s = with_process pid (- ENOPS) ?f ?s"
    using assms(2,3) v nth by (simp only: task_prset_cwd_def strlen_terminated bindR_simps Let_def prod.case) simp
  obtain t where t: "with_process pid (- ENOPS) ?f ?s = Inr (0, ?s\<lparr>processes := t\<rparr>)" "rcpt_ok t"
      "rcpt_view t = (rcpt_view (processes ?s))(to_size_t pid \<mapsto> sl\<lparr>val := (val sl)\<lparr>pr_cwd := Some (slashed dir @ 0 # r)\<rparr>\<rparr>)"
    using with_process_ok [where f = ?f and none = "- ENOPS", OF ps f] by blast
  then show ?thesis unfolding e by (intro exI [of _ t] exI [of _ r]) simp
qed


lemma get_cwd_ok:
  assumes "proc_slot s pid sl" and "pr_cwd (val sl) = Some (d @ 0 # r)" and "cstring d"
  shows "\<exists>t. rcpt_ok t \<and> rcpt_view t = rcpt_view (processes s) \<and>
    (length d < sz \<longrightarrow> length d < length buf \<longrightarrow> task_prget_cwd pid buf sz s = Inr ((0, d @ 0 # drop (Suc (length d)) buf), s\<lparr>processes := t\<rparr>)) \<and>
    (sz \<le> length d \<longrightarrow> task_prget_cwd pid buf sz s = Inr ((- ERANGE, buf), s\<lparr>processes := t\<rparr>))"
proof -
  let ?f = "\<lambda>p s. case pr_cwd p of None \<Rightarrow> Inl NullDeref
     | Some cwd \<Rightarrow> bindR (strlen cwd) (\<lambda>n. if n + 1 > sz then Inr ((- ERANGE, buf), p, s) else mapR (\<lambda>b. ((0, b), p, s)) (strcpy buf cwd))"
  define x where "x = (if sz \<le> length d then (- ERANGE, buf) else (0, d @ 0 # drop (Suc (length d)) buf))"
  note id = slot_same [OF assms(1)]
  consider "sz \<le> length d" | "length d < sz" "length d < length buf" | "length d < sz" "\<not> length d < length buf" by linarith
  then show ?thesis
  proof cases
    case 3
    then show ?thesis using assms(1) by (intro exI [of _ "processes s"]) (simp add: proc_slot_def)
  qed (use with_process_ok [where f = ?f and none = "(- ENOPS, buf)" and r = x and p' = "val sl" and ?s2.0 = s, OF assms(1)] assms(2,3) id
      in \<open>auto simp: x_def task_prget_cwd_def\<close>)
qed

section \<open>Descriptors of a process that ends\<close>

fun close_all :: "int list \<Rightarrow> 'w fdsys \<Rightarrow> 'w fdsys res" where
  "close_all [] w = Inr w"
| "close_all (fd # rest) w = bindR (fd_close fd w) (\<lambda>(_, w'). close_all rest w')"

lemma cleanup_closes:
  fixes w :: "'v fssys fdsys"
  assumes "distinct ids" and "\<forall>i \<in> set ids. i < length (fiddies p) \<and> (\<exists>sl. fiddies p ! i = Some sl \<and> present sl \<and> val sl = g i)"
  shows "\<exists>p'. cleanup_fds ids (p, w) = mapR (Pair p') (close_all (map g ids) w)"
  using assms
proof (induction ids arbitrary: p w)
  case (Cons i ids)
  obtain sl where sl: "i < length (fiddies p)" "fiddies p ! i = Some sl" "present sl" "val sl = g i" using Cons.prems(2) by auto
  let ?a = "(fiddies p)[i := Some (sl\<lparr>refs := refs sl + 1\<rparr>)]"
  let ?p = "p\<lparr>fiddies := ?a, pr_threads := rcparray_unref (pr_threads p) i\<rparr>"
  have g: "rcparray_get (fiddies p) i = (Some (g i), ?a)" using sl by (simp add: rcparray_get_def)
  have all: "\<forall>j \<in> set ids. j < length (fiddies ?p) \<and> (\<exists>sl. fiddies ?p ! j = Some sl \<and> present sl \<and> val sl = g j)"
    using Cons.prems by (auto simp: nth_list_update)
  have ih: "\<exists>p'. cleanup_fds ids (?p, w') = mapR (Pair p') (close_all (map g ids) w')" for w' :: "'v fssys fdsys"
    by (rule Cons.IH [OF _ all]) (use Cons.prems(1) in simp)
  show ?case
  proof (cases "fd_close (g i) w")
    case (Inl e)
    then show ?thesis using g by simp
  next
    case (Inr x)
    then show ?thesis using g ih by (cases x) simp
  qed
qed simp

lemma cleanup_gap:
  assumes "k \<in> set ids" and "k < length (fiddies p)" and "fiddies p ! k = None"
  shows "cleanup_fds ids (p, w) \<noteq> Inr x"
  using assms
proof (induction ids arbitrary: p w)
  case (Cons i ids)
  show ?case
  proof (cases "i = k")
    case True
    then show ?thesis using Cons.prems by (simp add: rcparray_get_def)
  next
    case False
    obtain r a where g: "rcparray_get (fiddies p) i = (r, a)" by fastforce
    have "a ! k = None \<and> length a = length (fiddies p)" using g Cons.prems False
      by (auto simp: rcparray_get_def nth_list_update split: if_splits option.splits)
    then have ih: "cleanup_fds ids (p\<lparr>fiddies := a, pr_threads := rcparray_unref (pr_threads p) i\<rparr>, w') \<noteq> Inr x" for w'
      using Cons.prems False by (intro Cons.IH) simp_all
    show ?thesis using g ih by (cases r) (auto simp: bindR_eq_Inr_iff)
  qed
qed simp

lemma foreach_below:
  assumes "k < j" and "slot_present (rcp_view a j)"
  shows "k \<in> set (rcparray_foreach a)"
proof -
  obtain n where n: "rcparray_foreach_from a 0 = [0..<n]" "\<forall>k \<ge> n. \<not> slot_present (rcp_view a k)"
    using rcparray_foreach_from_upt [of 0 a] by (elim exE conjE) (rule that)
  have "j < n" using n(2) assms(2) by (meson not_le)
  then show ?thesis using n(1) assms(1) by (simp add: rcparray_foreach_def)
qed

text \<open>Closing descriptors one after the other removes exactly those from the table of the system.\<close>

definition closable :: "'w file_descriptor \<Rightarrow> bool" where
  "closable d \<longleftrightarrow> (\<exists>cl. op_close (ops d) = Some cl \<and> (\<forall>v. \<exists>r v'. cl (ifd d) v = Inr (r, v')))"

lemma close_all_removes:
  assumes "quiet (fds w)" and "\<forall>fd \<in> set l. \<forall>d. open_at (fds w) (to_size_t fd) = Some d \<longrightarrow> closable d"
  shows "\<exists>w'. close_all l w = Inr w' \<and> quiet (fds w') \<and>
    open_at (fds w') = (\<lambda>j. if j \<in> to_size_t ` set l then None else open_at (fds w) j)"
  using assms
proof (induction l arbitrary: w)
  case (Cons fd l)
  show ?case
  proof (cases "open_at (fds w) (to_size_t fd)")
    case None
    obtain w' where "close_all l w = Inr w'" "quiet (fds w')" "open_at (fds w') = (\<lambda>j. if j \<in> to_size_t ` set l then None else open_at (fds w) j)"
      using Cons.IH [OF Cons.prems(1)] Cons.prems(2) by auto
    then show ?thesis using None Cons.prems(1) by (intro exI [of _ w']) (auto simp: fd_close_quiet fun_eq_iff)
  next
    case (Some d)
    then obtain cl r v where cl: "op_close (ops d) = Some cl" "cl (ifd d) (world w) = Inr (r, v)"
      using Cons.prems(2) unfolding closable_def by (meson list.set_intros(1))
    define u where "u = w\<lparr>fds := snd (rcparray_remove (fds w) (to_size_t fd)), world := v\<rparr>"
    have u: "fd_close fd w = Inr (r, u)" using Some cl Cons.prems(1) by (simp add: fd_close_quiet u_def)
    have q: "quiet (fds u)" "open_at (fds u) = (open_at (fds w))(to_size_t fd := None)"
      using quiet_remove [OF Cons.prems(1), of "to_size_t fd"] Some by (simp_all add: u_def)
    have "\<forall>fd' \<in> set l. \<forall>d. open_at (fds u) (to_size_t fd') = Some d \<longrightarrow> closable d"
      using Cons.prems(2) unfolding q(2) by simp
    then obtain w' where "close_all l u = Inr w'" "quiet (fds w')" "open_at (fds w') = (\<lambda>j. if j \<in> to_size_t ` set l then None else open_at (fds u) j)"
      using Cons.IH [OF q(1)] by blast
    then show ?thesis using u q(2) by (intro exI [of _ w']) (auto simp: fun_eq_iff)
  qed
qed simp

lemma full_closes:
  fixes w :: "'v fssys fdsys"
  assumes "full (fiddies p)"
  shows "\<exists>p'. fs_proc_cleanup (p, w) = mapR (Pair p') (close_all (map (\<lambda>i. the (open_at (fiddies p) i)) [0..<length (fiddies p)]) w)"
proof -
  have "\<forall>i \<in> set [0..<length (fiddies p)]. i < length (fiddies p) \<and>
      (\<exists>sl. fiddies p ! i = Some sl \<and> present sl \<and> val sl = the (open_at (fiddies p) i))"
    using assms by (auto simp: full_def quiet_def open_at_def)
  then show ?thesis using cleanup_closes [of "[0..<length (fiddies p)]" p "\<lambda>i. the (open_at (fiddies p) i)" w]
    unfolding fs_proc_cleanup_def fst_conv full_foreach [OF assms] by simp
qed

lemma full_values:
  assumes "full a"
  shows "fd \<in> set (map (\<lambda>i. the (open_at a i)) [0..<length a]) \<longleftrightarrow> (\<exists>k. open_at a k = Some fd)" (is "_ \<in> set ?l \<longleftrightarrow> _")
proof
  assume "fd \<in> set ?l"
  then obtain k where "k < length a" "fd = the (open_at a k)" by auto
  then show "\<exists>k. open_at a k = Some fd" using full_open [OF assms, of k] by auto
next
  assume "\<exists>k. open_at a k = Some fd"
  then obtain k where k: "open_at a k = Some fd" ..
  then have "k \<in> set [0..<length a]" by (simp add: open_at_def split: if_splits)
  then show "fd \<in> set ?l" unfolding set_map using k by (metis image_eqI option.sel)
qed

lemma hook_registered:
  assumes "hook_add HOOK_PKILL (cstr ''fs_pkill_fd_closer'') Fs_proc_cleanup (replicate MAX_HOOKS []) = Inr hs"
  shows "hook_invoke run_hook HOOK_PKILL hs (p, w) = fs_proc_cleanup (p, w)"
  using hook_invoke_added [of HOOK_PKILL "bytes_of ''fs_pkill_fd_closer''" "replicate MAX_HOOKS []" "[]" Fs_proc_cleanup hs run_hook "(p, w)"] assms
  by (simp add: hook_id_def HOOK_PKILL_def MAX_HOOKS_def cstr_def cstring_def bytes_of_def) (simp add: hook_invoke_def)

section \<open>A small system\<close>

text \<open>A system with one process and the root file system.\<close>

definition root_mount :: "bytes mount" where
  "root_mount = (on_dir ''/'')\<lparr>m_fs := one_file\<lparr>fsop_finfo := Some (\<lambda>mi p w.
     Inr (0, \<lparr>fi_dev = 0, fi_type = FS_TYPE_DIR, fi_size = 0, fi_block_size = 0, fi_block_count = 0\<rparr>, w))\<rparr>\<rparr>"

definition root_only :: "bytes fssys" where
  "root_only = \<lparr>filesystems = [], mounts = [Some (fresh_slot root_mount)], handles = [], drv = [7, 8, 9]\<rparr>"

definition shell :: "int rcparray \<Rightarrow> process" where
  "shell a = \<lparr>pr_name = cstr ''shell'', pr_cwd = Some (cstr ''/''), pr_parent = 0, pr_busy = 0,
     pr_pagemap = \<lparr>root_dir = 0, vstart = 0, vend = 0, pm_frames_used = 0, dir_frames_used = 0, map_frames_used = 0\<rparr>, pr_event = no_event,
     fiddies = a, pr_threads = [], pr_ecode = 0\<rparr>"

definition one_process :: "int rcparray \<Rightarrow> bytes procsys" where
  "one_process a = \<lparr>processes = rcptable_set (rcptable_init 4 2) 1 (shell a), process_count = 1, cpu_locals = True, thkill_data = None,
     thread_cleaner_tid = 0, hook_table = replicate MAX_HOOKS [], sch = two_threads, io = \<lparr>fds = [], world = root_only\<rparr>\<rparr>"

lemma one_process_slot: "proc_slot (one_process a) 1 (fresh_slot (shell a))" 
  using rcptable_set_ok [OF rcptable_init_ok(1,2) [of 4 2], of 1 "shell a"] by (simp add: proc_slot_def one_process_def)

lemma root_only_mount: 
  assumes "cstring q" "q \<noteq> []" "hd q = 47"
  shows "fs_get_mount (q @ 0 # x) root_only = Inr ((0, q @ 0 # x), root_only)"
proof -
  have f: "full (mounts root_only)" by (simp add: full_def quiet_def root_only_def)
  obtain r where q: "q = 47 # r" using assms by (cases q) auto
  have "get_mount_loop [0] (47 # r @ 0 # x) (- ENOENT) 0 (mounts root_only) = Inr (0, 0, mounts root_only)"
    by (simp add: root_only_def root_mount_def on_dir_def cstr_def bytes_of_def rcparray_get_def rcparray_unref_def fresh_slot_def)
  then show ?thesis unfolding fs_get_mount_def full_foreach [OF f] q by (simp add: root_only_def)
qed

definition dir_finfo :: finfo where
  "dir_finfo = \<lparr>fi_dev = 0, fi_type = FS_TYPE_DIR, fi_size = 0, fi_block_size = 0, fi_block_count = 0\<rparr>"

lemma root_only_finfo:
  assumes "cstring q" "q \<noteq> []" "hd q = 47"
  shows "fs_finfo (q @ 0 # x) fi root_only = Inr ((0, dir_finfo), root_only)"
proof -
  have o: "open_at (mounts root_only) 0 = Some root_mount" "quiet (mounts root_only)" by (simp_all add: root_only_def open_at_def quiet_def)
  have "on_mount (q @ 0 # x) (\<lambda>m p w. call (fsop_finfo (m_fs m)) (\<lambda>f. f (m_info m) p w)) fi root_only = Inr ((Some root_mount, 0, dir_finfo), root_only\<lparr>drv := drv root_only\<rparr>)"
    by (rule on_mount_run [OF o(2) _ o(1)]) (use root_only_mount [OF assms] in \<open>simp_all add: root_mount_def dir_finfo_def\<close>)
  then show ?thesis by (simp add: fs_finfo_def)
qed

lemma hook_example: "\<exists>hs. hook_add HOOK_PKILL (cstr ''fs_pkill_fd_closer'') Fs_proc_cleanup (replicate MAX_HOOKS []) = Inr hs"
  using hook_add_appends [of HOOK_PKILL "bytes_of ''fs_pkill_fd_closer''" "[]" Fs_proc_cleanup "replicate MAX_HOOKS []"]
  by (simp add: hook_id_def HOOK_PKILL_def MAX_HOOKS_def cstr_def cstring_def bytes_of_def)

definition plain_fd :: "bytes fssys file_descriptor" where
  "plain_fd = \<lparr>ifd = 4, ops = \<lparr>op_read = None, op_write = None, op_seek = None, op_close = Some (\<lambda>i w. Inr (0, w)),
     op_ioctl = None, op_readdir = None, op_dup = None\<rparr>\<rparr>"

definition three_open :: "bytes fssys fdsys" where
  "three_open = \<lparr>fds = [Some (fresh_slot plain_fd), Some (fresh_slot plain_fd), Some (fresh_slot plain_fd)], world = root_only\<rparr>"

lemma three_open: "quiet (fds three_open)" "open_at (fds three_open) i = (if i < 3 then Some plain_fd else None)"
  by (auto simp: three_open_def quiet_def open_at_def less_Suc_eq numeral_eq_Suc nth_Cons')

section \<open>Properties\<close>

text \<open>
  The working directory of a process is what was last set, with a slash at its end: when the
  directory exists, \<open>task_prset_cwd\<close> returns 0, and a following \<open>task_prget_cwd\<close> stores it, terminated,
  in the buffer; a buffer size that does not hold it is the range error and leaves the buffer; and
  neither call changes what the table holds for another process.
\<close>

theorem cwd_roundtrip:
  assumes "proc_slot s pid sl" and "cstring dir" and "dir \<noteq> []" and "length dir \<le> 2047"
    and "fs_finfo (dir @ 0 # x) fi (world (io s)) = Inr ((ret, fi'), w)" and "0 \<le> ret" and "fi_type fi' = FS_TYPE_DIR"
    and "length (slashed dir) < length buf"
  shows "\<exists>s1 s2. task_prset_cwd fi pid (dir @ 0 # x) s = Inr (0, s1) \<and>
    task_prget_cwd pid buf sz s1 =
      Inr (if length (slashed dir) < sz then (0, slashed dir @ 0 # drop (Suc (length (slashed dir))) buf) else (- ERANGE, buf), s2) \<and>
    (\<forall>k. k \<noteq> to_size_t pid \<longrightarrow> rcpt_view (processes s2) k = rcpt_view (processes s) k)"
proof -
  obtain t r where t: "task_prset_cwd fi pid (dir @ 0 # x) s = Inr (0, s\<lparr>io := (io s)\<lparr>world := w\<rparr>, processes := t\<rparr>)" "rcpt_ok t"
      "rcpt_view t = (rcpt_view (processes s))(to_size_t pid \<mapsto> sl\<lparr>val := (val sl)\<lparr>pr_cwd := Some (slashed dir @ 0 # r)\<rparr>\<rparr>)"
    using set_cwd_ok [OF assms(1-7)] by blast
  let ?s = "s\<lparr>io := (io s)\<lparr>world := w\<rparr>, processes := t\<rparr>"
  let ?sl = "sl\<lparr>val := (val sl)\<lparr>pr_cwd := Some (slashed dir @ 0 # r)\<rparr>\<rparr>"
  have sl: "proc_slot ?s pid ?sl" using assms(1) t(2,3) by (simp add: proc_slot_def)
  have "cstring (slashed dir)" using assms(2) by (simp add: slashed_def cstring_def)
  then obtain t2 where t2: "rcpt_view t2 = rcpt_view t"
      "length (slashed dir) < sz \<longrightarrow> task_prget_cwd pid buf sz ?s = Inr ((0, slashed dir @ 0 # drop (Suc (length (slashed dir))) buf), ?s\<lparr>processes := t2\<rparr>)"
      "sz \<le> length (slashed dir) \<longrightarrow> task_prget_cwd pid buf sz ?s = Inr ((- ERANGE, buf), ?s\<lparr>processes := t2\<rparr>)"
    using get_cwd_ok [OF sl, of "slashed dir" r sz buf] assms(8) by auto
  have "\<forall>k. k \<noteq> to_size_t pid \<longrightarrow> rcpt_view t2 k = rcpt_view (processes s) k" using t2(1) t(3) by simp
  then show ?thesis using t(1) t2(2,3) by (intro exI [of _ ?s] exI [of _ "?s\<lparr>processes := t2\<rparr>"]) simp
qed

theorem cwd_roundtrip_witness:
  "\<exists>s1 s2. task_prset_cwd dir_finfo 1 (cstr ''/home'') (one_process []) = Inr (0, s1) \<and>
     task_prget_cwd 1 (replicate 10 0) 8 s1 = Inr ((0, cstr ''/home/'' @ replicate 3 0), s2)"
proof -
  have c: "cstring (bytes_of ''/home'')" "hd (bytes_of ''/home'') = 47" "bytes_of ''/home'' \<noteq> []" "slashed (bytes_of ''/home'') = bytes_of ''/home/''"
    by (simp_all add: bytes_of_def cstring_def slashed_def)
  have "\<exists>s1 s2. task_prset_cwd dir_finfo 1 (bytes_of ''/home'' @ 0 # []) (one_process []) = Inr (0, s1) \<and>
    task_prget_cwd 1 (replicate 10 0) 8 s1 =
      Inr (if length (slashed (bytes_of ''/home'')) < 8 then (0, slashed (bytes_of ''/home'') @ 0 # drop (Suc (length (slashed (bytes_of ''/home'')))) (replicate 10 0))
           else (- ERANGE, replicate 10 0), s2) \<and>
    (\<forall>k. k \<noteq> to_size_t 1 \<longrightarrow> rcpt_view (processes s2) k = rcpt_view (processes (one_process [])) k)"
    by (rule cwd_roundtrip [OF one_process_slot c(1), where fi' = dir_finfo and ret = 0 and w = root_only])
      (use c root_only_finfo [OF c(1,3,2)] in \<open>simp_all add: one_process_def dir_finfo_def\<close>)
  then show ?thesis unfolding c(4) by (auto simp: cstr_def numeral_eq_Suc)
qed

text \<open>
  C30: With the hook that \<open>fs_init\<close> registers, ending a process that has closed none of its descriptors
  below another closes exactly its descriptors: the table of the system holds nothing under the numbers
  the process had, and what it held under every other number.
\<close>

theorem exit_closes_descriptors:
  fixes w :: "'v fssys fdsys"
  assumes "hook_add HOOK_PKILL (cstr ''fs_pkill_fd_closer'') Fs_proc_cleanup (replicate MAX_HOOKS []) = Inr hs"
    and "full (fiddies p)" and "quiet (fds w)"
    and "\<forall>k fd d. open_at (fiddies p) k = Some fd \<longrightarrow> open_at (fds w) (to_size_t fd) = Some d \<longrightarrow> closable d"
  shows "\<exists>p' w'. hook_invoke run_hook HOOK_PKILL hs (p, w) = Inr (p', w') \<and> quiet (fds w') \<and>
    (\<forall>j. open_at (fds w') j = (if \<exists>k fd. open_at (fiddies p) k = Some fd \<and> to_size_t fd = j then None else open_at (fds w) j))"
proof -
  let ?l = "map (\<lambda>i. the (open_at (fiddies p) i)) [0..<length (fiddies p)]"
  note set = full_values [OF assms(2)]
  have all: "\<forall>fd \<in> set ?l. \<forall>d. open_at (fds w) (to_size_t fd) = Some d \<longrightarrow> closable d"
    using assms(4) unfolding set by (simp only: imp_ex Ball_def set) blast
  obtain w' where w': "close_all ?l w = Inr w'" "quiet (fds w')" "open_at (fds w') = (\<lambda>j. if j \<in> to_size_t ` set ?l then None else open_at (fds w) j)"
    using close_all_removes [OF assms(3) all] by (elim exE conjE) (rule that)
  obtain p' where p': "fs_proc_cleanup (p, w) = mapR (Pair p') (close_all ?l w)"
    using full_closes [OF assms(2), of w] by (elim exE) (rule that)
  have "j \<in> to_size_t ` set ?l \<longleftrightarrow> (\<exists>k fd. open_at (fiddies p) k = Some fd \<and> to_size_t fd = j)" for j
    unfolding image_iff Bex_def set by (auto intro: sym)
  then show ?thesis using w' p' hook_registered [OF assms(1), of p w] by (intro exI [of _ p'] exI [of _ w']) simp
qed

theorem exit_closes_descriptors_witness:
  "\<exists>hs p' w'. hook_invoke run_hook HOOK_PKILL hs (shell [Some (fresh_slot 2), Some (fresh_slot 0)], three_open) = Inr (p', w') \<and>
     open_at (fds w') 2 = None \<and> open_at (fds w') 1 = Some plain_fd"
proof -
  obtain hs where hs: "hook_add HOOK_PKILL (cstr ''fs_pkill_fd_closer'') Fs_proc_cleanup (replicate MAX_HOOKS []) = Inr hs"
    using hook_example ..
  let ?p = "shell [Some (fresh_slot 2), Some (fresh_slot 0)]"
  have f: "full (fiddies ?p)" by (simp add: shell_def full_def quiet_def less_Suc_eq numeral_eq_Suc)
  have o: "open_at (fiddies ?p) k = (if k = 0 then Some 2 else if k = 1 then Some 0 else None)" for k
    by (simp add: shell_def open_at_def less_Suc_eq numeral_eq_Suc)
  have c: "\<forall>k fd d. open_at (fiddies ?p) k = Some fd \<longrightarrow> open_at (fds three_open) (to_size_t fd) = Some d \<longrightarrow> closable d"
    by (auto simp: three_open closable_def plain_fd_def split: if_splits)
  obtain p' w' where r: "hook_invoke run_hook HOOK_PKILL hs (?p, three_open) = Inr (p', w')"
      "\<forall>j. open_at (fds w') j = (if \<exists>k fd. open_at (fiddies ?p) k = Some fd \<and> to_size_t fd = j then None else open_at (fds three_open) j)"
    using exit_closes_descriptors [OF hs f three_open(1) c] by blast
  have "open_at (fds w') 2 = None" using r(2) [rule_format, of 2] o by (auto split: if_splits)
  moreover have "open_at (fds w') 1 = Some plain_fd" using r(2) [rule_format, of 1] by (auto simp: o three_open split: if_splits)
  ultimately show ?thesis using r(1) by (intro exI [of _ hs] exI [of _ p'] exI [of _ w']) simp
qed

text \<open>
  A process that closed a descriptor and still has a higher one cannot be ended: the clean-up loop,
  which visits every number below the last in use, reads through the null pointer of the closed one, so
  the hook never returns.
\<close>

theorem exit_with_gap_faults:
  assumes "hook_add HOOK_PKILL (cstr ''fs_pkill_fd_closer'') Fs_proc_cleanup (replicate MAX_HOOKS []) = Inr hs"
    and "quiet (fiddies p)" and "open_at (fiddies p) k = None" and "open_at (fiddies p) j = Some fd" and "k < j"
  shows "\<exists>e. hook_invoke run_hook HOOK_PKILL hs (p, w) = Inl e"
proof -
  have j: "j < length (fiddies p)" using assms(4) by (auto simp: open_at_def split: if_splits)
  then have "slot_present (rcp_view (fiddies p) j)" using assms(2,4) by (auto simp: open_at_def quiet_def)
  then have "k \<in> set (rcparray_foreach (fiddies p))" using foreach_below assms(5) by blast
  then have "fs_proc_cleanup (p, w) \<noteq> Inr x" for x
    using cleanup_gap [of k _ p w x] assms(3,5) j by (simp add: fs_proc_cleanup_def open_at_def)
  then show ?thesis using hook_registered [OF assms(1), of p w] by (cases "fs_proc_cleanup (p, w)") auto
qed

theorem exit_with_gap_faults_witness:
  "\<exists>hs e. hook_invoke run_hook HOOK_PKILL hs (shell [Some (fresh_slot 2), None, Some (fresh_slot 0)], three_open) = Inl e"
proof -
  obtain hs where hs: "hook_add HOOK_PKILL (cstr ''fs_pkill_fd_closer'') Fs_proc_cleanup (replicate MAX_HOOKS []) = Inr hs"
    using hook_example ..
  have q: "quiet (fiddies (shell [Some (fresh_slot 2), None, Some (fresh_slot 0)]))"
    by (simp add: shell_def quiet_def less_Suc_eq numeral_eq_Suc)
  show ?thesis using exit_with_gap_faults [OF hs q, of 1 2 0 three_open] by (auto simp: shell_def open_at_def)
qed

end
