(* ===== verification/Syscall.thy ===== *)
theory Syscall
  imports Process
begin

text \<open>
  The system calls of \<^verbatim>\<open>fs/syscalls_fs.c\<close> and \<^verbatim>\<open>proc/syscalls_task.c\<close>, and their dispatch in
  \<^verbatim>\<open>kernel/syscall.c\<close>. A process numbers its descriptors itself: the array \<open>fiddies\<close> gives the
  descriptor of the system for each. Buffers of the caller are arguments and results. A file operation
  is one step on the file systems: where the source lets the caller wait inside of it (for a key in
  \<^verbatim>\<open>drv/ttyk/ttyk.c\<close>, for the worker of a block device in \<^verbatim>\<open>dev/block.c\<close>), the waiting and
  the wake-up are the subject of \<open>Ttyk\<close>, \<open>Block\<close> and \<open>Sched\<close>, and the calls below say nothing
  about the threads.
\<close>

section \<open>Files\<close>

text \<open>The frame of the calls on a descriptor of the current process.\<close>

definition with_lfd ::
    "int \<Rightarrow> 'r \<Rightarrow> 'r \<Rightarrow> (int \<Rightarrow> 'v fssys fdsys \<Rightarrow> ('r \<times> 'v fssys fdsys) res) \<Rightarrow> 'v procsys \<Rightarrow> ('r \<times> 'v procsys) res" where
  "with_lfd lfd none bad f s =
     with_process (CURRENT_PID s) none (\<lambda>p s1.
       case rcparray_get (fiddies p) (to_size_t lfd) of
         (None, a) \<Rightarrow> Inr (bad, p\<lparr>fiddies := a\<rparr>, s1)
       | (Some fd, a) \<Rightarrow> mapR (\<lambda>(r, w). (r, p\<lparr>fiddies := rcparray_unref a (to_size_t lfd)\<rparr>, s1\<lparr>io := w\<rparr>)) (f fd (io s1))) s"

text \<open>The calls that open something: the path is made absolute, the new descriptor is stored.\<close>

definition open_with ::
    "bytes \<Rightarrow> bytes \<Rightarrow> (bytes \<Rightarrow> 'v fssys fdsys \<Rightarrow> (int \<times> 'v fssys fdsys) res) \<Rightarrow> 'v procsys \<Rightarrow> (int \<times> 'v procsys) res" where
  "open_with stack path f s =
     with_process (CURRENT_PID s) (- EINTR) (\<lambda>p s1.
       bindR (fs_to_absolute_path stack path (pr_cwd p)) (\<lambda>path'.
       bindR (f path' (io s1)) (\<lambda>(fd, w).
         let s2 = s1\<lparr>io := w\<rparr>
         in if fd < 0 then Inr (fd, p, s2)
            else case rcparray_add (fiddies p) fd of (lfd, a) \<Rightarrow> Inr (int lfd, p\<lparr>fiddies := a\<rparr>, s2)))) s"

definition syscall_fopen :: "bytes \<Rightarrow> bytes \<Rightarrow> int \<Rightarrow> 'v procsys \<Rightarrow> (int \<times> 'v procsys) res" where
  "syscall_fopen stack path mode = open_with stack path (\<lambda>p. fs_open p mode)"

definition syscall_opendir :: "bytes \<Rightarrow> bytes \<Rightarrow> 'v procsys \<Rightarrow> (int \<times> 'v procsys) res" where
  "syscall_opendir stack path = open_with stack path fs_opendir"

definition syscall_fread :: "int \<Rightarrow> nat \<Rightarrow> 'v procsys \<Rightarrow> ((int \<times> bytes) \<times> 'v procsys) res" where
  "syscall_fread lfd len = with_lfd lfd (- EINTR, []) (- EBADF, []) (\<lambda>fd. fd_read fd len)"

definition syscall_fwrite :: "int \<Rightarrow> bytes \<Rightarrow> 'v procsys \<Rightarrow> (int \<times> 'v procsys) res" where
  "syscall_fwrite lfd buffer = with_lfd lfd (- EINTR) (- EBADF) (\<lambda>fd. fd_write fd buffer)"

definition syscall_fseek :: "int \<Rightarrow> int \<Rightarrow> int \<Rightarrow> 'v procsys \<Rightarrow> (int \<times> 'v procsys) res" where
  "syscall_fseek lfd offset mode = with_lfd lfd (- EINTR) (- EBADF) (\<lambda>fd. fd_seek fd offset mode)"

definition syscall_ioctl :: "int \<Rightarrow> int \<Rightarrow> bytes \<Rightarrow> 'v procsys \<Rightarrow> ((int \<times> bytes) \<times> 'v procsys) res" where
  "syscall_ioctl lfd code mem = with_lfd lfd (- EINTR, mem) (- EBADF, mem) (\<lambda>fd. fd_ioctl fd code mem)"

definition syscall_readdir :: "int \<Rightarrow> dentry \<Rightarrow> 'v procsys \<Rightarrow> ((int \<times> dentry) \<times> 'v procsys) res" where
  "syscall_readdir lfd de = with_lfd lfd (- EINTR, de) (- EBADF, de) (\<lambda>fd. fd_readdir fd de)"

text \<open>The descriptor leaves the table of the process before it is closed; \<open>fiddie_lock\<close> is not contended here.\<close>

definition syscall_fclose :: "int \<Rightarrow> 'v procsys \<Rightarrow> (int \<times> 'v procsys) res" where
  "syscall_fclose lfd s =
     with_process (CURRENT_PID s) (- EINTR) (\<lambda>p s1.
       case rcparray_get (fiddies p) (to_size_t lfd) of
         (None, a) \<Rightarrow> Inr (- EBADF, p\<lparr>fiddies := a\<rparr>, s1)
       | (Some fd, a) \<Rightarrow>
           let a1 = rcparray_unref a (to_size_t lfd); a2 = snd (rcparray_remove a1 (to_size_t lfd))
           in mapR (\<lambda>(r, w). (r, p\<lparr>fiddies := a2\<rparr>, s1\<lparr>io := w\<rparr>)) (fd_close fd (io s1))) s"

definition syscall_finfo :: "bytes \<Rightarrow> bytes \<Rightarrow> finfo \<Rightarrow> 'v procsys \<Rightarrow> ((int \<times> finfo) \<times> 'v procsys) res" where
  "syscall_finfo stack path fi s =
     with_process (CURRENT_PID s) (- EINTR, fi) (\<lambda>p s1.
       bindR (fs_to_absolute_path stack path (pr_cwd p)) (\<lambda>path'.
         mapR (\<lambda>(r, w). (r, p, s1\<lparr>io := (io s1)\<lparr>world := w\<rparr>\<rparr>)) (fs_finfo path' fi (world (io s1))))) s"

section \<open>Processes\<close>

definition syscall_sleep :: "u64 \<Rightarrow> int \<Rightarrow> 'v procsys \<Rightarrow> (unit \<times> 'v procsys) res" where
  "syscall_sleep now delay s =
     (if delay < 0
      then bindR (on_sched (task_tset_status (CURRENT_TID s) THREAD_STATUS_BLOCKED) s) (\<lambda>(_, s1).
             mapR (\<lambda>c. ((), s1\<lparr>sch := c\<rparr>)) (task_tyield (sch s1)))
      else on_sched (task_tsleep now (word_of_int delay)) s)"

definition syscall_yield :: "'v procsys \<Rightarrow> (unit \<times> 'v procsys) res" where
  "syscall_yield s = mapR (\<lambda>c. ((), s\<lparr>sch := c\<rparr>)) (task_tyield (sch s))"

record spawn_options =
  so_stdin :: int
  so_stdout :: int
  so_stderr :: int

text \<open>One of the three standard descriptors: that of the parent, or the one the options name.\<close>

definition std_fd :: "nat \<Rightarrow> process \<Rightarrow> (int \<times> process) res" where
  "std_fd k p =
     (case rcparray_get (fiddies p) k of
        (None, _) \<Rightarrow> Inl NullDeref
      | (Some fd, a) \<Rightarrow> Inr (fd, p\<lparr>fiddies := rcparray_unref a k\<rparr>))"

definition option_fd :: "int \<Rightarrow> int \<Rightarrow> process \<Rightarrow> int \<times> process" where
  "option_fd n fd p =
     (if n = 0 then (fd, p)
      else case rcparray_get (fiddies p) (to_size_t n) of
        (None, a) \<Rightarrow> (fd, p\<lparr>fiddies := a\<rparr>)
      | (Some fd', a) \<Rightarrow> (fd', p\<lparr>fiddies := rcparray_unref a (to_size_t n)\<rparr>))"

definition choose_fds :: "spawn_options option \<Rightarrow> process \<Rightarrow> (int \<times> int \<times> int \<times> process) res" where
  "choose_fds options p =
     bindR (std_fd 0 p) (\<lambda>(i0, p1). bindR (std_fd 1 p1) (\<lambda>(o0, p2). bindR (std_fd 2 p2) (\<lambda>(e0, p3).
       case options of
         None \<Rightarrow> Inr (i0, o0, e0, p3)
       | Some so \<Rightarrow>
           (case option_fd (so_stdin so) i0 p3 of (i1, p4) \<Rightarrow>
            case option_fd (so_stdout so) o0 p4 of (o1, p5) \<Rightarrow>
            case option_fd (so_stderr so) e0 p5 of (e1, p6) \<Rightarrow> Inr (i1, o1, e1, p6)))))"

definition on_io :: "('v fssys fdsys \<Rightarrow> ('a \<times> 'v fssys fdsys) res) \<Rightarrow> 'v procsys \<Rightarrow> ('a \<times> 'v procsys) res" where
  "on_io f s = mapR (\<lambda>(x, w). (x, s\<lparr>io := w\<rparr>)) (f (io s))"

definition syscall_spawn ::
    "(bytes \<Rightarrow> 'v procsys \<Rightarrow> (int \<times> pagemap \<times> 'v procsys) res) \<Rightarrow> finfo \<Rightarrow> u64 \<Rightarrow> bytes \<Rightarrow> bytes \<Rightarrow> spawn_options option \<Rightarrow> 'v procsys \<Rightarrow>
     (int \<times> 'v procsys) res" where
  "syscall_spawn exec_load fi ker stack image_path options s =
     bindR (with_process (CURRENT_PID s) None (\<lambda>p s1.
       bindR (fs_to_absolute_path stack image_path (pr_cwd p)) (\<lambda>path.
       bindR (choose_fds options p) (\<lambda>(i0, o0, e0, p1).
       bindR (on_io (fd_dup i0) s1) (\<lambda>(i1, s2). bindR (on_io (fd_dup o0) s2) (\<lambda>(o1, s3). bindR (on_io (fd_dup e0) s3) (\<lambda>(e1, s4).
       bindR (task_pricreate exec_load fi ker path (Some \<lparr>pi_stdin = i1, pi_stdout = o1, pi_stderr = e1, pi_cwd = pr_cwd p1\<rparr>) s4) (\<lambda>(pid, s5).
         Inr (Some (pid, i1, o1, e1), p1, s5)))))))) s) (\<lambda>(r, s6).
       case r of
         None \<Rightarrow> Inr (- EINTR, s6)
       | Some (pid, i1, o1, e1) \<Rightarrow>
           if pid < 0
           then bindR (on_io (fd_close i1) s6) (\<lambda>(_, s7). bindR (on_io (fd_close o1) s7) (\<lambda>(_, s8).
                mapR (\<lambda>(_, s9). (pid, s9)) (on_io (fd_close e1) s8)))
           else mapR (\<lambda>(_, s7). (pid, s7)) (task_prstart pid s6))"

text \<open>\<open>syscall_wait\<close> up to the wait, with the exit code when it does not wait.\<close>

definition syscall_wait :: "int \<Rightarrow> 'v procsys \<Rightarrow> (int option \<times> 'v procsys) res" where
  "syscall_wait pid s = mapR (\<lambda>(r, s'). (map_option snd r, s')) (task_prwait pid 0 s)"

text \<open>\<open>syscall_exit\<close> up to its first yield; the result says whether it returned.\<close>

definition syscall_exit :: "u64 \<Rightarrow> int \<Rightarrow> 'v procsys \<Rightarrow> (bool \<times> 'v procsys) res" where
  "syscall_exit ker code s =
     bindR (task_prkill ker (CURRENT_PID s) code s) (\<lambda>(_, s1).
     bindR (on_sched (task_tshould_exit (CURRENT_TID s1)) s1) (\<lambda>(ab, s2).
       if ab then Inr (True, s2) else mapR (\<lambda>c. (False, s2\<lparr>sch := c\<rparr>)) (task_tyield (sch s2))))"

definition syscall_getcwd :: "bytes \<Rightarrow> nat \<Rightarrow> 'v procsys \<Rightarrow> ((int \<times> bytes) \<times> 'v procsys) res" where
  "syscall_getcwd buffer len s = task_prget_cwd (CURRENT_PID s) buffer len s"

definition syscall_setcwd :: "finfo \<Rightarrow> bytes \<Rightarrow> 'v procsys \<Rightarrow> (int \<times> 'v procsys) res" where
  "syscall_setcwd fi buffer s = task_prset_cwd fi (CURRENT_PID s) buffer s"

section \<open>Dispatch\<close>

definition SYSCALL_AMOUNT :: int where "SYSCALL_AMOUNT = 128"

text \<open>A negative number passes the test and reads before the table.\<close>

definition syscall_wrapper ::
    "(bytes list \<Rightarrow> 'v procsys \<Rightarrow> (int \<times> 'v procsys) res) option list \<Rightarrow> int \<Rightarrow> bytes list \<Rightarrow> 'v procsys \<Rightarrow> (int \<times> 'v procsys) res" where
  "syscall_wrapper syscalls i args s =
     (if i \<ge> SYSCALL_AMOUNT then Inr (- ENOSYS, s)
      else if i < 0 then Inl OutOfBounds
      else bindR (nthR syscalls (nat i)) (\<lambda>f. case f of
          None \<Rightarrow> Inr (- ENOSYS, s)
        | Some func \<Rightarrow>
            bindR (on_sched (task_tuse (CURRENT_TID s)) s) (\<lambda>(_, s1).
            bindR (func args s1) (\<lambda>(ret, s2).
              mapR (\<lambda>(_, s3). (ret, s3)) (on_sched (task_trelease (CURRENT_TID s2)) s2)))))"

section \<open>Calls on a descriptor that is open\<close>

lemma with_lfd_run:
  assumes "proc_slot s (CURRENT_PID s) sl" and "quiet (fiddies (val sl))" and "open_at (fiddies (val sl)) (to_size_t lfd) = Some fd"
    and "f fd (io s) = Inr (r, w)"
  shows "\<exists>t. with_lfd lfd none bad f s = Inr (r, s\<lparr>io := w, processes := t\<rparr>) \<and> rcpt_ok t \<and> rcpt_view t = rcpt_view (processes s)"
proof -
  obtain a where a: "rcparray_get (fiddies (val sl)) (to_size_t lfd) = (Some fd, a)" "rcparray_unref a (to_size_t lfd) = fiddies (val sl)"
    by (rule quiet_get_Some [OF assms(2,3)])
  have same: "(val sl)\<lparr>fiddies := fiddies (val sl)\<rparr> = val sl" by simp
  let ?f = "\<lambda>p s1. case rcparray_get (fiddies p) (to_size_t lfd) of
         (None, a) \<Rightarrow> Inr (bad, p\<lparr>fiddies := a\<rparr>, s1)
       | (Some fd, a) \<Rightarrow> mapR (\<lambda>(r, w). (r, p\<lparr>fiddies := rcparray_unref a (to_size_t lfd)\<rparr>, s1\<lparr>io := w\<rparr>)) (f fd (io s1))"
  have f: "?f (val sl) (s\<lparr>processes := t\<rparr>) = Inr (r, val sl, (s\<lparr>io := w\<rparr>)\<lparr>processes := t\<rparr>)" for t
    using a assms(4) same by simp
  show ?thesis unfolding with_lfd_def
    using with_process_ok [where f = ?f and none = none and ?s2.0 = "s\<lparr>io := w\<rparr>", OF assms(1) f] unfolding slot_same [OF assms(1)] by simp
qed


lemma with_lfd_bad:
  assumes "proc_slot s (CURRENT_PID s) sl" and "quiet (fiddies (val sl))" and "open_at (fiddies (val sl)) (to_size_t lfd) = None"
  shows "\<exists>t. with_lfd lfd none bad f s = Inr (bad, s\<lparr>processes := t\<rparr>) \<and> rcpt_ok t \<and> rcpt_view t = rcpt_view (processes s)"
proof -
  have same: "(val sl)\<lparr>fiddies := fiddies (val sl)\<rparr> = val sl" by simp
  let ?f = "\<lambda>p s1. case rcparray_get (fiddies p) (to_size_t lfd) of
         (None, a) \<Rightarrow> Inr (bad, p\<lparr>fiddies := a\<rparr>, s1)
       | (Some fd, a) \<Rightarrow> mapR (\<lambda>(r, w). (r, p\<lparr>fiddies := rcparray_unref a (to_size_t lfd)\<rparr>, s1\<lparr>io := w\<rparr>)) (f fd (io s1))"
  have f: "?f (val sl) (s\<lparr>processes := t\<rparr>) = Inr (bad, val sl, s\<lparr>processes := t\<rparr>)" for t
    using quiet_get_None [OF assms(2,3)] same by simp
  show ?thesis unfolding with_lfd_def
    using with_process_ok [where f = ?f and none = none and ?s2.0 = s, OF assms(1) f] unfolding slot_same [OF assms(1)] by simp
qed

lemma open_with_run:
  assumes "proc_slot s (CURRENT_PID s) sl" and "fs_to_absolute_path stack path (pr_cwd (val sl)) = Inr path'"
    and "f path' (io s) = Inr (fd, w)" and "0 \<le> fd" and "rcparray_add (fiddies (val sl)) fd = (lfd, a)"
  shows "\<exists>t. open_with stack path f s = Inr (int lfd, s\<lparr>io := w, processes := t\<rparr>) \<and> rcpt_ok t \<and>
    rcpt_view t = (rcpt_view (processes s))(to_size_t (CURRENT_PID s) \<mapsto> sl\<lparr>val := (val sl)\<lparr>fiddies := a\<rparr>\<rparr>)"
proof -
  let ?f = "\<lambda>p s1. bindR (fs_to_absolute_path stack path (pr_cwd p)) (\<lambda>path'.
       bindR (f path' (io s1)) (\<lambda>(fd, w).
         let s2 = s1\<lparr>io := w\<rparr>
         in if fd < 0 then Inr (fd, p, s2)
            else case rcparray_add (fiddies p) fd of (lfd, a) \<Rightarrow> Inr (int lfd, p\<lparr>fiddies := a\<rparr>, s2)))"
  have f: "?f (val sl) (s\<lparr>processes := t\<rparr>) = Inr (int lfd, (val sl)\<lparr>fiddies := a\<rparr>, (s\<lparr>io := w\<rparr>)\<lparr>processes := t\<rparr>)" for t
    using assms(2-5) by (simp add: Let_def)
  show ?thesis unfolding open_with_def
    using with_process_ok [where f = ?f and none = "- EINTR" and ?s2.0 = "s\<lparr>io := w\<rparr>", OF assms(1) f] by simp
qed

lemma syscall_fclose_run:
  assumes "proc_slot s (CURRENT_PID s) sl" and "quiet (fiddies (val sl))" and "open_at (fiddies (val sl)) (to_size_t lfd) = Some fd"
    and "fd_close fd (io s) = Inr (r, w)"
  shows "\<exists>t. syscall_fclose lfd s = Inr (r, s\<lparr>io := w, processes := t\<rparr>) \<and> rcpt_ok t \<and>
    rcpt_view t = (rcpt_view (processes s))(to_size_t (CURRENT_PID s) \<mapsto>
      sl\<lparr>val := (val sl)\<lparr>fiddies := snd (rcparray_remove (fiddies (val sl)) (to_size_t lfd))\<rparr>\<rparr>)"
proof -
  obtain a where a: "rcparray_get (fiddies (val sl)) (to_size_t lfd) = (Some fd, a)" "rcparray_unref a (to_size_t lfd) = fiddies (val sl)"
    by (rule quiet_get_Some [OF assms(2,3)])
  let ?f = "\<lambda>p s1. case rcparray_get (fiddies p) (to_size_t lfd) of
         (None, a) \<Rightarrow> Inr (- EBADF, p\<lparr>fiddies := a\<rparr>, s1)
       | (Some fd, a) \<Rightarrow>
           let a1 = rcparray_unref a (to_size_t lfd); a2 = snd (rcparray_remove a1 (to_size_t lfd))
           in mapR (\<lambda>(r, w). (r, p\<lparr>fiddies := a2\<rparr>, s1\<lparr>io := w\<rparr>)) (fd_close fd (io s1))"
  have f: "?f (val sl) (s\<lparr>processes := t\<rparr>) =
      Inr (r, (val sl)\<lparr>fiddies := snd (rcparray_remove (fiddies (val sl)) (to_size_t lfd))\<rparr>, (s\<lparr>io := w\<rparr>)\<lparr>processes := t\<rparr>)" for t
    using a assms(4) by (simp add: Let_def)
  show ?thesis unfolding syscall_fclose_def
    using with_process_ok [where f = ?f and none = "- EINTR" and ?s2.0 = "s\<lparr>io := w\<rparr>", OF assms(1) f] by simp
qed

lemma root_only_session:
  "\<exists>fd w1 w2 w3. fs_open (bytes_of ''/f'' @ 0 # x) 0 \<lparr>fds = [], world = root_only\<rparr> = Inr (fd, w1) \<and> 0 \<le> fd \<and>
     fd_read fd 2 w1 = Inr ((2, [7, 8]), w2) \<and> fd_close fd w2 = Inr (0, w3)"
proof -
  let ?s = "\<lparr>fds = [], world = root_only\<rparr>"
  have g: "fs_get_mount (bytes_of ''/f'' @ 0 # x) (world ?s) = Inr ((int 0, bytes_of ''/f'' @ 0 # x), world ?s)"
    using root_only_mount [of "bytes_of ''/f''" x] by (simp add: bytes_of_def cstring_def)
  have m: "open_at (mounts root_only) 0 = Some root_mount" "quiet (mounts root_only)" "handles root_only = []" "drv root_only = [7, 8, 9]"
    by (simp_all add: root_only_def open_at_def quiet_def)
  have "\<exists>fd s1 s2 s3. fs_open (bytes_of ''/f'' @ 0 # x) 0 ?s = Inr (fd, s1) \<and> 0 \<le> fd \<and>
     fd_read fd 2 s1 = Inr ((2, [7, 8]), s2) \<and> fd_close fd s2 = Inr (0, s3) \<and> drv (world s3) = [9] \<and>
     mounts (world s3) = mounts (world ?s) \<and> open_at (fds s3) = open_at (fds ?s) \<and>
     open_at (handles (world s3)) = open_at (handles (world ?s)) \<and> quiet (fds s3) \<and> quiet (handles (world s3))"
    by (rule file_session [OF _ _ _ _ _ g, where m = root_mount and r = 3 and ?w1.0 = "[7, 8, 9]" and ?w2.0 = "[9]"
          and op = "\<lambda>mi p mode w. Inr (3, w)" and rd = "\<lambda>mi i len w. Inr (int (length (take len w)), take len w, drop len w)"
          and cl = "\<lambda>mi i w. Inr (0, w)"])
      (simp_all add: m, simp_all add: root_mount_def on_dir_def one_file_def quiet_def)
  then show ?thesis by (elim exE conjE) (intro exI conjI)
qed

lemma shell_path: "\<exists>r. fs_to_absolute_path (replicate 256 7) (cstr ''f'') (pr_cwd (shell a)) = Inr (bytes_of ''/f'' @ 0 # r)"
proof -
  have j: "joined (bytes_of ''f'') (Some (bytes_of ''/'')) = bytes_of ''/f''" by code_simp
  have k: "abs_text (bytes_of ''/f'') = bytes_of ''/f''" by code_simp
  have s: "segs_of (tl (bytes_of ''/f'')) = [bytes_of ''f'']" by code_simp
  have c: "cstring (bytes_of ''f'')" "\<forall>b. Some (bytes_of ''/'') = Some b \<longrightarrow> cstring b" "fits (bytes_of ''f'') (Some (bytes_of ''/''))"
      "bytes_of ''/f'' \<noteq> []" by (simp_all add: cstring_def bytes_of_def fits_def)
  have "\<exists>r. fs_to_absolute_path (replicate 256 7) (bytes_of ''f'' @ 0 # []) (map_option (\<lambda>b. b @ 0 # []) (Some (bytes_of ''/''))) =
      Inr (abs_text (bytes_of ''/f'') @ 0 # r)"
    by (rule abs_path_exact [OF c(1-3) j [symmetric] c(4)]) (simp_all add: s)
  then show ?thesis unfolding k by (simp add: shell_def cstr_def)
qed

lemma one_process_current: "CURRENT_PID (one_process a) = 1"
  by (simp add: CURRENT_PID_def one_process_def two_threads_def)

section \<open>Properties\<close>

text \<open>
  C7: A process reads a file through its own numbers: \<open>fopen\<close> makes its path absolute, opens it in the
  system and returns the least number the process has free; \<open>fread\<close> and \<open>fclose\<close> on that number are the
  operations of the descriptor it stands for, with their results; after the close the number is free
  again, reading it is the bad descriptor error, and the process holds the descriptors it held before.
\<close>

theorem syscall_file_session:
  assumes "proc_slot s (CURRENT_PID s) sl" and "quiet (fiddies (val sl))" and "length (fiddies (val sl)) < 2 ^ 64"
    and "fs_to_absolute_path stack path (pr_cwd (val sl)) = Inr path'"
    and "fs_open path' mode (io s) = Inr (fd, w1)" and "0 \<le> fd"
    and "fd_read fd len w1 = Inr ((n, b), w2)" and "fd_close fd w2 = Inr (c, w3)"
  shows "\<exists>lfd s1 s2 s3. syscall_fopen stack path mode s = Inr (int lfd, s1) \<and>
    open_at (fiddies (val sl)) lfd = None \<and> (\<forall>k < lfd. open_at (fiddies (val sl)) k \<noteq> None) \<and>
    syscall_fread (int lfd) len s1 = Inr ((n, b), s2) \<and> syscall_fclose (int lfd) s2 = Inr (c, s3) \<and> io s3 = w3 \<and>
    (\<exists>p. rcpt_view (processes s3) = (rcpt_view (processes s))(to_size_t (CURRENT_PID s) \<mapsto> sl\<lparr>val := (val sl)\<lparr>fiddies := p\<rparr>\<rparr>) \<and>
       quiet p \<and> open_at p = open_at (fiddies (val sl))) \<and>
    (\<exists>s4. syscall_fread (int lfd) len s3 = Inr ((- EBADF, []), s4) \<and> io s4 = w3)"
proof -
  let ?pid = "CURRENT_PID s"
  obtain lfd a where a: "rcparray_add (fiddies (val sl)) fd = (lfd, a)" by fastforce
  note q = quiet_add [OF assms(2) a]
  have l: "to_size_t (int lfd) = lfd" using q(5) assms(3) by simp
  obtain t1 where t1: "syscall_fopen stack path mode s = Inr (int lfd, s\<lparr>io := w1, processes := t1\<rparr>)" "rcpt_ok t1"
      "rcpt_view t1 = (rcpt_view (processes s))(to_size_t ?pid \<mapsto> sl\<lparr>val := (val sl)\<lparr>fiddies := a\<rparr>\<rparr>)"
    using open_with_run [OF assms(1,4), of "\<lambda>p. fs_open p mode", OF assms(5,6) a] unfolding syscall_fopen_def by blast
  let ?s1 = "s\<lparr>io := w1, processes := t1\<rparr>" and ?sl = "sl\<lparr>val := (val sl)\<lparr>fiddies := a\<rparr>\<rparr>"
  have s1: "CURRENT_PID ?s1 = ?pid" "proc_slot ?s1 ?pid ?sl" "open_at (fiddies (val ?sl)) (to_size_t (int lfd)) = Some fd" "quiet (fiddies (val ?sl))"
    using assms(1) t1(2,3) q(1,2) l by (simp_all add: CURRENT_PID_def proc_slot_def)
  obtain t2 where t2: "syscall_fread (int lfd) len ?s1 = Inr ((n, b), ?s1\<lparr>io := w2, processes := t2\<rparr>)" "rcpt_ok t2" "rcpt_view t2 = rcpt_view t1"
    using with_lfd_run [where s = ?s1 and none = "(- EINTR, [])" and bad = "(- EBADF, [])" and f = "\<lambda>fd. fd_read fd len", unfolded s1(1), OF s1(2,4,3)]
      assms(7) unfolding syscall_fread_def by auto
  let ?s2 = "?s1\<lparr>io := w2, processes := t2\<rparr>"
  have s2: "CURRENT_PID ?s2 = ?pid" "proc_slot ?s2 ?pid ?sl" using s1(2) t2(2,3) by (simp_all add: CURRENT_PID_def proc_slot_def)
  let ?a = "snd (rcparray_remove a lfd)"
  obtain t3 where t3: "syscall_fclose (int lfd) ?s2 = Inr (c, ?s2\<lparr>io := w3, processes := t3\<rparr>)" "rcpt_ok t3"
      "rcpt_view t3 = (rcpt_view t2)(to_size_t ?pid \<mapsto> ?sl\<lparr>val := (val ?sl)\<lparr>fiddies := ?a\<rparr>\<rparr>)"
    using syscall_fclose_run [where s = ?s2, unfolded s2(1), OF s2(2) s1(4,3)] assms(8) l by auto
  let ?s3 = "?s2\<lparr>io := w3, processes := t3\<rparr>" and ?sl3 = "sl\<lparr>val := (val sl)\<lparr>fiddies := ?a\<rparr>\<rparr>"
  have qa: "quiet ?a" "open_at ?a = open_at (fiddies (val sl))" using quiet_add_remove [OF assms(2) a] by simp_all
  have s3: "CURRENT_PID ?s3 = ?pid" "proc_slot ?s3 ?pid ?sl3" using s2(2) t3(2,3) by (simp_all add: CURRENT_PID_def proc_slot_def)
  have "\<exists>s4. syscall_fread (int lfd) len ?s3 = Inr ((- EBADF, []), s4) \<and> io s4 = w3"
  proof -
    have o: "quiet (fiddies (val ?sl3))" "open_at (fiddies (val ?sl3)) (to_size_t (int lfd)) = None" using qa q(3) l by simp_all
    obtain t4 where "syscall_fread (int lfd) len ?s3 = Inr ((- EBADF, []), ?s3\<lparr>processes := t4\<rparr>)"
      using with_lfd_bad [where s = ?s3 and none = "(- EINTR, [])" and bad = "(- EBADF, [])" and f = "\<lambda>fd. fd_read fd len",
          unfolded s3(1), OF s3(2) o] unfolding syscall_fread_def by blast
    then show ?thesis by (intro exI [of _ "?s3\<lparr>processes := t4\<rparr>"]) simp
  qed
  then show ?thesis
    using t1(1) q(3,4) t2(1) t3(1) t3(3) [unfolded t2(3) t1(3)] qa
    by (intro exI [of _ lfd] exI [of _ ?s1] exI [of _ ?s2] exI [of _ ?s3]) auto
qed

theorem syscall_file_session_witness:
  "\<exists>s1 s2 s3. syscall_fopen (replicate 256 7) (cstr ''f'') 0 (one_process []) = Inr (0, s1) \<and>
     syscall_fread 0 2 s1 = Inr ((2, [7, 8]), s2) \<and> syscall_fclose 0 s2 = Inr (0, s3)"
proof -
  obtain r where r: "fs_to_absolute_path (replicate 256 7) (cstr ''f'') (pr_cwd (shell [])) = Inr (bytes_of ''/f'' @ 0 # r)"
    using shell_path ..
  obtain fd w1 w2 w3 where w: "fs_open (bytes_of ''/f'' @ 0 # r) 0 \<lparr>fds = [], world = root_only\<rparr> = Inr (fd, w1)" "0 \<le> fd"
      "fd_read fd 2 w1 = Inr ((2, [7, 8]), w2)" "fd_close fd w2 = Inr (0, w3)"
    using root_only_session [of r] by blast
  have q: "quiet (fiddies (val (fresh_slot (shell []))))" "length (fiddies (val (fresh_slot (shell [])))) < 2 ^ 64"
    by (simp_all add: shell_def quiet_def)
  have p: "fs_to_absolute_path (replicate 256 7) (cstr ''f'') (pr_cwd (val (fresh_slot (shell [])))) = Inr (bytes_of ''/f'' @ 0 # r)"
    using r by simp
  have o: "fs_open (bytes_of ''/f'' @ 0 # r) 0 (io (one_process [])) = Inr (fd, w1)" using w(1) by (simp add: one_process_def)
  obtain lfd s1 s2 s3 where s: "syscall_fopen (replicate 256 7) (cstr ''f'') 0 (one_process []) = Inr (int lfd, s1)"
      "\<forall>k < lfd. open_at (fiddies (val (fresh_slot (shell [])))) k \<noteq> None"
      "syscall_fread (int lfd) 2 s1 = Inr ((2, [7, 8]), s2)" "syscall_fclose (int lfd) s2 = Inr (0, s3)"
    using syscall_file_session [where s = "one_process []", unfolded one_process_current, OF one_process_slot q p o w(2-4)]
    by (elim exE conjE) (rule that)
  have "lfd = 0" using s(2) by (cases lfd) (auto simp: shell_def open_at_def)
  then show ?thesis using s(1,3,4) by (intro exI [of _ s1] exI [of _ s2] exI [of _ s3]) simp
qed

end
