(* ===== verification/Tty.thy ===== *)
theory Tty
  imports CString
begin

text \<open>
  \<^verbatim>\<open>arch/x64/tty.c\<close>: the text terminals. A terminal has a buffer of cells of its own; the
  display memory, a list of cells, shows the current one. Cell positions are C integers; an access
  outside of a buffer is a fault. The position of the hardware cursor is the number the ports get.
  Every operation runs under the lock of its terminal and is one step.
\<close>

section \<open>State\<close>

definition TTY_AMOUNT :: nat where "TTY_AMOUNT = 6"

definition ansi_to_vga :: "int list" where
  "ansi_to_vga = [0, 4, 2, 6, 1, 5, 3, 7, 8, 12, 10, 14, 9, 13, 11, 15]"

record tty_char =
  ascii :: u8
  fgcolor :: "4 word"
  bgcolor :: "4 word"

record tty =
  cursor_x :: int
  cursor_y :: int
  size_x :: int
  size_y :: int
  color_fg :: int
  color_bg :: int
  cells :: "tty_char list"

record console =
  tty_current :: int
  ttys :: "tty list"
  display :: "tty_char list"
  hw_cursor :: u16

definition blank :: "tty \<Rightarrow> u8 \<Rightarrow> tty_char" where
  "blank t c = \<lparr>ascii = c, fgcolor = word_of_int (color_fg t), bgcolor = word_of_int (color_bg t)\<rparr>"

definition hw_position :: "int \<Rightarrow> int \<Rightarrow> u16" where
  "hw_position x y = word_of_int (uint (word_of_int y :: u8) * 80 + uint (word_of_int x :: u8))"

section \<open>Cells\<close>

text \<open>Storing a cell of a terminal, and copying a range of its cells to the display.\<close>

definition put_cell :: "int \<Rightarrow> tty_char \<Rightarrow> tty \<Rightarrow> tty res" where
  "put_cell i c t = (if i < 0 then Inl OutOfBounds else mapR (\<lambda>b. t\<lparr>cells := b\<rparr>) (updR (cells t) (nat i) c))"

definition show_cells :: "int \<Rightarrow> nat \<Rightarrow> tty \<Rightarrow> tty_char list \<Rightarrow> tty_char list res" where
  "show_cells start len t d =
     (if start < 0 \<or> length (cells t) < nat start + len \<or> length d < nat start + len then Inl OutOfBounds
      else Inr (blit d (nat start) (take len (drop (nat start) (cells t)))))"

definition area :: "tty \<Rightarrow> nat" where
  "area t = nat (size_x t * size_y t)"

text \<open>\<open>cur\<close> tells whether the terminal is the current one.\<close>

definition tty_scroll :: "bool \<Rightarrow> tty \<Rightarrow> tty_char list \<Rightarrow> (tty \<times> tty_char list) res" where
  "tty_scroll cur t d =
     (if length (cells t) < area t then Inl OutOfBounds
      else let start = nat ((size_y t - 1) * size_x t);
               b = blit (cells t) 0 (take start (drop (nat (size_x t)) (cells t)));
               t' = t\<lparr>cells := blit b start (replicate (nat (size_x t)) (blank t 0)), cursor_y := cursor_y t - 1\<rparr>
           in if cur then mapR (Pair t') (show_cells 0 (area t) t' d) else Inr (t', d))"

lemma tty_scroll_shape:
  "tty_scroll cur t d = Inr (t', d') \<Longrightarrow>
     cursor_y t' = cursor_y t - 1 \<and> cursor_x t' = cursor_x t \<and> size_x t' = size_x t \<and> size_y t' = size_y t"
  by (auto simp: tty_scroll_def Let_def mapR_eq_Inr_iff split: if_splits)

function scroll_down :: "bool \<Rightarrow> tty \<Rightarrow> tty_char list \<Rightarrow> (tty \<times> tty_char list) res" where
  "scroll_down cur t d =
     (if cursor_y t > size_y t - 1
      then bindR (tty_scroll cur t d) (\<lambda>x. scroll_down cur (fst x) (snd x)) else Inr (t, d))"
  by pat_completeness auto
termination
proof (relation "measure (\<lambda>(cur, t, d). nat (cursor_y t - size_y t + 1))", goal_cases)
  case (2 cur t d x)
  then show ?case using tty_scroll_shape [of cur t d "fst x" "snd x"] by (cases x) simp
qed simp

declare scroll_down.simps [simp del]

definition new_line :: "bool \<Rightarrow> tty \<Rightarrow> tty_char list \<Rightarrow> (tty \<times> tty_char list) res" where
  "new_line cur t d = scroll_down cur (t\<lparr>cursor_x := 0, cursor_y := cursor_y t + 1\<rparr>) d"

definition wrap :: "bool \<Rightarrow> tty \<Rightarrow> tty_char list \<Rightarrow> (tty \<times> tty_char list) res" where
  "wrap cur t d = (if cursor_x t \<ge> size_x t then new_line cur t d else Inr (t, d))"

definition cursor_index :: "tty \<Rightarrow> int" where
  "cursor_index t = cursor_x t + cursor_y t * size_x t"

section \<open>Operations\<close>

fun write_loop :: "bool \<Rightarrow> bytes \<Rightarrow> tty \<Rightarrow> tty_char list \<Rightarrow> nat \<Rightarrow> (tty \<times> tty_char list \<times> nat) res" where
  "write_loop cur [] t d len = Inl OutOfBounds"
| "write_loop cur (c # s) t d len =
     (if c = 0 then Inr (t, d, len)
      else bindR (wrap cur t d) (\<lambda>(t1, d1).
        if c = 10 then bindR (new_line cur t1 d1) (\<lambda>(t2, d2). write_loop cur s t2 d2 len)
        else if c = 13 then write_loop cur s (t1\<lparr>cursor_x := 0\<rparr>) d1 len
        else bindR (put_cell (cursor_index t1) (blank t1 c) (t1\<lparr>cursor_x := cursor_x t1 + 1\<rparr>)) (\<lambda>t2.
               write_loop cur s t2 d1 (len + 1))))"

text \<open>What an operation does to its terminal, the display and the hardware cursor.\<close>

definition write_on :: "bytes \<Rightarrow> bool \<Rightarrow> tty \<Rightarrow> tty_char list \<Rightarrow> u16 \<Rightarrow> (tty \<times> tty_char list \<times> u16) res" where
  "write_on s cur t d h =
     bindR (write_loop cur s t d 0) (\<lambda>(t', d', len).
       if \<not> cur then Inr (t', d', h)
       else mapR (\<lambda>d2. (t', d2, hw_position (cursor_x t') (cursor_y t'))) (show_cells (cursor_index t) len t' d'))"

definition putchar_on :: "u8 \<Rightarrow> bool \<Rightarrow> tty \<Rightarrow> tty_char list \<Rightarrow> u16 \<Rightarrow> (tty \<times> tty_char list \<times> u16) res" where
  "putchar_on c cur t d h =
     bindR (wrap cur t d) (\<lambda>(t1, d1).
       if c = 10 then mapR (\<lambda>(t2, d2). (t2, d2, if cur then hw_position (cursor_x t2) (cursor_y t2) else h)) (new_line cur t1 d1)
       else if c = 13 then Inr (t1\<lparr>cursor_x := 0\<rparr>, d1, if cur then hw_position 0 (cursor_y t1) else h)
       else if c = 8 then
         (if cursor_x t1 = 0 then Inr (t1, d1, hw_position (cursor_x t1) (cursor_y t1))
          else if cursor_index t1 < 0 then Inl OutOfBounds
          else bindR (nthR (cells t1) (nat (cursor_index t1))) (\<lambda>old.
               bindR (put_cell (cursor_index t1) (old\<lparr>ascii := 32\<rparr>) (t1\<lparr>cursor_x := cursor_x t1 - 1\<rparr>)) (\<lambda>t2.
                 Inr (t2, d1, if cur then hw_position (cursor_x t2) (cursor_y t2) else h))))
       else bindR (put_cell (cursor_index t1) (blank t1 c) (t1\<lparr>cursor_x := cursor_x t1 + 1\<rparr>)) (\<lambda>t2.
              if \<not> cur then Inr (t2, d1, h)
              else mapR (\<lambda>d2. (t2, d2, hw_position (cursor_x t2) (cursor_y t2))) (show_cells (cursor_index t1) 1 t2 d1)))"

definition clear_on :: "bool \<Rightarrow> tty \<Rightarrow> tty_char list \<Rightarrow> u16 \<Rightarrow> (tty \<times> tty_char list \<times> u16) res" where
  "clear_on cur t d h =
     (if length (cells t) < area t then Inl OutOfBounds
      else let t' = t\<lparr>cells := blit (cells t) 0 (replicate (area t) (blank t 0))\<rparr>
           in if cur then mapR (\<lambda>d'. (t', d', h)) (show_cells 0 (area t) t' d) else Inr (t', d, h))"

definition color_on :: "u8 \<Rightarrow> tty \<Rightarrow> tty" where
  "color_on ansi t =
     (let a = sint ansi
      in if 30 \<le> a \<and> a \<le> 37 then t\<lparr>color_fg := ansi_to_vga ! nat (a - 30)\<rparr>
         else if 40 \<le> a \<and> a \<le> 47 then t\<lparr>color_bg := ansi_to_vga ! nat (a - 40)\<rparr>
         else if 90 \<le> a \<and> a \<le> 97 then t\<lparr>color_fg := ansi_to_vga ! nat (a - 90 + 8)\<rparr>
         else if 100 \<le> a \<and> a \<le> 107 then t\<lparr>color_bg := ansi_to_vga ! nat (a - 100 + 8)\<rparr>
         else t)"

text \<open>The guards look at the old position and are always true.\<close>

definition cursor_on :: "int \<Rightarrow> int \<Rightarrow> bool \<Rightarrow> tty \<Rightarrow> u16 \<Rightarrow> tty \<times> u16" where
  "cursor_on x y cur t h =
     (let t1 = (if cursor_x t \<ge> 0 \<or> cursor_x t < size_x t then t\<lparr>cursor_x := x\<rparr> else t);
          t2 = (if cursor_y t1 \<ge> 0 \<or> cursor_y t1 < size_y t1 then t1\<lparr>cursor_y := y\<rparr> else t1)
      in (t2, if cur then hw_position (cursor_x t2) (cursor_y t2) else h))"

text \<open>An operation on the terminal with a given number.\<close>

definition on_tty ::
    "int \<Rightarrow> (bool \<Rightarrow> tty \<Rightarrow> tty_char list \<Rightarrow> u16 \<Rightarrow> (tty \<times> tty_char list \<times> u16) res) \<Rightarrow> console \<Rightarrow> console res" where
  "on_tty vid f s =
     (if vid < 0 then Inl OutOfBounds
      else bindR (nthR (ttys s) (nat vid)) (\<lambda>t.
           mapR (\<lambda>(t', d, h). s\<lparr>ttys := (ttys s)[nat vid := t'], display := d, hw_cursor := h\<rparr>)
             (f (vid = tty_current s) t (display s) (hw_cursor s))))"

definition tty_write :: "int \<Rightarrow> bytes \<Rightarrow> console \<Rightarrow> console res" where
  "tty_write vid s = on_tty vid (write_on s)"

definition tty_putchar :: "int \<Rightarrow> u8 \<Rightarrow> console \<Rightarrow> console res" where
  "tty_putchar vid c = on_tty vid (putchar_on c)"

definition tty_clear :: "int \<Rightarrow> console \<Rightarrow> console res" where
  "tty_clear vid = on_tty vid clear_on"

definition tty_set_color_ansi :: "int \<Rightarrow> u8 \<Rightarrow> console \<Rightarrow> console res" where
  "tty_set_color_ansi vid ansi = on_tty vid (\<lambda>cur t d h. Inr (color_on ansi t, d, h))"

definition tty_get_size :: "int \<Rightarrow> console \<Rightarrow> (int \<times> int) res" where
  "tty_get_size vid s = (if vid < 0 then Inl OutOfBounds else mapR (\<lambda>t. (size_x t, size_y t)) (nthR (ttys s) (nat vid)))"

definition tty_set_cursor_pos :: "int \<Rightarrow> int \<Rightarrow> int \<Rightarrow> console \<Rightarrow> console res" where
  "tty_set_cursor_pos vid x y = on_tty vid (\<lambda>cur t d h. case cursor_on x y cur t h of (t', h') \<Rightarrow> Inr (t', d, h'))"

definition tty_switch_to :: "int \<Rightarrow> console \<Rightarrow> console res" where
  "tty_switch_to vid s =
     on_tty vid (\<lambda>cur t d h. mapR (\<lambda>d'. (t, d', hw_position (cursor_x t) (cursor_y t))) (show_cells 0 (area t) t d)) (s\<lparr>tty_current := vid\<rparr>)"

text \<open>
  \<open>tty_init\<close>, with the contents of the static buffer and of the display memory. All terminals get the
  buffer of the first one; the others are given their own, and cleared, by \<open>tty_init_post\<close>.
\<close>

definition fresh_tty :: "tty_char list \<Rightarrow> tty" where
  "fresh_tty b = \<lparr>cursor_x = 0, cursor_y = 0, size_x = 80, size_y = 25, color_fg = 15, color_bg = 0, cells = b\<rparr>"

definition tty_init :: "tty_char list \<Rightarrow> tty_char list \<Rightarrow> console" where
  "tty_init tty0_buffer vga = \<lparr>tty_current = 0, ttys = replicate TTY_AMOUNT (fresh_tty tty0_buffer), display = vga, hw_cursor = 0\<rparr>"

fun post_loop :: "nat list \<Rightarrow> console \<Rightarrow> console res" where
  "post_loop [] s = Inr s"
| "post_loop (i # is) s =
     bindR (updR (ttys s) i (fresh_tty (replicate 2000 \<lparr>ascii = 0, fgcolor = 0, bgcolor = 0\<rparr>))) (\<lambda>ts.
     bindR (tty_clear (int i) (s\<lparr>ttys := ts\<rparr>)) (post_loop is))"

definition tty_init_post :: "console \<Rightarrow> console res" where
  "tty_init_post = post_loop [1..<TTY_AMOUNT]"


section \<open>The display shows the current terminal\<close>

definition frame_ok :: "tty \<Rightarrow> tty_char list \<Rightarrow> bool" where
  "frame_ok t d \<longleftrightarrow> 0 < size_x t \<and> 0 < size_y t \<and> area t \<le> length (cells t) \<and> area t \<le> length d"

definition cursor_ok :: "tty \<Rightarrow> bool" where
  "cursor_ok t \<longleftrightarrow> 0 \<le> cursor_x t \<and> cursor_x t \<le> size_x t \<and> 0 \<le> cursor_y t \<and> cursor_y t < size_y t"

definition on_screen :: "tty \<Rightarrow> tty_char list \<Rightarrow> bool" where
  "on_screen t d \<longleftrightarrow> take (area t) d = take (area t) (cells t)"

text \<open>What an operation on a terminal keeps: its size, the display of another terminal, and what the display shows.\<close>

definition stays :: "bool \<Rightarrow> tty \<Rightarrow> tty_char list \<Rightarrow> tty \<Rightarrow> tty_char list \<Rightarrow> bool" where
  "stays cur t d t' d' \<longleftrightarrow> frame_ok t' d' \<and> size_x t' = size_x t \<and> size_y t' = size_y t \<and> length (cells t') = length (cells t) \<and>
     length d' = length d \<and> (\<not> cur \<longrightarrow> d' = d)"

definition keeps :: "bool \<Rightarrow> tty \<Rightarrow> tty_char list \<Rightarrow> tty \<Rightarrow> tty_char list \<Rightarrow> bool" where
  "keeps cur t d t' d' \<longleftrightarrow> stays cur t d t' d' \<and> (cur \<longrightarrow> on_screen t d \<longrightarrow> on_screen t' d')"

lemma keeps_refl: "frame_ok t d \<Longrightarrow> keeps cur t d t d"
  by (simp add: keeps_def stays_def)

lemma keeps_trans: "keeps cur t d t1 d1 \<Longrightarrow> keeps cur t1 d1 t2 d2 \<Longrightarrow> keeps cur t d t2 d2"
  by (auto simp: keeps_def stays_def)

lemma show_all:
  assumes "frame_ok t d"
  shows "\<exists>d'. show_cells 0 (area t) t d = Inr d' \<and> length d' = length d \<and> on_screen t d'"
  using assms by (simp add: show_cells_def frame_ok_def on_screen_def blit_def)

lemma tty_scroll_ok:
  assumes "frame_ok t d"
  shows "\<exists>t' d'. tty_scroll cur t d = Inr (t', d') \<and> keeps cur t d t' d' \<and> cursor_x t' = cursor_x t \<and> cursor_y t' = cursor_y t - 1"
proof -
  let ?n = "nat ((size_y t - 1) * size_x t)"
  have n: "?n + nat (size_x t) = area t" using assms
    by (simp add: frame_ok_def area_def nat_add_distrib [symmetric] algebra_simps)
  let ?b = "blit (cells t) 0 (take ?n (drop (nat (size_x t)) (cells t)))"
  have len: "length ?b = length (cells t)" using n assms by (intro length_blit) (simp add: frame_ok_def)
  define t' where "t' = t\<lparr>cells := blit ?b ?n (replicate (nat (size_x t)) (blank t 0)), cursor_y := cursor_y t - 1\<rparr>"
  have t': "size_x t' = size_x t" "size_y t' = size_y t" "area t' = area t" "cursor_x t' = cursor_x t" "cursor_y t' = cursor_y t - 1"
    by (simp_all add: t'_def area_def)
  have lt': "length (cells t') = length (cells t)" using n len assms by (simp add: t'_def frame_ok_def)
  then have f': "frame_ok t' d" using assms t' by (simp add: frame_ok_def)
  have e: "tty_scroll cur t d = (if cur then mapR (Pair t') (show_cells 0 (area t) t' d) else Inr (t', d))"
    using assms by (simp add: tty_scroll_def frame_ok_def Let_def t'_def)
  obtain d' where d': "show_cells 0 (area t) t' d = Inr d'" "length d' = length d" "on_screen t' d'"
    using show_all [OF f'] t'(3) by auto
  show ?thesis
  proof (cases cur)
    case True
    then show ?thesis using e d' f' t' lt' by (intro exI [of _ t'] exI [of _ d']) (simp add: keeps_def stays_def frame_ok_def)
  next
    case False
    then show ?thesis using e f' t' lt' by (intro exI [of _ t'] exI [of _ d]) (simp add: keeps_def stays_def)
  qed
qed

lemma new_line_ok:
  assumes "frame_ok t d" and "0 \<le> cursor_y t" and "cursor_y t < size_y t"
  shows "\<exists>t' d'. new_line cur t d = Inr (t', d') \<and> keeps cur t d t' d' \<and> cursor_x t' = 0 \<and> cursor_ok t'"
proof -
  let ?t = "t\<lparr>cursor_x := 0, cursor_y := cursor_y t + 1\<rparr>"
  have f: "frame_ok ?t d" and k: "keeps cur t d ?t d" using assms(1) by (simp_all add: frame_ok_def keeps_def stays_def area_def on_screen_def)
  show ?thesis
  proof (cases "cursor_y t + 1 > size_y t - 1")
    case True
    obtain t' d' where t': "tty_scroll cur ?t d = Inr (t', d')" "keeps cur ?t d t' d'" "cursor_x t' = 0" "cursor_y t' = cursor_y t"
      using tty_scroll_ok [OF f, of cur] by auto
    have s: "size_y t' = size_y t" "size_x t' = size_x t" using t'(2) by (simp_all add: keeps_def stays_def)
    have "scroll_down cur t' d' = Inr (t', d')" using assms(3) t'(4) s by (simp add: scroll_down.simps [of cur t' d'])
    then have "new_line cur t d = Inr (t', d')" using True t'(1) by (simp add: new_line_def scroll_down.simps [of cur ?t d])
    then show ?thesis using t' s assms keeps_trans [OF k t'(2)] by (intro exI [of _ t'] exI [of _ d']) (auto simp: cursor_ok_def frame_ok_def)
  next
    case False
    then have "new_line cur t d = Inr (?t, d)" by (simp add: new_line_def scroll_down.simps [of cur ?t d])
    then show ?thesis using False k assms by (intro exI [of _ ?t] exI [of _ d]) (simp add: cursor_ok_def frame_ok_def)
  qed
qed

lemma wrap_ok:
  assumes "frame_ok t d" and "cursor_ok t"
  shows "\<exists>t' d'. wrap cur t d = Inr (t', d') \<and> keeps cur t d t' d' \<and> cursor_ok t' \<and> cursor_x t' < size_x t'"
proof (cases "cursor_x t \<ge> size_x t")
  case True
  obtain t' d' where "new_line cur t d = Inr (t', d')" "keeps cur t d t' d'" "cursor_x t' = 0" "cursor_ok t'"
    using new_line_ok [OF assms(1), of cur] assms(2) unfolding cursor_ok_def [of t] by blast
  then show ?thesis using True by (intro exI [of _ t'] exI [of _ d']) (simp add: wrap_def keeps_def stays_def frame_ok_def)
next
  case False
  then show ?thesis using assms by (simp add: wrap_def keeps_refl)
qed

lemma index_inside:
  assumes "0 \<le> cursor_x t" and "cursor_x t < size_x t" and "0 \<le> cursor_y t" and "cursor_y t < size_y t"
  shows "0 \<le> cursor_index t" and "nat (cursor_index t) < area t"
proof -
  show n: "0 \<le> cursor_index t" using assms by (simp add: cursor_index_def)
  have "cursor_index t < (cursor_y t + 1) * size_x t" using assms(2) by (simp add: cursor_index_def distrib_right)
  also have "\<dots> \<le> size_y t * size_x t" using assms by (intro mult_right_mono) auto
  finally show "nat (cursor_index t) < area t" using n by (simp add: area_def mult.commute nat_less_eq_zless)
qed

lemma put_show:
  assumes "frame_ok t d" and "i < area t" and "cells t' = (cells t)[i := c]" and "size_x t' = size_x t" and "size_y t' = size_y t"
  shows "show_cells (int i) 1 t' d = Inr (d[i := c])" and "on_screen t d \<Longrightarrow> on_screen t' (d[i := c])"
proof -
  have a: "area t' = area t" using assms(4,5) by (simp add: area_def)
  have i: "i < length (cells t)" "i < length d" using assms(1,2) by (simp_all add: frame_ok_def)
  then have "take 1 (drop i (cells t')) = [c]" using assms(3) by (simp add: take_Suc_conv_app_nth hd_drop_conv_nth take_Suc)
  then show "show_cells (int i) 1 t' d = Inr (d[i := c])"
    using i assms(3) by (simp add: show_cells_def blit_def upd_conv_take_nth_drop)
  assume "on_screen t d"
  then show "on_screen t' (d[i := c])" using assms(3) a by (simp add: on_screen_def take_update_swap)
qed


lemma put_ok:
  assumes "frame_ok t d" and "cursor_ok t" and "cursor_x t < size_x t" and "0 \<le> x" and "x \<le> size_x t"
  shows "\<exists>t'. put_cell (cursor_index t) c (t\<lparr>cursor_x := x\<rparr>) = Inr t' \<and> cells t' = (cells t)[nat (cursor_index t) := c] \<and>
    size_x t' = size_x t \<and> size_y t' = size_y t \<and> cursor_x t' = x \<and> cursor_y t' = cursor_y t \<and> frame_ok t' d \<and> cursor_ok t'"
proof -
  note i = index_inside [of t]
  let ?t = "t\<lparr>cursor_x := x, cells := (cells t)[nat (cursor_index t) := c]\<rparr>"
  have "put_cell (cursor_index t) c (t\<lparr>cursor_x := x\<rparr>) = Inr ?t"
    using i assms by (simp add: put_cell_def cursor_ok_def frame_ok_def)
  then show ?thesis using assms by (intro exI [of _ ?t]) (simp add: frame_ok_def cursor_ok_def area_def)
qed

lemma putchar_on_ok:
  assumes "frame_ok t d" and "cursor_ok t"
  shows "\<exists>t' d' h'. putchar_on c cur t d h = Inr (t', d', h') \<and> cursor_ok t' \<and> stays cur t d t' d' \<and> (c \<noteq> 8 \<longrightarrow> keeps cur t d t' d')"
proof -
  obtain t1 d1 where w: "wrap cur t d = Inr (t1, d1)" "keeps cur t d t1 d1" "cursor_ok t1" "cursor_x t1 < size_x t1"
    using wrap_ok [OF assms, of cur] by blast
  have f: "frame_ok t1 d1" using w(2) by (simp add: keeps_def stays_def)
  consider "c = 10" | "c = 13" | "c = 8" | "c \<noteq> 10" "c \<noteq> 13" "c \<noteq> 8" by blast
  then show ?thesis
  proof cases
    case 1
    obtain t2 d2 where "new_line cur t1 d1 = Inr (t2, d2)" "keeps cur t1 d1 t2 d2" "cursor_ok t2"
      using new_line_ok [OF f, of cur] w(3) unfolding cursor_ok_def [of t1] by blast
    then show ?thesis using 1 w(1) keeps_trans [OF w(2)] by (auto simp: putchar_on_def keeps_def)
  next
    case 2
    have "keeps cur t1 d1 (t1\<lparr>cursor_x := 0\<rparr>) d1" using f by (simp add: keeps_def stays_def frame_ok_def on_screen_def area_def)
    then show ?thesis using 2 w(1,3,4) keeps_trans [OF w(2)] by (auto simp: putchar_on_def keeps_def cursor_ok_def)
  next
    case 3
    show ?thesis
    proof (cases "cursor_x t1 = 0")
      case True
      then show ?thesis using 3 w by (auto simp: putchar_on_def keeps_def)
    next
      case False
      obtain old where o: "nthR (cells t1) (nat (cursor_index t1)) = Inr old" "0 \<le> cursor_index t1"
        using index_inside [of t1] w(3,4) f by (auto simp: cursor_ok_def frame_ok_def)
      obtain t2 where "put_cell (cursor_index t1) (old\<lparr>ascii := 32\<rparr>) (t1\<lparr>cursor_x := cursor_x t1 - 1\<rparr>) = Inr t2"
          "cells t2 = (cells t1)[nat (cursor_index t1) := old\<lparr>ascii := 32\<rparr>]" "size_x t2 = size_x t1" "size_y t2 = size_y t1" "frame_ok t2 d1" "cursor_ok t2"
        using put_ok [OF f w(3,4), of "cursor_x t1 - 1"] False w(3,4) by (auto simp: cursor_ok_def [of t1])
      then show ?thesis using 3 False o w(1,2) by (auto simp: putchar_on_def keeps_def stays_def)
    qed
  next
    case 4
    obtain t2 where t2: "put_cell (cursor_index t1) (blank t1 c) (t1\<lparr>cursor_x := cursor_x t1 + 1\<rparr>) = Inr t2"
        "cells t2 = (cells t1)[nat (cursor_index t1) := blank t1 c]" "size_x t2 = size_x t1" "size_y t2 = size_y t1" "frame_ok t2 d1" "cursor_ok t2"
      using put_ok [OF f w(3,4), of "cursor_x t1 + 1"] w(3,4) by (auto simp: cursor_ok_def [of t1])
    let ?i = "nat (cursor_index t1)"
    have i: "?i < area t1" "int ?i = cursor_index t1" using index_inside [of t1] w(3,4) by (simp_all add: cursor_ok_def)
    note s = put_show [OF f i(1) t2(2-4), unfolded i(2)]
    have k: "keeps cur t1 d1 t2 (if cur then d1[?i := blank t1 c] else d1)"
      using s(2) t2(2-5) by (auto simp: keeps_def stays_def frame_ok_def)
    then show ?thesis using 4 w(1) t2(1,6) s(1) keeps_trans [OF w(2) k] by (auto simp: putchar_on_def keeps_def)
  qed
qed

lemma clear_on_ok:
  assumes "frame_ok t d" and "cursor_ok t"
  shows "\<exists>t' d'. clear_on cur t d h = Inr (t', d', h) \<and> cursor_ok t' \<and> keeps cur t d t' d'"
proof -
  define t' where "t' = t\<lparr>cells := blit (cells t) 0 (replicate (area t) (blank t 0))\<rparr>"
  have t': "area t' = area t" "size_x t' = size_x t" "size_y t' = size_y t" "length (cells t') = length (cells t)" "cursor_ok t'"
    using assms by (simp_all add: t'_def area_def frame_ok_def cursor_ok_def)
  then have f: "frame_ok t' d" using assms(1) by (simp add: frame_ok_def)
  have e: "clear_on cur t d h = (if cur then mapR (\<lambda>d'. (t', d', h)) (show_cells 0 (area t) t' d) else Inr (t', d, h))"
    using assms(1) by (simp add: clear_on_def frame_ok_def Let_def t'_def)
  obtain d' where "show_cells 0 (area t) t' d = Inr d'" "length d' = length d" "on_screen t' d'" using show_all [OF f] t'(1) by auto
  then show ?thesis using e f t' by (cases cur) (auto simp: keeps_def stays_def frame_ok_def)
qed

lemma color_on_keeps: "frame_ok t d \<Longrightarrow> keeps cur t d (color_on a t) d" "cursor_ok (color_on a t) = cursor_ok t"
  by (simp_all add: color_on_def keeps_def stays_def frame_ok_def on_screen_def area_def cursor_ok_def Let_def)

lemma cursor_on_keeps:
  assumes "frame_ok t d" and "0 \<le> x" and "x \<le> size_x t" and "0 \<le> y" and "y < size_y t" and "cursor_on x y cur t h = (t', h')"
  shows "keeps cur t d t' d \<and> cursor_ok t'"
  using assms by (auto simp: cursor_on_def keeps_def stays_def frame_ok_def on_screen_def area_def cursor_ok_def Let_def split: if_splits)


section \<open>Terminals of the console\<close>

definition console_ok :: "console \<Rightarrow> bool" where
  "console_ok s \<longleftrightarrow> 0 \<le> tty_current s \<and> nat (tty_current s) < length (ttys s) \<and>
     (\<forall>t \<in> set (ttys s). frame_ok t (display s) \<and> cursor_ok t)"

definition mirrors :: "console \<Rightarrow> bool" where
  "mirrors s \<longleftrightarrow> on_screen (ttys s ! nat (tty_current s)) (display s)"

lemma on_tty_ok:
  assumes "console_ok s" and "0 \<le> vid" and "nat vid < length (ttys s)" and "t = ttys s ! nat vid" and "cur \<longleftrightarrow> vid = tty_current s"
    and "f cur t (display s) (hw_cursor s) = Inr (t', d', h')" and "cursor_ok t'" and "stays cur t (display s) t' d'"
  shows "\<exists>s'. on_tty vid f s = Inr s' \<and> console_ok s' \<and> tty_current s' = tty_current s \<and> length (ttys s') = length (ttys s) \<and>
    map size_x (ttys s') = map size_x (ttys s) \<and> map size_y (ttys s') = map size_y (ttys s) \<and>
    (keeps cur t (display s) t' d' \<longrightarrow> mirrors s \<longrightarrow> mirrors s')"
proof -
  let ?s = "s\<lparr>ttys := (ttys s)[nat vid := t'], display := d', hw_cursor := h'\<rparr>"
  have e: "on_tty vid f s = Inr ?s" using assms(2-6) by (simp add: on_tty_def)
  have "frame_ok u d'" if "u \<in> set (ttys s)" for u using assms(1,8) that by (auto simp: console_ok_def frame_ok_def stays_def)
  then have ok: "console_ok ?s"
    using assms(1,7,8) set_update_subset_insert [of "ttys s" "nat vid" t'] by (auto simp: console_ok_def stays_def)
  have sz: "map size_x (ttys ?s) = map size_x (ttys s)" "map size_y (ttys ?s) = map size_y (ttys s)"
    using assms(3,4,8) by (simp_all add: map_update stays_def list_update_same_conv)
  have m: "mirrors ?s" if k: "keeps cur t (display s) t' d'" and m: "mirrors s"
  proof (cases "vid = tty_current s")
    case True
    then show ?thesis using k m assms(3-5) by (simp add: mirrors_def keeps_def)
  next
    case False
    then have "nat (tty_current s) \<noteq> nat vid" using assms(1,2) by (auto simp: console_ok_def)
    moreover have "d' = display s" using False assms(5,8) by (simp add: stays_def)
    ultimately show ?thesis using m by (simp add: mirrors_def)
  qed
  show ?thesis using e ok sz m by (intro exI [of _ ?s]) simp
qed

datatype console_call =
    Putchar int u8
  | Clear int
  | Color int u8
  | Cursor int int int
  | Switch int

fun console_step :: "console_call \<Rightarrow> console \<Rightarrow> console res" where
  "console_step (Putchar vid c) s = tty_putchar vid c s"
| "console_step (Clear vid) s = tty_clear vid s"
| "console_step (Color vid a) s = tty_set_color_ansi vid a s"
| "console_step (Cursor vid x y) s = tty_set_cursor_pos vid x y s"
| "console_step (Switch vid) s = tty_switch_to vid s"

fun console_run :: "console_call list \<Rightarrow> console \<Rightarrow> console res" where
  "console_run [] s = Inr s"
| "console_run (c # cs) s = bindR (console_step c s) (console_run cs)"

text \<open>A call on a terminal that exists, with a cursor position inside of it.\<close>

fun call_ok :: "int list \<Rightarrow> int list \<Rightarrow> console_call \<Rightarrow> bool" where
  "call_ok xs ys (Putchar vid c) = (0 \<le> vid \<and> nat vid < length xs)"
| "call_ok xs ys (Clear vid) = (0 \<le> vid \<and> nat vid < length xs)"
| "call_ok xs ys (Color vid a) = (0 \<le> vid \<and> nat vid < length xs)"
| "call_ok xs ys (Cursor vid x y) = (0 \<le> vid \<and> nat vid < length xs \<and> 0 \<le> x \<and> x \<le> xs ! nat vid \<and> 0 \<le> y \<and> y < ys ! nat vid)"
| "call_ok xs ys (Switch vid) = (0 \<le> vid \<and> nat vid < length xs)"

fun call_vid :: "console_call \<Rightarrow> int" where
  "call_vid (Putchar vid c) = vid"
| "call_vid (Clear vid) = vid"
| "call_vid (Color vid a) = vid"
| "call_vid (Cursor vid x y) = vid"
| "call_vid (Switch vid) = vid"

fun backspace :: "console_call \<Rightarrow> bool" where
  "backspace (Putchar vid c) = (c = 8)"
| "backspace _ = False"

lemma tty_switch_to_ok:
  assumes "console_ok s" and "0 \<le> vid" and "nat vid < length (ttys s)"
  shows "\<exists>s'. tty_switch_to vid s = Inr s' \<and> console_ok s' \<and> mirrors s' \<and> ttys s' = ttys s \<and> tty_current s' = vid"
proof -
  let ?t = "ttys s ! nat vid"
  have f: "frame_ok ?t (display s)" using assms by (simp add: console_ok_def)
  obtain d' where d': "show_cells 0 (area ?t) ?t (display s) = Inr d'" "length d' = length (display s)" "on_screen ?t d'"
    using show_all [OF f] by blast
  let ?s = "s\<lparr>tty_current := vid, display := d', hw_cursor := hw_position (cursor_x ?t) (cursor_y ?t)\<rparr>"
  have "tty_switch_to vid s = Inr ?s" using assms(2,3) d'(1) by (simp add: tty_switch_to_def on_tty_def)
  then show ?thesis using assms d' by (intro exI [of _ ?s]) (auto simp: console_ok_def mirrors_def frame_ok_def)
qed

lemma console_step_ok:
  assumes "console_ok s" and "call_ok (map size_x (ttys s)) (map size_y (ttys s)) c"
  shows "\<exists>s'. console_step c s = Inr s' \<and> console_ok s' \<and> map size_x (ttys s') = map size_x (ttys s) \<and>
    map size_y (ttys s') = map size_y (ttys s) \<and> (\<not> backspace c \<longrightarrow> mirrors s \<longrightarrow> mirrors s')"
proof -
  have v: "0 \<le> call_vid c" "nat (call_vid c) < length (ttys s)" using assms(2) by (cases c; simp)+
  define t cur where "t = ttys s ! nat (call_vid c)" and "cur = (call_vid c = tty_current s)"
  have f: "frame_ok t (display s)" "cursor_ok t" using assms(1) v by (simp_all add: console_ok_def t_def)
  note step = on_tty_ok [OF assms(1) v t_def cur_def]
  show ?thesis
  proof (cases c)
    case (Putchar vid ch)
    obtain t' d' h' where p: "putchar_on ch cur t (display s) (hw_cursor s) = Inr (t', d', h')" "cursor_ok t'" "stays cur t (display s) t' d'"
        "ch \<noteq> 8 \<longrightarrow> keeps cur t (display s) t' d'"
      using putchar_on_ok [OF f] by blast
    show ?thesis using step [where f = "putchar_on ch", OF p(1-3)] p(4) Putchar by (auto simp: tty_putchar_def)
  next
    case (Clear vid)
    obtain t' d' where p: "clear_on cur t (display s) (hw_cursor s) = Inr (t', d', hw_cursor s)" "cursor_ok t'" "keeps cur t (display s) t' d'"
      using clear_on_ok [OF f] by blast
    show ?thesis using step [where f = clear_on, OF p(1,2)] p(3) Clear by (auto simp: tty_clear_def keeps_def)
  next
    case (Color vid a)
    have k: "keeps cur t (display s) (color_on a t) (display s)" "cursor_ok (color_on a t)" using color_on_keeps f by auto
    show ?thesis using step [where f = "\<lambda>cur t d h. Inr (color_on a t, d, h)", OF refl k(2)] k(1) Color
      by (auto simp: tty_set_color_ansi_def keeps_def)
  next
    case (Cursor vid x y)
    obtain t' h' where p: "cursor_on x y cur t (hw_cursor s) = (t', h')" by fastforce
    have k: "keeps cur t (display s) t' (display s)" "cursor_ok t'"
      using cursor_on_keeps [OF f(1) _ _ _ _ p] assms(2) v Cursor by (auto simp: t_def)
    have e: "(case cursor_on x y cur t (hw_cursor s) of (t', h') \<Rightarrow> Inr (t', display s, h')) = Inr (t', display s, h')" using p by simp
    show ?thesis
      using step [where f = "\<lambda>cur t d h. case cursor_on x y cur t h of (t', h') \<Rightarrow> Inr (t', d, h')", OF e k(2)] k(1) Cursor
      by (auto simp: tty_set_cursor_pos_def keeps_def)
  next
    case (Switch vid)
    then obtain s' where "tty_switch_to vid s = Inr s'" "console_ok s'" "mirrors s'" "ttys s' = ttys s"
      using tty_switch_to_ok [OF assms(1) v] by auto
    then show ?thesis using Switch by (intro exI [of _ s']) simp
  qed
qed

lemma console_run_ok:
  assumes "console_ok s" and "\<forall>c \<in> set cs. call_ok (map size_x (ttys s)) (map size_y (ttys s)) c"
  shows "\<exists>s'. console_run cs s = Inr s' \<and> console_ok s' \<and> ((\<forall>c \<in> set cs. \<not> backspace c) \<longrightarrow> mirrors s \<longrightarrow> mirrors s')"
  using assms
proof (induction cs arbitrary: s)
  case (Cons c cs)
  obtain s1 where s1: "console_step c s = Inr s1" "console_ok s1" "map size_x (ttys s1) = map size_x (ttys s)"
      "map size_y (ttys s1) = map size_y (ttys s)" "\<not> backspace c \<longrightarrow> mirrors s \<longrightarrow> mirrors s1"
    using console_step_ok [OF Cons.prems(1), of c] Cons.prems(2) by auto
  then show ?case using Cons.IH [OF s1(2)] Cons.prems(2) by auto
qed simp


section \<open>Writing a text\<close>

text \<open>The reference: the characters one by one.\<close>

fun putchars :: "bytes \<Rightarrow> bool \<Rightarrow> tty \<Rightarrow> tty_char list \<Rightarrow> u16 \<Rightarrow> (tty \<times> tty_char list \<times> u16) res" where
  "putchars [] cur t d h = Inr (t, d, h)"
| "putchars (c # cs) cur t d h = bindR (putchar_on c cur t d h) (\<lambda>(t', d', h'). putchars cs cur t' d' h')"

definition plain :: "u8 \<Rightarrow> bool" where
  "plain c \<longleftrightarrow> c \<noteq> 0 \<and> c \<noteq> 8 \<and> c \<noteq> 10 \<and> c \<noteq> 13"

lemma index_nonneg: "frame_ok t d \<Longrightarrow> cursor_ok t \<Longrightarrow> 0 \<le> cursor_index t"
  by (simp add: cursor_index_def cursor_ok_def frame_ok_def)

lemma wrap_inside:
  assumes "frame_ok t d" and "cursor_ok t" and "nat (cursor_index t) < area t"
  obtains t1 where "\<forall>d. wrap cur t d = Inr (t1, d)" and "cursor_index t1 = cursor_index t" and "cells t1 = cells t" and "size_x t1 = size_x t"
    and "size_y t1 = size_y t" and "cursor_ok t1" and "cursor_x t1 < size_x t1" and "blank t1 = blank t"
proof (cases "cursor_x t \<ge> size_x t")
  case True
  then have x: "cursor_x t = size_x t" using assms(2) by (simp add: cursor_ok_def)
  have "cursor_index t = size_x t * (cursor_y t + 1)" using x by (simp add: cursor_index_def algebra_simps)
  then have "size_x t * (cursor_y t + 1) < size_x t * size_y t"
    using assms by (simp add: area_def nat_less_eq_zless frame_ok_def cursor_ok_def)
  then have y: "cursor_y t + 1 < size_y t" using assms(1) by (simp add: frame_ok_def)
  show thesis
    by (rule that [of "t\<lparr>cursor_x := 0, cursor_y := cursor_y t + 1\<rparr>"])
      (use True x y assms(1,2) in \<open>simp_all add: wrap_def new_line_def scroll_down.simps cursor_index_def cursor_ok_def frame_ok_def
        blank_def fun_eq_iff algebra_simps\<close>)
next
  case False
  then show thesis using assms(2) by (intro that [of t]) (simp_all add: wrap_def)
qed

lemma blit_update: "i + length ys < length xs \<Longrightarrow> blit (xs[i := y]) (Suc i) ys = blit xs i (y # ys)"
  by (simp add: blit_def take_Suc_conv_app_nth)

lemma write_loop_plain:
  assumes "frame_ok t d" and "frame_ok t d2" and "cursor_ok t" and "\<forall>c \<in> set msg. plain c" and "nat (cursor_index t) + length msg \<le> area t"
  shows "\<exists>t'. write_loop cur (msg @ 0 # r) t d n = Inr (t', d, n + length msg) \<and>
    putchars msg cur t d2 h = Inr (t', if cur then blit d2 (nat (cursor_index t)) (map (blank t) msg) else d2,
      if cur \<and> msg \<noteq> [] then hw_position (cursor_x t') (cursor_y t') else h) \<and>
    cells t' = blit (cells t) (nat (cursor_index t)) (map (blank t) msg) \<and>
    cursor_index t' = cursor_index t + int (length msg) \<and> cursor_ok t' \<and> area t' = area t"
  using assms
proof (induction msg arbitrary: t d2 n h)
  case Nil
  then show ?case by (simp add: frame_ok_def)
next
  case (Cons c msg)
  let ?i = "nat (cursor_index t)"
  have c: "c \<noteq> 0" "c \<noteq> 8" "c \<noteq> 10" "c \<noteq> 13" using Cons.prems(4) by (simp_all add: plain_def)
  have i: "?i < area t" using Cons.prems(5) by simp
  obtain t1 where t1: "\<forall>d. wrap cur t d = Inr (t1, d)" "cursor_index t1 = cursor_index t" "cells t1 = cells t" "size_x t1 = size_x t"
      "size_y t1 = size_y t" "cursor_ok t1" "cursor_x t1 < size_x t1" "blank t1 = blank t"
    by (rule wrap_inside [OF Cons.prems(1,3) i, where cur = cur])
  have f1: "frame_ok t1 d" "frame_ok t1 d2" using Cons.prems(1,2) t1(3-5) by (simp_all add: frame_ok_def area_def)
  have i1: "0 \<le> cursor_index t" using index_inside(1) [of t1] t1(2,6,7) by (simp add: cursor_ok_def)
  define t2 where "t2 = t1\<lparr>cursor_x := cursor_x t1 + 1, cells := (cells t)[?i := blank t c]\<rparr>"
  have p: "put_cell (cursor_index t1) (blank t1 c) (t1\<lparr>cursor_x := cursor_x t1 + 1\<rparr>) = Inr t2"
    using i i1 t1 Cons.prems(1) by (simp add: put_cell_def t2_def frame_ok_def)
  have t2: "cursor_index t2 = cursor_index t + 1" "blank t2 = blank t" "area t2 = area t" "cursor_ok t2" "size_x t2 = size_x t" "size_y t2 = size_y t"
    using t1 by (simp_all add: t2_def cursor_index_def blank_def fun_eq_iff area_def cursor_ok_def)
  have i2: "nat (cursor_index t2) = Suc ?i" using t2(1) i1 by simp
  have c2: "cells t2 = (cells t)[?i := blank t c]" by (simp add: t2_def)
  have ii: "int ?i = cursor_index t1" using i1 t1(2) by simp
  have s: "show_cells (cursor_index t1) 1 t2 d2 = Inr (d2[?i := blank t c])"
    using put_show(1) [OF Cons.prems(2) i c2 t2(5,6)] unfolding ii .
  let ?d2 = "if cur then d2[?i := blank t c] else d2"
  let ?h = "if cur then hw_position (cursor_x t2) (cursor_y t2) else h"
  have pc: "putchar_on c cur t d2 h = Inr (t2, ?d2, ?h)" using c t1(1) p s by (simp add: putchar_on_def)
  have f2: "frame_ok t2 d" "frame_ok t2 ?d2" using Cons.prems(1,2) t2(3,5,6) c2 by (simp_all add: frame_ok_def)
  obtain t' where t': "write_loop cur (msg @ 0 # r) t2 d (n + 1) = Inr (t', d, n + 1 + length msg)"
      "putchars msg cur t2 ?d2 ?h = Inr (t', if cur then blit ?d2 (Suc ?i) (map (blank t) msg) else ?d2,
         if cur \<and> msg \<noteq> [] then hw_position (cursor_x t') (cursor_y t') else ?h)"
      "cells t' = blit (cells t2) (Suc ?i) (map (blank t) msg)" "cursor_index t' = cursor_index t + int (length (c # msg))" "cursor_ok t'" "area t' = area t"
    using Cons.IH [OF f2 t2(4), of "n + 1" ?h] Cons.prems(4,5) i2 t2(1-3) by auto
  have h: "msg = [] \<Longrightarrow> t' = t2" using t'(1) by simp
  have len: "?i + length (map (blank t) msg) < length (cells t)" "?i + length (map (blank t) msg) < length d2"
    using Cons.prems(1,2,5) by (simp_all add: frame_ok_def)
  show ?case
    using t' c t1(1) p pc blit_update [OF len(1)] blit_update [OF len(2)] h
    by (intro exI [of _ t']) (auto simp: c2)
qed

lemma write_on_plain:
  assumes "frame_ok t d" and "cursor_ok t" and "\<forall>c \<in> set msg. plain c" and "nat (cursor_index t) + length msg \<le> area t" and "msg \<noteq> []"
  shows "write_on (msg @ 0 # r) cur t d h = putchars msg cur t d h"
proof -
  let ?i = "nat (cursor_index t)"
  obtain t' where t': "write_loop cur (msg @ 0 # r) t d 0 = Inr (t', d, length msg)"
      "putchars msg cur t d h = Inr (t', if cur then blit d ?i (map (blank t) msg) else d,
         if cur then hw_position (cursor_x t') (cursor_y t') else h)"
      "cells t' = blit (cells t) ?i (map (blank t) msg)"
    using write_loop_plain [OF assms(1,1,2-4), of cur r 0 h] assms(5) by auto
  have "0 \<le> cursor_index t" by (rule index_nonneg [OF assms(1,2)])
  moreover have "take (length msg) (drop ?i (cells t')) = map (blank t) msg"
    using assms(1,4) by (simp add: t'(3) blit_def frame_ok_def)
  ultimately have "show_cells (cursor_index t) (length msg) t' d = Inr (blit d ?i (map (blank t) msg))"
    using assms(1,4) t'(3) by (simp add: show_cells_def frame_ok_def)
  then show ?thesis using t' by (simp add: write_on_def)
qed


lemma on_tty_seq:
  assumes "nat vid < length (ttys s)"
  shows "on_tty vid (\<lambda>cur t d h. bindR (f cur t d h) (\<lambda>(t', d', h'). g cur t' d' h')) s = bindR (on_tty vid f s) (on_tty vid g)"
proof (cases "f (vid = tty_current s) (ttys s ! nat vid) (display s) (hw_cursor s)")
  case (Inl e)
  then show ?thesis using assms by (simp add: on_tty_def)
next
  case (Inr x)
  then show ?thesis using assms by (cases x) (simp add: on_tty_def)
qed

lemma putchars_run:
  "0 \<le> vid \<Longrightarrow> nat vid < length (ttys s) \<Longrightarrow> on_tty vid (putchars msg) s = console_run (map (Putchar vid) msg) s"
proof (induction msg arbitrary: s)
  case Nil
  then show ?case by (simp add: on_tty_def)
next
  case (Cons c msg)
  have "on_tty vid (putchars msg) s' = console_run (map (Putchar vid) msg) s'" if "on_tty vid (putchar_on c) s = Inr s'" for s'
    using that Cons.prems by (intro Cons.IH) (auto simp: on_tty_def mapR_eq_Inr_iff)
  then show ?case
    using on_tty_seq [OF Cons.prems(2), of "putchar_on c" "putchars msg"]
    by (cases "on_tty vid (putchar_on c) s") (simp_all add: tty_putchar_def)
qed

lemma write_text_putchars:
  assumes "console_ok s" and "0 \<le> vid" and "nat vid < length (ttys s)" and "\<forall>c \<in> set msg. plain c" and "msg \<noteq> []"
    and "nat (cursor_index (ttys s ! nat vid)) + length msg \<le> area (ttys s ! nat vid)"
  shows "tty_write vid (msg @ 0 # r) s = console_run (map (Putchar vid) msg) s"
proof -
  let ?t = "ttys s ! nat vid"
  have f: "frame_ok ?t (display s)" "cursor_ok ?t" using assms(1,3) by (simp_all add: console_ok_def)
  have "tty_write vid (msg @ 0 # r) s = on_tty vid (putchars msg) s"
    using assms(2,3) write_on_plain [OF f assms(4,6,5)] by (simp add: tty_write_def on_tty_def)
  then show ?thesis using putchars_run assms(2,3) by simp
qed

section \<open>Properties\<close>

text \<open>
  C31: No sequence of the calls \<open>tty_putchar\<close>, \<open>tty_clear\<close>, \<open>tty_set_color_ansi\<close>,
  \<open>tty_set_cursor_pos\<close> and \<open>tty_switch_to\<close> on terminals that exist, with cursor positions inside of
  the screen, reaches memory outside of the buffers: it returns, the cursor of every terminal is on its
  screen, or behind the end of a line of it, and, unless a character was deleted, the display memory that
  showed the current terminal shows the one that is current then, cell by cell. \<open>tty_write\<close> is not
  among the calls: it shows the wrong cells once the text breaks a line or scrolls, and can read behind
  the buffer; what holds of it is stated separately below.
\<close>

theorem console_mirrors:
  assumes "console_ok s" and "\<forall>c \<in> set cs. call_ok (map size_x (ttys s)) (map size_y (ttys s)) c"
  shows "\<exists>s'. console_run cs s = Inr s' \<and> console_ok s' \<and> ((\<forall>c \<in> set cs. \<not> backspace c) \<longrightarrow> mirrors s \<longrightarrow> mirrors s')"
  by (rule console_run_ok [OF assms])

text \<open>A console with one small terminal on an empty display.\<close>

definition small_tty :: tty where
  "small_tty = \<lparr>cursor_x = 0, cursor_y = 0, size_x = 3, size_y = 2, color_fg = 15, color_bg = 0,
     cells = replicate 6 \<lparr>ascii = 0, fgcolor = 0, bgcolor = 0\<rparr>\<rparr>"

definition small_console :: console where
  "small_console = \<lparr>tty_current = 0, ttys = [small_tty], display = replicate 6 \<lparr>ascii = 0, fgcolor = 0, bgcolor = 0\<rparr>, hw_cursor = 0\<rparr>"

lemma small_console_ok: "console_ok small_console" "mirrors small_console"
  by (simp_all add: console_ok_def small_console_def small_tty_def frame_ok_def cursor_ok_def area_def mirrors_def on_screen_def)

theorem console_mirrors_witness:
  "\<exists>s'. console_run [Putchar 0 65, Putchar 0 10, Putchar 0 10, Cursor 0 2 1, Putchar 0 66, Clear 0, Switch 0] small_console = Inr s' \<and> mirrors s'"
  using console_mirrors [OF small_console_ok(1), of "[Putchar 0 65, Putchar 0 10, Putchar 0 10, Cursor 0 2 1, Putchar 0 66, Clear 0, Switch 0]"]
    small_console_ok(2)
  by (auto simp: small_console_def small_tty_def)

text \<open>
  C32: For a text of printable characters that ends on the screen (no new line, and the cursor with the text
  behind it stays within the cells of the terminal), \<open>tty_write\<close>, which stores the whole text and
  copies it to the display at once, does the same as \<open>tty_putchar\<close> for its characters one after the
  other, on the terminal, the display and the hardware cursor.
\<close>

theorem tty_write_putchars:
  assumes "console_ok s" and "0 \<le> vid" and "nat vid < length (ttys s)" and "\<forall>c \<in> set msg. plain c" and "msg \<noteq> []"
    and "nat (cursor_index (ttys s ! nat vid)) + length msg \<le> area (ttys s ! nat vid)"
  shows "tty_write vid (msg @ 0 # r) s = console_run (map (Putchar vid) msg) s"
  by (rule write_text_putchars [OF assms])

theorem tty_write_putchars_witness:
  "tty_write 0 [72, 105, 33, 33, 0] small_console = console_run [Putchar 0 72, Putchar 0 105, Putchar 0 33, Putchar 0 33] small_console"
  using tty_write_putchars [OF small_console_ok(1), of 0 "[72, 105, 33, 33]" "[]"]
  by (simp add: plain_def small_console_def small_tty_def cursor_index_def area_def)

end
