(* ===== verification/Input.thy ===== *)
theory Input
  imports CBufM Frame Sched Tty
begin

text \<open>
  \<^verbatim>\<open>dev/input.c\<close>: key presses are queued, with the modifiers that are held, in a broadcast
  buffer; a reader keeps its own position. Keys with control and alt held go to
  \<^verbatim>\<open>sys/sys.c\<close>, which switches terminals or the machine off. Once a function to switch the
  machine off is registered, calling it ends everything: it is a \<open>Panic\<close>, as is its return.
\<close>

section \<open>State\<close>

definition INPUT_SHIFT_FLAG :: u8 where "INPUT_SHIFT_FLAG = 1"
definition INPUT_CONTROL_FLAG :: u8 where "INPUT_CONTROL_FLAG = 2"
definition INPUT_ALT_FLAG :: u8 where "INPUT_ALT_FLAG = 4"

record insys =
  kb :: cbufm
  pressed_keys :: "bool list"
  prscnt :: int
  input_flags :: u8
  sysrq :: bool
  input_event :: event
  input_lock :: bool
  con :: console
  isch :: sched
  shutdown_func :: bool
  shutting_down :: bool

text \<open>The table of the characters of the keys, and with shift held; the second half is zero.\<close>

definition def_keymap :: bytes where
  "def_keymap =
     (let plain_keys = [
     0, 0, 47, 42, 45, 43, 13, 127, 8, 9, 0, 0, 0, 13, 14, 15,
     0, 0, 0, 0, 0, 0, 0, 0, 0, 0, 0, 0, 0, 0, 0, 0,
     32, 0, 0, 0, 0, 0, 0, 39, 0, 0, 0, 0, 44, 45, 46, 47,
     48, 49, 50, 51, 52, 53, 54, 55, 56, 57, 0, 0, 0, 61, 0, 0,
     0, 97, 98, 99, 100, 101, 102, 103, 104, 105, 106, 107, 108, 109, 110, 111,
     112, 113, 114, 115, 116, 117, 118, 119, 120, 121, 122, 91, 0, 93, 0, 0,
     96];
          shift_keys = [
     0, 0, 47, 42, 45, 43, 13, 127, 8, 9, 0, 0, 0, 13, 14, 15,
     0, 0, 0, 0, 0, 0, 0, 0, 0, 0, 0, 0, 0, 0, 0, 0,
     32, 0, 0, 0, 0, 0, 0, 34, 0, 0, 0, 0, 60, 95, 62, 63,
     41, 33, 64, 35, 36, 37, 94, 38, 42, 40, 0, 0, 0, 43, 0, 0,
     0, 65, 66, 67, 68, 69, 70, 71, 72, 73, 74, 75, 76, 77, 78, 79,
     80, 81, 82, 83, 84, 85, 86, 87, 88, 89, 90, 123, 0, 125, 0, 0,
     126]
      in plain_keys @ replicate (256 - length plain_keys) 0 @ shift_keys @ replicate (256 - length shift_keys) 0 @ replicate 512 0)"

section \<open>System keys\<close>

definition shutdown :: "insys \<Rightarrow> insys res" where
  "shutdown s = (if \<not> shutdown_func s \<or> shutting_down s then Inr s else Inl (Panic ''shutdown''))"

text \<open>The flag says whether the registered pointer differs from \<open>NULL\<close>.\<close>

definition register_shutdown :: "bool \<Rightarrow> insys \<Rightarrow> insys" where
  "register_shutdown func s = s\<lparr>shutdown_func := func\<rparr>"

definition SYSVAR_PAGESIZE :: int where "SYSVAR_PAGESIZE = 0"
definition SYSVAR_TTYAMOUNT :: int where "SYSVAR_TTYAMOUNT = 1"

definition syscall_sysvar :: "int \<Rightarrow> int" where
  "syscall_sysvar n =
     (if n = SYSVAR_PAGESIZE then int CPU_PAGE_SIZE else if n = SYSVAR_TTYAMOUNT then int TTY_AMOUNT else - 1)"

definition sys_funckey :: "u8 \<Rightarrow> insys \<Rightarrow> insys res" where
  "sys_funckey key s =
     (let n = int (unat key) - 0x6A
      in if n \<ge> int TTY_AMOUNT then Inr s else mapR (\<lambda>c. s\<lparr>con := c\<rparr>) (tty_switch_to n (con s)))"

definition sys_sysrq :: "u8 \<Rightarrow> insys \<Rightarrow> insys res" where
  "sys_sysrq key s = (if key = 83 then shutdown s else Inr s)"

section \<open>The queue of keys\<close>

definition input_locked :: "(insys \<Rightarrow> ('a \<times> insys) res) \<Rightarrow> insys \<Rightarrow> ('a \<times> insys) res" where
  "input_locked f s =
     bindR (spinlock_acquire (input_lock s) (isch s)) (\<lambda>(l, c).
     bindR (f (s\<lparr>input_lock := l, isch := c\<rparr>)) (\<lambda>(x, s1).
     mapR (\<lambda>(l', c'). (x, s1\<lparr>input_lock := l', isch := c'\<rparr>)) (spinlock_release (input_lock s1) (isch s1))))"

definition control_alt :: "insys \<Rightarrow> bool" where
  "control_alt s \<longleftrightarrow> input_flags s AND INPUT_CONTROL_FLAG \<noteq> 0 \<and> input_flags s AND INPUT_ALT_FLAG \<noteq> 0"

definition append_key_event :: "u8 \<Rightarrow> insys \<Rightarrow> insys res" where
  "append_key_event key s =
     (if sysrq s then mapR (\<lambda>s'. s'\<lparr>sysrq := False\<rparr>) (sys_sysrq key s)
      else if key = 0x75 \<and> control_alt s then Inr (s\<lparr>sysrq := True\<rparr>)
      else if key \<ge> 0x6A \<and> key \<le> 0x71 \<and> control_alt s then sys_funckey key s
      else mapR snd (input_locked (\<lambda>s.
        let m = cbufm_write (cbufm_write (kb s) [input_flags s]) [key]
        in mapR (\<lambda>(e, c). ((), s\<lparr>kb := m, input_event := e, isch := c\<rparr>)) (event_trigger_all (input_event s) (isch s))) s))"

definition modifier :: "u8 \<Rightarrow> u8" where
  "modifier key =
     (if key = 0x0E \<or> key = 0x0F then INPUT_SHIFT_FLAG
      else if key = 0x17 then INPUT_ALT_FLAG
      else if key = 0x18 then INPUT_ALT_FLAG OR INPUT_CONTROL_FLAG
      else if key = 0x15 \<or> key = 0x1B then INPUT_CONTROL_FLAG else 0)"

definition input_kb_press :: "u8 \<Rightarrow> insys \<Rightarrow> insys res" where
  "input_kb_press key s =
     (if modifier key \<noteq> 0 then Inr (s\<lparr>input_flags := input_flags s OR modifier key\<rparr>)
      else bindR (nthR (pressed_keys s) (unat key)) (\<lambda>p.
           mapR (\<lambda>s'. s'\<lparr>prscnt := 0, pressed_keys := (pressed_keys s')[unat key := True]\<rparr>)
             (if p then Inr s else append_key_event key s)))"

definition input_kb_release :: "u8 \<Rightarrow> insys \<Rightarrow> insys res" where
  "input_kb_release key s =
     (if modifier key \<noteq> 0 then Inr (s\<lparr>input_flags := input_flags s AND NOT (modifier key)\<rparr>)
      else mapR (\<lambda>p. s\<lparr>prscnt := 0, pressed_keys := p\<rparr>) (updR (pressed_keys s) (unat key) False))"

text \<open>A round of \<open>input_loop\<close> after its sleep: keys that are held are repeated.\<close>

fun repeat_keys :: "nat list \<Rightarrow> insys \<Rightarrow> insys res" where
  "repeat_keys [] s = Inr s"
| "repeat_keys (i # is) s =
     bindR (nthR (pressed_keys s) i) (\<lambda>p.
     bindR (if p then append_key_event (word_of_nat i) s else Inr s) (repeat_keys is))"

definition input_loop :: "insys \<Rightarrow> insys res" where
  "input_loop s =
     (let s1 = s\<lparr>prscnt := prscnt s + 1\<rparr>
      in if prscnt s1 < 10 then Inr s1 else repeat_keys [0..<256] s1)"

definition input_fetch_keymap :: "bytes \<Rightarrow> bytes res" where
  "input_fetch_keymap keymap = (if length keymap < 1024 then Inl OutOfBounds else Inr (blit keymap 0 def_keymap))"

text \<open>The results are the new position, the key and the modifiers.\<close>

definition kb_get :: "nat \<Rightarrow> u8 \<Rightarrow> cbufm \<Rightarrow> (nat \<times> u16 \<times> u8) res" where
  "kb_get lastp mods m =
     (if cbufm_available m lastp < 2 then Inr (lastp, 0, mods)
      else case cbufm_read m lastp 1 of
        (b, _, rem) \<Rightarrow> if rem \<noteq> 0 then Inl Hang
          else case cbufm_read m (lastp + 1) 1 of
            (b', pos, rem') \<Rightarrow> if rem' \<noteq> 0 then Inl Hang else Inr (pos, ucast (hd b'), hd b))"

definition input_kb_get :: "nat \<Rightarrow> u8 \<Rightarrow> insys \<Rightarrow> ((nat \<times> u16 \<times> u8) \<times> insys) res" where
  "input_kb_get lastp mods = input_locked (\<lambda>s. mapR (\<lambda>x. (x, s)) (kb_get lastp mods (kb s)))"

definition input_kb_available :: "nat \<Rightarrow> insys \<Rightarrow> (nat \<times> insys) res" where
  "input_kb_available lastp = input_locked (\<lambda>s. Inr (cbufm_available (kb s) lastp div 2, s))"

definition input_kb_sync :: "insys \<Rightarrow> nat" where
  "input_kb_sync s = cbufm_sync (kb s)"

text \<open>\<open>input_init\<close> with the memory of the buffer; the mouse buffer is never used.\<close>

definition input_init :: "bytes \<Rightarrow> insys \<Rightarrow> insys" where
  "input_init mem s = s\<lparr>kb := cbufm_create 512 mem\<rparr>"

lemma length_def_keymap: "length def_keymap = 1024"
  by (simp add: def_keymap_def Let_def)


section \<open>Positions in the buffer\<close>

definition kb_ok :: "cbufm \<Rightarrow> bool" where
  "kb_ok m \<longleftrightarrow> cbufm_ok m \<and> even (m_size m) \<and> even (m_write_ptr m)"

lemma write_pair_ok:
  assumes "kb_ok m"
  shows "kb_ok (cbufm_write (cbufm_write m [a]) [b])" and "m_size (cbufm_write (cbufm_write m [a]) [b]) = m_size m"
proof -
  have ok: "cbufm_ok m" "cbufm_ok (cbufm_write m [a])" "cbufm_ok (cbufm_write (cbufm_write m [a]) [b])"
    using assms cbufm_write_ok by (auto simp: kb_ok_def)
  have ne: "m_write_ptr m + 1 \<noteq> m_size m" using assms unfolding kb_ok_def by (metis even_plus_one_iff)
  show sz: "m_size (cbufm_write (cbufm_write m [a]) [b]) = m_size m"
    using cbufm_write_single [OF ok(1)] cbufm_write_single [OF ok(2)] by simp
  have "even (m_write_ptr (cbufm_write (cbufm_write m [a]) [b]))"
    using assms ne cbufm_write_single [OF ok(1), of a] cbufm_write_single [OF ok(2), of b] by (simp add: kb_ok_def)
  then show "kb_ok (cbufm_write (cbufm_write m [a]) [b])" using ok(3) sz assms by (simp add: kb_ok_def)
qed

lemma write_pair_unread:
  assumes "kb_ok m" and "p < m_size m" and "length (unread m p) + 2 < m_size m"
  shows "unread (cbufm_write (cbufm_write m [a]) [b]) p = unread m p @ [a, b]"
proof -
  have ok: "cbufm_ok m" "cbufm_ok (cbufm_write m [a])" "m_size (cbufm_write m [a]) = m_size m"
    using assms cbufm_write_ok by (auto simp: kb_ok_def)
  have u: "unread (cbufm_write m [a]) p = unread m p @ [a]" using cbufm_write_unread [OF ok(1) assms(2), of "[a]"] assms(3) by simp
  then show ?thesis using cbufm_write_unread [OF ok(2), of p "[b]"] assms(2,3) ok(3) by simp
qed

section \<open>Runs of the operations\<close>

definition calm :: "insys \<Rightarrow> bool" where
  "calm s \<longleftrightarrow> \<not> input_lock s \<and> unlocked (isch s) \<and> event_idle (input_event s)"

text \<open>An operation under the lock that changes the scheduler at most in its threads.\<close>

lemma input_locked_run:
  assumes "calm s"
    and "\<And>c. deep c \<Longrightarrow> threads c = threads (isch s) \<Longrightarrow>
      f (s\<lparr>input_lock := True, isch := c\<rparr>) = Inr (x, s1\<lparr>input_lock := True, isch := c\<lparr>threads := ts\<rparr>\<rparr>)"
  shows "\<exists>c. input_locked f s = Inr (x, s1\<lparr>input_lock := False, isch := c\<rparr>) \<and> unlocked c \<and> threads c = ts \<and> cpu c = cpu (isch s)"
proof -
  let ?c = "(isch s)\<lparr>cpu := (cpu (isch s))\<lparr>reshed_block := 1\<rparr>\<rparr>"
  have u: "sheduler_ready (isch s)" "reshed_block (cpu (isch s)) = 0" "\<not> sheduler_lock (isch s)" "input_lock s = False"
    using assms(1) by (simp_all add: calm_def unlocked_def)
  have a: "spinlock_acquire (input_lock s) (isch s) = Inr (True, ?c)" using u by simp
  have d: "deep ?c" using u by (simp add: deep_def)
  let ?c3 = "?c\<lparr>threads := ts, cpu := (cpu ?c)\<lparr>reshed_block := 0\<rparr>, resched := resched (isch s) \<or> should_reshed (cpu (isch s))\<rparr>"
  have r: "spinlock_release True (?c\<lparr>threads := ts\<rparr>) = Inr (False, ?c3)"
    using release_last [of "?c\<lparr>threads := ts\<rparr>" True] u by simp
  have "input_locked f s = Inr (x, s1\<lparr>input_lock := False, isch := ?c3\<rparr>)"
    using a assms(2) [OF d] r by (simp add: input_locked_def)
  moreover have "(cpu (isch s))\<lparr>reshed_block := 0\<rparr> = cpu (isch s)" using u(2) by (cases "cpu (isch s)") simp
  ultimately show ?thesis using u by (intro exI [of _ ?c3]) (simp add: unlocked_def)
qed

lemma append_key_event_run:
  assumes "calm s" and "\<not> sysrq s" and "\<not> control_alt s"
  shows "\<exists>e c. append_key_event key s = Inr (s\<lparr>kb := cbufm_write (cbufm_write (kb s) [input_flags s]) [key], input_event := e,
      input_lock := False, isch := c\<rparr>) \<and> event_idle e \<and> entries (wait_queue e) = [] \<and> unlocked c \<and>
    (\<forall>t. thread_at c t = map_option (woken (set (entries (wait_queue (input_event s)))) t) (thread_at (isch s) t))"
proof -
  let ?m = "cbufm_write (cbufm_write (kb s) [input_flags s]) [key]"
  let ?c = "(isch s)\<lparr>cpu := (cpu (isch s))\<lparr>reshed_block := 1\<rparr>\<rparr>"
  have u: "sheduler_ready (isch s)" "reshed_block (cpu (isch s)) = 0" "\<not> sheduler_lock (isch s)" "input_lock s = False" "event_idle (input_event s)"
    using assms(1) by (simp_all add: calm_def unlocked_def)
  have d: "deep ?c" using u by (simp add: deep_def)
  obtain e c1 where t: "event_trigger_all (input_event s) ?c = Inr (e, c1)" "event_idle e" "entries (wait_queue e) = []" "same_but_threads ?c c1"
      "\<forall>t. thread_at c1 t = map_option (woken (set (entries (wait_queue (input_event s)))) t) (thread_at ?c t)"
    using event_trigger_all_deep [OF d u(5)] by blast
  note sb = same_but_threads_simps [OF t(4)]
  let ?c3 = "c1\<lparr>cpu := (cpu c1)\<lparr>reshed_block := 0\<rparr>, resched := resched c1 \<or> should_reshed (cpu c1)\<rparr>"
  have r: "spinlock_release True c1 = Inr (False, ?c3)" using release_last [of c1 True] sb u by simp
  have a: "spinlock_acquire (input_lock s) (isch s) = Inr (True, ?c)" using u by simp
  have "append_key_event key s = Inr (s\<lparr>kb := ?m, input_event := e, input_lock := False, isch := ?c3\<rparr>)"
    using assms(2,3) a t(1) r by (simp add: append_key_event_def input_locked_def Let_def)
  moreover have "unlocked ?c3" using sb u by (simp add: unlocked_def)
  moreover have "thread_at ?c3 = thread_at c1" "thread_at ?c = thread_at (isch s)" by (rule thread_at_cong, simp)+
  ultimately show ?thesis using t(2,3,5) by (intro exI [of _ e] exI [of _ ?c3]) simp
qed

lemma input_locked_look:
  assumes "calm s" and "g (kb s) = Inr x"
  shows "\<exists>c. input_locked (\<lambda>s. mapR (\<lambda>x. (x, s)) (g (kb s))) s = Inr (x, s\<lparr>input_lock := False, isch := c\<rparr>) \<and> unlocked c \<and> threads c = threads (isch s) \<and> cpu c = cpu (isch s)"
proof -
  have t: "c\<lparr>threads := threads (isch s)\<rparr> = c" if "threads c = threads (isch s)" for c :: sched using that by (cases c) simp
  show ?thesis
    using input_locked_run [OF assms(1), where f = "\<lambda>s. mapR (\<lambda>x. (x, s)) (g (kb s))" and x = x and ?s1.0 = s and ts = "threads (isch s)"]
      assms(2) t by auto
qed

lemma kb_get_run:
  assumes "kb_ok m" and "p < m_size m" and "even p" and "unread m p = f # k # rest"
  obtains q where "\<And>mods. kb_get p mods m = Inr (q, ucast k, f)" and "q < m_size m" and "even q" and "unread m q = rest"
proof -
  have ok: "cbufm_ok m" "even (m_size m)" using assms(1) by (simp_all add: kb_ok_def)
  have p1: "p + 1 \<noteq> m_size m" "p + 1 < m_size m"
    using assms(2,3) ok(2) by (metis even_plus_one_iff, metis Suc_eq_plus1 Suc_lessI even_plus_one_iff)
  note r1 = read_one [OF ok(1) assms(2,4)]
  have u1: "unread m (p + 1) = k # rest" using r1(2) p1(1) by simp
  note r2 = read_one [OF ok(1) p1(2) u1]
  let ?q = "if p + 1 + 1 = m_size m then 0 else p + 1 + 1"
  have av: "\<not> cbufm_available m p < 2"
    using assms(4) length_contents [of "seen m p"] by (simp add: cbufm_available_seen unread_def)
  have "?q < m_size m" "even ?q" using p1 assms(3) ok by (auto simp: cbufm_ok_def)
  moreover have "kb_get p mods m = Inr (?q, ucast k, f)" for mods using av r1(1) r2(1) p1(1) by (simp add: kb_get_def)
  ultimately show thesis using r2(2) that by blast
qed

lemma kb_get_none: "unread m p = [] \<Longrightarrow> kb_get p mods m = Inr (p, 0, mods)"
  using length_contents [of "seen m p"] by (simp add: cbufm_available_seen unread_def kb_get_def)

lemma input_kb_get_run:
  assumes "calm s" and "kb_get p mods (kb s) = Inr x"
  shows "\<exists>c. input_kb_get p mods s = Inr (x, s\<lparr>input_lock := False, isch := c\<rparr>) \<and> unlocked c \<and> threads c = threads (isch s) \<and> cpu c = cpu (isch s)"
  unfolding input_kb_get_def by (rule input_locked_look [where g = "kb_get p mods", OF assms])

section \<open>Keys pressed one after the other\<close>

fun press_all :: "u8 list \<Rightarrow> insys \<Rightarrow> insys res" where
  "press_all [] s = Inr s"
| "press_all (k # ks) s = bindR (input_kb_press k s) (press_all ks)"

text \<open>Reading keys until there is none, with their modifiers.\<close>

fun get_keys :: "nat \<Rightarrow> nat \<Rightarrow> insys \<Rightarrow> ((u16 \<times> u8) list \<times> nat \<times> insys) res" where
  "get_keys 0 p s = Inr ([], p, s)"
| "get_keys (Suc n) p s =
     bindR (input_kb_get p 0 s) (\<lambda>((q, k, m), s1). mapR (\<lambda>(l, r). ((k, m) # l, r)) (get_keys n q s1))"

lemma press_one:
  assumes "calm s" and "kb_ok (kb s)" and "\<not> sysrq s" and "\<not> control_alt s" and "length (pressed_keys s) = 256"
    and "modifier k = 0" and "\<not> pressed_keys s ! unat k" and "p < m_size (kb s)" and "length (unread (kb s) p) + 2 < m_size (kb s)"
  obtains s1 where "input_kb_press k s = Inr s1" and "calm s1" and "kb_ok (kb s1)" and "\<not> sysrq s1" and "\<not> control_alt s1"
    and "pressed_keys s1 = (pressed_keys s)[unat k := True]" and "input_flags s1 = input_flags s" and "m_size (kb s1) = m_size (kb s)"
    and "unread (kb s1) p = unread (kb s) p @ [input_flags s, k]"
proof -
  let ?m = "cbufm_write (cbufm_write (kb s) [input_flags s]) [k]"
  obtain e c where a: "append_key_event k s = Inr (s\<lparr>kb := ?m, input_event := e, input_lock := False, isch := c\<rparr>)" "event_idle e" "unlocked c"
    using append_key_event_run [OF assms(1,3,4), of k] by blast
  have kl: "unat k < length (pressed_keys s)" using unat_u8_less [of k] assms(5) by simp
  define s1 where "s1 = s\<lparr>kb := ?m, input_event := e, input_lock := False, isch := c, prscnt := 0, pressed_keys := (pressed_keys s)[unat k := True]\<rparr>"
  have p1: "input_kb_press k s = Inr s1" using a(1) assms(6,7) kl by (simp add: input_kb_press_def s1_def)
  have c1: "calm s1" "\<not> sysrq s1" "\<not> control_alt s1" "kb s1 = ?m" using a assms by (simp_all add: calm_def s1_def control_alt_def)
  show ?thesis using p1 c1 write_pair_ok [OF assms(2), of "input_flags s" k] write_pair_unread [OF assms(2,8,9)]
    by (intro that [of s1]) (simp_all add: s1_def)
qed

lemma press_all_run:
  assumes "calm s" and "kb_ok (kb s)" and "\<not> sysrq s" and "\<not> control_alt s" and "length (pressed_keys s) = 256"
    and "distinct ks" and "\<forall>k \<in> set ks. modifier k = 0 \<and> \<not> pressed_keys s ! unat k"
    and "p < m_size (kb s)" and "length (unread (kb s) p) + 2 * length ks < m_size (kb s)"
  shows "\<exists>s'. press_all ks s = Inr s' \<and> calm s' \<and> kb_ok (kb s') \<and> m_size (kb s') = m_size (kb s) \<and> input_flags s' = input_flags s \<and>
    unread (kb s') p = unread (kb s) p @ concat (map (\<lambda>k. [input_flags s, k]) ks)"
  using assms
proof (induction ks arbitrary: s)
  case (Cons k ks)
  obtain s1 where s1: "input_kb_press k s = Inr s1" "calm s1" "kb_ok (kb s1)" "\<not> sysrq s1" "\<not> control_alt s1"
      "pressed_keys s1 = (pressed_keys s)[unat k := True]" "input_flags s1 = input_flags s" "m_size (kb s1) = m_size (kb s)"
      "unread (kb s1) p = unread (kb s) p @ [input_flags s, k]"
  proof (rule press_one [OF Cons.prems(1-5) _ _ Cons.prems(8)])
    show "modifier k = 0" "\<not> pressed_keys s ! unat k" "length (unread (kb s) p) + 2 < m_size (kb s)" using Cons.prems(7,9) by simp_all
  qed (rule that)
  have fresh: "\<forall>j \<in> set ks. modifier j = 0 \<and> \<not> pressed_keys s1 ! unat j"
  proof
    fix j assume j: "j \<in> set ks"
    then have "unat k \<noteq> unat j" using Cons.prems(6) by (auto simp: word_unat_eq_iff [symmetric])
    then show "modifier j = 0 \<and> \<not> pressed_keys s1 ! unat j" using j Cons.prems(7) by (simp add: s1(6))
  qed
  obtain s' where "press_all ks s1 = Inr s'" "calm s'" "kb_ok (kb s')" "m_size (kb s') = m_size (kb s)" "input_flags s' = input_flags s"
      "unread (kb s') p = unread (kb s1) p @ concat (map (\<lambda>k. [input_flags s, k]) ks)"
    using Cons.IH [OF s1(2-5) _ _ fresh] s1(6-9) Cons.prems(5,6,8,9) by auto
  then show ?case using s1(1,9) by simp
qed simp

lemma get_keys_run:
  assumes "calm s" and "kb_ok (kb s)" and "p < m_size (kb s)" and "even p" and "unread (kb s) p = concat (map (\<lambda>(k, f). [f, k]) ks)"
  shows "\<exists>q s'. get_keys (length ks) p s = Inr (map (\<lambda>(k, f). (ucast k, f)) ks, q, s') \<and> calm s' \<and> kb s' = kb s \<and> unread (kb s) q = [] \<and>
    q < m_size (kb s)"
  using assms
proof (induction ks arbitrary: s p)
  case (Cons kf ks)
  obtain k f where kf: "kf = (k, f)" by fastforce
  obtain q where q: "\<And>mods. kb_get p mods (kb s) = Inr (q, ucast k, f)" "q < m_size (kb s)" "even q" "unread (kb s) q = concat (map (\<lambda>(k, f). [f, k]) ks)"
    using kb_get_run [OF Cons.prems(2-4), of f k "concat (map (\<lambda>(k, f). [f, k]) ks)"] Cons.prems(5) kf by auto
  obtain c where c: "input_kb_get p 0 s = Inr ((q, ucast k, f), s\<lparr>input_lock := False, isch := c\<rparr>)" "unlocked c"
    using input_kb_get_run [OF Cons.prems(1) q(1)] by blast
  let ?s = "s\<lparr>input_lock := False, isch := c\<rparr>"
  have "calm ?s" using c(2) Cons.prems(1) by (simp add: calm_def)
  then obtain q' s' where "get_keys (length ks) q ?s = Inr (map (\<lambda>(k, f). (ucast k, f)) ks, q', s')" "calm s'" "kb s' = kb s" "unread (kb s) q' = []"
      "q' < m_size (kb s)"
    using Cons.IH [of ?s q] Cons.prems(2) q(2-4) by auto
  then show ?case using c(1) kf by simp
qed simp

lemma all_read_sync:
  assumes "cbufm_ok m" and "q < m_size m" and "unread m q = []"
  shows "q = cbufm_sync m"
proof -
  have "cbufm_available m q = 0" using assms(3) length_contents [of "seen m q"] by (simp add: cbufm_available_seen unread_def)
  then show ?thesis using assms(1,2) by (auto simp: cbufm_available_def cbufm_sync_def cbufm_ok_def split: if_splits)
qed

lemma fresh_position:
  "unread (kb s) (input_kb_sync s) = []" "kb_ok (kb s) \<Longrightarrow> input_kb_sync s < m_size (kb s)" "kb_ok (kb s) \<Longrightarrow> even (input_kb_sync s)"
  by (simp_all add: unread_def contents_def seen_def input_kb_sync_def cbufm_sync_def cbuf_available_def kb_ok_def cbufm_ok_def)

text \<open>A reader gets all keys in the buffer, and then there is none left.\<close>

lemma read_all_keys:
  assumes "calm s" and "kb_ok (kb s)" and "p < m_size (kb s)" and "even p" and "unread (kb s) p = concat (map (\<lambda>(k, f). [f, k]) ks)"
  shows "\<exists>s'. get_keys (length ks) p s = Inr (map (\<lambda>(k, f). (ucast k, f)) ks, input_kb_sync s, s') \<and>
    kb_get (input_kb_sync s) 0 (kb s') = Inr (input_kb_sync s, 0, 0)"
proof -
  obtain q s' where q: "get_keys (length ks) p s = Inr (map (\<lambda>(k, f). (ucast k, f)) ks, q, s')" "kb s' = kb s" "unread (kb s) q = []" "q < m_size (kb s)"
    using get_keys_run [OF assms] by blast
  have "q = input_kb_sync s" using all_read_sync [OF _ q(4,3)] assms(2) by (simp add: kb_ok_def input_kb_sync_def)
  then show ?thesis using q kb_get_none by auto
qed

section \<open>Properties\<close>

text \<open>
  A reader of the keyboard gets every key that was pressed after it took its position, in order and
  with the modifiers that were held, as long as they fit into the buffer, and then there is none left.
\<close>

theorem keys_delivered:
  assumes "calm s" and "kb_ok (kb s)" and "\<not> sysrq s" and "\<not> control_alt s" and "length (pressed_keys s) = 256"
    and "distinct ks" and "\<forall>k \<in> set ks. modifier k = 0 \<and> \<not> pressed_keys s ! unat k" and "2 * length ks < m_size (kb s)"
  shows "\<exists>s' s''. press_all ks s = Inr s' \<and>
    get_keys (length ks) (input_kb_sync s) s' = Inr (map (\<lambda>k. (ucast k, input_flags s)) ks, input_kb_sync s', s'') \<and>
    kb_get (input_kb_sync s') 0 (kb s'') = Inr (input_kb_sync s', 0, 0)"
proof -
  let ?p = "input_kb_sync s"
  let ?kf = "map (\<lambda>k. (k, input_flags s)) ks"
  note f = fresh_position [of s]
  obtain s' where s': "press_all ks s = Inr s'" "calm s'" "kb_ok (kb s')" "m_size (kb s') = m_size (kb s)"
      "unread (kb s') ?p = concat (map (\<lambda>k. [input_flags s, k]) ks)"
    using press_all_run [OF assms(1-7) f(2) [OF assms(2)]] f(1) assms(8) by auto
  have u: "unread (kb s') ?p = concat (map (\<lambda>(k, f). [f, k]) ?kf)" using s'(5) by (simp add: comp_def)
  obtain s'' where "get_keys (length ?kf) ?p s' = Inr (map (\<lambda>(k, f). (ucast k, f)) ?kf, input_kb_sync s', s'')"
      "kb_get (input_kb_sync s') 0 (kb s'') = Inr (input_kb_sync s', 0, 0)"
    using read_all_keys [OF s'(2,3) _ _ u] f(2,3) assms(2) s'(4) by auto
  then show ?thesis using s'(1) by (intro exI [of _ s'] exI [of _ s'']) (simp add: comp_def)
qed

definition quiet_input :: insys where
  "quiet_input = \<lparr>kb = cbufm_create 8 (replicate 8 0), pressed_keys = replicate 256 False, prscnt = 0, input_flags = 1, sysrq = False,
     input_event = \<lparr>ev_lock = False, counter = 0, wait_queue = \<lparr>entries = [], tq_lock = False\<rparr>\<rparr>, input_lock = False,
     con = small_console, isch = two_threads, shutdown_func = False, shutting_down = False\<rparr>"

theorem keys_delivered_witness:
  "\<exists>s' s''. press_all [0x41, 0x42, 0x43] quiet_input = Inr s' \<and>
     get_keys 3 (input_kb_sync quiet_input) s' = Inr ([(0x41, 1), (0x42, 1), (0x43, 1)], input_kb_sync s', s'')"
  using keys_delivered [of quiet_input "[0x41, 0x42, 0x43]"] two_threads_ok(2)
  by (auto simp: quiet_input_def calm_def event_idle_def kb_ok_def cbufm_ok_def cbufm_create_def control_alt_def INPUT_CONTROL_FLAG_def modifier_def
      numeral_3_eq_3)

end
