(* ===== verification/Ttyk.thy ===== *)
theory Ttyk
  imports Input
begin

text \<open>
  \<^verbatim>\<open>drv/ttyk/ttyk.c\<close>: the character devices of the terminals. Writing goes through a small
  automaton for escape sequences, reading takes keys from the keyboard queue for the file that was
  opened last. A file is known by its address. A part under \<open>ttyk_spinlock\<close> is one step.
\<close>

section \<open>State\<close>

record ttyk_queue =
  q_current :: "nat option"
  q_files :: "nat list"

record ttyksys =
  ins :: insys
  ttyk_queues :: "ttyk_queue list"
  ttyk_current_ptr :: nat
  keymap :: bytes
  esc_state :: nat
  esc_buffer :: bytes

definition on_con :: "(console \<Rightarrow> console res) \<Rightarrow> ttyksys \<Rightarrow> ttyksys res" where
  "on_con f s = mapR (\<lambda>c. s\<lparr>ins := (ins s)\<lparr>con := c\<rparr>\<rparr>) (f (con (ins s)))"

section \<open>Open files\<close>

definition append_file :: "nat \<Rightarrow> ttyk_queue \<Rightarrow> ttyk_queue" where
  "append_file file q = q\<lparr>q_current := Some file, q_files := q_files q @ [file]\<rparr>"

text \<open>The loop that moves the files behind the one that is removed; the last place keeps its value.\<close>

fun shift_files :: "nat \<Rightarrow> bool \<Rightarrow> nat list \<Rightarrow> bool \<times> nat list" where
  "shift_files file found [] = (found, [])"
| "shift_files file found [x] = (found \<or> x = file, [x])"
| "shift_files file found (x # y # fs) =
     (let found' = (found \<or> x = file)
      in case shift_files file found' (y # fs) of (r, l) \<Rightarrow> (r, (if found' then y else x) # l))"

text \<open>Without another file \<open>remove_file\<close> reads the place before the first.\<close>

definition remove_file :: "nat \<Rightarrow> ttyk_queue \<Rightarrow> ttyk_queue res" where
  "remove_file file q =
     (case shift_files file False (q_files q) of
        (False, _) \<Rightarrow> Inl (Panic ''failed to remove_file()'')
      | (True, l) \<Rightarrow>
          let l' = butlast l
          in if l' = [] then Inl OutOfBounds else Inr (q\<lparr>q_current := Some (last l'), q_files := l'\<rparr>))"

definition on_queue :: "int \<Rightarrow> (ttyk_queue \<Rightarrow> ttyk_queue res) \<Rightarrow> ttyksys \<Rightarrow> ttyksys res" where
  "on_queue i f s =
     (if i < 0 then Inl OutOfBounds
      else bindR (nthR (ttyk_queues s) (nat i)) (\<lambda>q.
           mapR (\<lambda>q'. s\<lparr>ttyk_queues := (ttyk_queues s)[nat i := q']\<rparr>) (f q)))"

definition ttyk_open :: "int \<Rightarrow> nat \<Rightarrow> ttyksys \<Rightarrow> (int \<times> ttyksys) res" where
  "ttyk_open i file s = mapR (Pair 0) (on_queue i (\<lambda>q. Inr (append_file file q)) s)"

definition ttyk_close :: "int \<Rightarrow> nat \<Rightarrow> ttyksys \<Rightarrow> ttyksys res" where
  "ttyk_close i file = on_queue i (remove_file file)"

section \<open>Reading\<close>

definition key_char :: "bytes \<Rightarrow> u16 \<Rightarrow> u8 \<Rightarrow> u8 res" where
  "key_char km k m =
     mapR (\<lambda>c. if c = 13 then 10 else c) (nthR km (unat (if m AND INPUT_SHIFT_FLAG \<noteq> 0 then k + 0x100 else k)))"

text \<open>The inner loop (the label \<open>again\<close>) takes keys until there is none, whatever the length of the buffer.\<close>

partial_function (option) take_keys :: "bytes \<Rightarrow> nat \<Rightarrow> u8 \<Rightarrow> insys \<Rightarrow> (bytes \<times> nat \<times> insys) res option" where
  "take_keys km p mods s =
     (case input_kb_get p mods s of
        Inl e \<Rightarrow> Some (Inl e)
      | Inr ((q, k, m), s1) \<Rightarrow>
          if k = 0 then Some (Inr ([], q, s1))
          else (case key_char km k m of
             Inl e \<Rightarrow> Some (Inl e)
           | Inr c \<Rightarrow> Option.bind (take_keys km q m s1) (\<lambda>r. Some (mapR (\<lambda>(l, x). (c # l, x)) r))))"

text \<open>
  What a call to read has come to: it returned, or it waits for keys with a number of bytes left. The
  bytes stored are those from the start of the buffer.
\<close>

datatype reading = Returned int bytes | Waiting int bytes

text \<open>The loop up to the wait, and after a thread that waited was woken.\<close>

definition ttyk_read :: "int \<Rightarrow> bytes \<Rightarrow> int \<Rightarrow> ttyksys \<Rightarrow> (reading \<times> ttyksys) res" where
  "ttyk_read len stored remaining s =
     (if remaining \<le> 0 then Inr (Returned len stored, s)
      else mapR (\<lambda>(r, e, c).
             (if r \<noteq> None then Returned (- EINTR) stored else Waiting remaining stored, s\<lparr>ins := (ins s)\<lparr>input_event := e, isch := c\<rparr>\<rparr>))
           (event_wait (input_event (ins s)) (isch (ins s))))"

definition ttyk_woken :: "int \<Rightarrow> nat \<Rightarrow> int \<Rightarrow> bytes \<Rightarrow> int \<Rightarrow> ttyksys \<Rightarrow> (reading \<times> ttyksys) res option" where
  "ttyk_woken i file len stored remaining s =
     (case event_resume (input_event (ins s)) (isch (ins s)) of
        Inl e \<Rightarrow> Some (Inl e)
      | Inr (r, e, c) \<Rightarrow>
          let s1 = s\<lparr>ins := (ins s)\<lparr>input_event := e, isch := c\<rparr>\<rparr>
          in if r \<noteq> 0 then Some (Inr (Returned (- EINTR) stored, s1))
             else let again = Some (bindR (task_tyield (isch (ins s1))) (\<lambda>c'. ttyk_read len stored remaining (s1\<lparr>ins := (ins s1)\<lparr>isch := c'\<rparr>\<rparr>)))
             in if i \<noteq> tty_current (con (ins s1)) then again
             else if i < 0 \<or> length (ttyk_queues s1) \<le> nat i then Some (Inl OutOfBounds)
             else if q_current (ttyk_queues s1 ! nat i) \<noteq> Some file then again
             else Option.bind (take_keys (keymap s1) (ttyk_current_ptr s1) 0 (ins s1)) (\<lambda>r.
                    Some (bindR r (\<lambda>(l, p, n). ttyk_read len (stored @ l) (remaining - int (length l)) (s1\<lparr>ins := n, ttyk_current_ptr := p\<rparr>)))))"

section \<open>Writing\<close>

text \<open>Storing an argument of a sequence: seven digits and the terminator fit, and six arguments.\<close>

definition flush_arg :: "bytes \<Rightarrow> u16 list \<Rightarrow> u16 list res" where
  "flush_arg digits args =
     (if digits = [] then Inr args
      else if 7 < length digits \<or> 6 \<le> length args then Inl OutOfBounds
      else mapR (\<lambda>v. args @ [ucast v]) (atoi (digits @ [0])))"

fun ansi_args :: "bytes \<Rightarrow> bytes \<Rightarrow> u16 list \<Rightarrow> u16 list res" where
  "ansi_args [] digits args = Inr args"
| "ansi_args [c] digits args = flush_arg digits args"
| "ansi_args (c # d # r) digits args =
     (if 58 \<le> sint c \<and> sint c \<le> 63 then bindR (flush_arg digits args) (ansi_args (d # r) [])
      else if 8 \<le> length digits then Inl OutOfBounds
      else ansi_args (d # r) (digits @ [c]) args)"

definition arg_at :: "u16 list \<Rightarrow> nat \<Rightarrow> u16" where
  "arg_at args k = (if k < length args then args ! k else 0)"

definition interpret_ansi :: "int \<Rightarrow> bytes \<Rightarrow> console \<Rightarrow> console res" where
  "interpret_ansi i buf c =
     bindR (ansi_args (tl buf) [] []) (\<lambda>args.
       if last buf = 109 then tty_set_color_ansi i (ucast (arg_at args 0)) c
       else if last buf = 74 then (if arg_at args 0 = 2 then tty_clear i c else Inr c)
       else if last buf = 72 then tty_set_cursor_pos i (int (unat (arg_at args 0)) - 1) (int (unat (arg_at args 1)) - 1) c
       else Inr c)"

definition put_esc :: "int \<Rightarrow> u8 \<Rightarrow> ttyksys \<Rightarrow> ttyksys res" where
  "put_esc i c s =
     (if esc_state s = 0 then
        (if c = 27 then Inr (s\<lparr>esc_state := 1\<rparr>) else on_con (tty_putchar i c) s)
      else if esc_state s = 1 then
        (if 64 \<le> sint c \<and> sint c \<le> 95 then Inr (s\<lparr>esc_state := 2, esc_buffer := esc_buffer s @ [c]\<rparr>) else Inr (s\<lparr>esc_state := 0\<rparr>))
      else
        (let b = esc_buffer s @ [c]
         in if 64 \<le> sint c \<and> sint c \<le> 126
            then on_con (interpret_ansi i b) (s\<lparr>esc_state := 0, esc_buffer := []\<rparr>)
            else if 22 < length b then Inr (s\<lparr>esc_state := 0, esc_buffer := []\<rparr>)
            else Inr (s\<lparr>esc_buffer := b\<rparr>)))"

fun put_all :: "int \<Rightarrow> bytes \<Rightarrow> ttyksys \<Rightarrow> ttyksys res" where
  "put_all i [] s = Inr s"
| "put_all i (c # cs) s = bindR (put_esc i c s) (put_all i cs)"

definition ttyk_write :: "int \<Rightarrow> bytes \<Rightarrow> ttyksys \<Rightarrow> (int \<times> ttyksys) res" where
  "ttyk_write i buf s = mapR (Pair (int (length buf))) (put_all i buf s)"

section \<open>Control\<close>

definition IOCTL_TTY_SIZE :: int where "IOCTL_TTY_SIZE = 0xA1"

definition le16 :: "int \<Rightarrow> bytes" where
  "le16 n = [word_of_int n, word_of_int (n div 256)]"

definition ttyk_ioctl :: "int \<Rightarrow> int \<Rightarrow> bytes \<Rightarrow> ttyksys \<Rightarrow> ((int \<times> bytes) \<times> ttyksys) res" where
  "ttyk_ioctl i code mem s =
     (if code = IOCTL_BYTES_AVAILABLE then
        (if length mem < 4 then Inl OutOfBounds
         else mapR (\<lambda>(n, x). ((0, blit mem 0 (le32 n)), s\<lparr>ins := x\<rparr>)) (input_kb_available (ttyk_current_ptr s) (ins s)))
      else if code = IOCTL_TTY_SIZE then
        (if length mem < 8 then Inl OutOfBounds
         else mapR (\<lambda>(w, h). ((0, blit mem 0 (le16 h @ le16 w @ le16 0 @ le16 0)), s)) (tty_get_size i (con (ins s))))
      else Inr ((- ENOSYS, mem), s))"

text \<open>The start of the driver; the registration of the devices is left out.\<close>

definition ttyk_init :: "ttyksys \<Rightarrow> ttyksys" where
  "ttyk_init s = s\<lparr>keymap := def_keymap, ttyk_queues := replicate TTY_AMOUNT \<lparr>q_current = None, q_files = []\<rparr>\<rparr>"

section \<open>Open files as a stack\<close>

lemma shift_files_last: "file \<notin> set l \<Longrightarrow> shift_files file False (l @ [file]) = (True, l @ [file])"
proof (induction l)
  case (Cons x l)
  then show ?case by (cases l) auto
qed simp

text \<open>Closing the file that was opened last gives the terminal back to the one before.\<close>

lemma open_close_file:
  assumes "file \<notin> set (q_files q)"
  shows "remove_file file (append_file file q) =
    (if q_files q = [] then Inl OutOfBounds else Inr (q\<lparr>q_current := Some (last (q_files q))\<rparr>))"
  using assms by (simp add: remove_file_def append_file_def shift_files_last Let_def)

section \<open>Reading keys\<close>

definition char_of_key :: "bytes \<Rightarrow> u8 \<times> u8 \<Rightarrow> u8" where
  "char_of_key km kf =
     (let c = km ! (unat (fst kf) + (if snd kf AND INPUT_SHIFT_FLAG \<noteq> 0 then 256 else 0)) in if c = 13 then 10 else c)"

lemma unat_ucast_key: "unat (ucast (k :: u8) :: u16) = unat k"
  using unat_u8_less [of k] by (simp add: unsigned_ucast_eq take_bit_nat_eq_self)

lemma key_char_run:
  assumes "512 \<le> length km"
  shows "key_char km (ucast (k :: u8)) m = Inr (char_of_key km (k, m))"
proof -
  note u = unat_ucast_key [of k]
  have k: "unat k < 256" by (rule unat_u8_less)
  have "unat ((ucast k :: u16) + 0x100) = unat k + 256" using k u by (simp add: unat_plus_if_size word_size)
  then show ?thesis using assms k u by (simp add: key_char_def char_of_key_def Let_def)
qed

lemma ucast_key_zero: "(ucast (k :: u8) :: u16) = 0 \<longleftrightarrow> k = 0"
  using unat_ucast_key [of k] by (metis unat_eq_zero)

lemma take_keys_run:
  assumes "calm s" and "kb_ok (kb s)" and "p < m_size (kb s)" and "even p" and "unread (kb s) p = concat (map (\<lambda>(k, f). [f, k]) ks)"
    and "\<forall>kf \<in> set ks. fst kf \<noteq> 0" and "512 \<le> length km"
  shows "\<exists>q c. take_keys km p mods s = Some (Inr (map (char_of_key km) ks, q, s\<lparr>input_lock := False, isch := c\<rparr>)) \<and> unlocked c \<and>
    threads c = threads (isch s) \<and> cpu c = cpu (isch s) \<and> q < m_size (kb s) \<and> even q \<and> unread (kb s) q = []"
  using assms
proof (induction ks arbitrary: s p mods)
  case Nil
  have "kb_get p mods (kb s) = Inr (p, 0, mods)" using Nil.prems(5) kb_get_none by simp
  then obtain c where c: "input_kb_get p mods s = Inr ((p, 0, mods), s\<lparr>input_lock := False, isch := c\<rparr>)" "unlocked c" "threads c = threads (isch s)" "cpu c = cpu (isch s)"
    using input_kb_get_run [OF Nil.prems(1)] by blast
  then show ?case using Nil.prems by (subst take_keys.simps) (intro exI [of _ p] exI [of _ c], simp)
next
  case (Cons kf ks)
  obtain k f where kf: "kf = (k, f)" by fastforce
  obtain q where q: "\<And>mods. kb_get p mods (kb s) = Inr (q, ucast k, f)" "q < m_size (kb s)" "even q" "unread (kb s) q = concat (map (\<lambda>(k, f). [f, k]) ks)"
    using kb_get_run [OF Cons.prems(2-4), of f k "concat (map (\<lambda>(k, f). [f, k]) ks)"] Cons.prems(5) kf by auto
  obtain c where c: "input_kb_get p mods s = Inr ((q, ucast k, f), s\<lparr>input_lock := False, isch := c\<rparr>)" "unlocked c" "threads c = threads (isch s)" "cpu c = cpu (isch s)"
    using input_kb_get_run [OF Cons.prems(1) q(1)] by blast
  let ?s = "s\<lparr>input_lock := False, isch := c\<rparr>"
  have "calm ?s" using c(2) Cons.prems(1) by (simp add: calm_def)
  then obtain q' c' where r: "take_keys km q f ?s = Some (Inr (map (char_of_key km) ks, q', ?s\<lparr>input_lock := False, isch := c'\<rparr>))" "unlocked c'"
      "threads c' = threads (isch s)" "cpu c' = cpu (isch s)" "q' < m_size (kb s)" "even q'" "unread (kb s) q' = []"
    using Cons.IH [of ?s q f] Cons.prems(2,6,7) q(2-4) c(3,4) by auto
  have k0: "(ucast k :: u16) \<noteq> 0" using Cons.prems(6) kf by (simp add: ucast_key_zero)
  show ?case using c(1) r k0 kf key_char_run [OF Cons.prems(7), of k f]
    by (subst take_keys.simps) (intro exI [of _ q'] exI [of _ c'], simp)
qed

lemma should_exit_unlocked:
  assumes "unlocked s" and "0 \<le> tid" and "thread_at s tid = Some th"
  shows "\<exists>c. task_tshould_exit tid s = Inr (abort th, c) \<and> unlocked c \<and> threads c = threads s \<and> cpu c = cpu s"
proof -
  let ?d = "s\<lparr>cpu := (cpu s)\<lparr>reshed_block := 1\<rparr>, sheduler_lock := True\<rparr>"
  have u: "sheduler_ready s" "reshed_block (cpu s) = 0" "sheduler_lock s = False" using assms(1) by (simp_all add: unlocked_def)
  have at: "thread_at ?d = thread_at s" by (rule thread_at_cong) simp
  have same: "put_thread ?d tid th = ?d" using assms(3) at by (intro put_thread_same) simp
  let ?c = "?d\<lparr>cpu := (cpu ?d)\<lparr>reshed_block := 0\<rparr>, resched := resched s \<or> should_reshed (cpu s)\<rparr>"
  have r: "spinlock_release True ?d = Inr (False, ?c)" using release_last [of ?d True] u by simp
  have "task_tshould_exit tid s = Inr (abort th, ?c\<lparr>sheduler_lock := False\<rparr>)"
    using u at same r assms(2,3) by (simp add: task_tshould_exit_def on_thread_def locked_def)
  moreover have "(cpu s)\<lparr>reshed_block := 0\<rparr> = cpu s" using u(2) by (cases "cpu s") simp
  ultimately show ?thesis using u by (intro exI [of _ "?c\<lparr>sheduler_lock := False\<rparr>"]) (simp add: unlocked_def)
qed

lemma event_resume_unlocked:
  assumes "unlocked s" and "0 \<le> current_tid (cpu s)" and "thread_at s (current_tid (cpu s)) = Some th" and "\<not> abort th"
  shows "\<exists>c. event_resume e s = Inr (0, e, c) \<and> unlocked c \<and> threads c = threads s \<and> cpu c = cpu s"
  using should_exit_unlocked [OF assms(1-3)] assms(4) by (auto simp: event_resume_def)



text \<open>A reader that was woken with keys in the queue.\<close>

definition can_read :: "int \<Rightarrow> nat \<Rightarrow> ttyksys \<Rightarrow> (u8 \<times> u8) list \<Rightarrow> bool" where
  "can_read i file s ks \<longleftrightarrow>
     calm (ins s) \<and> 0 \<le> current_tid (cpu (isch (ins s))) \<and>
     (\<exists>th. thread_at (isch (ins s)) (current_tid (cpu (isch (ins s)))) = Some th \<and> \<not> abort th) \<and>
     i = tty_current (con (ins s)) \<and> 0 \<le> i \<and> nat i < length (ttyk_queues s) \<and> q_current (ttyk_queues s ! nat i) = Some file \<and>
     512 \<le> length (keymap s) \<and> kb_ok (kb (ins s)) \<and> ttyk_current_ptr s < m_size (kb (ins s)) \<and> even (ttyk_current_ptr s) \<and>
     unread (kb (ins s)) (ttyk_current_ptr s) = concat (map (\<lambda>(k, f). [f, k]) ks) \<and> (\<forall>kf \<in> set ks. fst kf \<noteq> 0)"

lemma ttyk_woken_run:
  assumes "can_read i file s ks"
  shows "\<exists>r s'. ttyk_woken i file len stored remaining s = Some (Inr (r, s')) \<and>
    r = (if remaining \<le> int (length ks) then Returned len (stored @ map (char_of_key (keymap s)) ks)
         else Waiting (remaining - int (length ks)) (stored @ map (char_of_key (keymap s)) ks))"
proof -
  let ?n = "ins s" and ?tid = "current_tid (cpu (isch (ins s)))" and ?l = "map (char_of_key (keymap s)) ks"
  obtain th where th: "thread_at (isch ?n) ?tid = Some th" "\<not> abort th" "0 \<le> ?tid" and cm: "calm ?n" using assms by (auto simp: can_read_def)
  have ul: "unlocked (isch ?n)" "event_idle (input_event ?n)" using cm by (simp_all add: calm_def)
  obtain c where c: "event_resume (input_event ?n) (isch ?n) = Inr (0, input_event ?n, c)" "unlocked c" "threads c = threads (isch ?n)" "cpu c = cpu (isch ?n)"
    using event_resume_unlocked [OF ul(1) th(3,1,2)] by blast
  let ?m = "?n\<lparr>input_event := input_event ?n, isch := c\<rparr>"
  have k: "calm ?m" "kb_ok (kb ?m)" "ttyk_current_ptr s < m_size (kb ?m)" "even (ttyk_current_ptr s)"
      "unread (kb ?m) (ttyk_current_ptr s) = concat (map (\<lambda>(k, f). [f, k]) ks)" "\<forall>kf \<in> set ks. fst kf \<noteq> 0" "512 \<le> length (keymap s)"
    using assms c(2) cm by (simp_all add: can_read_def calm_def)
  obtain q c2 where t: "take_keys (keymap s) (ttyk_current_ptr s) 0 ?m = Some (Inr (?l, q, ?m\<lparr>input_lock := False, isch := c2\<rparr>))" "unlocked c2"
      "threads c2 = threads c" "cpu c2 = cpu c"
    using take_keys_run [OF k, of 0] by auto
  let ?s2 = "s\<lparr>ins := ?m\<lparr>input_lock := False, isch := c2\<rparr>, ttyk_current_ptr := q\<rparr>"
  have i: "i = tty_current (con ?n)" "\<not> i < 0" "\<not> length (ttyk_queues s) \<le> nat i" "q_current (ttyk_queues s ! nat i) = Some file"
    using assms by (auto simp: can_read_def)
  have e: "ttyk_woken i file len stored remaining s = Some (ttyk_read len (stored @ ?l) (remaining - int (length ks)) ?s2)"
    using c(1) t(1) i by (simp add: ttyk_woken_def Let_def)
  show ?thesis
  proof (cases "remaining \<le> int (length ks)")
    case True
    then show ?thesis using e by (simp add: ttyk_read_def)
  next
    case False
    have "thread_at c2 = thread_at (isch ?n)" using t(3) c(3) by (intro thread_at_cong) simp
    then obtain e' c' where "event_wait (input_event ?n) c2 = Inr (None, e', c')"
      using event_wait_blocks [OF t(2) ul(2), of th] th t(4) c(4) by auto
    then show ?thesis using e False by (simp add: ttyk_read_def)
  qed
qed

section \<open>Escape sequences\<close>

definition digit :: "u8 \<Rightarrow> bool" where
  "digit c \<longleftrightarrow> 48 \<le> sint c \<and> sint c \<le> 57"

text \<open>Digits are collected without an effect on the terminal.\<close>

lemma put_digits:
  assumes "\<forall>c \<in> set ds. digit c" and "esc_state s = 2" and "length (esc_buffer s) + length ds \<le> 22"
  shows "put_all i (ds @ r) s = put_all i r (s\<lparr>esc_buffer := esc_buffer s @ ds\<rparr>)"
  using assms
proof (induction ds arbitrary: s)
  case (Cons c ds)
  have "put_esc i c s = Inr (s\<lparr>esc_buffer := esc_buffer s @ [c]\<rparr>)"
    using Cons.prems by (simp add: put_esc_def digit_def Let_def)
  then show ?case using Cons.IH [of "s\<lparr>esc_buffer := esc_buffer s @ [c]\<rparr>"] Cons.prems by simp
qed simp

lemma ansi_args_digits:
  assumes "\<forall>c \<in> set ds. digit c"
  shows "ansi_args (ds @ [fin]) acc args =
    (if length acc + length ds \<le> 8 \<or> ds = [] then flush_arg (acc @ ds) args else Inl OutOfBounds)"
  using assms
proof (induction ds arbitrary: acc)
  case (Cons c ds)
  obtain d r where dr: "ds @ [fin] = d # r" by (cases ds) auto
  have "\<not> (58 \<le> sint c)" using Cons.prems by (simp add: digit_def)
  then have "ansi_args ((c # ds) @ [fin]) acc args = (if 8 \<le> length acc then Inl OutOfBounds else ansi_args (ds @ [fin]) (acc @ [c]) args)"
    using dr by simp
  then show ?case using Cons by (cases ds) auto
qed simp

text \<open>A sequence with one number, up to its last character.\<close>

lemma put_sequence:
  assumes "\<forall>c \<in> set ds. digit c" and "length ds \<le> 20" and "esc_state s = 0" and "esc_buffer s = []" and "64 \<le> sint fin" and "sint fin \<le> 126"
  shows "put_all i ([27, 91] @ ds @ [fin]) s = on_con (interpret_ansi i (91 # ds @ [fin])) s"
proof -
  let ?s = "s\<lparr>esc_state := 2, esc_buffer := [91]\<rparr>"
  have "put_all i ([27, 91] @ ds @ [fin]) s = put_all i (ds @ [fin]) ?s"
    using assms(3,4) by (simp add: put_esc_def)
  also have "\<dots> = put_all i [fin] (?s\<lparr>esc_buffer := 91 # ds\<rparr>)" using put_digits [OF assms(1), of ?s] assms(2) by simp
  also have "\<dots> = on_con (interpret_ansi i (91 # ds @ [fin])) (s\<lparr>esc_state := 0, esc_buffer := []\<rparr>)"
    using assms(5,6) by (simp add: put_esc_def Let_def bindR_def split: sum.split)
  also have "s\<lparr>esc_state := 0, esc_buffer := []\<rparr> = s" using assms(3,4) by (cases s) simp
  finally show ?thesis .
qed

lemma length_ntoa_loop: "0 \<le> v \<Longrightarrow> v < 10 ^ n \<Longrightarrow> 0 < n \<Longrightarrow> length (ntoa_loop v 10) \<le> n"
proof (induction n arbitrary: v)
  case (Suc n)
  show ?case
  proof (cases "v div 10 = 0")
    case True
    then show ?thesis using ntoa_loop_dec [OF Suc.prems(1)] by simp
  next
    case False
    have q: "0 \<le> v div 10" "v div 10 < 10 ^ n" using Suc.prems(1,2) by (simp_all add: pos_imp_zdiv_nonneg_iff)
    have "0 < n" using q False by (cases n) auto
    then have "length (ntoa_loop (v div 10) 10) \<le> n" using Suc.IH [OF q] by simp
    then show ?thesis using ntoa_loop_dec [OF Suc.prems(1)] False by simp
  qed
qed simp

lemma ntoa_digits: "0 \<le> v \<Longrightarrow> \<forall>c \<in> set (ntoa_loop v 10). digit c"
  using set_ntoa_loop_dec sint_digit unfolding digit_def by fastforce

text \<open>The number printed in decimal is the first argument of the sequence.\<close>

lemma printed_arg:
  "ansi_args (butlast (uhtoa w 10) @ [fin]) [] [] = Inr [w]"
proof -
  let ?ds = "rev (ntoa_loop (uint w) 10)"
  have ds: "butlast (uhtoa w 10) = ?ds" by (simp add: uhtoa_def UNTOA_COMMON_dec butlast_append)
  have "uint w < 2 ^ 16" using uint_lt2p [of w] by simp
  then have len: "length ?ds \<le> 5" using length_ntoa_loop [of "uint w" 5] by simp
  have dg: "\<forall>c \<in> set ?ds. digit c" using ntoa_digits [of "uint w"] by simp
  obtain c r where cr: "?ds = c # r" by (cases ?ds) auto
  have "c \<noteq> 45" using digit_nominus [of "uint w"] cr by (metis list.set_intros(1) set_rev uint_ge_0)
  then have "atoi (?ds @ [0]) = Inr (word_of_int (uint w))"
    using aton_loop_rev_digits [of "uint w", where 'a = 32] cr by (simp add: atoi_def ATON_COMMON_def)
  then have "flush_arg ?ds [] = Inr [ucast (word_of_int (uint w) :: u32)]" using len by (simp add: flush_arg_def)
  moreover have "ucast (word_of_int (uint w) :: u32) = w"
    by (rule bit_word_eqI) (simp add: bit_simps)
  ultimately show ?thesis using ansi_args_digits [OF dg, of fin "[]" "[]"] len unfolding ds by simp
qed

lemma tty_set_cursor_faults:
  assumes "console_ok c" and "0 \<le> i" and "nat i < length (ttys c)" and "tty_set_cursor_pos i (- 1) (- 1) c = Inr c'" and "plain ch"
  shows "tty_putchar i ch c' = Inl OutOfBounds"
proof -
  let ?t = "ttys c ! nat i"
  have f: "0 < size_x ?t" "0 < size_y ?t" "cursor_ok ?t" using assms(1,3) by (simp_all add: console_ok_def frame_ok_def)
  have t': "ttys c' ! nat i = ?t\<lparr>cursor_x := - 1, cursor_y := - 1\<rparr>" "nat i < length (ttys c')"
    using assms(2-4) f by (auto simp: tty_set_cursor_pos_def on_tty_def cursor_on_def Let_def cursor_ok_def split: if_splits)
  have "putchar_on ch cur (?t\<lparr>cursor_x := - 1, cursor_y := - 1\<rparr>) d h = Inl OutOfBounds" for cur d h
    using f assms(5) by (simp add: putchar_on_def wrap_def plain_def put_cell_def cursor_index_def)
  then show ?thesis using assms(2) t' by (simp add: tty_putchar_def on_tty_def)
qed

section \<open>Properties\<close>

text \<open>
  C33: A thread that waits for keys on the current terminal, with the file that was opened last, is given
  the characters of all keys that are queued, with shift applied and return as a line feed: it returns when
  they are at least as many as it asked for and waits for the rest otherwise. More of them than it asked for
  are all stored, behind the end of its buffer.
\<close>

theorem ttyk_reads_keys:
  assumes "can_read i file s ks"
  shows "\<exists>r s'. ttyk_woken i file len stored remaining s = Some (Inr (r, s')) \<and>
    r = (if remaining \<le> int (length ks) then Returned len (stored @ map (char_of_key (keymap s)) ks)
         else Waiting (remaining - int (length ks)) (stored @ map (char_of_key (keymap s)) ks))"
  by (rule ttyk_woken_run [OF assms])

definition tty_example :: ttyksys where
  "tty_example = \<lparr>ins = quiet_input\<lparr>kb := \<lparr>m_write_ptr = 4, m_size = 8, m_buffer = [0, 0x41, 1, 0x42, 0, 0, 0, 0]\<rparr>\<rparr>,
     ttyk_queues = [\<lparr>q_current = Some 7, q_files = [7]\<rparr>], ttyk_current_ptr = 0, keymap = def_keymap, esc_state = 0, esc_buffer = []\<rparr>"

lemma tty_example_reads: "can_read 0 7 tty_example [(0x41, 0), (0x42, 1)]"
proof -
  have u: "unread (kb (ins tty_example)) 0 = [0, 0x41, 1, 0x42]"
    by (simp add: tty_example_def quiet_input_def unread_def contents_def seen_def cbuf_available_def upt_rec)
  have c: "calm (ins tty_example)" using two_threads_ok(2) by (simp add: tty_example_def quiet_input_def calm_def event_idle_def)
  have t: "thread_at two_threads 1 = Some (some_thread_rec THREAD_STATUS_RUNNABLE True)" by (simp add: two_threads_at)
  have k: "kb_ok (kb (ins tty_example))" by (simp add: tty_example_def kb_ok_def cbufm_ok_def)
  show ?thesis unfolding can_read_def
    using u c t k length_def_keymap by (simp add: tty_example_def quiet_input_def small_console_def two_threads_def some_thread_rec_def)
qed

lemma example_chars: "map (char_of_key def_keymap) [(0x41, 0), (0x42, 1)] = bytes_of ''aB''"
  by code_simp

theorem ttyk_reads_keys_witness:
  "\<exists>s'. ttyk_woken 0 7 2 [] 2 tty_example = Some (Inr (Returned 2 (bytes_of ''aB''), s'))"
proof -
  have "keymap tty_example = def_keymap" by (simp add: tty_example_def)
  then show ?thesis using ttyk_reads_keys [OF tty_example_reads, of 2 "[]" 2] unfolding example_chars [symmetric] by simp
qed

text \<open>
  A number printed in decimal between the introduction of an escape sequence and the letter m is read
  back: writing the sequence to a terminal is setting the colour of that number, and nothing else.
\<close>

theorem ansi_color_roundtrip:
  assumes "esc_state s = 0" and "esc_buffer s = []"
  shows "ttyk_write i ([27, 91] @ butlast (uhtoa w 10) @ [109]) s =
    mapR (Pair (int (length (uhtoa w 10)) + 2)) (on_con (tty_set_color_ansi i (ucast w)) s)"
proof -
  let ?ds = "rev (ntoa_loop (uint w) 10)"
  have ds: "butlast (uhtoa w 10) = ?ds" "length (uhtoa w 10) = length ?ds + 1" by (simp_all add: uhtoa_def UNTOA_COMMON_dec butlast_append)
  have "uint w < 2 ^ 16" using uint_lt2p [of w] by simp
  then have len: "length ?ds \<le> 5" using length_ntoa_loop [of "uint w" 5] by simp
  have dg: "\<forall>c \<in> set ?ds. digit c" using ntoa_digits [of "uint w"] by simp
  have "put_all i ([27, 91] @ ?ds @ [109]) s = on_con (interpret_ansi i (91 # ?ds @ [109])) s"
    using len by (intro put_sequence [OF dg _ assms]) simp_all
  also have "interpret_ansi i (91 # ?ds @ [109]) = tty_set_color_ansi i (ucast w)"
    using printed_arg [of w 109] unfolding ds by (simp add: interpret_ansi_def arg_at_def fun_eq_iff)
  finally show ?thesis unfolding ttyk_write_def ds by (simp add: add.commute)
qed

theorem ansi_color_roundtrip_witness:
  "ttyk_write 0 ([27, 91] @ butlast (uhtoa 31 10) @ [109]) tty_example =
     mapR (Pair (int (length (uhtoa 31 10)) + 2)) (on_con (tty_set_color_ansi 0 (ucast (31 :: u16))) tty_example)"
  by (rule ansi_color_roundtrip) (simp_all add: tty_example_def)

text \<open>
  A number of more than seven digits in an escape sequence, which any program can write to a terminal,
  is stored behind the end of the array of eight characters on the stack of the kernel.
\<close>

theorem ansi_digits_overflow:
  assumes "esc_state s = 0" and "esc_buffer s = []" and "\<forall>c \<in> set ds. digit c" and "7 < length ds" and "length ds \<le> 20"
    and "64 \<le> sint fin" and "sint fin \<le> 126"
  shows "ttyk_write i ([27, 91] @ ds @ [fin]) s = Inl OutOfBounds"
proof -
  have "ansi_args (ds @ [fin]) [] [] = Inl OutOfBounds"
    using ansi_args_digits [OF assms(3), of fin "[]" "[]"] assms(4) by (auto simp: flush_arg_def)
  then show ?thesis using put_sequence [OF assms(3,5,1,2,6,7), of i] by (simp add: ttyk_write_def on_con_def interpret_ansi_def)
qed

theorem ansi_digits_overflow_witness:
  "ttyk_write 0 ([27, 91] @ [49, 50, 51, 52, 53, 54, 55, 56] @ [109]) tty_example = Inl OutOfBounds"
  by (rule ansi_digits_overflow) (simp_all add: tty_example_def digit_def)

lemma put_all_append: "put_all i (xs @ ys) s = bindR (put_all i xs s) (put_all i ys)"
proof (induction xs arbitrary: s)
  case (Cons c xs)
  show ?case by (cases "put_esc i c s") (simp_all add: Cons.IH)
qed simp

text \<open>
  Moving the cursor home by the sequence without numbers places it before the first cell, and the next
  printable character is stored before the start of the buffer.
\<close>

theorem cursor_home_faults:
  assumes "esc_state s = 0" and "esc_buffer s = []" and "console_ok (con (ins s))" and "0 \<le> i" and "nat i < length (ttys (con (ins s)))"
    and "plain ch" and "ch \<noteq> 27"
  shows "ttyk_write i [27, 91, 72, ch] s = Inl OutOfBounds"
proof -
  have h: "put_all i ([27, 91] @ [] @ [72]) s = on_con (interpret_ansi i [91, 72]) s"
    using put_sequence [OF _ _ assms(1,2), of "[]" 72 i] by simp
  have m: "interpret_ansi i [91, 72] = tty_set_cursor_pos i (- 1) (- 1)"
    by (simp add: interpret_ansi_def arg_at_def flush_arg_def fun_eq_iff)
  have e: "put_all i [27, 91, 72, ch] s = bindR (put_all i ([27, 91] @ [] @ [72]) s) (put_all i [ch])"
    using put_all_append [of i "[27, 91, 72]" "[ch]" s] by simp
  obtain c' where c': "tty_set_cursor_pos i (- 1) (- 1) (con (ins s)) = Inr c'"
    using assms(4,5) by (cases "tty_set_cursor_pos i (- 1) (- 1) (con (ins s))") (auto simp: tty_set_cursor_pos_def on_tty_def split: prod.splits)
  have f: "tty_putchar i ch c' = Inl OutOfBounds" by (rule tty_set_cursor_faults [OF assms(3-5) c' assms(6)])
  show ?thesis using h m c' f e assms(1,7) by (simp add: ttyk_write_def on_con_def put_esc_def)
qed

end
