(* ===== verification/Irq.thy ===== *)
theory Irq
  imports CBufM Process
begin

text \<open>
  \<^verbatim>\<open>sys/irq.c\<close>: an interrupt runs its immediate handlers and is queued in a ring of 8192 bytes;
  worker threads take the numbers from the ring and run the other handlers. Handlers are pointers
  to functions of drivers: a handler is a number here, and the argument \<open>run\<close> says what calling
  it does to the rest of the system. A chain of \<open>irq_func_t\<close> is the list of its handlers.

  A worker is interrupted, or loses the processor, between any two of the steps of
  \<open>irq_worker\<close> below; its place in the code is a \<open>worker_pc\<close>.
\<close>

section \<open>State\<close>

definition IRQ_WORKER_AMOUNT :: nat where "IRQ_WORKER_AMOUNT = 4"

definition IRQQ_SIZE :: nat where "IRQQ_SIZE = 8192"

record 'w irqsys =
  irqs :: "nat list list"
  irqs_imm :: "nat list list"
  irq_workers :: "int option list"
  irq_worker_spinlock :: bool
  irqq_lock :: bool
  irqq_buffer :: bytes
  irqq_write_ptr :: nat
  irq_worker_to_use :: nat
  irq_last :: nat
  qsch :: sched
  wstate :: 'w

section \<open>Locks of the interrupt code\<close>

text \<open>
  These locks do not keep the scheduler away. A call that finds the lock taken while nobody else
  runs reaches the limit of its loop.
\<close>

definition simplock_acquire :: "bool \<Rightarrow> bool res" where
  "simplock_acquire v = (if v then Inl (Panic ''simplock_acquire stuck for too long'') else Inr True)"

definition simplock_release :: "bool \<Rightarrow> bool" where
  "simplock_release v = False"

definition simplock_wait :: "bool \<Rightarrow> unit res" where
  "simplock_wait v = (if v then Inl (Panic ''simplock_wait stuck for too long'') else Inr ())"

section \<open>The ring\<close>

text \<open>A store through the pointer to a thread, which may be null.\<close>

definition set_status :: "int \<Rightarrow> thread_status \<Rightarrow> sched \<Rightarrow> sched res" where
  "set_status tid st s = bindR (thread_get s tid) (\<lambda>t. case t of
       None \<Rightarrow> Inl NullDeref
     | Some th \<Rightarrow> Inr (put_thread s tid (th\<lparr>status := st\<rparr>)))"

definition block_current :: "'w irqsys \<Rightarrow> 'w irqsys res" where
  "block_current s =
     bindR (set_status (current_tid (cpu (qsch s))) THREAD_STATUS_BLOCKED (qsch s)) (\<lambda>c.
     mapR (\<lambda>c'. s\<lparr>qsch := c'\<rparr>) (task_tyield c))"

text \<open>One round of \<open>irqq_read\<close>: the number and the new position, or nothing when the thread blocks.\<close>

definition irqq_read :: "nat \<Rightarrow> 'w irqsys \<Rightarrow> ((u8 \<times> nat) option \<times> 'w irqsys) res" where
  "irqq_read from_pos s =
     bindR (simplock_wait (irqq_lock s)) (\<lambda>_.
       let w_off = (if irqq_write_ptr s < from_pos then irqq_write_ptr s + IRQQ_SIZE else irqq_write_ptr s);
           possible = min (min (IRQQ_SIZE - from_pos) (w_off - from_pos)) 1
       in if possible = 0 then mapR (Pair None) (block_current s)
          else bindR (nthR (irqq_buffer s) from_pos) (\<lambda>irq.
            Inr (Some (irq, if from_pos + possible = IRQQ_SIZE then 0 else from_pos + possible), s)))"

text \<open>
  The loop of \<open>irqq_write\<close> stores one byte: at a position inside of the ring it advances by one
  and ends, at any other the store is outside of the buffer.
\<close>

definition irqq_write :: "u8 \<Rightarrow> 'w irqsys \<Rightarrow> 'w irqsys res" where
  "irqq_write irq s =
     bindR (simplock_acquire (irqq_lock s)) (\<lambda>l.
     bindR (updR (irqq_buffer s) (irqq_write_ptr s) irq) (\<lambda>b.
       let wp = irqq_write_ptr s + 1;
           n = (if irq_worker_to_use s \<ge> IRQ_WORKER_AMOUNT then 0 else irq_worker_to_use s)
       in bindR (nthR (irq_workers s) n) (\<lambda>w. case w of
            None \<Rightarrow> Inl NullDeref
          | Some tid \<Rightarrow> mapR (\<lambda>c. s\<lparr>irqq_buffer := b, irqq_write_ptr := (if wp = IRQQ_SIZE then 0 else wp),
              irq_worker_to_use := n, qsch := c, irqq_lock := simplock_release l\<rparr>)
              (set_status tid THREAD_STATUS_RUNNABLE (qsch s)))))"

definition irqq_available :: "nat \<Rightarrow> 'w irqsys \<Rightarrow> nat res" where
  "irqq_available from_pos s =
     bindR (simplock_wait (irqq_lock s)) (\<lambda>_. Inr
       (if from_pos = irqq_write_ptr s then 0
        else if from_pos > irqq_write_ptr s then (IRQQ_SIZE - from_pos) + irqq_write_ptr s
        else irqq_write_ptr s - from_pos))"

section \<open>Handlers\<close>

fun run_handlers :: "(nat \<Rightarrow> 'w \<Rightarrow> 'w res) \<Rightarrow> nat list \<Rightarrow> 'w \<Rightarrow> 'w res" where
  "run_handlers run [] w = Inr w"
| "run_handlers run (f # fs) w = bindR (run f w) (run_handlers run fs)"

definition irq_enqueue :: "(nat \<Rightarrow> 'w \<Rightarrow> 'w res) \<Rightarrow> u8 \<Rightarrow> 'w irqsys \<Rightarrow> 'w irqsys res" where
  "irq_enqueue run irq s =
     bindR (nthR (irqs_imm s) (unat irq)) (\<lambda>fs.
     bindR (run_handlers run fs (wstate s)) (\<lambda>w. irqq_write irq (s\<lparr>wstate := w\<rparr>)))"

text \<open>The arrays have 24 chains; the number of the interrupt is an \<open>int\<close>.\<close>

definition chain_at :: "nat list list \<Rightarrow> int \<Rightarrow> nat list res" where
  "chain_at t irq = (if irq < 0 then Inl OutOfBounds else nthR t (nat irq))"

definition irq_install :: "int \<Rightarrow> nat \<Rightarrow> 'w irqsys \<Rightarrow> (int \<times> 'w irqsys) res" where
  "irq_install irq f s =
     bindR (chain_at (irqs s) irq) (\<lambda>fs. Inr (0, s\<lparr>irqs := (irqs s)[nat irq := fs @ [f]]\<rparr>))"

text \<open>The loop looks at every handler but the last one.\<close>

definition irq_install_immediate :: "int \<Rightarrow> nat \<Rightarrow> 'w irqsys \<Rightarrow> (int \<times> 'w irqsys) res" where
  "irq_install_immediate irq f s =
     bindR (chain_at (irqs_imm s) irq) (\<lambda>fs.
       if f \<in> set (butlast fs) then Inr (- 1, s)
       else Inr (0, s\<lparr>irqs_imm := (irqs_imm s)[nat irq := fs @ [f]]\<rparr>))"

text \<open>The walk of \<open>irq_remove\<close>: whether it unlinked an entry, and the chain.\<close>

fun unlink_walk :: "nat \<Rightarrow> nat list \<Rightarrow> bool \<times> nat list" where
  "unlink_walk f (x # y # rest) =
     (if x = f then (True, y # rest) else (case unlink_walk f (y # rest) of (b, l) \<Rightarrow> (b, x # l)))"
| "unlink_walk f l = (False, l)"

definition irq_remove :: "int \<Rightarrow> nat \<Rightarrow> 'w irqsys \<Rightarrow> (int \<times> 'w irqsys) res" where
  "irq_remove irq f s =
     bindR (chain_at (irqs_imm s) irq) (\<lambda>fs. case unlink_walk f fs of
         (True, l) \<Rightarrow> Inr (0, s\<lparr>irqs_imm := (irqs_imm s)[nat irq := l]\<rparr>)
       | (False, _) \<Rightarrow> Inr (- 1, s))"

section \<open>The workers\<close>

text \<open>
  The places in \<open>irq_worker\<close>: at the start of its loop; holding the lock before the first test;
  holding it in \<open>irqq_read\<close>; in \<open>irqq_wait\<close> before its test, with the position it was
  called with; there before the store of the status; running handlers.
\<close>

datatype worker_pc = AtTop | Holding | Fetching | InWait nat | ToBlock nat | Serving "nat list"

text \<open>A step gives the next place and, when a number was taken from the ring, this number.\<close>

fun irq_worker :: "(nat \<Rightarrow> 'w \<Rightarrow> 'w res) \<Rightarrow> worker_pc \<Rightarrow> 'w irqsys \<Rightarrow> (worker_pc \<times> u8 option \<times> 'w irqsys) res" where
  "irq_worker run AtTop s =
     mapR (\<lambda>l. (Holding, None, s\<lparr>irq_worker_spinlock := l\<rparr>)) (simplock_acquire (irq_worker_spinlock s))"
| "irq_worker run Holding s =
     mapR (\<lambda>n. if n = 0
         then (InWait (irq_last s), None, s\<lparr>irq_worker_spinlock := simplock_release (irq_worker_spinlock s)\<rparr>)
         else (Fetching, None, s)) (irqq_available (irq_last s) s)"
| "irq_worker run Fetching s =
     bindR (irqq_read (irq_last s) s) (\<lambda>(r, s1). case r of
         None \<Rightarrow> Inr (Fetching, None, s1)
       | Some (irq, p) \<Rightarrow> mapR (\<lambda>fs. (Serving fs, Some irq,
             s1\<lparr>irq_last := p, irq_worker_spinlock := simplock_release (irq_worker_spinlock s1)\<rparr>)) (nthR (irqs s1) (unat irq)))"
| "irq_worker run (InWait from_pos) s =
     mapR (\<lambda>n. (if n = 0 then ToBlock from_pos else AtTop, None, s)) (irqq_available from_pos s)"
| "irq_worker run (ToBlock from_pos) s = mapR (\<lambda>s'. (InWait from_pos, None, s')) (block_current s)"
| "irq_worker run (Serving []) s = Inr (AtTop, None, s)"
| "irq_worker run (Serving (f # fs)) s = mapR (\<lambda>w. (Serving fs, None, s\<lparr>wstate := w\<rparr>)) (run f (wstate s))"

text \<open>The workers are created as threads of the kernel.\<close>

fun irq_initsys :: "u64 list \<Rightarrow> 'v procsys \<Rightarrow> (int option list \<times> 'v procsys) res" where
  "irq_initsys [] s = Inr ([], s)"
| "irq_initsys (ker # kers) s =
     bindR (task_tcreate ker KERNEL_PROCESS True s) (\<lambda>(tid, s1).
     bindR (thread_get (sch s1) tid) (\<lambda>t.
     bindR (on_sched (task_tstart tid) s1) (\<lambda>(_, s2).
     mapR (\<lambda>(ws, s3). ((case t of None \<Rightarrow> None | Some _ \<Rightarrow> Some tid) # ws, s3)) (irq_initsys kers s2))))"

section \<open>Schedules\<close>

text \<open>
  What happens next: an interrupt, or a step of a worker. A worker whose thread is not runnable is
  not chosen; one that finds the lock taken spins until its time is over.
\<close>

datatype irq_event = Raise u8 | Run nat

definition runs :: "nat \<Rightarrow> worker_pc \<Rightarrow> 'w irqsys \<Rightarrow> int option" where
  "runs i pc s = (case irq_workers s ! i of
       None \<Rightarrow> None
     | Some tid \<Rightarrow> (case thread_get (qsch s) tid of
         Inr (Some th) \<Rightarrow> if status th = THREAD_STATUS_RUNNABLE \<and> \<not> (pc = AtTop \<and> irq_worker_spinlock s) then Some tid else None
       | _ \<Rightarrow> None))"

definition dispatch :: "int \<Rightarrow> 'w irqsys \<Rightarrow> 'w irqsys" where
  "dispatch tid s = s\<lparr>qsch := (qsch s)\<lparr>cpu := (cpu (qsch s))\<lparr>current_tid := tid\<rparr>, resched := False\<rparr>\<rparr>"

fun irq_exec ::
    "(nat \<Rightarrow> 'w \<Rightarrow> 'w res) \<Rightarrow> irq_event list \<Rightarrow> worker_pc list \<Rightarrow> 'w irqsys \<Rightarrow> (u8 list \<times> worker_pc list \<times> 'w irqsys) res" where
  "irq_exec run [] pcs s = Inr ([], pcs, s)"
| "irq_exec run (Raise irq # es) pcs s = bindR (irq_enqueue run irq s) (irq_exec run es pcs)"
| "irq_exec run (Run i # es) pcs s =
     (case runs i (pcs ! i) s of
        None \<Rightarrow> irq_exec run es pcs s
      | Some tid \<Rightarrow> bindR (irq_worker run (pcs ! i) (dispatch tid s)) (\<lambda>(pc, t, s1).
          mapR (\<lambda>(ts, r). (case t of None \<Rightarrow> ts | Some irq \<Rightarrow> irq # ts, r)) (irq_exec run es (pcs[i := pc]) s1)))"

section \<open>The ring is a broadcast buffer\<close>

definition ring :: "'w irqsys \<Rightarrow> cbufm" where
  "ring s = \<lparr>m_write_ptr = irqq_write_ptr s, m_size = IRQQ_SIZE, m_buffer = irqq_buffer s\<rparr>"

definition pending :: "'w irqsys \<Rightarrow> bytes" where
  "pending s = unread (ring s) (irq_last s)"

lemma ring_size [simp]: "m_size (ring s) = IRQQ_SIZE"
  by (simp add: ring_def)

lemma available_ring: "\<not> irqq_lock s \<Longrightarrow> irqq_available p s = Inr (length (unread (ring s) p))"
proof -
  assume "\<not> irqq_lock s"
  then have "irqq_available p s = Inr (cbufm_available (ring s) p)"
    by (simp add: irqq_available_def simplock_wait_def cbufm_available_def ring_def)
  then show ?thesis by (simp add: cbufm_available_seen unread_def length_contents)
qed

lemma read_ring:
  assumes "\<not> irqq_lock s" and "cbufm_ok (ring s)" and "p < IRQQ_SIZE" and "unread (ring s) p = x # rest"
  shows "irqq_read p s = Inr (Some (x, if p + 1 = IRQQ_SIZE then 0 else p + 1), s)"
    and "unread (ring s) (if p + 1 = IRQQ_SIZE then 0 else p + 1) = rest"
proof -
  note r = read_one [OF assms(2), of p x rest, simplified, OF assms(3,4)]
  show "unread (ring s) (if p + 1 = IRQQ_SIZE then 0 else p + 1) = rest" using r(2) by simp
  have b: "length (irqq_buffer s) = IRQQ_SIZE" "irqq_write_ptr s < IRQQ_SIZE"
    using assms(2) by (simp_all add: cbufm_ok_def ring_def)
  have "cbufm_available (ring s) p \<noteq> 0" using assms(4) by (simp add: cbufm_available_seen unread_def length_contents [symmetric])
  then have n: "p \<noteq> irqq_write_ptr s" by (auto simp: cbufm_available_def ring_def)
  let ?w = "if irqq_write_ptr s < p then irqq_write_ptr s + IRQQ_SIZE else irqq_write_ptr s"
  have "min (min (IRQQ_SIZE - p) (?w - p)) 1 = 1" using n assms(3) by auto
  then have p: "min (min (IRQQ_SIZE - p) (?w - p)) (Suc 0) = Suc 0" by simp
  have tk: "take (Suc 0) (drop p (irqq_buffer s)) = [irqq_buffer s ! p]" using assms(3) b(1) by (simp add: take_Suc_conv_app_nth)
  have "cbufm_read_iter (ring s) p (Suc 0) = ([irqq_buffer s ! p], if p + 1 = IRQQ_SIZE then 0 else p + 1)"
    unfolding cbufm_read_iter_def Let_def ring_def cbufm.simps p tk by simp
  then have "irqq_buffer s ! p = x" using r(1) cbufm_read.simps [of "ring s" p "Suc 0"] by (simp add: cbufm_read.simps [of _ _ 0])
  then show "irqq_read p s = Inr (Some (x, if p + 1 = IRQQ_SIZE then 0 else p + 1), s)"
    using assms(1,3) b unfolding irqq_read_def Let_def One_nat_def p by (simp add: simplock_wait_def)
qed

section \<open>Threads of the workers\<close>

definition th_present :: "sched \<Rightarrow> int \<Rightarrow> bool" where
  "th_present c tid \<longleftrightarrow> (\<exists>th. thread_get c tid = Inr (Some th))"

definition same_threads :: "sched \<Rightarrow> sched \<Rightarrow> bool" where
  "same_threads c c' \<longleftrightarrow> (\<forall>tid. th_present c tid \<longrightarrow> th_present c' tid) \<and> reshed_block (cpu c') = reshed_block (cpu c)"

lemma same_threads_refl [simp]: "same_threads c c"
  by (simp add: same_threads_def)

lemma same_threads_trans: "same_threads a b \<Longrightarrow> same_threads b c \<Longrightarrow> same_threads a c"
  by (simp add: same_threads_def)

lemma put_thread_get:
  "th_present c tid \<Longrightarrow> thread_get (put_thread c tid th) u = (if u = tid then Inr (Some th) else thread_get c u)"
  by (auto simp: th_present_def thread_get_def put_thread_def nth_list_update nat_eq_iff split: if_splits)

lemma set_status_present:
  assumes "thread_get c tid = Inr (Some th)"
  shows "set_status tid st c = Inr (put_thread c tid (th\<lparr>status := st\<rparr>))"
    and "same_threads c (put_thread c tid (th\<lparr>status := st\<rparr>))"
proof -
  have p: "th_present c tid" using assms by (auto simp: th_present_def)
  show "set_status tid st c = Inr (put_thread c tid (th\<lparr>status := st\<rparr>))" using assms by (simp add: set_status_def)
  show "same_threads c (put_thread c tid (th\<lparr>status := st\<rparr>))"
    by (auto simp: same_threads_def th_present_def put_thread_get [OF p])
qed

definition with_status :: "thread_status \<Rightarrow> thread option res \<Rightarrow> thread option res" where
  "with_status st r = mapR (map_option (status_update (\<lambda>_. st))) r"

section \<open>The invariant\<close>

definition holds_lock :: "worker_pc \<Rightarrow> bool" where
  "holds_lock pc \<longleftrightarrow> pc = Holding \<or> pc = Fetching"

definition irqs_ok :: "'w irqsys \<Rightarrow> bool" where
  "irqs_ok s \<longleftrightarrow> cbufm_ok (ring s) \<and> irq_last s < IRQQ_SIZE \<and> \<not> irqq_lock s \<and> length (irqs s) = 24 \<and> length (irqs_imm s) = 24 \<and>
     (\<forall>irq \<in> set (pending s). unat irq < 24) \<and> irq_worker_to_use s < IRQ_WORKER_AMOUNT \<and> length (irq_workers s) = IRQ_WORKER_AMOUNT \<and>
     (\<forall>w \<in> set (irq_workers s). \<exists>tid. w = Some tid \<and> th_present (qsch s) tid) \<and> reshed_block (cpu (qsch s)) = 0"

definition workers_ok :: "worker_pc list \<Rightarrow> 'w irqsys \<Rightarrow> bool" where
  "workers_ok pcs s \<longleftrightarrow> length pcs = IRQ_WORKER_AMOUNT \<and>
     (\<forall>i < length pcs. \<forall>j < length pcs. holds_lock (pcs ! i) \<longrightarrow> holds_lock (pcs ! j) \<longrightarrow> i = j) \<and>
     (irq_worker_spinlock s \<longleftrightarrow> (\<exists>pc \<in> set pcs. holds_lock pc)) \<and> (Fetching \<in> set pcs \<longrightarrow> pending s \<noteq> [])"

definition handlers_return :: "(nat \<Rightarrow> 'w \<Rightarrow> 'w res) \<Rightarrow> bool" where
  "handlers_return run \<longleftrightarrow> (\<forall>f w. \<exists>w'. run f w = Inr w')"

lemma run_handlers_return: "handlers_return run \<Longrightarrow> \<exists>w'. run_handlers run fs w = Inr w'"
proof (induction fs arbitrary: w)
  case (Cons f fs)
  obtain w1 where "run f w = Inr w1" using Cons.prems by (auto simp: handlers_return_def)
  then show ?case using Cons by simp
qed simp

lemma irq_enqueue_ok:
  assumes "irqs_ok s" and "handlers_return run" and "unat irq < 24" and "length (pending s) + 1 < IRQQ_SIZE"
  obtains s' where "irq_enqueue run irq s = Inr s'" and "irqs_ok s'" and "pending s' = pending s @ [irq]"
    and "irq_worker_spinlock s' = irq_worker_spinlock s" and "irq_workers s' = irq_workers s" and "irqs s' = irqs s" and "irq_last s' = irq_last s"
    and "irq_worker_to_use s' = irq_worker_to_use s" and "run_handlers run (irqs_imm s ! unat irq) (wstate s) = Inr (wstate s')"
    and "\<forall>u. thread_get (qsch s') u = (if irq_workers s ! irq_worker_to_use s = Some u
      then with_status THREAD_STATUS_RUNNABLE (thread_get (qsch s) u) else thread_get (qsch s) u)"
proof -
  obtain w where w: "run_handlers run (irqs_imm s ! unat irq) (wstate s) = Inr w" using run_handlers_return [OF assms(2)] by blast
  obtain tid th where tid: "irq_workers s ! irq_worker_to_use s = Some tid" "thread_get (qsch s) tid = Inr (Some th)"
  proof -
    have "irq_workers s ! irq_worker_to_use s \<in> set (irq_workers s)" using assms(1) by (simp add: irqs_ok_def)
    then show ?thesis using assms(1) that unfolding irqs_ok_def th_present_def by blast
  qed
  let ?c = "put_thread (qsch s) tid (th\<lparr>status := THREAD_STATUS_RUNNABLE\<rparr>)"
  let ?wp = "if irqq_write_ptr s + 1 = IRQQ_SIZE then 0 else irqq_write_ptr s + 1"
  let ?s = "s\<lparr>wstate := w, irqq_buffer := (irqq_buffer s)[irqq_write_ptr s := irq], irqq_write_ptr := ?wp, qsch := ?c, irqq_lock := False\<rparr>"
  have c: "cbufm_ok (ring s)" "length (irqq_buffer s) = IRQQ_SIZE" "irqq_write_ptr s < IRQQ_SIZE" "irq_last s < IRQQ_SIZE"
    using assms(1) by (simp_all add: irqs_ok_def cbufm_ok_def ring_def)
  have r: "ring ?s = cbufm_write (ring s) [irq]" using cbufm_write_single [OF c(1), of irq] by (simp add: ring_def)
  have p: "pending ?s = pending s @ [irq]"
    using cbufm_write_unread [OF c(1), of "irq_last s" "[irq]"] c(4) assms(4) unfolding pending_def r by simp
  have e: "irq_enqueue run irq s = Inr ?s"
    using assms(1,3) w tid c(2,3) set_status_present(1) [OF tid(2)]
    by (simp add: irq_enqueue_def irqq_write_def irqs_ok_def simplock_acquire_def simplock_release_def Let_def)
  have "irqs_ok ?s" using assms(1,3) set_status_present(2) [OF tid(2)] p r cbufm_write_ok [OF c(1), of "[irq]"]
    unfolding irqs_ok_def same_threads_def by auto
  moreover have "\<forall>u. thread_get ?c u = (if irq_workers s ! irq_worker_to_use s = Some u
      then with_status THREAD_STATUS_RUNNABLE (thread_get (qsch s) u) else thread_get (qsch s) u)"
    using put_thread_get [of "qsch s" tid] tid by (simp add: th_present_def with_status_def)
  ultimately show ?thesis using e p w by (intro that [of ?s]) simp_all
qed

lemma workers_keep:
  assumes "workers_ok pcs s" and "i < IRQ_WORKER_AMOUNT" and "holds_lock pc \<longrightarrow> holds_lock (pcs ! i) \<or> \<not> irq_worker_spinlock s"
    and "irq_worker_spinlock s' = (holds_lock pc \<or> irq_worker_spinlock s \<and> \<not> holds_lock (pcs ! i))"
    and "Fetching \<in> set (pcs[i := pc]) \<longrightarrow> pending s' \<noteq> []"
  shows "workers_ok (pcs[i := pc]) s'"
proof -
  have l: "length pcs = IRQ_WORKER_AMOUNT" using assms(1) by (simp add: workers_ok_def)
  have u: "j = k" if "j < length pcs" "k < length pcs" "holds_lock (pcs ! j)" "holds_lock (pcs ! k)" for j k
    using assms(1) that unfolding workers_ok_def by blast
  have ex: "(\<exists>pc \<in> set l. holds_lock pc) \<longleftrightarrow> (\<exists>j < length l. holds_lock (l ! j))" for l by (metis in_set_conv_nth)
  have h: "irq_worker_spinlock s \<longleftrightarrow> (\<exists>j < length pcs. holds_lock (pcs ! j))"
    using assms(1) unfolding workers_ok_def ex by blast
  have "irq_worker_spinlock s' \<longleftrightarrow> (\<exists>j < length pcs. holds_lock (pcs[i := pc] ! j))"
  proof (cases "holds_lock pc")
    case True
    then show ?thesis using assms(2,4) l by (auto intro!: exI [of _ i])
  next
    case False
    then have "irq_worker_spinlock s' \<longleftrightarrow> irq_worker_spinlock s \<and> \<not> holds_lock (pcs ! i)" using assms(4) by simp
    also have "\<dots> \<longleftrightarrow> (\<exists>j < length pcs. j \<noteq> i \<and> holds_lock (pcs ! j))" using h u [of i] assms(2) l by metis
    also have "\<dots> \<longleftrightarrow> (\<exists>j < length pcs. holds_lock (pcs[i := pc] ! j))" using False by (metis nth_list_update_eq nth_list_update_neq)
    finally show ?thesis .
  qed
  moreover have "j = k" if "j < length pcs" "k < length pcs" "holds_lock (pcs[i := pc] ! j)" "holds_lock (pcs[i := pc] ! k)" for j k
    using that u [of j k] u [of i k] u [of i j] h assms(2,3) l by (auto simp: nth_list_update split: if_splits)
  ultimately show ?thesis using assms(5) l unfolding workers_ok_def ex by simp
qed

lemma dispatch_simps [simp]:
  "ring (dispatch tid s) = ring s" "pending (dispatch tid s) = pending s" "irqs (dispatch tid s) = irqs s" "irqs_imm (dispatch tid s) = irqs_imm s"
  "irq_workers (dispatch tid s) = irq_workers s" "irq_worker_spinlock (dispatch tid s) = irq_worker_spinlock s"
  "irqq_lock (dispatch tid s) = irqq_lock s" "irq_worker_to_use (dispatch tid s) = irq_worker_to_use s" "irq_last (dispatch tid s) = irq_last s"
  "wstate (dispatch tid s) = wstate s" "thread_get (qsch (dispatch tid s)) u = thread_get (qsch s) u"
  "current_tid (cpu (qsch (dispatch tid s))) = tid" "reshed_block (cpu (qsch (dispatch tid s))) = reshed_block (cpu (qsch s))"
  "th_present (qsch (dispatch tid s)) u = th_present (qsch s) u"
  by (simp_all add: dispatch_def ring_def pending_def thread_get_def th_present_def)

lemma dispatch_ok: "irqs_ok s \<Longrightarrow> irqs_ok (dispatch tid s)"
  by (simp add: irqs_ok_def)

lemma block_current_ok:
  assumes "irqs_ok s" and "th_present (qsch s) (current_tid (cpu (qsch s)))"
  obtains c where "block_current s = Inr (s\<lparr>qsch := c\<rparr>)" and "irqs_ok (s\<lparr>qsch := c\<rparr>)"
    and "\<forall>u. thread_get c u = (if u = current_tid (cpu (qsch s)) then with_status THREAD_STATUS_BLOCKED (thread_get (qsch s) u)
      else thread_get (qsch s) u)"
proof -
  let ?t = "current_tid (cpu (qsch s))"
  obtain th where th: "thread_get (qsch s) ?t = Inr (Some th)" using assms(2) by (auto simp: th_present_def)
  let ?c = "put_thread (qsch s) ?t (th\<lparr>status := THREAD_STATUS_BLOCKED\<rparr>)"
  note st = set_status_present [OF th, of THREAD_STATUS_BLOCKED]
  have r: "reshed_block (cpu ?c) = 0" using st(2) assms(1) by (simp add: same_threads_def irqs_ok_def)
  have g: "thread_get (?c\<lparr>resched := True\<rparr>) u = thread_get ?c u" for u by (simp add: thread_get_def)
  have "block_current s = Inr (s\<lparr>qsch := ?c\<lparr>resched := True\<rparr>\<rparr>)"
    using st(1) r by (simp add: block_current_def task_tyield_def task_reshed_def)
  moreover have "irqs_ok (s\<lparr>qsch := ?c\<lparr>resched := True\<rparr>\<rparr>)"
    using assms(1) st(2) by (auto simp: irqs_ok_def same_threads_def th_present_def g pending_def ring_def)
  ultimately show ?thesis using that [of "?c\<lparr>resched := True\<rparr>"] th put_thread_get [OF assms(2)] by (auto simp: g with_status_def)
qed

lemma runs_present: "runs i pc s = Some tid \<Longrightarrow> irq_workers s ! i = Some tid \<and> th_present (qsch s) tid \<and> \<not> (pc = AtTop \<and> irq_worker_spinlock s)"
  by (auto simp: runs_def th_present_def split: option.splits sum.splits if_splits)

text \<open>What a step of a worker keeps: nothing leaves the ring but what it hands out.\<close>

definition step_keeps :: "worker_pc list \<Rightarrow> nat \<Rightarrow> 'w irqsys \<Rightarrow> worker_pc \<times> u8 option \<times> 'w irqsys \<Rightarrow> bool" where
  "step_keeps pcs i s = (\<lambda>(pc, t, s'). irqs_ok s' \<and> workers_ok (pcs[i := pc]) s' \<and> pending s = (case t of None \<Rightarrow> [] | Some irq \<Rightarrow> [irq]) @ pending s')"

lemma fetching_step:
  assumes "irqs_ok s" and "workers_ok pcs s" and "i < IRQ_WORKER_AMOUNT" and "pcs ! i = Fetching"
  shows "\<exists>r. irq_worker run Fetching s = Inr r \<and> step_keeps pcs i s r"
proof -
  have "Fetching \<in> set pcs" using assms(2-4) by (metis nth_mem workers_ok_def)
  then obtain irq rest where p: "pending s = irq # rest" using assms(2) by (cases "pending s") (auto simp: workers_ok_def)
  let ?p = "if irq_last s + 1 = IRQQ_SIZE then 0 else irq_last s + 1"
  note r = read_ring [OF _ _ _ p [unfolded pending_def]]
  have ok: "\<not> irqq_lock s" "cbufm_ok (ring s)" "irq_last s < IRQQ_SIZE" "unat irq < 24" "length (irqs s) = 24"
    using assms(1) p by (auto simp: irqs_ok_def)
  let ?s = "s\<lparr>irq_last := ?p, irq_worker_spinlock := False\<rparr>"
  have e: "irq_worker run Fetching s = Inr (Serving (irqs s ! unat irq), Some irq, ?s)"
    using r(1) [OF ok(1-3)] ok by (simp add: simplock_release_def)
  have rest: "pending ?s = rest" using r(2) [OF ok(1-3)] by (simp add: pending_def ring_def)
  have "irqs_ok ?s" using assms(1) p rest by (auto simp: irqs_ok_def ring_def)
  moreover have "workers_ok (pcs[i := Serving (irqs s ! unat irq)]) ?s"
  proof (rule workers_keep [OF assms(2,3)])
    have "Fetching \<notin> set (pcs[i := Serving (irqs s ! unat irq)])"
      using assms(2-4) unfolding workers_ok_def holds_lock_def by (auto simp: in_set_conv_nth nth_list_update split: if_splits)
    then show "Fetching \<in> set (pcs[i := Serving (irqs s ! unat irq)]) \<longrightarrow> pending ?s \<noteq> []" by blast
  qed (use assms(4) in \<open>simp_all add: holds_lock_def\<close>)
  ultimately show ?thesis using e p rest by (auto simp: step_keeps_def)
qed

lemma worker_step:
  assumes "irqs_ok s" and "workers_ok pcs s" and "handlers_return run" and "i < IRQ_WORKER_AMOUNT"
    and "th_present (qsch s) (current_tid (cpu (qsch s)))" and "\<not> (pcs ! i = AtTop \<and> irq_worker_spinlock s)"
  shows "\<exists>r. irq_worker run (pcs ! i) s = Inr r \<and> step_keeps pcs i s r"
proof (cases "pcs ! i = Fetching")
  case True
  then show ?thesis using fetching_step [OF assms(1,2,4)] by simp
next
  case nf: False
  have av: "irqq_available p s = Inr (length (unread (ring s) p))" for p using assms(1) by (simp add: irqs_ok_def available_ring)
  have hold: "irq_worker_spinlock s" if "holds_lock (pcs ! i)" using assms(2,4) that unfolding workers_ok_def by (metis nth_mem)
  have ft: "Fetching \<in> set (pcs[i := pc]) \<longrightarrow> pending s \<noteq> []" if "pc \<noteq> Fetching" for pc
    using assms(2,4) that by (auto simp: workers_ok_def in_set_conv_nth nth_list_update split: if_splits)
  have keep: "step_keeps pcs i s (pc, None, s')"
    if "irqs_ok s'" "pending s' = pending s" "pc \<noteq> Fetching \<or> pending s \<noteq> []" "holds_lock pc \<longrightarrow> holds_lock (pcs ! i) \<or> \<not> irq_worker_spinlock s"
      "irq_worker_spinlock s' = (holds_lock pc \<or> irq_worker_spinlock s \<and> \<not> holds_lock (pcs ! i))" for pc s'
    using workers_keep [OF assms(2,4) that(4,5)] that(1,2,3) ft by (auto simp: step_keeps_def)
  have irr: "irqs_ok (s\<lparr>irq_worker_spinlock := b\<rparr>)" "pending (s\<lparr>irq_worker_spinlock := b\<rparr>) = pending s" "irqs_ok (s\<lparr>wstate := w\<rparr>)" "pending (s\<lparr>wstate := w\<rparr>) = pending s" for b w
    using assms(1) by (simp_all add: irqs_ok_def pending_def ring_def)
  show ?thesis
  proof (cases "pcs ! i")
    case AtTop
    have "step_keeps pcs i s (Holding, None, s\<lparr>irq_worker_spinlock := True\<rparr>)"
      using AtTop assms(6) by (intro keep) (simp_all add: irr holds_lock_def)
    then show ?thesis using AtTop assms(6) by (simp add: simplock_acquire_def)
  next
    case Holding
    have "step_keeps pcs i s (InWait (irq_last s), None, s\<lparr>irq_worker_spinlock := False\<rparr>)"
      using Holding by (intro keep) (simp_all add: irr holds_lock_def)
    moreover have "step_keeps pcs i s (Fetching, None, s)" if "pending s \<noteq> []"
      using Holding that assms(1) hold by (intro keep) (simp_all add: holds_lock_def)
    ultimately show ?thesis using Holding by (simp add: av simplock_release_def pending_def)
  next
    case (InWait p)
    have "step_keeps pcs i s (pc, None, s)" if "pc = ToBlock p \<or> pc = AtTop" for pc
      using InWait that assms(1) by (intro keep) (auto simp: holds_lock_def)
    then show ?thesis using InWait by (simp add: av)
  next
    case (ToBlock p)
    obtain c where c: "block_current s = Inr (s\<lparr>qsch := c\<rparr>)" "irqs_ok (s\<lparr>qsch := c\<rparr>)" using block_current_ok [OF assms(1,5)] by blast
    have "step_keeps pcs i s (InWait p, None, s\<lparr>qsch := c\<rparr>)"
      using ToBlock c(2) by (intro keep) (simp_all add: holds_lock_def pending_def ring_def)
    then show ?thesis using ToBlock c(1) by simp
  next
    case (Serving fs)
    have "step_keeps pcs i s (AtTop, None, s)" using Serving assms(1) by (intro keep) (auto simp: holds_lock_def)
    moreover have "step_keeps pcs i s (Serving gs, None, s\<lparr>wstate := w\<rparr>)" for gs w
      using Serving by (intro keep) (simp_all add: irr holds_lock_def)
    ultimately show ?thesis using Serving run_handlers_return [OF assms(3), of "take 1 fs" "wstate s"] by (cases fs) (auto simp: bindR_eq_Inr_iff)
  qed (use nf in simp)
qed

section \<open>Interrupts are served in order\<close>

fun raised :: "irq_event list \<Rightarrow> bytes" where
  "raised [] = []"
| "raised (Raise irq # es) = irq # raised es"
| "raised (Run i # es) = raised es"

fun event_ok :: "irq_event \<Rightarrow> bool" where
  "event_ok (Raise irq) \<longleftrightarrow> unat irq < 24"
| "event_ok (Run i) \<longleftrightarrow> i < IRQ_WORKER_AMOUNT"

text \<open>
  C8: In whatever order interrupts arrive and the workers run, as long as fewer numbers than the ring holds are
  waiting, nothing faults, at most one worker holds the lock, and the workers together take the numbers of
  the interrupts in the order in which they were raised, each once: what was waiting and what was raised is
  what was taken, followed by what is waiting now.
\<close>

theorem irqs_in_order:
  assumes "irqs_ok s" and "workers_ok pcs s" and "handlers_return run" and "\<forall>e \<in> set es. event_ok e"
    and "length (pending s) + length (raised es) < IRQQ_SIZE"
  shows "\<exists>taken pcs' s'. irq_exec run es pcs s = Inr (taken, pcs', s') \<and> pending s @ raised es = taken @ pending s' \<and>
    irqs_ok s' \<and> workers_ok pcs' s'"
  using assms
proof (induction run es pcs s rule: irq_exec.induct)
  case (2 run irq es pcs s)
  obtain s1 where s1: "irq_enqueue run irq s = Inr s1" "irqs_ok s1" "pending s1 = pending s @ [irq]" "irq_worker_spinlock s1 = irq_worker_spinlock s"
  proof (rule irq_enqueue_ok [OF "2.prems"(1,3)])
    show "unat irq < 24" "length (pending s) + 1 < IRQQ_SIZE" using "2.prems"(4,5) by simp_all
  qed (rule that)
  have "workers_ok pcs s1" using "2.prems"(2) s1(3,4) by (simp add: workers_ok_def)
  then obtain taken pcs' s' where "irq_exec run es pcs s1 = Inr (taken, pcs', s')" "pending s1 @ raised es = taken @ pending s'"
      "irqs_ok s'" "workers_ok pcs' s'"
    using "2.IH" [OF s1(1,2) _ "2.prems"(3)] "2.prems"(4,5) s1(3) by auto
  then show ?case using s1(1,3) by simp
next
  case (3 run i es pcs s)
  show ?case
  proof (cases "runs i (pcs ! i) s")
    case None
    then show ?thesis using "3.IH"(1) "3.prems" by simp
  next
    case (Some tid)
    note r = runs_present [OF Some]
    have w: "workers_ok pcs (dispatch tid s)" using "3.prems"(2) by (simp add: workers_ok_def)
    obtain pc t s1 where st: "irq_worker run (pcs ! i) (dispatch tid s) = Inr (pc, t, s1)" "irqs_ok s1" "workers_ok (pcs[i := pc]) s1"
        "pending s = (case t of None \<Rightarrow> [] | Some irq \<Rightarrow> [irq]) @ pending s1"
      using worker_step [OF dispatch_ok [OF "3.prems"(1)] w "3.prems"(3), of i] r "3.prems"(4) by (auto simp: step_keeps_def)
    have "length (pending s1) \<le> length (pending s)" using st(4) by (cases t) simp_all
    then obtain taken pcs' s' where "irq_exec run es (pcs[i := pc]) s1 = Inr (taken, pcs', s')" "pending s1 @ raised es = taken @ pending s'"
        "irqs_ok s'" "workers_ok pcs' s'"
      using "3.IH"(2) [OF Some st(1) refl refl st(2,3) "3.prems"(3)] "3.prems"(4,5) by auto
    then show ?thesis using Some st(1,4) by (cases t) auto
  qed
qed simp

section \<open>From the interrupt to its handlers\<close>

lemma dispatch_idem [simp]:
  "dispatch tid (dispatch tid s) = dispatch tid s"
  "dispatch tid (s\<lparr>irq_worker_spinlock := b\<rparr>) = (dispatch tid s)\<lparr>irq_worker_spinlock := b\<rparr>"
  "dispatch tid (s\<lparr>irq_last := p\<rparr>) = (dispatch tid s)\<lparr>irq_last := p\<rparr>"
  "dispatch tid (s\<lparr>wstate := w\<rparr>) = (dispatch tid s)\<lparr>wstate := w\<rparr>"
  by (simp_all add: dispatch_def)

lemma ring_upd [simp]:
  "ring (s\<lparr>irq_worker_spinlock := b\<rparr>) = ring s" "ring (s\<lparr>irq_last := p\<rparr>) = ring s" "ring (s\<lparr>wstate := w\<rparr>) = ring s" "ring (s\<lparr>qsch := c\<rparr>) = ring s"
  by (simp_all add: ring_def)

definition runnable :: "int \<Rightarrow> nat \<Rightarrow> 'w irqsys \<Rightarrow> bool" where
  "runnable tid i s \<longleftrightarrow> irq_workers s ! i = Some tid \<and> (\<exists>th. thread_get (qsch s) tid = Inr (Some th) \<and> status th = THREAD_STATUS_RUNNABLE)"

lemma runnable_upd [simp]:
  "runnable tid i (dispatch t s) = runnable tid i s" "runnable tid i (s\<lparr>irq_worker_spinlock := b\<rparr>) = runnable tid i s"
  "runnable tid i (s\<lparr>irq_last := p\<rparr>) = runnable tid i s" "runnable tid i (s\<lparr>wstate := w\<rparr>) = runnable tid i s"
  by (simp_all add: runnable_def)

lemma runnable_runs: "runnable tid i s \<Longrightarrow> \<not> (pc = AtTop \<and> irq_worker_spinlock s) \<Longrightarrow> runs i pc s = Some tid"
  by (auto simp: runnable_def runs_def)

text \<open>One step of a runnable worker.\<close>

lemma exec_run:
  assumes "runnable tid i s" and "pcs ! i = pc" and "\<not> (pc = AtTop \<and> irq_worker_spinlock s)"
    and "irq_worker run pc (dispatch tid s) = Inr (pc', t, s1)"
  shows "irq_exec run (Run i # es) pcs s =
    mapR (\<lambda>(ts, r). (case t of None \<Rightarrow> ts | Some irq \<Rightarrow> irq # ts, r)) (irq_exec run es (pcs[i := pc']) s1)"
  using assms runnable_runs [OF assms(1,3)] by simp

lemma mapR_ident [simp]: "mapR id x = x"
  by (cases x) auto

lemma exec_serving:
  assumes "runnable tid i s" and "i < length pcs" and "run_handlers run fs (wstate s) = Inr w" and "dispatch tid s = s"
  shows "irq_exec run (replicate (length fs) (Run i) @ es) (pcs[i := Serving fs]) s = irq_exec run es (pcs[i := Serving []]) (s\<lparr>wstate := w\<rparr>)"
  using assms
proof (induction fs arbitrary: s)
  case (Cons f fs)
  obtain w1 where w1: "run f (wstate s) = Inr w1" "run_handlers run fs w1 = Inr w" using Cons.prems(3) by (cases "run f (wstate s)") auto
  have "irq_exec run (Run i # replicate (length fs) (Run i) @ es) (pcs[i := Serving (f # fs)]) s =
      irq_exec run (replicate (length fs) (Run i) @ es) (pcs[i := Serving fs]) (s\<lparr>wstate := w1\<rparr>)"
    using exec_run [OF Cons.prems(1), of "pcs[i := Serving (f # fs)]" "Serving (f # fs)"] Cons.prems(2,4) w1(1) by simp
  also have "\<dots> = irq_exec run es (pcs[i := Serving []]) (s\<lparr>wstate := w1, wstate := w\<rparr>)"
    using Cons.IH [of "s\<lparr>wstate := w1\<rparr>"] Cons.prems w1(2) by simp
  finally show ?case by simp
qed (simp, metis irqsys.surjective irqsys.update_convs(11))


definition quiet :: "worker_pc list \<Rightarrow> 'w irqsys \<Rightarrow> bool" where
  "quiet pcs s \<longleftrightarrow> irqs_ok s \<and> pending s = [] \<and> \<not> irq_worker_spinlock s \<and> irq_worker_to_use s = 0 \<and> pcs \<noteq> [] \<and> pcs ! 0 = InWait (irq_last s)"

text \<open>A worker that finds the ring empty goes to sleep again.\<close>

lemma exec_empty:
  assumes "runnable tid 0 s" and "dispatch tid s = s" and "irqs_ok s" and "pending s = []" and "\<not> irq_worker_spinlock s" and "pcs \<noteq> []"
  obtains c where "irq_exec run (replicate 5 (Run 0)) (pcs[0 := Serving []]) s = Inr ([], pcs[0 := InWait (irq_last s)], s\<lparr>qsch := c\<rparr>)"
    and "irqs_ok (s\<lparr>qsch := c\<rparr>)"
proof -
  have cur: "current_tid (cpu (qsch s)) = tid" by (metis assms(2) dispatch_simps(12))
  have pr: "th_present (qsch s) (current_tid (cpu (qsch s)))" using assms(1) cur by (auto simp: runnable_def th_present_def)
  obtain c where c: "block_current s = Inr (s\<lparr>qsch := c\<rparr>)" "irqs_ok (s\<lparr>qsch := c\<rparr>)" using block_current_ok [OF assms(3) pr] by blast
  have l: "\<not> irqq_lock s" using assms(3) by (simp add: irqs_ok_def)
  have d: "dispatch tid (s\<lparr>irq_worker_spinlock := b\<rparr>) = s\<lparr>irq_worker_spinlock := b\<rparr>" for b using assms(2) by simp
  have id: "s\<lparr>irq_worker_spinlock := False\<rparr> = s" using assms(5) by simp
  have u: "unread (ring s) (irq_last s) = []" using assms(4) by (simp add: pending_def)
  have r5: "replicate 5 (Run 0) = [Run 0, Run 0, Run 0, Run 0, Run 0]" by (simp add: numeral_eq_Suc)
  have n: "0 < length pcs" using assms(6) by simp
  note ex = exec_run [where i = 0 and tid = tid]
  have "irq_exec run (replicate 5 (Run 0)) (pcs[0 := Serving []]) s = irq_exec run [Run 0, Run 0, Run 0, Run 0] (pcs[0 := AtTop]) s"
    unfolding r5 using ex [OF assms(1), of "pcs[0 := Serving []]" "Serving []" run AtTop None s] assms(2) n by simp
  also have "\<dots> = irq_exec run [Run 0, Run 0, Run 0] (pcs[0 := Holding]) (s\<lparr>irq_worker_spinlock := True\<rparr>)"
    using ex [OF assms(1), of "pcs[0 := AtTop]" AtTop run Holding None "s\<lparr>irq_worker_spinlock := True\<rparr>"] assms(2,5) n by (simp add: simplock_acquire_def)
  also have "\<dots> = irq_exec run [Run 0, Run 0] (pcs[0 := InWait (irq_last s)]) s"
    using ex [of "s\<lparr>irq_worker_spinlock := True\<rparr>" "pcs[0 := Holding]" Holding run "InWait (irq_last s)" None s] assms(1,2) n l u id
    by (simp add: available_ring simplock_release_def)
  also have "\<dots> = irq_exec run [Run 0] (pcs[0 := ToBlock (irq_last s)]) s"
    using ex [OF assms(1), of "pcs[0 := InWait (irq_last s)]" "InWait (irq_last s)" run "ToBlock (irq_last s)" None s] assms(2) n l u by (simp add: available_ring)
  also have "\<dots> = Inr ([], pcs[0 := InWait (irq_last s)], s\<lparr>qsch := c\<rparr>)"
    using ex [OF assms(1), of "pcs[0 := ToBlock (irq_last s)]" "ToBlock (irq_last s)" run "InWait (irq_last s)" None "s\<lparr>qsch := c\<rparr>" "[]"] assms(2) n c(1) by simp
  finally show ?thesis using c(2) that by blast
qed


text \<open>A worker that finds one number in the ring runs its handlers and goes to sleep again.\<close>

lemma exec_one:
  assumes "runnable tid 0 s" and "irqs_ok s" and "pending s = [irq]" and "\<not> irq_worker_spinlock s" and "pcs \<noteq> []" and "pcs ! 0 = InWait (irq_last s)"
    and "run_handlers run (irqs s ! unat irq) (wstate s) = Inr w"
  obtains s' where "irq_exec run (replicate (length (irqs s ! unat irq) + 9) (Run 0)) pcs s = Inr ([irq], pcs[0 := InWait (irq_last s')], s')"
    and "irqs_ok s'" and "pending s' = []" and "\<not> irq_worker_spinlock s'" and "wstate s' = w" and "irq_worker_to_use s' = irq_worker_to_use s"
proof -
  let ?fs = "irqs s ! unat irq"
  let ?s = "dispatch tid s"
  define p where "p = (if irq_last s + 1 = IRQQ_SIZE then 0 else irq_last s + 1)"
  let ?l = "?s\<lparr>irq_worker_spinlock := True\<rparr>"
  let ?f = "?s\<lparr>irq_last := p, irq_worker_spinlock := False\<rparr>"
  have ok: "\<not> irqq_lock s" "cbufm_ok (ring s)" "irq_last s < IRQQ_SIZE" "unat irq < 24" "length (irqs s) = 24" using assms(2,3) by (simp_all add: irqs_ok_def)
  have u: "unread (ring s) (irq_last s) = [irq]" using assms(3) by (simp add: pending_def)
  have rd: "irqq_read (irq_last s) ?l = Inr (Some (irq, p), ?l)" "unread (ring s) p = []"
    using read_ring [of ?l "irq_last s" irq "[]"] ok u by (simp_all add: p_def)
  have n: "0 < length pcs" and rs: "runnable tid 0 ?s" using assms(1,5) by simp_all
  note ex = exec_run [where i = 0 and tid = tid]
  let ?es = "replicate (length ?fs) (Run 0) @ replicate 5 (Run 0)"
  have n9: "length ?fs + 9 = Suc (Suc (Suc (Suc (length ?fs + 5))))" by simp
  have "irq_exec run (replicate (length ?fs + 9) (Run 0)) pcs s = irq_exec run (Run 0 # Run 0 # Run 0 # Run 0 # ?es) pcs s"
    unfolding n9 by (simp only: replicate.simps replicate_add)
  also have "\<dots> = irq_exec run (Run 0 # Run 0 # Run 0 # ?es) (pcs[0 := AtTop]) ?s"
    using ex [OF assms(1), of pcs "InWait (irq_last s)" run AtTop None ?s] assms(6) n ok(1) u by (simp add: available_ring)
  also have "\<dots> = irq_exec run (Run 0 # Run 0 # ?es) (pcs[0 := Holding]) ?l"
    using ex [OF rs, of "pcs[0 := AtTop]" AtTop run Holding None ?l] assms(4) n by (simp add: simplock_acquire_def)
  also have "\<dots> = irq_exec run (Run 0 # ?es) (pcs[0 := Fetching]) ?l"
    using ex [of ?l "pcs[0 := Holding]" Holding run Fetching None ?l] rs n ok(1) u by (simp add: available_ring)
  also have "\<dots> = mapR (\<lambda>(ts, r). (irq # ts, r)) (irq_exec run ?es (pcs[0 := Serving ?fs]) ?f)"
    using ex [of ?l "pcs[0 := Fetching]" Fetching run "Serving ?fs" "Some irq" ?f] rs n ok rd(1) by (simp add: simplock_release_def)
  also have "irq_exec run ?es (pcs[0 := Serving ?fs]) ?f = irq_exec run (replicate 5 (Run 0)) (pcs[0 := Serving []]) (?f\<lparr>wstate := w\<rparr>)"
    using rs n assms(7) by (intro exec_serving [where tid = tid]) simp_all
  finally have e: "irq_exec run (replicate (length ?fs + 9) (Run 0)) pcs s =
      mapR (\<lambda>(ts, r). (irq # ts, r)) (irq_exec run (replicate 5 (Run 0)) (pcs[0 := Serving []]) (?f\<lparr>wstate := w\<rparr>))" .
  have pe: "pending (?f\<lparr>wstate := w\<rparr>) = []" using rd(2) by (simp add: pending_def)
  have okf: "irqs_ok (?f\<lparr>wstate := w\<rparr>)" using dispatch_ok [OF assms(2), of tid] ok(3) pe by (simp add: irqs_ok_def p_def)
  obtain c where c: "irq_exec run (replicate 5 (Run 0)) (pcs[0 := Serving []]) (?f\<lparr>wstate := w\<rparr>) =
      Inr ([], pcs[0 := InWait p], ?f\<lparr>wstate := w, qsch := c\<rparr>)" "irqs_ok (?f\<lparr>wstate := w, qsch := c\<rparr>)"
    using exec_empty [of tid "?f\<lparr>wstate := w\<rparr>" pcs run] rs okf pe assms(5) by auto
  show ?thesis using e c pe by (intro that [of "?f\<lparr>wstate := w, qsch := c\<rparr>"]) (simp_all add: pending_def)
qed


text \<open>A system whose handlers write down their numbers: interrupt 1 has an immediate handler and two others.\<close>

definition irq_example :: "nat list irqsys" where
  "irq_example = \<lparr>irqs = (replicate 24 [])[1 := [7, 8]], irqs_imm = (replicate 24 [])[1 := [6]], irq_workers = [Some 1, Some 2, Some 3, Some 4],
     irq_worker_spinlock = False, irqq_lock = False, irqq_buffer = replicate IRQQ_SIZE 0, irqq_write_ptr = 0, irq_worker_to_use = 0, irq_last = 0,
     qsch = two_threads\<lparr>threads := None # Some (some_thread_rec THREAD_STATUS_RUNNABLE False) # replicate 3 (Some (some_thread_rec THREAD_STATUS_BLOCKED False))\<rparr>,
     wstate = []\<rparr>"

definition note_handler :: "nat \<Rightarrow> nat list \<Rightarrow> nat list res" where
  "note_handler f w = Inr (w @ [f])"

lemma note_handler_returns: "handlers_return note_handler"
  by (simp add: handlers_return_def note_handler_def)

lemma irq_example_quiet:
  "quiet (replicate 4 (InWait 0)) irq_example" "workers_ok (replicate 4 (InWait 0)) irq_example" "irqs irq_example ! 1 = [7, 8]"
  "runnable 1 0 irq_example"
proof -
  have p: "pending irq_example = []" by (simp add: pending_def unread_def contents_def seen_def cbuf_available_def ring_def irq_example_def)
  have "irqs_ok irq_example" unfolding irqs_ok_def p
    by (simp add: irq_example_def IRQQ_SIZE_def IRQ_WORKER_AMOUNT_def cbufm_ok_def ring_def th_present_def thread_get_def two_threads_def numeral_3_eq_3)
  then show "quiet (replicate 4 (InWait 0)) irq_example" using p by (simp add: quiet_def) (simp add: irq_example_def)
  show "workers_ok (replicate 4 (InWait 0)) irq_example" unfolding workers_ok_def p by (simp add: irq_example_def holds_lock_def IRQ_WORKER_AMOUNT_def)
  show "irqs irq_example ! 1 = [7, 8]" by (simp add: irq_example_def)
  show "runnable 1 0 irq_example" by (simp add: runnable_def thread_get_def irq_example_def some_thread_rec_def two_threads_def)
qed

text \<open>
  An interrupt that arrives while nothing is waiting runs its immediate handlers at once, wakes the first
  worker, and this worker runs the other handlers of the interrupt in the order in which they were installed
  and goes to sleep again; the system is then as quiet as before, so that this holds for the next interrupt too.
\<close>

theorem irq_served:
  assumes "quiet pcs s" and "handlers_return run" and "unat irq < 24"
  shows "\<exists>pcs' s'. irq_exec run (Raise irq # replicate (length (irqs s ! unat irq) + 9) (Run 0)) pcs s = Inr ([irq], pcs', s') \<and>
    bindR (run_handlers run (irqs_imm s ! unat irq) (wstate s)) (run_handlers run (irqs s ! unat irq)) = Inr (wstate s') \<and> quiet pcs' s'"
proof -
  have q: "irqs_ok s" "pending s = []" "\<not> irq_worker_spinlock s" "irq_worker_to_use s = 0" "pcs \<noteq> []" "pcs ! 0 = InWait (irq_last s)"
    using assms(1) by (simp_all add: quiet_def)
  obtain s1 where s1: "irq_enqueue run irq s = Inr s1" "irqs_ok s1" "pending s1 = pending s @ [irq]" "irq_worker_spinlock s1 = irq_worker_spinlock s"
      "irq_workers s1 = irq_workers s" "irqs s1 = irqs s" "irq_last s1 = irq_last s" "irq_worker_to_use s1 = irq_worker_to_use s"
      "run_handlers run (irqs_imm s ! unat irq) (wstate s) = Inr (wstate s1)"
      "\<forall>u. thread_get (qsch s1) u = (if irq_workers s ! irq_worker_to_use s = Some u
        then with_status THREAD_STATUS_RUNNABLE (thread_get (qsch s) u) else thread_get (qsch s) u)"
  proof (rule irq_enqueue_ok [OF q(1) assms(2,3)])
    show "length (pending s) + 1 < IRQQ_SIZE" using q(2) by (simp add: IRQQ_SIZE_def)
  qed (rule that)
  obtain tid where tid: "irq_workers s ! 0 = Some tid" "th_present (qsch s) tid"
  proof -
    have "irq_workers s ! 0 \<in> set (irq_workers s)" using q(1) by (simp add: irqs_ok_def IRQ_WORKER_AMOUNT_def)
    then show ?thesis using q(1) that unfolding irqs_ok_def by blast
  qed
  have "runnable tid 0 s1" using tid s1(5,10) q(4) by (auto simp: runnable_def th_present_def with_status_def)
  moreover obtain w where w: "run_handlers run (irqs s ! unat irq) (wstate s1) = Inr w"
    using run_handlers_return [OF assms(2)] by blast
  ultimately obtain s' where "irq_exec run (replicate (length (irqs s ! unat irq) + 9) (Run 0)) pcs s1 = Inr ([irq], pcs[0 := InWait (irq_last s')], s')"
      "irqs_ok s'" "pending s' = []" "\<not> irq_worker_spinlock s'" "wstate s' = w" "irq_worker_to_use s' = irq_worker_to_use s1"
    using exec_one [of tid s1 irq pcs run w] s1 q by auto
  then show ?thesis using s1(1,8,9) q w by (auto simp: quiet_def)
qed

theorem irq_served_witness:
  "\<exists>pcs' s'. irq_exec note_handler (Raise 1 # replicate 11 (Run 0)) (replicate 4 (InWait 0)) irq_example = Inr ([1], pcs', s') \<and>
    bindR (run_handlers note_handler (irqs_imm irq_example ! 1) (wstate irq_example)) (run_handlers note_handler (irqs irq_example ! 1)) = Inr (wstate s') \<and>
    quiet pcs' s'"
  using irq_served [OF irq_example_quiet(1) note_handler_returns, of 1] irq_example_quiet(3) by simp

text \<open>
  C34: A wake-up is lost when the interrupt arrives after the worker has found the ring empty and before it marks
  its thread as blocked: the thread is blocked with the number in the ring, and whichever workers the scheduler
  considers, the interrupt is not served until another one arrives.
\<close>

theorem irq_wakeup_lost:
  assumes "quiet pcs s" and "handlers_return run" and "unat irq < 24" and "runnable tid 0 s" and "distinct (irq_workers s)"
    and "\<forall>i < IRQ_WORKER_AMOUNT. 0 < i \<longrightarrow> (\<forall>t. \<not> runnable t i s)" and "\<forall>i \<in> set is. i < IRQ_WORKER_AMOUNT"
  shows "\<exists>pcs' s'. irq_exec run (Run 0 # Raise irq # Run 0 # map Run is) pcs s = Inr ([], pcs', s') \<and> pending s' = [irq]"
proof -
  let ?s = "dispatch tid s"
  have q: "irqs_ok s" "pending s = []" "\<not> irq_worker_spinlock s" "irq_worker_to_use s = 0" "pcs \<noteq> []" "pcs ! 0 = InWait (irq_last s)"
    using assms(1) by (simp_all add: quiet_def)
  have u: "unread (ring s) (irq_last s) = []" and l: "\<not> irqq_lock s" using q(1,2) by (simp_all add: pending_def irqs_ok_def)
  let ?pcs = "pcs[0 := ToBlock (irq_last s)]"
  have e1: "irq_exec run (Run 0 # es) pcs s = irq_exec run es ?pcs ?s" for es
    using exec_run [OF assms(4) q(6), of run "ToBlock (irq_last s)" None ?s es] u l by (simp add: available_ring)
  obtain s1 where s1: "irq_enqueue run irq ?s = Inr s1" "irqs_ok s1" "pending s1 = pending ?s @ [irq]" "irq_worker_spinlock s1 = irq_worker_spinlock ?s"
      "irq_workers s1 = irq_workers ?s" "irqs s1 = irqs ?s" "irq_last s1 = irq_last ?s" "irq_worker_to_use s1 = irq_worker_to_use ?s"
      "run_handlers run (irqs_imm ?s ! unat irq) (wstate ?s) = Inr (wstate s1)"
      "\<forall>u. thread_get (qsch s1) u = (if irq_workers ?s ! irq_worker_to_use ?s = Some u
        then with_status THREAD_STATUS_RUNNABLE (thread_get (qsch ?s) u) else thread_get (qsch ?s) u)"
  proof (rule irq_enqueue_ok [OF dispatch_ok [OF q(1), of tid] assms(2,3)])
    show "length (pending ?s) + 1 < IRQQ_SIZE" using q(2) by (simp add: IRQQ_SIZE_def)
  qed (rule that)
  let ?s1 = "dispatch tid s1"
  have w0: "irq_workers s ! 0 = Some tid" "th_present (qsch s) tid" using assms(4) by (auto simp: runnable_def th_present_def)
  have r1: "runnable tid 0 s1" using w0 s1(5,10) q(4) by (auto simp: runnable_def th_present_def with_status_def)
  have pr: "th_present (qsch ?s1) (current_tid (cpu (qsch ?s1)))" using r1 by (auto simp: runnable_def th_present_def)
  obtain c where c: "block_current ?s1 = Inr (?s1\<lparr>qsch := c\<rparr>)" and
      th: "\<forall>u. thread_get c u = (if u = current_tid (cpu (qsch ?s1)) then with_status THREAD_STATUS_BLOCKED (thread_get (qsch ?s1) u) else thread_get (qsch ?s1) u)"
    using block_current_ok [OF dispatch_ok [OF s1(2), of tid] pr] by blast
  let ?s2 = "?s1\<lparr>qsch := c\<rparr>"
  have e2: "irq_exec run (Run 0 # es) ?pcs s1 = irq_exec run es (?pcs[0 := InWait (irq_last s)]) ?s2" for es
    using exec_run [OF r1, of ?pcs "ToBlock (irq_last s)" run "InWait (irq_last s)" None ?s2 es] c q(5) by simp
  have stuck: "runs i pc ?s2 = None" if "i < IRQ_WORKER_AMOUNT" for i pc
  proof (cases "i = 0")
    case True
    then show ?thesis using w0 s1(5) th by (auto simp: runs_def with_status_def mapR_eq_Inr_iff split: option.splits sum.splits)
  next
    case False
    have len: "length (irq_workers s) = IRQ_WORKER_AMOUNT" using q(1) by (simp add: irqs_ok_def)
    have "irq_workers s ! i \<noteq> Some tid" using nth_eq_iff_index_eq [OF assms(5), of i 0] w0(1) that False len by simp
    then show ?thesis using assms(6) that False s1(5,10) th w0(1) q(4)
      by (auto simp: runs_def runnable_def split: option.splits sum.splits)
  qed
  have still: "irq_exec run (map Run is) ps ?s2 = Inr ([], ps, ?s2)" for ps
    using assms(7) stuck by (induction "is") auto
  have p: "pending ?s2 = [irq]" using s1(3) q(2) by (simp add: pending_def)
  show ?thesis using e1 s1(1) e2 still p by simp
qed

theorem irq_wakeup_lost_witness:
  "\<exists>pcs' s'. irq_exec note_handler [Run 0, Raise 1, Run 0, Run 3, Run 0, Run 1] (replicate 4 (InWait 0)) irq_example = Inr ([], pcs', s') \<and>
    pending s' = [1]"
proof -
  have "\<forall>i < IRQ_WORKER_AMOUNT. 0 < i \<longrightarrow> (\<forall>t. \<not> runnable t i irq_example)"
    by (auto simp: IRQ_WORKER_AMOUNT_def less_Suc_eq numeral_eq_Suc runnable_def thread_get_def irq_example_def two_threads_def some_thread_rec_def)
  moreover have "distinct (irq_workers irq_example)" by (simp add: irq_example_def)
  ultimately show ?thesis
    using irq_wakeup_lost [OF irq_example_quiet(1) note_handler_returns _ irq_example_quiet(4), of 1 "[3, 0, 1]"] by (simp add: IRQ_WORKER_AMOUNT_def)
qed

theorem irqs_in_order_witness:
  "\<exists>taken pcs' s'. irq_exec note_handler [Raise 1, Run 0, Run 2, Raise 5, Run 0, Run 0, Run 0, Run 0] (replicate 4 (InWait 0)) irq_example = Inr (taken, pcs', s') \<and>
    pending irq_example @ [1, 5] = taken @ pending s' \<and> irqs_ok s' \<and> workers_ok pcs' s'"
  using irqs_in_order [OF _ irq_example_quiet(2) note_handler_returns, of "[Raise 1, Run 0, Run 2, Raise 5, Run 0, Run 0, Run 0, Run 0]"]
    irq_example_quiet(1) by (simp add: quiet_def IRQ_WORKER_AMOUNT_def IRQQ_SIZE_def)

text \<open>The handler that was installed last is never removed.\<close>

lemma unlink_walk_last: "f \<notin> set fs \<Longrightarrow> unlink_walk f (fs @ [f]) = (False, fs @ [f])"
proof (induction fs)
  case (Cons x fs)
  then show ?case by (cases fs) auto
qed simp

theorem irq_remove_keeps_last:
  assumes "0 \<le> irq" and "nat irq < length (irqs_imm s)" and "irqs_imm s ! nat irq = fs @ [f]" and "f \<notin> set fs"
  shows "irq_remove irq f s = Inr (- 1, s)"
  using assms by (simp add: irq_remove_def chain_at_def unlink_walk_last)

end
