(* ===== verification/Ps2.thy ===== *)
theory Ps2
  imports Irq Input
begin

text \<open>
  \<^verbatim>\<open>arch/x64/ps2.c\<close>: the controller of the keyboard. Its handler of the keyboard interrupt turns
  scan codes into presses and releases of keys, which \<^verbatim>\<open>dev/input.c\<close> queues. The ports of the
  controller are hardware: the arguments \<open>inb\<close> and \<open>outb\<close> say what reading and writing them does
  to its state. Loops that poll the controller end only if it answers.
\<close>

section \<open>State\<close>

definition PS2_DATA :: u16 where "PS2_DATA = 0x60"
definition PS2_COMMAND :: u16 where "PS2_COMMAND = 0x64"

abbreviation (input) PS2_STATUS :: u16 where "PS2_STATUS \<equiv> PS2_COMMAND"

definition translation :: bytes where
  "translation =
     [
       0x00, 0x72, 0x00, 0x6E, 0x6C, 0x6A, 0x6B, 0x75, 0x00, 0x73, 0x71, 0x6F, 0x6D, 0x09, 0x60, 0x00,
       0x00, 0x17, 0x0E, 0x00, 0x15, 0x51, 0x31, 0x00, 0x00, 0x00, 0x5A, 0x53, 0x41, 0x57, 0x32, 0x00,
       0x00, 0x43, 0x58, 0x44, 0x45, 0x34, 0x33, 0x00, 0x00, 0x20, 0x56, 0x46, 0x54, 0x52, 0x35, 0x00,
       0x00, 0x4E, 0x42, 0x48, 0x47, 0x59, 0x36, 0x00, 0x00, 0x00, 0x4D, 0x4A, 0x55, 0x37, 0x38, 0x00,
       0x00, 0x2C, 0x4B, 0x49, 0x4F, 0x30, 0x39, 0x00, 0x00, 0x2E, 0x2F, 0x4C, 0x3B, 0x50, 0x2D, 0x00,
       0x00, 0x00, 0x27, 0x00, 0x5B, 0x3D, 0x00, 0x00, 0x1C, 0x0F, 0x0D, 0x5D, 0x00, 0x5C, 0x00, 0x00,
       0x00, 0x00, 0x00, 0x00, 0x00, 0x00, 0x08, 0x00, 0x00, 0x6B, 0x00, 0x6E, 0x71, 0x00, 0x00, 0x00,
       0x6A, 0x07, 0x6C, 0x6F, 0x70, 0x72, 0x1B, 0x01, 0x74, 0x05, 0x6D, 0x04, 0x03, 0x73, 0x68, 0x00] @ replicate 128 0"

record 'd ps2sys =
  dual :: bool
  release :: bool
  pressed :: "bool list"
  last_cmd_byte :: u8
  leds :: u8
  ports :: 'd
  kin :: insys

type_synonym 'd inport = "u16 \<Rightarrow> 'd \<Rightarrow> u8 \<times> 'd"
type_synonym 'd outport = "u16 \<Rightarrow> u8 \<Rightarrow> 'd \<Rightarrow> 'd"

section \<open>Interrupts\<close>

definition ps2ms_irq :: "'d inport \<Rightarrow> 'd ps2sys \<Rightarrow> 'd ps2sys" where
  "ps2ms_irq inb s =
     (let d1 = snd (inb PS2_DATA (ports s)); d2 = snd (inb PS2_DATA d1)
      in s\<lparr>ports := snd (inb PS2_DATA d2)\<rparr>)"

definition ps2kb_irq :: "'d inport \<Rightarrow> 'd ps2sys \<Rightarrow> 'd ps2sys res" where
  "ps2kb_irq inb s =
     (case inb PS2_DATA (ports s) of (scancode, d) \<Rightarrow>
        let s = s\<lparr>ports := d\<rparr>
        in if scancode \<ge> 0xFA then Inr (s\<lparr>last_cmd_byte := scancode\<rparr>)
           else if scancode = 0xE0 then Inr s
           else if scancode = 0xF0 then Inr (s\<lparr>release := True\<rparr>)
           else if release s then
             bindR (updR (pressed s) (unat scancode) False) (\<lambda>p.
             bindR (nthR translation (unat scancode)) (\<lambda>key.
             mapR (\<lambda>i. s\<lparr>pressed := p, kin := i, release := False\<rparr>) (input_kb_release key (kin s))))
           else
             bindR (nthR (pressed s) (unat scancode)) (\<lambda>b.
               if b then Inr s
               else bindR (updR (pressed s) (unat scancode) True) (\<lambda>p.
                    bindR (nthR translation (unat scancode)) (\<lambda>key.
                    mapR (\<lambda>i. s\<lparr>pressed := p, kin := i\<rparr>) (input_kb_press key (kin s))))))"

section \<open>Commands\<close>

text \<open>\<open>while (inportb(PS2_STATUS) & 0x03);\<close>\<close>

partial_function (option) wait_clear :: "'d inport \<Rightarrow> 'd \<Rightarrow> 'd option" where
  "wait_clear inb d = (case inb PS2_STATUS d of (st, d1) \<Rightarrow> if st AND 3 \<noteq> 0 then wait_clear inb d1 else Some d1)"

text \<open>
  The answer to a command arrives by an interrupt, which stores it into \<open>last_cmd_byte\<close> while
  \<open>ps2kb_send_cmd\<close> waits for it: the answers that will come are an argument. The counter is \<open>count\<close>.
\<close>

function send_cmd :: "'d inport \<Rightarrow> 'd outport \<Rightarrow> nat \<Rightarrow> u8 \<Rightarrow> u8 list \<Rightarrow> 'd \<Rightarrow> (u8 \<times> 'd) option" where
  "send_cmd inb outb count cmd answers d =
     (if count > 3 then Some (0, d)
      else Option.bind (wait_clear inb d) (\<lambda>d1.
        let d2 = outb PS2_DATA cmd d1
        in case dropWhile (\<lambda>a. a = 0) answers of
             [] \<Rightarrow> None
           | a # later \<Rightarrow> if a = 0xFE then send_cmd inb outb (count + 1) cmd later d2 else Some (a, d2)))"
  by pat_completeness auto
termination
  by (relation "measure (\<lambda>(inb, outb, count, _). 4 - count)") auto

declare send_cmd.simps [simp del]

definition ps2kb_send_cmd :: "'d inport \<Rightarrow> 'd outport \<Rightarrow> u8 \<Rightarrow> u8 list \<Rightarrow> 'd ps2sys \<Rightarrow> (u8 \<times> 'd ps2sys) option" where
  "ps2kb_send_cmd inb outb cmd answers s =
     map_option (\<lambda>(r, d). (r, s\<lparr>ports := d, last_cmd_byte := (if r = 0 then 0xFE else r)\<rparr>)) (send_cmd inb outb 0 cmd answers (ports s))"

definition ps2kb_update_leds :: "'d inport \<Rightarrow> 'd outport \<Rightarrow> u8 list \<Rightarrow> u8 list \<Rightarrow> 'd ps2sys \<Rightarrow> 'd ps2sys option" where
  "ps2kb_update_leds inb outb a1 a2 s =
     Option.bind (ps2kb_send_cmd inb outb 0xED a1 s) (\<lambda>(_, s1).
     map_option snd (ps2kb_send_cmd inb outb (leds s1) a2 s1))"

definition set_led :: "u8 \<Rightarrow> bool \<Rightarrow> 'd ps2sys \<Rightarrow> 'd ps2sys" where
  "set_led m on s = s\<lparr>leds := (if on then leds s OR m else leds s AND NOT m)\<rparr>"

definition ps2kb_scrolllock :: "'d inport \<Rightarrow> 'd outport \<Rightarrow> u8 list \<Rightarrow> u8 list \<Rightarrow> bool \<Rightarrow> 'd ps2sys \<Rightarrow> 'd ps2sys option" where
  "ps2kb_scrolllock inb outb a1 a2 on s = ps2kb_update_leds inb outb a1 a2 (set_led 1 on s)"

definition ps2kb_numlock :: "'d inport \<Rightarrow> 'd outport \<Rightarrow> u8 list \<Rightarrow> u8 list \<Rightarrow> bool \<Rightarrow> 'd ps2sys \<Rightarrow> 'd ps2sys option" where
  "ps2kb_numlock inb outb a1 a2 on s = ps2kb_update_leds inb outb a1 a2 (set_led 2 on s)"

definition ps2kb_capslock :: "'d inport \<Rightarrow> 'd outport \<Rightarrow> u8 list \<Rightarrow> u8 list \<Rightarrow> bool \<Rightarrow> 'd ps2sys \<Rightarrow> 'd ps2sys option" where
  "ps2kb_capslock inb outb a1 a2 on s = ps2kb_update_leds inb outb a1 a2 (set_led 4 on s)"

section \<open>Initialisation\<close>

partial_function (option) flush_buffers :: "'d inport \<Rightarrow> 'd \<Rightarrow> 'd option" where
  "flush_buffers inb d = (case inb PS2_STATUS d of (st, d1) \<Rightarrow>
     if st AND 1 \<noteq> 0 then flush_buffers inb (snd (inb PS2_DATA d1)) else Some d1)"

partial_function (option) wait_data :: "'d inport \<Rightarrow> 'd \<Rightarrow> 'd option" where
  "wait_data inb d = (case inb PS2_STATUS d of (st, d1) \<Rightarrow> if st AND 1 \<noteq> 0 then Some d1 else wait_data inb d1)"

text \<open>A command whose answer is read from the data port.\<close>

definition ask :: "'d inport \<Rightarrow> 'd outport \<Rightarrow> u8 \<Rightarrow> 'd \<Rightarrow> (u8 \<times> 'd) option" where
  "ask inb outb cmd d = map_option (inb PS2_DATA) (wait_data inb (outb PS2_COMMAND cmd d))"

definition write_cfg :: "'d outport \<Rightarrow> u8 \<Rightarrow> 'd \<Rightarrow> 'd" where
  "write_cfg outb cfg d = outb PS2_DATA cfg (outb PS2_COMMAND 0x60 d)"

text \<open>The self test with the tries left and \<open>count\<close>; the result is \<open>count\<close> after the loop.\<close>

fun self_test :: "'d inport \<Rightarrow> 'd outport \<Rightarrow> nat \<Rightarrow> nat \<Rightarrow> 'd \<Rightarrow> (nat \<times> 'd) option" where
  "self_test inb outb 0 count d = Some (count + 1, d)"
| "self_test inb outb (Suc n) count d =
     Option.bind (ask inb outb 0xAA d) (\<lambda>(resp, d1).
       if resp \<noteq> 0x55 then self_test inb outb n (count + 1) d1 else Some (count + 1, d1))"

text \<open>The result says whether the handlers were installed; when the self test fails the thread sleeps and returns.\<close>

definition ps2_init ::
    "'d inport \<Rightarrow> 'd outport \<Rightarrow> nat \<Rightarrow> nat \<Rightarrow> 'd ps2sys \<Rightarrow> 'w irqsys \<Rightarrow> (bool \<times> 'd ps2sys \<times> 'w irqsys) res option" where
  "ps2_init inb outb kb_handler ms_handler s q =
     Option.bind (flush_buffers inb (outb PS2_COMMAND 0xA7 (outb PS2_COMMAND 0xAD (ports s)))) (\<lambda>d1.
     Option.bind (ask inb outb 0x20 d1) (\<lambda>(cfg0, d2).
       let two = dual s \<or> cfg0 AND 0x10 \<noteq> 0; cfg = cfg0 AND 0xBC
       in Option.bind (self_test inb outb 4 0 (write_cfg outb cfg d2)) (\<lambda>(count, d3).
          if count \<ge> 4 then Some (Inr (False, s\<lparr>dual := two, ports := d3\<rparr>, q))
          else let cfg' = cfg OR 1 OR (if two then 2 else 0)
               in Option.bind (ask inb outb 0xAB (write_cfg outb cfg d3)) (\<lambda>(_, d4).
                  Option.bind (if two then map_option snd (ask inb outb 0xA9 d4) else Some d4) (\<lambda>d5.
                    let d6 = outb PS2_COMMAND 0xAE (write_cfg outb cfg' d5);
                        d7 = (if two then outb PS2_COMMAND 0xA8 d6 else d6);
                        d8 = outb PS2_COMMAND 0xFF d7;
                        d9 = (if two then outb PS2_COMMAND 0xFF d8 else d8)
                    in Option.bind (flush_buffers inb d9) (\<lambda>d10. Some
                         (bindR (irq_install 1 kb_handler q) (\<lambda>(_, q1).
                          bindR (irq_install 12 ms_handler q1) (\<lambda>(_, q2).
                            Inr (True, s\<lparr>dual := two, ports := d10\<rparr>, q2))))))))))"

section \<open>Typing\<close>

lemma length_translation: "length translation = 256"
  by (simp add: translation_def)

text \<open>A controller that delivers the given bytes one after the other.\<close>

definition byte_port :: "bytes inport" where
  "byte_port port d = (if port = PS2_DATA then (case d of [] \<Rightarrow> (0, []) | b # bs \<Rightarrow> (b, bs)) else (if d = [] then 0 else 1, d))"

fun kb_irqs :: "nat \<Rightarrow> bytes ps2sys \<Rightarrow> bytes ps2sys res" where
  "kb_irqs 0 s = Inr s"
| "kb_irqs (Suc n) s = bindR (ps2kb_irq byte_port s) (kb_irqs n)"

text \<open>The code of a key: neither an answer to a command nor a prefix, and not of a modifier.\<close>

definition key_code :: "u8 \<Rightarrow> bool" where
  "key_code c \<longleftrightarrow> c < 0xFA \<and> c \<noteq> 0xE0 \<and> c \<noteq> 0xF0 \<and> modifier (translation ! unat c) = 0"

definition kb_idle :: "bytes ps2sys \<Rightarrow> bool" where
  "kb_idle s \<longleftrightarrow> \<not> release s \<and> pressed s = replicate 256 False \<and> calm (kin s) \<and> kb_ok (kb (kin s)) \<and> \<not> sysrq (kin s) \<and> \<not> control_alt (kin s) \<and>
     pressed_keys (kin s) = replicate 256 False"

lemma key_stroke:
  assumes "kb_idle s" and "key_code c" and "ports s = [c, 0xF0, c] @ r" and "p < m_size (kb (kin s))"
    and "length (unread (kb (kin s)) p) + 2 < m_size (kb (kin s))"
  obtains s' where "kb_irqs 3 s = Inr s'" and "kb_idle s'" and "ports s' = r" and "m_size (kb (kin s')) = m_size (kb (kin s))"
    and "input_flags (kin s') = input_flags (kin s)" and "unread (kb (kin s')) p = unread (kb (kin s)) p @ [input_flags (kin s), translation ! unat c]"
proof -
  let ?k = "translation ! unat c"
  have i: "\<not> release s" "pressed s = replicate 256 False" "calm (kin s)" "kb_ok (kb (kin s))" "\<not> sysrq (kin s)" "\<not> control_alt (kin s)"
      "pressed_keys (kin s) = replicate 256 False"
    using assms(1) by (simp_all add: kb_idle_def)
  have k: "modifier ?k = 0" "unat c < 256" "unat ?k < 256" "\<not> 0xFA \<le> c" "c \<noteq> 0xE0" "c \<noteq> 0xF0"
    using assms(2) unat_u8_less [of c] unat_u8_less [of ?k] by (simp_all add: key_code_def not_le)
  obtain i1 where i1: "input_kb_press ?k (kin s) = Inr i1" "calm i1" "kb_ok (kb i1)" "\<not> sysrq i1" "\<not> control_alt i1"
      "pressed_keys i1 = (pressed_keys (kin s))[unat ?k := True]" "input_flags i1 = input_flags (kin s)" "m_size (kb i1) = m_size (kb (kin s))"
      "unread (kb i1) p = unread (kb (kin s)) p @ [input_flags (kin s), ?k]"
  proof (rule press_one [OF i(3-6) _ k(1) _ assms(4,5)])
    show "length (pressed_keys (kin s)) = 256" "\<not> pressed_keys (kin s) ! unat ?k" using i(7) k(3) by simp_all
  qed (rule that)
  have id: "(replicate 256 False)[n := True, n := False] = replicate 256 False" if "n < 256" for n
    using that by (intro nth_equalityI) (auto simp: nth_list_update)
  let ?i2 = "i1\<lparr>prscnt := 0, pressed_keys := replicate 256 False\<rparr>"
  have i2: "input_kb_release ?k i1 = Inr ?i2" using k(1,3) i1(6) i(7) id by (simp add: input_kb_release_def del: list_update_overwrite)
  let ?s1 = "s\<lparr>ports := 0xF0 # c # r, pressed := (replicate 256 False)[unat c := True], kin := i1\<rparr>"
  let ?s2 = "?s1\<lparr>ports := c # r, release := True\<rparr>"
  let ?s3 = "?s2\<lparr>ports := r, pressed := replicate 256 False, kin := ?i2, release := False\<rparr>"
  have "ps2kb_irq byte_port s = Inr ?s1"
    using assms(3) i(1,2) k i1(1) length_translation by (simp add: ps2kb_irq_def byte_port_def Let_def)
  moreover have "ps2kb_irq byte_port ?s1 = Inr ?s2" by (simp add: ps2kb_irq_def byte_port_def Let_def)
  moreover have "ps2kb_irq byte_port ?s2 = Inr ?s3"
    using k i2 length_translation id by (simp add: ps2kb_irq_def byte_port_def Let_def del: list_update_overwrite)
  ultimately have "kb_irqs 3 s = Inr ?s3" by (simp add: numeral_3_eq_3)
  moreover have "kb_idle ?s3" using i1 by (simp add: kb_idle_def calm_def control_alt_def)
  ultimately show ?thesis using i1 by (intro that [of ?s3]) simp_all
qed

lemma kb_irqs_add: "kb_irqs (m + n) s = bindR (kb_irqs m s) (kb_irqs n)"
proof (induction m arbitrary: s)
  case (Suc m)
  show ?case by (cases "ps2kb_irq byte_port s") (simp_all add: Suc.IH)
qed simp

lemma type_keys:
  assumes "kb_idle s" and "\<forall>c \<in> set cs. key_code c" and "ports s = concat (map (\<lambda>c. [c, 0xF0, c]) cs) @ r" and "p < m_size (kb (kin s))"
    and "length (unread (kb (kin s)) p) + 2 * length cs < m_size (kb (kin s))"
  shows "\<exists>s'. kb_irqs (3 * length cs) s = Inr s' \<and> kb_idle s' \<and> m_size (kb (kin s')) = m_size (kb (kin s)) \<and>
    unread (kb (kin s')) p = unread (kb (kin s)) p @ concat (map (\<lambda>c. [input_flags (kin s), translation ! unat c]) cs)"
  using assms
proof (induction cs arbitrary: s)
  case (Cons c cs)
  obtain s1 where s1: "kb_irqs 3 s = Inr s1" "kb_idle s1" "ports s1 = concat (map (\<lambda>c. [c, 0xF0, c]) cs) @ r" "m_size (kb (kin s1)) = m_size (kb (kin s))"
      "input_flags (kin s1) = input_flags (kin s)" "unread (kb (kin s1)) p = unread (kb (kin s)) p @ [input_flags (kin s), translation ! unat c]"
  proof (rule key_stroke [OF Cons.prems(1) _ _ Cons.prems(4)])
    show "key_code c" "ports s = [c, 0xF0, c] @ concat (map (\<lambda>c. [c, 0xF0, c]) cs) @ r" "length (unread (kb (kin s)) p) + 2 < m_size (kb (kin s))"
      using Cons.prems(2,3,5) by simp_all
  qed (rule that)
  have n: "3 * length (c # cs) = 3 + 3 * length cs" by simp
  obtain s' where "kb_irqs (3 * length cs) s1 = Inr s'" "kb_idle s'" "m_size (kb (kin s')) = m_size (kb (kin s))"
      "unread (kb (kin s')) p = unread (kb (kin s1)) p @ concat (map (\<lambda>c. [input_flags (kin s), translation ! unat c]) cs)"
    using Cons.IH [OF s1(2) _ s1(3)] Cons.prems(2,4,5) s1(4-6) by auto
  then show ?case using s1(1,6) unfolding n kb_irqs_add by simp
qed simp

text \<open>
  C9: A text typed on the keyboard, every key pressed and released, arrives at a reader of the keyboard: the
  interrupts for the scan codes queue the keys that the table gives for them, in order, also when the
  same key is typed again, and then there is none left.
\<close>

theorem typed_keys_delivered:
  assumes "kb_idle s" and "\<forall>c \<in> set cs. key_code c" and "ports s = concat (map (\<lambda>c. [c, 0xF0, c]) cs)" and "2 * length cs < m_size (kb (kin s))"
  shows "\<exists>s' i'. kb_irqs (3 * length cs) s = Inr s' \<and>
    get_keys (length cs) (input_kb_sync (kin s)) (kin s') =
      Inr (map (\<lambda>c. (ucast (translation ! unat c), input_flags (kin s))) cs, input_kb_sync (kin s'), i') \<and>
    kb_get (input_kb_sync (kin s')) 0 (kb i') = Inr (input_kb_sync (kin s'), 0, 0)"
proof -
  let ?p = "input_kb_sync (kin s)"
  let ?kf = "map (\<lambda>c. (translation ! unat c, input_flags (kin s))) cs"
  note f = fresh_position [of "kin s"]
  have ok: "kb_ok (kb (kin s))" using assms(1) by (simp add: kb_idle_def)
  obtain s' where s': "kb_irqs (3 * length cs) s = Inr s'" "kb_idle s'" "m_size (kb (kin s')) = m_size (kb (kin s))"
      "unread (kb (kin s')) ?p = concat (map (\<lambda>c. [input_flags (kin s), translation ! unat c]) cs)"
    using type_keys [OF assms(1,2), of "[]" ?p] f ok assms(3,4) by auto
  have u: "unread (kb (kin s')) ?p = concat (map (\<lambda>(k, f). [f, k]) ?kf)" using s'(4) by (simp add: comp_def)
  have c: "calm (kin s')" "kb_ok (kb (kin s'))" using s'(2) by (simp_all add: kb_idle_def)
  obtain i' where "get_keys (length ?kf) ?p (kin s') = Inr (map (\<lambda>(k, f). (ucast k, f)) ?kf, input_kb_sync (kin s'), i')"
      "kb_get (input_kb_sync (kin s')) 0 (kb i') = Inr (input_kb_sync (kin s'), 0, 0)"
    using read_all_keys [OF c _ _ u] f ok s'(3) by auto
  then show ?thesis using s'(1) by (intro exI [of _ s'] exI [of _ i']) (simp add: comp_def)
qed

definition kb_example :: "bytes ps2sys" where
  "kb_example = \<lparr>dual = False, release = False, pressed = replicate 256 False, last_cmd_byte = 0, leds = 0,
     ports = [0x1C, 0xF0, 0x1C, 0x1C, 0xF0, 0x1C, 0x32, 0xF0, 0x32], kin = quiet_input\<rparr>"

lemma quiet_input_idle: "calm quiet_input" "kb_ok (kb quiet_input)" "\<not> sysrq quiet_input" "\<not> control_alt quiet_input"
    "pressed_keys quiet_input = replicate 256 False" "m_size (kb quiet_input) = 8"
  using two_threads_ok(2)
  by (simp_all add: quiet_input_def calm_def event_idle_def kb_ok_def cbufm_ok_def cbufm_create_def control_alt_def INPUT_CONTROL_FLAG_def)

theorem typed_keys_delivered_witness:
  "\<exists>s' i'. kb_irqs 9 kb_example = Inr s' \<and>
    get_keys 3 (input_kb_sync quiet_input) (kin s') = Inr ([(0x41, 1), (0x41, 1), (0x42, 1)], input_kb_sync (kin s'), i')"
proof -
  let ?cs = "[0x1C, 0x1C, 0x32] :: bytes"
  have id: "kb_idle kb_example" using quiet_input_idle by (simp add: kb_idle_def kb_example_def)
  have tr: "translation ! 28 = 0x41" "translation ! 50 = 0x42" by (simp_all add: translation_def)
  then have kc: "\<forall>c \<in> set ?cs. key_code c" by (simp add: key_code_def modifier_def)
  have k: "ports kb_example = concat (map (\<lambda>c. [c, 0xF0, c]) ?cs)" "kin kb_example = quiet_input" by (simp_all add: kb_example_def)
  have sz: "2 * length ?cs < m_size (kb (kin kb_example))" using quiet_input_idle(6) k(2) by simp
  have l: "length ?cs = 3" "3 * (3 :: nat) = 9" "input_flags quiet_input = 1" by (simp_all add: quiet_input_def)
  show ?thesis using typed_keys_delivered [OF id kc k(1) sz, unfolded l k(2)] tr by (auto simp del: get_keys.simps)
qed

text \<open>The escape key has the number that the input code takes for a control key.\<close>

theorem escape_holds_control:
  assumes "ports s = 0x76 # r" and "\<not> release s" and "length (pressed s) = 256" and "\<not> pressed s ! 0x76"
  shows "ps2kb_irq byte_port s = Inr (s\<lparr>ports := r, pressed := (pressed s)[0x76 := True],
    kin := (kin s)\<lparr>input_flags := input_flags (kin s) OR INPUT_CONTROL_FLAG\<rparr>\<rparr>)"
proof -
  have "translation ! 0x76 = 0x1B" by (simp add: translation_def)
  then show ?thesis using assms length_translation
    by (simp add: ps2kb_irq_def byte_port_def Let_def input_kb_press_def modifier_def INPUT_CONTROL_FLAG_def)
qed

section \<open>Initialisation ends\<close>

text \<open>
  A controller that has unread bytes, and answers the commands that read the configuration, test
  the controller and test its interfaces with one byte each; \<open>tests\<close> are the answers to the self test.
\<close>

type_synonym controller = "bytes \<times> bytes"

definition ctl_in :: "controller inport" where
  "ctl_in port d = (case d of (q, tests) \<Rightarrow>
     if port = PS2_DATA then (case q of [] \<Rightarrow> (0, d) | b # bs \<Rightarrow> (b, (bs, tests))) else (if q = [] then 0 else 1, d))"

definition ctl_out :: "u8 \<Rightarrow> controller outport" where
  "ctl_out cfg port b d = (case d of (q, tests) \<Rightarrow>
     if port \<noteq> PS2_COMMAND then d
     else if b = 0x20 then (q @ [cfg], tests)
     else if b = 0xAA then (case tests of [] \<Rightarrow> d | t # ts \<Rightarrow> (q @ [t], ts))
     else if b = 0xAB \<or> b = 0xA9 then (q @ [0], tests) else d)"

lemma ctl_flush: "flush_buffers ctl_in (q, tests) = Some ([], tests)"
proof (induction q)
  case Nil
  show ?case by (simp add: flush_buffers.simps [of _ "([], tests)"] ctl_in_def PS2_DATA_def PS2_COMMAND_def)
next
  case (Cons b q)
  show ?case by (simp add: flush_buffers.simps [of _ "(b # q, tests)"] ctl_in_def PS2_DATA_def PS2_COMMAND_def Cons.IH [unfolded ctl_in_def PS2_DATA_def PS2_COMMAND_def])
qed


lemma ctl_ask:
  "ask ctl_in (ctl_out cfg) 0x20 ([], tests) = Some (cfg, ([], tests))"
  "ask ctl_in (ctl_out cfg) 0xAB ([], tests) = Some (0, ([], tests))"
  "ask ctl_in (ctl_out cfg) 0xA9 ([], tests) = Some (0, ([], tests))"
  "ask ctl_in (ctl_out cfg) 0xAA ([], t # tests) = Some (t, ([], tests))"
  by (simp_all add: ask_def ctl_out_def ctl_in_def wait_data.simps PS2_DATA_def PS2_COMMAND_def)

lemma ctl_write_cfg: "write_cfg (ctl_out cfg) b d = d"
  by (simp add: write_cfg_def ctl_out_def PS2_DATA_def PS2_COMMAND_def split: prod.split)

lemma ctl_command: "b \<notin> {0x20, 0xAA, 0xAB, 0xA9} \<Longrightarrow> ctl_out cfg PS2_COMMAND b d = d"
  by (simp add: ctl_out_def split: prod.split)

text \<open>The self test is tried at most four times, but only the first three tries can succeed.\<close>

lemma ctl_self_test:
  "self_test ctl_in (ctl_out cfg) 4 0 ([], [t1, t2, t3, t4]) =
     Some (if t1 = 0x55 then (1, ([], [t2, t3, t4])) else if t2 = 0x55 then (2, ([], [t3, t4]))
       else if t3 = 0x55 then (3, ([], [t4])) else (if t4 = 0x55 then 4 else 5, ([], [])))"
  by (simp add: numeral_eq_Suc ctl_ask)

text \<open>
  The initialisation ends on a controller that answers its commands, whatever bytes it still has to deliver,
  and installs the handlers of the keyboard and of the mouse behind the ones that are there exactly if one
  of the first three self tests succeeds; a success at the fourth try, which the code makes, is not accepted.
\<close>

theorem ps2_init_ends:
  assumes "ports s = (q, [t1, t2, t3, t4])" and "length (irqs w) = 24"
  shows "\<exists>s' w'. ps2_init ctl_in (ctl_out cfg) kbh msh s w = Some (Inr (0x55 \<in> {t1, t2, t3}, s', w')) \<and> dual s' = (dual s \<or> cfg AND 0x10 \<noteq> 0) \<and>
    w' = (if 0x55 \<in> {t1, t2, t3} then w\<lparr>irqs := (irqs w)[1 := irqs w ! 1 @ [kbh], 12 := irqs w ! 12 @ [msh]]\<rparr> else w)"
proof -
  have i: "bindR (irq_install 1 kbh w) (\<lambda>(_, q1). bindR (irq_install 12 msh q1) (\<lambda>(_, q2). Inr (True, x, q2))) =
      Inr (True, x, w\<lparr>irqs := (irqs w)[1 := irqs w ! 1 @ [kbh], 12 := irqs w ! 12 @ [msh]]\<rparr>)" for x :: "controller ps2sys"
    using assms(2) by (simp add: irq_install_def chain_at_def)
  define r where "r = self_test ctl_in (ctl_out cfg) 4 0 ([], [t1, t2, t3, t4])"
  have "\<exists>count ts. r = Some (count, ([], ts)) \<and> (count \<ge> 4 \<longleftrightarrow> 0x55 \<notin> {t1, t2, t3})"
    unfolding r_def ctl_self_test by simp
  then obtain count ts where st: "r = Some (count, ([], ts))" "count \<ge> 4 \<longleftrightarrow> 0x55 \<notin> {t1, t2, t3}" by blast
  show ?thesis
    using st(2) unfolding ps2_init_def assms(1)
    by (auto simp: ctl_command ctl_flush ctl_ask ctl_write_cfg r_def [symmetric] st(1) Let_def i)
qed

theorem ps2_init_ends_witness:
  "\<exists>s' w'. ps2_init ctl_in (ctl_out 0x30) 7 8 \<lparr>dual = False, release = False, pressed = [], last_cmd_byte = 0, leds = 0, ports = ([1, 2], [0, 0x55, 0x55, 0x55]),
      kin = quiet_input\<rparr> irq_example = Some (Inr (True, s', w')) \<and> dual s' \<and> irqs w' ! 1 = [7, 8, 7]"
proof -
  have "length (irqs irq_example) = 24" "irqs irq_example ! Suc 0 = [7, 8]" by (simp_all add: irq_example_def)
  then show ?thesis
    using ps2_init_ends [where s = "\<lparr>dual = False, release = False, pressed = [], last_cmd_byte = 0, leds = 0, ports = ([1, 2], [0, 0x55, 0x55, 0x55]),
        kin = quiet_input\<rparr>" and w = irq_example and cfg = "0x30" and kbh = 7 and msh = 8] by auto
qed

end
