(* ===== verification/Printk.thy ===== *)
theory Printk
  imports Snprintf Tty
begin

text \<open>
  \<^verbatim>\<open>kernel/printk.c\<close> and \<^verbatim>\<open>kernel/putsk.c\<close>: formatted output to the first terminal, with
  a label in front of a line and sequences that set the colour. The conversions are those of
  \<open>snprintf\<close>; the state is the console and whether a new line begins.
\<close>

section \<open>Output\<close>

record printsys =
  newline_encountered :: bool
  pcon :: console

definition on_pcon :: "(console \<Rightarrow> console res) \<Rightarrow> printsys \<Rightarrow> printsys res" where
  "on_pcon f s = mapR (\<lambda>c. s\<lparr>pcon := c\<rparr>) (f (pcon s))"

fun put_times :: "nat \<Rightarrow> u8 \<Rightarrow> console \<Rightarrow> console res" where
  "put_times 0 c s = Inr s"
| "put_times (Suc n) c s = bindR (tty_putchar 0 c s) (put_times n c)"

definition printk_common :: "bytes \<Rightarrow> u8 \<Rightarrow> nat \<Rightarrow> console \<Rightarrow> console res" where
  "printk_common buffer pad_char pad_len s =
     bindR (if pad_len \<noteq> 0 then bindR (strlen buffer) (\<lambda>n. put_times (pad_count pad_len n) pad_char s) else Inr s)
       (tty_write 0 buffer)"

section \<open>Labels\<close>

datatype label_part = LColor u8 | LText string

definition label :: "u8 \<Rightarrow> label_part list" where
  "label c =
     (if c = 49 then [LColor 90, LText '' [  '', LColor 97, LColor 92, LText ''OK'', LColor 90, LText ''  ] '', LColor 97]
      else if c = 50 then [LColor 90, LText '' [ '', LColor 93, LText ''WARN'', LColor 90, LText '' ] '', LColor 97]
      else if c = 51 then [LColor 90, LText '' [ '', LColor 91, LText ''FAIL'', LColor 90, LText '' ] '', LColor 97]
      else if c = 52 then [LColor 90, LText '' [ '', LColor 94, LText ''INIT'', LColor 90, LText '' ] '', LColor 97]
      else if c = 53 then [LColor 90, LText '' [ '', LColor 36, LText ''DEV '', LColor 90, LText '' ] '', LColor 97]
      else [])"

fun show_label :: "label_part list \<Rightarrow> console \<Rightarrow> console res" where
  "show_label [] s = Inr s"
| "show_label (LColor a # ps) s = bindR (tty_set_color_ansi 0 a s) (show_label ps)"
| "show_label (LText x # ps) s = bindR (tty_write 0 (cstr x) s) (show_label ps)"

section \<open>The loop over the format\<close>

function printk_loop :: "bytes \<Rightarrow> varg list \<Rightarrow> printsys \<Rightarrow> printsys res" where
  "printk_loop [] args s = Inl OutOfBounds"
| "printk_loop (c # f) args s =
     (if c = 0 then Inr s
      else if c \<noteq> 37 then
        bindR (on_pcon (tty_putchar 0 c) (if c = 10 then s\<lparr>newline_encountered := True\<rparr> else s)) (printk_loop f args)
      else bindR (spec_at f) (\<lambda>(pad_with, pad_len, leng, t, k).
        if t = 36 then
          bindR (nthR f (Suc k)) (\<lambda>b.
            if b \<noteq> 123 then printk_loop (drop (k + 2) f) args s
            else let ds = takeWhile (\<lambda>c. c \<noteq> 125 \<and> c \<noteq> 0) (drop (k + 2) f)
                 in if 71 < length ds then Inl OutOfBounds
                    else bindR (nthR f (k + 2 + length ds)) (\<lambda>_.
                         bindR (atoi (ds @ [0])) (\<lambda>n.
                         bindR (on_pcon (tty_set_color_ansi 0 (ucast n)) s) (printk_loop (drop (k + 3 + length ds) f) args))))
        else if t = 99 then
          bindR (on_pcon (printk_common [0] pad_with pad_len) s) (\<lambda>s1.
          bindR (num_arg args) (\<lambda>(w, rest).
          bindR (on_pcon (tty_putchar 0 (ucast w)) s1) (printk_loop (drop (Suc k) f) rest)))
        else bindR (convert t leng args) (\<lambda>r. case r of
            None \<Rightarrow> bindR (on_pcon (tty_putchar 0 t) s) (printk_loop (drop (Suc k) f) args)
          | Some (buffer, args') \<Rightarrow>
              bindR (on_pcon (printk_common buffer (pad_of t pad_with) pad_len) s) (printk_loop (drop (Suc k) f) args'))))"
  by pat_completeness auto
termination
  by (relation "measure (\<lambda>(f, args, s). length f)") auto

declare printk_loop.simps(2) [simp del]

definition printk :: "bytes \<Rightarrow> varg list \<Rightarrow> printsys \<Rightarrow> printsys res" where
  "printk format params s =
     bindR (nthR format 0) (\<lambda>c0.
       let spec = (c0 = 94); f = (if spec then drop 1 format else format)
       in bindR (if spec \<and> newline_encountered s
                 then bindR (nthR f 0) (\<lambda>d. mapR (\<lambda>s'. (label d \<noteq> [], drop 1 f, s')) (on_pcon (show_label (label d)) s))
                 else Inr (False, f, s)) (\<lambda>(skip_padding, f1, s1).
          bindR (if newline_encountered s1
                 then mapR (\<lambda>s'. s'\<lparr>newline_encountered := False\<rparr>) (if skip_padding then Inr s1 else on_pcon (tty_write 0 (cstr ''  '')) s1)
                 else Inr s1) (printk_loop f1 params)))"

fun putsk :: "bytes \<Rightarrow> console \<Rightarrow> console res" where
  "putsk [] s = Inl OutOfBounds"
| "putsk (c # str) s = (if c = 0 then Inr s else bindR (tty_putchar 0 c s) (putsk str))"

section \<open>Room on the screen\<close>

text \<open>The first terminal has room for \<open>n\<close> characters, and the hardware cursor is where its cursor is.\<close>

definition ready_for :: "nat \<Rightarrow> console \<Rightarrow> bool" where
  "ready_for n s \<longleftrightarrow> console_ok s \<and> ttys s \<noteq> [] \<and> nat (cursor_index (ttys s ! 0)) + n \<le> area (ttys s ! 0) \<and>
     (tty_current s = 0 \<longrightarrow> hw_cursor s = hw_position (cursor_x (ttys s ! 0)) (cursor_y (ttys s ! 0)))"

lemma console_run_append: "console_run (a @ b) s = bindR (console_run a s) (console_run b)"
proof (induction a arbitrary: s)
  case (Cons c a)
  show ?case by (cases "console_step c s") (simp_all add: Cons.IH)
qed simp

abbreviation puts :: "bytes \<Rightarrow> console \<Rightarrow> console res" where
  "puts tx \<equiv> console_run (map (Putchar 0) tx)"

lemma put_times_puts: "put_times n c s = puts (replicate n c) s"
proof (induction n arbitrary: s)
  case (Suc n)
  show ?case by (cases "tty_putchar 0 c s") (simp_all add: Suc.IH)
qed simp

lemma puts_ready:
  assumes "ready_for n s" and "\<forall>c \<in> set msg. plain c" and "length msg \<le> n"
  shows "\<exists>s'. puts msg s = Inr s' \<and> ready_for (n - length msg) s'"
proof -
  let ?t = "ttys s ! 0" let ?cur = "0 = tty_current s"
  have r: "console_ok s" "ttys s \<noteq> []" "nat (cursor_index ?t) + length msg \<le> area ?t" "nat (cursor_index ?t) + n \<le> area ?t"
    using assms(1,3) by (simp_all add: ready_for_def)
  have f: "frame_ok ?t (display s)" "cursor_ok ?t" using r(1,2) by (simp_all add: console_ok_def)
  obtain t' d' where t': "putchars msg ?cur ?t (display s) (hw_cursor s) = Inr (t', d',
        if ?cur \<and> msg \<noteq> [] then hw_position (cursor_x t') (cursor_y t') else hw_cursor s)"
      "cursor_index t' = cursor_index ?t + int (length msg)" "cursor_ok t'" "area t' = area ?t" "msg = [] \<longrightarrow> t' = ?t"
    using write_loop_plain [OF f(1,1,2) assms(2) r(3), of ?cur "[]" 0 "hw_cursor s"] by (cases "msg = []") auto
  define s' where "s' = s\<lparr>ttys := (ttys s)[0 := t'], display := d',
    hw_cursor := (if ?cur \<and> msg \<noteq> [] then hw_position (cursor_x t') (cursor_y t') else hw_cursor s)\<rparr>"
  have e: "puts msg s = Inr s'" using putchars_run [of 0 s msg] r(2) t'(1) by (simp add: on_tty_def s'_def)
  have "\<forall>c \<in> set (map (Putchar 0) msg). call_ok (map size_x (ttys s)) (map size_y (ttys s)) c" using r(2) by auto
  then have "console_ok s'" using console_run_ok [OF r(1)] e by fastforce
  moreover have "nat (cursor_index t') + (n - length msg) \<le> area t'"
    using t'(2,4) r(4) assms(3) index_nonneg [OF f] by simp
  moreover have "tty_current s = 0 \<longrightarrow> hw_cursor s' = hw_position (cursor_x t') (cursor_y t')"
    using t'(5) assms(1) by (auto simp: s'_def ready_for_def)
  ultimately show ?thesis using e r(2) by (intro exI [of _ s']) (simp add: ready_for_def s'_def)
qed

lemma tty_write_puts:
  assumes "ready_for (length msg) s" and "\<forall>c \<in> set msg. plain c"
  shows "tty_write 0 (msg @ 0 # r) s = puts msg s"
proof (cases "msg = []")
  case True
  have f: "frame_ok (ttys s ! 0) (display s)" "cursor_ok (ttys s ! 0)" "ttys s \<noteq> []" using assms(1) by (simp_all add: ready_for_def console_ok_def)
  have "show_cells (cursor_index (ttys s ! 0)) 0 (ttys s ! 0) (display s) = Inr (display s)"
    using index_nonneg [OF f(1,2)] assms(1) f(1) by (simp add: show_cells_def ready_for_def frame_ok_def True)
  then have "write_on (0 # r) (0 = tty_current s) (ttys s ! 0) (display s) (hw_cursor s) = Inr (ttys s ! 0, display s, hw_cursor s)"
    using assms(1) by (auto simp: write_on_def ready_for_def)
  then show ?thesis using True f(3) by (simp add: tty_write_def on_tty_def list_update_same_conv)
next
  case False
  have "console_ok s" "nat 0 < length (ttys s)" "nat (cursor_index (ttys s ! nat 0)) + length msg \<le> area (ttys s ! nat 0)"
    using assms(1) by (simp_all add: ready_for_def)
  then show ?thesis using write_text_putchars [of s 0 msg r] assms(2) False by simp
qed

section \<open>Printing is rendering\<close>

lemma strlen_split: "strlen b = Inr n \<Longrightarrow> b = take n b @ 0 # drop (Suc n) b \<and> length (take n b) = n"
proof (induction b arbitrary: n)
  case (Cons c b)
  then show ?case by (cases "c = 0") (auto simp: mapR_eq_Inr_iff)
qed simp

lemma printk_common_puts:
  assumes "field buffer pad_char pad_len = Inr tx" and "ready_for (length tx) s" and "\<forall>c \<in> set tx. plain c"
  shows "printk_common buffer pad_char pad_len s = puts tx s"
proof -
  obtain n where n: "strlen buffer = Inr n" using assms(1) by (cases "strlen buffer") (auto simp: field_def)
  define pad where "pad = (if pad_len = 0 then [] else replicate (pad_count pad_len n) pad_char)"
  have tx: "tx = pad @ take n buffer" using assms(1) n by (simp add: field_def pad_def)
  note sp = strlen_split [OF n]
  obtain s1 where s1: "puts pad s = Inr s1" "ready_for (length (take n buffer)) s1"
    using puts_ready [OF assms(2), of pad] assms(3) tx by auto
  have "tty_write 0 buffer s1 = puts (take n buffer) s1"
    using tty_write_puts [OF s1(2), of "drop (Suc n) buffer"] sp assms(3) tx by simp
  moreover have "printk_common buffer pad_char pad_len s = bindR (puts pad s) (tty_write 0 buffer)"
    using n by (simp add: printk_common_def pad_def put_times_puts)
  ultimately show ?thesis using s1(1) by (simp add: tx console_run_append)
qed

text \<open>The conversions that \<open>snprintf\<close> has too.\<close>

function shared_specs :: "bytes \<Rightarrow> bool" where
  "shared_specs [] = True"
| "shared_specs (c # f) =
     (if c = 0 then True
      else if c \<noteq> 37 then shared_specs f
      else case spec_at f of
          Inl _ \<Rightarrow> True
        | Inr (_, _, _, t, k) \<Rightarrow> t \<noteq> 36 \<and> t \<noteq> 99 \<and> shared_specs (drop (Suc k) f))"
  by pat_completeness auto
termination
  by (relation "measure length") auto

declare shared_specs.simps(2) [simp del]

lemma on_pcon_Inr: "f (pcon s) = Inr c \<Longrightarrow> on_pcon f s = Inr (s\<lparr>pcon := c\<rparr>)"
  by (simp add: on_pcon_def)

lemma printk_loop_render:
  assumes "render f args = Inr tx" and "shared_specs f" and "\<forall>c \<in> set tx. plain c" and "ready_for (length tx) (pcon s)"
  shows "printk_loop f args s = on_pcon (puts tx) s"
  using assms
proof (induction "length f" arbitrary: f args s tx rule: less_induct)
  case (less f0)
  obtain c f where f0: "f0 = c # f" using less.prems(1) by (cases f0) auto
  have rest: "bindR (on_pcon (puts a) s) (printk_loop (drop n f) args') = on_pcon (puts tx) s"
    if ab: "tx = a @ b" "render (drop n f) args' = Inr b" "shared_specs (drop n f)" for a b n args'
  proof -
    have pl: "\<forall>c \<in> set a. plain c" "\<forall>c \<in> set b. plain c" using less.prems(3) ab(1) by auto
    obtain s1 where s1: "puts a (pcon s) = Inr s1" "ready_for (length b) s1" using puts_ready [OF less.prems(4) pl(1)] ab(1) by auto
    have "printk_loop (drop n f) args' (s\<lparr>pcon := s1\<rparr>) = on_pcon (puts b) (s\<lparr>pcon := s1\<rparr>)"
      using ab(2,3) pl(2) s1(2) f0 by (intro less.hyps) simp_all
    then show ?thesis using s1(1) ab(1) by (simp add: on_pcon_def console_run_append)
  qed
  have one: "on_pcon (tty_putchar 0 x) s = on_pcon (puts [x]) s" for x by (cases "tty_putchar 0 x (pcon s)") (simp_all add: on_pcon_def)
  consider (zero) "c = 0" | (char) "c \<noteq> 0" "c \<noteq> 37" | (spec) "c \<noteq> 0" "c = 37" by blast
  then show ?case
  proof cases
    case zero
    then show ?thesis using less.prems(1) f0 by (simp add: printk_loop.simps(2) render.simps(2) on_pcon_def)
  next
    case char
    obtain tx' where tx': "render f args = Inr tx'" "tx = [c] @ tx'" using less.prems(1) char f0 by (auto simp: render.simps(2) mapR_eq_Inr_iff)
    have "c \<noteq> 10" using less.prems(3) tx'(2) by (simp add: plain_def)
    then show ?thesis using rest [of "[c]" tx' 0 args] char tx' less.prems(2) f0 one by (simp add: printk_loop.simps(2) shared_specs.simps(2))
  next
    case spec
    obtain pad_with pad_len leng t k where sp: "spec_at f = Inr (pad_with, pad_len, leng, t, k)"
      using less.prems(1) spec f0 by (cases "spec_at f") (auto simp: render.simps(2))
    have t: "t \<noteq> 36" "t \<noteq> 99" "shared_specs (drop (Suc k) f)" using less.prems(2) spec sp f0 by (simp_all add: shared_specs.simps(2))
    obtain r where r: "convert t leng args = Inr r" using less.prems(1) spec sp f0 by (cases "convert t leng args") (auto simp: render.simps(2))
    show ?thesis
    proof (cases r)
      case None
      obtain b where b: "render (drop (Suc k) f) args = Inr b" "tx = [t] @ b"
        using less.prems(1) spec sp r None f0 by (auto simp: render.simps(2) mapR_eq_Inr_iff)
      then show ?thesis using rest [OF b(2,1) t(3)] spec sp r None t f0 one by (simp add: printk_loop.simps(2))
    next
      case (Some x)
      obtain buffer args' where x: "x = (buffer, args')" by fastforce
      obtain a b where ab: "field buffer (pad_of t pad_with) pad_len = Inr a" "render (drop (Suc k) f) args' = Inr b" "tx = a @ b"
        using less.prems(1) spec sp r Some x f0 by (auto simp: render.simps(2) mapR_eq_Inr_iff bindR_eq_Inr_iff)
      have "ready_for (length a) (pcon s)" "\<forall>c \<in> set a. plain c" using less.prems(3,4) ab(3) by (auto simp: ready_for_def)
      then have "on_pcon (printk_common buffer (pad_of t pad_with) pad_len) s = on_pcon (puts a) s"
        using printk_common_puts [OF ab(1)] by (simp add: on_pcon_def)
      then show ?thesis using rest [OF ab(3,2) t(3)] spec sp r Some x t f0 by (simp add: printk_loop.simps(2))
    qed
  qed
qed

text \<open>
  C35: Printing to the kernel console is rendering: in the middle of a line printk puts on the first terminal,
  character by character, exactly the text that the formatted output into a buffer of unlimited size
  gives for the same format and arguments, when this text is printable and ends on the screen.
\<close>

theorem printk_renders:
  assumes "render f args = Inr tx" and "shared_specs f" and "\<forall>c \<in> set tx. plain c" and "ready_for (length tx) (pcon s)"
    and "\<not> newline_encountered s" and "hd f \<noteq> 94"
  shows "\<exists>c. console_run (map (Putchar 0) tx) (pcon s) = Inr c \<and> printk f args s = Inr (s\<lparr>pcon := c\<rparr>)"
proof -
  have "f \<noteq> []" using assms(1) by auto
  then have "printk f args s = printk_loop f args s" using assms(5,6) by (cases f) (simp_all add: printk_def)
  also have "\<dots> = on_pcon (puts tx) s" by (rule printk_loop_render [OF assms(1-4)])
  finally show ?thesis using puts_ready [OF assms(4,3)] by (auto simp: on_pcon_def)
qed

theorem printk_renders_witness:
  "\<exists>c. console_run (map (Putchar 0) [110, 61, 52, 50]) small_console = Inr c \<and>
    printk (cstr ''n=%i'') [ANum 42] \<lparr>newline_encountered = False, pcon = small_console\<rparr> = Inr \<lparr>newline_encountered = False, pcon = c\<rparr>"
proof -
  have r: "render (cstr ''n=%i'') [ANum 42] = Inr [110, 61, 52, 50]" and s: "shared_specs (cstr ''n=%i'')" and h: "hd (cstr ''n=%i'') \<noteq> 94"
    by code_simp+
  have "hw_position 0 0 = 0" by (simp add: hw_position_def)
  then have "ready_for (Suc (Suc (Suc (Suc 0)))) small_console" using small_console_ok(1) by (simp add: ready_for_def small_console_def small_tty_def cursor_index_def area_def)
  then show ?thesis
    using printk_renders [OF r s, of "\<lparr>newline_encountered = False, pcon = small_console\<rparr>"] h by (simp add: plain_def)
qed

text \<open>In the middle of a line only the first character of a label is skipped, and its number is printed.\<close>

theorem label_number_printed:
  assumes "\<not> newline_encountered s"
  shows "printk (94 # f) args s = printk_loop f args s"
  using assms by (simp add: printk_def)

end
