(* ===== verification/DevTree.thy ===== *)
theory DevTree
  imports RCPArray Snprintf
begin

text \<open>
  \<^verbatim>\<open>dev/tree.c\<close>: buses with their devices and drivers, and classes. A driver and a class are
  their name and the identity of their functions; what these functions do is an argument of the
  operations that call them. \<open>check\<close> looks at a device; \<open>bind\<close> is given the numbers of the
  bus and of the device and may change everything, the tree included. A device carries data of its
  own that the tree does not look at (\<open>class_data\<close>, \<open>device_private\<close>, \<open>driver_data\<close>).
\<close>

section \<open>State\<close>

datatype dresource_type = DRT_Memory | DRT_IO | DRT_IRQ | DRT_Other

record dattribute =
  dattr_name :: bytes
  dattr_value :: u64

record dresource =
  res_type :: dresource_type
  res_start :: u64
  res_end :: u64

record 'x device =
  device_name :: bytes
  device_class :: bytes
  attributes :: "dattribute rcparray"
  resources :: "dresource rcparray"
  own_data :: 'x

record driver =
  driver_name :: bytes
  driver_id :: nat

record dclass =
  class_name :: bytes
  class_id :: nat

record 'x bus =
  bus_name :: bytes
  bus_devices :: "'x device rcparray"
  bus_drivers :: "driver rcparray"

record ('x, 'w) treesys =
  buses :: "'x bus rcparray"
  classes :: "dclass rcparray"
  outside :: 'w

text \<open>The names in the tree are terminated; a comparison that runs off one of them does not find it.\<close>

definition same_name :: "bytes \<Rightarrow> bytes \<Rightarrow> bool" where
  "same_name a b \<longleftrightarrow> strcmp a b = Inr 0"

definition store_name :: "nat \<Rightarrow> bytes \<Rightarrow> bytes res" where
  "store_name sz name = mapR snd (snprintf (replicate sz 0) sz (cstr ''%s'') [AStr name])"

section \<open>Buses\<close>

definition dev_add_bus :: "bytes \<Rightarrow> ('x, 'w) treesys \<Rightarrow> (int \<times> ('x, 'w) treesys) res" where
  "dev_add_bus name s =
     (case rcparray_find (buses s) (\<lambda>b. same_name (bus_name b) name) of
        (Some (i, _), a) \<Rightarrow> Inr (1, s\<lparr>buses := rcparray_unref a i\<rparr>)
      | (None, a) \<Rightarrow> mapR (\<lambda>n. (0, s\<lparr>buses := snd (rcparray_add a \<lparr>bus_name = n, bus_devices = [], bus_drivers = []\<rparr>)\<rparr>))
          (store_name 32 name))"

definition on_bus :: "nat \<Rightarrow> ('x bus \<Rightarrow> 'x bus) \<Rightarrow> ('x, 'w) treesys \<Rightarrow> ('x, 'w) treesys" where
  "on_bus bid f s = (case rcp_view (buses s) bid of None \<Rightarrow> s | Some sl \<Rightarrow> s\<lparr>buses := rcparray_poke (buses s) bid (f (val sl))\<rparr>)"

text \<open>
  \<open>_try_bind_device\<close>: the array holds pointers to drivers, and \<open>rcparray_get\<close> returns a pointer
  to such a pointer, which the loop takes for the driver itself. The function pointer it then calls
  is read behind the slot.
\<close>

fun try_bind_device :: "nat list \<Rightarrow> driver rcparray \<Rightarrow> driver rcparray res" where
  "try_bind_device [] ds = Inr ds"
| "try_bind_device (did # ids) ds =
     (case rcparray_get ds did of
        (None, ds') \<Rightarrow> try_bind_device ids ds'
      | (Some _, _) \<Rightarrow> Inl OutOfBounds)"

text \<open>The references to the bus, and to a device of the same name, are not given back.\<close>

definition dev_add :: "bytes \<Rightarrow> 'x device \<Rightarrow> ('x, 'w) treesys \<Rightarrow> (int \<times> ('x, 'w) treesys) res" where
  "dev_add bus dev s =
     (case rcparray_find (buses s) (\<lambda>b. same_name (bus_name b) bus) of
        (None, a) \<Rightarrow> Inr (- 1, s\<lparr>buses := a\<rparr>)
      | (Some (bid, b), a) \<Rightarrow>
          let s = s\<lparr>buses := a\<rparr>
          in case rcparray_find (bus_devices b) (\<lambda>e. same_name (device_name e) (device_name dev)) of
               (Some _, ds) \<Rightarrow> Inr (- 1, on_bus bid (\<lambda>b. b\<lparr>bus_devices := ds\<rparr>) s)
             | (None, ds) \<Rightarrow>
                 (case rcparray_add ds dev of (i, ds1) \<Rightarrow>
                    let ds2 = snd (rcparray_get ds1 i)
                    in mapR (\<lambda>drs. (0, on_bus bid (\<lambda>b. b\<lparr>bus_devices := rcparray_unref ds2 i, bus_drivers := drs\<rparr>) s))
                         (try_bind_device (rcparray_foreach (bus_drivers b)) (bus_drivers b))))"

section \<open>Attributes and resources\<close>

definition dev_set_attribute :: "'x device \<Rightarrow> bytes \<Rightarrow> u64 \<Rightarrow> (int \<times> 'x device) res" where
  "dev_set_attribute dev name v =
     (case rcparray_find (attributes dev) (\<lambda>a. same_name (dattr_name a) name) of
        (Some (i, attr), as) \<Rightarrow>
          Inr (1, dev\<lparr>attributes := rcparray_unref (rcparray_poke as i (attr\<lparr>dattr_value := v\<rparr>)) i\<rparr>)
      | (None, as) \<Rightarrow>
          mapR (\<lambda>n. (0, dev\<lparr>attributes := snd (rcparray_add as \<lparr>dattr_name = n, dattr_value = v\<rparr>)\<rparr>)) (store_name 16 name))"

definition dev_get_attribute :: "'x device \<Rightarrow> bytes \<Rightarrow> int \<times> 'x device" where
  "dev_get_attribute dev name =
     (case rcparray_find (attributes dev) (\<lambda>a. same_name (dattr_name a) name) of
        (None, as) \<Rightarrow> (0, dev\<lparr>attributes := as\<rparr>)
      | (Some (_, attr), as) \<Rightarrow> (sint (dattr_value attr), dev\<lparr>attributes := as\<rparr>))"

definition dev_get_resource :: "'x device \<Rightarrow> int \<Rightarrow> dresource option \<times> 'x device" where
  "dev_get_resource dev i =
     (case rcparray_get (resources dev) (to_size_t i) of
        (r, rs) \<Rightarrow> (r, dev\<lparr>resources := rcparray_unref rs (to_size_t i)\<rparr>))"

definition dev_assign_resource :: "'x device \<Rightarrow> dresource \<Rightarrow> int \<times> 'x device" where
  "dev_assign_resource dev ress = (0, dev\<lparr>resources := snd (rcparray_add (resources dev) ress)\<rparr>)"

section \<open>Drivers\<close>

type_synonym ('x, 'w) check_fun = "nat \<Rightarrow> 'x device \<Rightarrow> 'w \<Rightarrow> (int \<times> 'w) res"
type_synonym ('x, 'w) bind_fun = "nat \<Rightarrow> nat \<Rightarrow> nat \<Rightarrow> ('x, 'w) treesys \<Rightarrow> ('x, 'w) treesys res"

text \<open>\<open>_try_bind_driver\<close>, from the device \<open>did\<close> on; a device that is bound keeps its reference.\<close>

partial_function (option) try_bind_driver ::
    "('x, 'w) check_fun \<Rightarrow> ('x, 'w) bind_fun \<Rightarrow> nat \<Rightarrow> nat \<Rightarrow> nat \<Rightarrow> ('x, 'w) treesys \<Rightarrow> ('x, 'w) treesys res option" where
  "try_bind_driver check bind drv bid did s =
     (case rcp_view (buses s) bid of
        None \<Rightarrow> Some (Inl NullDeref)
      | Some sl \<Rightarrow>
          if \<not> rcparray_foreach_cond (bus_devices (val sl)) did then Some (Inr s)
          else (case rcparray_get (bus_devices (val sl)) did of
                  (None, _) \<Rightarrow> try_bind_driver check bind drv bid (Suc did) s
                | (Some dev, ds) \<Rightarrow>
                    (case check drv dev (outside s) of
                       Inl e \<Rightarrow> Some (Inl e)
                     | Inr (r, w) \<Rightarrow>
                         let s1 = (on_bus bid (\<lambda>b. b\<lparr>bus_devices := ds\<rparr>) s)\<lparr>outside := w\<rparr>
                         in if r = 0
                            then (case bind drv bid did s1 of
                                    Inl e \<Rightarrow> Some (Inl e)
                                  | Inr s2 \<Rightarrow> try_bind_driver check bind drv bid (Suc did) s2)
                            else try_bind_driver check bind drv bid (Suc did)
                                   (on_bus bid (\<lambda>b. b\<lparr>bus_devices := rcparray_unref (bus_devices b) did\<rparr>) s1))))"

text \<open>The reference to the driver is given back to the device that has the number of the driver.\<close>

definition dev_register_driver ::
    "('x, 'w) check_fun \<Rightarrow> ('x, 'w) bind_fun \<Rightarrow> bytes \<Rightarrow> driver \<Rightarrow> ('x, 'w) treesys \<Rightarrow> (int \<times> ('x, 'w) treesys) res option" where
  "dev_register_driver check bind bus drv s =
     (case rcparray_find (buses s) (\<lambda>b. same_name (bus_name b) bus) of
        (None, a) \<Rightarrow> Some (Inr (- 1, s\<lparr>buses := a\<rparr>))
      | (Some (bid, b), a) \<Rightarrow>
          let s = s\<lparr>buses := a\<rparr>
          in case rcparray_find (bus_drivers b) (\<lambda>e. same_name (driver_name e) (driver_name drv)) of
               (Some (i, _), ds) \<Rightarrow>
                 let s1 = on_bus bid (\<lambda>b. b\<lparr>bus_drivers := rcparray_unref ds i\<rparr>) s
                 in Some (Inr (- 1, s1\<lparr>buses := rcparray_unref (buses s1) bid\<rparr>))
             | (None, ds) \<Rightarrow>
                 (case rcparray_add ds drv of (i, ds1) \<Rightarrow>
                    map_option (mapR (\<lambda>s1.
                        let s2 = on_bus bid (\<lambda>b. b\<lparr>bus_devices := rcparray_unref (bus_devices b) i\<rparr>) s1
                        in (0, s2\<lparr>buses := rcparray_unref (buses s2) bid\<rparr>)))
                      (try_bind_driver check bind (driver_id drv) bid 0
                         (on_bus bid (\<lambda>b. b\<lparr>bus_drivers := snd (rcparray_get ds1 i)\<rparr>) s))))"

section \<open>Classes\<close>

definition dev_register_class :: "dclass \<Rightarrow> ('x, 'w) treesys \<Rightarrow> int \<times> ('x, 'w) treesys" where
  "dev_register_class cl s =
     (case rcparray_find (classes s) (\<lambda>c. same_name (class_name c) (class_name cl)) of
        (Some (i, _), a) \<Rightarrow> (- 1, s\<lparr>classes := rcparray_unref a i\<rparr>)
      | (None, a) \<Rightarrow> (0, s\<lparr>classes := snd (rcparray_add a cl), buses := rcparray_unref (buses s) (to_size_t (- 1))\<rparr>))"

text \<open>The function of the class gets the device, gives it back, and may change what is outside of the tree.\<close>

definition dev_set_class ::
    "(nat \<Rightarrow> 'x device \<Rightarrow> 'w \<Rightarrow> (int \<times> 'x device \<times> 'w) res) \<Rightarrow> 'x device \<Rightarrow> bytes \<Rightarrow> ('x, 'w) treesys \<Rightarrow>
      (int \<times> 'x device \<times> ('x, 'w) treesys) res" where
  "dev_set_class cbind dev cl s =
     (case rcparray_find (classes s) (\<lambda>c. same_name (class_name c) cl) of
        (None, _) \<Rightarrow> Inl NullDeref
      | (Some (i, c), a) \<Rightarrow>
          bindR (cbind (class_id c) dev (outside s)) (\<lambda>(r, dev', w).
            if r < 0 then Inr (r, dev', s\<lparr>classes := rcparray_unref a i, outside := w\<rparr>)
            else mapR (\<lambda>n. (0, dev'\<lparr>device_class := n\<rparr>, s\<lparr>classes := a, outside := w\<rparr>)) (store_name 32 cl)))"

section \<open>Attributes as a map\<close>

definition text_of :: "bytes \<Rightarrow> bytes" where
  "text_of b = takeWhile (\<lambda>c. c \<noteq> 0) b"

definition stored_name :: "nat \<Rightarrow> bytes \<Rightarrow> bool" where
  "stored_name sz b \<longleftrightarrow> (\<exists>m r. b = m @ 0 # r \<and> cstring m \<and> length m < sz)"

lemma text_of_terminated: "cstring m \<Longrightarrow> text_of (m @ 0 # r) = m"
  unfolding text_of_def by (subst takeWhile_append2) (auto simp: cstring_def)

lemma same_name_text: "stored_name sz b \<Longrightarrow> cstring n \<Longrightarrow> same_name b (n @ 0 # y) \<longleftrightarrow> text_of b = n"
  by (auto simp: stored_name_def same_name_def strcmp_terminated text_of_terminated)

lemma store_name_ok:
  assumes "cstring n" and "length n < sz"
  shows "\<exists>b. store_name sz (n @ 0 # y) = Inr b \<and> stored_name sz b \<and> text_of b = n"
proof -
  have "blit (replicate sz 0) 0 (n @ [0]) = n @ 0 # replicate (sz - Suc (length n)) (0 :: u8)" using assms(2) by (simp add: blit_def)
  then have "store_name sz (n @ 0 # y) = Inr (n @ 0 # replicate (sz - Suc (length n)) 0)"
    using snprintf_cut [OF render_one [OF assms(1)], of sz "replicate sz 0" y] assms(2) by (simp add: store_name_def)
  then show ?thesis using assms text_of_terminated by (auto simp: stored_name_def)
qed

text \<open>A slot that is in use; references to it may be out.\<close>

definition used :: "('a \<Rightarrow> bool) \<Rightarrow> 'a slot option \<Rightarrow> bool" where
  "used P x \<longleftrightarrow> (\<exists>sl. x = Some sl \<and> present sl \<and> 0 < refs sl \<and> P (val sl))"

lemma used_first_null: "\<forall>x \<in> set a. used P x \<Longrightarrow> first_null a = length a"
  by (induction a rule: first_null.induct) (auto simp: used_def)

lemma used_find_loop:
  assumes "\<forall>x \<in> set a. used P x"
  shows "case rcparray_find_loop a Q of
      None \<Rightarrow> (\<forall>x \<in> set a. \<not> Q (val (the x)))
    | Some i \<Rightarrow> i < length a \<and> Q (val (the (a ! i))) \<and> (\<forall>j < i. \<not> Q (val (the (a ! j))))"
  using assms
proof (induction a)
  case (Cons x a)
  obtain sl where sl: "x = Some sl" "present sl" using Cons.prems by (auto simp: used_def)
  then show ?case using Cons by (auto simp: less_Suc_eq_0_disj split: option.splits)
qed simp

lemma map_of_first:
  assumes "i < length l" and "fst (l ! i) = k" and "\<forall>j < i. fst (l ! j) \<noteq> k"
  shows "map_of l k = Some (snd (l ! i))" and "map_of (l[i := (k, v)]) = (map_of l)(k \<mapsto> v)"
proof -
  have "map_of l k = Some (snd (l ! i)) \<and> map_of (l[i := (k, v)]) = (map_of l)(k \<mapsto> v)"
    using assms
  proof (induction l arbitrary: i)
    case (Cons p l)
    show ?case
    proof (cases i)
      case 0
      then show ?thesis using Cons.prems(2) by (cases p) auto
    next
      case (Suc i')
      then have "fst p \<noteq> k" using Cons.prems(3) by auto
      moreover have "map_of l k = Some (snd (l ! i')) \<and> map_of (l[i' := (k, v)]) = (map_of l)(k \<mapsto> v)"
        using Cons.prems Suc by (intro Cons.IH) auto
      ultimately show ?thesis using Suc by (cases p) (auto simp: fun_upd_twist)
    qed
  qed simp
  then show "map_of l k = Some (snd (l ! i))" and "map_of (l[i := (k, v)]) = (map_of l)(k \<mapsto> v)" by simp_all
qed

definition attr_pair :: "dattribute slot option \<Rightarrow> bytes \<times> u64" where
  "attr_pair x = (text_of (dattr_name (val (the x))), dattr_value (val (the x)))"

definition attr_map :: "'x device \<Rightarrow> bytes \<rightharpoonup> u64" where
  "attr_map dev = map_of (map attr_pair (attributes dev))"

definition attrs_ok :: "'x device \<Rightarrow> bool" where
  "attrs_ok dev \<longleftrightarrow> (\<forall>x \<in> set (attributes dev). used (\<lambda>a. stored_name 16 (dattr_name a)) x)"

lemma attrs_ok_nth: "attrs_ok dev \<Longrightarrow> i < length (attributes dev) \<Longrightarrow> used (\<lambda>a. stored_name 16 (dattr_name a)) (attributes dev ! i)"
  unfolding attrs_ok_def using nth_mem by blast

lemma find_attribute:
  assumes "attrs_ok dev" and "cstring n"
  obtains (found) i sl where "i < length (attributes dev)" and "attributes dev ! i = Some sl" and "present sl" and "0 < refs sl"
      and "text_of (dattr_name (val sl)) = n" and "\<forall>j < i. fst (map attr_pair (attributes dev) ! j) \<noteq> n"
      and "rcparray_find (attributes dev) (\<lambda>a. same_name (dattr_name a) (n @ 0 # y)) =
        (Some (i, val sl), (attributes dev)[i := Some (sl\<lparr>refs := refs sl + 1\<rparr>)])"
    | (missing) "n \<notin> dom (attr_map dev)"
      and "rcparray_find (attributes dev) (\<lambda>a. same_name (dattr_name a) (n @ 0 # y)) = (None, attributes dev)"
proof -
  let ?as = "attributes dev" let ?Q = "\<lambda>a. same_name (dattr_name a) (n @ 0 # y)"
  have u: "\<forall>x \<in> set ?as. used (\<lambda>a. stored_name 16 (dattr_name a)) x" using assms(1) by (simp add: attrs_ok_def)
  have q: "?Q (val (the x)) \<longleftrightarrow> fst (attr_pair x) = n" if "x \<in> set ?as" for x
    using u that assms(2) by (auto simp: used_def attr_pair_def same_name_text)
  note fl = used_find_loop [OF u, of ?Q]
  show ?thesis
  proof (cases "rcparray_find_loop ?as ?Q")
    case None
    have "n \<notin> fst ` set (map attr_pair ?as)" using fl None q by auto
    then show ?thesis using None missing by (simp add: attr_map_def dom_map_of_conv_image_fst rcparray_find_def)
  next
    case (Some i)
    then have i: "i < length ?as" "?Q (val (the (?as ! i)))" "\<forall>j < i. \<not> ?Q (val (the (?as ! j)))" using fl by simp_all
    have "used (\<lambda>a. stored_name 16 (dattr_name a)) (?as ! i)" using u nth_mem [OF i(1)] by blast
    then obtain sl where sl: "?as ! i = Some sl" "present sl" "0 < refs sl" by (auto simp: used_def)
    have "text_of (dattr_name (val sl)) = n" using q [OF nth_mem [OF i(1)]] i(2) sl(1) by (simp add: attr_pair_def)
    moreover have "\<forall>j < i. fst (map attr_pair ?as ! j) \<noteq> n" using q i(1,3) by auto
    ultimately show ?thesis using found i(1) sl Some by (simp add: rcparray_find_def rcparray_get_def)
  qed
qed

lemma attrs_ok_update:
  "attrs_ok dev \<Longrightarrow> used (\<lambda>a. stored_name 16 (dattr_name a)) x \<Longrightarrow> attrs_ok (dev\<lparr>attributes := (attributes dev)[i := x]\<rparr>)"
  by (auto simp: attrs_ok_def dest!: set_update_subset_insert [THEN subsetD])

lemma set_attribute_refines:
  assumes "attrs_ok dev" and "cstring n" and "length n < 16"
  shows "\<exists>d. dev_set_attribute dev (n @ 0 # y) v = Inr (if n \<in> dom (attr_map dev) then 1 else 0, d) \<and> attrs_ok d \<and>
    attr_map d = (attr_map dev)(n \<mapsto> v)"
proof (cases rule: find_attribute [OF assms(1,2), of y, case_names found missing])
  case (found i sl)
  let ?x = "Some (sl\<lparr>val := (val sl)\<lparr>dattr_value := v\<rparr>\<rparr>)"
  have st: "stored_name 16 (dattr_name (val sl))" using attrs_ok_nth [OF assms(1) found(1)] found(2) by (simp add: used_def)
  have e: "dev_set_attribute dev (n @ 0 # y) v = Inr (1, dev\<lparr>attributes := (attributes dev)[i := ?x]\<rparr>)"
    using found by (simp add: dev_set_attribute_def rcparray_poke_def rcparray_unref_def Let_def)
  have k: "i < length (map attr_pair (attributes dev))" "fst (map attr_pair (attributes dev) ! i) = n"
    using found(1,2,5) by (simp_all add: attr_pair_def)
  have "attr_pair ?x = (n, v)" using found(5) by (simp add: attr_pair_def)
  then have "attr_map (dev\<lparr>attributes := (attributes dev)[i := ?x]\<rparr>) = (attr_map dev)(n \<mapsto> v)"
    using map_of_first(2) [OF k found(6), of v] by (simp add: attr_map_def map_update)
  moreover have "n \<in> dom (attr_map dev)" using map_of_first(1) [OF k found(6)] by (auto simp: attr_map_def)
  ultimately show ?thesis using e attrs_ok_update [OF assms(1)] found(3,4) st by (auto simp: used_def)
next
  case missing
  obtain b where b: "store_name 16 (n @ 0 # y) = Inr b" "stored_name 16 b" "text_of b = n" using store_name_ok [OF assms(2,3)] by blast
  have l: "first_null (attributes dev) = length (attributes dev)" using assms(1) used_first_null by (auto simp: attrs_ok_def)
  let ?d = "dev\<lparr>attributes := attributes dev @ [Some (fresh_slot \<lparr>dattr_name = b, dattr_value = v\<rparr>)]\<rparr>"
  have "dev_set_attribute dev (n @ 0 # y) v = Inr (0, ?d)" using missing(2) b(1) l by (simp add: dev_set_attribute_def rcparray_add_def)
  moreover have "attrs_ok ?d" using assms(1) b(2) by (auto simp: attrs_ok_def used_def)
  moreover have "attr_map ?d = (attr_map dev)(n \<mapsto> v)"
    using missing(1) b(3) by (auto simp: attr_map_def attr_pair_def map_of_append map_add_def fun_eq_iff split: option.splits)
  ultimately show ?thesis using missing(1) by auto
qed

lemma get_attribute_refines:
  assumes "attrs_ok dev" and "cstring n"
  shows "\<exists>d. dev_get_attribute dev (n @ 0 # y) = (case attr_map dev n of None \<Rightarrow> 0 | Some v \<Rightarrow> sint v, d) \<and> attrs_ok d \<and> attr_map d = attr_map dev"
proof (cases rule: find_attribute [OF assms, of y, case_names found missing])
  case (found i sl)
  let ?x = "Some (sl\<lparr>refs := refs sl + 1\<rparr>)"
  let ?d = "dev\<lparr>attributes := (attributes dev)[i := ?x]\<rparr>"
  have k: "i < length (map attr_pair (attributes dev))" "fst (map attr_pair (attributes dev) ! i) = n"
    using found(1,2,5) by (simp_all add: attr_pair_def)
  have st: "stored_name 16 (dattr_name (val sl))" using attrs_ok_nth [OF assms(1) found(1)] found(2) by (simp add: used_def)
  have "attr_pair ?x = attr_pair (attributes dev ! i)" using found(2) by (simp add: attr_pair_def)
  then have "map attr_pair ((attributes dev)[i := ?x]) = map attr_pair (attributes dev)"
    using found(1) by (simp add: map_update list_update_same_conv)
  then have "attr_map ?d = attr_map dev" by (simp add: attr_map_def)
  moreover have "attr_map dev n = Some (dattr_value (val sl))"
    using map_of_first(1) [OF k found(6)] found(1,2) by (simp add: attr_map_def attr_pair_def)
  moreover have "dev_get_attribute dev (n @ 0 # y) = (sint (dattr_value (val sl)), ?d)" using found by (simp add: dev_get_attribute_def)
  moreover have "attrs_ok ?d" using attrs_ok_update [OF assms(1)] found(3,4) st by (simp add: used_def)
  ultimately show ?thesis by auto
next
  case missing
  have "attr_map dev n = None" using missing(1) by (simp add: domIff)
  moreover have "dev_get_attribute dev (n @ 0 # y) = (0, dev)" using missing(2) by (simp add: dev_get_attribute_def)
  ultimately show ?thesis using assms(1) by simp
qed

section \<open>Binding a driver\<close>

lemma on_bus_eq:
  assumes "bid < length (buses s)" and "buses s ! bid = Some sl"
  shows "on_bus bid f s = s\<lparr>buses := (buses s)[bid := Some (sl\<lparr>val := f (val sl)\<rparr>)]\<rparr>"
  using assms by (simp add: on_bus_def rcparray_poke_def)

text \<open>Functions that decide by the device, and change only what is outside of the tree.\<close>

definition pure_check :: "('x device \<Rightarrow> int) \<Rightarrow> ('x, 'w) check_fun" where
  "pure_check f drv dev w = Inr (f dev, w)"

definition outer_bind :: "('x device \<Rightarrow> 'w \<Rightarrow> 'w) \<Rightarrow> ('x, 'w) bind_fun" where
  "outer_bind g drv bid did s =
     (case rcp_view (buses s) bid of
        None \<Rightarrow> Inl NullDeref
      | Some b \<Rightarrow> (case rcp_view (bus_devices (val b)) did of
          None \<Rightarrow> Inl NullDeref
        | Some d \<Rightarrow> Inr (s\<lparr>outside := g (val d) (outside s)\<rparr>)))"

definition matches :: "('x device \<Rightarrow> int) \<Rightarrow> 'x device slot option \<Rightarrow> bool" where
  "matches f x \<longleftrightarrow> (\<exists>sl. x = Some sl \<and> present sl \<and> f (val sl) = 0)"

definition keep_ref :: "('x device \<Rightarrow> int) \<Rightarrow> 'x device slot option \<Rightarrow> 'x device slot option" where
  "keep_ref f x = (if matches f x then map_option (\<lambda>sl. sl\<lparr>refs := refs sl + 1\<rparr>) x else x)"

definition bound :: "('x device \<Rightarrow> int) \<Rightarrow> 'x device rcparray \<Rightarrow> 'x device list" where
  "bound f ds = map (\<lambda>x. val (the x)) (filter (matches f) ds)"

definition refs_ok :: "'x device rcparray \<Rightarrow> bool" where
  "refs_ok ds \<longleftrightarrow> (\<forall>sl. Some sl \<in> set ds \<longrightarrow> 0 < refs sl)"

text \<open>The state with the given devices on the bus.\<close>

definition with_devices :: "nat \<Rightarrow> 'x bus slot \<Rightarrow> 'x device rcparray \<Rightarrow> 'w \<Rightarrow> ('x, 'w) treesys \<Rightarrow> ('x, 'w) treesys" where
  "with_devices bid sl ds w s = s\<lparr>buses := (buses s)[bid := Some (sl\<lparr>val := (val sl)\<lparr>bus_devices := ds\<rparr>\<rparr>)], outside := w\<rparr>"

lemma with_devices_view:
  "bid < length (buses s) \<Longrightarrow> rcp_view (buses (with_devices bid sl ds w s)) bid = Some (sl\<lparr>val := (val sl)\<lparr>bus_devices := ds\<rparr>\<rparr>)"
  "bid < length (buses s) \<Longrightarrow> bid < length (buses (with_devices bid sl ds w s))"
  "bid < length (buses s) \<Longrightarrow> buses (with_devices bid sl ds w s) ! bid = Some (sl\<lparr>val := (val sl)\<lparr>bus_devices := ds\<rparr>\<rparr>)"
  "outside (with_devices bid sl ds w s) = w"
  by (simp_all add: with_devices_def)

lemma with_devices_on_bus:
  assumes "bid < length (buses s)"
  shows "on_bus bid (\<lambda>b. b\<lparr>bus_devices := ds'\<rparr>) (with_devices bid sl ds w s) = with_devices bid sl ds' w s"
    and "on_bus bid (\<lambda>b. b\<lparr>bus_devices := rcparray_unref (bus_devices b) i\<rparr>) (with_devices bid sl ds w s) = with_devices bid sl (rcparray_unref ds i) w s"
    and "(with_devices bid sl ds w s)\<lparr>outside := w'\<rparr> = with_devices bid sl ds w' s"
    and "outer_bind g drv bid i (with_devices bid sl ds w s) =
      (case rcp_view ds i of None \<Rightarrow> Inl NullDeref | Some d \<Rightarrow> Inr (with_devices bid sl ds (g (val d) w) s))"
  using assms on_bus_eq [of bid "with_devices bid sl ds w s"] by (simp_all add: with_devices_def outer_bind_def split: option.split)

lemma try_bind_step:
  assumes "bid < length (buses s)"
  shows "try_bind_driver (pure_check f) (outer_bind g) drv bid did (with_devices bid sl ds w s) = (
      if \<not> list_ex slot_present (drop did ds) then Some (Inr (with_devices bid sl ds w s))
      else case rcparray_get ds did of
          (None, _) \<Rightarrow> try_bind_driver (pure_check f) (outer_bind g) drv bid (Suc did) (with_devices bid sl ds w s)
        | (Some dev, ds') \<Rightarrow>
            if f dev = 0
            then (case rcp_view ds' did of
                    None \<Rightarrow> Some (Inl NullDeref)
                  | Some d \<Rightarrow> try_bind_driver (pure_check f) (outer_bind g) drv bid (Suc did) (with_devices bid sl ds' (g (val d) w) s))
            else try_bind_driver (pure_check f) (outer_bind g) drv bid (Suc did) (with_devices bid sl (rcparray_unref ds' did) w s))"
  by (subst try_bind_driver.simps)
    (simp add: with_devices_view assms with_devices_on_bus [OF assms] pure_check_def Let_def rcparray_foreach_cond_def split: prod.split option.split)

lemma keep_ref_idle: "\<not> list_ex slot_present ds \<Longrightarrow> map (keep_ref f) ds = ds \<and> bound f ds = []"
proof (induction ds)
  case (Cons x ds)
  then show ?case by (cases x) (auto simp: keep_ref_def matches_def bound_def)
qed (simp add: bound_def)

lemma try_bind_run:
  assumes "bid < length (buses s)" and "refs_ok ds" and "did \<le> length ds"
  shows "try_bind_driver (pure_check f) (outer_bind g) drv bid did (with_devices bid sl (map (keep_ref f) (take did ds) @ drop did ds) w s) =
    Some (Inr (with_devices bid sl (map (keep_ref f) ds) (fold g (bound f (drop did ds)) w) s))"
  using assms(3)
proof (induction "length ds - did" arbitrary: did w)
  case 0
  then have d: "did = length ds" by simp
  show ?case using try_bind_step [OF assms(1)] by (simp add: d bound_def)
next
  case (Suc n)
  let ?ds = "map (keep_ref f) (take did ds) @ drop did ds"
  have l: "did < length ds" "length ?ds = length ds" using Suc.hyps(2) Suc.prems by auto
  have x: "?ds ! did = ds ! did" "drop did ?ds = drop did ds" using l by (simp_all add: nth_append)
  have dr: "drop did ds = ds ! did # drop (Suc did) ds" using l(1) by (simp add: Cons_nth_drop_Suc)
  have upd: "?ds[did := keep_ref f (ds ! did)] = map (keep_ref f) (take (Suc did) ds) @ drop (Suc did) ds"
    using l by (simp add: take_Suc_conv_app_nth dr list_update_append)
  have IH: "try_bind_driver (pure_check f) (outer_bind g) drv bid (Suc did) (with_devices bid sl (?ds[did := keep_ref f (ds ! did)]) w' s) =
      Some (Inr (with_devices bid sl (map (keep_ref f) ds) (fold g (bound f (drop (Suc did) ds)) w') s))" for w'
    unfolding upd using Suc.hyps(2) l(1) by (intro Suc.hyps(1)) simp_all
  note st = try_bind_step [OF assms(1), of f g drv did sl ?ds w, unfolded x(2)]
  show ?case
  proof (cases "list_ex slot_present (drop did ds)")
    case False
    have "map (keep_ref f) (take did ds) @ map (keep_ref f) (drop did ds) = map (keep_ref f) ds" by (simp flip: map_append)
    then show ?thesis using st False keep_ref_idle [OF False] by simp
  next
    case True
    show ?thesis
    proof (cases "slot_present (ds ! did)")
      case False
      then have k: "keep_ref f (ds ! did) = ds ! did" "bound f (drop did ds) = bound f (drop (Suc did) ds)"
        unfolding dr by (cases "ds ! did"; simp add: keep_ref_def matches_def bound_def)+
      have "rcparray_get ?ds did = (None, ?ds)" using l x False by (cases "ds ! did") (simp_all add: rcparray_get_def)
      moreover have "?ds[did := keep_ref f (ds ! did)] = ?ds" using x l k(1) by (simp add: list_update_same_conv)
      ultimately show ?thesis using st True IH k(2) by simp
    next
      case p: True
      obtain d where d: "ds ! did = Some d" "present d" using p by (cases "ds ! did") auto
      have r: "0 < refs d" using assms(2) l(1) d(1) nth_mem by (fastforce simp: refs_ok_def)
      let ?d = "Some (d\<lparr>refs := refs d + 1\<rparr>)"
      have g: "rcparray_get ?ds did = (Some (val d), ?ds[did := ?d])" using l x d by (simp add: rcparray_get_def)
      have v: "rcp_view (?ds[did := ?d]) did = ?d" using l by simp
      have un: "rcparray_unref (?ds[did := ?d]) did = ?ds[did := Some d]" using l r by (simp add: rcparray_unref_def Let_def)
      show ?thesis
      proof (cases "f (val d) = 0")
        case True
        then have "keep_ref f (ds ! did) = ?d" "bound f (drop did ds) = val d # bound f (drop (Suc did) ds)"
          unfolding dr using d by (simp_all add: keep_ref_def matches_def bound_def)
        then show ?thesis using st \<open>list_ex slot_present (drop did ds)\<close> g v True IH by simp
      next
        case False
        then have "keep_ref f (ds ! did) = Some d" "bound f (drop did ds) = bound f (drop (Suc did) ds)"
          unfolding dr using d by (simp_all add: keep_ref_def matches_def bound_def)
        then show ?thesis using st \<open>list_ex slot_present (drop did ds)\<close> g un False IH by simp
      qed
    qed
  qed
qed

definition devices_on :: "nat \<Rightarrow> ('x, 'w) treesys \<Rightarrow> 'x device rcparray" where
  "devices_on bid s = (case rcp_view (buses s) bid of None \<Rightarrow> [] | Some sl \<Rightarrow> bus_devices (val sl))"

definition bus_at :: "bytes \<Rightarrow> nat \<Rightarrow> 'x bus \<Rightarrow> ('x, 'w) treesys \<Rightarrow> bool" where
  "bus_at bus bid b s \<longleftrightarrow> rcparray_find_loop (buses s) (\<lambda>b. same_name (bus_name b) bus) = Some bid \<and> bid < length (buses s) \<and>
     (\<exists>sl. buses s ! bid = Some sl \<and> present sl \<and> 0 < refs sl \<and> val sl = b)"

lemma find_bus:
  assumes "bus_at bus bid b s"
  obtains sl where "rcparray_find (buses s) (\<lambda>b. same_name (bus_name b) bus) = (Some (bid, b), (buses s)[bid := Some (sl\<lparr>refs := refs sl + 1\<rparr>)])"
    and "bid < length (buses s)" and "buses s ! bid = Some sl" and "0 < refs sl" and "val sl = b"
  using assms by (auto simp: bus_at_def rcparray_find_def rcparray_get_def)

lemma register_driver_run:
  assumes "bus_at bus bid b s" and "rcparray_find_loop (bus_drivers b) (\<lambda>e. same_name (driver_name e) (driver_name drv)) = None"
    and "refs_ok (bus_devices b)"
  shows "\<exists>s'. dev_register_driver (pure_check f) (outer_bind g) bus drv s = Some (Inr (0, s')) \<and>
    outside s' = fold g (bound f (bus_devices b)) (outside s) \<and>
    devices_on bid s' = rcparray_unref (map (keep_ref f) (bus_devices b)) (first_null (bus_drivers b))"
proof -
  obtain sl where sl: "rcparray_find (buses s) (\<lambda>b. same_name (bus_name b) bus) = (Some (bid, b), (buses s)[bid := Some (sl\<lparr>refs := refs sl + 1\<rparr>)])"
      "bid < length (buses s)" "buses s ! bid = Some sl" "0 < refs sl" "val sl = b"
    by (rule find_bus [OF assms(1)])
  obtain i drs where ad: "rcparray_add (bus_drivers b) drv = (i, drs)" by fastforce
  have i: "i = first_null (bus_drivers b)" using ad rcparray_add_fst [of "bus_drivers b" drv] by simp
  let ?ds = "bus_devices b"
  define sl1 where "sl1 = sl\<lparr>refs := refs sl + 1, val := b\<lparr>bus_drivers := snd (rcparray_get drs i)\<rparr>\<rparr>"
  let ?s1 = "s\<lparr>buses := (buses s)[bid := Some (sl\<lparr>refs := refs sl + 1\<rparr>)]\<rparr>"
  have f: "rcparray_find (bus_drivers b) (\<lambda>e. same_name (driver_name e) (driver_name drv)) = (None, bus_drivers b)"
    using assms(2) by (simp add: rcparray_find_def)
  have w: "on_bus bid (\<lambda>b. b\<lparr>bus_drivers := snd (rcparray_get drs i)\<rparr>) ?s1 = with_devices bid sl1 ?ds (outside s) s"
    using on_bus_eq [of bid ?s1 "sl\<lparr>refs := refs sl + 1\<rparr>"] sl(2,5) by (simp add: with_devices_def sl1_def)
  have r: "try_bind_driver (pure_check f) (outer_bind g) (driver_id drv) bid 0 (with_devices bid sl1 ?ds (outside s) s) =
      Some (Inr (with_devices bid sl1 (map (keep_ref f) ?ds) (fold g (bound f ?ds) (outside s)) s))"
    using try_bind_run [OF sl(2) assms(3), of 0 f g "driver_id drv" sl1 "outside s"] by simp
  let ?s2 = "with_devices bid sl1 (rcparray_unref (map (keep_ref f) ?ds) i) (fold g (bound f ?ds) (outside s)) s"
  have e: "dev_register_driver (pure_check f) (outer_bind g) bus drv s = Some (Inr (0, ?s2\<lparr>buses := rcparray_unref (buses ?s2) bid\<rparr>))"
    using sl(1) f ad w r with_devices_on_bus(2) [OF sl(2)] by (simp add: dev_register_driver_def Let_def)
  have u: "devices_on bid (?s2\<lparr>buses := rcparray_unref (buses ?s2) bid\<rparr>) = rcparray_unref (map (keep_ref f) ?ds) i"
    using sl(2,4) by (simp add: devices_on_def rcparray_unref_def Let_def with_devices_def sl1_def)
  show ?thesis using e u i by (intro exI [of _ "?s2\<lparr>buses := rcparray_unref (buses ?s2) bid\<rparr>"]) (simp add: with_devices_def)
qed

section \<open>Properties\<close>

text \<open>
  The attributes of a device are a map from names to numbers: setting one, with a name of fewer than
  sixteen characters, updates the map and says whether the name was there, and getting one looks it up
  in the map, with 0 for a name that is not there, and leaves the map as it is.
\<close>

theorem attributes_refine_map:
  assumes "attrs_ok dev" and "cstring n" and "length n < 16"
  shows "\<exists>d d'. dev_set_attribute dev (n @ 0 # y) v = Inr (if n \<in> dom (attr_map dev) then 1 else 0, d) \<and> attrs_ok d \<and>
    attr_map d = (attr_map dev)(n \<mapsto> v) \<and>
    dev_get_attribute dev (n @ 0 # y) = (case attr_map dev n of None \<Rightarrow> 0 | Some v \<Rightarrow> sint v, d') \<and> attrs_ok d' \<and> attr_map d' = attr_map dev"
  using set_attribute_refines [OF assms, of y v] get_attribute_refines [OF assms(1,2), of y] by blast

definition bare_device :: "nat \<Rightarrow> u8 \<Rightarrow> nat device" where
  "bare_device k c = \<lparr>device_name = c # 0 # replicate 30 0, device_class = replicate 32 0, attributes = [], resources = [], own_data = k\<rparr>"

theorem attributes_refine_map_witness:
  "\<exists>d d'. dev_set_attribute (bare_device 7 100) [105, 114, 113, 0] 11 = Inr (0, d) \<and> attrs_ok d \<and> attr_map d = [[105, 114, 113] \<mapsto> 11] \<and>
    dev_get_attribute (bare_device 7 100) [105, 114, 113, 0] = (0, d')"
proof -
  have "attrs_ok (bare_device 7 100)" "attr_map (bare_device 7 100) = Map.empty" by (simp_all add: attrs_ok_def attr_map_def bare_device_def)
  moreover have "cstring [105, 114, 113]" by (simp add: cstring_def)
  ultimately show ?thesis using attributes_refine_map [of "bare_device 7 100" "[105, 114, 113]" "[]" 11] by auto
qed

text \<open>
  Registering a driver offers it every device that is on the bus, in the order of their numbers, and binds
  it to exactly those that its check accepts.
\<close>

theorem register_driver_binds:
  assumes "bus_at bus bid b s" and "rcparray_find_loop (bus_drivers b) (\<lambda>e. same_name (driver_name e) (driver_name drv)) = None"
    and "refs_ok (bus_devices b)"
  shows "\<exists>s'. dev_register_driver (pure_check f) (outer_bind g) bus drv s = Some (Inr (0, s')) \<and>
    outside s' = fold g (bound f (bus_devices b)) (outside s)"
  using register_driver_run [OF assms] by blast

text \<open>
  Registering a driver frees a device: the reference to the driver is given back to the device that has the
  number of the driver. When the driver does not accept this device, and nobody else uses it, the device
  is gone from the bus.
\<close>

theorem register_driver_frees_device:
  assumes "bus_at bus bid b s" and "rcparray_find_loop (bus_drivers b) (\<lambda>e. same_name (driver_name e) (driver_name drv)) = None"
    and "refs_ok (bus_devices b)" and "i = first_null (bus_drivers b)" and "i < length (bus_devices b)" and "bus_devices b ! i = Some d"
    and "refs d = 1" and "f (val d) \<noteq> 0"
  shows "\<exists>s'. dev_register_driver (pure_check f) (outer_bind g) bus drv s = Some (Inr (0, s')) \<and> devices_on bid s' ! i = None"
proof -
  have "keep_ref f (Some d) = Some d" using assms(8) by (simp add: keep_ref_def matches_def)
  then have "rcparray_unref (map (keep_ref f) (bus_devices b)) i ! i = None"
    using assms(5-7) by (simp add: rcparray_unref_def Let_def)
  then show ?thesis using register_driver_run [OF assms(1-3), of f g] assms(4) by auto
qed

text \<open>
  Adding a device to a bus that has a driver ends in a read outside of an object: the array holds
  pointers to drivers, and the entry itself is taken for a driver.
\<close>

theorem dev_add_after_driver_faults:
  assumes "bus_at bus bid b s" and "rcparray_find_loop (bus_devices b) (\<lambda>e. same_name (device_name e) (device_name dev)) = None"
    and "k < length (bus_drivers b)" and "slot_present (bus_drivers b ! k)"
  shows "dev_add bus dev s = Inl OutOfBounds"
proof -
  have fault: "try_bind_device ids a = Inl OutOfBounds" if "k \<in> set ids" "k < length a" "slot_present (a ! k)" for ids and a :: "driver rcparray"
    using that
  proof (induction ids arbitrary: a)
    case (Cons j ids)
    show ?case
    proof (cases "rcparray_get a j")
      case (Pair r a')
      then show ?thesis using Cons by (cases r; cases "a ! k") (auto simp: rcparray_get_def split: if_splits option.splits)
    qed
  qed simp
  obtain n where n: "rcparray_foreach_from (bus_drivers b) 0 = [0..<n]" "\<forall>k \<ge> n. \<not> slot_present (rcp_view (bus_drivers b) k)"
    using rcparray_foreach_from_upt [of 0 "bus_drivers b"] by (elim exE conjE) (rule that)
  have "\<not> n \<le> k" using n(2) assms(3,4) by auto
  then have "k \<in> set (rcparray_foreach (bus_drivers b))" using n(1) by (simp add: rcparray_foreach_def)
  then have "try_bind_device (rcparray_foreach (bus_drivers b)) (bus_drivers b) = Inl OutOfBounds" by (rule fault [OF _ assms(3,4)])
  moreover obtain sl where "rcparray_find (buses s) (\<lambda>b. same_name (bus_name b) bus) = (Some (bid, b), (buses s)[bid := Some (sl\<lparr>refs := refs sl + 1\<rparr>)])"
    using find_bus [OF assms(1)] by blast
  moreover have "rcparray_find (bus_devices b) (\<lambda>e. same_name (device_name e) (device_name dev)) = (None, bus_devices b)"
    using assms(2) by (simp add: rcparray_find_def)
  ultimately show ?thesis by (simp add: dev_add_def Let_def split: prod.split)
qed


section \<open>Examples\<close>

definition disk_driver :: driver where
  "disk_driver = \<lparr>driver_name = 115 # 100 # 0 # replicate 29 0, driver_id = 3\<rparr>"

text \<open>A bus with two devices, and the same bus with a driver.\<close>

definition example_bus :: "nat bus" where
  "example_bus = \<lparr>bus_name = 112 # 0 # replicate 30 0, bus_devices = [Some (fresh_slot (bare_device 5 97)), Some (fresh_slot (bare_device 0 98))], bus_drivers = []\<rparr>"

definition example_tree :: "(nat, nat list) treesys" where
  "example_tree = \<lparr>buses = [Some (fresh_slot example_bus)], classes = [], outside = []\<rparr>"

definition driven_bus :: "nat bus" where
  "driven_bus = example_bus\<lparr>bus_drivers := [Some (fresh_slot disk_driver)]\<rparr>"

definition driven_tree :: "(nat, nat list) treesys" where
  "driven_tree = \<lparr>buses = [Some (fresh_slot driven_bus)], classes = [], outside = []\<rparr>"

lemma example_at: "bus_at [112, 0] 0 example_bus example_tree" "refs_ok (bus_devices example_bus)" "bus_drivers example_bus = []"
    "bus_at [112, 0] 0 driven_bus driven_tree"
  by (simp_all add: bus_at_def example_tree_def example_bus_def driven_tree_def driven_bus_def same_name_def refs_ok_def)

theorem register_driver_binds_witness:
  "\<exists>s'. dev_register_driver (pure_check (\<lambda>d. int (own_data d))) (outer_bind (\<lambda>d w. own_data d # w)) [112, 0] disk_driver example_tree = Some (Inr (0, s')) \<and>
    outside s' = [0]"
  using register_driver_binds [OF example_at(1) _ example_at(2), of disk_driver "\<lambda>d. int (own_data d)" "\<lambda>d w. own_data d # w"] example_at(3)
  by (auto simp: bound_def matches_def example_bus_def example_tree_def bare_device_def)

theorem register_driver_frees_device_witness:
  "\<exists>s'. dev_register_driver (pure_check (\<lambda>d. int (own_data d))) (outer_bind (\<lambda>d w. own_data d # w)) [112, 0] disk_driver example_tree = Some (Inr (0, s')) \<and>
    devices_on 0 s' ! 0 = None"
  using register_driver_frees_device [OF example_at(1) _ example_at(2), of disk_driver 0 "fresh_slot (bare_device 5 97)" "\<lambda>d. int (own_data d)"] example_at(3)
  by (simp add: example_bus_def bare_device_def)

theorem dev_add_after_driver_faults_witness:
  "dev_add [112, 0] (bare_device 1 99) driven_tree = Inl OutOfBounds"
  by (rule dev_add_after_driver_faults [OF example_at(4), of _ 0]) (simp_all add: driven_bus_def example_bus_def bare_device_def same_name_def)

end
