(* ===== verification/Disk.thy ===== *)
theory Disk
  imports Block DevTree
begin

text \<open>
  \<^verbatim>\<open>dev/class/disk.c\<close>: the class that makes a block device of a device of the tree. The state
  of the class is the hardware of the block layer: the array of the disks, the data of the class that
  each device carries, by the address of the device, and what is below.
\<close>

definition DISK_TYPE_INVALID :: int where "DISK_TYPE_INVALID = 0"

record 'h class_disk =
  cd_type :: int
  cd_name :: bytes
  cd_sector_count :: u64
  cd_sector_size :: u16
  cd_burst_max :: u16
  cd_init :: "(nat \<Rightarrow> 'h \<Rightarrow> (int \<times> 'h) res) option"
  cd_read :: "(nat \<Rightarrow> u64 \<Rightarrow> u16 \<Rightarrow> 'h \<Rightarrow> (int \<times> bytes \<times> 'h) res) option"
  cd_write :: "(nat \<Rightarrow> u64 \<Rightarrow> u16 \<Rightarrow> bytes \<Rightarrow> 'h \<Rightarrow> (int \<times> 'h) res) option"
  cd_release :: "(nat \<Rightarrow> 'h \<Rightarrow> (int \<times> 'h) res) option"

record 'h diskhw =
  disks :: "nat rcparray"
  class_data :: "nat \<rightharpoonup> 'h class_disk"
  below_disks :: 'h

section \<open>Operations of the block device\<close>

definition with_disk :: "int \<Rightarrow> 'a \<Rightarrow> (nat \<Rightarrow> 'h class_disk \<Rightarrow> 'h \<Rightarrow> ('a \<times> 'h) res) \<Rightarrow> 'h diskhw \<Rightarrow> ('a \<times> 'h diskhw) res" where
  "with_disk drive none f w =
     (case rcparray_get (disks w) (to_size_t drive) of
        (None, a) \<Rightarrow> Inr (none, w\<lparr>disks := a\<rparr>)
      | (Some dev, a) \<Rightarrow> (case class_data w dev of
          None \<Rightarrow> Inl NullDeref
        | Some d \<Rightarrow> mapR (\<lambda>(x, h). (x, w\<lparr>disks := rcparray_unref a (to_size_t drive), below_disks := h\<rparr>)) (f dev d (below_disks w))))"

definition class_disk_devinit :: "int \<Rightarrow> 'h diskhw \<Rightarrow> (int \<times> 'h diskhw) res" where
  "class_disk_devinit drive = with_disk drive (- 1) (\<lambda>dev d h. call (cd_init d) (\<lambda>f. f dev h))"

definition class_disk_devread :: "int \<Rightarrow> u64 \<Rightarrow> u16 \<Rightarrow> 'h diskhw \<Rightarrow> (int \<times> bytes \<times> 'h diskhw) res" where
  "class_disk_devread drive sector cnt w =
     mapR (\<lambda>((r, b), w'). (r, b, w')) (with_disk drive (- 1, [])
       (\<lambda>dev d h. call (cd_read d) (\<lambda>f. mapR (\<lambda>(r, b, h'). ((r, b), h')) (f dev sector cnt h))) w)"

text \<open>The function calls \<open>read\<close>: what it stores goes over the bytes that were to be written.\<close>

definition class_disk_devwrite :: "int \<Rightarrow> u64 \<Rightarrow> u16 \<Rightarrow> 'h diskhw \<Rightarrow> (int \<times> bytes \<times> 'h diskhw) res" where
  "class_disk_devwrite drive sector cnt w =
     mapR (\<lambda>((r, b), w'). (r, b, w')) (with_disk drive (- 1, [])
       (\<lambda>dev d h. call (cd_read d) (\<lambda>f. mapR (\<lambda>(r, b, h'). ((r, b), h')) (f dev sector cnt h))) w)"

definition class_disk_devrelease :: "int \<Rightarrow> 'h diskhw \<Rightarrow> (int \<times> 'h diskhw) res" where
  "class_disk_devrelease drive = with_disk drive (- 1) (\<lambda>dev d h. call (cd_release d) (\<lambda>f. f dev h))"

definition class_bogus_func :: "nat \<Rightarrow> 'h \<Rightarrow> (int \<times> 'h) res" where
  "class_bogus_func dev h = Inr (0, h)"

section \<open>The class\<close>

definition or_bogus :: "(nat \<Rightarrow> 'h \<Rightarrow> (int \<times> 'h) res) option \<Rightarrow> (nat \<Rightarrow> 'h \<Rightarrow> (int \<times> 'h) res) option" where
  "or_bogus f = (case f of None \<Rightarrow> Some class_bogus_func | Some g \<Rightarrow> Some g)"

definition disk_ops :: "'h diskhw dev_block_ops" where
  "disk_ops = \<lparr>bop_init = Some class_disk_devinit, bop_read = Some class_disk_devread,
     bop_write = Some (\<lambda>drive sector cnt buf w. mapR (\<lambda>(r, _, w'). (r, w')) (class_disk_devwrite drive sector cnt w)),
     bop_release = Some class_disk_devrelease\<rparr>"

text \<open>
  \<open>class_disk_bind\<close> for the device at an address, with the address of the new block device. The
  number of sectors, 64 bits in the class, is stored into 32 bits. The result is always \<open>-1\<close>.
\<close>

definition class_disk_bind :: "nat \<Rightarrow> nat \<Rightarrow> 'h diskhw devsys \<Rightarrow> (int \<times> 'h diskhw devsys) res" where
  "class_disk_bind dev addr s =
     (case class_data (hw s) dev of
        None \<Rightarrow> Inl NullDeref
      | Some d \<Rightarrow>
          (case rcparray_add (disks (hw s)) dev of (i, a) \<Rightarrow>
             let blk = \<lparr>blk_id = int i, initialized = False, burst_max = cd_burst_max d, total_sectors = ucast (cd_sector_count d),
                   sector_size = ucast (cd_sector_size d), io_queue = None, last_brq = None, block_ops = disk_ops, proxy_to = None, proxy_offset = 0\<rparr>;
                 d' = d\<lparr>cd_init := or_bogus (cd_init d), cd_release := or_bogus (cd_release d)\<rparr>;
                 s1 = s\<lparr>blocks := (blocks s)(addr \<mapsto> blk), hw := (hw s)\<lparr>disks := a, class_data := (class_data (hw s))(dev \<mapsto> d')\<rparr>\<rparr>
             in mapR (\<lambda>(_, s2). (- 1, s2)) (dev_register_block (cd_name d) addr s1)))"

definition disk_class :: "nat \<Rightarrow> dclass" where
  "disk_class k = \<lparr>class_name = cstr ''disk'' @ replicate 27 0, class_id = k\<rparr>"

definition class_disk_init :: "nat \<Rightarrow> ('x, 'w) treesys \<Rightarrow> ('x, 'w) treesys" where
  "class_disk_init k s = snd (dev_register_class (disk_class k) s)"

text \<open>The search of \<open>disk_get_type\<close> reads the data of every present device up to the one it finds.\<close>

fun disk_scan :: "(nat \<rightharpoonup> 'h class_disk) \<Rightarrow> bytes \<Rightarrow> nat rcparray \<Rightarrow> (nat \<times> 'h class_disk) option res" where
  "disk_scan cd name [] = Inr None"
| "disk_scan cd name (x # a) =
     (case x of
        Some sl \<Rightarrow>
          if \<not> present sl then mapR (map_option (\<lambda>(i, d). (Suc i, d))) (disk_scan cd name a)
          else (case cd (val sl) of
                  None \<Rightarrow> Inl NullDeref
                | Some d \<Rightarrow> if same_name (cd_name d) name then Inr (Some (0, d))
                            else mapR (map_option (\<lambda>(i, d). (Suc i, d))) (disk_scan cd name a))
      | None \<Rightarrow> mapR (map_option (\<lambda>(i, d). (Suc i, d))) (disk_scan cd name a))"

definition disk_get_type :: "bytes \<Rightarrow> 'h diskhw \<Rightarrow> (int \<times> 'h diskhw) res" where
  "disk_get_type name w =
     mapR (\<lambda>r. case r of
         None \<Rightarrow> (DISK_TYPE_INVALID, w)
       | Some (i, d) \<Rightarrow> (cd_type d, w\<lparr>disks := rcparray_unref (snd (rcparray_get (disks w) i)) i\<rparr>)) (disk_scan (class_data w) name (disks w))"

section \<open>Requests reach the driver\<close>

text \<open>The slot of a bound device.\<close>

lemma with_disk_bound:
  assumes "rcp_view (disks w) i = Some (fresh_slot dev)" and "class_data w dev = Some d" and "i < 2 ^ 31" and "f dev d (below_disks w) = Inr (x, h)"
  shows "with_disk (int i) none f w = Inr (x, w\<lparr>below_disks := h\<rparr>)"
proof -
  have i: "i < length (disks w)" "disks w ! i = Some (fresh_slot dev)" using assms(1) by (auto simp: rcp_view_def split: if_splits)
  have n: "to_size_t (int i) = i" using assms(3) by simp
  have "(disks w)[i := Some (fresh_slot dev)] = disks w" using i by (metis list_update_id)
  then have "rcparray_unref ((disks w)[i := Some (fresh_slot dev\<lparr>refs := 2\<rparr>)]) i = disks w"
    using i by (simp add: rcparray_unref_def Let_def fresh_slot_def)
  then show ?thesis using assms(2,4) i n by (simp add: with_disk_def rcparray_get_def fresh_slot_def)
qed


text \<open>The block device of a bound disk.\<close>

lemma disk_bind_run:
  assumes "class_data (hw s) dev = Some d" and "cd_name d = n @ 0 # y" and "cstring n" and "length n < 32" and "i = first_null (disks (hw s))"
  shows "\<exists>s' blk. class_disk_bind dev addr s = Inr (- 1, s') \<and> blocks s' addr = Some blk \<and> block_ops blk = disk_ops \<and> \<not> initialized blk \<and>
    blk_id blk = int i \<and> rcp_view (disks (hw s')) i = Some (fresh_slot dev) \<and> below_disks (hw s') = below_disks (hw s) \<and>
    class_data (hw s') dev = Some (d\<lparr>cd_init := or_bogus (cd_init d), cd_release := or_bogus (cd_release d)\<rparr>)"
proof -
  obtain a where ia: "rcparray_add (disks (hw s)) dev = (i, a)" "rcp_view a i = Some (fresh_slot dev)"
    using assms(5) rcparray_add_fst [of "disks (hw s)" dev] view_rcparray_add [of "disks (hw s)" dev] by (cases "rcparray_add (disks (hw s)) dev") simp
  obtain e where "named_dev (n @ 0 # y) DEV_TYPE_BLOCK addr = Inr e" using named_dev_short [OF assms(3,4)] by blast
  then show ?thesis
    using assms(1,2) ia by (auto simp: class_disk_bind_def dev_register_block_def dev_register_def Let_def split: prod.split)
qed

lemma disk_requests:
  assumes "class_data (hw s) dev = Some d" and "cd_name d = n @ 0 # y" and "cstring n" and "length n < 32" and "first_null (disks (hw s)) < 2 ^ 31"
    and "cd_read d = Some f" and "f dev (rq_sector q) (rq_count q) (below_disks (hw s)) = Inr (r, b, h)"
  shows "\<exists>s' blk. class_disk_bind dev addr s = Inr (- 1, s') \<and> blocks s' addr = Some blk \<and> \<not> initialized blk \<and>
    call (bop_read (block_ops blk)) (\<lambda>g. g (blk_id blk) (rq_sector q) (rq_count q) (hw s')) = Inr (r, b, (hw s')\<lparr>below_disks := h\<rparr>) \<and>
    call (bop_write (block_ops blk)) (\<lambda>g. g (blk_id blk) (rq_sector q) (rq_count q) (rq_buffer q) (hw s')) = Inr (r, (hw s')\<lparr>below_disks := h\<rparr>)"
proof -
  let ?i = "first_null (disks (hw s))"
  obtain s' blk where s': "class_disk_bind dev addr s = Inr (- 1, s')" "blocks s' addr = Some blk" "block_ops blk = disk_ops" "\<not> initialized blk"
      "blk_id blk = int ?i" "rcp_view (disks (hw s')) ?i = Some (fresh_slot dev)" "below_disks (hw s') = below_disks (hw s)"
      "class_data (hw s') dev = Some (d\<lparr>cd_init := or_bogus (cd_init d), cd_release := or_bogus (cd_release d)\<rparr>)"
    using disk_bind_run [OF assms(1-4) refl] by blast
  have rd: "with_disk (int ?i) (- 1, []) (\<lambda>dev d h. call (cd_read d) (\<lambda>f. mapR (\<lambda>(r, b, h'). ((r, b), h')) (f dev (rq_sector q) (rq_count q) h))) (hw s') =
      Inr ((r, b), (hw s')\<lparr>below_disks := h\<rparr>)"
    by (rule with_disk_bound [OF s'(6,8) assms(5)]) (simp add: assms(6,7) s'(7))
  show ?thesis using s'(1-5) rd
    by (intro exI [of _ s'] exI [of _ blk]) (simp add: disk_ops_def class_disk_devread_def class_disk_devwrite_def)
qed

section \<open>Properties\<close>

text \<open>
  C36: A device that is bound to the disk class is a block device whose read requests are served by the read
  function of its driver, for the same sectors; the bytes it gives are stored into the buffer of the request.
\<close>

theorem disk_read_reaches_driver:
  assumes "class_data (hw s) dev = Some d" and "cd_name d = n @ 0 # y" and "cstring n" and "length n < 32" and "first_null (disks (hw s)) < 2 ^ 31"
    and "cd_read d = Some f" and "f dev (rq_sector q) (rq_count q) (below_disks (hw s)) = Inr (r, b, h)"
    and "rq_type q = BLK_READ" and "length b \<le> length (rq_buffer q)"
  shows "\<exists>s' blk. class_disk_bind dev addr s = Inr (- 1, s') \<and> blocks s' addr = Some blk \<and>
    blk_serve blk q (hw s') = Inr (r, blit (rq_buffer q) 0 b, False, (hw s')\<lparr>below_disks := h\<rparr>)"
proof -
  obtain s' blk where "class_disk_bind dev addr s = Inr (- 1, s')" "blocks s' addr = Some blk" "\<not> initialized blk"
      "call (bop_read (block_ops blk)) (\<lambda>g. g (blk_id blk) (rq_sector q) (rq_count q) (hw s')) = Inr (r, b, (hw s')\<lparr>below_disks := h\<rparr>)"
    using disk_requests [OF assms(1-7)] by blast
  then show ?thesis using assms(8,9) by (intro exI [of _ s'] exI [of _ blk]) (cases "bop_read (block_ops blk)"; simp add: blk_serve_def)
qed

text \<open>
  A write request to a disk is served by the read function of its driver: whatever the write function of
  the driver is, it is not called, and the disk is left as a read leaves it.
\<close>

theorem disk_write_reads:
  assumes "class_data (hw s) dev = Some d" and "cd_name d = n @ 0 # y" and "cstring n" and "length n < 32" and "first_null (disks (hw s)) < 2 ^ 31"
    and "cd_read d = Some f" and "f dev (rq_sector q) (rq_count q) (below_disks (hw s)) = Inr (r, b, h)" and "rq_type q = BLK_WRITE"
  shows "\<exists>s' blk. class_disk_bind dev addr s = Inr (- 1, s') \<and> blocks s' addr = Some blk \<and>
    blk_serve blk q (hw s') = Inr (r, rq_buffer q, False, (hw s')\<lparr>below_disks := h\<rparr>)"
proof -
  obtain s' blk where "class_disk_bind dev addr s = Inr (- 1, s')" "blocks s' addr = Some blk" "\<not> initialized blk"
      "call (bop_write (block_ops blk)) (\<lambda>g. g (blk_id blk) (rq_sector q) (rq_count q) (rq_buffer q) (hw s')) = Inr (r, (hw s')\<lparr>below_disks := h\<rparr>)"
    using disk_requests [OF assms(1-7)] by blast
  then show ?thesis using assms(8) by (intro exI [of _ s'] exI [of _ blk]) (cases "bop_write (block_ops blk)"; simp add: blk_serve_def)
qed

text \<open>A disk whose contents are a list of bytes, with one byte in a sector.\<close>

definition byte_disk :: "bytes class_disk" where
  "byte_disk = \<lparr>cd_type = 1, cd_name = [115, 100, 97, 0], cd_sector_count = 4, cd_sector_size = 1, cd_burst_max = 16, cd_init = None,
     cd_read = Some (\<lambda>dev sector cnt h. Inr (0, take (unat cnt) (drop (unat sector) h), h)),
     cd_write = Some (\<lambda>dev sector cnt buf h. Inr (0, blit h (unat sector) buf)), cd_release = None\<rparr>"

definition disk_system :: "bytes diskhw devsys" where
  "disk_system = \<lparr>dev_array = [], dev_incrementations = klist_init, chars = Map.empty, blocks = Map.empty, frames_on_stack = Map.empty,
     hw = \<lparr>disks = [], class_data = [7 \<mapsto> byte_disk], below_disks = [1, 2, 3, 4]\<rparr>\<rparr>"

theorem disk_read_reaches_driver_witness:
  "\<exists>s' blk. class_disk_bind 7 1 disk_system = Inr (- 1, s') \<and> blocks s' 1 = Some blk \<and>
    blk_serve blk (new_request BLK_READ 1 2 [0, 0] 5) (hw s') = Inr (0, [2, 3], False, (hw s')\<lparr>below_disks := [1, 2, 3, 4]\<rparr>)"
  using disk_read_reaches_driver [of disk_system 7 byte_disk "[115, 100, 97]" "[]" _ "new_request BLK_READ 1 2 [0, 0] 5" 0 "[2, 3]" "[1, 2, 3, 4]" 1]
  by (simp add: disk_system_def byte_disk_def cstring_def new_request_def blit_def)

theorem disk_write_reads_witness:
  "\<exists>s' blk. class_disk_bind 7 1 disk_system = Inr (- 1, s') \<and> blocks s' 1 = Some blk \<and>
    blk_serve blk (new_request BLK_WRITE 1 2 [8, 9] 5) (hw s') = Inr (0, [8, 9], False, (hw s')\<lparr>below_disks := [1, 2, 3, 4]\<rparr>)"
  using disk_write_reads [of disk_system 7 byte_disk "[115, 100, 97]" "[]" _ "new_request BLK_WRITE 1 2 [8, 9] 5" 0 "[2, 3]" "[1, 2, 3, 4]" 1]
  by (simp add: disk_system_def byte_disk_def cstring_def new_request_def blit_def)

end
