(* ===== verification/Exec.thy ===== *)
theory Exec
  imports CString
begin

text \<open>
  Starting programs: the list of loaders of \<^verbatim>\<open>kernel/kslist.c\<close> and \<^verbatim>\<open>proc/exec_load.c\<close>, the
  arguments that \<^verbatim>\<open>arch/x64/exec.c\<close> lays out for a new process, and the checks on an image of
  \<^verbatim>\<open>arch/x64/exec_elf.c\<close>. A pointer in the list is a number, and null is \<open>None\<close>.
\<close>

section \<open>The list of names\<close>

record kslist_entry =
  ks_hash :: u32
  ks_name :: bytes
  ks_data :: nat

type_synonym kslist = "kslist_entry list"

text \<open>The loop looks at the character behind the one it tests.\<close>

definition hash_step :: "u32 \<Rightarrow> u8 \<Rightarrow> u32" where
  "hash_step r c =
     (let r1 = r + word_of_int (sint c); r2 = r1 + word_of_int (sint c * 64); r3 = r2 + word_of_int ((sint c smod 11) * 100); r4 = r3 * 3
      in push_bit 11 r4 OR drop_bit 21 r4)"

fun hash_loop :: "u32 \<Rightarrow> bytes \<Rightarrow> u32 res" where
  "hash_loop r [] = Inl OutOfBounds"
| "hash_loop r [c] = (if c = 0 then Inr r else Inl OutOfBounds)"
| "hash_loop r (c # d # s) = (if c = 0 then Inr r else hash_loop (hash_step r d) (d # s))"

definition kslist_hash :: "bytes \<Rightarrow> u32 res" where
  "kslist_hash s = hash_loop 0 s"

definition kslist_init :: kslist where
  "kslist_init = []"

text \<open>The position of the entry with the name.\<close>

fun kslist_walk :: "u32 \<Rightarrow> bytes \<Rightarrow> kslist \<Rightarrow> nat option res" where
  "kslist_walk h name [] = Inr None"
| "kslist_walk h name (e # l) =
     (if ks_hash e = h
      then bindR (strlen (ks_name e)) (\<lambda>n. bindR (memcmp (ks_name e) name n) (\<lambda>c.
             if c = 0 then Inr (Some 0) else mapR (map_option Suc) (kslist_walk h name l)))
      else mapR (map_option Suc) (kslist_walk h name l))"

text \<open>
  The pointer \<open>prev\<close> stays null: removing an entry makes its successor the first one, and adding
  to a list with entries stores through it. The length of a new name is taken from the memory of the
  new entry, which \<open>kmalloc\<close> has cleared, and not from the name.
\<close>

definition kslist_set :: "bytes \<Rightarrow> nat option \<Rightarrow> kslist \<Rightarrow> (bool \<times> kslist) res" where
  "kslist_set name ptr l =
     bindR (kslist_hash name) (\<lambda>h.
     bindR (kslist_walk h name l) (\<lambda>r. case r of
         Some k \<Rightarrow> (case ptr of
             None \<Rightarrow> Inr (True, drop (Suc k) l)
           | Some p \<Rightarrow> Inr (True, l[k := (l ! k)\<lparr>ks_data := p\<rparr>]))
       | None \<Rightarrow> (case ptr of
             None \<Rightarrow> Inr (False, l)
           | Some p \<Rightarrow>
               if l \<noteq> [] then Inl NullDeref
               else let fresh = replicate 32 0
                    in bindR (strlen fresh) (\<lambda>n.
                         let n' = (if n > 31 then 31 else n)
                         in Inr (False, [\<lparr>ks_hash = h, ks_name = (blit fresh 0 (take n' name))[n' := 0], ks_data = p\<rparr>])))))"

definition kslist_get :: "bytes \<Rightarrow> kslist \<Rightarrow> nat option res" where
  "kslist_get name l =
     bindR (kslist_hash name) (\<lambda>h. mapR (map_option (\<lambda>k. ks_data (l ! k))) (kslist_walk h name l))"

text \<open>\<open>kslist_iter\<close> with the position of the entry it is at.\<close>

definition kslist_iter :: "nat option \<Rightarrow> kslist \<Rightarrow> nat option \<times> nat option" where
  "kslist_iter pos l =
     (let k = (case pos of None \<Rightarrow> 0 | Some i \<Rightarrow> Suc i)
      in if k < length l then (Some k, Some (ks_data (l ! k))) else (None, None))"

section \<open>Loaders\<close>

text \<open>
  The loop of \<open>exec_load\<close> over the entries that are left; \<open>run\<close> says what calling a loader with
  the path and the arguments returns and does.
\<close>

fun load_loop :: "(nat \<Rightarrow> 's \<Rightarrow> (int \<times> 's) res) \<Rightarrow> kslist \<Rightarrow> 's \<Rightarrow> (int \<times> 's) res" where
  "load_loop run [] s = Inr (- EBADEXE, s)"
| "load_loop run (e # l) s = bindR (run (ks_data e) s) (\<lambda>(r, s1). if r < 0 then load_loop run l s1 else Inr (r, s1))"

text \<open>The list is created by the first registration; before it the pointer is null.\<close>

definition exec_load :: "(nat \<Rightarrow> 's \<Rightarrow> (int \<times> 's) res) \<Rightarrow> kslist option \<Rightarrow> 's \<Rightarrow> (int \<times> 's) res" where
  "exec_load run execs s = (case execs of None \<Rightarrow> Inl NullDeref | Some l \<Rightarrow> load_loop run l s)"

definition exec_register_executor :: "bytes \<Rightarrow> nat \<Rightarrow> kslist option \<Rightarrow> (int \<times> kslist option) res" where
  "exec_register_executor name f execs =
     mapR (\<lambda>(_, l). (0, Some l)) (kslist_set name (Some f) (case execs of None \<Rightarrow> kslist_init | Some l \<Rightarrow> l))"

definition exec_unregister_executor :: "bytes \<Rightarrow> kslist option \<Rightarrow> (int \<times> kslist option) res" where
  "exec_unregister_executor name execs =
     (case execs of
        None \<Rightarrow> Inl NullDeref
      | Some l \<Rightarrow> mapR (\<lambda>(b, l'). (if b then 0 else - 1, Some l')) (kslist_set name None l))"

section \<open>Arguments\<close>

text \<open>The array of arguments, without the null pointer that ends it.\<close>

definition args_count :: "bytes list \<Rightarrow> nat" where
  "args_count args = length args + 1"

text \<open>The loop has moved to the next argument before it adds its length: the first one is never counted.\<close>

fun memlen_loop :: "bytes list \<Rightarrow> nat res" where
  "memlen_loop [] = Inr 0"
| "memlen_loop (a # args) = bindR (strlen a) (\<lambda>n. mapR ((+) (n + 1 + 8)) (memlen_loop args))"

definition args_memlen :: "bytes list \<Rightarrow> nat res" where
  "args_memlen args = memlen_loop (tl args)"

definition put_mem :: "bytes \<Rightarrow> nat \<Rightarrow> bytes \<Rightarrow> bytes res" where
  "put_mem mem off bs = (if off + length bs \<le> length mem then Inr (blit mem off bs) else Inl OutOfBounds)"

definition le64 :: "nat \<Rightarrow> bytes" where
  "le64 n = le32 (n mod 2 ^ 32) @ le32 (n div 2 ^ 32 mod 2 ^ 32)"

fun setup_loop :: "nat \<Rightarrow> nat \<Rightarrow> nat \<Rightarrow> bytes list \<Rightarrow> bytes \<Rightarrow> bytes res" where
  "setup_loop proc_addr i offset [] mem = put_mem mem (32 + 8 * i) (le64 0)"
| "setup_loop proc_addr i offset (a # args) mem =
     bindR (strlen a) (\<lambda>n.
     bindR (put_mem mem offset (take (n + 1) a)) (\<lambda>m1.
     bindR (put_mem m1 (32 + 8 * i) (le64 (proc_addr + offset))) (setup_loop proc_addr (i + 1) (offset + (n + 1)) args)))"

definition setup_entry_caller :: "bytes \<Rightarrow> bytes \<Rightarrow> nat \<Rightarrow> bytes list \<Rightarrow> bytes res" where
  "setup_entry_caller entry_caller mem proc_addr args =
     bindR (put_mem mem 0 (take 32 entry_caller)) (setup_loop proc_addr 0 (32 + args_count args * 8) args)"

section \<open>Images\<close>

record elf_program_header =
  ph_type :: u32
  ph_flags :: u32
  ph_offset :: u64
  ph_addr :: u64
  no_clue :: u64
  ph_fsize :: u64
  ph_msize :: u64
  ph_alignment :: u64

record elf_header =
  magic_number :: bytes
  bits :: u8
  endianiness :: u8
  elf_header_version :: u8
  abi :: u8
  padding :: bytes
  elf_type :: u16
  isa :: u16
  elf_version :: u32
  elf_entry :: u64
  prog_header_table_pos :: u64
  sect_header_table_pos :: u64
  elf_flags :: u32
  header_size :: u16
  prog_hdr_tbl_entry_size :: u16
  prog_hdr_tbl_entry_amount :: u16
  sect_hdr_tbl_entry_size :: u16
  sect_hdr_tbl_entry_amount :: u16
  index_with_section_names :: u16

definition elf_magic :: bytes where
  "elf_magic = [0x7F, 69, 76, 70]"

text \<open>The tests of \<open>elf_load\<close> on the header of the file.\<close>

definition elf_header_accepted :: "elf_header \<Rightarrow> bool res" where
  "elf_header_accepted h =
     mapR (\<lambda>c. c = 0 \<and> \<not> (bits h \<noteq> 2 \<or> endianiness h \<noteq> 1 \<or> isa h \<noteq> 0x3E \<or> prog_hdr_tbl_entry_size h \<noteq> 56))
       (memcmp (magic_number h) elf_magic 4)"

definition kptopg64 :: "u64 \<Rightarrow> u64" where
  "kptopg64 b = (b + 4095) div 4096"

text \<open>The number of pages is a number of 32 bits, and so is its product with the size of a page.\<close>

fun elf_is_safe :: "elf_program_header list \<Rightarrow> u64 \<Rightarrow> bool" where
  "elf_is_safe [] vend = True"
| "elf_is_safe (p # ps) vend =
     (if ph_type p \<noteq> 1 then elf_is_safe ps vend
      else let pg_msize = ucast (kptopg64 (ph_msize p)) :: u32
           in if ph_addr p > vend \<or> ph_addr p + ucast (pg_msize * 4096) > vend then False else elf_is_safe ps vend)"

text \<open>
  The loop of \<open>elf_load\<close> over the pages of a segment: \<open>rd\<close> says which bytes \<open>fd_read\<close> stores
  when it is called at a position with a length, \<open>pos\<close> is the position of the file and \<open>left\<close>
  the variable \<open>fsize_remaining\<close>, which wraps below zero with the last page. The result are the pages
  as they are filled. When \<open>section_ptr\<close> is not at the start of a page, \<open>kppaddrof\<close> and
  \<open>kpmap\<close> keep the offset, the page is cleared and read from there on, into the frame behind it, and
  then \<open>kpunmap\<close> panics on the address.
\<close>

fun page_loop :: "(nat \<Rightarrow> nat \<Rightarrow> bytes) \<Rightarrow> u64 \<Rightarrow> nat \<Rightarrow> nat \<Rightarrow> nat \<Rightarrow> nat \<Rightarrow> u64 \<Rightarrow> bytes list res" where
  "page_loop rd section_ptr 0 i pg_fsize pos left = Inr []"
| "page_loop rd section_ptr (Suc n) i pg_fsize pos left =
     (if section_ptr AND 0xFFF \<noteq> 0 then Inl (Panic ''free alignment'')
      else if i < pg_fsize
      then let bs = rd pos (if left < 4096 then unat left else 4096)
           in mapR (Cons (blit (replicate 4096 0) 0 bs))
                (page_loop rd (section_ptr + 4096) n (i + 1) pg_fsize (pos + length bs) (left - 4096))
      else mapR (Cons (replicate 4096 0)) (page_loop rd (section_ptr + 4096) n (i + 1) pg_fsize pos left))"

text \<open>The loop over the segments, with the pages that were allocated for each.\<close>

fun load_segments :: "(nat \<Rightarrow> nat \<Rightarrow> bytes) \<Rightarrow> elf_program_header list \<Rightarrow> (u64 \<times> bytes list) list res" where
  "load_segments rd [] = Inr []"
| "load_segments rd (p # ps) =
     (if ph_type p \<noteq> 1 then load_segments rd ps
      else bindR (page_loop rd (ph_addr p) (unat (ucast (kptopg64 (ph_msize p)) :: u32)) 0
                    (unat (ucast (kptopg64 (ph_fsize p)) :: u32)) (unat (ph_offset p)) (ph_fsize p)) (\<lambda>pages.
             mapR (Cons (ph_addr p, pages)) (load_segments rd ps)))"

text \<open>What \<open>fd_read\<close> stores of a file with the given contents.\<close>

definition file_at :: "bytes \<Rightarrow> nat \<Rightarrow> nat \<Rightarrow> bytes" where
  "file_at contents pos n = take n (drop pos contents)"

section \<open>Memory\<close>

definition window :: "bytes \<Rightarrow> nat \<Rightarrow> nat \<Rightarrow> bytes" where
  "window mem p n = take n (drop p mem)"

lemma window_cong:
  assumes "p + n \<le> length mem" and "length mem' = length mem" and "\<forall>k. p \<le> k \<and> k < p + n \<longrightarrow> mem' ! k = mem ! k"
  shows "window mem' p n = window mem p n"
  using assms by (intro nth_equalityI) (simp_all add: window_def)

lemma window_blit: "p + length bs \<le> length mem \<Longrightarrow> window (blit mem p bs) p (length bs) = bs"
  by (simp add: window_def blit_def)

definition un64 :: "bytes \<Rightarrow> nat" where
  "un64 bs = un32 bs + 2 ^ 32 * un32 (drop 4 bs)"

lemma length_le64 [simp]: "length (le64 n) = 8"
  by (simp add: le64_def le32_def)

lemma un64_le64: "n < 2 ^ 64 \<Longrightarrow> un64 (le64 n) = n"
proof -
  assume n: "n < 2 ^ 64"
  have d: "n div 2 ^ 32 mod 2 ^ 32 = n div 2 ^ 32" using n by (simp add: less_mult_imp_div_less)
  have l: "length (le32 m) = 4" for m by (simp add: le32_def)
  have "un32 (le32 a @ b) = un32 (le32 a)" for a b by (simp add: un32_def nth_append l)
  then have "un64 (le64 n) = n mod 2 ^ 32 + 2 ^ 32 * (n div 2 ^ 32)"
    using un32_le32 [of "n mod 2 ^ 32"] un32_le32 [of "n div 2 ^ 32"] d n by (simp add: un64_def le64_def l less_mult_imp_div_less)
  then show ?thesis by simp
qed

section \<open>The layout of the arguments\<close>

definition args_size :: "bytes list \<Rightarrow> nat" where
  "args_size ss = sum_list (map (\<lambda>s. length s + 1) ss)"

abbreviation terminated :: "bytes list \<Rightarrow> bytes list" where
  "terminated ss \<equiv> map (\<lambda>s. s @ [0]) ss"

lemma setup_loop_run:
  assumes "\<forall>s \<in> set ss. cstring s" and "32 + 8 * (i + length ss + 1) \<le> off" and "off + args_size ss \<le> length mem"
  shows "\<exists>mem'. setup_loop base i off (terminated ss) mem = Inr mem' \<and> length mem' = length mem \<and>
    (\<forall>k < length mem. k < 32 + 8 * i \<or> 32 + 8 * (i + length ss + 1) \<le> k \<and> k < off \<longrightarrow> mem' ! k = mem ! k) \<and>
    (\<forall>j < length ss. window mem' (32 + 8 * (i + j)) 8 = le64 (base + (off + args_size (take j ss))) \<and>
       window mem' (off + args_size (take j ss)) (length (ss ! j) + 1) = ss ! j @ [0]) \<and>
    window mem' (32 + 8 * (i + length ss)) 8 = le64 0"
  using assms
proof (induction ss arbitrary: i off mem)
  case Nil
  then show ?case
    using window_blit [of "32 + 8 * i" "le64 0" mem]
    by (intro exI [of _ "blit mem (32 + 8 * i) (le64 0)"]) (auto simp: put_mem_def nth_blit args_size_def)
next
  case (Cons s ss)
  let ?n = "length s" let ?off = "off + (?n + 1)"
  define m1 where "m1 = blit mem off (s @ [0])"
  define m2 where "m2 = blit m1 (32 + 8 * i) (le64 (base + off))"
  have sz: "off + (?n + 1) + args_size ss \<le> length mem" "32 + 8 * i + 8 \<le> off" using Cons.prems(2,3) by (simp_all add: args_size_def)
  have l: "length m1 = length mem" "length m2 = length mem" using sz by (simp_all add: m1_def m2_def)
  have e: "setup_loop base i off (terminated (s # ss)) mem = setup_loop base (i + 1) ?off (terminated ss) m2"
    using Cons.prems(1) sz l by (simp add: put_mem_def m1_def m2_def)
  obtain mem' where IH: "setup_loop base (i + 1) ?off (terminated ss) m2 = Inr mem'" "length mem' = length m2"
      "\<forall>k < length m2. k < 32 + 8 * (i + 1) \<or> 32 + 8 * (i + 1 + length ss + 1) \<le> k \<and> k < ?off \<longrightarrow> mem' ! k = m2 ! k"
      "\<forall>j < length ss. window mem' (32 + 8 * (i + 1 + j)) 8 = le64 (base + (?off + args_size (take j ss))) \<and>
         window mem' (?off + args_size (take j ss)) (length (ss ! j) + 1) = ss ! j @ [0]"
      "window mem' (32 + 8 * (i + 1 + length ss)) 8 = le64 0"
    using Cons.IH [of "i + 1" ?off m2] Cons.prems l sz by auto
  have m2: "m2 ! k = (if 32 + 8 * i \<le> k \<and> k < 32 + 8 * i + 8 then le64 (base + off) ! (k - (32 + 8 * i))
      else if off \<le> k \<and> k < ?off then (s @ [0]) ! (k - off) else mem ! k)" if "k < length mem" for k
    using that sz l by (simp add: m2_def m1_def nth_blit)
  have ptr: "window mem' (32 + 8 * i) 8 = le64 (base + off)"
  proof -
    have "window mem' (32 + 8 * i) 8 = window m2 (32 + 8 * i) 8" using IH(2,3) sz l by (intro window_cong) auto
    then show ?thesis using window_blit [of "32 + 8 * i" "le64 (base + off)" m1] sz l by (simp add: m2_def)
  qed
  have str: "window mem' off (?n + 1) = s @ [0]"
  proof -
    have "window mem' off (?n + 1) = window m2 off (?n + 1)" using IH(2,3) sz l Cons.prems(2) by (intro window_cong) auto
    also have "\<dots> = window m1 off (?n + 1)" using sz l by (intro window_cong) (auto simp: m2_def nth_blit)
    finally show ?thesis using window_blit [of off "s @ [0]" mem] sz by (simp add: m1_def)
  qed
  have out: "\<forall>k < length mem. k < 32 + 8 * i \<or> 32 + 8 * (i + length (s # ss) + 1) \<le> k \<and> k < off \<longrightarrow> mem' ! k = mem ! k"
    using IH(3) l m2 sz by auto
  have "\<forall>j < length (s # ss). window mem' (32 + 8 * (i + j)) 8 = le64 (base + (off + args_size (take j (s # ss)))) \<and>
      window mem' (off + args_size (take j (s # ss))) (length ((s # ss) ! j) + 1) = (s # ss) ! j @ [0]"
  proof (intro allI impI)
    fix j assume j: "j < length (s # ss)"
    show "window mem' (32 + 8 * (i + j)) 8 = le64 (base + (off + args_size (take j (s # ss)))) \<and>
      window mem' (off + args_size (take j (s # ss))) (length ((s # ss) ! j) + 1) = (s # ss) ! j @ [0]"
    proof (cases j)
      case 0
      then show ?thesis using ptr str by (simp add: args_size_def)
    next
      case (Suc j')
      then show ?thesis using IH(4) j by (simp add: args_size_def add.assoc)
    qed
  qed
  then show ?case using e IH(1,2,5) l out by (intro exI [of _ mem']) simp
qed

lemma setup_loop_fault:
  assumes "\<forall>s \<in> set ss. cstring s" and "length mem < off + args_size ss" and "ss \<noteq> []"
  shows "setup_loop base i off (terminated ss) mem = Inl OutOfBounds"
  using assms
proof (induction ss arbitrary: i off mem)
  case (Cons s ss)
  have sz: "length mem < off + (length s + 1) + args_size ss" using Cons.prems(2) by (simp add: args_size_def)
  show ?case
  proof (cases "off + (length s + 1) \<le> length mem")
    case True
    then have "ss \<noteq> []" using sz by (auto simp: args_size_def)
    then have "length m = length mem \<Longrightarrow> setup_loop base (i + 1) (off + (length s + 1)) (terminated ss) m = Inl OutOfBounds" for m
      using Cons.prems(1) sz by (intro Cons.IH) simp_all
    then show ?thesis using Cons.prems(1) by (simp add: put_mem_def)
  next
    case False
    then show ?thesis using Cons.prems(1) by (simp add: put_mem_def)
  qed
qed simp

lemma memlen_loop_terminated: "\<forall>s \<in> set ss. cstring s \<Longrightarrow> memlen_loop (terminated ss) = Inr (args_size ss + 8 * length ss)"
  by (induction ss) (simp_all add: args_size_def)

section \<open>Properties\<close>

text \<open>
  C37: The arguments of a new process are laid out so that it can read them: with enough memory for the pointers
  and the strings, every pointer of the table leads to its argument with its terminator, the table ends
  with a null pointer, and the code of the entry stands before it.
\<close>

theorem args_roundtrip:
  assumes "\<forall>s \<in> set ss. cstring s" and "32 \<le> length code" and "32 + 8 * (length ss + 1) + args_size ss \<le> length mem" and "base + length mem \<le> 2 ^ 64"
  shows "\<exists>mem'. setup_entry_caller code mem base (map (\<lambda>s. s @ [0]) ss) = Inr mem' \<and> take 32 mem' = take 32 code \<and>
    un64 (window mem' (32 + 8 * length ss) 8) = 0 \<and>
    (\<forall>j < length ss. base \<le> un64 (window mem' (32 + 8 * j) 8) \<and>
       window mem' (un64 (window mem' (32 + 8 * j) 8) - base) (length (ss ! j) + 1) = ss ! j @ [0])"
proof -
  let ?m = "blit mem 0 (take 32 code)" let ?off = "32 + (length ss + 1) * 8"
  have l: "length ?m = length mem" using assms(2,3) by simp
  obtain mem' where m': "setup_loop base 0 ?off (terminated ss) ?m = Inr mem'" "length mem' = length mem"
      "\<forall>k < length mem. k < 32 \<longrightarrow> mem' ! k = ?m ! k"
      "\<forall>j < length ss. window mem' (32 + 8 * j) 8 = le64 (base + (?off + args_size (take j ss))) \<and>
         window mem' (?off + args_size (take j ss)) (length (ss ! j) + 1) = ss ! j @ [0]"
      "window mem' (32 + 8 * length ss) 8 = le64 0"
    using setup_loop_run [OF assms(1), of 0 ?off ?m base] assms(3) l by auto
  have "take 32 mem' = take 32 ?m" using m'(2,3) l assms(3) by (intro nth_equalityI) auto
  then have c: "take 32 mem' = take 32 code" using assms(2) by (simp add: blit_def)
  have p: "base + (?off + args_size (take j ss)) < 2 ^ 64" if "j < length ss" for j
  proof -
    have "args_size ss = args_size (take j ss) + args_size (drop j ss)" by (simp add: args_size_def flip: sum_list_append map_append)
    moreover have "0 < args_size (drop j ss)" using that by (cases "drop j ss") (simp_all add: args_size_def)
    ultimately show ?thesis using assms(3,4) by simp
  qed
  have ptr: "un64 (window mem' (32 + 8 * j) 8) = base + (?off + args_size (take j ss))" if "j < length ss" for j
    using m'(4) that un64_le64 [OF p [OF that]] by simp
  have "setup_entry_caller code mem base (terminated ss) = Inr mem'"
    using m'(1) assms(2,3) by (simp add: setup_entry_caller_def put_mem_def args_count_def)
  then show ?thesis using c m'(4,5) ptr un64_le64 [of 0] by (intro exI [of _ mem']) simp
qed

theorem args_roundtrip_witness:
  "\<exists>mem'. setup_entry_caller (replicate 32 1) (replicate 100 0) 4096 [[108, 115, 0], [47, 0]] = Inr mem' \<and>
    window mem' (un64 (window mem' 40 8) - 4096) 2 = [47, 0]"
proof -
  let ?ss = "[[108, 115], [47]] :: bytes list"
  have c: "\<forall>s \<in> set ?ss. cstring s" by (simp add: cstring_def)
  have sz: "32 + 8 * (length ?ss + 1) + args_size ?ss \<le> length (replicate 100 0 :: bytes)" by (simp add: args_size_def)
  obtain mem' where m: "setup_entry_caller (replicate 32 1) (replicate 100 0) 4096 (terminated ?ss) = Inr mem'"
      "\<forall>j < length ?ss. 4096 \<le> un64 (window mem' (32 + 8 * j) 8) \<and>
         window mem' (un64 (window mem' (32 + 8 * j) 8) - 4096) (length (?ss ! j) + 1) = ?ss ! j @ [0]"
    using args_roundtrip [OF c _ sz, of "replicate 32 1" 4096] by auto
  show ?thesis using m(1) m(2) [rule_format, of 1] by (intro exI [of _ mem']) (simp add: numeral_2_eq_2)
qed

text \<open>
  The memory that is allocated for the arguments is too small: the length that is computed leaves out the first
  argument, so that with a first argument of a page or more the layout is stored behind the end of the pages.
\<close>

theorem args_memlen_short:
  assumes "\<forall>s \<in> set (s # ss). cstring s" and "4096 \<le> length s" and "length code = 32"
  shows "\<exists>m. args_memlen (map (\<lambda>s. s @ [0]) (s # ss)) = Inr m \<and>
    setup_entry_caller code (replicate (4096 * ((32 + m + 4095) div 4096)) 0) base (map (\<lambda>s. s @ [0]) (s # ss)) = Inl OutOfBounds"
proof -
  let ?m = "args_size ss + 8 * length ss"
  have m: "args_memlen (terminated (s # ss)) = Inr ?m" using memlen_loop_terminated [of ss] assms(1) by (simp add: args_memlen_def)
  let ?mem = "replicate (4096 * ((32 + ?m + 4095) div 4096)) (0 :: u8)"
  have u: "length ?mem \<le> 32 + ?m + 4095" "32 \<le> length ?mem" by simp_all
  have "args_size (s # ss) = length s + 1 + args_size ss" by (simp add: args_size_def)
  then have "length (blit ?mem 0 code) < 32 + (length (s # ss) + 1) * 8 + args_size (s # ss)" using u assms(2,3) by simp
  then have "setup_loop base 0 (32 + (length (s # ss) + 1) * 8) (terminated (s # ss)) (blit ?mem 0 code) = Inl OutOfBounds"
    using assms(1) by (intro setup_loop_fault) simp_all
  then have "setup_entry_caller code ?mem base (terminated (s # ss)) = Inl OutOfBounds"
    using u(2) assms(3) by (simp add: setup_entry_caller_def put_mem_def args_count_def)
  then show ?thesis using m by blast
qed

theorem args_memlen_short_witness:
  "\<exists>m. args_memlen [replicate 5000 65 @ [0], [66, 0]] = Inr m \<and>
    setup_entry_caller (replicate 32 1) (replicate (4096 * ((32 + m + 4095) div 4096)) 0) 0 [replicate 5000 65 @ [0], [66, 0]] = Inl OutOfBounds"
  using args_memlen_short [of "replicate 5000 65" "[[66]]" "replicate 32 1" 0] by (simp add: cstring_def)

text \<open>
  Only one loader can be registered: the second one, with a name of another hash, is stored through a null
  pointer.
\<close>

theorem second_executor_faults:
  assumes "kslist_hash n1 = Inr h1" and "kslist_hash n2 = Inr h2" and "h1 \<noteq> h2"
  shows "\<exists>l. exec_register_executor n1 f1 None = Inr (0, Some l) \<and> exec_register_executor n2 f2 (Some l) = Inl NullDeref"
proof -
  have z: "strlen (replicate 32 0) = Inr 0" by (simp add: numeral_eq_Suc)
  let ?l = "[\<lparr>ks_hash = h1, ks_name = (blit (replicate 32 0) 0 (take 0 n1))[0 := 0], ks_data = f1\<rparr>]"
  have "exec_register_executor n1 f1 None = Inr (0, Some ?l)"
    using assms(1) z by (simp add: exec_register_executor_def kslist_set_def kslist_init_def Let_def)
  moreover have "exec_register_executor n2 f2 (Some ?l) = Inl NullDeref"
    using assms(2,3) by (simp add: exec_register_executor_def kslist_set_def)
  ultimately show ?thesis by blast
qed

theorem second_executor_faults_witness:
  "\<exists>l. exec_register_executor [101, 108, 102, 0] 1 None = Inr (0, Some l) \<and> exec_register_executor [115, 104, 0] 2 (Some l) = Inl NullDeref"
proof -
  have h: "kslist_hash [101, 108, 102, 0] = Inr (hash_step (hash_step (hash_step 0 108) 102) 0)" "kslist_hash [115, 104, 0] = Inr (hash_step (hash_step 0 104) 0)"
    by (simp_all add: kslist_hash_def)
  have "hash_step (hash_step (hash_step 0 108) 102) 0 \<noteq> hash_step (hash_step 0 104) 0" by code_simp
  then show ?thesis using second_executor_faults [OF h] by blast
qed

lemma pages_of:
  assumes "unat w \<le> 2 ^ 44 - 4096"
  shows "unat (ucast (kptopg64 w) :: u32) = (unat w + 4095) div 4096"
proof -
  have "unat (w + 4095) = unat w + 4095" using assms by (subst unat_add_lem [THEN iffD1]) simp_all
  then have "unat (kptopg64 w) = (unat w + 4095) div 4096" by (simp add: kptopg64_def unat_div)
  then show ?thesis using assms by (simp add: unsigned_ucast_eq take_bit_nat_eq_self)
qed

lemma elf_is_safe_member:
  "elf_is_safe ps vend \<Longrightarrow> p \<in> set ps \<Longrightarrow> ph_type p = 1 \<Longrightarrow>
    ph_addr p \<le> vend \<and> ph_addr p + ucast ((ucast (kptopg64 (ph_msize p)) :: u32) * 4096) \<le> vend"
  by (induction ps) (auto simp: Let_def not_less split: if_splits)

text \<open>
  C39: The check of an image keeps every segment of at most \<open>2 ^ 32 - 4096\<close> bytes (4 GiB less a page)
  below the end of its address space, with the pages that are allocated for it. The number of bytes of
  the pages is computed with 32 bits: from one byte more on it wraps, and the check accepts segments that
  reach behind the end, as \<open>elf_accepts_huge\<close> shows below.
\<close>

theorem elf_safe_inside:
  assumes "elf_is_safe ps vend" and "p \<in> set ps" and "ph_type p = 1" and "unat (ph_msize p) \<le> 2 ^ 32 - 4096" and "unat vend < 2 ^ 63"
  shows "unat (ph_addr p) + 4096 * ((unat (ph_msize p) + 4095) div 4096) \<le> unat vend"
proof -
  let ?pg = "(unat (ph_msize p) + 4095) div 4096"
  note c = elf_is_safe_member [OF assms(1-3)]
  have pg: "?pg < 2 ^ 20" using assms(4) by simp
  have "unat ((ucast (kptopg64 (ph_msize p)) :: u32) * 4096) = ?pg * 4096"
    using pg pages_of [of "ph_msize p"] assms(4) by (subst unat_mult_lem [THEN iffD1]) simp_all
  then have m: "unat (ucast ((ucast (kptopg64 (ph_msize p)) :: u32) * 4096) :: u64) = ?pg * 4096"
    using pg by (simp add: unsigned_ucast_eq take_bit_nat_eq_self)
  have "unat (ph_addr p) \<le> unat vend" using c by (simp add: word_le_nat_alt)
  then have "unat (ph_addr p) + ?pg * 4096 < 2 ^ 64" using assms(5) pg by simp
  then have "unat (ph_addr p + ucast ((ucast (kptopg64 (ph_msize p)) :: u32) * 4096)) = unat (ph_addr p) + ?pg * 4096"
    using m by (subst unat_add_lem [THEN iffD1]) simp_all
  then show ?thesis using c by (simp add: word_le_nat_alt)
qed

definition segment :: "u64 \<Rightarrow> u64 \<Rightarrow> u64 \<Rightarrow> u64 \<Rightarrow> elf_program_header" where
  "segment off addr fs ms =
     \<lparr>ph_type = 1, ph_flags = 5, ph_offset = off, ph_addr = addr, no_clue = 0, ph_fsize = fs, ph_msize = ms, ph_alignment = 4096\<rparr>"

theorem elf_safe_inside_witness:
  "elf_is_safe [segment 0 1048576 5000 (2 ^ 32 - 4096)] 0x7FFFFFFFFFFF \<and>
   unat (ph_addr (segment 0 1048576 5000 (2 ^ 32 - 4096))) +
     4096 * ((unat (ph_msize (segment 0 1048576 5000 (2 ^ 32 - 4096))) + 4095) div 4096) \<le> unat (0x7FFFFFFFFFFF :: u64)"
proof -
  have e: "elf_is_safe [segment 0 1048576 5000 (2 ^ 32 - 4096)] 0x7FFFFFFFFFFF" by code_simp
  show ?thesis
    using e elf_safe_inside [OF e, of "segment 0 1048576 5000 (2 ^ 32 - 4096)"] by (simp add: segment_def)
qed

text \<open>
  A segment of 4 GiB in the last page of the address space passes the check, and one of 4 GiB less one
  byte: the product of its pages is zero. One of \<open>2 ^ 32 - 4096\<close> bytes does not.
\<close>

lemma elf_accepts_huge:
  "elf_is_safe [segment 0 0x7FFFFFFFF000 0 0x100000000] 0x7FFFFFFFFFFF"
  "elf_is_safe [segment 0 0x7FFFFFFFF000 0 0xFFFFFFFF] 0x7FFFFFFFFFFF"
  "elf_is_safe [segment 0 0x7FFFFFFFF000 0 0xFFFFF001] 0x7FFFFFFFFFFF"
  "\<not> elf_is_safe [segment 0 0x7FFFFFFFF000 0 0xFFFFF000] 0x7FFFFFFFFFFF"
  by code_simp+

section \<open>The contents of a segment\<close>









text \<open>
  A segment that does not start at a page boundary, which nothing in \<open>elf_is_safe\<close> excludes and which
  the ELF format allows, ends in the panic of \<open>kpunmap\<close>.
\<close>

theorem unaligned_segment_panics:
  assumes "ph_type p = 1" and "ph_addr p AND 0xFFF \<noteq> 0" and "0 < unat (ph_msize p)" and "unat (ph_msize p) \<le> 2 ^ 44 - 4096"
  shows "load_segments rd (p # ps) = Inl (Panic ''free alignment'')"
proof -
  obtain n where "(unat (ph_msize p) + 4095) div 4096 = Suc n"
    using assms(3) by (cases "(unat (ph_msize p) + 4095) div 4096") (auto simp: div_eq_0_iff)
  then show ?thesis using assms(1,2) pages_of [OF assms(4)] by simp
qed

theorem unaligned_segment_panics_witness:
  "elf_is_safe [segment 2 8200 3 20] 0x7FFFFFFFFFFF \<and>
   load_segments (file_at [9, 9, 1, 2, 3]) [segment 2 8200 3 20] = Inl (Panic ''free alignment'')"
proof
  show "elf_is_safe [segment 2 8200 3 20] 0x7FFFFFFFFFFF" by code_simp
  have "(8200 :: u64) AND 0xFFF \<noteq> 0" by code_simp
  then show "load_segments (file_at [9, 9, 1, 2, 3]) [segment 2 8200 3 20] = Inl (Panic ''free alignment'')"
    by (intro unaligned_segment_panics) (simp_all add: segment_def)
qed

end
