(* ===== verification/Pci.thy ===== *)
theory Pci
  imports DevTree KList Page
begin

text \<open>
  \<^verbatim>\<open>sys/pci.c\<close>: the configuration registers of the devices on the PCI bus, the scan that adds the devices to
  the device tree, and the mapping of their memory. The two ports of the host bridge are hardware: the
  arguments \<open>ind\<close> and \<open>outd\<close> say what reading and writing them does to its state. An entry is allocated
  behind those that are there, and its pointer is its number.
\<close>

section \<open>State\<close>

definition PCI_CONFIG_ADDRESS :: u16 where "PCI_CONFIG_ADDRESS = 0xCF8"
definition PCI_CONFIG_DATA :: u16 where "PCI_CONFIG_DATA = 0xCFC"

record pci_address =
  pci_bus :: u8
  pci_device :: u8
  pci_function :: u8
  pci_success :: bool

record pci_bar =
  bar_is_io :: bool
  bar_prefetchable :: bool
  bar_present :: bool
  bar_physical_addr :: u64
  bar_virtual_addr :: u64
  bar_length :: u64

record pci_entry =
  pe_address :: pci_address
  pe_vendor_id :: u16
  pe_device_id :: u16
  pe_class :: u8
  pe_subclass :: u8
  pe_revision_id :: u8
  pe_prog_if :: u8
  pe_bar :: "pci_bar list"

record 'd pcisys =
  config :: 'd
  allocated :: "pci_entry list"
  pci_entries :: "nat klist"

type_synonym 'd inportd = "u16 \<Rightarrow> 'd \<Rightarrow> u32 \<times> 'd"
type_synonym 'd outportd = "u16 \<Rightarrow> u32 \<Rightarrow> 'd \<Rightarrow> 'd"

section \<open>Configuration registers\<close>

definition address_d :: "pci_address \<Rightarrow> u8 \<Rightarrow> u32" where
  "address_d a offset =
     push_bit 16 (ucast (pci_bus a)) OR push_bit 11 (ucast (pci_device a)) OR push_bit 8 (ucast (pci_function a)) OR
     ucast (offset AND 0xFC) OR 0x80000000"

definition pci_config_read_byte :: "'d inportd \<Rightarrow> 'd outportd \<Rightarrow> pci_address \<Rightarrow> u8 \<Rightarrow> 'd \<Rightarrow> u8 \<times> 'd" where
  "pci_config_read_byte ind outd a offset d =
     (case ind PCI_CONFIG_DATA (outd PCI_CONFIG_ADDRESS (address_d a offset) d) of (v, d1) \<Rightarrow>
        (ucast (drop_bit (unat (offset AND 3) * 8) v AND 0xFF), d1))"

definition pci_config_read_word :: "'d inportd \<Rightarrow> 'd outportd \<Rightarrow> pci_address \<Rightarrow> u8 \<Rightarrow> 'd \<Rightarrow> u16 \<times> 'd" where
  "pci_config_read_word ind outd a offset d =
     (case ind PCI_CONFIG_DATA (outd PCI_CONFIG_ADDRESS (address_d a offset) d) of (v, d1) \<Rightarrow>
        (ucast (drop_bit (unat (offset AND 2) * 8) v AND 0xFFFF), d1))"

definition pci_config_read_dword :: "'d inportd \<Rightarrow> 'd outportd \<Rightarrow> pci_address \<Rightarrow> u8 \<Rightarrow> 'd \<Rightarrow> u32 \<times> 'd" where
  "pci_config_read_dword ind outd a offset d = ind PCI_CONFIG_DATA (outd PCI_CONFIG_ADDRESS (address_d a offset) d)"

text \<open>The writes of a byte and of a word read the data port before they select the register.\<close>

definition pci_config_write_byte :: "'d inportd \<Rightarrow> 'd outportd \<Rightarrow> pci_address \<Rightarrow> u8 \<Rightarrow> u8 \<Rightarrow> 'd \<Rightarrow> 'd" where
  "pci_config_write_byte ind outd a offset w d =
     (case ind PCI_CONFIG_DATA d of (v, d1) \<Rightarrow>
        let sh = unat (offset AND 3) * 8
        in outd PCI_CONFIG_DATA (v AND NOT (push_bit sh 0xFF) OR push_bit sh (ucast w)) (outd PCI_CONFIG_ADDRESS (address_d a offset) d1))"

definition pci_config_write_word :: "'d inportd \<Rightarrow> 'd outportd \<Rightarrow> pci_address \<Rightarrow> u8 \<Rightarrow> u16 \<Rightarrow> 'd \<Rightarrow> 'd" where
  "pci_config_write_word ind outd a offset w d =
     (case ind PCI_CONFIG_DATA d of (v, d1) \<Rightarrow>
        let sh = unat (offset AND 2) * 8
        in outd PCI_CONFIG_DATA (v AND NOT (push_bit sh 0xFFFF) OR push_bit sh (ucast w)) (outd PCI_CONFIG_ADDRESS (address_d a offset) d1))"

definition pci_config_write_dword :: "'d outportd \<Rightarrow> pci_address \<Rightarrow> u8 \<Rightarrow> u32 \<Rightarrow> 'd \<Rightarrow> 'd" where
  "pci_config_write_dword outd a offset w d = outd PCI_CONFIG_DATA w (outd PCI_CONFIG_ADDRESS (address_d a offset) d)"

definition pci_get_vendor :: "'d inportd \<Rightarrow> 'd outportd \<Rightarrow> pci_address \<Rightarrow> 'd \<Rightarrow> u16 \<times> 'd" where
  "pci_get_vendor ind outd a d =
     (case pci_config_read_word ind outd a 0 d of (v, d1) \<Rightarrow> if v = 0xFFFF then (v, d1) else pci_config_read_word ind outd a 2 d1)"

definition pci_get_header_type :: "'d inportd \<Rightarrow> 'd outportd \<Rightarrow> pci_address \<Rightarrow> 'd \<Rightarrow> u16 \<times> 'd" where
  "pci_get_header_type ind outd a d = pci_config_read_word ind outd a 14 d"

section \<open>Base addresses\<close>

text \<open>The length of a region from what its register gives back after all ones were written to it.\<close>

definition region_length :: "u32 \<Rightarrow> u32 \<Rightarrow> u8 \<Rightarrow> u64" where
  "region_length msk back ty =
     (let len = ucast (NOT (back AND msk) + 1);
          len1 = (if ty = 1 then len AND 0xFFFF else len)
      in if len1 AND 0xFFFF0000 > 0 then len1 AND 0xFFFF else len1)"

fun bar_loop ::
    "'d inportd \<Rightarrow> 'd outportd \<Rightarrow> pci_address \<Rightarrow> nat \<Rightarrow> nat \<Rightarrow> u8 \<Rightarrow> pci_entry \<Rightarrow> 'x device \<Rightarrow> 'd \<Rightarrow> pci_entry \<times> 'x device \<times> 'd" where
  "bar_loop ind outd a 0 i offset entry dev d = (entry, dev, d)"
| "bar_loop ind outd a (Suc n) i offset entry dev d =
     (case pci_config_read_dword ind outd a offset d of (bar, d1) \<Rightarrow>
      case pci_config_read_dword ind outd a (offset + 4) d1 of (bar2, d2) \<Rightarrow>
        let ty = ucast (drop_bit 1 bar AND 3) :: u8; io = (bar AND 1 > 0)
        in if bar = 0 then bar_loop ind outd a n (i + 1) (offset + 4) entry dev d2
           else
             let msk = (if io then 0xFFFFFFFC else 0xFFFFFFF0);
                 addr = ucast (bar AND msk) OR (if ty = 2 then push_bit 32 (ucast bar2) else 0) :: u64
             in case pci_config_read_dword ind outd a offset (pci_config_write_dword outd a offset 0xFFFFFFFF d2) of (back, d3) \<Rightarrow>
                let len = region_length msk back ty;
                    b = (pe_bar entry ! i)\<lparr>bar_physical_addr := addr, bar_present := True, bar_is_io := io,
                          bar_prefetchable := (bar AND 8 > 0), bar_length := len\<rparr>;
                    ress = \<lparr>res_type = (if io then DRT_IO else DRT_Memory), res_start = addr, res_end = addr + len\<rparr>
                in bar_loop ind outd a n (i + 1) (if ty = 2 then offset + 8 else offset + 4)
                     (entry\<lparr>pe_bar := (pe_bar entry)[i := b]\<rparr>) (snd (dev_assign_resource dev ress))
                     (pci_config_write_dword outd a offset bar d3))"

section \<open>The scan\<close>

definition no_bar :: pci_bar where
  "no_bar = \<lparr>bar_is_io = False, bar_prefetchable = False, bar_present = False, bar_physical_addr = 0, bar_virtual_addr = 0, bar_length = 0\<rparr>"

definition new_device :: "nat option device" where
  "new_device = \<lparr>device_name = replicate 32 0, device_class = replicate 32 0, attributes = [], resources = [], own_data = None\<rparr>"

definition pci_check_function ::
    "'d inportd \<Rightarrow> 'd outportd \<Rightarrow> pci_address \<Rightarrow> 'd pcisys \<Rightarrow> (nat option, 'w) treesys \<Rightarrow> ('d pcisys \<times> (nat option, 'w) treesys) res" where
  "pci_check_function ind outd a s t =
     (case pci_config_read_word ind outd a 0 (config s) of (vendor, d1) \<Rightarrow>
      case pci_config_read_word ind outd a 2 d1 of (device, d2) \<Rightarrow>
      case pci_config_read_word ind outd a 10 d2 of (cl, d3) \<Rightarrow>
      case pci_config_read_word ind outd a 8 d3 of (rv, d4) \<Rightarrow>
        let entry = \<lparr>pe_address = a\<lparr>pci_success := True\<rparr>, pe_vendor_id = vendor, pe_device_id = device,
                      pe_class = ucast (drop_bit 8 cl AND 0xFF), pe_subclass = ucast (cl AND 0xFF),
                      pe_revision_id = ucast (rv AND 0xFF), pe_prog_if = ucast (drop_bit 8 rv AND 0xFF), pe_bar = replicate 6 no_bar\<rparr>
        in bindR (dev_set_attribute new_device (cstr ''class'') (ucast (drop_bit 8 cl AND 0xFF))) (\<lambda>(_, v1).
           bindR (dev_set_attribute v1 (cstr ''subclass'') (ucast (cl AND 0xFF))) (\<lambda>(_, v2).
           bindR (dev_set_attribute v2 (cstr ''revision'') (ucast (rv AND 0xFF))) (\<lambda>(_, v3).
           bindR (dev_set_attribute v3 (cstr ''prog_if'') (ucast (drop_bit 8 rv AND 0xFF))) (\<lambda>(_, v4).
           bindR (snprintf (device_name v4) 32 (cstr ''%02x:%02x:%02x'')
                    [ANum (ucast (pci_bus a)), ANum (ucast (pci_device a)), ANum (ucast (pci_function a))]) (\<lambda>(_, name).
             case bar_loop ind outd a 6 0 16 entry (v4\<lparr>device_name := name\<rparr>) d4 of (entry', v5, d5) \<Rightarrow>
               let p = length (allocated s)
               in mapR (\<lambda>(_, t'). (\<lparr>config = d5, allocated = allocated s @ [entry'],
                                    pci_entries = snd (klist_set (pci_entries s) (count (pci_entries s)) (Some p))\<rparr>, t'))
                    (dev_add (cstr ''pci'') (v5\<lparr>own_data := Some p\<rparr>) t)))))))"

type_synonym ('d, 'w) scan = "'d pcisys \<times> (nat option, 'w) treesys"

text \<open>A function of the device is looked at when it answers.\<close>

definition try_function :: "'d inportd \<Rightarrow> 'd outportd \<Rightarrow> pci_address \<Rightarrow> ('d, 'w) scan \<Rightarrow> (bool \<times> ('d, 'w) scan) res" where
  "try_function ind outd a = (\<lambda>(s, t).
     case pci_get_vendor ind outd a (config s) of (v, d1) \<Rightarrow>
       if v = 0xFFFF then Inr (False, s\<lparr>config := d1\<rparr>, t)
       else mapR (Pair True) (pci_check_function ind outd a (s\<lparr>config := d1\<rparr>) t))"

fun function_loop :: "'d inportd \<Rightarrow> 'd outportd \<Rightarrow> pci_address \<Rightarrow> u8 list \<Rightarrow> ('d, 'w) scan \<Rightarrow> ('d, 'w) scan res" where
  "function_loop ind outd a [] x = Inr x"
| "function_loop ind outd a (f # fs) x =
     bindR (try_function ind outd (a\<lparr>pci_function := f\<rparr>) x) (\<lambda>(_, x1). function_loop ind outd a fs x1)"

definition pci_check_device :: "'d inportd \<Rightarrow> 'd outportd \<Rightarrow> pci_address \<Rightarrow> ('d, 'w) scan \<Rightarrow> ('d, 'w) scan res" where
  "pci_check_device ind outd a x =
     bindR (try_function ind outd a x) (\<lambda>(found, s, t).
       if \<not> found then Inr (s, t)
       else case pci_get_header_type ind outd a (config s) of (header, d1) \<Rightarrow>
              if header AND 0x80 > 0 then function_loop ind outd a [1, 2, 3, 4, 5, 6, 7] (s\<lparr>config := d1\<rparr>, t)
              else Inr (s\<lparr>config := d1\<rparr>, t))"

text \<open>The address that \<open>pci_check_bus\<close> passes on has a flag that it does not set and nobody reads.\<close>

fun device_loop :: "'d inportd \<Rightarrow> 'd outportd \<Rightarrow> u8 \<Rightarrow> nat list \<Rightarrow> ('d, 'w) scan \<Rightarrow> ('d, 'w) scan res" where
  "device_loop ind outd bus [] x = Inr x"
| "device_loop ind outd bus (k # ks) x =
     bindR (pci_check_device ind outd \<lparr>pci_bus = bus, pci_device = word_of_nat k, pci_function = 0, pci_success = False\<rparr> x) (device_loop ind outd bus ks)"

definition pci_check_bus :: "'d inportd \<Rightarrow> 'd outportd \<Rightarrow> u8 \<Rightarrow> ('d, 'w) scan \<Rightarrow> ('d, 'w) scan res" where
  "pci_check_bus ind outd bus = device_loop ind outd bus [0..<32]"

fun bus_loop :: "'d inportd \<Rightarrow> 'd outportd \<Rightarrow> nat list \<Rightarrow> ('d, 'w) scan \<Rightarrow> ('d, 'w) scan res" where
  "bus_loop ind outd [] x = Inr x"
| "bus_loop ind outd (k # ks) x = bindR (pci_check_bus ind outd (word_of_nat k) x) (bus_loop ind outd ks)"

definition pci_init :: "'d inportd \<Rightarrow> 'd outportd \<Rightarrow> ('d, 'w) scan \<Rightarrow> ('d, 'w) scan res" where
  "pci_init ind outd = (\<lambda>(s, t).
     bindR (dev_add_bus (cstr ''pci'') t) (\<lambda>(_, t1). bus_loop ind outd [0..<256] (s\<lparr>pci_entries := klist_init\<rparr>, t1)))"

section \<open>Use of the entries\<close>

definition pci_find_first_cs :: "u8 \<Rightarrow> u8 \<Rightarrow> 'd pcisys \<Rightarrow> nat option" where
  "pci_find_first_cs cl sub s =
     find (\<lambda>p. let e = allocated s ! p in pe_class e = cl \<and> pe_subclass e = sub) (map snd (klist_foreach (pci_entries s)))"

definition pci_find_first_csi :: "u8 \<Rightarrow> u8 \<Rightarrow> u8 \<Rightarrow> 'd pcisys \<Rightarrow> nat option" where
  "pci_find_first_csi cl sub prog_if s =
     find (\<lambda>p. let e = allocated s ! p in pe_class e = cl \<and> pe_subclass e = sub \<and> pe_prog_if e = prog_if)
       (map snd (klist_foreach (pci_entries s)))"

text \<open>The loop of \<open>pci_setup_entry\<close> over the regions; the map of the pages is that of the kernel.\<close>

fun setup_bars :: "nat \<Rightarrow> u64 \<Rightarrow> u64 \<Rightarrow> pci_bar list \<Rightarrow> pgstate \<Rightarrow> (pci_bar list \<times> pgstate) res" where
  "setup_bars fuel phys_prev virt_prev [] m = Inr ([], m)"
| "setup_bars fuel phys_prev virt_prev (b # bs) m =
     (if \<not> bar_present b \<or> bar_virtual_addr b \<noteq> 0 then mapR (\<lambda>(bs', m'). (b # bs', m')) (setup_bars fuel phys_prev virt_prev bs m)
      else bindR (if phys_prev + bar_length b = bar_physical_addr b then Inr (virt_prev + bar_length b, m)
                  else mapR (\<lambda>(v, m1). (v + (bar_physical_addr b AND 0xFFF), m1))
                         (kpmap fuel m (unat ((bar_length b + 4095) div 4096)) (bar_physical_addr b) 0x1B)) (\<lambda>(v, m1).
           mapR (\<lambda>(bs', m'). (b\<lparr>bar_virtual_addr := v\<rparr> # bs', m')) (setup_bars fuel (bar_physical_addr b) v bs m1)))"

definition pci_setup_entry :: "nat \<Rightarrow> nat \<Rightarrow> 'd pcisys \<Rightarrow> pgstate \<Rightarrow> ('d pcisys \<times> pgstate) res" where
  "pci_setup_entry fuel p s m =
     bindR (nthR (allocated s) p) (\<lambda>entry.
       mapR (\<lambda>(bs, m'). (s\<lparr>allocated := (allocated s)[p := entry\<lparr>pe_bar := bs\<rparr>]\<rparr>, m')) (setup_bars fuel 0 0 (pe_bar entry) m))"

definition pci_enable_busmaster :: "'d inportd \<Rightarrow> 'd outportd \<Rightarrow> nat option device \<Rightarrow> 'd pcisys \<Rightarrow> 'd pcisys res" where
  "pci_enable_busmaster ind outd dev s =
     (case own_data dev of
        None \<Rightarrow> Inl NullDeref
      | Some p \<Rightarrow> bindR (nthR (allocated s) p) (\<lambda>entry.
          case pci_config_read_dword ind outd (pe_address entry) 4 (config s) of (v, d1) \<Rightarrow>
            if v AND 4 \<noteq> 0 then Inr (s\<lparr>config := d1\<rparr>)
            else case pci_config_read_dword ind outd (pe_address entry) 4 d1 of (w, d2) \<Rightarrow>
                   Inr (s\<lparr>config := pci_config_write_dword outd (pe_address entry) 4 (w OR 4) d2\<rparr>)))"

section \<open>A host bridge\<close>

text \<open>
  The bridge of the specification: the address port selects a register, and of a value that is written to
  the data port the register takes the bits that can be written.
\<close>

record pci_host =
  latch :: u32
  regs :: "u32 \<Rightarrow> u32"
  writable :: "u32 \<Rightarrow> u32"

definition host_in :: "pci_host inportd" where
  "host_in port h = (if port = PCI_CONFIG_DATA then regs h (latch h) else latch h, h)"

definition host_out :: "pci_host outportd" where
  "host_out port v h =
     (if port = PCI_CONFIG_ADDRESS then h\<lparr>latch := v\<rparr>
      else h\<lparr>regs := (regs h)(latch h := (regs h (latch h) AND NOT (writable h (latch h))) OR (v AND writable h (latch h)))\<rparr>)"

definition config_word :: "pci_host \<Rightarrow> pci_address \<Rightarrow> u8 \<Rightarrow> u16" where
  "config_word h a off = ucast (drop_bit (unat (off AND 2) * 8) (regs h (address_d a off)) AND 0xFFFF)"

lemma config_word_latch [simp]: "config_word (h\<lparr>latch := l\<rparr>) a off = config_word h a off"
  by (simp add: config_word_def)

lemma read_host [simp]:
  "pci_config_read_dword host_in host_out a off h = (regs h (address_d a off), h\<lparr>latch := address_d a off\<rparr>)"
  "pci_config_read_word host_in host_out a off h =
     (config_word h a off, h\<lparr>latch := address_d a off\<rparr>)"
  by (simp_all add: pci_config_read_dword_def pci_config_read_word_def config_word_def host_in_def host_out_def PCI_CONFIG_DATA_def PCI_CONFIG_ADDRESS_def)

lemma write_host:
  "pci_config_write_dword host_out a off v h = h\<lparr>latch := address_d a off, regs := (regs h)(address_d a off :=
     (regs h (address_d a off) AND NOT (writable h (address_d a off))) OR (v AND writable h (address_d a off)))\<rparr>"
  by (simp add: pci_config_write_dword_def host_out_def PCI_CONFIG_DATA_def PCI_CONFIG_ADDRESS_def)

definition same_regs :: "pci_host \<Rightarrow> pci_host \<Rightarrow> bool" where
  "same_regs h h' \<longleftrightarrow> regs h' = regs h \<and> writable h' = writable h"

lemma same_regs_refl [simp]: "same_regs h h"
  by (simp add: same_regs_def)

lemma same_regs_trans: "same_regs h1 h2 \<Longrightarrow> same_regs h2 h3 \<Longrightarrow> same_regs h1 h3"
  by (simp add: same_regs_def)

lemma same_regs_latch [simp]: "same_regs h (h'\<lparr>latch := l\<rparr>) \<longleftrightarrow> same_regs h h'"
  by (simp add: same_regs_def)

lemma write_back: "((bar AND NOT w OR (x AND w)) AND NOT w) OR (bar AND w) = bar" for bar :: "'a::len word"
  by (rule bit_word_eqI) (auto simp: bit_simps)

lemma bar_loop_keeps:
  "bar_loop host_in host_out a n i off e dev h = (e', dev', h') \<Longrightarrow>
     same_regs h h' \<and> pe_address e' = pe_address e \<and> length (pe_bar e') = length (pe_bar e) \<and> device_name dev' = device_name dev"
proof (induction n arbitrary: i off e dev h)
  case (Suc n)
  show ?case
    using Suc.prems
    by (auto simp: Let_def write_host same_regs_def dev_assign_resource_def write_back split: if_splits dest!: Suc.IH)
qed simp

section \<open>The scan of a device\<close>

lemma strlen_closed: "\<exists>n. strlen (xs @ [0]) = Inr n"
proof (induction xs)
  case (Cons x xs)
  then show ?case by (cases "x = 0") auto
qed simp

lemma render_hex: "\<exists>tx. render (37 # 48 # 50 # 120 # f) (ANum w # args) = mapR (append tx) (render f args)"
proof -
  have "spec_at (48 # 50 # 120 # f) = Inr (48, 2, 0, 120, 2)"
    by (simp add: spec_at_def is_digit_def atoi_def ATON_COMMON_def aton_loop.simps)
  moreover have "convert 120 0 (ANum w # args) = Inr (Some (uitoa (ucast w) 16, args))" by (simp add: convert_def num_arg_def)
  moreover obtain xs where "uitoa (ucast w) 16 = xs @ [0]" by (simp add: uitoa_def UNTOA_COMMON_def Let_def)
  moreover obtain n where "strlen (xs @ [0]) = Inr n" using strlen_closed by blast
  ultimately show ?thesis by (auto simp: render.simps(2) [of 37] field_def pad_of_def)
qed

lemma name_printed: "\<exists>r. snprintf (replicate 32 0) 32 (cstr ''%02x:%02x:%02x'') [ANum x, ANum y, ANum z] = Inr r"
proof -
  have f: "cstr ''%02x:%02x:%02x'' = 37 # 48 # 50 # 120 # 58 # 37 # 48 # 50 # 120 # 58 # 37 # 48 # 50 # 120 # [0]"
    by (simp add: cstr_def bytes_of_def)
  obtain t3 where 3: "render (37 # 48 # 50 # 120 # [0]) [ANum z] = mapR (append t3) (render [0] [])" using render_hex by blast
  obtain t2 where 2: "render (37 # 48 # 50 # 120 # 58 # 37 # 48 # 50 # 120 # [0]) [ANum y, ANum z]
      = mapR (append t2) (render (58 # 37 # 48 # 50 # 120 # [0]) [ANum z])" using render_hex by blast
  obtain t1 where "render (cstr ''%02x:%02x:%02x'') [ANum x, ANum y, ANum z]
      = mapR (append t1) (render (58 # 37 # 48 # 50 # 120 # 58 # 37 # 48 # 50 # 120 # [0]) [ANum y, ANum z])"
    unfolding f using render_hex by blast
  then have "\<exists>tx. render (cstr ''%02x:%02x:%02x'') [ANum x, ANum y, ANum z] = Inr tx"
    using 2 3 by (simp add: render.simps(2) [of 58] render_end)
  then show ?thesis using snprintf_cut [of _ _ _ 32 "replicate 32 0"] by fastforce
qed

definition has_bus :: "('x, 'w) treesys \<Rightarrow> bool" where
  "has_bus t \<longleftrightarrow> (\<exists>bid b. bus_at (cstr ''pci'') bid b t \<and> bus_drivers b = [])"

lemma find_loop_update:
  "rcparray_find_loop a P = Some i \<Longrightarrow> P v \<Longrightarrow> present sl \<Longrightarrow> rcparray_find_loop (a[i := Some (sl\<lparr>val := v\<rparr>)]) P = Some i"
  by (induction a P arbitrary: i rule: rcparray_find_loop.induct) (auto split: if_splits nat.splits)

lemma find_loop_holds: "rcparray_find_loop a P = Some i \<Longrightarrow> a ! i = Some sl \<Longrightarrow> P (val sl)"
  by (induction a P arbitrary: i rule: rcparray_find_loop.induct) (auto split: if_splits)

lemma dev_add_ok:
  assumes "has_bus t"
  shows "\<exists>r t'. dev_add (cstr ''pci'') dev t = Inr (r, t') \<and> has_bus t'"
proof -
  obtain bid b where b: "bus_at (cstr ''pci'') bid b t" "bus_drivers b = []" using assms by (auto simp: has_bus_def)
  obtain sl where sl: "rcparray_find (buses t) (\<lambda>b. same_name (bus_name b) (cstr ''pci'')) = (Some (bid, b), (buses t)[bid := Some (sl\<lparr>refs := refs sl + 1\<rparr>)])"
      "bid < length (buses t)" "buses t ! bid = Some sl" "0 < refs sl" "val sl = b"
    by (rule find_bus [OF b(1)])
  have p: "present sl" "rcparray_find_loop (buses t) (\<lambda>b. same_name (bus_name b) (cstr ''pci'')) = Some bid"
    using b(1) sl(3) by (auto simp: bus_at_def)
  have n: "same_name (bus_name b) (cstr ''pci'')" using find_loop_holds [OF p(2) sl(3)] sl(5) by simp
  let ?t = "t\<lparr>buses := (buses t)[bid := Some (sl\<lparr>refs := refs sl + 1\<rparr>)]\<rparr>"
  have u: "has_bus (on_bus bid f ?t)" if f: "bus_name (f b) = bus_name b" "bus_drivers (f b) = []" for f
  proof -
    have "on_bus bid f ?t = t\<lparr>buses := (buses t)[bid := Some (sl\<lparr>refs := refs sl + 1, val := f b\<rparr>)]\<rparr>"
      using on_bus_eq [of bid ?t "sl\<lparr>refs := refs sl + 1\<rparr>" f] sl(2,5) by simp
    moreover have "rcparray_find_loop ((buses t)[bid := Some (sl\<lparr>refs := refs sl + 1, val := f b\<rparr>)]) (\<lambda>b. same_name (bus_name b) (cstr ''pci'')) = Some bid"
      using find_loop_update [OF p(2), of "f b" "sl\<lparr>refs := refs sl + 1\<rparr>"] n f(1) p(1) by simp
    ultimately show ?thesis using f(2) sl(2,4) p(1) by (auto simp: has_bus_def bus_at_def intro!: exI [of _ bid])
  qed
  have d: "try_bind_device (rcparray_foreach (bus_drivers b)) (bus_drivers b) = Inr []"
    using b(2) by (simp add: rcparray_foreach_def rcparray_foreach_from.simps [of "[]" 0] rcparray_foreach_cond_def)
  show ?thesis
  proof (cases "rcparray_find (bus_devices b) (\<lambda>e. same_name (device_name e) (device_name dev))")
    case (Pair r ds)
    then show ?thesis
      using sl(1) d b(2) by (cases r) (auto simp: dev_add_def Let_def intro!: u split: prod.split)
  qed
qed

definition entries_ok :: "'d pcisys \<Rightarrow> bool" where
  "entries_ok s \<longleftrightarrow> count (pci_entries s) = length (allocated s) \<and>
     chain (pci_entries s) = map (\<lambda>i. \<lparr>index = i, data = i\<rparr>) [0..<length (allocated s)]"

lemma klist_set_behind: "\<forall>e \<in> set es. index e \<noteq> k \<Longrightarrow> klist_set_loop es k (Some p) = (False, 1, es @ [\<lparr>index = k, data = p\<rparr>])"
  by (induction es) auto

lemma entries_ok_add:
  assumes "entries_ok s"
  shows "entries_ok \<lparr>config = d, allocated = allocated s @ [e], pci_entries = snd (klist_set (pci_entries s) (count (pci_entries s)) (Some (length (allocated s))))\<rparr>"
  using assms klist_set_behind [of "chain (pci_entries s)" "length (allocated s)" "length (allocated s)"]
  by (simp add: entries_ok_def klist_set_def nat_add_distrib)

text \<open>What a part of the scan has done: it found the functions at the given addresses and changed no register.\<close>

definition scanned :: "pci_address list \<Rightarrow> (pci_host, 'w) scan \<Rightarrow> (pci_host, 'w) scan \<Rightarrow> bool" where
  "scanned as = (\<lambda>(s, t) (s', t'). (entries_ok s \<and> has_bus t \<longrightarrow> entries_ok s' \<and> has_bus t') \<and> same_regs (config s) (config s') \<and>
     map pe_address (allocated s') = map pe_address (allocated s) @ map (\<lambda>a. a\<lparr>pci_success := True\<rparr>) as)"

lemma scanned_nil: "same_regs (config s) d \<Longrightarrow> scanned [] (s, t) (s\<lparr>config := d\<rparr>, t)"
  by (simp add: scanned_def entries_ok_def)

lemma scanned_append: "scanned as x y \<Longrightarrow> scanned bs y z \<Longrightarrow> scanned (as @ bs) x z"
  by (cases x; cases y; cases z) (auto simp: scanned_def intro: same_regs_trans)

lemma set_attribute_fresh:
  "attrs_ok v \<Longrightarrow> n \<in> {''class'', ''subclass'', ''revision'', ''prog_if''} \<Longrightarrow>
    \<exists>r v'. dev_set_attribute v (cstr n) w = Inr (r, v') \<and> attrs_ok v' \<and> device_name v' = device_name v"
proof -
  assume a: "attrs_ok v" and n: "n \<in> {''class'', ''subclass'', ''revision'', ''prog_if''}"
  have "cstring (bytes_of n)" "length (bytes_of n) < 16" using n by (auto simp: bytes_of_def cstring_def)
  then obtain r v' where v': "dev_set_attribute v (cstr n) w = Inr (r, v')" "attrs_ok v'"
    using set_attribute_refines [OF a, of "bytes_of n" "[]" w] by (auto simp: cstr_def)
  have "device_name v' = device_name v"
    using v'(1) by (auto simp: dev_set_attribute_def mapR_eq_Inr_iff split: prod.splits option.splits)
  then show ?thesis using v' by blast
qed

lemma check_function_ok:
  assumes "entries_ok s" and "has_bus t"
  shows "\<exists>x. pci_check_function host_in host_out a s t = Inr x \<and> scanned [a] (s, t) x"
proof -
  define cl where "cl = config_word (config s) a 10"
  define rv where "rv = config_word (config s) a 8"
  have v0: "attrs_ok new_device" "device_name new_device = replicate 32 0" by (simp_all add: new_device_def attrs_ok_def)
  obtain r1 v1 where v1: "dev_set_attribute new_device (cstr ''class'') (ucast (drop_bit 8 cl AND 0xFF)) = Inr (r1, v1)" "attrs_ok v1" "device_name v1 = replicate 32 0"
    using set_attribute_fresh [OF v0(1), of "''class''" "ucast (drop_bit 8 cl AND 0xFF)"] v0(2) by auto
  obtain r2 v2 where v2: "dev_set_attribute v1 (cstr ''subclass'') (ucast (cl AND 0xFF)) = Inr (r2, v2)" "attrs_ok v2" "device_name v2 = replicate 32 0"
    using set_attribute_fresh [OF v1(2), of "''subclass''" "ucast (cl AND 0xFF)"] v1(3) by auto
  obtain r3 v3 where v3: "dev_set_attribute v2 (cstr ''revision'') (ucast (rv AND 0xFF)) = Inr (r3, v3)" "attrs_ok v3" "device_name v3 = replicate 32 0"
    using set_attribute_fresh [OF v2(2), of "''revision''" "ucast (rv AND 0xFF)"] v2(3) by auto
  obtain r4 v4 where v4: "dev_set_attribute v3 (cstr ''prog_if'') (ucast (drop_bit 8 rv AND 0xFF)) = Inr (r4, v4)" "device_name v4 = replicate 32 0"
    using set_attribute_fresh [OF v3(2), of "''prog_if''" "ucast (drop_bit 8 rv AND 0xFF)"] v3(3) by auto
  obtain k name where nm: "snprintf (device_name v4) 32 (cstr ''%02x:%02x:%02x'')
      [ANum (ucast (pci_bus a)), ANum (ucast (pci_device a)), ANum (ucast (pci_function a))] = Inr (k, name)"
    using name_printed v4(2) by (metis surj_pair)
  define en where "en = \<lparr>pe_address = a\<lparr>pci_success := True\<rparr>,
      pe_vendor_id = config_word (config s) a 0, pe_device_id = config_word (config s) a 2,
      pe_class = ucast (drop_bit 8 cl AND 0xFF), pe_subclass = ucast (cl AND 0xFF),
      pe_revision_id = ucast (rv AND 0xFF), pe_prog_if = ucast (drop_bit 8 rv AND 0xFF), pe_bar = replicate 6 no_bar\<rparr>"
  obtain e' v5 d5 where bl: "bar_loop host_in host_out a 6 0 16 en (v4\<lparr>device_name := name\<rparr>) ((config s)\<lparr>latch := address_d a 8\<rparr>) = (e', v5, d5)"
    by (metis surj_pair)
  note keep = bar_loop_keeps [OF bl]
  obtain r6 t' where ad: "dev_add (cstr ''pci'') (v5\<lparr>own_data := Some (length (allocated s))\<rparr>) t = Inr (r6, t')" "has_bus t'"
    using dev_add_ok [OF assms(2)] by blast
  let ?s = "\<lparr>config = d5, allocated = allocated s @ [e'], pci_entries = snd (klist_set (pci_entries s) (count (pci_entries s)) (Some (length (allocated s))))\<rparr>"
  have "pci_check_function host_in host_out a s t = Inr (?s, t')"
    using v1(1) v2(1) v3(1) v4(1) nm bl ad(1)
    by (simp add: pci_check_function_def Let_def cl_def [symmetric] rv_def [symmetric] en_def [symmetric])
  moreover have "scanned [a] (s, t) (?s, t')"
    using entries_ok_add [OF assms(1), of d5 e'] keep ad(2) by (simp add: scanned_def en_def same_regs_def)
  ultimately show ?thesis by blast
qed

section \<open>The scan of the buses\<close>

text \<open>The functions the registers of the bridge describe: those with a vendor and a device number.\<close>

definition answers :: "pci_host \<Rightarrow> pci_address \<Rightarrow> bool" where
  "answers h a \<longleftrightarrow> config_word h a 0 \<noteq> 0xFFFF \<and> config_word h a 2 \<noteq> 0xFFFF"

definition functions_of :: "pci_host \<Rightarrow> pci_address \<Rightarrow> pci_address list" where
  "functions_of h a =
     (if answers h a
      then a # (if config_word h a 14 AND 0x80 > 0 then filter (answers h) (map (\<lambda>f. a\<lparr>pci_function := f\<rparr>) [1, 2, 3, 4, 5, 6, 7]) else [])
      else [])"

definition functions_on :: "pci_host \<Rightarrow> nat \<Rightarrow> pci_address list" where
  "functions_on h bus = concat (map (\<lambda>k. functions_of h
     \<lparr>pci_bus = word_of_nat bus, pci_device = word_of_nat k, pci_function = 0, pci_success = False\<rparr>) [0..<32])"

definition ready :: "pci_host \<Rightarrow> (pci_host, 'w) scan \<Rightarrow> bool" where
  "ready h x \<longleftrightarrow> entries_ok (fst x) \<and> has_bus (snd x) \<and> same_regs h (config (fst x))"

definition runs_to :: "pci_address list \<Rightarrow> (pci_host, 'w) scan \<Rightarrow> (pci_host, 'w) scan res \<Rightarrow> bool" where
  "runs_to as x r \<longleftrightarrow> (\<exists>y. r = Inr y \<and> scanned as x y)"

lemma ready_scanned: "ready h x \<Longrightarrow> scanned as x y \<Longrightarrow> ready h y"
  by (auto simp: ready_def scanned_def split: prod.splits intro: same_regs_trans)

lemma answers_ready: "ready h (s, t) \<Longrightarrow> answers (config s) = answers h \<and> config_word (config s) = config_word h"
  by (simp add: ready_def same_regs_def answers_def config_word_def fun_eq_iff)

lemma runs_to_done: "runs_to [] x (Inr x)"
  using scanned_nil [of "fst x" "config (fst x)" "snd x"] by (simp add: runs_to_def)

lemma runs_to_bind:
  assumes "ready h x" and "runs_to as x r" and "\<And>y. ready h y \<Longrightarrow> runs_to bs y (f y)"
  shows "runs_to (as @ bs) x (bindR r f)"
proof -
  obtain y where y: "r = Inr y" "scanned as x y" using assms(2) by (auto simp: runs_to_def)
  obtain z where "f y = Inr z" "scanned bs y z" using assms(3) [OF ready_scanned [OF assms(1) y(2)]] by (auto simp: runs_to_def)
  then show ?thesis using y scanned_append [OF y(2), of bs z] by (simp add: runs_to_def)
qed

lemma try_function_ok:
  assumes "ready h x"
  shows "\<exists>y. try_function host_in host_out a x = Inr (answers h a, y) \<and> scanned (if answers h a then [a] else []) x y"
proof -
  obtain s t where x: "x = (s, t)" by fastforce
  have ok: "entries_ok (s\<lparr>config := d\<rparr>)" "has_bus t" for d using assms x by (simp_all add: ready_def entries_ok_def)
  have v: "pci_get_vendor host_in host_out a (config s) =
      (if config_word h a 0 = 0xFFFF then 0xFFFF else config_word h a 2,
       (config s)\<lparr>latch := address_d a (if config_word h a 0 = 0xFFFF then 0 else 2)\<rparr>)"
    using answers_ready [of h s t] assms x by (auto simp: pci_get_vendor_def)
  show ?thesis
  proof (cases "answers h a")
    case True
    let ?s = "s\<lparr>config := (config s)\<lparr>latch := address_d a 2\<rparr>\<rparr>"
    obtain y where y: "pci_check_function host_in host_out a ?s t = Inr y" "scanned [a] (?s, t) y" using check_function_ok [OF ok] by blast
    have "scanned [a] (s, t) y" using scanned_append [OF scanned_nil [of s _ t] y(2)] by simp
    then show ?thesis using x v y(1) True by (simp add: try_function_def answers_def)
  next
    case False
    then show ?thesis using x v scanned_nil [of s _ t] by (auto simp: try_function_def answers_def)
  qed
qed

lemma function_loop_ok:
  "ready h x \<Longrightarrow> runs_to (filter (answers h) (map (\<lambda>f. a\<lparr>pci_function := f\<rparr>) fs)) x (function_loop host_in host_out a fs x)"
proof (induction fs arbitrary: x)
  case Nil
  then show ?case by (simp add: runs_to_done)
next
  case (Cons f fs)
  let ?a = "a\<lparr>pci_function := f\<rparr>"
  obtain y where y: "try_function host_in host_out ?a x = Inr (answers h ?a, y)" "scanned (if answers h ?a then [?a] else []) x y"
    using try_function_ok [OF Cons.prems] by blast
  have "runs_to ((if answers h ?a then [?a] else []) @ filter (answers h) (map (\<lambda>f. a\<lparr>pci_function := f\<rparr>) fs)) x
      (bindR (Inr y) (function_loop host_in host_out a fs))"
    using y(2) by (intro runs_to_bind [OF Cons.prems] Cons.IH) (simp_all add: runs_to_def)
  then show ?case using y(1) by (auto split: if_splits)
qed

lemma check_device_ok:
  assumes "ready h x"
  shows "runs_to (functions_of h a) x (pci_check_device host_in host_out a x)"
proof -
  obtain s t where y: "try_function host_in host_out a x = Inr (answers h a, s, t)" "scanned (if answers h a then [a] else []) x (s, t)"
    using try_function_ok [OF assms] by (metis surj_pair)
  have r: "ready h (s, t)" by (rule ready_scanned [OF assms y(2)])
  show ?thesis
  proof (cases "answers h a")
    case True
    let ?x = "(s\<lparr>config := (config s)\<lparr>latch := address_d a 14\<rparr>\<rparr>, t)"
    let ?fs = "if config_word h a 14 AND 0x80 > 0 then filter (answers h) (map (\<lambda>f. a\<lparr>pci_function := f\<rparr>) [1, 2, 3, 4, 5, 6, 7]) else []"
    have x: "ready h ?x" "scanned [] (s, t) ?x" using r scanned_nil [of s _ t] by (simp_all add: ready_def entries_ok_def)
    have sx: "scanned [a] x ?x" using scanned_append [OF y(2) x(2)] True by simp
    have "runs_to ([a] @ ?fs) x (bindR (Inr ?x) (\<lambda>x1.
        if config_word h a 14 AND 0x80 > 0 then function_loop host_in host_out a [1, 2, 3, 4, 5, 6, 7] x1 else Inr x1))"
    proof (rule runs_to_bind [OF assms])
      show "runs_to [a] x (Inr ?x)" using sx by (simp add: runs_to_def)
      show "runs_to ?fs z (if config_word h a 14 AND 0x80 > 0 then function_loop host_in host_out a [1, 2, 3, 4, 5, 6, 7] z else Inr z)"
        if "ready h z" for z
        using function_loop_ok [OF that, of a "[1, 2, 3, 4, 5, 6, 7]"] runs_to_done [of z] by (simp del: function_loop.simps list.map filter.simps)
    qed
    then show ?thesis using True y(1) answers_ready [OF r] by (simp add: pci_check_device_def functions_of_def pci_get_header_type_def)
  next
    case False
    then show ?thesis using y by (simp add: pci_check_device_def functions_of_def runs_to_def)
  qed
qed

lemma device_loop_ok:
  "ready h x \<Longrightarrow> runs_to (concat (map (\<lambda>k. functions_of h
     \<lparr>pci_bus = bus, pci_device = word_of_nat k, pci_function = 0, pci_success = False\<rparr>) ks)) x (device_loop host_in host_out bus ks x)"
proof (induction ks arbitrary: x)
  case (Cons k ks)
  then show ?case by (auto intro: runs_to_bind check_device_ok)
qed (simp add: runs_to_done)

lemma bus_loop_ok: "ready h x \<Longrightarrow> runs_to (concat (map (functions_on h) ks)) x (bus_loop host_in host_out ks x)"
proof (induction ks arbitrary: x)
  case (Cons k ks)
  have "runs_to (functions_on h k) x (pci_check_bus host_in host_out (word_of_nat k) x)"
    unfolding pci_check_bus_def functions_on_def by (rule device_loop_ok [OF Cons.prems])
  then show ?case using Cons by (auto intro: runs_to_bind)
qed (simp add: runs_to_done)

lemma first_bus:
  fixes t :: "('x, 'w) treesys"
  assumes "buses t = []"
  shows "\<exists>t'. dev_add_bus (cstr ''pci'') t = Inr (0, t') \<and> has_bus t'"
proof -
  have c: "cstring (bytes_of ''pci'')" "length (bytes_of ''pci'') < 32" by (simp_all add: bytes_of_def cstring_def)
  obtain b where b: "store_name 32 (cstr ''pci'') = Inr b" "stored_name 32 b" "text_of b = bytes_of ''pci''"
    using store_name_ok [OF c, of "[]"] by (auto simp: cstr_def)
  have n: "same_name b (cstr ''pci'')" using same_name_text [OF b(2) c(1), of "[]"] b(3) by (simp add: cstr_def)
  let ?b = "\<lparr>bus_name = b, bus_devices = [], bus_drivers = []\<rparr> :: 'x bus"
  have a: "snd (rcparray_add [] ?b) = [Some (fresh_slot ?b)]" by (simp add: rcparray_add_def)
  have "has_bus (t\<lparr>buses := [Some (fresh_slot ?b)]\<rparr>)"
    using n by (auto simp: has_bus_def bus_at_def fresh_slot_def intro!: exI [of _ ?b])
  then show ?thesis using b(1) assms a by (simp add: dev_add_bus_def rcparray_find_def)
qed

section \<open>Properties\<close>

text \<open>
  C10: The scan of the PCI buses ends without a fault, finds every function of every device that answers, in the order of
  the addresses, keeps one entry for each of them in the list, and leaves the configuration registers as they
  were, although it overwrites the base addresses to measure the regions.
\<close>

theorem pci_init_finds:
  assumes "allocated s = []" and "buses t = []"
  shows "\<exists>s' t'. pci_init host_in host_out (s, t) = Inr (s', t') \<and> regs (config s') = regs (config s) \<and>
    map pe_address (allocated s') = map (\<lambda>a. a\<lparr>pci_success := True\<rparr>) (concat (map (functions_on (config s)) [0..<256])) \<and>
    klist_foreach (pci_entries s') = map (\<lambda>i. (i, i)) [0..<length (allocated s')]"
proof -
  obtain t1 where t1: "dev_add_bus (cstr ''pci'') t = Inr (0, t1)" "has_bus t1" using first_bus [OF assms(2)] by blast
  let ?x = "(s\<lparr>pci_entries := klist_init\<rparr>, t1)"
  have r: "ready (config s) ?x" using t1(2) assms(1) by (simp add: ready_def entries_ok_def klist_init_def)
  obtain s' t' where y: "bus_loop host_in host_out [0..<256] ?x = Inr (s', t')" "scanned (concat (map (functions_on (config s)) [0..<256])) ?x (s', t')"
    using bus_loop_ok [OF r, of "[0..<256]"] by (auto simp: runs_to_def)
  have "entries_ok s'" using ready_scanned [OF r y(2)] by (simp add: ready_def)
  then have "klist_foreach (pci_entries s') = map (\<lambda>i. (i, i)) [0..<length (allocated s')]"
    by (simp add: klist_foreach_chain entries_ok_def comp_def)
  then show ?thesis using t1(1) y assms(1) by (auto simp: pci_init_def scanned_def same_regs_def simp del: upt.simps upt_rec_numeral)
qed

definition example_host :: pci_host where
  "example_host = \<lparr>latch = 0, regs = (\<lambda>l. if l = 0x80000000 then 0x12378086 else if l = 0x80000008 then 0x06000002 else 0), writable = (\<lambda>_. 0)\<rparr>"

theorem pci_init_finds_witness:
  "\<exists>s' t'. pci_init host_in host_out (\<lparr>config = example_host, allocated = [], pci_entries = klist_init\<rparr>, \<lparr>buses = [], classes = [], outside = ()\<rparr>) = Inr (s', t') \<and>
    regs (config s') 0x80000000 = 0x12378086 \<and>
    map pe_address (allocated s') = map (\<lambda>a. a\<lparr>pci_success := True\<rparr>) (concat (map (functions_on example_host) [0..<256]))"
  using pci_init_finds [of "\<lparr>config = example_host, allocated = [], pci_entries = klist_init\<rparr>" "\<lparr>buses = [], classes = [], outside = ()\<rparr>"]
  by (auto simp: example_host_def simp del: upt.simps upt_rec_numeral)

text \<open>
  Writing a byte stores the other three bytes of the register that was selected before into the register that is
  written.
\<close>

lemma write_byte_mixes:
  assumes "writable h (address_d a off) = NOT 0"
  shows "regs (pci_config_write_byte host_in host_out a off w h) (address_d a off) =
    (regs h (latch h) AND NOT (push_bit (unat (off AND 3) * 8) 0xFF)) OR push_bit (unat (off AND 3) * 8) (ucast w)"
  using assms by (simp add: pci_config_write_byte_def host_in_def host_out_def PCI_CONFIG_DATA_def PCI_CONFIG_ADDRESS_def Let_def)

lemma region_table: "\<forall>k \<in> set [4..<32]. region_length (NOT (mask 4)) (NOT (mask k)) 0 = (if k < 16 then 2 ^ k else 0)"
  by code_simp

text \<open>
  C40: The length of a memory region is found from its register when the region is smaller than 64 KiB; a region of 64 KiB or
  more is given the length zero, so that it ends where it starts.
\<close>

theorem memory_region_length:
  assumes "regs h l = bar" and "l = address_d a off" and "bar \<noteq> 0" and "bar AND 7 = 0" and "writable h l = NOT (mask k)"
    and "bar AND mask k AND NOT 0xF = 0" and "4 \<le> k" and "k < 32" and "i < length (pe_bar e)"
  shows "bar_length (pe_bar (fst (bar_loop host_in host_out a 1 i off e dev h)) ! i) = (if k < 16 then 2 ^ k else 0)"
proof -
  have m: "(7 :: u32) = mask 3" "(3 :: u32) = mask 2" "(0xFFFFFFF0 :: u32) = NOT (mask 4)" "(0xF :: u32) = mask 4" "(0xFFFFFFFF :: u32) = NOT 0"
    by (simp_all add: mask_eq_exp_minus_1)
  have z: "\<not> bit bar n" if "n < 3" for n
  proof -
    have "\<not> bit (bar AND mask 3) n" using assms(4) unfolding m(1) by simp
    then show ?thesis using that by (simp add: bit_simps)
  qed
  have b: "bar AND 1 = 0" using z [of 0] by (simp add: and_one_eq bit_0 even_iff_mod_2_eq_zero)
  have b2: "drop_bit 1 bar AND mask 2 = 0" by (rule bit_word_eqI) (use z in \<open>auto simp: bit_simps\<close>)
  have g: "bit bar n \<Longrightarrow> n < k \<Longrightarrow> n < 32 \<Longrightarrow> n < 4" for n
  proof -
    assume n: "bit bar n" "n < k" "n < 32"
    have "\<not> bit (bar AND mask k AND NOT (mask 4)) n" using assms(6) unfolding m(4) by simp
    then show "n < 4" using n by (simp add: bit_simps)
  qed
  have rb: "(bar AND NOT (NOT (mask k)) OR NOT 0 AND NOT (mask k)) AND NOT (mask 4) = NOT (mask k)"
    by (rule bit_word_eqI) (use g assms(7) in \<open>auto simp: bit_simps\<close>)
  have rk: "NOT (mask k) AND NOT (mask 4) = (NOT (mask k) :: u32)"
    by (rule bit_word_eqI) (use assms(7) in \<open>auto simp: bit_simps\<close>)
  have "region_length (NOT (mask 4)) (bar AND NOT (NOT (mask k)) OR NOT 0 AND NOT (mask k)) 0 = region_length (NOT (mask 4)) (NOT (mask k)) 0"
    unfolding region_length_def rb rk ..
  moreover have "k \<in> set [4..<32]" using assms(7,8) by (simp only: set_upt atLeastLessThan_iff)
  ultimately have len: "region_length 0xFFFFFFF0 (bar AND NOT (NOT (mask k)) OR 0xFFFFFFFF AND NOT (mask k)) 0 = (if k < 16 then 2 ^ k else 0)"
    unfolding m(3,5) by (simp only: region_table [THEN bspec])
  have "drop_bit (Suc 0) bar AND 3 = 0" using b2 unfolding m(2) by simp
  then show ?thesis using assms(1-3,5,9) b len by (simp add: write_host Let_def)
qed

definition example_address :: pci_address where
  "example_address = \<lparr>pci_bus = 0, pci_device = 3, pci_function = 0, pci_success = False\<rparr>"

definition example_entry :: pci_entry where
  "example_entry = \<lparr>pe_address = example_address, pe_vendor_id = 0, pe_device_id = 0, pe_class = 0, pe_subclass = 0,
     pe_revision_id = 0, pe_prog_if = 0, pe_bar = replicate 6 no_bar\<rparr>"

theorem memory_region_length_witness:
  "bar_length (pe_bar (fst (bar_loop host_in host_out example_address 1 0 16 example_entry new_device
     \<lparr>latch = 0, regs = (\<lambda>_. 0xFEB00000), writable = (\<lambda>_. NOT (mask 20))\<rparr>)) ! 0) = 0"
proof -
  have "(0xFEB00000 :: u32) AND mask 20 AND NOT 0xF = 0" by code_simp
  then show ?thesis
    using memory_region_length [of "\<lparr>latch = 0, regs = (\<lambda>_. 0xFEB00000), writable = (\<lambda>_. NOT (mask 20))\<rparr>" _ "0xFEB00000" example_address 16 20 0 example_entry new_device]
    by (simp add: example_entry_def)
qed

end
