(* ===== verification/CharDrv.thy ===== *)
theory CharDrv
  imports Irq Dev
begin

text \<open>
  Two drivers of character devices: the serial ports of \<^verbatim>\<open>arch/x64/pcuart/pcuart.c\<close>, whose interrupts fill one
  buffer for each port, and the device without contents of \<^verbatim>\<open>drv/pseudo/null.c\<close>. The registers of the ports are
  hardware: the arguments \<open>inb\<close> and \<open>outb\<close> say what reading and writing them does to its state.
\<close>

section \<open>Serial ports\<close>

definition MAX_SERIAL :: nat where "MAX_SERIAL = 4"

definition pcuart_ioports :: "u16 list" where
  "pcuart_ioports = [0x3F8, 0x2F8, 0x3E8, 0x2E8]"

definition REG_DATA :: u16 where "REG_DATA = 0"
definition REG_INT :: u16 where "REG_INT = 1"
definition REG_DIV_LO :: u16 where "REG_DIV_LO = 0"
definition REG_DIV_HI :: u16 where "REG_DIV_HI = 1"
definition REG_LCONTROL :: u16 where "REG_LCONTROL = 3"
definition REG_MCONTROL :: u16 where "REG_MCONTROL = 4"
definition REG_LSTATUS :: u16 where "REG_LSTATUS = 5"
definition REG_SCRATCH :: u16 where "REG_SCRATCH = 7"

lemmas reg_defs = REG_DATA_def REG_INT_def REG_DIV_LO_def REG_DIV_HI_def REG_LCONTROL_def REG_MCONTROL_def REG_LSTATUS_def REG_SCRATCH_def

record 'd uartsys =
  pcuart_present :: "bool list"
  pcuart_buffers :: "cbufm list"
  pcuart_last :: "nat list"
  uart_ports :: 'd

type_synonym 'd byte_in = "u16 \<Rightarrow> 'd \<Rightarrow> u8 \<times> 'd"
type_synonym 'd byte_out = "u16 \<Rightarrow> u8 \<Rightarrow> 'd \<Rightarrow> 'd"

definition pcuart_set_baud_div :: "'d byte_in \<Rightarrow> 'd byte_out \<Rightarrow> nat \<Rightarrow> u16 \<Rightarrow> 'd \<Rightarrow> 'd" where
  "pcuart_set_baud_div inb outb port divisor d =
     (let p = pcuart_ioports ! port
      in case inb (p + REG_LCONTROL) d of (tmp, d1) \<Rightarrow>
           outb (p + REG_LCONTROL) tmp
             (outb (p + REG_DIV_HI) (ucast (drop_bit 8 divisor AND 0xFF))
             (outb (p + REG_DIV_LO) (ucast (divisor AND 0xFF))
             (outb (p + REG_LCONTROL) (tmp OR 0x80) d1))))"

text \<open>The number of data bits is computed from the parity; the argument \<open>data_bits\<close> is not used.\<close>

definition pcuart_set_params :: "'d byte_out \<Rightarrow> nat \<Rightarrow> u8 \<Rightarrow> bool \<Rightarrow> u8 \<Rightarrow> 'd \<Rightarrow> 'd" where
  "pcuart_set_params outb port data_bits two_stop parity d =
     outb (pcuart_ioports ! port + REG_LCONTROL)
       (((parity - 5) AND 3) + (if two_stop then 4 else 0) + push_bit 3 (parity AND 7)) d"

definition verify_port :: "int \<Rightarrow> bool" where
  "verify_port port \<longleftrightarrow> \<not> (port < 0 \<or> port > 3)"

text \<open>The loop of an interrupt over the bytes a port has received; a deletion becomes a backspace.\<close>

partial_function (option) drain :: "'d byte_in \<Rightarrow> u16 \<Rightarrow> 'd \<Rightarrow> cbufm \<Rightarrow> ('d \<times> cbufm) option" where
  "drain inb p d m =
     (case inb (p + REG_LSTATUS) d of (st, d1) \<Rightarrow>
        if st AND 1 \<noteq> 0
        then (case inb (p + REG_DATA) d1 of (c, d2) \<Rightarrow> drain inb p d2 (cbufm_write m [if c = 127 then 8 else c]))
        else Some (d1, m))"

definition receive :: "'d byte_in \<Rightarrow> nat \<Rightarrow> 'd uartsys \<Rightarrow> 'd uartsys option" where
  "receive inb i s =
     (if pcuart_present s ! i
      then map_option (\<lambda>(d, m). s\<lparr>uart_ports := d, pcuart_buffers := (pcuart_buffers s)[i := m]\<rparr>)
             (drain inb (pcuart_ioports ! i) (uart_ports s) (pcuart_buffers s ! i))
      else Some s)"

definition pcuart_0_2_irq :: "'d byte_in \<Rightarrow> 'd uartsys \<Rightarrow> 'd uartsys option" where
  "pcuart_0_2_irq inb s = Option.bind (receive inb 0 s) (receive inb 2)"

definition pcuart_1_3_irq :: "'d byte_in \<Rightarrow> 'd uartsys \<Rightarrow> 'd uartsys option" where
  "pcuart_1_3_irq inb s = Option.bind (receive inb 1 s) (receive inb 3)"

section \<open>Operations of the devices\<close>

definition pcuart_open :: "int \<Rightarrow> dev_fd \<Rightarrow> 'd uartsys \<Rightarrow> (int \<times> dev_fd \<times> 'd uartsys) res" where
  "pcuart_open fd file s = Inr (0, file, s)"

text \<open>
  The number of the device is that of a port. A read waits until all the bytes it asks for, at most 64, are
  there; with fewer, and with a negative length, it is still waiting.
\<close>

definition pcuart_read :: "int \<Rightarrow> dev_fd \<Rightarrow> int \<Rightarrow> 'd uartsys \<Rightarrow> (int \<times> bytes \<times> dev_fd \<times> 'd uartsys) res" where
  "pcuart_read fd file len0 s =
     (let len = (if len0 > 64 then 64 else len0)
      in if fd < 0 then Inl OutOfBounds
         else bindR (nthR (pcuart_buffers s) (nat fd)) (\<lambda>m.
              bindR (nthR (pcuart_last s) (nat fd)) (\<lambda>l.
                if cbufm_available m l < nat (len mod 2 ^ 32) then Inl Hang
                else case cbufm_read m l (nat len) of (bs, l', _) \<Rightarrow>
                       Inr (len, bs, file, s\<lparr>pcuart_last := (pcuart_last s)[nat fd := l']\<rparr>))))"

definition put_byte :: "'d byte_out \<Rightarrow> u16 \<Rightarrow> u8 \<Rightarrow> 'd \<Rightarrow> 'd" where
  "put_byte outb port c d = (if c = 10 then outb port 10 (outb port 13 d) else outb port c d)"

definition pcuart_write :: "'d byte_out \<Rightarrow> int \<Rightarrow> dev_fd \<Rightarrow> bytes \<Rightarrow> int \<Rightarrow> 'd uartsys \<Rightarrow> (int \<times> dev_fd \<times> 'd uartsys) res" where
  "pcuart_write outb fd file buf len s =
     (if fd < 0 then Inl OutOfBounds
      else bindR (nthR pcuart_ioports (nat fd)) (\<lambda>p.
        if int (length buf) < len then Inl OutOfBounds
        else Inr (len, file, s\<lparr>uart_ports := fold (put_byte outb (p + REG_DATA)) (take (nat len) buf) (uart_ports s)\<rparr>)))"

definition pcuart_close :: "int \<Rightarrow> dev_fd \<Rightarrow> 'd uartsys \<Rightarrow> (dev_fd \<times> 'd uartsys) res" where
  "pcuart_close fd file s = Inr (file, s)"

definition pcuart_ioctl :: "int \<Rightarrow> dev_fd \<Rightarrow> int \<Rightarrow> bytes \<Rightarrow> 'd uartsys \<Rightarrow> (int \<times> bytes \<times> dev_fd \<times> 'd uartsys) res" where
  "pcuart_ioctl fd file code mem s =
     (if code = IOCTL_BYTES_AVAILABLE then
        (if fd < 0 \<or> length mem < 4 then Inl OutOfBounds
         else bindR (nthR (pcuart_buffers s) (nat fd)) (\<lambda>m.
              bindR (nthR (pcuart_last s) (nat fd)) (\<lambda>l. Inr (0, blit mem 0 (le32 (cbufm_available m l)), file, s))))
      else Inr (- ENOSYS, mem, file, s))"

definition pcuart_ops :: "'d byte_out \<Rightarrow> 'd uartsys dev_char_ops" where
  "pcuart_ops outb = \<lparr>cop_open = Some pcuart_open, cop_read = Some pcuart_read, cop_write = Some (pcuart_write outb),
     cop_close = Some pcuart_close, cop_ioctl = Some pcuart_ioctl\<rparr>"

section \<open>Initialisation\<close>

text \<open>
  The loop over the ports: each with the address of the structure that is allocated for its device, and the
  number of the devices so far.
\<close>

fun init_ports :: "'d byte_in \<Rightarrow> 'd byte_out \<Rightarrow> (nat \<times> nat) list \<Rightarrow> nat \<Rightarrow> 'd uartsys devsys \<Rightarrow> 'd uartsys devsys res" where
  "init_ports inb outb [] cnt s = Inr s"
| "init_ports inb outb ((i, addr) # ps) cnt s =
     (let p = pcuart_ioports ! i; u = hw s
      in case inb (p + REG_SCRATCH) (outb (p + REG_SCRATCH) 0x34 (uart_ports u)) of (ret, d1) \<Rightarrow>
           if ret \<noteq> 0x34 then init_ports inb outb ps cnt (s\<lparr>hw := u\<lparr>uart_ports := d1\<rparr>\<rparr>)
           else let d2 = pcuart_set_baud_div inb outb i 2 (outb (p + REG_INT) 0 d1);
                    d3 = outb (p + REG_INT) 1 (outb (p + REG_MCONTROL) 0xB (pcuart_set_params outb i 8 False 0 d2));
                    s1 = s\<lparr>chars := (chars s)(addr \<mapsto> \<lparr>char_id = int i, char_worker = 0, char_ops = pcuart_ops outb\<rparr>)\<rparr>
                in bindR (snprintf (replicate 8 0) 8 (cstr ''tts%i'') [ANum (word_of_nat cnt)]) (\<lambda>(_, name).
                   bindR (dev_register_char name addr s1) (\<lambda>(_, s2).
                     init_ports inb outb ps (cnt + 1)
                       (s2\<lparr>hw := u\<lparr>uart_ports := d3, pcuart_present := (pcuart_present u)[i := True],
                                   pcuart_buffers := (pcuart_buffers u)[i := cbufm_create 256 (replicate 256 0)]\<rparr>\<rparr>))))"

definition pcuart_init ::
    "'d byte_in \<Rightarrow> 'd byte_out \<Rightarrow> nat list \<Rightarrow> nat \<Rightarrow> nat \<Rightarrow> 'd uartsys devsys \<Rightarrow> 'w irqsys \<Rightarrow> ('d uartsys devsys \<times> 'w irqsys) res" where
  "pcuart_init inb outb addrs even_handler odd_handler s q =
     bindR (init_ports inb outb (zip [0..<MAX_SERIAL] addrs) 0 s) (\<lambda>s1.
     bindR (irq_install_immediate 4 even_handler q) (\<lambda>(_, q1).
     bindR (irq_install_immediate 3 odd_handler q1) (\<lambda>(_, q2). Inr (s1, q2))))"

section \<open>The null device\<close>

definition pseudo_null_open :: "int \<Rightarrow> dev_fd \<Rightarrow> 'd \<Rightarrow> (int \<times> dev_fd \<times> 'd) res" where
  "pseudo_null_open fd file d = Inr (0, file, d)"

definition pseudo_null_read :: "int \<Rightarrow> dev_fd \<Rightarrow> int \<Rightarrow> 'd \<Rightarrow> (int \<times> bytes \<times> dev_fd \<times> 'd) res" where
  "pseudo_null_read fd file len d = Inr (- 1, [], file, d)"

definition pseudo_null_write :: "int \<Rightarrow> dev_fd \<Rightarrow> bytes \<Rightarrow> int \<Rightarrow> 'd \<Rightarrow> (int \<times> dev_fd \<times> 'd) res" where
  "pseudo_null_write fd file buf len d = Inr (len, file, d)"

definition pseudo_null_close :: "int \<Rightarrow> dev_fd \<Rightarrow> 'd \<Rightarrow> (dev_fd \<times> 'd) res" where
  "pseudo_null_close fd file d = Inr (file, d)"

definition pseudo_null_ops :: "'d dev_char_ops" where
  "pseudo_null_ops = \<lparr>cop_open = Some pseudo_null_open, cop_read = Some pseudo_null_read, cop_write = Some pseudo_null_write,
     cop_close = Some pseudo_null_close, cop_ioctl = None\<rparr>"

definition pseudo_null_dev :: "'d dev_char" where
  "pseudo_null_dev = \<lparr>char_id = 0, char_worker = 0, char_ops = pseudo_null_ops\<rparr>"

definition pseudo_null_init :: "nat \<Rightarrow> 'd devsys \<Rightarrow> 'd devsys res" where
  "pseudo_null_init addr s = mapR snd (dev_register_char (cstr ''null'') addr (s\<lparr>chars := (chars s)(addr \<mapsto> pseudo_null_dev)\<rparr>))"

section \<open>Lines\<close>

text \<open>A line for each port: the bytes that arrive, and what was written to the registers.\<close>

type_synonym line = "(u16 \<Rightarrow> bytes) \<times> (u16 \<times> u8) list"

definition line_in :: "line byte_in" where
  "line_in p = (\<lambda>(q, log).
     if p AND 7 = 5 then (if q (p AND NOT 7) = [] then 0 else 1, (q, log))
     else if p AND 7 = 0 then (case q p of [] \<Rightarrow> (0, (q, log)) | b # bs \<Rightarrow> (b, (q(p := bs), log)))
     else (0, (q, log)))"

definition line_out :: "line byte_out" where
  "line_out p v = (\<lambda>(q, log). (q, log @ [(p, v)]))"

definition line_char :: "u8 \<Rightarrow> u8" where
  "line_char c = (if c = 127 then 8 else c)"

lemma drain_line:
  assumes "p \<in> set pcuart_ioports" and "cbufm_ok m" and "p0 < m_size m" and "length (unread m p0) + length (q p) < m_size m"
  shows "\<exists>m'. drain line_in p (q, log) m = Some ((q(p := []), log), m') \<and> cbufm_ok m' \<and> m_size m' = m_size m \<and>
    unread m' p0 = unread m p0 @ map line_char (q p)"
  using assms(2-4)
proof (induction "q p" arbitrary: q m)
  case Nil
  have st: "line_in (p + 5) (q, log) = (0, (q, log))" using assms(1) Nil(1) by (auto simp: line_in_def pcuart_ioports_def)
  have "q(p := []) = q" using Nil(1) by auto
  then show ?case using Nil st by (subst drain.simps) (simp add: reg_defs)
next
  case (Cons c bs)
  let ?q = "q(p := bs)" let ?m = "cbufm_write m [line_char c]"
  have rd: "line_in (p + 5) (q, log) = (1, (q, log))" "line_in p (q, log) = (c, (?q, log))"
    using assms(1) Cons(2) [symmetric] by (auto simp: line_in_def pcuart_ioports_def)
  have ok: "cbufm_ok ?m" "m_size ?m = m_size m" using cbufm_write_ok [OF Cons.prems(1)] by auto
  have u: "unread ?m p0 = unread m p0 @ [line_char c]"
    using cbufm_write_unread [OF Cons.prems(1,2), of "[line_char c]"] Cons(2) [symmetric] Cons.prems(3) by simp
  obtain m' where "drain line_in p (?q, log) ?m = Some ((?q(p := []), log), m')" "cbufm_ok m'" "m_size m' = m_size ?m"
      "unread m' p0 = unread ?m p0 @ map line_char (?q p)"
    using Cons(1) [of ?q ?m] ok Cons.prems u Cons(2) [symmetric] by auto
  then show ?case using rd u ok(2) Cons(2) [symmetric] by (subst drain.simps) (simp add: reg_defs line_char_def)
qed

section \<open>Properties\<close>

text \<open>
  What arrives on a serial line is read from its device: the interrupt of the first port takes every byte, and a read of
  this many bytes gives them in order, a deletion as a backspace.
\<close>

theorem serial_received:
  assumes "uart_ports s = (q, log)" and "pcuart_present s = [True, False, False, False]" and "pcuart_buffers s = m # ms" and "cbufm_ok m"
    and "pcuart_last s = cbufm_sync m # ls" and "length (q 0x3F8) < m_size m" and "length (q 0x3F8) \<le> 64"
  shows "\<exists>s' s''. pcuart_0_2_irq line_in s = Some s' \<and>
    pcuart_read 0 file (int (length (q 0x3F8))) s' = Inr (int (length (q 0x3F8)), map line_char (q 0x3F8), file, s'') \<and> fst (uart_ports s'') 0x3F8 = []"
proof -
  have s: "cbufm_sync m < m_size m" using assms(4) by (simp add: cbufm_ok_def cbufm_sync_def)
  obtain m' where m': "drain line_in 0x3F8 (q, log) m = Some ((q(0x3F8 := []), log), m')" "cbufm_ok m'" "m_size m' = m_size m"
      "unread m' (cbufm_sync m) = map line_char (q 0x3F8)"
    using drain_line [of "0x3F8", OF _ assms(4) s] assms(6) by (auto simp: pcuart_ioports_def unread_sync)
  have rd: "cbufm_available m' (cbufm_sync m) = length (q 0x3F8)" "cbufm_read m' (cbufm_sync m) (length (q 0x3F8)) = (map line_char (q 0x3F8), cbufm_sync m', 0)"
    using read_unread [OF m'(2) _ m'(4)] s m'(3) by simp_all
  let ?s = "s\<lparr>uart_ports := (q(0x3F8 := []), log), pcuart_buffers := m' # ms\<rparr>"
  have i: "pcuart_0_2_irq line_in s = Some ?s"
    using assms(1-3) m'(1) by (simp add: pcuart_0_2_irq_def receive_def pcuart_ioports_def)
  have len: "nat (int (length (q 0x3F8)) mod 2 ^ 32) = length (q 0x3F8)" using assms(7) by simp
  have "pcuart_read 0 file (int (length (q 0x3F8))) ?s =
      Inr (int (length (q 0x3F8)), map line_char (q 0x3F8), file, ?s\<lparr>pcuart_last := cbufm_sync m' # ls\<rparr>)"
    using rd len assms(5,7) by (simp add: pcuart_read_def)
  then show ?thesis using i by (intro exI [of _ ?s] exI [of _ "?s\<lparr>pcuart_last := cbufm_sync m' # ls\<rparr>"]) simp
qed

text \<open>Writing to a serial device sends the bytes in order, a new line as a carriage return and a new line.\<close>

lemma put_bytes_line:
  "fold (put_byte line_out p) bs (q, log) = (q, log @ map (Pair p) (concat (map (\<lambda>c. if c = 10 then [13, 10] else [c]) bs)))"
  by (induction bs arbitrary: log) (simp_all add: put_byte_def line_out_def)

theorem serial_sent:
  assumes "uart_ports s = (q, log)"
  shows "\<exists>s'. pcuart_write line_out 0 file bs (int (length bs)) s = Inr (int (length bs), file, s') \<and>
    uart_ports s' = (q, log @ map (Pair 0x3F8) (concat (map (\<lambda>c. if c = 10 then [13, 10] else [c]) bs)))"
  using assms put_bytes_line [of "0x3F8"] by (simp add: pcuart_write_def pcuart_ioports_def REG_DATA_def)

end
