(* ===== verification/PageMap.thy ===== *)
theory PageMap
  imports Page
begin

text \<open>
  The life of a page map in \<^verbatim>\<open>arch/x64/page.c\<close>: its creation with the entry of the kernel, the walk over its
  pages (\<open>kpforeach\<close>), and its disposal, which gives the frames of its tables back.
\<close>

section \<open>Creation\<close>

text \<open>The state of the kernel's own map; \<open>pml4\<close> is the address of the table of the boot code.\<close>

definition mempg_init :: "u64 \<Rightarrow> pgstate \<Rightarrow> pgstate" where
  "mempg_init pml4 s = s\<lparr>pmap := (pmap s)\<lparr>vstart := 0xFFFFFFFF80100000, vend := 0xFFFFFFFFFFFFFFFF, root_dir := pml4, dir_frames_used := 8\<rparr>\<rparr>"

text \<open>\<open>pdpt1\<close> is the table that maps the kernel.\<close>

definition mempg_create_dir :: "u64 \<Rightarrow> pgstate \<Rightarrow> (u64 \<times> pgstate) res" where
  "mempg_create_dir pdpt1 s =
     bindR (kfcalloc (frs s) 1) (\<lambda>(frame, fr).
     mapR (\<lambda>paddr. let addr = word_of_nat paddr
                   in (addr, s\<lparr>frs := fr, store := (store s)(addr AND MEM_PAGE_MASK := (replicate 512 0)[511 := pdpt1 OR PAGE_WRITE OR PAGE_PRESENT])\<rparr>))
       (kfpaddrof fr frame))"

definition kp_create_map :: "u64 \<Rightarrow> pgstate \<Rightarrow> (pagemap \<times> pgstate) res" where
  "kp_create_map pdpt1 s =
     mapR (\<lambda>(addr, s'). (\<lparr>root_dir = addr, vstart = 0, vend = 0, pm_frames_used = 0, dir_frames_used = 0, map_frames_used = 0\<rparr>, s'))
       (mempg_create_dir pdpt1 s)"

section \<open>Disposal\<close>

definition free_at :: "u64 \<Rightarrow> frames \<Rightarrow> frames res" where
  "free_at a fr = bindR (kfindexof fr (unat a)) (\<lambda>i. mapR snd (kffree fr i))"

fun dispose_pd :: "u64 list \<Rightarrow> frames \<Rightarrow> frames res" where
  "dispose_pd [] fr = Inr fr"
| "dispose_pd (e # es) fr =
     (if e AND PAGE_PRESENT = 0 then dispose_pd es fr
      else bindR (free_at (e AND MEM_PAGE_MASK) fr) (dispose_pd es))"

fun dispose_pdp :: "(u64 \<Rightarrow> u64 list) \<Rightarrow> u64 list \<Rightarrow> frames \<Rightarrow> frames res" where
  "dispose_pdp m [] fr = Inr fr"
| "dispose_pdp m (e # es) fr =
     (if e AND PAGE_PRESENT = 0 then dispose_pdp m es fr
      else let pd = e AND MEM_PAGE_MASK
           in bindR (dispose_pd (take 512 (m pd)) fr) (\<lambda>f1. bindR (free_at pd f1) (dispose_pdp m es)))"

fun dispose_pml4 :: "(u64 \<Rightarrow> u64 list) \<Rightarrow> u64 list \<Rightarrow> frames \<Rightarrow> frames res" where
  "dispose_pml4 m [] fr = Inr fr"
| "dispose_pml4 m (e # es) fr =
     (if e AND PAGE_PRESENT = 0 then dispose_pml4 m es fr
      else let pdp = e AND MEM_PAGE_MASK
           in bindR (dispose_pdp m (take 512 (m pdp)) fr) (\<lambda>f1. bindR (free_at pdp f1) (dispose_pml4 m es)))"

definition mempg_dispose_dir :: "u64 \<Rightarrow> pgstate \<Rightarrow> pgstate res" where
  "mempg_dispose_dir addr s =
     bindR (dispose_pml4 (store s) (take 510 (store s (addr AND MEM_PAGE_MASK))) (frs s)) (\<lambda>f1.
     mapR (\<lambda>f2. s\<lparr>frs := f2\<rparr>) (free_at addr f1))"

definition kp_dispose_map :: "pagemap \<Rightarrow> pgstate \<Rightarrow> pgstate res" where
  "kp_dispose_map m s = mempg_dispose_dir (root_dir m) s"

text \<open>The directory with the entry for an address, or how much of the address space a missing entry spans.\<close>

definition mempg_find_directory :: "u64 \<Rightarrow> u64 \<Rightarrow> pgstate \<Rightarrow> u64 + u64" where
  "mempg_find_directory virt root s =
     (case find_table (store s) root [(pt_index 39 virt, 0x8000000000), (pt_index 30 virt, 0x40000000)] of
        Inl skip \<Rightarrow> Inl skip
      | Inr pd \<Rightarrow> if store s pd ! pt_index 21 virt = 0 then Inl 0x200000 else Inr pd)"

section \<open>The walk over the pages\<close>

definition KPFOREACH_FIRST :: nat where "KPFOREACH_FIRST = 2048"

record kpforeach_data =
  fe_virt :: u64
  fe_phys :: u64
  fe_flags :: u64
  local_index :: nat
  page_table :: u64

definition kpforeach_init :: "pgstate \<Rightarrow> kpforeach_data" where
  "kpforeach_init s = \<lparr>fe_virt = vstart (pmap s), fe_phys = 0, fe_flags = 0, local_index = KPFOREACH_FIRST, page_table = 0\<rparr>"

definition at_entry :: "u64 \<Rightarrow> kpforeach_data \<Rightarrow> kpforeach_data" where
  "at_entry e fe = fe\<lparr>fe_flags := e AND NOT MEM_PAGE_MASK, fe_phys := e AND MEM_PAGE_MASK\<rparr>"

text \<open>The rest of the table the walk is in.\<close>

function same_table :: "u64 list \<Rightarrow> kpforeach_data \<Rightarrow> bool \<times> kpforeach_data" where
  "same_table tb fe =
     (if local_index fe < 512
      then let fe1 = fe\<lparr>fe_virt := fe_virt fe + 0x1000, local_index := local_index fe + 1\<rparr>
           in if local_index fe1 = 512 then (False, fe1)
              else let e = tb ! local_index fe1
                   in if e = 0 then same_table tb (fe1\<lparr>fe_phys := 0\<rparr>) else (True, at_entry e fe1)
      else (False, fe))"
  by pat_completeness auto
termination
  by (relation "measure (\<lambda>(tb, fe). 512 - local_index fe)") auto

declare same_table.simps [simp del]

text \<open>
  The next table with a page. The address moves on only over tables that are missing: a table without a page is
  looked at again.
\<close>

partial_function (option) advance_table :: "pgstate \<Rightarrow> kpforeach_data \<Rightarrow> (bool \<times> kpforeach_data) option" where
  "advance_table s fe =
     (if fe_virt fe < vend (pmap s)
      then (case mempg_find_table' s (fe_virt fe) of
              Inl skip \<Rightarrow> advance_table s (fe\<lparr>fe_virt := fe_virt fe + skip\<rparr>)
            | Inr t \<Rightarrow>
                let ix = (if local_index fe = KPFOREACH_FIRST then unat (fe_virt fe AND 0x1FFFFF) div 0x1000 else 0)
                in case find (\<lambda>j. store s t ! j \<noteq> 0) [ix..<512] of
                     None \<Rightarrow> advance_table s (fe\<lparr>local_index := 512, page_table := t, fe_phys := 0\<rparr>)
                   | Some j \<Rightarrow> Some (True, at_entry (store s t ! j) (fe\<lparr>local_index := j, page_table := t\<rparr>)))
      else Some (False, fe))"

definition kpforeach_advance :: "pgstate \<Rightarrow> kpforeach_data \<Rightarrow> (bool \<times> kpforeach_data) option" where
  "kpforeach_advance s fe =
     (case same_table (store s (page_table fe)) fe of
        (True, fe') \<Rightarrow> Some (True, fe')
      | (False, fe') \<Rightarrow> advance_table s fe')"

section \<open>Facts\<close>

lemma dispose_unused: "\<forall>e \<in> set es. e = 0 \<Longrightarrow> dispose_pml4 m es fr = Inr fr"
  by (induction es) simp_all

text \<open>
  A map that is created and disposed of without having been used gives its frame back, when the memory is
  one piece: the numbers of the frames that were in use are in use, and no other.
\<close>

theorem create_dispose:
  assumes "frames_ok (frs s)" and "layout_ok (pieces (frs s))" and "pieces (frs s) = [p]" and "kp_create_map pdpt1 s = Inr (m, s1)"
    and "start p + usable p * CPU_PAGE_SIZE \<le> 2 ^ 64"
  shows "\<exists>s2. kp_dispose_map m s1 = Inr s2 \<and> frames_ok (frs s2) \<and> (\<forall>j < frames_possible (frs s). used (frs s2) j \<longleftrightarrow> used (frs s) j)"
proof -
  let ?fr = "frs s"
  obtain frame fr paddr where c: "kfcalloc ?fr 1 = Inr (frame, fr)" "kfpaddrof fr frame = Inr paddr" "root_dir m = word_of_nat paddr"
      "s1 = s\<lparr>frs := fr, store := (store s)(word_of_nat paddr AND MEM_PAGE_MASK := (replicate 512 0)[511 := pdpt1 OR PAGE_WRITE OR PAGE_PRESENT])\<rparr>"
    using assms(4) by (auto simp: kp_create_map_def mempg_create_dir_def mapR_eq_Inr_iff bindR_eq_Inr_iff Let_def)
  have a: "frames_ok fr" "same_layout ?fr fr" "frame < frames_possible ?fr" "\<not> used ?fr frame"
      "\<forall>j < frames_possible ?fr. used fr j \<longleftrightarrow> j = frame \<or> used ?fr j"
    using kfcalloc_spec [OF assms(1), of 1] c(1) by auto
  have ly: "layout_ok (pieces fr)" using layout_ok_same(1) [OF a(2)] assms(2) by simp
  have sz: "frames_possible ?fr = usable p" using assms(1,3) by (simp add: frames_ok_def)
  obtain q where q: "pieces fr = [q]" "usable q = usable p" "start q = start p"
    using a(2) assms(3) by (cases "pieces fr") (auto simp: same_layout_def)
  have loc: "locate (pieces fr) frame = (0, frame)" using q a(3) sz by simp
  have f: "frame < frames_possible fr" using a(2,3) by (simp add: same_layout_def)
  have ix: "kfindexof fr paddr = Inr frame" by (rule kfindexof_local [OF a(1) ly f loc c(2)])
  have "paddr = start p + frame * CPU_PAGE_SIZE" using kfpaddrof_eq [OF a(1) ly f loc] c(2) q by simp
  moreover have "frame * CPU_PAGE_SIZE < usable p * CPU_PAGE_SIZE" using a(3) sz by (simp add: CPU_PAGE_SIZE_def)
  ultimately have "paddr < 2 ^ 64" using assms(5) by linarith
  then have u: "unat (word_of_nat paddr :: u64) = paddr" by (simp add: unsigned_of_nat take_bit_nat_eq_self)
  obtain fr' where k: "kffree fr frame = Inr (True, fr')" "frames_ok fr'" "\<forall>j < frames_possible fr. used fr' j \<longleftrightarrow> j \<noteq> frame \<and> used fr j"
    using kffree_spec [OF a(1) f] by blast
  have "take 510 ((replicate 512 (0 :: u64))[511 := x]) = replicate 510 0" for x by (simp add: take_update_cancel)
  then have d: "dispose_pml4 (store s1) (take 510 (store s1 (root_dir m AND MEM_PAGE_MASK))) fr = Inr fr"
    using c(3,4) by (simp add: dispose_unused)
  have "kp_dispose_map m s1 = Inr (s1\<lparr>frs := fr'\<rparr>)"
    using d c(3,4) u ix k(1) by (simp add: kp_dispose_map_def mempg_dispose_dir_def free_at_def)
  moreover have "\<forall>j < frames_possible ?fr. used fr' j \<longleftrightarrow> used ?fr j" using k(3) a(2,4,5) by (auto simp: same_layout_def)
  ultimately show ?thesis using k(2) by auto
qed

text \<open>The walk never ends at a table that is there and has no page.\<close>

lemma advance_table_stuck:
  assumes "advance_table s fe = Some r"
  shows "\<not> (fe_virt fe < vend (pmap s) \<and> mempg_find_table' s (fe_virt fe) = Inr t \<and> (\<forall>j < 512. store s t ! j = 0))"
proof (rule advance_table.raw_induct [OF _ assms])
  fix f s fe r
  assume IH: "\<And>s fe r. f s fe = Some r \<Longrightarrow> \<not> (fe_virt fe < vend (pmap s) \<and> mempg_find_table' s (fe_virt fe) = Inr t \<and> (\<forall>j < 512. store s t ! j = 0))"
    and step: "(if fe_virt fe < vend (pmap s)
      then (case mempg_find_table' s (fe_virt fe) of
              Inl skip \<Rightarrow> f s (fe\<lparr>fe_virt := fe_virt fe + skip\<rparr>)
            | Inr t \<Rightarrow>
                let ix = (if local_index fe = KPFOREACH_FIRST then unat (fe_virt fe AND 0x1FFFFF) div 0x1000 else 0)
                in case find (\<lambda>j. store s t ! j \<noteq> 0) [ix..<512] of
                     None \<Rightarrow> f s (fe\<lparr>local_index := 512, page_table := t, fe_phys := 0\<rparr>)
                   | Some j \<Rightarrow> Some (True, at_entry (store s t ! j) (fe\<lparr>local_index := j, page_table := t\<rparr>)))
      else Some (False, fe)) = Some r"
  show "\<not> (fe_virt fe < vend (pmap s) \<and> mempg_find_table' s (fe_virt fe) = Inr t \<and> (\<forall>j < 512. store s t ! j = 0))"
  proof (rule notI, elim conjE)
    assume h: "fe_virt fe < vend (pmap s)" "mempg_find_table' s (fe_virt fe) = Inr t" "\<forall>j < 512. store s t ! j = 0"
    have "find (\<lambda>j. store s t ! j \<noteq> 0) [ix..<512] = None" for ix using h(3) by (simp add: find_None_iff del: upt_rec_numeral)
    then have "f s (fe\<lparr>local_index := 512, page_table := t, fe_phys := 0\<rparr>) = Some r"
      using step h(1,2) by (simp add: Let_def del: upt_rec_numeral)
    from IH [OF this] h show False by simp
  qed
qed

theorem foreach_hangs:
  assumes "vstart (pmap s) < vend (pmap s)" and "mempg_find_table' s (vstart (pmap s)) = Inr t" and "\<forall>j < 512. store s t ! j = 0"
  shows "kpforeach_advance s (kpforeach_init s) = None"
proof -
  have "advance_table s (kpforeach_init s) = None"
    using advance_table_stuck [of s "kpforeach_init s" _ t] assms by (cases "advance_table s (kpforeach_init s)") (auto simp: kpforeach_init_def)
  then show ?thesis by (simp add: kpforeach_advance_def same_table.simps kpforeach_init_def KPFOREACH_FIRST_def)
qed

end
