(* ===== verification/Spec2Isabelle.thy ===== *)
theory Spec2Isabelle
  imports CString KList RCPArray RCPTable CBufM Pool Page Sched Snprintf Path Fd Fs Dev Block IsoImage DevFs Syscall Ttyk Ps2 Printk Disk Exec Pci CharDrv PageMap
begin

text \<open>
  \<^bold>\<open>A verification library of the aex kernel.\<close>

  The kernel is written in C for one 64 bit architecture. This development models its components as
  functions on explicit states, from the primitives to the system calls, and proves what makes each of
  them correct. File names are those of the sources.

  \<^bold>\<open>Layers of the program.\<close> The string routines and the reference counted containers carry everything.
  Memory is managed in three layers: frames (\<^verbatim>\<open>mem/frame.c\<close>), pages (\<^verbatim>\<open>arch/x64/page.c\<close>) and
  the heap (\<^verbatim>\<open>mem/pool.c\<close>). The scheduler (\<^verbatim>\<open>proc/task.c\<close>) with spinlocks, wait queues and events
  runs the threads. Devices are kept in one array (\<^verbatim>\<open>dev/dev.c\<close>), character devices are called
  directly, block devices through a queue of requests that a worker serves. The virtual file system
  (\<^verbatim>\<open>fs/fs.c\<close>) finds the mount of a path and calls the driver of its file system; the two drivers
  read a disk (\<^verbatim>\<open>fs/drv/iso9660\<close>) and show the devices (\<^verbatim>\<open>fs/drv/devfs\<close>). Descriptors
  (\<^verbatim>\<open>fs/fd.c\<close>) stand for open files of the system; a process numbers its own, and system calls
  translate between them. Keys come from the keyboard controller (\<^verbatim>\<open>arch/x64/ps2.c\<close>) through the interrupt queue
  (\<^verbatim>\<open>sys/irq.c\<close>) and the input buffer (\<^verbatim>\<open>dev/input.c\<close>) to the terminal devices (\<^verbatim>\<open>drv/ttyk/ttyk.c\<close>), which
  write to the terminals (\<^verbatim>\<open>arch/x64/tty.c\<close>), as \<^verbatim>\<open>kernel/printk.c\<close> does. Drivers find their devices in the device
  tree (\<^verbatim>\<open>dev/tree.c\<close>), and a program is started from an ELF image (\<^verbatim>\<open>arch/x64/exec_elf.c\<close>).

  \<^bold>\<open>Theories and what they model.\<close>
  \<^item> \<open>Aex_Prelude\<close>: the result type \<open>res\<close>, in which every fault of the C program (a null pointer, an access out
    of bounds, a division by zero, a wait that cannot end) is a value \<open>Inl\<close>, checked list access, conversions between
    C integers, error codes, and the lemmas all components share.
  \<^item> \<open>CString\<close>: \<^verbatim>\<open>kernel/string.c\<close>. Memory is a list of bytes, strings are terminated inside of it.
  \<^item> \<open>Snprintf\<close>: \<^verbatim>\<open>kernel/snprintf.c\<close>, the variable arguments as a list of tagged values.
  \<^item> \<open>KList\<close>: \<^verbatim>\<open>kernel/klist.c\<close>, refined to a map. \<open>Hook\<close>: \<^verbatim>\<open>kernel/hook.c\<close>.
  \<^item> \<open>RefCount\<close>, \<open>RCPArray\<close>, \<open>RCPTable\<close>: the contract of a store with counted references, and the
    macros of \<^verbatim>\<open>rcparray.h\<close> and \<^verbatim>\<open>rcptable.h\<close>, which both satisfy it. A table has a clean-up function or none
    (\<open>rcptable_cinit\<close>, \<open>rcptable_init\<close>). Reference counts are integers without the bound of C's \<open>int\<close>, which
    takes \<open>2 ^ 31\<close> references to reach.
  \<^item> \<open>CBuf\<close>, \<open>CBufM\<close>: the byte buffers \<^verbatim>\<open>kernel/cbuf.c\<close> and \<^verbatim>\<open>kernel/cbufm.c\<close> with interleaved readers and writers.
  \<^item> \<open>Bitmap\<close>, \<open>Frame\<close>, \<open>Pool\<close>, \<open>Page\<close>: \<^verbatim>\<open>mem/frame.c\<close>, \<^verbatim>\<open>mem/pool.c\<close>, \<^verbatim>\<open>arch/x64/page.c\<close>; addresses are 64 bit
    words with their wrap-around, page tables are words in physical memory. In the heap sizes are taken modulo \<open>2 ^ 64\<close> and
    the counters of a pool and their products modulo \<open>2 ^ 32\<close>; its theorems are for one pool below 4 GiB, where no product wraps
    (the only pool the code ever uses has 1 MiB), and for requests whose rounding does not wrap.
  \<^item> \<open>Sched\<close>: threads, scheduler, \<^verbatim>\<open>kernel/spinlock.c\<close>, \<^verbatim>\<open>proc/tqueue.c\<close>, \<^verbatim>\<open>kernel/event.c\<close>.
  \<^item> \<open>Path\<close>, \<open>Fd\<close>, \<open>Fs\<close>: \<^verbatim>\<open>fs/fs.c\<close> and \<^verbatim>\<open>fs/fd.c\<close>; a driver is a record of functions on a state of its own.
  \<^item> \<open>Dev\<close>, \<open>Block\<close>: \<^verbatim>\<open>dev/dev.c\<close>, \<^verbatim>\<open>dev/name.c\<close>, \<^verbatim>\<open>dev/char.c\<close>, \<^verbatim>\<open>dev/block.c\<close>.
  \<^item> \<open>Iso9660\<close>, \<open>IsoImage\<close>: the driver of disks, and its correctness on the bytes of an image.
  \<^item> \<open>DevFs\<close>: \<^verbatim>\<open>fs/drv/devfs/devfs.c\<close>.
  \<^item> \<open>Process\<close>: the processes of \<^verbatim>\<open>proc/task.c\<close> and their clean-up hook in \<^verbatim>\<open>fs/fs.c\<close>.
  \<^item> \<open>Syscall\<close>: \<^verbatim>\<open>fs/syscalls_fs.c\<close>, \<^verbatim>\<open>proc/syscalls_task.c\<close>, \<^verbatim>\<open>kernel/syscall.c\<close>; a file operation inside of a call
    is one step, and what waits and wakes up inside of it is modelled in \<open>Ttyk\<close>, \<open>Block\<close> and \<open>Sched\<close>.
  \<^item> \<open>Tty\<close>: \<^verbatim>\<open>arch/x64/tty.c\<close>, the buffers of the terminals and the display memory. \<open>Printk\<close>: \<^verbatim>\<open>kernel/printk.c\<close> and
    \<^verbatim>\<open>kernel/putsk.c\<close> on the first terminal.
  \<^item> \<open>Input\<close>: \<^verbatim>\<open>dev/input.c\<close> and \<^verbatim>\<open>sys/sys.c\<close>, keys with their modifiers in a buffer with several readers.
    \<open>Ttyk\<close>: \<^verbatim>\<open>drv/ttyk/ttyk.c\<close>, reading keys and interpreting escape sequences.
  \<^item> \<open>Irq\<close>: \<^verbatim>\<open>sys/irq.c\<close>; a worker is a machine whose program counter stands between two accesses to shared state, so
    that interrupts and workers interleave in any order. \<open>Ps2\<close>: \<^verbatim>\<open>arch/x64/ps2.c\<close>, with the ports as functions on a
    state of the controller.
  \<^item> \<open>Pci\<close>: \<^verbatim>\<open>sys/pci.c\<close> on the ports of the host bridge. \<open>CharDrv\<close>: \<^verbatim>\<open>arch/x64/pcuart/pcuart.c\<close> and \<^verbatim>\<open>drv/pseudo/null.c\<close>.
  \<^item> \<open>PageMap\<close>: creation, walk and disposal of page maps in \<^verbatim>\<open>arch/x64/page.c\<close>.
  \<^item> \<open>DevTree\<close>, \<open>Disk\<close>: \<^verbatim>\<open>dev/tree.c\<close> and \<^verbatim>\<open>dev/class/disk.c\<close>; the functions of drivers are arguments.
  \<^item> \<open>Exec\<close>: \<^verbatim>\<open>kernel/kslist.c\<close>, \<^verbatim>\<open>proc/exec_load.c\<close>, \<^verbatim>\<open>arch/x64/exec.c\<close> and the checks and segments of
    \<^verbatim>\<open>arch/x64/exec_elf.c\<close>.

  \<^bold>\<open>State and faults.\<close> A component's global variables are a record; an operation takes and returns it. Code
  between acquiring and releasing a spinlock is one step. A thread that waits gives the state at the wait, and the rest
  of the operation is a definition of its own (\<open>event_wait\<close> and \<open>event_resume\<close>, \<open>task_prwait\<close> and
  \<open>prwait_resume\<close>); a loop that waits for something only another thread can do is the fault \<open>Hang\<close> when it is
  not done yet. Results of \<open>kmalloc\<close> are blocks of unspecified length at least as long as asked for where
  a component uses it, and the heap of \<open>Pool\<close> shows that such blocks are disjoint.

  \<^bold>\<open>Termination.\<close> Loops are structural or have a measure. Where the C loop may run for ever (the wait for a block request,
  the rounds of a block read, the scans of a directory, the loops that poll the keyboard controller) the model is a partial function into \<open>option\<close>, \<open>None\<close> is
  running for ever, and the theorems say that it is \<open>Some\<close> of the result. The scheduler's search is bounded
  by the number of threads ever created, which is also the bound the theorem on waiting gives. The search for free
  pages of \<open>kpmap\<close> has a bound as an argument; no theorem depends on it.

  \<^bold>\<open>Interfaces.\<close> \<open>refstore\<close>, extended by \<open>refstore_alloc\<close> and \<open>refstore_keyed\<close>, is the contract of counted
  references, interpreted as \<open>ra\<close> and \<open>rt\<close> on the array and on the table; \<open>kmap\<close> is interpreted as \<open>kl\<close> on the index list;
  \<open>byte_stream\<close> as \<open>cs\<close> on the circular buffer; \<open>frame_allocator\<close> as \<open>fa\<close> on the frames; \<open>block_source\<close>, what the
  disk driver needs of a device, as \<open>disk\<close> on the reads of the block layer. Between calls a table is \<open>quiet\<close>:
  every slot in use has one reference; \<open>open_at\<close> reads such a table as a map, and the file layers are composed through it.

  \<^bold>\<open>What the theorems show.\<close> Containers: every reference taken is accounted for, an object is freed once and after its last
  use, the list is a map, the buffers deliver the bytes in order. Memory: allocated frames, mapped pages and heap blocks are
  disjoint and usable, freeing gives them back. Scheduling: the choice is round robin, a ready thread waits at most one
  round over the threads ever created, critical sections are not interrupted, a wake-up after the registration is not lost. Files: the mount with the
  longest matching directory is used, opening, reading and closing run the operations of the driver once each and leave
  the tables as they were, also through the numbers of a process; a file of a disk image is found by its path and read
  as its bytes, the device directory lists the devices, a path is made absolute and canonical. Processes: a process reads files
  through its own numbers, ending a process closes its descriptors. Console: characters, clearing, cursor moves and switches stay inside of the screen and the display
  shows the current terminal, writing a text is putting its characters where it stays on the screen, printing agrees with rendering into a buffer, the interrupts are taken in order under any
  schedule, typed keys arrive at the reader, the controller is initialised in finite time. Drivers and programs: the scan of the PCI buses
  finds the devices and restores their registers, attributes are a map,
  a request to a disk reaches its driver, an accepted image with segments of at most 4 GiB less a page lies inside of the address space, segments at page boundaries are
  loaded as the file has them (others end in a panic), and the arguments can be read back by the new process. Theorems of kind error state where the code does not do this:
  they describe defects of the sources.

  \<^bold>\<open>Not modelled.\<close> Start-up, assembler, interrupt and descriptor tables, and the drivers of AHCI disks and of the timers are effects on devices that act at the same time as the code; the ACPI interpreter is a
  library outside of the repository. The contents of thread registers, and messages printed on the console, are left out of
  the operations that contain them; of \<open>elf_load\<close> the header, the segments and the arguments are modelled, not the
  sequence of file and page operations around them, and \<open>dev_debug\<close> only prints. Floating point formatting is left out. Several processors
  running at once are not modelled: interleaving is at the granularity of the steps above.

  \<^bold>\<open>Simplifications of single definitions.\<close> The idle thread is a field of its own and not a pointer into the thread array.
  Indices of containers are converted from \<open>size_t\<close> to \<open>int\<close> as they are, and lengths of argument strings are
  numbers without a bound; both differ from the code only with objects of more than 2 GiB. A worker that finds the lock of the interrupt queue taken makes
  no step; the panic after a million attempts is left out. The registers of a PCI function have bits that can be written and bits that cannot, but none
  that are cleared by writing them.
\<close>

end
